(* ===== verification/XR_Prelude.thy ===== *)
theory XR_Prelude
  imports Main "HOL-Library.Word" "HOL-Library.Sublist"
begin

unbundle bit_operations_syntax

text \<open>
  Shared vocabulary of the development: Rust's machine integers and byte slices, big-endian
  conversions (\<^verbatim>\<open>to_be_bytes\<close>/\<^verbatim>\<open>from_be_bytes\<close>), UTF-8 validation as done by
  \<^verbatim>\<open>String::from_utf8\<close>, I/O errors as values, the clock, bounded channels
  (\<^verbatim>\<open>tokio::sync::mpsc\<close>) and a locale for transition systems with an invariant.
\<close>

section \<open>Machine integers and byte slices\<close>

type_synonym byte = "8 word"
type_synonym bytes = "8 word list"
type_synonym u8 = "8 word"
type_synonym u16 = "16 word"
type_synonym u32 = "32 word"
type_synonym u64 = "64 word"

text \<open>Facts that evaluate byte-level code: unfolded by \<open>simp add: wire_simps\<close>.\<close>

named_theorems wire_simps

text \<open>Facts of the form "this operation leaves that part of the state alone".\<close>

named_theorems frame_simps

subsection \<open>Big-endian conversions\<close>

definition u16_to_be :: "u16 \<Rightarrow> bytes" where
  "u16_to_be w = [ucast (drop_bit 8 w), ucast w]"

definition u16_from_be :: "byte \<Rightarrow> byte \<Rightarrow> u16" where
  "u16_from_be a b = push_bit 8 (ucast a) OR ucast b"

definition u32_to_be :: "u32 \<Rightarrow> bytes" where
  "u32_to_be w = [ucast (drop_bit 24 w), ucast (drop_bit 16 w), ucast (drop_bit 8 w), ucast w]"

definition u32_from_be :: "byte \<Rightarrow> byte \<Rightarrow> byte \<Rightarrow> byte \<Rightarrow> u32" where
  "u32_from_be a b c d =
     push_bit 24 (ucast a) OR push_bit 16 (ucast b) OR push_bit 8 (ucast c) OR ucast d"

definition u64_to_be :: "u64 \<Rightarrow> bytes" where
  "u64_to_be w = map (\<lambda>k. ucast (drop_bit k w)) [56, 48, 40, 32, 24, 16, 8, 0]"

lemma length_u16_to_be [simp]: "length (u16_to_be w) = 2"
  by (simp add: u16_to_be_def)

lemma length_u32_to_be [simp]: "length (u32_to_be w) = 4"
  by (simp add: u32_to_be_def)

lemma length_u64_to_be [simp]: "length (u64_to_be w) = 8"
  by (simp add: u64_to_be_def)

lemma u16_from_to_be [simp]: "u16_from_be (ucast (drop_bit 8 w)) (ucast w) = w"
proof (rule bit_word_eqI)
  fix n assume "n < LENGTH(16)"
  then show "bit (u16_from_be (ucast (drop_bit 8 w)) (ucast w)) n = bit w n"
    by (cases "n < 8") (auto simp: u16_from_be_def bit_simps)
qed

lemma u32_from_to_be [simp]:
  "u32_from_be (ucast (drop_bit 24 w)) (ucast (drop_bit 16 w)) (ucast (drop_bit 8 w)) (ucast w) = w"
proof (rule bit_word_eqI)
  fix n assume "n < LENGTH(32)"
  then consider "n < 8" | "8 \<le> n" "n < 16" | "16 \<le> n" "n < 24" | "24 \<le> n" "n < 32"
    by fastforce
  then show "bit (u32_from_be (ucast (drop_bit 24 w)) (ucast (drop_bit 16 w))
      (ucast (drop_bit 8 w)) (ucast w)) n = bit w n"
    by cases (auto simp: u32_from_be_def bit_simps)
qed

lemma not_bit_byte [simp]: "8 \<le> n \<Longrightarrow> \<not> bit (b :: byte) n"
  using bit_imp_le_length [of b n] by auto

lemma u16_to_from_be: "u16_to_be (u16_from_be a b) = [a, b]"
  unfolding u16_to_be_def u16_from_be_def
  by (auto intro!: bit_word_eqI simp: bit_simps)

lemma u16_to_be_conv: "\<exists>a b. u16_to_be w = [a, b] \<and> u16_from_be a b = w"
  by (simp add: u16_to_be_def)

lemma u32_to_be_conv:
  "\<exists>a b c d. u32_to_be w = [a, b, c, d] \<and> u32_from_be a b c d = w"
  by (simp add: u32_to_be_def)

text \<open>Sixteen-byte values (\<^verbatim>\<open>u128\<close>, IPv6 addresses), most significant byte first.\<close>

definition be_word :: "bytes \<Rightarrow> 128 word" where
  "be_word bs = foldl (\<lambda>acc b. push_bit 8 acc OR ucast b) 0 bs"

definition u128_to_be :: "128 word \<Rightarrow> bytes" where
  "u128_to_be w = map (\<lambda>k. ucast (drop_bit (8 * k) w)) (rev [0..<16])"

lemma length_u128_to_be [simp]: "length (u128_to_be w) = 16"
  by (simp add: u128_to_be_def)

lemma be_word_snoc: "be_word (bs @ [b]) = push_bit 8 (be_word bs) OR ucast b"
  by (simp add: be_word_def)

lemma bit_be_word:
  "bit (be_word bs) n \<longleftrightarrow> n < 128 \<and> n < 8 * length bs \<and> bit (rev bs ! (n div 8)) (n mod 8)"
proof (induction bs arbitrary: n rule: rev_induct)
  case Nil
  then show ?case by (simp add: be_word_def)
next
  case (snoc b bs)
  show ?case
  proof (cases "n < 8")
    case True
    then show ?thesis by (auto simp: be_word_snoc bit_simps)
  next
    case False
    then obtain m where m: "n = m + 8" by (metis add.commute le_Suc_ex not_less)
    then have "n div 8 = Suc (m div 8)" and "n mod 8 = m mod 8" by simp_all
    then show ?thesis
      by (auto simp: be_word_snoc bit_simps snoc.IH m)
  qed
qed

lemma be_word_u128_to_be [simp]: "be_word (u128_to_be w) = w"
proof (rule bit_word_eqI)
  fix n assume "n < LENGTH(128)"
  then have n: "n < 128" by simp
  then have "n div 8 < 16" by simp
  then have "rev (u128_to_be w) ! (n div 8) = ucast (drop_bit (8 * (n div 8)) w)"
    by (simp add: u128_to_be_def rev_map)
  then show "bit (be_word (u128_to_be w)) n = bit w n"
    using n by (simp add: bit_be_word bit_simps)
qed

text \<open>Conversions of lengths: \<^verbatim>\<open>len as u16\<close> keeps a length below \<open>2 ^ 16\<close>.\<close>

lemma unat_of_nat_u16 [simp]: "n < 65536 \<Longrightarrow> unat (of_nat n :: u16) = n"
  by (simp add: unat_of_nat)

lemma unat_of_nat_u8 [simp]: "n < 256 \<Longrightarrow> unat (of_nat n :: u8) = n"
  by (simp add: unat_of_nat)

lemma unat_u16_less [simp]: "unat (w :: u16) < 65536"
  using unsigned_less [of w] by simp

lemma unat_u8_less [simp]: "unat (w :: u8) < 256"
  using unsigned_less [of w] by simp

lemma unat_u32_less [simp]: "unat (w :: u32) < 4294967296"
  using unsigned_less [of w] by simp

lemma unat_u16_le [simp]: "unat (w :: u16) \<le> 65535"
  using unat_u16_less [of w] by linarith

lemma unat_u8_le [simp]: "unat (w :: u8) \<le> 255"
  using unat_u8_less [of w] by linarith

lemma of_nat_u32_le_iff:
  "a < 2 ^ 32 \<Longrightarrow> b < 2 ^ 32 \<Longrightarrow> (of_nat a :: u32) \<le> of_nat b \<longleftrightarrow> a \<le> b"
  by (simp add: word_le_nat_alt unat_of_nat)

lemma of_nat_u32_less_iff:
  "a < 2 ^ 32 \<Longrightarrow> b < 2 ^ 32 \<Longrightarrow> (of_nat a :: u32) < of_nat b \<longleftrightarrow> a < b"
  by (simp add: word_less_nat_alt unat_of_nat)

text \<open>Exclusive or cancels.\<close>

lemma xor_left_cancel [simp]: "(a :: 'a::len word) XOR b = a XOR c \<longleftrightarrow> b = c"
  by (metis xor.assoc xor.left_neutral xor_self_eq)

lemma xor_right_cancel [simp]: "(b :: 'a::len word) XOR a = c XOR a \<longleftrightarrow> b = c"
  by (simp add: xor.commute [of _ a])

text \<open>Prefixes of a concatenation.\<close>

lemma take_length_plus [simp]: "take (length xs + m) (xs @ ys) = xs @ take m ys"
  by simp

lemma take_drop_append [simp]: "take n (drop p xs) @ drop (p + n) xs = drop p xs"
  by (metis add.commute append_take_drop_id drop_drop)

lemma take_drop_append' [simp]: "take n (drop p xs) @ drop (p + n) xs @ ys = drop p xs @ ys"
  by (simp flip: append_assoc)

section \<open>Strings\<close>

text \<open>
  A Rust \<^verbatim>\<open>String\<close> is a sequence of bytes that is valid UTF-8. It is modelled by
  \<^typ>\<open>string\<close> with one \<^typ>\<open>char\<close> per byte, so \<open>length\<close> is Rust's \<^verbatim>\<open>len()\<close>.
\<close>

definition byte_of_char :: "char \<Rightarrow> byte" where
  "byte_of_char c = of_nat (of_char c)"

definition char_of_byte :: "byte \<Rightarrow> char" where
  "char_of_byte b = char_of (unat b)"

definition as_bytes :: "string \<Rightarrow> bytes" where
  "as_bytes s = map byte_of_char s"

lemma of_char_nat_less [simp]: "(of_char c :: nat) < 256"
  using range_nat_of_char by auto

lemma char_of_byte_of_char [simp]: "char_of_byte (byte_of_char c) = c"
  by (simp add: char_of_byte_def byte_of_char_def unat_of_nat)

lemma byte_of_char_of_byte [simp]: "byte_of_char (char_of_byte b) = b"
  by (simp add: char_of_byte_def byte_of_char_def of_char_of)

lemma length_as_bytes [simp]: "length (as_bytes s) = length s"
  by (simp add: as_bytes_def)

lemma map_char_of_byte_as_bytes [simp]: "map char_of_byte (as_bytes s) = s"
  by (simp add: as_bytes_def o_def)

text \<open>Well-formed UTF-8 byte sequences (Unicode table 3-7), as \<^verbatim>\<open>String::from_utf8\<close> accepts them.\<close>

abbreviation in_range :: "byte \<Rightarrow> byte \<Rightarrow> byte \<Rightarrow> bool" where
  "in_range lo hi b \<equiv> lo \<le> b \<and> b \<le> hi"

abbreviation utf8_cont :: "byte \<Rightarrow> bool" where
  "utf8_cont b \<equiv> in_range 0x80 0xBF b"

fun utf8_valid :: "bytes \<Rightarrow> bool" where
  "utf8_valid [] = True"
| "utf8_valid (a # bs) =
     (if a < 0x80 then utf8_valid bs
      else if in_range 0xC2 0xDF a then
        (case bs of b # bs' \<Rightarrow> utf8_cont b \<and> utf8_valid bs' | _ \<Rightarrow> False)
      else if in_range 0xE0 0xEF a then
        (case bs of b # c # bs' \<Rightarrow>
           (if a = 0xE0 then in_range 0xA0 0xBF b
            else if a = 0xED then in_range 0x80 0x9F b else utf8_cont b)
           \<and> utf8_cont c \<and> utf8_valid bs' | _ \<Rightarrow> False)
      else if in_range 0xF0 0xF4 a then
        (case bs of b # c # d # bs' \<Rightarrow>
           (if a = 0xF0 then in_range 0x90 0xBF b
            else if a = 0xF4 then in_range 0x80 0x8F b else utf8_cont b)
           \<and> utf8_cont c \<and> utf8_cont d \<and> utf8_valid bs' | _ \<Rightarrow> False)
      else False)"

definition from_utf8 :: "bytes \<Rightarrow> string option" where
  "from_utf8 bs = (if utf8_valid bs then Some (map char_of_byte bs) else None)"

text \<open>What every Rust string satisfies.\<close>

definition str_ok :: "string \<Rightarrow> bool" where
  "str_ok s \<longleftrightarrow> utf8_valid (as_bytes s)"

lemma from_utf8_as_bytes: "str_ok s \<Longrightarrow> from_utf8 (as_bytes s) = Some s"
  by (simp add: from_utf8_def str_ok_def)

lemma from_utf8_SomeD: "from_utf8 bs = Some s \<Longrightarrow> as_bytes s = bs \<and> str_ok s"
  by (auto simp: from_utf8_def str_ok_def as_bytes_def o_def split: if_splits)

lemma ascii_utf8_valid: "(\<And>b. b \<in> set bs \<Longrightarrow> b < 0x80) \<Longrightarrow> utf8_valid bs"
  by (induction bs) auto

section \<open>Errors as values\<close>

text \<open>
  \<^verbatim>\<open>std::io::Error\<close>: the kind, which callers branch on, and the display text.
  Russian display texts of the source are transliterated.
\<close>

datatype error_kind =
    InvalidData | InvalidInput | BrokenPipe | TimedOut | WouldBlock | Other
  | ConnectionReset | ConnectionRefused | UnexpectedEof

datatype io_error = IoError (kind: error_kind) (msg: string)

type_synonym 'a io_result = "io_error + 'a"

section \<open>Time\<close>

text \<open>
  \<^verbatim>\<open>Instant\<close> is a count of nanoseconds from an arbitrary origin and \<^verbatim>\<open>Duration\<close> a count of
  nanoseconds. \<^verbatim>\<open>elapsed()\<close> saturates at zero, as subtraction on \<^typ>\<open>nat\<close> does.
\<close>

type_synonym instant = nat
type_synonym duration = nat

abbreviation (input) from_secs :: "nat \<Rightarrow> duration" where
  "from_secs s \<equiv> s * 1000000000"

abbreviation (input) from_millis :: "nat \<Rightarrow> duration" where
  "from_millis ms \<equiv> ms * 1000000"

abbreviation (input) as_millis :: "duration \<Rightarrow> nat" where
  "as_millis d \<equiv> d div 1000000"

abbreviation (input) elapsed :: "instant \<Rightarrow> instant \<Rightarrow> duration" where
  "elapsed t0 now \<equiv> now - t0"

section \<open>Bounded channels\<close>

text \<open>
  \<^verbatim>\<open>tokio::sync::mpsc::channel(cap)\<close>: a FIFO queue with a capacity; \<open>rx_open\<close> is cleared when
  the receiver is dropped. \<open>try_send\<close> never waits: it appends, or fails with the reason.
\<close>

record 'a chan =
  cap :: nat
  queue :: "'a list"
  rx_open :: bool

datatype send_error = Full | Closed

definition channel :: "nat \<Rightarrow> 'a chan" where
  "channel n = \<lparr>cap = n, queue = [], rx_open = True\<rparr>"

definition try_send :: "'a \<Rightarrow> 'a chan \<Rightarrow> send_error + 'a chan" where
  "try_send x c =
     (if \<not> rx_open c then Inl Closed
      else if length (queue c) < cap c then Inr (c\<lparr>queue := queue c @ [x]\<rparr>)
      else Inl Full)"

text \<open>A best-effort send drops the value when there is no room (\<^verbatim>\<open>let _ = tx.try_send(..)\<close>).\<close>

definition offer :: "'a \<Rightarrow> 'a chan \<Rightarrow> 'a chan" where
  "offer x c = (case try_send x c of Inl _ \<Rightarrow> c | Inr c' \<Rightarrow> c')"

text \<open>The receiver takes the first value.\<close>

definition pop :: "'a chan \<Rightarrow> 'a chan" where
  "pop c = c\<lparr>queue := tl (queue c)\<rparr>"

definition chan_ok :: "'a chan \<Rightarrow> bool" where
  "chan_ok c \<longleftrightarrow> length (queue c) \<le> cap c"

lemma chan_ok_channel [simp]: "chan_ok (channel n)"
  by (simp add: chan_ok_def channel_def)

lemma try_send_Inr:
  "try_send x c = Inr c' \<Longrightarrow>
     c' = c\<lparr>queue := queue c @ [x]\<rparr> \<and> rx_open c \<and> length (queue c) < cap c"
  by (auto simp: try_send_def split: if_splits)

lemma chan_ok_try_send: "chan_ok c \<Longrightarrow> try_send x c = Inr c' \<Longrightarrow> chan_ok c'"
  by (auto dest!: try_send_Inr simp: chan_ok_def)

lemma chan_ok_offer [simp]: "chan_ok c \<Longrightarrow> chan_ok (offer x c)"
  by (auto simp: offer_def split: sum.splits dest: chan_ok_try_send)

lemma chan_ok_pop [simp]: "chan_ok c \<Longrightarrow> chan_ok (pop c)"
  by (simp add: chan_ok_def pop_def)

lemma pop_sel [simp]: "queue (pop c) = tl (queue c)" "cap (pop c) = cap c" "rx_open (pop c) = rx_open c"
  by (simp_all add: pop_def)

text \<open>
  \<^verbatim>\<open>send().await\<close> waits for room: polled once, it is ready with the value appended, ready with
  an error when the receiver is gone, or pending.
\<close>

datatype 'a poll = Ready 'a | Pending

definition chan_send :: "'a \<Rightarrow> 'a chan \<Rightarrow> (send_error + 'a chan) poll" where
  "chan_send x c =
     (if \<not> rx_open c then Ready (Inl Closed)
      else if length (queue c) < cap c then Ready (Inr (c\<lparr>queue := queue c @ [x]\<rparr>))
      else Pending)"

lemma chan_send_Inr:
  "chan_send x c = Ready (Inr c') \<Longrightarrow>
     c' = c\<lparr>queue := queue c @ [x]\<rparr> \<and> rx_open c \<and> length (queue c) < cap c"
  by (auto simp: chan_send_def split: if_splits)

section \<open>Counting in a list of tasks\<close>

definition count_where :: "('a \<Rightarrow> bool) \<Rightarrow> 'a list \<Rightarrow> nat" where
  "count_where P xs = length (filter P xs)"

lemma count_where_simps [simp]:
  "count_where P [] = 0" "count_where P (xs @ ys) = count_where P xs + count_where P ys"
  "count_where P (x # xs) = (if P x then 1 else 0) + count_where P xs"
  by (simp_all add: count_where_def)

lemma count_where_update:
  "k < length xs \<Longrightarrow> count_where P (xs[k := x]) + (if P (xs ! k) then 1 else 0) = count_where P xs + (if P x then 1 else 0)"
proof (induction xs arbitrary: k)
  case (Cons y ys)
  then show ?case by (cases k) auto
qed simp

lemma count_where_pos: "k < length xs \<Longrightarrow> P (xs ! k) \<Longrightarrow> 0 < count_where P xs"
  by (auto simp: count_where_def filter_empty_conv)

lemma count_where_cong: "(\<And>x. x \<in> set xs \<Longrightarrow> P x = Q x) \<Longrightarrow> count_where P xs = count_where Q xs"
  unfolding count_where_def by (metis filter_cong)

section \<open>Transition systems\<close>

text \<open>
  The contract every stateful component of this development satisfies: an initial state, a
  step relation and an invariant that the first satisfies and the second keeps. A component
  interprets the locale on its own step relation and gets the invariant of every reachable state.
\<close>

inductive reach :: "('s \<Rightarrow> bool) \<Rightarrow> ('s \<Rightarrow> 's \<Rightarrow> bool) \<Rightarrow> 's \<Rightarrow> bool" for init step where
  reach_init: "init s \<Longrightarrow> reach init step s"
| reach_step: "reach init step s \<Longrightarrow> step s t \<Longrightarrow> reach init step t"

locale transition_system =
  fixes init :: "'s \<Rightarrow> bool"
    and step :: "'s \<Rightarrow> 's \<Rightarrow> bool"
    and inv :: "'s \<Rightarrow> bool"
  assumes init_inv: "init s \<Longrightarrow> inv s"
    and step_inv: "inv s \<Longrightarrow> step s t \<Longrightarrow> inv t"
begin

lemma reach_inv: "reach init step s \<Longrightarrow> inv s"
  by (induction rule: reach.induct) (auto intro: init_inv step_inv)

lemma steps_inv: "inv s \<Longrightarrow> step\<^sup>*\<^sup>* s t \<Longrightarrow> inv t"
  by (rotate_tac) (induction rule: rtranclp_induct, auto intro: step_inv)

end

end
