(* ===== verification/Obfuscation.thy ===== *)
theory Obfuscation
  imports XR_Prelude
begin

unbundle bit_operations_syntax

text \<open>
  The obfuscation engine, \<^verbatim>\<open>xr-proto/src/obfuscation.rs\<close>: a positional XOR whose key byte and
  modifier byte depend on the position. \<open>modifier_from_str\<close>, \<open>obfuscator_new\<close>, \<open>modifier\<close> and
  \<open>obf_apply\<close> model the functions of the same names. The code runs on 64-bit servers and phones
  and on 32-bit routers, and \<^verbatim>\<open>usize\<close> arithmetic follows the machine, so the width of
  \<^verbatim>\<open>usize\<close> is a field of the model's record beside the source's four. The release profile
  has no overflow checks, so \<^verbatim>\<open>+\<close> on \<^verbatim>\<open>usize\<close> wraps.

  The lemmas show that the operation is an involution that keeps lengths (the contract
  \<open>stream_cipher\<close> the two codecs rely on), that the substitution table has its 256 entries,
  and when the two pointer widths compute the same bytes.
\<close>

section \<open>The engine\<close>

datatype modifier_strategy = PositionalXorRotate | RotatingSalt | SubstitutionTable

datatype usize_width = Usize32 | Usize64

fun usize_modulus :: "usize_width \<Rightarrow> nat" where
  "usize_modulus Usize32 = 2 ^ 32"
| "usize_modulus Usize64 = 2 ^ 64"

definition modifier_from_str :: "string \<Rightarrow> modifier_strategy option" where
  "modifier_from_str s =
     (if s = ''positional_xor_rotate'' then Some PositionalXorRotate
      else if s = ''rotating_salt'' then Some RotatingSalt
      else if s = ''substitution_table'' then Some SubstitutionTable
      else None)"

record obfuscator =
  obf_key :: bytes
  obf_salt :: u32
  obf_strategy :: modifier_strategy
  obf_sub_table :: bytes
  obf_width :: usize_width

text \<open>
  The generator of the substitution table: \<open>n\<close> entries from index \<open>i\<close> on, the state seeded by
  the salt and stirred with the key.
\<close>

fun sub_table_loop :: "bytes \<Rightarrow> nat \<Rightarrow> nat \<Rightarrow> u32 \<Rightarrow> bytes" where
  "sub_table_loop key i 0 state = []"
| "sub_table_loop key i (Suc n) state =
     (let state1 = state * 1664525 + 1013904223;
          state2 = state1 XOR ucast (key ! (i mod length key))
      in ucast (drop_bit 16 state2) # sub_table_loop key (Suc i) n state2)"

text \<open>The constructor asserts that the key is not empty: \<open>None\<close> is the panic.\<close>

definition obfuscator_new ::
    "bytes \<Rightarrow> u32 \<Rightarrow> modifier_strategy \<Rightarrow> usize_width \<Rightarrow> obfuscator option" where
  "obfuscator_new key salt strategy width =
     (if key = [] then None
      else Some \<lparr>obf_key = key, obf_salt = salt, obf_strategy = strategy,
                 obf_sub_table = sub_table_loop key 0 256 salt, obf_width = width\<rparr>)"

definition modifier :: "obfuscator \<Rightarrow> nat \<Rightarrow> u8" where
  "modifier ob i =
     (case obf_strategy ob of
        PositionalXorRotate \<Rightarrow> ucast ((of_nat i * obf_salt ob) AND 0xFF)
      | RotatingSalt \<Rightarrow> ucast (word_rotl (i mod 32) (obf_salt ob) AND 0xFF)
      | SubstitutionTable \<Rightarrow>
          obf_sub_table ob !
            (((i + unat (obf_salt ob)) mod usize_modulus (obf_width ob)) mod 256))"

text \<open>\<^verbatim>\<open>i + offset\<close> on \<^verbatim>\<open>usize\<close>.\<close>

definition obf_pos :: "obfuscator \<Rightarrow> nat \<Rightarrow> u32 \<Rightarrow> nat" where
  "obf_pos ob i offset = (i + unat offset) mod usize_modulus (obf_width ob)"

definition obf_byte :: "obfuscator \<Rightarrow> nat \<Rightarrow> u32 \<Rightarrow> u8" where
  "obf_byte ob i offset =
     (let p = obf_pos ob i offset
      in obf_key ob ! (p mod length (obf_key ob)) XOR modifier ob p)"

fun obf_apply_from :: "obfuscator \<Rightarrow> nat \<Rightarrow> bytes \<Rightarrow> u32 \<Rightarrow> bytes" where
  "obf_apply_from ob i [] offset = []"
| "obf_apply_from ob i (b # bs) offset =
     (b XOR obf_byte ob i offset) # obf_apply_from ob (Suc i) bs offset"

definition obf_apply :: "obfuscator \<Rightarrow> bytes \<Rightarrow> u32 \<Rightarrow> bytes" where
  "obf_apply ob data offset = obf_apply_from ob 0 data offset"

section \<open>The contract of a stream cipher\<close>

text \<open>
  What \<^verbatim>\<open>protocol.rs\<close> and \<^verbatim>\<open>udp_relay.rs\<close> rely on: the operation keeps the length and undoes
  itself at the same offset.
\<close>

locale stream_cipher =
  fixes crypt :: "bytes \<Rightarrow> u32 \<Rightarrow> bytes"
  assumes crypt_length: "length (crypt data offset) = length data"
    and crypt_crypt: "crypt (crypt data offset) offset = data"
begin

lemma crypt_inject: "crypt a offset = crypt b offset \<longleftrightarrow> a = b"
  using crypt_crypt by metis

lemma crypt_eq_Nil: "crypt data offset = [] \<longleftrightarrow> data = []"
  using crypt_length [of data offset] by (metis length_0_conv)

lemma crypt_swap: "crypt a offset = b \<longleftrightarrow> a = crypt b offset"
  using crypt_crypt by metis

end

lemma length_obf_apply_from [simp]: "length (obf_apply_from ob i data offset) = length data"
  by (induction data arbitrary: i) auto

lemma length_obf_apply [simp]: "length (obf_apply ob data offset) = length data"
  by (simp add: obf_apply_def)

lemma obf_apply_from_involution [simp]:
  "obf_apply_from ob i (obf_apply_from ob i data offset) offset = data"
  by (induction data arbitrary: i) (auto simp: xor.assoc)

lemma obf_apply_involution [simp]: "obf_apply ob (obf_apply ob data offset) offset = data"
  by (simp add: obf_apply_def)

interpretation obf: stream_cipher "obf_apply ob"
  by unfold_locales simp_all

lemma obf_apply_from_nth:
  "k < length data \<Longrightarrow>
     obf_apply_from ob i data offset ! k = data ! k XOR obf_byte ob (i + k) offset"
proof (induction data arbitrary: i k)
  case Nil
  then show ?case by simp
next
  case (Cons b bs)
  show ?case
  proof (cases k)
    case 0
    then show ?thesis by simp
  next
    case (Suc m)
    then show ?thesis using Cons.IH [of m "Suc i"] Cons.prems by simp
  qed
qed

lemma obf_apply_nth:
  "k < length data \<Longrightarrow> obf_apply ob data offset ! k = data ! k XOR obf_byte ob k offset"
  by (simp add: obf_apply_def obf_apply_from_nth)

section \<open>Well-formed obfuscators\<close>

definition obf_wf :: "obfuscator \<Rightarrow> bool" where
  "obf_wf ob \<longleftrightarrow> obf_key ob \<noteq> [] \<and> length (obf_sub_table ob) = 256"

lemma length_sub_table_loop [simp]: "length (sub_table_loop key i n state) = n"
  by (induction n arbitrary: i state) (auto simp: Let_def)

lemma obfuscator_new_wf: "obfuscator_new key salt strategy width = Some ob \<Longrightarrow> obf_wf ob"
  by (auto simp: obfuscator_new_def obf_wf_def split: if_splits)

lemma obfuscator_new_fields:
  assumes "obfuscator_new key salt strategy width = Some ob"
  shows "obf_key ob = key" and "obf_salt ob = salt" and "obf_strategy ob = strategy"
    and "obf_width ob = width" and "obf_sub_table ob = sub_table_loop key 0 256 salt"
  using assms by (auto simp: obfuscator_new_def split: if_splits)

section \<open>Routers and servers: the two widths of usize\<close>

definition on_width :: "usize_width \<Rightarrow> obfuscator \<Rightarrow> obfuscator" where
  "on_width w ob = ob\<lparr>obf_width := w\<rparr>"

lemma mod_usize_mod_256: "n mod usize_modulus w mod 256 = n mod 256"
  by (cases w) (simp_all add: mod_mod_cancel)

lemma modifier_width:
  "modifier (on_width Usize32 ob) (p mod 2 ^ 32) = modifier (on_width Usize64 ob) p"
proof (cases "obf_strategy ob")
  case PositionalXorRotate
  have "(of_nat (p mod 2 ^ 32) :: u32) = of_nat p"
    by (simp add: word_of_nat_eq_iff take_bit_eq_mod)
  then show ?thesis by (simp add: modifier_def on_width_def PositionalXorRotate)
next
  case RotatingSalt
  have "p mod 2 ^ 32 mod 32 = p mod (32 :: nat)" by (simp add: mod_mod_cancel)
  then show ?thesis by (simp add: modifier_def on_width_def RotatingSalt)
next
  case SubstitutionTable
  have "(p mod 2 ^ 32 + s) mod usize_modulus Usize32 mod 256 =
        (p + s) mod usize_modulus Usize64 mod 256" for s
    unfolding mod_usize_mod_256 by (metis mod_add_left_eq mod_usize_mod_256 usize_modulus.simps(1))
  then show ?thesis
    by (simp add: modifier_def on_width_def SubstitutionTable del: usize_modulus.simps)
qed

lemma obf_byte_width_iff:
  assumes "i + unat offset < 2 ^ 64"
  shows "obf_byte (on_width Usize32 ob) i offset = obf_byte (on_width Usize64 ob) i offset \<longleftrightarrow>
         obf_key ob ! ((i + unat offset) mod 2 ^ 32 mod length (obf_key ob)) =
         obf_key ob ! ((i + unat offset) mod length (obf_key ob))"
  using assms modifier_width [of ob "i + unat offset"]
  by (auto simp: obf_byte_def obf_pos_def on_width_def Let_def)

lemma obf_apply_eq_iff:
  "obf_apply ob data offset = obf_apply ob' data offset \<longleftrightarrow>
     (\<forall>i < length data. obf_byte ob i offset = obf_byte ob' i offset)"
  by (auto simp: list_eq_iff_nth_eq obf_apply_nth)

lemma obf_apply_width_agree:
  assumes "length data + unat offset \<le> 2 ^ 32 \<or> length (obf_key ob) dvd 2 ^ 32"
    and "length data + unat offset < 2 ^ 64"
  shows "obf_apply (on_width Usize32 ob) data offset = obf_apply (on_width Usize64 ob) data offset"
  unfolding obf_apply_eq_iff
proof (intro allI impI)
  fix i assume "i < length data"
  with assms show "obf_byte (on_width Usize32 ob) i offset = obf_byte (on_width Usize64 ob) i offset"
    by (intro obf_byte_width_iff [THEN iffD2]) (auto simp: mod_mod_cancel)
qed

text \<open>
  A router with 32-bit \<^verbatim>\<open>usize\<close> and a 64-bit server obfuscate a packet alike exactly when at
  every position the wrapped and the unwrapped offset select the same key byte; the modifier
  byte never differs. So the two builds always interoperate below offset \<open>2 ^ 32\<close> and for key
  lengths that divide \<open>2 ^ 32\<close>, and may differ otherwise.
\<close>

theorem obf_apply_width_iff:
  assumes "length data + unat offset < 2 ^ 64"
  shows "obf_apply (on_width Usize32 ob) data offset = obf_apply (on_width Usize64 ob) data offset
    \<longleftrightarrow> (\<forall>i < length data.
           obf_key ob ! ((i + unat offset) mod 2 ^ 32 mod length (obf_key ob)) =
           obf_key ob ! ((i + unat offset) mod length (obf_key ob)))"
  using assms by (auto simp: obf_apply_eq_iff obf_byte_width_iff)

definition odd_key_obfuscator :: obfuscator where
  "odd_key_obfuscator = \<lparr>obf_key = [1, 2, 3], obf_salt = 7, obf_strategy = PositionalXorRotate,
     obf_sub_table = sub_table_loop [1, 2, 3] 0 256 7, obf_width = Usize64\<rparr>"

theorem obf_apply_width_iff_witness:
  "length [0, 0 :: byte] + unat (0xFFFFFFFF :: u32) < 2 ^ 64 \<and>
   obf_apply (on_width Usize32 odd_key_obfuscator) [0, 0] 0xFFFFFFFF \<noteq>
   obf_apply (on_width Usize64 odd_key_obfuscator) [0, 0] 0xFFFFFFFF"
proof -
  let ?key = "obf_key odd_key_obfuscator"
  have h: "length [0, 0 :: byte] + unat (0xFFFFFFFF :: u32) < 2 ^ 64" by simp
  have "\<not> (\<forall>i < length [0, 0 :: byte].
      ?key ! ((i + unat (0xFFFFFFFF :: u32)) mod 2 ^ 32 mod length ?key) =
      ?key ! ((i + unat (0xFFFFFFFF :: u32)) mod length ?key))"
    by (auto simp: odd_key_obfuscator_def intro!: exI [of _ 1])
  with h show ?thesis by (simp only: obf_apply_width_iff [OF h] simp_thms)
qed

end
