(* ===== verification/Protocol.thy ===== *)
theory Protocol
  imports Obfuscation
begin

unbundle bit_operations_syntax

text \<open>
  The TCP wire protocol, \<^verbatim>\<open>xr-proto/src/protocol.rs\<close>: commands and their byte with the magic bits,
  the \<^verbatim>\<open>stream_id\<close> prefix of multiplexed payloads, target addresses, and the frame codec.
  Randomness (\<^verbatim>\<open>rand::thread_rng\<close>, a third-party crate) is an argument of \<open>encode_frame\<close>: the
  nonce, the range draw and the fill bytes it returns.

  The lemmas show the round trips and the prefix behaviour of the codec; \<open>frame_codec\<close> is the
  contract the mux reader relies on, interpreted here on the model's own codec.
\<close>

section \<open>Constants\<close>

definition NONCE_LEN :: nat where "NONCE_LEN = 4"
definition HEADER_LEN :: nat where "HEADER_LEN = 4"
definition MAX_PAYLOAD_LEN :: nat where "MAX_PAYLOAD_LEN = 65535"
definition MAX_PADDING_LEN :: nat where "MAX_PADDING_LEN = 255"
definition MAX_DOMAIN_LEN :: nat where "MAX_DOMAIN_LEN = 255"
definition HEADER_MAGIC_MASK :: u8 where "HEADER_MAGIC_MASK = 0xE0"
definition HEADER_MAGIC :: u8 where "HEADER_MAGIC = 0xA0"

definition CLOSE_REASON_RESOLVE_FAIL :: u8 where "CLOSE_REASON_RESOLVE_FAIL = 1"
definition CLOSE_REASON_CONNECT_FAIL :: u8 where "CLOSE_REASON_CONNECT_FAIL = 2"
definition CLOSE_REASON_AGENT_OFFLINE :: u8 where "CLOSE_REASON_AGENT_OFFLINE = 3"
definition CLOSE_REASON_RELAY_BUSY :: u8 where "CLOSE_REASON_RELAY_BUSY = 4"
definition CLOSE_REASON_STREAM_LIMIT :: u8 where "CLOSE_REASON_STREAM_LIMIT = 5"

lemmas proto_consts = NONCE_LEN_def HEADER_LEN_def MAX_PAYLOAD_LEN_def MAX_PADDING_LEN_def
  MAX_DOMAIN_LEN_def

section \<open>Commands\<close>

datatype command =
    Connect | Data | Close | ConnectAck | MuxInit | MuxInitAck | Ping | Pong | WindowUpdate

fun command_code :: "command \<Rightarrow> u8" where
  "command_code Connect = 1"
| "command_code Data = 2"
| "command_code Close = 3"
| "command_code ConnectAck = 4"
| "command_code MuxInit = 5"
| "command_code MuxInitAck = 6"
| "command_code Ping = 7"
| "command_code Pong = 8"
| "command_code WindowUpdate = 9"

definition command_from_byte :: "u8 \<Rightarrow> command option" where
  "command_from_byte b =
     (if b AND HEADER_MAGIC_MASK \<noteq> HEADER_MAGIC then None
      else let c = b AND 0x1F in
        if c = 1 then Some Connect
        else if c = 2 then Some Data
        else if c = 3 then Some Close
        else if c = 4 then Some ConnectAck
        else if c = 5 then Some MuxInit
        else if c = 6 then Some MuxInitAck
        else if c = 7 then Some Ping
        else if c = 8 then Some Pong
        else if c = 9 then Some WindowUpdate
        else None)"

definition command_to_byte :: "command \<Rightarrow> u8" where
  "command_to_byte c = HEADER_MAGIC OR command_code c"

lemma command_from_to_byte [simp]: "command_from_byte (command_to_byte c) = Some c"
  by (cases c) (simp_all add: command_from_byte_def command_to_byte_def HEADER_MAGIC_MASK_def
      HEADER_MAGIC_def)

section \<open>Multiplexed payloads\<close>

definition encode_mux_payload :: "u32 \<Rightarrow> bytes \<Rightarrow> bytes" where
  "encode_mux_payload stream_id data = u32_to_be stream_id @ data"

definition decode_mux_payload :: "bytes \<Rightarrow> (u32 \<times> bytes) io_result" where
  "decode_mux_payload payload =
     (if length payload < 4 then Inl (IoError InvalidData ''mux payload too short for stream_id'')
      else Inr (u32_from_be (payload ! 0) (payload ! 1) (payload ! 2) (payload ! 3), drop 4 payload))"

lemma length_encode_mux_payload [simp]: "length (encode_mux_payload sid d) = 4 + length d"
  by (simp add: encode_mux_payload_def)

lemma decode_encode_mux_payload [simp]:
  "decode_mux_payload (encode_mux_payload sid d) = Inr (sid, d)"
  by (simp add: decode_mux_payload_def encode_mux_payload_def u32_to_be_def)

section \<open>Target addresses\<close>

text \<open>\<^verbatim>\<open>SocketAddrV6\<close> also carries a flow label and a scope id, which the wire format drops.\<close>

datatype socket_addr = SaV4 u32 u16 | SaV6 "128 word" u16 u32 u32

fun sa_port :: "socket_addr \<Rightarrow> u16" where
  "sa_port (SaV4 ip port) = port"
| "sa_port (SaV6 ip port flow scope) = port"

datatype target_addr = TaIp socket_addr | TaDomain string u16

fun target_addr_encode :: "target_addr \<Rightarrow> bytes io_result" where
  "target_addr_encode (TaIp (SaV4 ip port)) = Inr (0x01 # u32_to_be ip @ u16_to_be port)"
| "target_addr_encode (TaIp (SaV6 ip port flow scope)) =
     Inr (0x04 # u128_to_be ip @ u16_to_be port)"
| "target_addr_encode (TaDomain domain port) =
     (let domain_bytes = as_bytes domain in
      if length domain_bytes > MAX_DOMAIN_LEN
      then Inl (IoError InvalidInput ''domain too long for wire format'')
      else Inr (0x03 # of_nat (length domain_bytes) # domain_bytes @ u16_to_be port))"

definition target_addr_decode :: "bytes \<Rightarrow> (target_addr \<times> nat) io_result" where
  "target_addr_decode data =
     (if data = [] then Inl (IoError InvalidData ''empty address'')
      else if data ! 0 = 0x01 then
        (if length data < 7 then Inl (IoError InvalidData ''short IPv4'')
         else Inr (TaIp (SaV4 (u32_from_be (data ! 1) (data ! 2) (data ! 3) (data ! 4))
                              (u16_from_be (data ! 5) (data ! 6))), 7))
      else if data ! 0 = 0x04 then
        (if length data < 19 then Inl (IoError InvalidData ''short IPv6'')
         else Inr (TaIp (SaV6 (be_word (take 16 (drop 1 data)))
                              (u16_from_be (data ! 17) (data ! 18)) 0 0), 19))
      else if data ! 0 = 0x03 then
        (if length data < 2 then Inl (IoError InvalidData ''short domain'')
         else let dlen = unat (data ! 1); total = 2 + dlen + 2 in
           if length data < total then Inl (IoError InvalidData ''short domain data'')
           else case from_utf8 (take dlen (drop 2 data)) of
               None \<Rightarrow> Inl (IoError InvalidData ''invalid domain'')
             | Some domain \<Rightarrow>
                 Inr (TaDomain domain (u16_from_be (data ! (2 + dlen)) (data ! (3 + dlen))), total))
      else Inl (IoError InvalidData ''unknown addr type''))"

section \<open>Frames\<close>

datatype frame = Frame (command: command) (payload: bytes)

record codec =
  obfuscator :: obfuscator
  padding_min :: u8
  padding_max :: u8

text \<open>
  What one call draws from the random generator: a nonce, the result of \<^verbatim>\<open>gen_range(min..=max)\<close>
  and the bytes \<^verbatim>\<open>fill\<close> writes.
\<close>

record rng =
  rng_nonce :: u32
  rng_range :: "u8 \<Rightarrow> u8 \<Rightarrow> u8"
  rng_fill :: "nat \<Rightarrow> u8"

text \<open>The documented contract of \<^verbatim>\<open>gen_range\<close>: the draw lies in the range asked for.\<close>

definition rng_ok :: "rng \<Rightarrow> bool" where
  "rng_ok r \<longleftrightarrow> (\<forall>lo hi. lo \<le> hi \<longrightarrow> lo \<le> rng_range r lo hi \<and> rng_range r lo hi \<le> hi)"

definition draw_padding_len :: "rng \<Rightarrow> codec \<Rightarrow> u8" where
  "draw_padding_len r c =
     (if padding_max c > padding_min c then rng_range r (padding_min c) (padding_max c)
      else padding_min c)"

text \<open>Header, obfuscated with the nonce; padding in clear; payload at the shifted offset.\<close>

definition frame_header :: "command \<Rightarrow> nat \<Rightarrow> u8 \<Rightarrow> bytes" where
  "frame_header cmd payload_len padding_len =
     u16_to_be (of_nat payload_len) @ [padding_len, command_to_byte cmd]"

definition payload_offset :: "u32 \<Rightarrow> nat \<Rightarrow> u32" where
  "payload_offset nonce padding_len = nonce + of_nat (HEADER_LEN + padding_len)"

definition assemble_frame ::
    "(bytes \<Rightarrow> u32 \<Rightarrow> bytes) \<Rightarrow> u32 \<Rightarrow> bytes \<Rightarrow> command \<Rightarrow> bytes \<Rightarrow> bytes" where
  "assemble_frame crypt nonce padding cmd data =
     u32_to_be nonce
     @ crypt (frame_header cmd (length data) (of_nat (length padding))) nonce
     @ padding
     @ crypt data (payload_offset nonce (length padding))"

definition encode_frame :: "rng \<Rightarrow> codec \<Rightarrow> command \<Rightarrow> bytes \<Rightarrow> bytes io_result" where
  "encode_frame r c cmd data =
     (if length data > MAX_PAYLOAD_LEN then Inl (IoError InvalidInput ''payload too large'')
      else let padding_len = unat (draw_padding_len r c);
               padding = map (rng_fill r) [0..<padding_len]
           in Inr (assemble_frame (obf_apply (obfuscator c)) (rng_nonce r) padding cmd data))"

definition wire_nonce :: "bytes \<Rightarrow> u32" where
  "wire_nonce buf = u32_from_be (buf ! 0) (buf ! 1) (buf ! 2) (buf ! 3)"

text \<open>The part of \<^verbatim>\<open>decode_frame\<close> after the header is deobfuscated.\<close>

definition parse_body ::
    "(bytes \<Rightarrow> u32 \<Rightarrow> bytes) \<Rightarrow> u32 \<Rightarrow> bytes \<Rightarrow> bytes \<Rightarrow> (frame \<times> nat) option io_result" where
  "parse_body crypt nonce header buf =
     (let payload_len = unat (u16_from_be (header ! 0) (header ! 1));
          padding_len = unat (header ! 2)
      in case command_from_byte (header ! 3) of
           None \<Rightarrow> Inl (IoError InvalidData ''invalid command/magic - wrong key?'')
         | Some cmd \<Rightarrow>
             if payload_len > MAX_PAYLOAD_LEN \<or> padding_len > 255
             then Inl (IoError InvalidData ''bad frame header'')
             else
               let total_len = NONCE_LEN + HEADER_LEN + padding_len + payload_len in
               if length buf < total_len then Inr None
               else
                 let payload_start = NONCE_LEN + HEADER_LEN + padding_len;
                     body = take payload_len (drop payload_start buf)
                 in Inr (Some (Frame cmd (crypt body (payload_offset nonce padding_len)),
                               total_len)))"

definition parse_frame ::
    "(bytes \<Rightarrow> u32 \<Rightarrow> bytes) \<Rightarrow> bytes \<Rightarrow> (frame \<times> nat) option io_result" where
  "parse_frame crypt buf =
     (if length buf < NONCE_LEN + HEADER_LEN then Inr None
      else
        let nonce = wire_nonce buf;
            header = crypt (take HEADER_LEN (drop NONCE_LEN buf)) nonce
        in parse_body crypt nonce header buf)"

definition decode_frame :: "codec \<Rightarrow> bytes \<Rightarrow> (frame \<times> nat) option io_result" where
  "decode_frame c buf = parse_frame (obf_apply (obfuscator c)) buf"

section \<open>Round trips of the frame codec\<close>

lemma length_frame_header [simp]: "length (frame_header cmd n p) = HEADER_LEN"
  by (simp add: frame_header_def HEADER_LEN_def)

lemma frame_header_nth:
  assumes "n < 65536"
  shows "unat (u16_from_be (frame_header cmd n p ! 0) (frame_header cmd n p ! Suc 0)) = n"
    and "frame_header cmd n p ! 2 = p"
    and "command_from_byte (frame_header cmd n p ! 3) = Some cmd"
  using assms by (simp_all add: frame_header_def u16_to_be_def)

context stream_cipher
begin

lemma length_assemble_frame:
  "length (assemble_frame crypt nonce padding cmd data) =
     NONCE_LEN + HEADER_LEN + length padding + length data"
  by (simp add: assemble_frame_def crypt_length NONCE_LEN_def)

text \<open>What the parser reads from the first eight bytes of an assembled frame.\<close>

lemma assembled_prefix:
  fixes nonce padding cmd data rest
  assumes "8 \<le> k"
  defines "buf \<equiv> take k (assemble_frame crypt nonce padding cmd data @ rest)"
  shows "wire_nonce buf = nonce"
    and "crypt (take HEADER_LEN (drop NONCE_LEN buf)) nonce =
         frame_header cmd (length data) (of_nat (length padding))"
proof -
  let ?h = "crypt (frame_header cmd (length data) (of_nat (length padding))) nonce"
  obtain a b c d where n: "u32_to_be nonce = [a, b, c, d]" "u32_from_be a b c d = nonce"
    using u32_to_be_conv by blast
  have h: "length ?h = 4" by (simp add: crypt_length HEADER_LEN_def)
  let ?rest = "padding @ crypt data (payload_offset nonce (length padding)) @ rest"
  have "length ([a, b, c, d] @ ?h) \<le> k" using assms(1) h by simp
  then obtain m where m: "k = length ([a, b, c, d] @ ?h) + m" using le_Suc_ex by blast
  have "assemble_frame crypt nonce padding cmd data @ rest = ([a, b, c, d] @ ?h) @ ?rest"
    by (simp add: assemble_frame_def n)
  then have buf: "buf = ([a, b, c, d] @ ?h) @ take m ?rest"
    by (simp only: buf_def m take_length_plus)
  show "wire_nonce buf = nonce"
    using n(2) by (simp add: wire_nonce_def buf)
  have "take HEADER_LEN (drop NONCE_LEN buf) = ?h"
    by (simp add: buf h HEADER_LEN_def NONCE_LEN_def)
  then show "crypt (take HEADER_LEN (drop NONCE_LEN buf)) nonce =
         frame_header cmd (length data) (of_nat (length padding))"
    by (simp add: crypt_crypt)
qed

lemma parse_assembled_take:
  assumes "8 \<le> k"
  shows "parse_frame crypt (take k (assemble_frame crypt nonce padding cmd data @ rest)) =
    parse_body crypt nonce (frame_header cmd (length data) (of_nat (length padding)))
      (take k (assemble_frame crypt nonce padding cmd data @ rest))"
proof -
  let ?buf = "take k (assemble_frame crypt nonce padding cmd data @ rest)"
  have "\<not> length ?buf < NONCE_LEN + HEADER_LEN"
    using assms by (auto simp: length_assemble_frame NONCE_LEN_def HEADER_LEN_def min_def)
  then show ?thesis
    unfolding parse_frame_def Let_def assembled_prefix [OF assms, of nonce padding cmd data rest]
    by (simp only: if_False)
qed

lemma parse_assembled:
  assumes "length data \<le> MAX_PAYLOAD_LEN" and "length padding \<le> MAX_PADDING_LEN"
  shows "parse_frame crypt (assemble_frame crypt nonce padding cmd data @ rest) =
    Inr (Some (Frame cmd data, length (assemble_frame crypt nonce padding cmd data)))"
proof -
  let ?buf = "assemble_frame crypt nonce padding cmd data @ rest"
  have lens: "length data < 65536" "length padding < 256"
    using assms by (simp_all add: proto_consts)
  have "8 \<le> length ?buf" by (simp add: length_assemble_frame proto_consts)
  from parse_assembled_take [OF this]
  have parse: "parse_frame crypt ?buf =
      parse_body crypt nonce (frame_header cmd (length data) (of_nat (length padding))) ?buf"
    by (metis take_all_iff order_refl)
  have body: "take (length data) (drop (NONCE_LEN + HEADER_LEN + length padding) ?buf) =
      crypt data (payload_offset nonce (length padding))"
    by (simp add: assemble_frame_def crypt_length NONCE_LEN_def)
  show ?thesis
    unfolding parse parse_body_def Let_def
    using lens body
    by (simp add: frame_header_nth length_assemble_frame crypt_crypt crypt_length MAX_PAYLOAD_LEN_def)
qed

lemma parse_assembled_prefix:
  assumes "length data \<le> MAX_PAYLOAD_LEN" and "length padding \<le> MAX_PADDING_LEN"
    and k: "k < length (assemble_frame crypt nonce padding cmd data)"
  shows "parse_frame crypt (take k (assemble_frame crypt nonce padding cmd data)) = Inr None"
proof (cases "k < 8")
  case True
  then have "length (take k (assemble_frame crypt nonce padding cmd data)) < 8" by simp
  then show ?thesis by (simp add: parse_frame_def proto_consts)
next
  case False
  have lens: "length data < 65536" "length padding < 256"
    using assms(1,2) by (simp_all add: proto_consts)
  from False parse_assembled_take [of k nonce padding cmd data "[]"] k lens show ?thesis
    by (simp add: parse_body_def Let_def frame_header_nth length_assemble_frame MAX_PAYLOAD_LEN_def)
qed

text \<open>A parsed frame fits its buffer, consumes at least a header, and does not look past its end.\<close>

lemma parse_body_bounds:
  assumes "parse_body crypt nonce header buf = Inr (Some (f, n))"
  shows "8 \<le> n" and "n \<le> length buf" and "length (payload f) \<le> MAX_PAYLOAD_LEN"
  using assms
  by (auto simp: parse_body_def Let_def crypt_length NONCE_LEN_def HEADER_LEN_def
      split: if_splits option.splits)

lemma parse_frame_bounds:
  assumes "parse_frame crypt buf = Inr (Some (f, n))"
  shows "8 \<le> n" and "n \<le> length buf" and "length (payload f) \<le> MAX_PAYLOAD_LEN"
  using assms by (auto simp: parse_frame_def Let_def dest: parse_body_bounds split: if_splits)

lemma parse_body_None:
  "parse_body crypt nonce header buf = Inr None \<Longrightarrow>
   length buf < NONCE_LEN + HEADER_LEN + MAX_PADDING_LEN + MAX_PAYLOAD_LEN"
  by (auto simp: parse_body_def Let_def proto_consts split: if_splits option.splits)

lemma parse_frame_None:
  "parse_frame crypt buf = Inr None \<Longrightarrow>
   length buf < NONCE_LEN + HEADER_LEN + MAX_PADDING_LEN + MAX_PAYLOAD_LEN"
  by (auto simp: parse_frame_def Let_def proto_consts dest: parse_body_None split: if_splits)

lemma parse_body_extend:
  "parse_body crypt nonce header buf \<noteq> Inr None \<Longrightarrow>
   parse_body crypt nonce header (buf @ tail) = parse_body crypt nonce header buf"
  by (auto simp: parse_body_def Let_def split: if_splits option.splits)

lemma parse_frame_extend:
  assumes "parse_frame crypt buf \<noteq> Inr None"
  shows "parse_frame crypt (buf @ tail) = parse_frame crypt buf"
proof -
  have l: "8 \<le> length buf"
    using assms by (auto simp: parse_frame_def proto_consts split: if_splits)
  then have "wire_nonce (buf @ tail) = wire_nonce buf"
    and "take HEADER_LEN (drop NONCE_LEN (buf @ tail)) = take HEADER_LEN (drop NONCE_LEN buf)"
    by (auto simp: wire_nonce_def nth_append HEADER_LEN_def NONCE_LEN_def)
  with assms l show ?thesis
    by (simp add: parse_frame_def Let_def parse_body_extend NONCE_LEN_def HEADER_LEN_def)
qed

end

section \<open>The contract of the codec\<close>

text \<open>The byte sequences \<^verbatim>\<open>encode_frame\<close> may put on the wire for a frame, whatever the generator draws.\<close>

definition wire_image :: "codec \<Rightarrow> frame \<Rightarrow> bytes \<Rightarrow> bool" where
  "wire_image c f w \<longleftrightarrow> (\<exists>r. encode_frame r c (command f) (payload f) = Inr w)"

lemma wire_imageE:
  assumes "wire_image c f w"
  obtains nonce padding where
    "w = assemble_frame (obf_apply (obfuscator c)) nonce padding (command f) (payload f)"
    "length (payload f) \<le> MAX_PAYLOAD_LEN" "length padding \<le> MAX_PADDING_LEN"
proof -
  from assms obtain r where r: "encode_frame r c (command f) (payload f) = Inr w"
    by (auto simp: wire_image_def)
  let ?p = "map (rng_fill r) [0..<unat (draw_padding_len r c)]"
  have "length ?p \<le> MAX_PADDING_LEN" by (simp add: MAX_PADDING_LEN_def)
  with r that [of "rng_nonce r" ?p] show ?thesis
    by (auto simp: encode_frame_def Let_def split: if_splits)
qed

text \<open>
  What a reader of a byte stream needs from a codec: the image of a frame decodes to that frame
  whatever follows, an incomplete image asks for more, a decoded frame makes progress inside the
  buffer, and a verdict does not change when more bytes arrive.
\<close>

locale frame_codec =
  fixes dec :: "bytes \<Rightarrow> (frame \<times> nat) option io_result"
    and wire :: "frame \<Rightarrow> bytes \<Rightarrow> bool"
  assumes dec_wire: "wire f w \<Longrightarrow> dec (w @ rest) = Inr (Some (f, length w))"
    and dec_partial: "wire f w \<Longrightarrow> k < length w \<Longrightarrow> dec (take k w) = Inr None"
    and dec_progress: "dec buf = Inr (Some (f, n)) \<Longrightarrow> 0 < n \<and> n \<le> length buf"
    and dec_stable: "dec buf \<noteq> Inr None \<Longrightarrow> dec (buf @ tail) = dec buf"
begin

lemma wire_nonempty: "wire f w \<Longrightarrow> w \<noteq> []"
  using dec_wire [of f w "[]"] dec_progress [of w f "length w"] by auto

lemma wire_unambiguous: "wire f w \<Longrightarrow> wire g w \<Longrightarrow> f = g"
  using dec_wire [of f w "[]"] dec_wire [of g w "[]"] by simp

lemma dec_strict_prefix: "wire f w \<Longrightarrow> strict_prefix p w \<Longrightarrow> dec p = Inr None"
  using dec_partial [of f w "length p"] by (fastforce simp: strict_prefix_def prefix_def)

end

interpretation codec: frame_codec "decode_frame c" "wire_image c"
proof
  show "wire_image c f w \<Longrightarrow> decode_frame c (w @ rest) = Inr (Some (f, length w))" for f w rest
    by (auto elim!: wire_imageE simp: decode_frame_def obf.parse_assembled)
  show "wire_image c f w \<Longrightarrow> k < length w \<Longrightarrow> decode_frame c (take k w) = Inr None" for f w k
    by (auto elim!: wire_imageE simp: decode_frame_def obf.parse_assembled_prefix)
  show "decode_frame c buf = Inr (Some (f, n)) \<Longrightarrow> 0 < n \<and> n \<le> length buf" for buf f n
    using obf.parse_frame_bounds by (fastforce simp: decode_frame_def)
  show "decode_frame c buf \<noteq> Inr None \<Longrightarrow> decode_frame c (buf @ tail) = decode_frame c buf"
    for buf tail
    by (simp add: decode_frame_def obf.parse_frame_extend)
qed

lemma decode_frame_None:
  "decode_frame c buf = Inr None \<Longrightarrow>
   length buf < NONCE_LEN + HEADER_LEN + MAX_PADDING_LEN + MAX_PAYLOAD_LEN"
  by (auto simp: decode_frame_def dest: obf.parse_frame_None)

section \<open>Properties of the codec\<close>

text \<open>
  C1. Whatever the random generator draws, a frame that encodes is read back unchanged from the
  front of a buffer, the bytes consumed are exactly the frame's, and every shorter prefix of the
  image makes the decoder ask for more data instead of failing.
\<close>

theorem frame_roundtrip:
  assumes "encode_frame r c cmd data = Inr w"
  shows "decode_frame c (w @ rest) = Inr (Some (Frame cmd data, length w)) \<and>
         (\<forall>k < length w. decode_frame c (take k w) = Inr None)"
proof -
  have img: "wire_image c (Frame cmd data) w" using assms by (auto simp: wire_image_def)
  show ?thesis using codec.dec_wire [OF img] codec.dec_partial [OF img] by blast
qed

definition example_codec :: codec where
  "example_codec = \<lparr>obfuscator = odd_key_obfuscator, padding_min = 2, padding_max = 5\<rparr>"

definition example_rng :: rng where
  "example_rng = \<lparr>rng_nonce = 0xDEADBEEF, rng_range = (\<lambda>lo hi. hi), rng_fill = (\<lambda>i. of_nat i)\<rparr>"

theorem frame_roundtrip_witness:
  "\<exists>w. encode_frame example_rng example_codec Data [104, 105] = Inr w \<and>
       decode_frame example_codec (w @ [7]) = Inr (Some (Frame Data [104, 105], length w)) \<and>
       decode_frame example_codec (take 14 w) = Inr None"
proof -
  obtain w where w: "encode_frame example_rng example_codec Data [104, 105] = Inr w"
    by (simp add: encode_frame_def Let_def MAX_PAYLOAD_LEN_def)
  then have "length w = 15"
    by (auto simp: encode_frame_def Let_def MAX_PAYLOAD_LEN_def obf.length_assemble_frame
        NONCE_LEN_def HEADER_LEN_def draw_padding_len_def example_rng_def example_codec_def)
  then show ?thesis using w frame_roundtrip [OF w] by auto
qed

text \<open>
  Encoding fails exactly for payloads that do not fit the 16-bit length field, and otherwise
  the frame takes the eight bytes of nonce and header, a padding within the configured bounds
  (or the minimum when the bounds are not increasing) and the payload.
\<close>

theorem encode_frame_length:
  assumes "rng_ok r"
  shows "(case encode_frame r c cmd data of
            Inl e \<Rightarrow> length data > 65535 \<and> kind e = InvalidInput
          | Inr w \<Rightarrow> length data \<le> 65535
              \<and> 8 + unat (padding_min c) + length data \<le> length w
              \<and> length w \<le> 8 + max (unat (padding_min c)) (unat (padding_max c)) + length data)"
proof -
  have "padding_min c < padding_max c \<Longrightarrow>
      padding_min c \<le> draw_padding_len r c \<and> draw_padding_len r c \<le> padding_max c"
    using assms by (auto simp: rng_ok_def draw_padding_len_def)
  then have "unat (padding_min c) \<le> unat (draw_padding_len r c) \<and>
      unat (draw_padding_len r c) \<le> max (unat (padding_min c)) (unat (padding_max c))"
    by (cases "padding_min c < padding_max c") (auto simp: draw_padding_len_def word_le_nat_alt)
  then show ?thesis
    by (auto simp: encode_frame_def Let_def MAX_PAYLOAD_LEN_def obf.length_assemble_frame
        NONCE_LEN_def HEADER_LEN_def)
qed

theorem encode_frame_length_witness:
  "rng_ok example_rng \<and>
   (case encode_frame example_rng example_codec Ping [1] of
      Inl e \<Rightarrow> False | Inr w \<Rightarrow> 11 \<le> length w \<and> length w \<le> 14)"
proof -
  have ok: "rng_ok example_rng" by (simp add: rng_ok_def example_rng_def)
  have "padding_min example_codec = 2" "padding_max example_codec = 5"
    by (simp_all add: example_codec_def)
  with ok encode_frame_length [OF ok, where c = example_codec and cmd = Ping and data = "[1]"] show ?thesis
    by (auto split: sum.splits)
qed

section \<open>Properties of target addresses\<close>

text \<open>What survives the wire: the flow label and scope of an IPv6 address do not.\<close>

fun strip_flow :: "target_addr \<Rightarrow> target_addr" where
  "strip_flow (TaIp (SaV6 ip port flow scope)) = TaIp (SaV6 ip port 0 0)"
| "strip_flow t = t"

fun target_ok :: "target_addr \<Rightarrow> bool" where
  "target_ok (TaDomain d port) = str_ok d"
| "target_ok (TaIp a) = True"

lemma nth_append_length_plus: "(xs @ ys) ! (length xs + k) = ys ! k"
  by (simp add: nth_append)

lemma target_domain_decode:
  assumes "length d \<le> 255" and "str_ok d"
  shows "target_addr_decode (0x03 # of_nat (length d) # as_bytes d @ u16_to_be port @ rest) =
         Inr (TaDomain d port, length d + 4)"
proof -
  obtain a b where ab: "u16_to_be port = [a, b]" "u16_from_be a b = port"
    using u16_to_be_conv by blast
  let ?data = "0x03 # of_nat (length d) # as_bytes d @ u16_to_be port @ rest"
  have dlen: "unat (?data ! 1) = length d" using assms(1) by simp
  have "?data ! (2 + length d) = a"
    using nth_append_length_plus [of "0x03 # of_nat (length d) # as_bytes d" _ 0] by (simp add: ab)
  moreover have "?data ! (3 + length d) = b"
    using nth_append_length_plus [of "0x03 # of_nat (length d) # as_bytes d" _ 1] by (simp add: ab)
  moreover have "from_utf8 (take (length d) (drop 2 ?data)) = Some d"
    using from_utf8_as_bytes [OF assms(2)] by simp
  ultimately show ?thesis
    unfolding target_addr_decode_def Let_def dlen by (simp add: ab(2))
qed

text \<open>
  Every target address either is refused, exactly when it is a domain longer than the one-byte
  length prefix can say, or encodes to bytes from which, whatever follows, the decoder returns the
  same address (less the IPv6 flow label and scope) and the number of bytes it took.
\<close>

theorem target_addr_roundtrip:
  assumes "target_ok t"
  shows "case target_addr_encode t of
           Inl e \<Rightarrow> kind e = InvalidInput \<and> (\<exists>d port. t = TaDomain d port \<and> length d > 255)
         | Inr w \<Rightarrow> target_addr_decode (w @ rest) = Inr (strip_flow t, length w) \<and>
             (\<forall>d port. t = TaDomain d port \<longrightarrow> length d \<le> 255)"
proof (cases t)
  case (TaDomain d port)
  then show ?thesis
    using assms target_domain_decode [of d port rest]
    by (auto simp: Let_def MAX_DOMAIN_LEN_def)
next
  case (TaIp a)
  show ?thesis
  proof (cases a)
    case (SaV4 ip port)
    then show ?thesis
      using TaIp by (simp add: target_addr_decode_def u32_to_be_def u16_to_be_def nth_append)
  next
    case (SaV6 ip port flow scope)
    obtain p q where pq: "u16_to_be port = [p, q]" "u16_from_be p q = port"
      using u16_to_be_conv by blast
    have "(0x04 # u128_to_be ip @ [p, q] @ rest) ! 17 = p"
      using nth_append_length_plus [of "0x04 # u128_to_be ip" _ 0] by simp
    moreover have "(0x04 # u128_to_be ip @ [p, q] @ rest) ! 18 = q"
      using nth_append_length_plus [of "0x04 # u128_to_be ip" _ 1] by simp
    ultimately show ?thesis
      using TaIp SaV6 pq by (simp add: target_addr_decode_def)
  qed
qed

theorem target_addr_roundtrip_witness:
  "target_ok (TaDomain ''example.com'' 443) \<and>
   target_addr_decode ([3, 11, 101, 120, 97, 109, 112, 108, 101, 46, 99, 111, 109, 1, 187] @ [9]) =
     Inr (TaDomain ''example.com'' 443, 15)"
proof -
  have ok: "target_ok (TaDomain ''example.com'' 443)" by code_simp
  have "target_addr_encode (TaDomain ''example.com'' 443) =
      Inr [3, 11, 101, 120, 97, 109, 112, 108, 101, 46, 99, 111, 109, 1, 187]"
    by code_simp
  with ok target_addr_roundtrip [OF ok, of "[9]"] show ?thesis by simp
qed

end
