(* ===== verification/Mux_Flow.thy ===== *)
theory Mux_Flow
  imports Protocol
begin

text \<open>
  Window flow control of a mux stream, \<^verbatim>\<open>SendWindow\<close>, \<^verbatim>\<open>RecvCredit\<close> and \<^verbatim>\<open>send_data\<close> of
  \<^verbatim>\<open>xr-proto/src/mux.rs\<close>. The compare-and-swap loops make each operation on the credit atomic,
  so an operation is one function on the window. An \<^verbatim>\<open>async\<close> function is modelled by what one
  poll of it does: it runs until it is done or has to wait, and the value it returns says which;
  a waiting \<^verbatim>\<open>send_data\<close> is resumed on the bytes it still holds.

  The lemmas show that credit is never overdrawn and never wraps, that a sender spends exactly
  the credit of the bytes it frames, and that the frames carry the data unchanged, in order and
  below the codec's limit.
\<close>

section \<open>Outgoing frames and constants\<close>

datatype out_frame = OutFrame (out_sid: u32) (out_command: command) (out_payload: bytes)

definition STREAM_CHANNEL_SIZE :: nat where "STREAM_CHANNEL_SIZE = 1024"
definition WRITER_CHANNEL_SIZE :: nat where "WRITER_CHANNEL_SIZE = 2048"
definition CTRL_CHANNEL_SIZE :: nat where "CTRL_CHANNEL_SIZE = 1024"
definition STREAM_RECV_WINDOW :: nat where "STREAM_RECV_WINDOW = 1024 * 1024"
definition WINDOW_UPDATE_THRESHOLD :: nat where
  "WINDOW_UPDATE_THRESHOLD = STREAM_RECV_WINDOW div 2"
definition SEND_CHUNK_MAX :: nat where "SEND_CHUNK_MAX = MAX_PAYLOAD_LEN - 4"
definition I64_MAX :: int where "I64_MAX = 2 ^ 63 - 1"

lemmas flow_consts = STREAM_RECV_WINDOW_def WINDOW_UPDATE_THRESHOLD_def SEND_CHUNK_MAX_def
  MAX_PAYLOAD_LEN_def I64_MAX_def

section \<open>The send window\<close>

record send_window =
  credit :: int
  win_closed :: bool

definition send_window_new :: "int \<Rightarrow> send_window" where
  "send_window_new initial = \<lparr>credit = initial, win_closed = False\<rparr>"

definition mux_broken :: io_error where
  "mux_broken = IoError BrokenPipe ''mux stream closed''"

definition try_acquire :: "nat \<Rightarrow> send_window \<Rightarrow> io_error + nat \<times> send_window" where
  "try_acquire want w =
     (if win_closed w then Inl mux_broken
      else if credit w \<le> 0 then Inr (0, w)
      else let take = min (credit w) (int want)
           in Inr (nat take, w\<lparr>credit := credit w - take\<rparr>))"

text \<open>One poll of \<^verbatim>\<open>acquire\<close>: pending while there is no credit and the stream is open.\<close>

definition acquire :: "nat \<Rightarrow> send_window \<Rightarrow> (io_error + nat \<times> send_window) poll" where
  "acquire want w =
     (case try_acquire want w of
        Inl e \<Rightarrow> Ready (Inl e)
      | Inr (n, w') \<Rightarrow> (if n = 0 then Pending else Ready (Inr (n, w'))))"

definition win_add :: "u32 \<Rightarrow> send_window \<Rightarrow> send_window" where
  "win_add n w = w\<lparr>credit := min (credit w + int (unat n)) I64_MAX\<rparr>"

definition win_close :: "send_window \<Rightarrow> send_window" where
  "win_close w = w\<lparr>win_closed := True\<rparr>"

section \<open>Returning credit\<close>

record recv_credit =
  rc_stream_id :: u32
  rc_pending :: u32

definition sat_add_u32 :: "u32 \<Rightarrow> u32 \<Rightarrow> u32" where
  "sat_add_u32 a b = (if unat a + unat b < 2 ^ 32 then a + b else - 1)"

definition rc_frame :: "recv_credit \<Rightarrow> out_frame" where
  "rc_frame rc = OutFrame (rc_stream_id rc) WindowUpdate (u32_to_be (rc_pending rc))"

text \<open>
  \<^verbatim>\<open>consumed(n)\<close>: the arguments are the two write planes the receiver holds; the frame goes to
  the control plane, or to the bulk plane when that is full, or stays accumulated.
\<close>

definition consumed :: "nat \<Rightarrow> recv_credit \<Rightarrow> out_frame chan \<Rightarrow> out_frame chan \<Rightarrow>
    recv_credit \<times> out_frame chan \<times> out_frame chan" where
  "consumed n rc ctrl bulk =
     (let rc1 = rc\<lparr>rc_pending := sat_add_u32 (rc_pending rc) (of_nat n)\<rparr> in
      if unat (rc_pending rc1) < WINDOW_UPDATE_THRESHOLD then (rc1, ctrl, bulk)
      else case try_send (rc_frame rc1) ctrl of
             Inr ctrl' \<Rightarrow> (rc1\<lparr>rc_pending := 0\<rparr>, ctrl', bulk)
           | Inl _ \<Rightarrow>
               (case try_send (rc_frame rc1) bulk of
                  Inr bulk' \<Rightarrow> (rc1\<lparr>rc_pending := 0\<rparr>, ctrl, bulk')
                | Inl _ \<Rightarrow> (rc1, ctrl, bulk)))"

section \<open>Sending data\<close>

datatype send_status =
    SendDone
  | SendFailed io_error
  | WaitWindow bytes           \<comment> \<open>asleep in \<^verbatim>\<open>acquire\<close>, with the bytes not framed yet\<close>
  | WaitChannel out_frame bytes \<comment> \<open>asleep in \<^verbatim>\<open>writer_tx.send\<close>, with the frame it holds and the rest\<close>

definition writer_closed :: io_error where
  "writer_closed = IoError BrokenPipe ''mux writer closed''"

lemma acquire_Ready_pos:
  "acquire want w = Ready (Inr (n, w')) \<Longrightarrow> 0 < n \<and> n \<le> want"
  by (auto simp: acquire_def try_acquire_def Let_def split: sum.splits prod.splits if_splits)

function send_data_loop ::
    "u32 \<Rightarrow> bytes \<Rightarrow> send_window \<Rightarrow> out_frame chan \<Rightarrow> send_window \<times> out_frame chan \<times> send_status" where
  "send_data_loop sid data w ch =
     (if data = [] then (w, ch, SendDone)
      else case acquire (min (length data) SEND_CHUNK_MAX) w of
             Pending \<Rightarrow> (w, ch, WaitWindow data)
           | Ready (Inl e) \<Rightarrow> (w, ch, SendFailed e)
           | Ready (Inr (n, w')) \<Rightarrow>
               (case chan_send (OutFrame sid Data (take n data)) ch of
                  Ready (Inl _) \<Rightarrow> (w', ch, SendFailed writer_closed)
                | Pending \<Rightarrow> (w', ch, WaitChannel (OutFrame sid Data (take n data)) (drop n data))
                | Ready (Inr ch') \<Rightarrow> send_data_loop sid (drop n data) w' ch'))"
  by pat_completeness auto
termination
  by (relation "measure (\<lambda>(sid, data, w, ch). length data)") (auto dest: acquire_Ready_pos)

declare send_data_loop.simps [simp del]

definition send_data ::
    "bool \<Rightarrow> u32 \<Rightarrow> bytes \<Rightarrow> send_window \<Rightarrow> out_frame chan \<Rightarrow> send_window \<times> out_frame chan \<times> send_status" where
  "send_data alive sid data w ch =
     (if \<not> alive then (w, ch, SendFailed (IoError BrokenPipe ''mux connection dead''))
      else if data = [] then
        (case chan_send (OutFrame sid Data []) ch of
           Ready (Inr ch') \<Rightarrow> (w, ch', SendDone)
         | Ready (Inl _) \<Rightarrow> (w, ch, SendFailed writer_closed)
         | Pending \<Rightarrow> (w, ch, WaitChannel (OutFrame sid Data []) []))
      else send_data_loop sid data w ch)"

text \<open>What a later poll does with a sender that waits.\<close>

fun send_resume ::
    "u32 \<Rightarrow> send_status \<Rightarrow> send_window \<Rightarrow> out_frame chan \<Rightarrow> send_window \<times> out_frame chan \<times> send_status" where
  "send_resume sid (WaitWindow data) w ch = send_data_loop sid data w ch"
| "send_resume sid (WaitChannel f data) w ch =
     (case chan_send f ch of
        Ready (Inr ch') \<Rightarrow> send_data_loop sid data w ch'
      | Ready (Inl _) \<Rightarrow> (w, ch, SendFailed writer_closed)
      | Pending \<Rightarrow> (w, ch, WaitChannel f data))"
| "send_resume sid st w ch = (w, ch, st)"

section \<open>Laws of the window\<close>

definition window_ok :: "send_window \<Rightarrow> bool" where
  "window_ok w \<longleftrightarrow> 0 \<le> credit w \<and> credit w \<le> I64_MAX"

lemma window_ok_new: "0 \<le> n \<Longrightarrow> n \<le> I64_MAX \<Longrightarrow> window_ok (send_window_new n)"
  by (simp add: window_ok_def send_window_new_def)

lemma window_ok_add: "window_ok w \<Longrightarrow> window_ok (win_add n w)"
  by (simp add: window_ok_def win_add_def I64_MAX_def)

lemma window_ok_close [simp]: "window_ok (win_close w) = window_ok w"
  by (simp add: window_ok_def win_close_def)

lemma try_acquire_cases:
  assumes "try_acquire want w = Inr (n, w')"
  obtains "credit w \<le> 0" "n = 0" "w' = w"
    | "0 < credit w" "int n = min (credit w) (int want)" "w' = w\<lparr>credit := credit w - int n\<rparr>"
proof (cases "credit w \<le> 0")
  case True
  then show ?thesis using assms that(1) by (auto simp: try_acquire_def split: if_splits)
next
  case False
  then have "n = nat (min (credit w) (int want))" "w' = w\<lparr>credit := credit w - min (credit w) (int want)\<rparr>"
    using assms by (auto simp: try_acquire_def Let_def split: if_splits)
  moreover have "0 \<le> min (credit w) (int want)" using False by simp
  ultimately show ?thesis using False that(2) by simp
qed

lemma try_acquire_spec:
  assumes "try_acquire want w = Inr (n, w')" and "window_ok w"
  shows "w' = w\<lparr>credit := credit w - int n\<rparr> \<and> int n \<le> int want \<and> int n \<le> credit w"
  using assms(1)
proof (cases rule: try_acquire_cases)
  case 1
  then show ?thesis using assms(2) by (simp add: window_ok_def)
next
  case 2
  then show ?thesis by (metis min.cobounded1 min.cobounded2)
qed

lemma try_acquire_Inr:
  assumes "try_acquire want w = Inr (n, w')" and "window_ok w"
  shows "credit w' = credit w - int n" and "n \<le> want" and "int n \<le> credit w"
    and "window_ok w'" and "win_closed w' = win_closed w"
proof -
  note spec = try_acquire_spec [OF assms]
  then show "credit w' = credit w - int n" and "n \<le> want" and "int n \<le> credit w"
    and "win_closed w' = win_closed w"
    by simp_all
  from spec assms(2) show "window_ok w'" by (simp add: window_ok_def)
qed

lemma try_acquire_zero:
  assumes "try_acquire want w = Inr (0, w')" and "0 < want"
  shows "credit w \<le> 0"
  using assms by (cases rule: try_acquire_cases) simp_all

lemma acquire_try_acquire:
  "acquire want w = Ready (Inr (n, w')) \<Longrightarrow> try_acquire want w = Inr (n, w')"
  by (simp add: acquire_def split: sum.splits prod.splits if_splits)

lemma acquire_Ready:
  assumes "acquire want w = Ready (Inr (n, w'))" and "window_ok w"
  shows "credit w' = credit w - int n" and "n \<le> want" and "window_ok w'" and "0 < n"
    and "win_closed w' = win_closed w"
  using try_acquire_Inr [OF acquire_try_acquire [OF assms(1)] assms(2)] acquire_Ready_pos [OF assms(1)]
  by blast+

lemma win_add_exact:
  "credit w + int (unat n) \<le> I64_MAX \<Longrightarrow> credit (win_add n w) = credit w + int (unat n)"
  by (simp add: win_add_def)

section \<open>What one run of a sender does\<close>

text \<open>The bytes a waiting sender has paid for but not queued, and those it has not paid for.\<close>

fun held :: "send_status \<Rightarrow> bytes" where
  "held (WaitChannel f data) = out_payload f"
| "held _ = []"

fun unpaid :: "send_status \<Rightarrow> bytes" where
  "unpaid (WaitWindow data) = data"
| "unpaid (WaitChannel f data) = data"
| "unpaid _ = []"

fun send_failed :: "send_status \<Rightarrow> bool" where
  "send_failed (SendFailed e) = True"
| "send_failed _ = False"

definition data_frames :: "u32 \<Rightarrow> out_frame list \<Rightarrow> bool" where
  "data_frames sid fs \<longleftrightarrow> (\<forall>f \<in> set fs. out_sid f = sid \<and> out_command f = Data \<and>
     0 < length (out_payload f) \<and> length (out_payload f) \<le> SEND_CHUNK_MAX)"

abbreviation payloads :: "out_frame list \<Rightarrow> bytes" where
  "payloads fs \<equiv> concat (map out_payload fs)"

text \<open>
  \<open>fs\<close> are the frames queued by the run: the data is the frames' payloads, then what is held,
  then what is unpaid; the credit spent is that of the queued and held bytes (and, on a closed
  channel, of the one frame that was refused).
\<close>

definition send_run :: "u32 \<Rightarrow> bytes \<Rightarrow> send_window \<Rightarrow> out_frame chan \<Rightarrow>
    out_frame list \<Rightarrow> send_window \<times> out_frame chan \<times> send_status \<Rightarrow> bool" where
  "send_run sid data w ch fs res \<longleftrightarrow> (case res of (w', ch', st) \<Rightarrow>
     ch' = ch\<lparr>queue := queue ch @ fs\<rparr> \<and> data_frames sid fs \<and> window_ok w' \<and>
     win_closed w' = win_closed w \<and>
     (\<not> send_failed st \<longrightarrow> data = payloads fs @ held st @ unpaid st \<and>
        credit w' = credit w - int (length (payloads fs @ held st))) \<and>
     (send_failed st \<longrightarrow> prefix (payloads fs) data) \<and>
     (\<forall>f r. st = WaitChannel f r \<longrightarrow> data_frames sid [f]))"

text \<open>One round of the loop: a frame of \<open>n\<close> bytes goes out and the rest of the run follows.\<close>

lemma send_run_Cons:
  assumes "send_run sid (drop n data) w' (ch\<lparr>queue := queue ch @ [f]\<rparr>) fs res"
    and "f = OutFrame sid Data (take n data)" and "0 < n" and "n \<le> min (length data) SEND_CHUNK_MAX"
    and "credit w' = credit w - int n" and "win_closed w' = win_closed w"
  shows "send_run sid data w ch (f # fs) res"
proof -
  obtain w2 ch2 st where res: "res = (w2, ch2, st)" by (cases res)
  have take: "data = take n data @ drop n data" by simp
  have "\<not> send_failed st \<Longrightarrow> data = payloads (f # fs) @ held st @ unpaid st"
    using assms(1,2) take by (simp add: send_run_def res)
  moreover have "prefix (payloads (f # fs)) data" if "send_failed st"
  proof -
    from that have "prefix (payloads fs) (drop n data)" using assms(1) by (simp add: send_run_def res)
    then have "prefix (take n data @ payloads fs) (take n data @ drop n data)"
      by (simp only: same_prefix_prefix)
    then show ?thesis using assms(2) by simp
  qed
  moreover have "take n data \<noteq> []" using assms(3,4) by auto
  ultimately show ?thesis
    using assms by (simp add: send_run_def res data_frames_def)
qed

lemma send_run_Nil:
  assumes "window_ok w'" and "win_closed w' = win_closed w"
    and "send_failed st \<or> data = held st @ unpaid st \<and> credit w' = credit w - int (length (held st))"
    and "\<And>f r. st = WaitChannel f r \<Longrightarrow> data_frames sid [f]"
  shows "send_run sid data w ch [] (w', ch, st)"
  using assms by (auto simp: send_run_def data_frames_def)

lemma send_data_loop_run:
  "window_ok w \<Longrightarrow> \<exists>fs. send_run sid data w ch fs (send_data_loop sid data w ch)"
proof (induction sid data w ch rule: send_data_loop.induct)
  case (1 sid data w ch)
  note unfold = send_data_loop.simps [of sid data w ch]
  let ?want = "min (length data) SEND_CHUNK_MAX"
  consider (empty) "data = []" | (wait) "data \<noteq> []" "acquire ?want w = Pending"
    | (err) e where "data \<noteq> []" "acquire ?want w = Ready (Inl e)"
    | (got) n w' where "data \<noteq> []" "acquire ?want w = Ready (Inr (n, w'))"
    by (metis old.sum.exhaust poll.exhaust surj_pair)
  then show ?case
  proof cases
    case (got n w')
    note acq = acquire_Ready [OF got(2) "1.prems"]
    let ?f = "OutFrame sid Data (take n data)"
    have f: "data_frames sid [?f]" using acq by (simp add: data_frames_def)
    show ?thesis
    proof (cases "chan_send ?f ch" rule: poll.exhaust)
      case Pending
      then show ?thesis using got acq f
        by (intro exI [of _ "[]"]) (auto simp: unfold intro!: send_run_Nil)
    next
      case (Ready b)
      show ?thesis
      proof (cases b)
        case (Inl e)
        then show ?thesis using got acq Ready
          by (intro exI [of _ "[]"]) (auto simp: unfold intro!: send_run_Nil)
      next
        case (Inr ch')
        have "ch' = ch\<lparr>queue := queue ch @ [?f]\<rparr>" using chan_send_Inr Ready Inr by fastforce
        with "1.IH" [OF got refl refl Ready Inr acq(3)] obtain fs where
          "send_run sid (drop n data) w' (ch\<lparr>queue := queue ch @ [?f]\<rparr>) fs
             (send_data_loop sid (drop n data) w' ch')" by auto
        from send_run_Cons [OF this refl acq(4,2,1,5)] show ?thesis
          using got Ready Inr by (intro exI [of _ "?f # fs"]) (simp add: unfold)
      qed
    qed
  next
    case empty
    then show ?thesis using "1.prems"
      by (intro exI [of _ "[]"]) (auto simp: send_data_loop.simps intro!: send_run_Nil)
  qed (use "1.prems" in \<open>auto simp: unfold intro!: exI [of _ "[]"] send_run_Nil\<close>)
qed

lemma send_data_run:
  assumes "window_ok w" and "data \<noteq> []" and "alive"
  shows "\<exists>fs. send_run sid data w ch fs (send_data alive sid data w ch)"
  using send_data_loop_run [OF assms(1)] assms(2,3) by (simp add: send_data_def)

section \<open>Properties of the sender\<close>

text \<open>
  On a live mux a sender never overdraws its window, queues only Data frames of its own stream
  that the codec accepts, and keeps its account: the queued frames, the frame it holds and the bytes
  it has not paid for are the data in order, and the credit spent is exactly the queued and held bytes.
\<close>

theorem send_data_accounts:
  assumes "window_ok w" and "data \<noteq> []"
    and "send_data True sid data w ch = (w', ch', st)" and "\<not> send_failed st"
  shows "\<exists>fs. queue ch' = queue ch @ fs \<and> data = payloads fs @ held st @ unpaid st
    \<and> credit w' = credit w - int (length (payloads fs @ held st)) \<and> 0 \<le> credit w'
    \<and> (\<forall>f \<in> set fs. out_sid f = sid \<and> out_command f = Data \<and>
          (\<forall>r c. \<exists>wire. encode_frame r c Data (encode_mux_payload sid (out_payload f)) = Inr wire))"
proof -
  obtain fs where "send_run sid data w ch fs (w', ch', st)"
    using send_data_run [OF assms(1,2)] assms(3) by metis
  with assms(4) show ?thesis
    by (intro exI [of _ fs])
      (auto simp: send_run_def data_frames_def window_ok_def encode_frame_def Let_def flow_consts)
qed

definition four_byte_window :: send_window where
  "four_byte_window = send_window_new 4"

theorem send_data_accounts_witness:
  "\<exists>fs. queue (fst (snd (send_data True 1 [10, 11, 12, 13, 14, 15] four_byte_window (channel 8)))) = [] @ fs
    \<and> [10, 11, 12, 13, 14, 15] = payloads fs @ held (WaitWindow [14, 15]) @ unpaid (WaitWindow [14, 15])
    \<and> snd (snd (send_data True 1 [10, 11, 12, 13, 14, 15] four_byte_window (channel 8))) = WaitWindow [14, 15]"
proof -
  have run: "send_data True 1 [10, 11, 12, 13, 14, 15] four_byte_window (channel 8) =
    (send_window_new 0, (channel 8)\<lparr>queue := [OutFrame 1 Data [10, 11, 12, 13]]\<rparr>, WaitWindow [14, 15])"
    by (simp add: send_data_def send_data_loop.simps acquire_def try_acquire_def four_byte_window_def
        send_window_new_def chan_send_def channel_def Let_def flow_consts)
  have "window_ok four_byte_window" by (simp add: four_byte_window_def window_ok_def send_window_new_def I64_MAX_def)
  from send_data_accounts [OF this _ run] show ?thesis
    unfolding run by (auto simp: channel_def)
qed

text \<open>Enough credit and enough room in the queue let the sender finish in one run.\<close>

lemma acquire_all:
  assumes "0 < want" and "int want \<le> credit w" and "\<not> win_closed w"
  shows "acquire want w = Ready (Inr (want, w\<lparr>credit := credit w - int want\<rparr>))"
  using assms by (simp add: acquire_def try_acquire_def min_def Let_def)

definition chunks :: "nat \<Rightarrow> nat" where
  "chunks n = (n + SEND_CHUNK_MAX - 1) div SEND_CHUNK_MAX"

lemma chunks_step:
  assumes "0 < n"
  shows "chunks n = Suc (chunks (n - min n SEND_CHUNK_MAX))"
proof (cases "n \<le> SEND_CHUNK_MAX")
  case True
  then have "(n + SEND_CHUNK_MAX - 1) div SEND_CHUNK_MAX = 1"
    using assms by (intro div_nat_eqI) (auto simp: SEND_CHUNK_MAX_def MAX_PAYLOAD_LEN_def)
  then show ?thesis using True by (simp add: chunks_def SEND_CHUNK_MAX_def MAX_PAYLOAD_LEN_def)
next
  case False
  then have "n + SEND_CHUNK_MAX - 1 = (n - SEND_CHUNK_MAX + SEND_CHUNK_MAX - 1) + SEND_CHUNK_MAX"
    by simp
  then show ?thesis
    using False by (simp add: chunks_def min_def SEND_CHUNK_MAX_def MAX_PAYLOAD_LEN_def)
qed

lemma send_data_loop_finishes:
  "int (length data) \<le> credit w \<Longrightarrow> \<not> win_closed w \<Longrightarrow> rx_open ch \<Longrightarrow>
   length (queue ch) + chunks (length data) \<le> cap ch \<Longrightarrow>
   snd (snd (send_data_loop sid data w ch)) = SendDone"
proof (induction "length data" arbitrary: data w ch rule: less_induct)
  case less
  show ?case
  proof (cases "data = []")
    case False
    let ?n = "min (length data) SEND_CHUNK_MAX"
    have n: "0 < ?n" using False by (simp add: SEND_CHUNK_MAX_def MAX_PAYLOAD_LEN_def)
    let ?w = "w\<lparr>credit := credit w - int ?n\<rparr>"
    let ?ch = "ch\<lparr>queue := queue ch @ [OutFrame sid Data (take ?n data)]\<rparr>"
    have acq: "acquire ?n w = Ready (Inr (?n, ?w))"
      using less.prems n by (intro acquire_all) auto
    have room: "chunks (length data) = Suc (chunks (length data - ?n))"
      using False chunks_step [of "length data"] by simp
    then have "chan_send (OutFrame sid Data (take ?n data)) ch = Ready (Inr ?ch)"
      using less.prems by (simp add: chan_send_def)
    then have "send_data_loop sid data w ch = send_data_loop sid (drop ?n data) ?w ?ch"
      using False acq by (subst send_data_loop.simps) simp
    moreover have "snd (snd (send_data_loop sid (drop ?n data) ?w ?ch)) = SendDone"
    proof (rule less.hyps)
      show "length (drop ?n data) < length data" using n by simp
      show "int (length (drop ?n data)) \<le> credit ?w" using less.prems by simp
      show "length (queue ?ch) + chunks (length (drop ?n data)) \<le> cap ?ch"
        using less.prems room by simp
    qed (use less.prems in simp_all)
    ultimately show ?thesis by simp
  qed (simp add: send_data_loop.simps)
qed

text \<open>
  With credit for the whole buffer and room in the writer queue for its chunks, \<^verbatim>\<open>send_data\<close>
  finishes without waiting, and all bytes are queued in order.
\<close>

theorem send_data_completes:
  assumes "window_ok w" and "\<not> win_closed w" and "int (length data) \<le> credit w" and "data \<noteq> []"
    and "rx_open ch" and "length (queue ch) + chunks (length data) \<le> cap ch"
  shows "\<exists>w' ch' fs. send_data True sid data w ch = (w', ch', SendDone)
    \<and> queue ch' = queue ch @ fs \<and> payloads fs = data \<and> credit w' = credit w - int (length data)"
proof -
  obtain w' ch' st where res: "send_data True sid data w ch = (w', ch', st)" by (metis prod_cases3)
  moreover have "st = SendDone"
    using send_data_loop_finishes [OF assms(3,2,5,6), of sid] res assms(4) by (simp add: send_data_def)
  moreover obtain fs where "send_run sid data w ch fs (w', ch', st)"
    using send_data_run [OF assms(1,4)] res by metis
  ultimately show ?thesis by (fastforce simp: send_run_def)
qed

theorem send_data_completes_witness:
  "\<exists>w' ch' fs. send_data True 3 [1, 2] (send_window_new 5) (channel 1) = (w', ch', SendDone)
    \<and> queue ch' = queue (channel 1) @ fs \<and> payloads fs = [1, 2]
    \<and> credit w' = credit (send_window_new 5) - int (length [1 :: byte, 2])"
  by (rule send_data_completes)
    (simp_all add: window_ok_def send_window_new_def channel_def chunks_def flow_consts)

section \<open>Properties of the credit\<close>

text \<open>The credit a WindowUpdate frame carries.\<close>

definition wu_credit :: "out_frame \<Rightarrow> nat" where
  "wu_credit f = (case out_payload f of
      a # b # c # d # _ \<Rightarrow> if out_command f = WindowUpdate then unat (u32_from_be a b c d) else 0
    | _ \<Rightarrow> 0)"

lemma wu_credit_rc_frame [simp]: "wu_credit (rc_frame rc) = unat (rc_pending rc)"
  by (simp add: wu_credit_def rc_frame_def u32_to_be_def)

lemma sat_add_u32_exact:
  "unat a + n < 2 ^ 32 \<Longrightarrow> unat (sat_add_u32 a (of_nat n)) = unat a + n"
  by (simp add: sat_add_u32_def unat_of_nat unat_word_ariths)

lemma consumed_cases:
  assumes "consumed n rc ctrl bulk = (rc', ctrl', bulk')"
  defines "rc1 \<equiv> rc\<lparr>rc_pending := sat_add_u32 (rc_pending rc) (of_nat n)\<rparr>"
  obtains (kept) "rc' = rc1" "ctrl' = ctrl" "bulk' = bulk"
      "unat (rc_pending rc1) < WINDOW_UPDATE_THRESHOLD"
    | (ctrl) "rc' = rc1\<lparr>rc_pending := 0\<rparr>" "ctrl' = ctrl\<lparr>queue := queue ctrl @ [rc_frame rc1]\<rparr>"
      "bulk' = bulk"
    | (bulk) "rc' = rc1\<lparr>rc_pending := 0\<rparr>" "ctrl' = ctrl"
      "bulk' = bulk\<lparr>queue := queue bulk @ [rc_frame rc1]\<rparr>"
    | (stuck) e e' where "rc' = rc1" "ctrl' = ctrl" "bulk' = bulk"
      "try_send (rc_frame rc1) ctrl = Inl e" "try_send (rc_frame rc1) bulk = Inl e'"
  using assms
  by (auto simp: consumed_def Let_def split: if_splits sum.splits dest!: try_send_Inr)

text \<open>
  Reading \<open>n\<close> bytes never loses credit: what was pending plus \<open>n\<close> is pending afterwards or is
  in a WindowUpdate frame of this stream on one of the two planes, and the pending credit stays at
  or above the threshold only if neither plane would take the frame.
\<close>

theorem consumed_conserves:
  assumes "consumed n rc ctrl bulk = (rc', ctrl', bulk')" and "unat (rc_pending rc) + n < 2 ^ 32"
  shows "\<exists>cf bf. queue ctrl' = queue ctrl @ cf \<and> queue bulk' = queue bulk @ bf
    \<and> (\<forall>f \<in> set (cf @ bf). out_sid f = rc_stream_id rc \<and> out_command f = WindowUpdate)
    \<and> unat (rc_pending rc') + sum_list (map wu_credit (cf @ bf)) = unat (rc_pending rc) + n
    \<and> (unat (rc_pending rc') < WINDOW_UPDATE_THRESHOLD \<or>
       (\<exists>e e'. try_send (rc_frame rc') ctrl = Inl e \<and> try_send (rc_frame rc') bulk = Inl e'))"
  using assms(1)
proof (cases rule: consumed_cases)
  case kept
  then show ?thesis using assms(2) by (auto simp: sat_add_u32_exact)
next
  case ctrl
  then show ?thesis
    using assms(2) by (auto simp: sat_add_u32_exact rc_frame_def [of "_\<lparr>rc_pending := _\<rparr>"]
        WINDOW_UPDATE_THRESHOLD_def STREAM_RECV_WINDOW_def wu_credit_def u32_to_be_def)
next
  case bulk
  then show ?thesis
    using assms(2) by (auto simp: sat_add_u32_exact rc_frame_def [of "_\<lparr>rc_pending := _\<rparr>"]
        WINDOW_UPDATE_THRESHOLD_def STREAM_RECV_WINDOW_def wu_credit_def u32_to_be_def)
next
  case (stuck e e')
  then show ?thesis using assms(2) by (auto simp: sat_add_u32_exact)
qed

theorem consumed_conserves_witness:
  "\<exists>cf bf. queue ((channel 1)\<lparr>queue := [rc_frame \<lparr>rc_stream_id = 1, rc_pending = 600000\<rparr>]\<rparr>)
      = queue (channel 1 :: out_frame chan) @ cf \<and> queue (channel 1 :: out_frame chan) = queue (channel 1) @ bf
    \<and> sum_list (map wu_credit (cf @ bf)) = 600000"
proof -
  have "consumed 500000 \<lparr>rc_stream_id = 1, rc_pending = 100000\<rparr> (channel 1) (channel 1) =
    (\<lparr>rc_stream_id = 1, rc_pending = 0\<rparr>,
     (channel 1)\<lparr>queue := [rc_frame \<lparr>rc_stream_id = 1, rc_pending = 600000\<rparr>]\<rparr>, channel 1)"
    by (simp add: consumed_def Let_def sat_add_u32_def flow_consts try_send_def channel_def)
  from consumed_conserves [OF this] show ?thesis by auto
qed

end
