(* ===== verification/Mux_Session.thy ===== *)
theory Mux_Session
  imports Mux_Flow
begin

text \<open>
  One direction of one windowed mux stream, end to end: the sender's window and \<^verbatim>\<open>send_data\<close>, the
  frames on their way, the receiver's per-stream channel and \<^verbatim>\<open>RecvCredit\<close>, and the WindowUpdate
  frames on their way back. The steps are the operations of \<open>Mux_Flow\<close> and the Data and
  WindowUpdate branches of \<^verbatim>\<open>dispatch_frame\<close> (\<^verbatim>\<open>xr-proto/src/mux.rs\<close>), interleaved in every
  order; other streams of the same mux only fill and drain the shared planes.

  The invariant is the conservation of credit. From it follow the bound on what a slow consumer
  can be made to buffer, and that a sender asleep on its window always has something of its
  stream left to move, unless the receiver kept credit back because both planes were full.
\<close>

record session =
  s_win :: send_window
  s_status :: send_status
  s_bulk :: "out_frame chan"
  s_wire :: "out_frame list"
  r_chan :: "bytes chan"
  r_credit :: recv_credit
  r_ctrl :: "out_frame chan"
  r_bulk :: "out_frame chan"
  r_wire :: "out_frame list"
  r_registered :: bool

definition session_init :: "u32 \<Rightarrow> session \<Rightarrow> bool" where
  "session_init sid s \<longleftrightarrow> s =
     \<lparr>s_win = send_window_new (int STREAM_RECV_WINDOW), s_status = SendDone,
      s_bulk = channel WRITER_CHANNEL_SIZE, s_wire = [],
      r_chan = channel STREAM_CHANNEL_SIZE, r_credit = \<lparr>rc_stream_id = sid, rc_pending = 0\<rparr>,
      r_ctrl = channel CTRL_CHANNEL_SIZE, r_bulk = channel WRITER_CHANNEL_SIZE, r_wire = [],
      r_registered = True\<rparr>"

text \<open>The application hands over a buffer, or the runtime polls a waiting sender again.\<close>

definition do_send :: "u32 \<Rightarrow> bytes \<Rightarrow> session \<Rightarrow> session" where
  "do_send sid data s =
     (case send_data True sid data (s_win s) (s_bulk s) of (w, ch, st) \<Rightarrow>
        s\<lparr>s_win := w, s_bulk := ch, s_status := st\<rparr>)"

definition do_resume :: "u32 \<Rightarrow> session \<Rightarrow> session" where
  "do_resume sid s =
     (case send_resume sid (s_status s) (s_win s) (s_bulk s) of (w, ch, st) \<Rightarrow>
        s\<lparr>s_win := w, s_bulk := ch, s_status := st\<rparr>)"

text \<open>
  The receiving reader takes a frame off the wire: the Data branch of \<^verbatim>\<open>dispatch_frame\<close>. (A ConnectAck takes the same branch, with the one byte of the
  server's answer before any data; the sender of this direction sends none.)
\<close>

definition deliver_data :: "u32 \<Rightarrow> out_frame \<Rightarrow> session \<Rightarrow> session" where
  "deliver_data sid f s =
     (if out_sid f = sid \<and> out_command f = Data \<and> r_registered s then
        (case try_send (out_payload f) (r_chan s) of
           Inr c \<Rightarrow> s\<lparr>r_chan := c\<rparr>
         | Inl _ \<Rightarrow> s\<lparr>r_registered := False\<rparr>)
      else s)"

text \<open>The consumer reads one payload; the credit goes back through the receiver's planes.\<close>

definition do_recv :: "bytes \<Rightarrow> session \<Rightarrow> session" where
  "do_recv d s =
     (case consumed (length d) (r_credit s) (r_ctrl s) (r_bulk s) of (rc, ctrl, bulk) \<Rightarrow>
        s\<lparr>r_chan := pop (r_chan s), r_credit := rc, r_ctrl := ctrl, r_bulk := bulk\<rparr>)"

text \<open>The sending reader takes a frame off the wire: the WindowUpdate branch.\<close>

definition deliver_credit :: "u32 \<Rightarrow> out_frame \<Rightarrow> session \<Rightarrow> session" where
  "deliver_credit sid f s =
     (case out_payload f of
        a # b # c # d # _ \<Rightarrow>
          if out_sid f = sid \<and> out_command f = WindowUpdate
          then s\<lparr>s_win := win_add (u32_from_be a b c d) (s_win s)\<rparr> else s
      | _ \<Rightarrow> s)"

inductive session_step :: "u32 \<Rightarrow> session \<Rightarrow> session \<Rightarrow> bool" for sid where
  send: "s_status s = SendDone \<Longrightarrow> data \<noteq> [] \<Longrightarrow> session_step sid s (do_send sid data s)"
| resume: "session_step sid s (do_resume sid s)"
| write_out: "queue (s_bulk s) = f # fs \<Longrightarrow>
    session_step sid s (s\<lparr>s_bulk := pop (s_bulk s), s_wire := s_wire s @ [f]\<rparr>)"
| deliver: "s_wire s = f # fs \<Longrightarrow>
    session_step sid s (deliver_data sid f (s\<lparr>s_wire := fs\<rparr>))"
| recv: "queue (r_chan s) = d # ds \<Longrightarrow> session_step sid s (do_recv d s)"
| write_ctrl: "queue (r_ctrl s) = f # fs \<Longrightarrow>
    session_step sid s (s\<lparr>r_ctrl := pop (r_ctrl s), r_wire := r_wire s @ [f]\<rparr>)"
| write_bulk: "queue (r_ctrl s) = [] \<Longrightarrow> queue (r_bulk s) = f # fs \<Longrightarrow>
    session_step sid s (s\<lparr>r_bulk := pop (r_bulk s), r_wire := r_wire s @ [f]\<rparr>)"
| credit: "r_wire s = f # fs \<Longrightarrow>
    session_step sid s (deliver_credit sid f (s\<lparr>r_wire := fs\<rparr>))"
| other_out: "out_sid f \<noteq> sid \<Longrightarrow> session_step sid s (s\<lparr>s_bulk := offer f (s_bulk s)\<rparr>)"
| other_ctrl: "out_sid f \<noteq> sid \<Longrightarrow> session_step sid s (s\<lparr>r_ctrl := offer f (r_ctrl s)\<rparr>)"
| other_bulk: "out_sid f \<noteq> sid \<Longrightarrow> session_step sid s (s\<lparr>r_bulk := offer f (r_bulk s)\<rparr>)"

section \<open>The account of a session\<close>

text \<open>Bytes and credit of stream \<open>sid\<close> in a list of frames.\<close>

definition data_in :: "u32 \<Rightarrow> out_frame list \<Rightarrow> nat" where
  "data_in sid fs = sum_list (map (\<lambda>f. if out_sid f = sid \<and> out_command f = Data
                                       then length (out_payload f) else 0) fs)"

definition credit_in :: "u32 \<Rightarrow> out_frame list \<Rightarrow> nat" where
  "credit_in sid fs = sum_list (map (\<lambda>f. if out_sid f = sid then wu_credit f else 0) fs)"

definition unread :: "session \<Rightarrow> nat" where
  "unread s = sum_list (map length (queue (r_chan s)))"

definition in_flight :: "u32 \<Rightarrow> session \<Rightarrow> nat" where
  "in_flight sid s = length (held (s_status s)) + data_in sid (queue (s_bulk s)) + data_in sid (s_wire s)"

definition returning :: "u32 \<Rightarrow> session \<Rightarrow> nat" where
  "returning sid s = credit_in sid (queue (r_ctrl s)) + credit_in sid (queue (r_bulk s))
     + credit_in sid (r_wire s)"

definition account :: "u32 \<Rightarrow> session \<Rightarrow> nat" where
  "account sid s = in_flight sid s + unread s + unat (rc_pending (r_credit s)) + returning sid s"

text \<open>
  The invariant: window plus account is the initial window; a killed stream or a failed sender
  only loses credit.
\<close>

definition session_fixed :: "u32 \<Rightarrow> session \<Rightarrow> bool" where
  "session_fixed sid s \<longleftrightarrow>
     window_ok (s_win s) \<and> \<not> win_closed (s_win s) \<and> rx_open (s_bulk s) \<and>
     rc_stream_id (r_credit s) = sid \<and> rx_open (r_chan s) \<and> \<not> send_failed (s_status s) \<and>
     (\<forall>f r. s_status s = WaitChannel f r \<longrightarrow> out_sid f = sid \<and> out_command f = Data)"

definition session_inv :: "u32 \<Rightarrow> session \<Rightarrow> bool" where
  "session_inv sid s \<longleftrightarrow> session_fixed sid s \<and>
     (r_registered s \<longrightarrow> credit (s_win s) + int (account sid s) = int STREAM_RECV_WINDOW) \<and>
     credit (s_win s) + int (account sid s) \<le> int STREAM_RECV_WINDOW"

lemma data_in_simps [simp]:
  "data_in sid [] = 0"
  "data_in sid (f # fs) = (if out_sid f = sid \<and> out_command f = Data then length (out_payload f) else 0)
     + data_in sid fs"
  "data_in sid (fs @ gs) = data_in sid fs + data_in sid gs"
  by (simp_all add: data_in_def)

lemma credit_in_simps [simp]:
  "credit_in sid [] = 0"
  "credit_in sid (f # fs) = (if out_sid f = sid then wu_credit f else 0) + credit_in sid fs"
  "credit_in sid (fs @ gs) = credit_in sid fs + credit_in sid gs"
  by (simp_all add: credit_in_def)

text \<open>A step that moves credit and bytes around without losing any keeps the invariant.\<close>

lemma session_inv_move:
  assumes "session_inv sid s" and "session_fixed sid t" and "r_registered t \<longrightarrow> r_registered s"
    and "s_win t = s_win s" and "account sid t = account sid s"
  shows "session_inv sid t"
  using assms by (simp add: session_inv_def)

lemmas account_defs = account_def in_flight_def unread_def returning_def

lemma data_in_data_frames: "data_frames sid fs \<Longrightarrow> data_in sid fs = length (payloads fs)"
  by (induction fs) (auto simp: data_frames_def)

lemma credit_in_all:
  "(\<forall>f \<in> set fs. out_sid f = sid) \<Longrightarrow> credit_in sid fs = sum_list (map wu_credit fs)"
  by (induction fs) auto

lemma session_inv_init: "session_init sid s \<Longrightarrow> session_inv sid s"
  by (simp add: session_init_def session_inv_def session_fixed_def window_ok_def send_window_new_def account_def
      in_flight_def unread_def returning_def channel_def flow_consts)

text \<open>A sender on an open window and an open queue does not fail.\<close>

lemma send_data_loop_no_fail:
  "\<not> win_closed w \<Longrightarrow> rx_open ch \<Longrightarrow> \<not> send_failed (snd (snd (send_data_loop sid data w ch)))"
proof (induction sid data w ch rule: send_data_loop.induct)
  case (1 sid data w ch)
  have no_err: "acquire n w \<noteq> Ready (Inl e)" for n e
    using "1.prems"(1) by (simp add: acquire_def try_acquire_def Let_def)
  have open_w: "\<not> win_closed w'" if "acquire k w = Ready (Inr (n, w'))" for k n w'
    using "1.prems"(1) that acquire_try_acquire [OF that]
    by (auto simp: try_acquire_def Let_def split: if_splits)
  have open_ch: "rx_open ch'" if "chan_send f ch = Ready (Inr ch')" for f ch'
    using chan_send_Inr [OF that] by simp
  have no_ch: "chan_send f ch \<noteq> Ready (Inl e)" for f e
    using "1.prems"(2) by (simp add: chan_send_def)
  show ?case
  proof (cases "data = [] \<or> acquire (min (length data) SEND_CHUNK_MAX) w = Pending")
    case True
    then show ?thesis by (subst send_data_loop.simps) auto
  next
    case False
    then obtain n w' where got: "data \<noteq> []" "acquire (min (length data) SEND_CHUNK_MAX) w = Ready (Inr (n, w'))"
      by (metis no_err old.sum.exhaust poll.exhaust surj_pair)
    show ?thesis
    proof (cases "chan_send (OutFrame sid Data (take n data)) ch")
      case Pending
      then show ?thesis using got by (subst send_data_loop.simps) simp
    next
      case (Ready b)
      then obtain ch' where b: "b = Inr ch'" using no_ch by (cases b) auto
      have "\<not> send_failed (snd (snd (send_data_loop sid (drop n data) w' ch')))"
        using "1.IH" [OF got refl refl Ready b open_w [OF got(2)] open_ch] Ready b by simp
      then show ?thesis using got Ready b by (subst send_data_loop.simps) simp
    qed
  qed
qed

text \<open>The account after the sender ran on \<open>data\<close>.\<close>

lemma session_inv_run:
  assumes inv: "session_inv sid s"
    and run: "send_run sid data w ch fs (w', ch', st)"
    and nf: "\<not> send_failed st" and w: "credit w = credit (s_win s)" "\<not> win_closed w"
    and ch: "rx_open ch" "data_in sid (queue ch) = length (held (s_status s)) + data_in sid (queue (s_bulk s))"
  shows "session_inv sid (s\<lparr>s_win := w', s_bulk := ch', s_status := st\<rparr>)"
proof -
  have fs: "data_in sid fs = length (payloads fs)"
    using run by (auto simp: send_run_def intro: data_in_data_frames)
  have held: "\<forall>f r. st = WaitChannel f r \<longrightarrow> out_sid f = sid \<and> out_command f = Data"
    using run by (auto simp: send_run_def data_frames_def)
  let ?s = "s\<lparr>s_win := w', s_bulk := ch', s_status := st\<rparr>"
  have acc: "credit w' + int (account sid ?s) = credit (s_win s) + int (account sid s)"
    using run nf w ch fs
    by (simp add: send_run_def account_def in_flight_def unread_def returning_def)
  have "session_fixed sid ?s"
    using inv run nf w ch held by (simp add: session_inv_def session_fixed_def send_run_def)
  with inv acc show ?thesis by (simp add: session_inv_def)
qed

lemma session_inv_send:
  assumes "session_inv sid s" and "s_status s = SendDone" and "data \<noteq> []"
  shows "session_inv sid (do_send sid data s)"
proof -
  obtain w' ch' st where res: "send_data True sid data (s_win s) (s_bulk s) = (w', ch', st)"
    by (metis prod_cases3)
  have w: "window_ok (s_win s)" "\<not> win_closed (s_win s)" "rx_open (s_bulk s)"
    using assms(1) by (simp_all add: session_inv_def session_fixed_def)
  obtain fs where "send_run sid data (s_win s) (s_bulk s) fs (w', ch', st)"
    using send_data_run [OF w(1) assms(3)] res by metis
  moreover have "\<not> send_failed st"
    using send_data_loop_no_fail [OF w(2,3), of sid data] res assms(3) by (simp add: send_data_def)
  ultimately show ?thesis
    using session_inv_run [OF assms(1)] w assms(2) res by (simp add: do_send_def)
qed

lemma session_inv_resume:
  assumes "session_inv sid s"
  shows "session_inv sid (do_resume sid s)"
proof -
  have w: "window_ok (s_win s)" "\<not> win_closed (s_win s)" "rx_open (s_bulk s)"
    using assms by (simp_all add: session_inv_def session_fixed_def)
  have loop: "session_inv sid (s\<lparr>s_win := w', s_bulk := ch', s_status := st\<rparr>)"
    if "send_data_loop sid data (s_win s) ch = (w', ch', st)" "rx_open ch"
      "data_in sid (queue ch) = length (held (s_status s)) + data_in sid (queue (s_bulk s))"
    for data ch w' ch' st
    using session_inv_run [OF assms _ _ refl w(2) that(2,3)] that(1)
      send_data_loop_run [OF w(1), of sid data ch] send_data_loop_no_fail [OF w(2) that(2), of sid data]
    by auto
  show ?thesis
  proof (cases "s_status s")
    case (WaitWindow data)
    then show ?thesis
      using loop [of data "s_bulk s"] w(3) by (auto simp: do_resume_def split: prod.splits)
  next
    case (WaitChannel f data)
    with assms have f: "out_sid f = sid" "out_command f = Data"
      by (simp_all add: session_inv_def session_fixed_def)
    show ?thesis
    proof (cases "chan_send f (s_bulk s)")
      case Pending
      then have "do_resume sid s = s" using WaitChannel by (simp add: do_resume_def)
      then show ?thesis using assms by simp
    next
      case (Ready b)
      then obtain ch where b: "b = Inr ch" "ch = (s_bulk s)\<lparr>queue := queue (s_bulk s) @ [f]\<rparr>"
        using w(3) by (auto simp: chan_send_def split: if_splits)
      then show ?thesis
        using loop [of data ch] w(3) f Ready WaitChannel
        by (auto simp: do_resume_def split: prod.splits)
    qed
  qed (use assms in \<open>simp_all add: do_resume_def session_inv_def session_fixed_def account_def
        in_flight_def unread_def returning_def\<close>)
qed

lemma unread_cons: "queue (r_chan s) = d # ds \<Longrightarrow>
    unread s = length d + unread (s\<lparr>r_chan := pop (r_chan s)\<rparr>)"
  by (simp add: unread_def pop_def)

lemma session_inv_recv:
  assumes inv: "session_inv sid s" and d: "queue (r_chan s) = d # ds"
  shows "session_inv sid (do_recv d s)"
proof -
  obtain rc ctrl bulk where res: "consumed (length d) (r_credit s) (r_ctrl s) (r_bulk s) = (rc, ctrl, bulk)"
    by (metis prod_cases3)
  have "credit (s_win s) \<ge> 0" and "credit (s_win s) + int (account sid s) \<le> int STREAM_RECV_WINDOW"
    using inv by (simp_all add: session_inv_def session_fixed_def window_ok_def)
  then have "account sid s \<le> 1048576" by (simp add: STREAM_RECV_WINDOW_def)
  then have small: "unat (rc_pending (r_credit s)) + length d < 2 ^ 32"
    using unread_cons [OF d] by (simp add: account_def)
  let ?rc1 = "r_credit s\<lparr>rc_pending := sat_add_u32 (rc_pending (r_credit s)) (of_nat (length d))\<rparr>"
  have id: "rc_stream_id (r_credit s) = sid" using inv by (simp add: session_inv_def session_fixed_def)
  have "unat (rc_pending rc) + credit_in sid (queue ctrl) + credit_in sid (queue bulk) =
      unat (rc_pending (r_credit s)) + length d + credit_in sid (queue (r_ctrl s))
      + credit_in sid (queue (r_bulk s)) \<and> rc_stream_id rc = sid"
    using res
    by (cases rule: consumed_cases) (use small id in \<open>simp_all add: sat_add_u32_exact\<close>,
        simp_all add: rc_frame_def wu_credit_def u32_to_be_def sat_add_u32_exact)
  with d have "account sid (do_recv d s) = account sid s" and "rc_stream_id rc = sid"
    by (simp_all add: do_recv_def res account_defs pop_def)
  with inv show ?thesis
    by (intro session_inv_move [OF inv])
      (simp_all add: do_recv_def res session_inv_def session_fixed_def pop_def)
qed

lemma offer_queue: "queue (offer f c) = queue c \<or> queue (offer f c) = queue c @ [f]"
  by (auto simp: offer_def try_send_def)

lemma rx_open_offer [simp]: "rx_open (offer f c) = rx_open c"
  by (auto simp: offer_def try_send_def)

lemma data_in_offer [simp]: "out_sid f \<noteq> sid \<Longrightarrow> data_in sid (queue (offer f c)) = data_in sid (queue c)"
  using offer_queue [of f c] by auto

lemma credit_in_offer [simp]:
  "out_sid f \<noteq> sid \<Longrightarrow> credit_in sid (queue (offer f c)) = credit_in sid (queue c)"
  using offer_queue [of f c] by auto

lemma session_inv_deliver:
  assumes inv: "session_inv sid s" and f: "s_wire s = f # fs"
  shows "session_inv sid (deliver_data sid f (s\<lparr>s_wire := fs\<rparr>))" (is "session_inv sid ?t")
proof -
  have fixed: "session_fixed sid ?t"
    using inv by (auto simp: session_inv_def session_fixed_def deliver_data_def
        split: sum.splits dest!: try_send_Inr)
  have win: "s_win ?t = s_win s" by (simp add: deliver_data_def split: sum.splits)
  consider (mine) "out_sid f = sid" "out_command f = Data" | (not) "out_sid f \<noteq> sid \<or> out_command f \<noteq> Data"
    by blast
  then show ?thesis
  proof cases
    case not
    then show ?thesis
      using inv f fixed by (intro session_inv_move [OF inv]) (auto simp: deliver_data_def account_defs)
  next
    case mine
    show ?thesis
    proof (cases "r_registered s \<and> r_registered ?t")
      case True
      then obtain c where "try_send (out_payload f) (r_chan s) = Inr c"
        using mine by (auto simp: deliver_data_def split: sum.splits)
      then have "account sid ?t = account sid s"
        using mine True f by (auto simp: deliver_data_def account_defs dest!: try_send_Inr)
      then show ?thesis using True win by (intro session_inv_move [OF inv fixed]) simp_all
    next
      case False
      then have "account sid ?t \<le> account sid s" and "\<not> r_registered ?t"
        using f by (auto simp: deliver_data_def account_defs split: sum.splits)
      with inv fixed win show ?thesis by (simp add: session_inv_def)
    qed
  qed
qed

lemma deliver_credit_add:
  "deliver_credit sid f s =
     (if out_sid f = sid \<and> out_command f = WindowUpdate \<and> 4 \<le> length (out_payload f)
      then s\<lparr>s_win := win_add (of_nat (wu_credit f)) (s_win s)\<rparr> else s)"
  by (auto simp: deliver_credit_def wu_credit_def split: list.splits)

lemma wu_credit_0:
  "out_command f \<noteq> WindowUpdate \<or> length (out_payload f) < 4 \<Longrightarrow> wu_credit f = 0"
  by (auto simp: wu_credit_def split: list.splits)

lemma wu_credit_less: "wu_credit f < 2 ^ 32"
  by (auto simp: wu_credit_def split: list.splits)

lemma session_inv_credit:
  assumes inv: "session_inv sid s" and f: "r_wire s = f # fs"
  shows "session_inv sid (deliver_credit sid f (s\<lparr>r_wire := fs\<rparr>))" (is "session_inv sid ?t")
proof (cases "out_sid f = sid \<and> out_command f = WindowUpdate \<and> 4 \<le> length (out_payload f)")
  case True
  have le: "credit (s_win s) + int (account sid s) \<le> int STREAM_RECV_WINDOW"
    using inv by (simp add: session_inv_def)
  have "account sid s = wu_credit f + account sid ?t"
    using True f by (simp add: deliver_credit_add account_defs)
  moreover have "unat (of_nat (wu_credit f) :: u32) = wu_credit f"
    using wu_credit_less [of f] by (simp add: unat_of_nat)
  moreover have "credit (s_win ?t) = credit (s_win s) + int (unat (of_nat (wu_credit f) :: u32))"
    using le True calculation by (simp add: deliver_credit_add win_add_exact flow_consts)
  moreover have "session_fixed sid ?t"
    using inv window_ok_add by (auto simp: deliver_credit_add session_inv_def session_fixed_def win_add_def)
  moreover have "r_registered ?t = r_registered s" by (simp add: deliver_credit_add)
  ultimately show ?thesis using inv by (simp add: session_inv_def add.assoc)
next
  case False
  then show ?thesis
    using inv f wu_credit_0 [of f] by (intro session_inv_move [OF inv])
      (auto simp: deliver_credit_add account_defs session_inv_def session_fixed_def)
qed

lemma session_inv_step:
  assumes "session_inv sid s" and "session_step sid s t"
  shows "session_inv sid t"
  using assms(2)
proof cases
  case (write_out f fs)
  then show ?thesis using assms(1)
    by (intro session_inv_move [OF assms(1)])
      (auto simp: pop_def account_defs session_inv_def session_fixed_def)
next
  case (write_ctrl f fs)
  then show ?thesis using assms(1)
    by (intro session_inv_move [OF assms(1)])
      (auto simp: pop_def account_defs session_inv_def session_fixed_def)
next
  case (write_bulk f fs)
  then show ?thesis using assms(1)
    by (intro session_inv_move [OF assms(1)])
      (auto simp: pop_def account_defs session_inv_def session_fixed_def)
next
  case (other_out f)
  then show ?thesis using assms(1)
    by (intro session_inv_move [OF assms(1)]) (auto simp: account_defs session_inv_def session_fixed_def)
next
  case (other_ctrl f)
  then show ?thesis using assms(1)
    by (intro session_inv_move [OF assms(1)]) (auto simp: account_defs session_inv_def session_fixed_def)
next
  case (other_bulk f)
  then show ?thesis using assms(1)
    by (intro session_inv_move [OF assms(1)]) (auto simp: account_defs session_inv_def session_fixed_def)
qed (use assms(1) in \<open>auto intro: session_inv_send session_inv_resume session_inv_deliver
    session_inv_recv session_inv_credit\<close>)

interpretation session: transition_system "session_init sid" "session_step sid" "session_inv sid"
  by unfold_locales (blast intro: session_inv_init session_inv_step)+

section \<open>Properties of a session\<close>

text \<open>
  C2. However the steps of a windowed stream interleave with each other and with the traffic of
  other streams, the bytes queued for a slow consumer never exceed the 1 MiB receive window, and
  neither does everything of the stream that is on its way to it.
\<close>

theorem receiver_buffer_bounded:
  assumes "reach (session_init sid) (session_step sid) s"
  shows "unread s + in_flight sid s \<le> STREAM_RECV_WINDOW"
proof -
  from assms have "session_inv sid s" by (rule session.reach_inv)
  then have "0 \<le> credit (s_win s)" and "credit (s_win s) + int (account sid s) \<le> int STREAM_RECV_WINDOW"
    by (simp_all add: session_inv_def session_fixed_def window_ok_def)
  then have "account sid s \<le> STREAM_RECV_WINDOW" by linarith
  then show ?thesis by (simp add: account_def)
qed

definition fresh_session :: "u32 \<Rightarrow> session" where
  "fresh_session sid =
     \<lparr>s_win = send_window_new (int STREAM_RECV_WINDOW), s_status = SendDone,
      s_bulk = channel WRITER_CHANNEL_SIZE, s_wire = [],
      r_chan = channel STREAM_CHANNEL_SIZE, r_credit = \<lparr>rc_stream_id = sid, rc_pending = 0\<rparr>,
      r_ctrl = channel CTRL_CHANNEL_SIZE, r_bulk = channel WRITER_CHANNEL_SIZE, r_wire = [],
      r_registered = True\<rparr>"

lemma reach_fresh: "reach (session_init sid) (session_step sid) (fresh_session sid)"
  by (rule reach_init) (simp add: session_init_def fresh_session_def)

lemma reach_one_byte: "reach (session_init 1) (session_step 1) (do_send 1 [7] (fresh_session 1))"
  by (rule reach_step [OF reach_fresh session_step.send]) (simp_all add: fresh_session_def)

theorem receiver_buffer_bounded_witness:
  "in_flight 1 (do_send 1 [7] (fresh_session 1)) = 1 \<and>
   unread (do_send 1 [7] (fresh_session 1)) + in_flight 1 (do_send 1 [7] (fresh_session 1)) \<le> STREAM_RECV_WINDOW"
proof
  show "in_flight 1 (do_send 1 [7] (fresh_session 1)) = 1"
    by (simp add: do_send_def send_data_def send_data_loop.simps acquire_def try_acquire_def chan_send_def
        fresh_session_def send_window_new_def channel_def Let_def in_flight_def flow_consts
        WRITER_CHANNEL_SIZE_def)
qed (rule receiver_buffer_bounded [OF reach_one_byte])

text \<open>
  A sender never sleeps for nothing: when its window is empty, the receiver still has the
  stream registered and holds back less than the update threshold, more than half a window of
  the stream is queued, on the wire, unread, or on its way back as credit.
\<close>

theorem empty_window_has_work:
  assumes "reach (session_init sid) (session_step sid) s" and "r_registered s"
    and "credit (s_win s) = 0" and "unat (rc_pending (r_credit s)) < WINDOW_UPDATE_THRESHOLD"
  shows "WINDOW_UPDATE_THRESHOLD < in_flight sid s + unread s + returning sid s"
proof -
  from assms(1) have "session_inv sid s" by (rule session.reach_inv)
  with assms(2,3) have "int (account sid s) = int STREAM_RECV_WINDOW" by (simp add: session_inv_def)
  then have "account sid s = STREAM_RECV_WINDOW" by (simp only: of_nat_eq_iff)
  with assms(4) show ?thesis by (simp add: account_def flow_consts)
qed

text \<open>A sender that hands over a whole window in one call.\<close>

definition full_send :: session where
  "full_send = do_send 1 (replicate STREAM_RECV_WINDOW 0) (fresh_session 1)"

lemma full_send_state:
  "credit (s_win full_send) = 0 \<and> r_registered full_send \<and> rc_pending (r_credit full_send) = 0"
proof -
  let ?d = "replicate STREAM_RECV_WINDOW (0 :: byte)" and ?s = "fresh_session 1"
  obtain w ch st where res: "send_data True 1 ?d (s_win ?s) (s_bulk ?s) = (w, ch, st)"
    by (metis prod_cases3)
  have d: "?d \<noteq> []" by (simp add: STREAM_RECV_WINDOW_def)
  have "snd (snd (send_data_loop 1 ?d (s_win ?s) (s_bulk ?s))) = SendDone"
    by (rule send_data_loop_finishes)
      (simp_all add: fresh_session_def send_window_new_def channel_def chunks_def WRITER_CHANNEL_SIZE_def
        flow_consts)
  then have "st = SendDone" using res d by (simp add: send_data_def)
  moreover have "window_ok (s_win ?s)"
    by (simp add: fresh_session_def send_window_new_def window_ok_def flow_consts)
  then obtain fs where "send_run 1 ?d (s_win ?s) (s_bulk ?s) fs (w, ch, st)"
    using send_data_run [OF _ d] res by metis
  ultimately have "credit w = credit (s_win ?s) - int (length ?d)" by (simp add: send_run_def)
  then show ?thesis
    using res by (simp add: full_send_def do_send_def fresh_session_def send_window_new_def)
qed

theorem empty_window_has_work_witness:
  "WINDOW_UPDATE_THRESHOLD < in_flight 1 full_send + unread full_send + returning 1 full_send"
proof (rule empty_window_has_work)
  show "reach (session_init 1) (session_step 1) full_send" unfolding full_send_def
    by (rule reach_step [OF reach_fresh session_step.send]) (simp_all add: fresh_session_def flow_consts)
qed (use full_send_state in \<open>simp_all add: flow_consts\<close>)

end
