(* ===== verification/Mux_Wire.thy ===== *)
theory Mux_Wire
  imports Mux_Flow
begin

text \<open>
  The two ends of a mux connection's byte stream: the buffer and decode loop of
  \<^verbatim>\<open>reader_task\<close> and the planes and encode loop of \<^verbatim>\<open>writer_task\<close> (\<^verbatim>\<open>xr-proto/src/mux.rs\<close>).
  What the reader does with a frame (\<^verbatim>\<open>dispatch_frame\<close>) is an argument here and is supplied by
  the multiplexer.

  The locale \<open>frame_reader\<close> extends the codec's contract with the loop's equations; in it the
  segmentation of the byte stream is shown not to matter.
\<close>

section \<open>Reading\<close>

definition READER_BUF :: nat where
  "READER_BUF = NONCE_LEN + HEADER_LEN + MAX_PADDING_LEN + MAX_PAYLOAD_LEN"

text \<open>The inner loop: dispatch every complete frame, keep the tail; an undecodable byte ends the reader.\<close>

function drain :: "codec \<Rightarrow> (frame \<Rightarrow> 's \<Rightarrow> 's) \<Rightarrow> bytes \<Rightarrow> 's \<Rightarrow> 's \<times> bytes \<times> io_error option" where
  "drain c dispatch buf s =
     (case decode_frame c buf of
        Inl e \<Rightarrow> (s, buf, Some e)
      | Inr None \<Rightarrow> (s, buf, None)
      | Inr (Some (f, n)) \<Rightarrow> drain c dispatch (drop n buf) (dispatch f s))"
  by pat_completeness auto
termination
proof (relation "measure (\<lambda>(c, d, buf, s). length buf)")
  fix c :: codec and dispatch :: "frame \<Rightarrow> 's \<Rightarrow> 's" and buf :: bytes and s b a x f n
  assume "decode_frame c buf = Inr b" "b = Some a" "(f, n) = a"
  then have "0 < n" and "n \<le> length buf" using codec.dec_progress [of c buf f n] by auto
  then show "((c, dispatch, drop n buf, dispatch f s), c, dispatch, buf, s)
      \<in> measure (\<lambda>(c, d, buf, s). length buf)" by simp
qed simp

declare drain.simps [simp del]

lemma fold_snoc: "fold (\<lambda>x ys. ys @ [x]) xs acc = acc @ xs"
  by (induction xs arbitrary: acc) simp_all

text \<open>The frames the loop dispatches, as a list.\<close>

definition collect :: "codec \<Rightarrow> bytes \<Rightarrow> frame list \<times> bytes \<times> io_error option" where
  "collect c buf = drain c (\<lambda>f fs. fs @ [f]) buf []"

lemma drain_fold:
  "drain c dispatch buf s =
     (let (fs, rest, e) = drain c (\<lambda>f fs. fs @ [f]) buf gs in
        (fold dispatch (drop (length gs) fs) s, rest, e)) \<and>
   prefix gs (fst (drain c (\<lambda>f fs. fs @ [f]) buf gs))"
proof (induction "length buf" arbitrary: buf s gs rule: less_induct)
  case less
  show ?case
  proof (cases "decode_frame c buf")
    case (Inl e)
    then show ?thesis by (simp add: drain.simps)
  next
    case (Inr opt)
    show ?thesis
    proof (cases opt)
      case None
      then show ?thesis using Inr by (simp add: drain.simps)
    next
      case (Some p)
      obtain f n where p: "p = (f, n)" by fastforce
      have dec: "decode_frame c buf = Inr (Some (f, n))" using Inr Some p by simp
      have "length (drop n buf) < length buf" using codec.dec_progress [OF dec] by auto
      from less.hyps [OF this, of "dispatch f s" "gs @ [f]"]
      have eq: "drain c dispatch (drop n buf) (dispatch f s) =
          (let (fs, rest, e) = drain c (\<lambda>f fs. fs @ [f]) (drop n buf) (gs @ [f]) in
            (fold dispatch (drop (length (gs @ [f])) fs) (dispatch f s), rest, e))"
        and pre: "prefix (gs @ [f]) (fst (drain c (\<lambda>f fs. fs @ [f]) (drop n buf) (gs @ [f])))"
        by blast+
      from pre obtain hs where "fst (drain c (\<lambda>f fs. fs @ [f]) (drop n buf) (gs @ [f])) = gs @ [f] @ hs"
        by (auto simp: prefix_def)
      with eq dec show ?thesis
        by (subst (1 2 3) drain.simps) (auto simp: Let_def split: prod.splits)
    qed
  qed
qed

text \<open>Whatever the dispatcher, the loop is the fold of it over the collected frames.\<close>

lemma drain_collect:
  "drain c dispatch buf s = (let (fs, rest, e) = collect c buf in (fold dispatch fs s, rest, e))"
  using drain_fold [of c dispatch buf s "[]"] by (simp add: collect_def)

section \<open>The contract of the reader\<close>

locale frame_reader = frame_codec +
  fixes coll :: "bytes \<Rightarrow> frame list \<times> bytes \<times> io_error option"
  assumes coll_error: "dec buf = Inl e \<Longrightarrow> coll buf = ([], buf, Some e)"
    and coll_wait: "dec buf = Inr None \<Longrightarrow> coll buf = ([], buf, None)"
    and coll_frame: "dec buf = Inr (Some (f, n)) \<Longrightarrow> coll buf = apfst (Cons f) (coll (drop n buf))"
begin

text \<open>A further read: nothing happens after an error.\<close>

definition feed :: "bytes \<Rightarrow> frame list \<times> bytes \<times> io_error option \<Rightarrow> frame list \<times> bytes \<times> io_error option" where
  "feed chunk st = (case st of
      (fs, buf, Some e) \<Rightarrow> st
    | (fs, buf, None) \<Rightarrow> apfst (append fs) (coll (buf @ chunk)))"

lemma coll_rest_waits: "coll buf = (fs, rest, None) \<Longrightarrow> dec rest = Inr None"
proof (induction "length buf" arbitrary: buf fs rule: less_induct)
  case less
  show ?case
  proof (cases "dec buf")
    case (Inl e)
    then show ?thesis using less.prems coll_error by simp
  next
    case (Inr opt)
    show ?thesis
    proof (cases opt)
      case None
      then show ?thesis using less.prems Inr coll_wait by simp
    next
      case (Some p)
      obtain f n where dec: "dec buf = Inr (Some (f, n))" using Inr Some by (cases p) auto
      obtain gs where "coll (drop n buf) = (gs, rest, None)"
        using less.prems coll_frame [OF dec] by (cases "coll (drop n buf)") auto
      then show ?thesis using less.hyps [of "drop n buf"] dec_progress [OF dec] by auto
    qed
  qed
qed

text \<open>Bytes that arrive later are decoded as if they had been there from the start.\<close>

lemma coll_append:
  "coll (buf @ tail) = (case coll buf of
      (fs, rest, Some e) \<Rightarrow> (fs, rest @ tail, Some e)
    | (fs, rest, None) \<Rightarrow> apfst (append fs) (coll (rest @ tail)))"
proof (induction "length buf" arbitrary: buf rule: less_induct)
  case less
  show ?case
  proof (cases "dec buf")
    case (Inl e)
    then have "dec (buf @ tail) = Inl e" using dec_stable [of buf tail] by simp
    then show ?thesis using coll_error Inl by simp
  next
    case (Inr opt)
    show ?thesis
    proof (cases opt)
      case None
      then show ?thesis using coll_wait [of buf] Inr by (cases "coll (buf @ tail)") simp
    next
      case (Some p)
      obtain f n where dec: "dec buf = Inr (Some (f, n))" using Inr Some by (cases p) auto
      then have dec': "dec (buf @ tail) = Inr (Some (f, n))" using dec_stable [of buf tail] by simp
      have n: "0 < n" "n \<le> length buf" using dec_progress [OF dec] by auto
      then have "length (drop n buf) < length buf" by simp
      from less.hyps [OF this] n have
        "coll (drop n (buf @ tail)) = (case coll (drop n buf) of
            (fs, rest, Some e) \<Rightarrow> (fs, rest @ tail, Some e)
          | (fs, rest, None) \<Rightarrow> apfst (append fs) (coll (rest @ tail)))" by simp
      then show ?thesis
        using coll_frame [OF dec] coll_frame [OF dec']
        by (cases "coll (drop n buf)") (auto simp: apfst_def map_prod_def split: option.splits prod.splits)
    qed
  qed
qed

lemma feed_coll_frames:
  assumes "feed tail (coll buf) = (fs, rest, e)"
  shows "\<exists>rest'. coll (buf @ tail) = (fs, rest', e) \<and> (e = None \<longrightarrow> rest' = rest)"
proof (cases "coll buf")
  case (fields gs r x)
  then show ?thesis using assms coll_append [of buf tail] by (cases x) (auto simp: feed_def)
qed

lemma feeds_coll:
  "fold feed pieces (coll buf) = (fs, rest, None) \<longleftrightarrow> coll (buf @ concat pieces) = (fs, rest, None)"
proof (induction pieces arbitrary: buf)
  case (Cons d ds)
  show ?case
  proof (cases "coll buf")
    case (fields gs r x)
    show ?thesis
    proof (cases x)
      case None
      have "dec r = Inr None" using fields None by (auto intro: coll_rest_waits)
      then have "feed d (coll buf) = coll (buf @ d)"
        using fields None coll_append [of buf d] by (simp add: feed_def)
      then show ?thesis using Cons.IH [of "buf @ d"] by simp
    next
      case (Some e)
      then have stop: "feed d' (coll buf) = coll buf" for d' using fields by (simp add: feed_def)
      then have "fold feed (d # ds) (coll buf) = coll buf" by (induction ds) auto
      then show ?thesis
        using fields Some coll_append [of buf "concat (d # ds)"] by simp
    qed
  qed
qed simp

lemma coll_wires: "list_all2 wire fs ws \<Longrightarrow> dec [] = Inr None \<Longrightarrow> coll (concat ws) = (fs, [], None)"
proof (induction rule: list_all2_induct)
  case Nil
  then show ?case by (simp add: coll_wait)
next
  case (Cons f fs w ws)
  then show ?case using coll_frame [OF dec_wire [OF Cons.hyps(1), of "concat ws"]] by simp
qed

theorem segmentation:
  assumes "list_all2 wire fs ws" and "concat pieces = concat ws" and "dec [] = Inr None"
  shows "fold feed pieces ([], [], None) = (fs, [], None)"
proof -
  have "coll [] = ([], [], None)" using assms(3) by (rule coll_wait)
  then show ?thesis
    using feeds_coll [of pieces "[]" fs "[]"] coll_wires [OF assms(1,3)] assms(2) by simp
qed

end

lemma collect_cons:
  assumes "decode_frame c buf = Inr (Some (f, n))"
  shows "collect c buf = apfst (Cons f) (collect c (drop n buf))"
proof -
  obtain fs r e where d: "drain c (\<lambda>f fs. fs @ [f]) (drop n buf) [f] = (fs, r, e)" by (metis prod_cases3)
  have "collect c buf = (fs, r, e)"
    using assms d by (simp add: collect_def drain.simps [of c _ buf])
  moreover have "prefix [f] fs" using drain_fold [of c _ "drop n buf" "[]" "[f]"] d by auto
  moreover have "collect c (drop n buf) = (drop 1 fs, r, e)"
    using drain_fold [of c "\<lambda>f fs. fs @ [f]" "drop n buf" "[]" "[f]"] d
    by (simp add: collect_def fold_snoc)
  ultimately show ?thesis by (cases fs) auto
qed

interpretation reader: frame_reader "decode_frame c" "wire_image c" "collect c"
  by unfold_locales (simp_all add: collect_cons, simp_all add: collect_def drain.simps)

text \<open>
  The outer loop of the reader: one successful read of \<open>chunk\<close>; after an error the task is over. A read of no bytes, with which TCP says
  that the peer has closed and the task ends, is not one of these; that a read takes no more than the free part of the buffer only bounds the chunks.
\<close>

definition reader_read :: "codec \<Rightarrow> (frame \<Rightarrow> 's \<Rightarrow> 's) \<Rightarrow> bytes \<Rightarrow>
    's \<times> bytes \<times> io_error option \<Rightarrow> 's \<times> bytes \<times> io_error option" where
  "reader_read c dispatch chunk st = (case st of
      (s, buf, Some e) \<Rightarrow> st
    | (s, buf, None) \<Rightarrow> drain c dispatch (buf @ chunk) s)"

lemma reader_read_feed:
  "reader_read c dispatch chunk (fold dispatch fs s, buf, e) =
     (case reader.feed c chunk (fs, buf, e) of (fs', buf', e') \<Rightarrow> (fold dispatch fs' s, buf', e'))"
  by (auto simp: reader_read_def reader.feed_def drain_collect split: option.splits prod.splits)

lemma reader_reads_feed:
  "fold (reader_read c dispatch) pieces (fold dispatch fs s, buf, e) =
     (case fold (reader.feed c) pieces (fs, buf, e) of (fs', buf', e') \<Rightarrow> (fold dispatch fs' s, buf', e'))"
proof (induction pieces arbitrary: fs buf e)
  case (Cons d ds)
  obtain gs b x where f: "reader.feed c d (fs, buf, e) = (gs, b, x)" by (metis prod_cases3)
  then show ?case using Cons.IH [of gs b x] reader_read_feed [of c dispatch d fs s buf e] by simp
qed simp

section \<open>Properties of the reader\<close>

text \<open>
  C3. TCP may cut the byte stream anywhere: whatever the pieces, if they concatenate to the images of
  the frames the peer wrote, the reader dispatches exactly those frames, once each and in order, and
  ends with an empty buffer and no error.
\<close>

theorem reader_segmentation:
  assumes "list_all2 (wire_image c) fs ws" and "concat pieces = concat ws"
  shows "fold (reader_read c dispatch) pieces (s, [], None) = (fold dispatch fs s, [], None)"
proof -
  have "decode_frame c [] = Inr None" by (simp add: decode_frame_def parse_frame_def proto_consts)
  from reader.segmentation [OF assms this] show ?thesis
    using reader_reads_feed [of c dispatch pieces "[]" s "[]" None] by simp
qed

theorem reader_segmentation_witness:
  "\<exists>w v. wire_image example_codec (Frame Ping [1]) w \<and> wire_image example_codec (Frame Close [0,0,0,3]) v \<and>
     fold (reader_read example_codec (\<lambda>f fs. fs @ [f])) [take 5 w, drop 5 w @ take 3 v, drop 3 v] ([], [], None)
       = ([Frame Ping [1], Frame Close [0,0,0,3]], [], None)"
proof -
  obtain w v where "encode_frame example_rng example_codec Ping [1] = Inr w"
      "encode_frame example_rng example_codec Close [0,0,0,3] = Inr v"
    by (simp add: encode_frame_def Let_def proto_consts)
  then have w: "wire_image example_codec (Frame Ping [1]) w" and v: "wire_image example_codec (Frame Close [0,0,0,3]) v"
    by (auto simp: wire_image_def)
  have "fold (reader_read example_codec (\<lambda>f fs. fs @ [f])) [take 5 w, drop 5 w @ take 3 v, drop 3 v] ([], [], None)
      = (fold (\<lambda>f fs. fs @ [f]) [Frame Ping [1], Frame Close [0,0,0,3]] [], [], None)"
    by (rule reader_segmentation [of _ _ "[w, v]"]) (use w v in simp_all)
  with w v show ?thesis by auto
qed

text \<open>
  The reader's buffer is large enough: after every read that did not end the task there is room
  left in it, so a read of zero bytes can only mean that the peer closed the connection.
\<close>

theorem reader_buffer_never_full:
  assumes "fold (reader_read c dispatch) pieces (s, [], None) = (s', buf, None)"
  shows "length buf < READER_BUF"
proof (cases pieces rule: rev_cases)
  case Nil
  then show ?thesis using assms by (simp add: READER_BUF_def proto_consts)
next
  case (snoc ds d)
  obtain t b e where st: "fold (reader_read c dispatch) ds (s, [], None) = (t, b, e)" by (metis prod_cases3)
  then have "e = None" using assms snoc by (cases e) (auto simp: reader_read_def)
  then have "drain c dispatch (b @ d) t = (s', buf, None)"
    using assms snoc st by (simp add: reader_read_def)
  then obtain fs where "collect c (b @ d) = (fs, buf, None)"
    by (auto simp: drain_collect split: prod.splits)
  then have "decode_frame c buf = Inr None" by (rule reader.coll_rest_waits)
  then show ?thesis by (simp add: decode_frame_None READER_BUF_def)
qed

theorem reader_buffer_never_full_witness:
  "fold (reader_read example_codec (\<lambda>f n. n + 1)) [[1, 2], [3]] (0 :: nat, [], None) = (0, [1, 2, 3], None)
   \<and> length [1 :: byte, 2, 3] < READER_BUF"
proof -
  have "fold (reader_read example_codec (\<lambda>f n. n + 1)) [[1, 2], [3]] (0 :: nat, [], None) = (0, [1, 2, 3], None)"
    by (simp add: reader_read_def drain.simps decode_frame_def parse_frame_def proto_consts)
  from this reader_buffer_never_full [OF this] show ?thesis by (rule conjI)
qed

section \<open>Writing\<close>

text \<open>
  One turn of \<^verbatim>\<open>writer_task\<close>: the biased select looks at the shutdown permit, then at the
  control plane, then at the bulk plane. A plane is over when it is empty and its senders are gone.
\<close>

datatype writer_pick = PickStop | PickFrame out_frame "out_frame chan" "out_frame chan" | PickWait | PickEnd

definition writer_select :: "bool \<Rightarrow> bool \<Rightarrow> bool \<Rightarrow> out_frame chan \<Rightarrow> out_frame chan \<Rightarrow> writer_pick" where
  "writer_select shutdown ctrl_open data_open ctrl data =
     (if shutdown then PickStop
      else case queue ctrl of
        f # _ \<Rightarrow> PickFrame f (pop ctrl) data
      | [] \<Rightarrow> (case queue data of
          f # _ \<Rightarrow> PickFrame f ctrl (pop data)
        | [] \<Rightarrow> if ctrl_open \<or> data_open then PickWait else PickEnd))"

definition writer_payload :: "out_frame \<Rightarrow> bytes" where
  "writer_payload f =
     (if out_command f = Ping \<or> out_command f = Pong then out_payload f
      else encode_mux_payload (out_sid f) (out_payload f))"

datatype writer_result =
    Wrote bytes "out_frame chan" "out_frame chan" | WriterWaits | WriterEnds "io_error option"

definition writer_turn :: "rng \<Rightarrow> codec \<Rightarrow> io_error option \<Rightarrow> bool \<Rightarrow> bool \<Rightarrow> bool \<Rightarrow>
    out_frame chan \<Rightarrow> out_frame chan \<Rightarrow> writer_result" where
  "writer_turn r c werr shutdown ctrl_open data_open ctrl data =
     (case writer_select shutdown ctrl_open data_open ctrl data of
        PickStop \<Rightarrow> WriterEnds None
      | PickEnd \<Rightarrow> WriterEnds None
      | PickWait \<Rightarrow> WriterWaits
      | PickFrame f ctrl' data' \<Rightarrow>
          (case encode_frame r c (out_command f) (writer_payload f) of
             Inl e \<Rightarrow> WriterEnds (Some e)
           | Inr wire \<Rightarrow> (case werr of
               Some e \<Rightarrow> WriterEnds (Some e)
             | None \<Rightarrow> Wrote wire ctrl' data')))"

text \<open>Frames the codec takes: the writer never stops on one.\<close>

definition encodable :: "out_frame \<Rightarrow> bool" where
  "encodable f \<longleftrightarrow> length (writer_payload f) \<le> MAX_PAYLOAD_LEN"

lemma writer_turn_no_error:
  assumes "\<forall>f \<in> set (queue ctrl) \<union> set (queue data). encodable f"
  shows "writer_turn r c None shutdown co do ctrl data \<noteq> WriterEnds (Some e)"
  using assms
  by (auto simp: writer_turn_def writer_select_def encodable_def encode_frame_def Let_def
      split: list.splits if_splits)

end
