(* ===== verification/Mux_Handshake.thy ===== *)
theory Mux_Handshake
  imports Protocol
begin

unbundle bit_operations_syntax

text \<open>
  Capabilities of a mux connection and the handshake that negotiates them: \<^verbatim>\<open>MuxCaps\<close>,
  \<^verbatim>\<open>mux_handshake_client\<close> and \<^verbatim>\<open>mux_handshake_server\<close> of \<^verbatim>\<open>xr-proto/src/mux.rs\<close>. The
  transport is an argument: what each \<^verbatim>\<open>read\<close> yields, and whether \<^verbatim>\<open>write_all\<close> fails.

  The lemmas show that both ends agree on the capabilities, also with peers from before the flag
  byte existed, however TCP cuts the acknowledgement; and that the client's 256-byte buffer
  refuses an acknowledgement whose padding is long.
\<close>

section \<open>Capabilities\<close>

definition MUX_PROTOCOL_VERSION :: u8 where "MUX_PROTOCOL_VERSION = 1"
definition MUX_FLAG_WINDOW :: u8 where "MUX_FLAG_WINDOW = 0x01"

record mux_caps =
  window :: bool

definition caps_LOCAL :: mux_caps where
  "caps_LOCAL = \<lparr>window = True\<rparr>"

definition to_flags :: "mux_caps \<Rightarrow> u8" where
  "to_flags c = (if window c then MUX_FLAG_WINDOW else 0)"

definition from_flags :: "u8 \<Rightarrow> mux_caps" where
  "from_flags flags = \<lparr>window = (flags AND MUX_FLAG_WINDOW \<noteq> 0)\<rparr>"

text \<open>\<^verbatim>\<open>payload.get(i).copied().unwrap_or(0)\<close>.\<close>

definition byte_or_0 :: "bytes \<Rightarrow> nat \<Rightarrow> u8" where
  "byte_or_0 bs i = (if i < length bs then bs ! i else 0)"

section \<open>The client\<close>

datatype read_event = ReadOk bytes | ReadErr io_error | ReadTimeout

definition CLIENT_HANDSHAKE_BUF :: nat where "CLIENT_HANDSHAKE_BUF = 256"

definition read_ack :: "frame \<Rightarrow> mux_caps option" where
  "read_ack f =
     (if command f \<noteq> MuxInitAck then None
      else if length (payload f) \<ge> 2 \<and> payload f ! 1 = 0
      then Some (from_flags (byte_or_0 (payload f) 2 AND to_flags caps_LOCAL))
      else None)"

text \<open>
  The read loop. \<open>events\<close> is what the socket does; a read into the empty tail of a full buffer
  yields zero bytes at once. \<open>None\<close> means that the loop still waits when the events end.
\<close>

fun client_read_loop :: "codec \<Rightarrow> bytes \<Rightarrow> read_event list \<Rightarrow> mux_caps option io_result option" where
  "client_read_loop c buf events =
     (if CLIENT_HANDSHAKE_BUF \<le> length buf
      then Some (Inl (IoError ConnectionReset ''server closed during mux init''))
      else case events of
        [] \<Rightarrow> None
      | ReadTimeout # _ \<Rightarrow> Some (Inl (IoError TimedOut ''mux init ack timeout''))
      | ReadErr e # _ \<Rightarrow> Some (Inl e)
      | ReadOk data # es \<Rightarrow>
          if data = [] then Some (Inl (IoError ConnectionReset ''server closed during mux init''))
          else let buf' = buf @ take (CLIENT_HANDSHAKE_BUF - length buf) data in
            (case decode_frame c buf' of
               Inl e \<Rightarrow> Some (Inl e)
             | Inr (Some (f, _)) \<Rightarrow> Some (Inr (read_ack f))
             | Inr None \<Rightarrow> client_read_loop c buf' es))"

declare client_read_loop.simps [simp del]

text \<open>The bytes written, and the result; \<open>werr\<close> is the outcome of \<^verbatim>\<open>write_all\<close>.\<close>

definition mux_handshake_client ::
    "rng \<Rightarrow> codec \<Rightarrow> io_error option \<Rightarrow> read_event list \<Rightarrow> bytes \<times> mux_caps option io_result option" where
  "mux_handshake_client r c werr events =
     (case encode_frame r c MuxInit [MUX_PROTOCOL_VERSION, to_flags caps_LOCAL] of
        Inl e \<Rightarrow> ([], Some (Inl e))
      | Inr wire \<Rightarrow>
          (case werr of
             Some e \<Rightarrow> ([], Some (Inl e))
           | None \<Rightarrow> (wire, client_read_loop c [] events)))"

section \<open>The server\<close>

definition mux_handshake_server ::
    "rng \<Rightarrow> codec \<Rightarrow> io_error option \<Rightarrow> frame \<Rightarrow> bytes \<times> mux_caps option io_result" where
  "mux_handshake_server r c werr init_frame =
     (if command init_frame \<noteq> MuxInit then ([], Inr None)
      else
        let version = byte_or_0 (payload init_frame) 0 in
        if version \<noteq> MUX_PROTOCOL_VERSION then
          (case encode_frame r c MuxInitAck [version, 1] of
             Inl e \<Rightarrow> ([], Inl e)
           | Inr ack \<Rightarrow> (case werr of Some e \<Rightarrow> ([], Inl e) | None \<Rightarrow> (ack, Inr None)))
        else
          let peer_flags = byte_or_0 (payload init_frame) 1;
              caps = from_flags (peer_flags AND to_flags caps_LOCAL)
          in (case encode_frame r c MuxInitAck [MUX_PROTOCOL_VERSION, 0, to_flags caps] of
                Inl e \<Rightarrow> ([], Inl e)
              | Inr ack \<Rightarrow> (case werr of Some e \<Rightarrow> ([], Inl e) | None \<Rightarrow> (ack, Inr (Some caps)))))"

section \<open>Reading an acknowledgement in pieces\<close>

lemma from_to_flags [simp]: "from_flags (to_flags caps AND to_flags caps_LOCAL) = caps"
  by (cases caps) (simp add: from_flags_def to_flags_def caps_LOCAL_def MUX_FLAG_WINDOW_def)

lemma caps_and_local [simp]: "from_flags (f AND to_flags caps_LOCAL) = from_flags f"
  by (simp add: from_flags_def to_flags_def caps_LOCAL_def MUX_FLAG_WINDOW_def and.assoc)

text \<open>A byte stream cut anywhere is a list of nonempty chunks.\<close>

definition segments :: "bytes list \<Rightarrow> bytes \<Rightarrow> bool" where
  "segments chunks w \<longleftrightarrow> concat chunks = w \<and> [] \<notin> set chunks"

lemma client_loop_reads:
  assumes img: "wire_image c f w" and fit: "length w \<le> CLIENT_HANDSHAKE_BUF"
    and "buf @ concat chunks = w" "[] \<notin> set chunks" "chunks \<noteq> []"
  shows "client_read_loop c buf (map ReadOk chunks) = Some (Inr (read_ack f))"
  using assms(3-)
proof (induction chunks arbitrary: buf)
  case (Cons d ds)
  have d: "d \<noteq> []" "buf @ d @ concat ds = w" using Cons.prems by auto
  then have room: "length buf + length d \<le> CLIENT_HANDSHAKE_BUF" using fit by auto
  then have buf': "buf @ take (CLIENT_HANDSHAKE_BUF - length buf) d = buf @ d" by simp
  have open_buf: "\<not> CLIENT_HANDSHAKE_BUF \<le> length buf"
    using d(1) room by (cases d) simp_all
  show ?case
  proof (cases "ds = []")
    case True
    then have "buf @ d = w" using d(2) by simp
    then show ?thesis
      using d(1) buf' open_buf codec.dec_wire [OF img, of "[]"]
      by (subst client_read_loop.simps) (simp add: True Let_def)
  next
    case False
    then have "concat ds \<noteq> []" using Cons.prems(2) by (cases ds) auto
    then have "strict_prefix (buf @ d) w" using d(2) by (auto simp: strict_prefix_def)
    then have "decode_frame c (buf @ d) = Inr None" by (rule codec.dec_strict_prefix [OF img])
    moreover have "client_read_loop c (buf @ d) (map ReadOk ds) = Some (Inr (read_ack f))"
      using Cons.prems False d(2) by (intro Cons.IH) auto
    ultimately show ?thesis
      using d(1) buf' open_buf by (subst client_read_loop.simps) (simp add: Let_def)
  qed
qed simp

lemma client_loop_overflows:
  assumes img: "wire_image c f w" and big: "CLIENT_HANDSHAKE_BUF < length w"
    and "prefix buf w" "length buf \<le> CLIENT_HANDSHAKE_BUF"
    and "CLIENT_HANDSHAKE_BUF < length buf \<or> prefix w (buf @ concat chunks)
         \<or> CLIENT_HANDSHAKE_BUF = length buf" "[] \<notin> set chunks"
  shows "client_read_loop c buf (map ReadOk chunks) =
    Some (Inl (IoError ConnectionReset ''server closed during mux init''))"
  using assms(3-)
proof (induction chunks arbitrary: buf)
  case Nil
  then have "CLIENT_HANDSHAKE_BUF \<le> length buf" using big by (auto dest: prefix_length_le)
  then show ?case by (simp add: client_read_loop.simps)
next
  case (Cons d ds)
  show ?case
  proof (cases "CLIENT_HANDSHAKE_BUF = length buf")
    case True
    then show ?thesis by (simp add: client_read_loop.simps)
  next
    case False
    let ?n = "CLIENT_HANDSHAKE_BUF - length buf"
    let ?b = "buf @ take ?n d"
    have d: "d \<noteq> []" and wp: "prefix w (buf @ d @ concat ds)" and less: "length buf < CLIENT_HANDSHAKE_BUF"
      using Cons.prems False by auto
    have len: "length ?b \<le> CLIENT_HANDSHAKE_BUF" using less by simp
    have "prefix ?b (buf @ d @ concat ds)" by (simp add: take_is_prefix prefix_prefix)
    then have pre: "prefix ?b w"
      using wp len big by (metis le_less_trans less_imp_le prefix_length_prefix)
    then have "strict_prefix ?b w" using len big by (auto simp: strict_prefix_def)
    then have none: "decode_frame c ?b = Inr None" by (rule codec.dec_strict_prefix [OF img])
    have "client_read_loop c ?b (map ReadOk ds) =
      Some (Inl (IoError ConnectionReset ''server closed during mux init''))"
    proof (rule Cons.IH [OF pre len])
      show "CLIENT_HANDSHAKE_BUF < length ?b \<or> prefix w (?b @ concat ds) \<or> CLIENT_HANDSHAKE_BUF = length ?b"
        using wp less by (cases "length d \<le> ?n") auto
    qed (use Cons.prems in simp)
    then show ?thesis
      using d less none by (subst client_read_loop.simps) (simp add: Let_def)
  qed
qed

section \<open>Properties of the handshake\<close>

lemma server_accepts:
  assumes "payload f ! 0 = MUX_PROTOCOL_VERSION" and "payload f \<noteq> []" and "command f = MuxInit"
  shows "\<exists>ack. mux_handshake_server r c None f = (ack, Inr (Some (from_flags (byte_or_0 (payload f) 1))))
    \<and> encode_frame r c MuxInitAck [MUX_PROTOCOL_VERSION, 0, to_flags (from_flags (byte_or_0 (payload f) 1))] = Inr ack"
  using assms by (simp add: mux_handshake_server_def byte_or_0_def encode_frame_def Let_def proto_consts)

text \<open>
  Both ends agree: when the server answers the client's MuxInit and its acknowledgement is not
  longer than the client's buffer, then however TCP cuts the acknowledgement the client ends up with
  exactly the capabilities the server has, and they include window flow control.
\<close>

theorem handshake_agreement:
  assumes "mux_handshake_client r c None [] = (init, None)"
    and "decode_frame c init = Inr (Some (f, n))"
    and "mux_handshake_server r' c None f = (ack, Inr (Some caps))"
    and "length ack \<le> CLIENT_HANDSHAKE_BUF" and "segments chunks ack"
  shows "snd (mux_handshake_client r c None (map ReadOk chunks)) = Some (Inr (Some caps)) \<and> window caps"
proof -
  have enc: "encode_frame r c MuxInit [MUX_PROTOCOL_VERSION, to_flags caps_LOCAL] = Inr init"
    using assms(1) by (auto simp: mux_handshake_client_def split: sum.splits)
  then have "wire_image c (Frame MuxInit [MUX_PROTOCOL_VERSION, to_flags caps_LOCAL]) init"
    by (auto simp: wire_image_def)
  from codec.dec_wire [OF this, of "[]"] assms(2)
  have f: "f = Frame MuxInit [MUX_PROTOCOL_VERSION, to_flags caps_LOCAL]" by simp
  have win: "from_flags (byte_or_0 (payload f) 1) = caps_LOCAL"
    by (simp add: f byte_or_0_def from_flags_def to_flags_def caps_LOCAL_def MUX_FLAG_WINDOW_def)
  with server_accepts [of f r' c] assms(3) f
  have caps: "caps = caps_LOCAL"
    and ack: "encode_frame r' c MuxInitAck [MUX_PROTOCOL_VERSION, 0, to_flags caps_LOCAL] = Inr ack"
    by auto
  let ?a = "Frame MuxInitAck [MUX_PROTOCOL_VERSION, 0, to_flags caps_LOCAL]"
  have img: "wire_image c ?a ack" using ack by (auto simp: wire_image_def)
  have "chunks \<noteq> []" using codec.wire_nonempty [OF img] assms(5) by (auto simp: segments_def)
  then have "client_read_loop c [] (map ReadOk chunks) = Some (Inr (read_ack ?a))"
    using assms(4,5) by (intro client_loop_reads [OF img]) (auto simp: segments_def)
  moreover have "read_ack ?a = Some caps_LOCAL"
    using from_to_flags [of caps_LOCAL] by (simp add: read_ack_def byte_or_0_def del: caps_and_local)
  ultimately show ?thesis
    using enc caps by (simp add: mux_handshake_client_def caps_LOCAL_def)
qed

theorem handshake_agreement_witness:
  "\<exists>init ack. mux_handshake_client example_rng example_codec None [] = (init, None) \<and>
     snd (mux_handshake_client example_rng example_codec None (map ReadOk [take 9 ack, drop 9 ack]))
       = Some (Inr (Some caps_LOCAL))"
proof -
  obtain init where i: "encode_frame example_rng example_codec MuxInit [MUX_PROTOCOL_VERSION, to_flags caps_LOCAL] = Inr init"
    by (simp add: encode_frame_def Let_def proto_consts)
  then have client: "mux_handshake_client example_rng example_codec None [] = (init, None)"
    by (simp add: mux_handshake_client_def client_read_loop.simps CLIENT_HANDSHAKE_BUF_def)
  let ?f = "Frame MuxInit [MUX_PROTOCOL_VERSION, to_flags caps_LOCAL]"
  have "wire_image example_codec ?f init" using i by (auto simp: wire_image_def)
  from codec.dec_wire [OF this, of "[]"]
  have dec: "decode_frame example_codec init = Inr (Some (?f, length init))" by simp
  have "from_flags (byte_or_0 (payload ?f) 1) = caps_LOCAL"
    by (simp add: byte_or_0_def from_flags_def to_flags_def caps_LOCAL_def MUX_FLAG_WINDOW_def)
  then obtain ack where a: "mux_handshake_server example_rng example_codec None ?f = (ack, Inr (Some caps_LOCAL))"
      "encode_frame example_rng example_codec MuxInitAck [MUX_PROTOCOL_VERSION, 0, to_flags caps_LOCAL] = Inr ack"
    using server_accepts [of ?f] by auto
  then have "length ack = 16"
    by (auto simp: encode_frame_def Let_def proto_consts obf.length_assemble_frame draw_padding_len_def
        example_rng_def example_codec_def)
  moreover then have "segments [take 9 ack, drop 9 ack] ack" by (auto simp: segments_def)
  ultimately show ?thesis
    using handshake_agreement [OF client dec a(1), of "[take 9 ack, drop 9 ack]"] client
    by (intro exI [of _ init] exI [of _ ack]) (simp add: CLIENT_HANDSHAKE_BUF_def)
qed

text \<open>
  A peer from before the flag byte still gets a working mux without windows: a one-byte MuxInit
  is accepted with the window off, and a two-byte acknowledgement is read as the window off. A
  version that is not ours is rejected by both.
\<close>

theorem handshake_old_peers:
  "snd (mux_handshake_server r c None (Frame MuxInit [v])) =
     Inr (if v = MUX_PROTOCOL_VERSION then Some \<lparr>window = False\<rparr> else None)
   \<and> read_ack (Frame MuxInitAck [v, 0]) = Some \<lparr>window = False\<rparr>
   \<and> read_ack (Frame MuxInitAck [v, 1]) = None"
  by (simp add: mux_handshake_server_def byte_or_0_def encode_frame_def Let_def proto_consts
      read_ack_def from_flags_def)

text \<open>
  An acknowledgement with a padding of 246 bytes or more never completes in the client's
  256-byte buffer: whatever the segmentation, the client gives up with "server closed during mux
  init" although the server accepted.
\<close>

theorem handshake_long_padding_fails:
  assumes "mux_handshake_server r c None (Frame MuxInit (MUX_PROTOCOL_VERSION # rest)) = (ack, Inr (Some caps))"
    and "246 \<le> unat (draw_padding_len r c)" and "segments chunks ack"
    and "encode_frame r' c MuxInit [MUX_PROTOCOL_VERSION, to_flags caps_LOCAL] = Inr init"
  shows "snd (mux_handshake_client r' c None (map ReadOk chunks)) =
    Some (Inl (IoError ConnectionReset ''server closed during mux init''))"
proof -
  obtain fl where enc: "encode_frame r c MuxInitAck [MUX_PROTOCOL_VERSION, 0, fl] = Inr ack"
    using server_accepts [of "Frame MuxInit (MUX_PROTOCOL_VERSION # rest)" r c] assms(1) by auto
  then have img: "wire_image c (Frame MuxInitAck [MUX_PROTOCOL_VERSION, 0, fl]) ack"
    by (auto simp: wire_image_def)
  have "256 < length ack"
    using enc assms(2) by (auto simp: encode_frame_def Let_def proto_consts obf.length_assemble_frame)
  then have "client_read_loop c [] (map ReadOk chunks) =
    Some (Inl (IoError ConnectionReset ''server closed during mux init''))"
    using assms(3) by (intro client_loop_overflows [OF img])
      (auto simp: segments_def CLIENT_HANDSHAKE_BUF_def)
  then show ?thesis using assms(4) by (simp add: mux_handshake_client_def)
qed

definition padded_codec :: codec where
  "padded_codec = \<lparr>obfuscator = odd_key_obfuscator, padding_min = 250, padding_max = 250\<rparr>"

theorem handshake_long_padding_fails_witness:
  "\<exists>ack caps. mux_handshake_server example_rng padded_codec None (Frame MuxInit [1, 1]) = (ack, Inr (Some caps))
    \<and> snd (mux_handshake_client example_rng padded_codec None (map ReadOk [ack])) =
        Some (Inl (IoError ConnectionReset ''server closed during mux init''))"
proof -
  let ?f = "Frame MuxInit (MUX_PROTOCOL_VERSION # [1])"
  obtain ack caps where a: "mux_handshake_server example_rng padded_codec None ?f = (ack, Inr (Some caps))"
      "encode_frame example_rng padded_codec MuxInitAck [MUX_PROTOCOL_VERSION, 0, to_flags caps] = Inr ack"
    using server_accepts [of ?f example_rng padded_codec] by auto
  have p: "246 \<le> unat (draw_padding_len example_rng padded_codec)"
    by (simp add: draw_padding_len_def padded_codec_def)
  have "ack \<noteq> []"
    using a(2) by (auto simp: encode_frame_def Let_def proto_consts assemble_frame_def u32_to_be_def)
  then have s: "segments [ack] ack" by (simp add: segments_def)
  obtain init where i: "encode_frame example_rng padded_codec MuxInit [MUX_PROTOCOL_VERSION, to_flags caps_LOCAL] = Inr init"
    by (simp add: encode_frame_def Let_def proto_consts)
  show ?thesis
    using handshake_long_padding_fails [OF a(1) p s i] a(1) by (auto simp: MUX_PROTOCOL_VERSION_def)
qed

end
