(* ===== verification/Relay_Health.thy ===== *)
theory Relay_Health
  imports XR_Prelude
begin

text \<open>
  Relay outcomes seen by the client, \<^verbatim>\<open>RelayWindow\<close> and \<^verbatim>\<open>RelayHealth\<close> of
  \<^verbatim>\<open>xr-proto/src/mux.rs\<close>: two buckets of counters, rotated by age, from which \<^verbatim>\<open>degraded\<close>
  decides whether a server tunnels but does no useful work. Every operation takes the instant
  at which it runs; the mutex makes each one atomic.

  The lemmas relate the counters to the log of recorded outcomes: what is counted is a suffix of
  the log that holds everything younger than 30 seconds and nothing as old as 90 seconds.
\<close>

definition RELAY_WINDOW :: duration where "RELAY_WINDOW = from_secs 30"
definition RELAY_FAIL_MIN :: u32 where "RELAY_FAIL_MIN = 5"

record relay_bucket =
  domain_ok :: u32
  total_ok :: u32
  resolve_fail :: u32
  connect_fail :: u32

definition bucket_default :: relay_bucket where
  "bucket_default = \<lparr>domain_ok = 0, total_ok = 0, resolve_fail = 0, connect_fail = 0\<rparr>"

record relay_window =
  cur_start :: instant
  cur :: relay_bucket
  prev :: relay_bucket

definition rotate :: "instant \<Rightarrow> relay_window \<Rightarrow> relay_window" where
  "rotate now w =
     (let el = elapsed (cur_start w) now in
      if el < RELAY_WINDOW then w
      else w\<lparr>prev := (if el < RELAY_WINDOW * 2 then cur w else bucket_default),
             cur := bucket_default, cur_start := now\<rparr>)"

definition health_new :: "instant \<Rightarrow> relay_window" where
  "health_new now = \<lparr>cur_start = now, cur = bucket_default, prev = bucket_default\<rparr>"

definition record_success :: "instant \<Rightarrow> bool \<Rightarrow> relay_window \<Rightarrow> relay_window" where
  "record_success now domain w =
     (let w1 = rotate now w;
          b1 = (cur w1)\<lparr>total_ok := total_ok (cur w1) + 1\<rparr>;
          b2 = (if domain then b1\<lparr>domain_ok := domain_ok b1 + 1\<rparr> else b1)
      in w1\<lparr>cur := b2\<rparr>)"

definition record_resolve_fail :: "instant \<Rightarrow> relay_window \<Rightarrow> relay_window" where
  "record_resolve_fail now w =
     (let w1 = rotate now w
      in w1\<lparr>cur := (cur w1)\<lparr>resolve_fail := resolve_fail (cur w1) + 1\<rparr>\<rparr>)"

definition record_connect_fail :: "instant \<Rightarrow> relay_window \<Rightarrow> relay_window" where
  "record_connect_fail now w =
     (let w1 = rotate now w
      in w1\<lparr>cur := (cur w1)\<lparr>connect_fail := connect_fail (cur w1) + 1\<rparr>\<rparr>)"

text \<open>\<^verbatim>\<open>degraded\<close> rotates the window and then compares the sums over both buckets.\<close>

definition degraded_now :: "relay_window \<Rightarrow> bool" where
  "degraded_now w =
     (let d = domain_ok (cur w) + domain_ok (prev w);
          t = total_ok (cur w) + total_ok (prev w);
          r = resolve_fail (cur w) + resolve_fail (prev w);
          c = connect_fail (cur w) + connect_fail (prev w)
      in (r \<ge> RELAY_FAIL_MIN \<and> r > d) \<or> (c \<ge> RELAY_FAIL_MIN \<and> c > t))"

definition degraded :: "instant \<Rightarrow> relay_window \<Rightarrow> bool \<times> relay_window" where
  "degraded now w = (let w1 = rotate now w in (degraded_now w1, w1))"

definition health_reset :: "instant \<Rightarrow> relay_window \<Rightarrow> relay_window" where
  "health_reset now w = w\<lparr>cur := bucket_default, prev := bucket_default, cur_start := now\<rparr>"

section \<open>The log of outcomes\<close>

datatype outcome = Success bool | ResolveFail | ConnectFail

fun record_outcome :: "instant \<Rightarrow> outcome \<Rightarrow> relay_window \<Rightarrow> relay_window" where
  "record_outcome now (Success d) w = record_success now d w"
| "record_outcome now ResolveFail w = record_resolve_fail now w"
| "record_outcome now ConnectFail w = record_connect_fail now w"

fun record_all :: "(instant \<times> outcome) list \<Rightarrow> relay_window \<Rightarrow> relay_window" where
  "record_all [] w = w"
| "record_all ((t, x) # log) w = record_all log (record_outcome t x w)"

text \<open>The counters of a log, without a window.\<close>

definition tally :: "(instant \<times> outcome) list \<Rightarrow> relay_bucket" where
  "tally log = \<lparr>domain_ok = of_nat (count_list (map snd log) (Success True)),
     total_ok = of_nat (count_list (map snd log) (Success True) + count_list (map snd log) (Success False)),
     resolve_fail = of_nat (count_list (map snd log) ResolveFail),
     connect_fail = of_nat (count_list (map snd log) ConnectFail)\<rparr>"

text \<open>What the window knows: the current bucket counts \<open>cs\<close>, the previous one \<open>ps\<close>, the rest is old.\<close>

definition window_of :: "instant \<Rightarrow> (instant \<times> outcome) list \<Rightarrow> (instant \<times> outcome) list \<Rightarrow>
    (instant \<times> outcome) list \<Rightarrow> relay_window \<Rightarrow> bool" where
  "window_of now old ps cs w \<longleftrightarrow>
     cur w = tally cs \<and> prev w = tally ps \<and> cur_start w \<le> now \<and>
     (\<forall>(t, x) \<in> set cs. cur_start w \<le> t \<and> t < cur_start w + RELAY_WINDOW) \<and>
     (\<forall>(t, x) \<in> set ps. t \<le> cur_start w \<and> cur_start w < t + 2 * RELAY_WINDOW) \<and>
     (\<forall>(t, x) \<in> set old. t + RELAY_WINDOW \<le> now)"

lemma tally_Nil: "tally [] = bucket_default"
  by (simp add: tally_def bucket_default_def)

lemma window_of_new: "window_of now [] [] [] (health_new now)"
  by (simp add: window_of_def health_new_def tally_Nil)

lemma rotate_fresh: "elapsed (cur_start (rotate now w)) now < RELAY_WINDOW"
  by (auto simp: rotate_def Let_def RELAY_WINDOW_def)

lemma window_of_later: "window_of now old ps cs w \<Longrightarrow> now \<le> now' \<Longrightarrow> window_of now' old ps cs w"
  by (fastforce simp: window_of_def)

lemma window_of_rotate:
  assumes "window_of now old ps cs w"
  shows "\<exists>old' ps' cs'. old' @ ps' @ cs' = old @ ps @ cs \<and> window_of now old' ps' cs' (rotate now w)"
proof -
  consider (same) "elapsed (cur_start w) now < RELAY_WINDOW"
    | (next_) "RELAY_WINDOW \<le> elapsed (cur_start w) now" "elapsed (cur_start w) now < RELAY_WINDOW * 2"
    | (far) "RELAY_WINDOW * 2 \<le> elapsed (cur_start w) now"
    by linarith
  then show ?thesis
  proof cases
    case same
    then show ?thesis using assms by (auto simp: rotate_def intro!: exI)
  next
    case next_
    then have "window_of now (old @ ps) cs [] (rotate now w)"
      using assms by (fastforce simp: window_of_def rotate_def Let_def tally_Nil)
    then show ?thesis by (metis append.assoc append_Nil2)
  next
    case far
    then have "window_of now (old @ ps @ cs) [] [] (rotate now w)"
      using assms by (fastforce simp: window_of_def rotate_def Let_def tally_Nil RELAY_WINDOW_def)
    then show ?thesis by (metis append_Nil2)
  qed
qed

lemma tally_snoc:
  "tally (log @ [(t, Success True)]) =
     (tally log)\<lparr>total_ok := total_ok (tally log) + 1, domain_ok := domain_ok (tally log) + 1\<rparr>"
  "tally (log @ [(t, Success False)]) = (tally log)\<lparr>total_ok := total_ok (tally log) + 1\<rparr>"
  "tally (log @ [(t, ResolveFail)]) = (tally log)\<lparr>resolve_fail := resolve_fail (tally log) + 1\<rparr>"
  "tally (log @ [(t, ConnectFail)]) = (tally log)\<lparr>connect_fail := connect_fail (tally log) + 1\<rparr>"
  by (simp_all add: tally_def)

lemma record_outcome_cur:
  assumes "cur (rotate t w) = tally cs"
  shows "record_outcome t x w = (rotate t w)\<lparr>cur := tally (cs @ [(t, x)])\<rparr>"
  using assms
  by (cases x rule: outcome.exhaust)
    (auto simp: record_success_def record_resolve_fail_def record_connect_fail_def Let_def tally_snoc
      split: bool.splits if_splits)

lemma window_of_record:
  assumes "window_of t old ps cs w"
  shows "\<exists>old' ps' cs'. old' @ ps' @ cs' = old @ ps @ cs @ [(t, x)] \<and>
           window_of t old' ps' cs' (record_outcome t x w)"
proof -
  obtain old' ps' cs' where eq: "old' @ ps' @ cs' = old @ ps @ cs"
    and win: "window_of t old' ps' cs' (rotate t w)"
    using window_of_rotate [OF assms] by blast
  have "window_of t old' ps' (cs' @ [(t, x)]) (record_outcome t x w)"
    using win rotate_fresh [of t w] record_outcome_cur [of t w cs' x]
    by (auto simp: window_of_def)
  moreover have "old' @ ps' @ cs' @ [(t, x)] = old @ ps @ cs @ [(t, x)]"
    using eq by (metis append.assoc)
  ultimately show ?thesis by blast
qed

lemma window_of_record_all:
  assumes "window_of t0 old ps cs w" and "sorted (t0 # map fst log @ [now])"
  shows "\<exists>old' ps' cs'. old' @ ps' @ cs' = old @ ps @ cs @ log \<and>
           window_of now old' ps' cs' (record_all log w)"
  using assms
proof (induction log arbitrary: t0 old ps cs w)
  case Nil
  then show ?case using window_of_later [of t0 old ps cs w now] by auto
next
  case (Cons e log)
  obtain t x where e: "e = (t, x)" by (cases e)
  have "window_of t old ps cs w"
    using Cons.prems by (auto simp: e intro: window_of_later)
  from window_of_record [OF this, of x] obtain old' ps' cs' where
    eq: "old' @ ps' @ cs' = old @ ps @ cs @ [(t, x)]"
    and win: "window_of t old' ps' cs' (record_outcome t x w)" by blast
  have "sorted (t # map fst log @ [now])" using Cons.prems(2) by (simp add: e)
  from Cons.IH [OF win this] obtain old2 ps2 cs2 where
    "old2 @ ps2 @ cs2 = old' @ ps' @ cs' @ log"
    "window_of now old2 ps2 cs2 (record_all log (record_outcome t x w))" by blast
  moreover have "old' @ ps' @ cs' @ log = old @ ps @ cs @ e # log"
    using eq by (metis append.assoc append_Cons append_Nil e)
  ultimately show ?case by (auto simp: e)
qed

section \<open>What degraded decides\<close>

text \<open>The verdict as a function of the outcomes it takes into account.\<close>

definition degraded_spec :: "(instant \<times> outcome) list \<Rightarrow> bool" where
  "degraded_spec log =
     (let xs = map snd log;
          d = count_list xs (Success True);
          t = d + count_list xs (Success False);
          r = count_list xs ResolveFail;
          c = count_list xs ConnectFail
      in (5 \<le> r \<and> d < r) \<or> (5 \<le> c \<and> t < c))"

lemma count_list_pair_le: "a \<noteq> b \<Longrightarrow> count_list xs a + count_list xs b \<le> length xs"
  by (induction xs) auto

lemma degraded_now_tally:
  assumes "cur w = tally cs" and "prev w = tally ps" and "length (ps @ cs) < 2 ^ 32"
  shows "degraded_now w = degraded_spec (ps @ cs)"
proof -
  let ?xs = "map snd (ps @ cs)"
  have le: "count_list ?xs a < 2 ^ 32" for a
    using count_le_length [of ?xs a] assms(3) by (simp del: count_le_length)
  have le2: "count_list ?xs (Success True) + count_list ?xs (Success False) < 2 ^ 32"
    using count_list_pair_le [of "Success True" "Success False" ?xs] assms(3) by simp
  have sums: "domain_ok (cur w) + domain_ok (prev w) = of_nat (count_list ?xs (Success True))"
    "total_ok (cur w) + total_ok (prev w) =
       of_nat (count_list ?xs (Success True) + count_list ?xs (Success False))"
    "resolve_fail (cur w) + resolve_fail (prev w) = of_nat (count_list ?xs ResolveFail)"
    "connect_fail (cur w) + connect_fail (prev w) = of_nat (count_list ?xs ConnectFail)"
    by (simp_all add: assms(1,2) tally_def)
  have l5: "(5 :: nat) < 2 ^ 32" by simp
  have five: "RELAY_FAIL_MIN = of_nat 5" by (simp add: RELAY_FAIL_MIN_def)
  show ?thesis
    unfolding degraded_now_def degraded_spec_def Let_def sums five
    by (simp only: of_nat_u32_le_iff [OF l5 le] of_nat_u32_less_iff [OF le le]
        of_nat_u32_less_iff [OF le2 le])
qed

lemma health_reset_new: "health_reset now w = health_new now"
  by (simp add: health_reset_def health_new_def)

lemma degraded_refines:
  assumes "sorted (t0 # map fst log @ [now])" and "length log < 2 ^ 32"
  shows "\<exists>old recent. log = old @ recent
    \<and> (\<forall>(t, x) \<in> set old. t + from_secs 30 \<le> now)
    \<and> (\<forall>(t, x) \<in> set recent. now < t + from_secs 90)
    \<and> fst (degraded now (record_all log (health_new t0))) = degraded_spec recent"
proof -
  obtain old ps cs where "old @ ps @ cs = log"
    and "window_of now old ps cs (record_all log (health_new t0))"
    using window_of_record_all [OF window_of_new assms(1)] by auto
  moreover from window_of_rotate [OF this(2)] obtain old' ps' cs' where
    "old' @ ps' @ cs' = old @ ps @ cs"
    and win: "window_of now old' ps' cs' (rotate now (record_all log (health_new t0)))" by blast
  ultimately have log: "log = old' @ ps' @ cs'" by simp
  let ?w = "rotate now (record_all log (health_new t0))"
  have "\<forall>(t, x) \<in> set (ps' @ cs'). now < t + from_secs 90"
    using win rotate_fresh [of now "record_all log (health_new t0)"]
    by (fastforce simp: window_of_def RELAY_WINDOW_def)
  moreover have "\<forall>(t, x) \<in> set old'. t + from_secs 30 \<le> now"
    using win by (auto simp: window_of_def RELAY_WINDOW_def)
  moreover have "degraded_now ?w = degraded_spec (ps' @ cs')"
    using win assms(2) log by (intro degraded_now_tally) (auto simp: window_of_def)
  ultimately show ?thesis
    using log by (intro exI [of _ old'] exI [of _ "ps' @ cs'"]) (simp add: degraded_def Let_def)
qed

text \<open>
  From a fresh or freshly reset window, after any log of outcomes recorded in time order, the
  verdict is that of the counting specification on a suffix of the log which contains every
  outcome younger than 30 seconds and none that is 90 seconds old.
\<close>

theorem degraded_verdict:
  assumes "sorted (t0 # map fst log @ [now])" and "length log < 2 ^ 32"
    and "w = health_new t0 \<or> w = health_reset t0 w0"
  shows "\<exists>old recent. log = old @ recent
    \<and> (\<forall>(t, x) \<in> set old. t + from_secs 30 \<le> now)
    \<and> (\<forall>(t, x) \<in> set recent. now < t + from_secs 90)
    \<and> fst (degraded now (record_all log w)) = degraded_spec recent"
proof -
  have "w = health_new t0" using assms(3) health_reset_new by auto
  then show ?thesis using degraded_refines [OF assms(1,2)] by simp
qed

theorem degraded_verdict_witness:
  "\<exists>old recent. [(from_secs 1, ResolveFail)] = old @ recent
    \<and> (\<forall>(t, x) \<in> set old. t + from_secs 30 \<le> from_secs 100)
    \<and> (\<forall>(t, x) \<in> set recent. from_secs 100 < t + from_secs 90)
    \<and> fst (degraded (from_secs 100) (record_all [(from_secs 1, ResolveFail)] (health_new 0)))
        = degraded_spec recent"
  by (rule degraded_verdict [where ?t0.0 = 0 and ?w0.0 = "health_new 0"]) simp_all

text \<open>
  The window is longer than the 30 to 60 seconds its comment promises: five resolve failures
  at second 0, one rotation at second 59, and the server is still judged degraded at second 88
  by the failures of second 0, although the 29 seconds before saw none.
\<close>

theorem degraded_counts_stale_failures:
  "fst (degraded (from_secs 88)
     (record_all [(0, ResolveFail), (0, ResolveFail), (0, ResolveFail), (0, ResolveFail),
        (0, ResolveFail), (from_secs 59, Success False)] (health_new 0)))"
  by (simp add: degraded_def degraded_now_def record_success_def record_resolve_fail_def rotate_def
      health_new_def bucket_default_def RELAY_WINDOW_def RELAY_FAIL_MIN_def Let_def)

end
