(* ===== verification/Mux.thy ===== *)
theory Mux
  imports Mux_Wire Mux_Handshake Relay_Health "HOL-Library.AList"
begin

text \<open>
  The multiplexer of \<^verbatim>\<open>xr-proto/src/mux.rs\<close>: its registry of streams, \<^verbatim>\<open>dispatch_frame\<close>, the
  stream handles, opening a stream with its registration guard, and the end of the reader. What an
  \<^verbatim>\<open>Arc\<close> shares between a \<^verbatim>\<open>StreamEntry\<close> and the stream's handles (the channel, the send window,
  the close reason) is a cell of an explicit store, so that dropping an entry is seen by the handle.

  The invariant ties the registry to the store; from it follow that frames of one stream touch no
  other, that a removed stream never leaves its sender asleep, and that the writer never meets a
  frame the codec refuses.
\<close>

definition NEW_STREAM_CHANNEL_SIZE :: nat where "NEW_STREAM_CHANNEL_SIZE = 1024"
definition KEEPALIVE_INTERVAL :: duration where "KEEPALIVE_INTERVAL = from_secs 30"
definition MUX_MAX_LIFETIME :: duration where "MUX_MAX_LIFETIME = from_secs (4 * 3600)"
definition DEAD_LINK_TIMEOUT :: duration where "DEAD_LINK_TIMEOUT = from_secs 75"

section \<open>State\<close>

record stream_cell =
  rx :: "bytes chan"
  tx_open :: bool
  win :: send_window
  close_reason :: u8

record stream_entry =
  e_cell :: nat
  got_data :: bool
  domain :: bool

datatype new_stream = NewStream (ns_id: u32) (ns_payload: bytes)

record mux =
  writer_ch :: "out_frame chan"
  ctrl_ch :: "out_frame chan"
  streams :: "(u32 \<times> stream_entry) list"
  next_stream_id :: u32
  alive :: bool
  new_streams :: "new_stream chan"
  new_stream_rx :: bool
  shutdown_permit :: bool
  caps :: mux_caps
  health :: "relay_window option"
  cells :: "stream_cell list"
  cleanups :: "u32 list"

definition mux_new :: "u32 \<Rightarrow> relay_window option \<Rightarrow> mux_caps \<Rightarrow> mux" where
  "mux_new first_stream_id h cps =
     \<lparr>writer_ch = channel WRITER_CHANNEL_SIZE, ctrl_ch = channel CTRL_CHANNEL_SIZE, streams = [],
      next_stream_id = first_stream_id, alive = True, new_streams = channel NEW_STREAM_CHANNEL_SIZE,
      new_stream_rx = True, shutdown_permit = False, caps = cps, health = h, cells = [], cleanups = []\<rparr>"

definition new_client :: "mux_caps \<Rightarrow> mux" where
  "new_client cps = mux_new 1 None cps"

definition new_client_tracked :: "relay_window \<Rightarrow> mux_caps \<Rightarrow> mux" where
  "new_client_tracked h cps = mux_new 1 (Some h) cps"

definition new_server :: "mux_caps \<Rightarrow> mux" where
  "new_server cps = mux_new 2 None cps"

section \<open>The registry\<close>

definition update_cell :: "(stream_cell \<Rightarrow> stream_cell) \<Rightarrow> nat \<Rightarrow> mux \<Rightarrow> mux" where
  "update_cell h i m = m\<lparr>cells := (cells m)[i := h (cells m ! i)]\<rparr>"

text \<open>Dropping an entry drops its sender and closes the window (\<^verbatim>\<open>impl Drop for StreamEntry\<close>).\<close>

definition drop_entry :: "stream_entry \<Rightarrow> mux \<Rightarrow> mux" where
  "drop_entry e m = update_cell (\<lambda>c. c\<lparr>tx_open := False, win := win_close (win c)\<rparr>) (e_cell e) m"

definition remove_stream :: "u32 \<Rightarrow> mux \<Rightarrow> mux" where
  "remove_stream sid m = (case map_of (streams m) sid of
      None \<Rightarrow> m
    | Some e \<Rightarrow> drop_entry e (m\<lparr>streams := AList.delete sid (streams m)\<rparr>))"

definition insert_stream :: "u32 \<Rightarrow> stream_entry \<Rightarrow> mux \<Rightarrow> mux" where
  "insert_stream sid e m =
     (let m1 = remove_stream sid m in m1\<lparr>streams := (sid, e) # streams m1\<rparr>)"

definition new_send_window :: "mux \<Rightarrow> send_window" where
  "new_send_window m = send_window_new (if window (caps m) then int STREAM_RECV_WINDOW else I64_MAX)"

definition new_recv_credit :: "u32 \<Rightarrow> mux \<Rightarrow> recv_credit option" where
  "new_recv_credit sid m =
     (if window (caps m) then Some \<lparr>rc_stream_id = sid, rc_pending = 0\<rparr> else None)"

text \<open>A fresh channel, window and close reason for a stream about to be registered.\<close>

definition register_cell :: "u32 \<Rightarrow> bool \<Rightarrow> mux \<Rightarrow> nat \<times> mux" where
  "register_cell sid is_domain m =
     (let i = length (cells m);
          c = \<lparr>rx = channel STREAM_CHANNEL_SIZE, tx_open = True, win = new_send_window m, close_reason = 0\<rparr>;
          m1 = insert_stream sid \<lparr>e_cell = i, got_data = False, domain = is_domain\<rparr> m
      in (i, m1\<lparr>cells := cells m1 @ [c]\<rparr>))"

section \<open>Stream handles\<close>

record mux_stream =
  ms_id :: u32
  ms_cell :: nat
  ms_rx :: bool
  ms_closed :: bool
  ms_detached :: bool
  ms_credit :: "recv_credit option"

definition register_stream :: "u32 \<Rightarrow> mux \<Rightarrow> mux_stream \<times> mux" where
  "register_stream sid m =
     (case register_cell sid False m of (i, m1) \<Rightarrow>
       (\<lparr>ms_id = sid, ms_cell = i, ms_rx = True, ms_closed = False, ms_detached = False,
         ms_credit = new_recv_credit sid m\<rparr>, m1))"

text \<open>One poll of \<^verbatim>\<open>recv\<close>: a payload and the credit for it, the end of the stream, or wait.\<close>

definition stream_recv :: "mux_stream \<Rightarrow> mux \<Rightarrow> bytes option poll \<times> mux_stream \<times> mux" where
  "stream_recv ms m =
     (if \<not> ms_rx ms then (Ready None, ms, m)
      else case queue (rx (cells m ! ms_cell ms)) of
        [] \<Rightarrow> (if tx_open (cells m ! ms_cell ms) then Pending else Ready None, ms, m)
      | d # _ \<Rightarrow>
          let m1 = update_cell (\<lambda>c. c\<lparr>rx := pop (rx c)\<rparr>) (ms_cell ms) m in
          (case ms_credit ms of
             None \<Rightarrow> (Ready (Some d), ms, m1)
           | Some rc \<Rightarrow>
               (case consumed (length d) rc (ctrl_ch m1) (writer_ch m1) of (rc', ctrl', bulk') \<Rightarrow>
                  (Ready (Some d), ms\<lparr>ms_credit := Some rc'\<rparr>,
                   m1\<lparr>ctrl_ch := ctrl', writer_ch := bulk'\<rparr>))))"

definition stream_send :: "mux_stream \<Rightarrow> bytes \<Rightarrow> mux \<Rightarrow> send_status \<times> mux" where
  "stream_send ms data m =
     (case send_data (alive m) (ms_id ms) data (win (cells m ! ms_cell ms)) (writer_ch m) of
        (w, ch, st) \<Rightarrow> (st, update_cell (\<lambda>c. c\<lparr>win := w\<rparr>) (ms_cell ms) (m\<lparr>writer_ch := ch\<rparr>)))"

definition stream_send_resume :: "mux_stream \<Rightarrow> send_status \<Rightarrow> mux \<Rightarrow> send_status \<times> mux" where
  "stream_send_resume ms st m =
     (case send_resume (ms_id ms) st (win (cells m ! ms_cell ms)) (writer_ch m) of
        (w, ch, st') \<Rightarrow> (st', update_cell (\<lambda>c. c\<lparr>win := w\<rparr>) (ms_cell ms) (m\<lparr>writer_ch := ch\<rparr>)))"

text \<open>One poll of \<^verbatim>\<open>close\<close>/\<^verbatim>\<open>close_with\<close>: the flag is set before the frame is queued; the Close travels on
  the bulk plane, and waits while that plane is full.\<close>

definition stream_close_with :: "bytes \<Rightarrow> mux_stream \<Rightarrow> mux \<Rightarrow> unit poll \<times> mux_stream \<times> mux" where
  "stream_close_with reason ms m =
     (if ms_closed ms then (Ready (), ms, m)
      else case chan_send (OutFrame (ms_id ms) Close reason) (writer_ch m) of
        Pending \<Rightarrow> (Pending, ms\<lparr>ms_closed := True\<rparr>, m)
      | Ready (Inl _) \<Rightarrow> (Ready (), ms\<lparr>ms_closed := True\<rparr>, m)
      | Ready (Inr ch) \<Rightarrow> (Ready (), ms\<lparr>ms_closed := True\<rparr>, m\<lparr>writer_ch := ch\<rparr>))"

text \<open>A later poll of a waiting close.\<close>

definition stream_close_resume :: "bytes \<Rightarrow> mux_stream \<Rightarrow> mux \<Rightarrow> unit poll \<times> mux" where
  "stream_close_resume reason ms m =
     (case chan_send (OutFrame (ms_id ms) Close reason) (writer_ch m) of
        Pending \<Rightarrow> (Pending, m)
      | Ready (Inl _) \<Rightarrow> (Ready (), m)
      | Ready (Inr ch) \<Rightarrow> (Ready (), m\<lparr>writer_ch := ch\<rparr>))"

definition close_on_drop :: "u32 \<Rightarrow> mux \<Rightarrow> mux" where
  "close_on_drop sid m = m\<lparr>writer_ch := offer (OutFrame sid Close []) (writer_ch m)\<rparr>"

text \<open>Dropping a handle drops its receiver, and sends Close unless that is somebody else's duty.\<close>

definition drop_receiver :: "nat \<Rightarrow> mux \<Rightarrow> mux" where
  "drop_receiver i m = update_cell (\<lambda>c. c\<lparr>rx := (rx c)\<lparr>rx_open := False\<rparr>\<rparr>) i m"

definition stream_drop :: "mux_stream \<Rightarrow> mux \<Rightarrow> mux" where
  "stream_drop ms m =
     (let m1 = (if \<not> ms_detached ms \<and> \<not> ms_closed ms \<and> alive m then close_on_drop (ms_id ms) m else m)
      in if ms_rx ms then drop_receiver (ms_cell ms) m1 else m1)"

definition stream_close_reason :: "mux_stream \<Rightarrow> mux \<Rightarrow> u8 option" where
  "stream_close_reason ms m =
     (let code = close_reason (cells m ! ms_cell ms) in if code = 0 then None else Some code)"

text \<open>\<^verbatim>\<open>split\<close>: the receiver and its credit go to the read half, the Close contract to the write half; the
  husk is dropped without a Close. \<open>None\<close> is the panic on a stream already split.\<close>

definition stream_split :: "mux_stream \<Rightarrow> (mux_stream \<times> mux_stream) option" where
  "stream_split ms =
     (if \<not> ms_rx ms then None
      else Some (ms\<lparr>ms_detached := True\<rparr>,
                 ms\<lparr>ms_rx := False, ms_credit := None, ms_detached := False\<rparr>))"

definition send_frame :: "u32 \<Rightarrow> command \<Rightarrow> bytes \<Rightarrow> mux \<Rightarrow> unit io_result poll \<times> mux" where
  "send_frame sid cmd data m =
     (case chan_send (OutFrame sid cmd data) (ctrl_ch m) of
        Pending \<Rightarrow> (Pending, m)
      | Ready (Inl _) \<Rightarrow> (Ready (Inl writer_closed), m)
      | Ready (Inr ch) \<Rightarrow> (Ready (Inr ()), m\<lparr>ctrl_ch := ch\<rparr>))"

definition send_stream_close :: "u32 \<Rightarrow> bytes \<Rightarrow> mux \<Rightarrow> unit io_result poll \<times> mux" where
  "send_stream_close sid reason m =
     (case chan_send (OutFrame sid Close reason) (writer_ch m) of
        Pending \<Rightarrow> (Pending, m)
      | Ready (Inl _) \<Rightarrow> (Ready (Inl writer_closed), m)
      | Ready (Inr ch) \<Rightarrow> (Ready (Inr ()), m\<lparr>writer_ch := ch\<rparr>))"

definition take_new_stream_rx :: "mux \<Rightarrow> bool \<times> mux" where
  "take_new_stream_rx m = (new_stream_rx m, m\<lparr>new_stream_rx := False\<rparr>)"

definition mux_shutdown :: "mux \<Rightarrow> mux" where
  "mux_shutdown m = m\<lparr>alive := False, shutdown_permit := True\<rparr>"

section \<open>Dispatching a frame\<close>

definition note_health :: "(relay_window \<Rightarrow> relay_window) \<Rightarrow> mux \<Rightarrow> mux" where
  "note_health g m = m\<lparr>health := map_option g (health m)\<rparr>"

definition dispatch_window_update :: "bytes \<Rightarrow> mux \<Rightarrow> mux" where
  "dispatch_window_update pl m =
     (case decode_mux_payload pl of
        Inr (sid, a # b # c # d # _) \<Rightarrow>
          (case map_of (streams m) sid of
             None \<Rightarrow> m
           | Some e \<Rightarrow> update_cell (\<lambda>cl. cl\<lparr>win := win_add (u32_from_be a b c d) (win cl)\<rparr>) (e_cell e) m)
      | _ \<Rightarrow> m)"

definition count_first_data :: "instant \<Rightarrow> command \<Rightarrow> u32 \<Rightarrow> stream_entry \<Rightarrow> mux \<Rightarrow> mux" where
  "count_first_data now cmd sid e m =
     (if cmd = Data \<and> \<not> got_data e
      then note_health (record_success now (domain e))
             (m\<lparr>streams := AList.update sid (e\<lparr>got_data := True\<rparr>) (streams m)\<rparr>)
      else m)"

definition dispatch_data :: "instant \<Rightarrow> command \<Rightarrow> bytes \<Rightarrow> mux \<Rightarrow> mux" where
  "dispatch_data now cmd pl m =
     (case decode_mux_payload pl of
        Inl _ \<Rightarrow> m
      | Inr (sid, data) \<Rightarrow>
          (case map_of (streams m) sid of
             None \<Rightarrow> m
           | Some e \<Rightarrow>
               let m1 = count_first_data now cmd sid e m in
               (case try_send data (rx (cells m1 ! e_cell e)) of
                  Inr ch \<Rightarrow> update_cell (\<lambda>c. c\<lparr>rx := ch\<rparr>) (e_cell e) m1
                | Inl _ \<Rightarrow> remove_stream sid m1)))"

definition count_close :: "instant \<Rightarrow> u8 \<Rightarrow> mux \<Rightarrow> mux" where
  "count_close now code m =
     (if code = CLOSE_REASON_RESOLVE_FAIL then note_health (record_resolve_fail now) m
      else if code = CLOSE_REASON_CONNECT_FAIL then note_health (record_connect_fail now) m
      else m)"

text \<open>The reason is published before the entry, and with it the channel's sender, is dropped.\<close>

definition dispatch_close :: "instant \<Rightarrow> bytes \<Rightarrow> mux \<Rightarrow> mux" where
  "dispatch_close now pl m =
     (case decode_mux_payload pl of
        Inl _ \<Rightarrow> m
      | Inr (sid, reason) \<Rightarrow>
          (case map_of (streams m) sid of
             None \<Rightarrow> m
           | Some e \<Rightarrow>
               (case reason of
                  [] \<Rightarrow> remove_stream sid m
                | code # _ \<Rightarrow>
                    remove_stream sid
                      (count_close now code (update_cell (\<lambda>c. c\<lparr>close_reason := code\<rparr>) (e_cell e) m)))))"

definition dispatch_connect :: "bytes \<Rightarrow> mux \<Rightarrow> mux" where
  "dispatch_connect pl m =
     (case decode_mux_payload pl of
        Inl _ \<Rightarrow> m
      | Inr (sid, data) \<Rightarrow>
          (case map_of (streams m) sid of
             Some e \<Rightarrow> update_cell (\<lambda>c. c\<lparr>rx := offer data (rx c)\<rparr>) (e_cell e) m
           | None \<Rightarrow> m\<lparr>new_streams := offer (NewStream sid data) (new_streams m)\<rparr>))"

fun dispatch_frame :: "instant \<Rightarrow> frame \<Rightarrow> mux \<Rightarrow> mux" where
  "dispatch_frame now (Frame Ping pl) m = m\<lparr>ctrl_ch := offer (OutFrame 0 Pong pl) (ctrl_ch m)\<rparr>"
| "dispatch_frame now (Frame Pong pl) m = m"
| "dispatch_frame now (Frame WindowUpdate pl) m = dispatch_window_update pl m"
| "dispatch_frame now (Frame Data pl) m = dispatch_data now Data pl m"
| "dispatch_frame now (Frame ConnectAck pl) m = dispatch_data now ConnectAck pl m"
| "dispatch_frame now (Frame Close pl) m = dispatch_close now pl m"
| "dispatch_frame now (Frame Connect pl) m = dispatch_connect pl m"
| "dispatch_frame now (Frame MuxInit pl) m = m"
| "dispatch_frame now (Frame MuxInitAck pl) m = m"

section \<open>The reader and the writer task\<close>

text \<open>When the reader ends, the mux is dead and the registry is cleared.\<close>

definition reader_end :: "mux \<Rightarrow> mux" where
  "reader_end m = (fold drop_entry (map snd (streams m)) m)\<lparr>alive := False, streams := []\<rparr>"

definition writer_end :: "mux \<Rightarrow> mux" where
  "writer_end m = m\<lparr>alive := False, ctrl_ch := (ctrl_ch m)\<lparr>rx_open := False\<rparr>,
     writer_ch := (writer_ch m)\<lparr>rx_open := False\<rparr>\<rparr>"

record reader =
  rd_buf :: bytes
  rd_started :: instant
  rd_last_recv :: instant

datatype reader_event = RdData bytes | RdError io_error | RdTick u64

text \<open>
  One round of the reader's loop at time \<open>now\<close>: the lifetime check, then what the select yields.
  \<open>Inl\<close> is the end of the task with its result.
\<close>

definition reader_round :: "codec \<Rightarrow> instant \<Rightarrow> reader_event \<Rightarrow> reader \<Rightarrow> mux \<Rightarrow>
    (unit io_result + reader) \<times> mux" where
  "reader_round c now ev rd m =
     (if MUX_MAX_LIFETIME \<le> elapsed (rd_started rd) now
      then (Inl (Inl (IoError TimedOut ''mux max lifetime reached'')), m)
      else case ev of
        RdError e \<Rightarrow> (Inl (Inl e), m)
      | RdData chunk \<Rightarrow>
          if chunk = [] then (Inl (Inr ()), m)
          else (case drain c (dispatch_frame now) (rd_buf rd @ chunk) m of
                  (m1, buf, Some e) \<Rightarrow> (Inl (Inl e), m1)
                | (m1, buf, None) \<Rightarrow> (Inr (rd\<lparr>rd_buf := buf, rd_last_recv := now\<rparr>), m1))
      | RdTick ts \<Rightarrow>
          if DEAD_LINK_TIMEOUT \<le> elapsed (rd_last_recv rd) now
          then (Inl (Inl (IoError TimedOut ''mux dead link: no data within timeout'')), m)
          else (case try_send (OutFrame 0 Ping (u64_to_be ts)) (ctrl_ch m) of
                  Inr ch \<Rightarrow> (Inr rd, m\<lparr>ctrl_ch := ch\<rparr>)
                | Inl Full \<Rightarrow> (Inr rd, m)
                | Inl Closed \<Rightarrow> (Inl (Inl (IoError BrokenPipe ''writer closed'')), m)))"

section \<open>Opening a stream\<close>

datatype open_state = OpenConnect u32 nat bytes | OpenWait u32 nat

datatype open_result = Opening open_state | Opened mux_stream | OpenFailed io_error

text \<open>\<open>lock_ok\<close>: whether the registry's lock was taken within the step timeout.\<close>

definition open_begin :: "bool \<Rightarrow> target_addr \<Rightarrow> mux \<Rightarrow> open_result \<times> mux" where
  "open_begin lock_ok target m =
     (if \<not> alive m then (OpenFailed (IoError BrokenPipe ''mux connection dead''), m)
      else case target_addr_encode target of
        Inl e \<Rightarrow> (OpenFailed e, m)
      | Inr connect_payload \<Rightarrow>
          let sid = next_stream_id m; m1 = m\<lparr>next_stream_id := sid + 2\<rparr> in
          if \<not> lock_ok then (OpenFailed (IoError WouldBlock ''mux streams lock wedged''), m1)
          else (case register_cell sid (case target of TaDomain _ _ \<Rightarrow> True | TaIp _ \<Rightarrow> False) m1 of
                  (i, m2) \<Rightarrow> (Opening (OpenConnect sid i connect_payload), m2)))"

text \<open>
  Leaving without a stream drops the receiver, and the armed guard spawns a task that removes the
  registration; the task is an entry of \<open>cleanups\<close> until it runs.
\<close>

definition open_guard :: "u32 \<Rightarrow> nat \<Rightarrow> mux \<Rightarrow> mux" where
  "open_guard sid i m = (drop_receiver i m)\<lparr>cleanups := cleanups m @ [sid]\<rparr>"

text \<open>One poll of a running open; \<open>timeout\<close>: whether the timer of the current step has fired.\<close>

fun open_poll :: "bool \<Rightarrow> open_state \<Rightarrow> mux \<Rightarrow> open_result \<times> mux" where
  "open_poll timeout (OpenConnect sid i pl) m =
     (case send_frame sid Connect pl m of
        (Ready (Inr _), m1) \<Rightarrow> (Opening (OpenWait sid i), m1)
      | (Ready (Inl e), m1) \<Rightarrow> (OpenFailed e, open_guard sid i m1)
      | (Pending, m1) \<Rightarrow>
          if timeout then (OpenFailed (IoError WouldBlock ''mux send_frame(Connect) wedged''), open_guard sid i m1)
          else (Opening (OpenConnect sid i pl), m1))"
| "open_poll timeout (OpenWait sid i) m =
     (case queue (rx (cells m ! i)) of
        _ # _ \<Rightarrow>
          (Opened \<lparr>ms_id = sid, ms_cell = i, ms_rx = True, ms_closed = False, ms_detached = False,
                   ms_credit = new_recv_credit sid m\<rparr>,
           update_cell (\<lambda>c. c\<lparr>rx := pop (rx c)\<rparr>) i m)
      | [] \<Rightarrow>
          if \<not> tx_open (cells m ! i)
          then (OpenFailed (IoError BrokenPipe ''mux connection died during open''), open_guard sid i m)
          else if timeout then (OpenFailed (IoError TimedOut ''mux connect ack timeout''), open_guard sid i m)
          else (Opening (OpenWait sid i), m))"

text \<open>The future is dropped while it waits.\<close>

fun open_cancel :: "open_state \<Rightarrow> mux \<Rightarrow> mux" where
  "open_cancel (OpenConnect sid i pl) m = open_guard sid i m"
| "open_cancel (OpenWait sid i) m = open_guard sid i m"

definition run_cleanup :: "mux \<Rightarrow> mux" where
  "run_cleanup m = (case cleanups m of
      [] \<Rightarrow> m
    | sid # rest \<Rightarrow> remove_stream sid (m\<lparr>cleanups := rest\<rparr>))"

section \<open>The registry and the store agree\<close>

abbreviation refs :: "mux \<Rightarrow> nat list" where
  "refs m \<equiv> map (e_cell \<circ> snd) (streams m)"

definition cell_ok :: "stream_cell \<Rightarrow> bool" where
  "cell_ok c \<longleftrightarrow> (win_closed (win c) \<longleftrightarrow> \<not> tx_open c) \<and> window_ok (win c) \<and> chan_ok (rx c)"

definition registry_ok :: "mux \<Rightarrow> bool" where
  "registry_ok m \<longleftrightarrow> distinct (map fst (streams m)) \<and> distinct (refs m) \<and>
     (\<forall>c \<in> set (cells m). cell_ok c) \<and>
     set (refs m) = {i. i < length (cells m) \<and> tx_open (cells m ! i)}"

definition plane_ok :: "out_frame chan \<Rightarrow> bool" where
  "plane_ok ch \<longleftrightarrow> chan_ok ch \<and> (\<forall>f \<in> set (queue ch). encodable f)"

definition mux_inv :: "mux \<Rightarrow> bool" where
  "mux_inv m \<longleftrightarrow> registry_ok m \<and> plane_ok (ctrl_ch m) \<and> plane_ok (writer_ch m) \<and> chan_ok (new_streams m)"

lemma registry_ok_cong:
  "streams m' = streams m \<Longrightarrow> cells m' = cells m \<Longrightarrow> registry_ok m' = registry_ok m"
  by (simp add: registry_ok_def)

lemma registry_ok_frame [simp]:
  "registry_ok (m\<lparr>ctrl_ch := x\<rparr>) = registry_ok m" "registry_ok (m\<lparr>writer_ch := x\<rparr>) = registry_ok m"
  "registry_ok (m\<lparr>new_streams := y\<rparr>) = registry_ok m" "registry_ok (m\<lparr>health := h\<rparr>) = registry_ok m"
  "registry_ok (m\<lparr>alive := b\<rparr>) = registry_ok m" "registry_ok (m\<lparr>next_stream_id := n\<rparr>) = registry_ok m"
  by (simp_all add: registry_ok_def)

lemma update_cell_sel [simp]:
  "streams (update_cell h i m) = streams m" "ctrl_ch (update_cell h i m) = ctrl_ch m"
  "writer_ch (update_cell h i m) = writer_ch m" "new_streams (update_cell h i m) = new_streams m"
  "length (cells (update_cell h i m)) = length (cells m)" "health (update_cell h i m) = health m"
  "alive (update_cell h i m) = alive m" "caps (update_cell h i m) = caps m"
  "cleanups (update_cell h i m) = cleanups m"
  by (simp_all add: update_cell_def)

lemma cells_update_cell:
  "j < length (cells m) \<Longrightarrow>
   cells (update_cell h i m) ! j = (if j = i then h (cells m ! i) else cells m ! j)"
  by (simp add: update_cell_def)

lemma registry_ok_update_cell:
  assumes "registry_ok m" and "\<And>c. tx_open (h c) = tx_open c"
    and "i < length (cells m) \<Longrightarrow> cell_ok (cells m ! i) \<Longrightarrow> cell_ok (h (cells m ! i))"
  shows "registry_ok (update_cell h i m)"
proof -
  have "\<forall>c \<in> set (cells (update_cell h i m)). cell_ok c"
    using assms(1,3) by (auto simp: registry_ok_def all_set_conv_all_nth cells_update_cell)
  moreover have "{j. j < length (cells m) \<and> tx_open (cells (update_cell h i m) ! j)} =
      {j. j < length (cells m) \<and> tx_open (cells m ! j)}"
    by (rule Collect_cong) (simp cong: conj_cong add: cells_update_cell assms(2))
  ultimately show ?thesis using assms(1) by (simp add: registry_ok_def)
qed

lemma refs_delete:
  assumes "map_of xs k = Some e" and "distinct (map fst xs)" and "distinct (map (e_cell \<circ> snd) xs)"
  shows "set (map (e_cell \<circ> snd) (AList.delete k xs)) = set (map (e_cell \<circ> snd) xs) - {e_cell e}"
  using assms
proof (induction xs)
  case (Cons x xs)
  show ?case
  proof (cases "fst x = k")
    case True
    then have "AList.delete k xs = xs" using Cons.prems by (simp add: delete_id)
    then show ?thesis using Cons.prems True by auto
  next
    case False
    then have "map_of xs k = Some e" using Cons.prems by auto
    moreover then have "e_cell e \<in> (e_cell \<circ> snd) ` set xs" by (force dest: map_of_SomeD)
    then have "e_cell (snd x) \<noteq> e_cell e" using Cons.prems(3) by (auto simp only: list.map distinct.simps set_map o_apply)
    ultimately show ?thesis using Cons False by auto
  qed
qed simp

lemma remove_stream_sel [simp]:
  "ctrl_ch (remove_stream sid m) = ctrl_ch m" "writer_ch (remove_stream sid m) = writer_ch m"
  "new_streams (remove_stream sid m) = new_streams m" "length (cells (remove_stream sid m)) = length (cells m)"
  "health (remove_stream sid m) = health m" "caps (remove_stream sid m) = caps m"
  "alive (remove_stream sid m) = alive m" "cleanups (remove_stream sid m) = cleanups m"
  by (simp_all add: remove_stream_def drop_entry_def split: option.splits)

lemma streams_remove_stream: "streams (remove_stream sid m) = AList.delete sid (streams m)"
  by (auto simp: remove_stream_def drop_entry_def delete_id map_of_eq_None_iff split: option.splits)

lemma cells_remove_stream:
  assumes "j < length (cells m)"
  shows "cells (remove_stream sid m) ! j =
    (case map_of (streams m) sid of
       Some e \<Rightarrow> if j = e_cell e then (cells m ! j)\<lparr>tx_open := False, win := win_close (win (cells m ! j))\<rparr>
                 else cells m ! j
     | None \<Rightarrow> cells m ! j)"
  using assms by (auto simp: remove_stream_def drop_entry_def update_cell_def split: option.splits)

lemma registry_ok_remove_stream:
  assumes ok: "registry_ok m"
  shows "registry_ok (remove_stream sid m)"
proof (cases "map_of (streams m) sid")
  case None
  then show ?thesis using ok by (simp add: remove_stream_def)
next
  case (Some e)
  have d: "distinct (map fst (streams m))" "distinct (refs m)"
    and s: "set (refs m) = {i. i < length (cells m) \<and> tx_open (cells m ! i)}"
    using ok by (auto simp: registry_ok_def)
  have "distinct (map (e_cell \<circ> snd) (AList.delete sid (streams m)))"
    using d(2) by (simp add: AList.delete_eq distinct_map_filter)
  moreover have "set (map (e_cell \<circ> snd) (AList.delete sid (streams m))) =
      {i. i < length (cells m) \<and> tx_open (cells (remove_stream sid m) ! i)}"
    unfolding refs_delete [OF Some d] s by (auto simp: cells_remove_stream Some split: if_splits)
  moreover have "\<forall>c \<in> set (cells (remove_stream sid m)). cell_ok c"
    using ok by (auto simp: registry_ok_def all_set_conv_all_nth cells_remove_stream Some cell_ok_def
        win_close_def window_ok_def)
  ultimately show ?thesis
    using d(1) by (simp add: registry_ok_def streams_remove_stream distinct_delete)
qed

lemma window_ok_new_send_window: "window_ok (new_send_window m) \<and> \<not> win_closed (new_send_window m)"
  by (simp add: new_send_window_def window_ok_def send_window_new_def flow_consts)

lemma register_cell_sel:
  assumes "register_cell sid d m = (i, m')"
  shows "i = length (cells m)" "streams m' = (sid, \<lparr>e_cell = i, got_data = False, domain = d\<rparr>) # AList.delete sid (streams m)"
    "cells m' = cells (remove_stream sid m) @
       [\<lparr>rx = channel STREAM_CHANNEL_SIZE, tx_open = True, win = new_send_window m, close_reason = 0\<rparr>]"
    "ctrl_ch m' = ctrl_ch m" "writer_ch m' = writer_ch m" "new_streams m' = new_streams m"
    "alive m' = alive m" "caps m' = caps m" "cleanups m' = cleanups m" "health m' = health m"
  using assms by (auto simp: register_cell_def insert_stream_def Let_def streams_remove_stream)

lemma registry_ok_register_cell:
  assumes ok: "registry_ok m" and reg: "register_cell sid d m = (i, m')"
  shows "registry_ok m'"
proof -
  note sel = register_cell_sel [OF reg]
  have rem: "registry_ok (remove_stream sid m)" using ok by (rule registry_ok_remove_stream)
  then have less: "set (map (e_cell \<circ> snd) (AList.delete sid (streams m))) =
      {j. j < length (cells m) \<and> tx_open (cells (remove_stream sid m) ! j)}"
    by (simp add: registry_ok_def streams_remove_stream)
  have "set (refs m') = {j. j < length (cells m') \<and> tx_open (cells m' ! j)}"
    using less by (auto simp: sel nth_append less_Suc_eq)
  moreover have "i \<notin> set (map (e_cell \<circ> snd) (AList.delete sid (streams m)))"
    unfolding less sel(1) by simp
  moreover have "\<forall>c \<in> set (cells m'). cell_ok c"
    using rem window_ok_new_send_window [of m] by (auto simp: sel registry_ok_def cell_ok_def)
  ultimately show ?thesis
    using rem delete_notin_dom [of sid "streams m"] by (simp add: registry_ok_def sel streams_remove_stream)
qed

lemma refs_update:
  "map_of xs k = Some e \<Longrightarrow> e_cell e' = e_cell e \<Longrightarrow>
   map (e_cell \<circ> snd) (AList.update k e' xs) = map (e_cell \<circ> snd) xs"
  by (induction xs) (auto split: if_splits)

lemma registry_ok_update:
  assumes "registry_ok m" and "map_of (streams m) sid = Some e" and "e_cell e' = e_cell e"
    and "streams m' = AList.update sid e' (streams m)" and "cells m' = cells m"
  shows "registry_ok m'"
  using assms refs_update [OF assms(2,3)] by (simp add: registry_ok_def distinct_update)

lemma drop_entry_sel [simp]:
  "streams (drop_entry e m) = streams m" "ctrl_ch (drop_entry e m) = ctrl_ch m"
  "writer_ch (drop_entry e m) = writer_ch m" "new_streams (drop_entry e m) = new_streams m"
  "length (cells (drop_entry e m)) = length (cells m)"
  by (simp_all add: drop_entry_def)

lemma fold_drop_entry:
  "length (cells (fold drop_entry es m)) = length (cells m) \<and>
   ctrl_ch (fold drop_entry es m) = ctrl_ch m \<and> writer_ch (fold drop_entry es m) = writer_ch m \<and>
   new_streams (fold drop_entry es m) = new_streams m \<and>
   (\<forall>j < length (cells m). cells (fold drop_entry es m) ! j =
      (if j \<in> e_cell ` set es then (cells m ! j)\<lparr>tx_open := False, win := win_close (win (cells m ! j))\<rparr>
       else cells m ! j))"
proof (induction es arbitrary: m)
  case (Cons e es)
  have "win_close (win_close w) = win_close w" for w :: send_window by (simp add: win_close_def)
  then show ?case using Cons.IH [of "drop_entry e m"]
    by (auto simp: drop_entry_def cells_update_cell)
qed simp

lemma registry_ok_reader_end:
  assumes ok: "registry_ok m"
  shows "registry_ok (reader_end m)"
proof -
  let ?m = "fold drop_entry (map snd (streams m)) m"
  note f = fold_drop_entry [of "map snd (streams m)" m]
  have refs: "j \<in> e_cell ` set (map snd (streams m)) \<longleftrightarrow> tx_open (cells m ! j)" if "j < length (cells m)" for j
    using ok that by (auto simp: registry_ok_def image_image)
  have shut: "\<not> tx_open (cells ?m ! j) \<and> cell_ok (cells ?m ! j)" if "j < length (cells m)" for j
  proof -
    have "cell_ok (cells m ! j)" using ok that by (simp add: registry_ok_def)
    then show ?thesis
      using f that refs [OF that] by (simp add: cell_ok_def win_close_def window_ok_def)
  qed
  then have "\<forall>c \<in> set (cells ?m). cell_ok c" using f by (simp add: all_set_conv_all_nth)
  moreover have "{i. i < length (cells ?m) \<and> tx_open (cells ?m ! i)} = {}" using shut f by auto
  ultimately show ?thesis by (simp add: registry_ok_def reader_end_def)
qed

section \<open>What the planes carry\<close>

lemma plane_ok_send: "plane_ok ch \<Longrightarrow> chan_send f ch = Ready (Inr ch') \<Longrightarrow> encodable f \<Longrightarrow> plane_ok ch'"
  by (auto simp: plane_ok_def chan_ok_def dest!: chan_send_Inr)

lemma plane_ok_try_send: "plane_ok ch \<Longrightarrow> try_send f ch = Inr ch' \<Longrightarrow> encodable f \<Longrightarrow> plane_ok ch'"
  by (auto simp: plane_ok_def chan_ok_def dest!: try_send_Inr)

lemma plane_ok_offer: "plane_ok ch \<Longrightarrow> encodable f \<Longrightarrow> plane_ok (offer f ch)"
  by (auto simp: offer_def split: sum.splits intro: plane_ok_try_send)

lemma plane_ok_pop: "plane_ok ch \<Longrightarrow> plane_ok (pop ch)"
  by (cases "queue ch") (auto simp: plane_ok_def)

lemma encodable_small:
  "length (out_payload f) \<le> SEND_CHUNK_MAX \<Longrightarrow> encodable f"
  by (auto simp: encodable_def writer_payload_def flow_consts)

lemma encodable_pong: "length pl \<le> MAX_PAYLOAD_LEN \<Longrightarrow> encodable (OutFrame sid Pong pl)"
  by (simp add: encodable_def writer_payload_def)

lemma encodable_close: "encodable (OutFrame sid Close [])"
  by (rule encodable_small) simp

lemma length_target_addr_encode: "target_addr_encode t = Inr pl \<Longrightarrow> length pl \<le> 259"
  by (cases t rule: target_addr_encode.cases) (auto simp: Let_def MAX_DOMAIN_LEN_def split: if_splits)

lemma send_data_loop_plane:
  "plane_ok ch \<Longrightarrow> plane_ok (fst (snd (send_data_loop sid data w ch)))"
proof (induction sid data w ch rule: send_data_loop.induct)
  case (1 sid data w ch)
  have enc: "encodable (OutFrame sid Data (take n data))" if "acquire (min (length data) SEND_CHUNK_MAX) w = Ready (Inr (n, w'))" for n w'
    using acquire_Ready_pos [OF that] by (intro encodable_small) auto
  show ?case
    using "1.prems" by (subst send_data_loop.simps)
      (auto split: poll.splits sum.splits dest: enc intro!: "1.IH" intro: plane_ok_send)
qed

text \<open>What a sender asleep in the queue holds is a frame the codec takes.\<close>

definition status_ok :: "send_status \<Rightarrow> bool" where
  "status_ok st \<longleftrightarrow> (\<forall>f data. st = WaitChannel f data \<longrightarrow> encodable f)"

lemma send_data_plane: "plane_ok ch \<Longrightarrow> plane_ok (fst (snd (send_data a sid data w ch)))"
  by (auto simp: send_data_def send_data_loop_plane encodable_small split: poll.splits sum.splits
      intro: plane_ok_send)

lemma send_resume_plane:
  "plane_ok ch \<Longrightarrow> status_ok st \<Longrightarrow> plane_ok (fst (snd (send_resume sid st w ch)))"
  by (cases st) (auto simp: status_ok_def send_data_loop_plane split: poll.splits sum.splits
      intro: plane_ok_send intro!: send_data_loop_plane)

lemma consumed_plane:
  assumes "consumed n rc ctrl bulk = (rc', ctrl', bulk')" and "plane_ok ctrl" and "plane_ok bulk"
  shows "plane_ok ctrl' \<and> plane_ok bulk'"
proof -
  have "encodable (rc_frame r)" for r
    by (rule encodable_small) (simp add: rc_frame_def flow_consts)
  then show ?thesis
    using assms by (auto simp: consumed_def Let_def split: if_splits sum.splits intro: plane_ok_try_send)
qed

section \<open>Every operation keeps the invariant\<close>

lemma send_data_loop_window:
  assumes "window_ok w" and "send_data_loop sid data w ch = (w', ch', st)"
  shows "window_ok w' \<and> win_closed w' = win_closed w"
  using send_data_loop_run [OF assms(1), of sid data ch] assms(2) by (auto simp: send_run_def)

lemma send_data_window:
  assumes "window_ok w" and "send_data a sid data w ch = (w', ch', st)"
  shows "window_ok w' \<and> win_closed w' = win_closed w"
proof (cases "a \<and> data \<noteq> []")
  case True
  then show ?thesis using assms send_data_loop_window by (auto simp: send_data_def)
next
  case False
  then have "w' = w" using assms(2) by (auto simp: send_data_def split: if_splits poll.splits sum.splits)
  then show ?thesis using assms(1) by simp
qed

lemma send_resume_window:
  assumes "window_ok w" and "send_resume sid st w ch = (w', ch', st')"
  shows "window_ok w' \<and> win_closed w' = win_closed w"
  using assms send_data_loop_window [OF assms(1)]
  by (cases st) (auto split: poll.splits sum.splits)

lemma registry_ok_set_win:
  assumes "registry_ok m" and "window_ok (win (cells m ! i)) \<Longrightarrow> window_ok w \<and> win_closed w = win_closed (win (cells m ! i))"
  shows "registry_ok (update_cell (\<lambda>c. c\<lparr>win := w\<rparr>) i m)"
  using assms by (intro registry_ok_update_cell) (auto simp: cell_ok_def)

lemma mux_inv_new: "mux_inv (mux_new sid h cps)"
  by (simp add: mux_inv_def mux_new_def registry_ok_def plane_ok_def channel_def chan_ok_def)

lemma mux_inv_cong:
  "mux_inv m \<Longrightarrow> streams m' = streams m \<Longrightarrow> cells m' = cells m \<Longrightarrow> ctrl_ch m' = ctrl_ch m \<Longrightarrow>
   writer_ch m' = writer_ch m \<Longrightarrow> new_streams m' = new_streams m \<Longrightarrow> mux_inv m'"
  by (simp add: mux_inv_def registry_ok_def)

lemma mux_inv_planes:
  "mux_inv m \<Longrightarrow> streams m' = streams m \<Longrightarrow> cells m' = cells m \<Longrightarrow> plane_ok (ctrl_ch m') \<Longrightarrow>
   plane_ok (writer_ch m') \<Longrightarrow> chan_ok (new_streams m') \<Longrightarrow> mux_inv m'"
  by (simp add: mux_inv_def registry_ok_def)

lemma mux_inv_remove: "mux_inv m \<Longrightarrow> mux_inv (remove_stream sid m)"
  by (simp add: mux_inv_def registry_ok_remove_stream)

lemma mux_inv_update_cell:
  assumes "mux_inv m" and "\<And>c. tx_open (h c) = tx_open c"
    and "i < length (cells m) \<Longrightarrow> cell_ok (cells m ! i) \<Longrightarrow> cell_ok (h (cells m ! i))"
  shows "mux_inv (update_cell h i m)"
  using assms by (simp add: mux_inv_def registry_ok_update_cell)

lemma mux_inv_register:
  assumes "mux_inv m" and "register_cell sid d m = (i, m')"
  shows "mux_inv m'"
  using assms register_cell_sel [OF assms(2)] registry_ok_register_cell [OF _ assms(2)]
  by (simp add: mux_inv_def)

lemma mux_inv_count_first_data:
  assumes "mux_inv m" and "map_of (streams m) sid = Some e"
  shows "mux_inv (count_first_data now cmd sid e m)"
proof -
  let ?m = "m\<lparr>streams := AList.update sid (e\<lparr>got_data := True\<rparr>) (streams m)\<rparr>"
  have "registry_ok m" using assms(1) by (simp add: mux_inv_def)
  then have "registry_ok ?m"
    by (rule registry_ok_update [OF _ assms(2), where e' = "e\<lparr>got_data := True\<rparr>"]) simp_all
  then have "mux_inv (note_health g ?m)" for g
    using assms(1) by (simp add: mux_inv_def note_health_def)
  then show ?thesis using assms(1) by (simp add: count_first_data_def)
qed

lemma mux_inv_dispatch_data: "mux_inv m \<Longrightarrow> mux_inv (dispatch_data now cmd pl m)"
  by (auto simp: dispatch_data_def Let_def split: sum.splits option.splits
      intro!: mux_inv_remove mux_inv_update_cell mux_inv_count_first_data)
    (auto simp: cell_ok_def intro: chan_ok_try_send)

lemma mux_inv_count_close: "mux_inv m \<Longrightarrow> mux_inv (count_close now code m)"
  by (auto simp: count_close_def note_health_def elim: mux_inv_cong)

lemma mux_inv_dispatch_close: "mux_inv m \<Longrightarrow> mux_inv (dispatch_close now pl m)"
  by (auto simp: dispatch_close_def split: sum.splits option.splits list.splits
      intro!: mux_inv_remove mux_inv_count_close mux_inv_update_cell)
    (simp add: cell_ok_def)

lemma win_closed_add [simp]: "win_closed (win_add n w) = win_closed w"
  by (simp add: win_add_def)

lemma mux_inv_dispatch_window_update: "mux_inv m \<Longrightarrow> mux_inv (dispatch_window_update pl m)"
  by (auto simp: dispatch_window_update_def split: sum.splits option.splits list.splits
      intro!: mux_inv_update_cell)
    (auto simp: cell_ok_def window_ok_add)

lemma mux_inv_dispatch_connect: "mux_inv m \<Longrightarrow> mux_inv (dispatch_connect pl m)"
  by (auto simp: dispatch_connect_def split: sum.splits option.splits
      intro!: mux_inv_update_cell elim: mux_inv_planes)
    (auto simp: cell_ok_def mux_inv_def registry_ok_def)

lemma mux_inv_dispatch:
  assumes "mux_inv m" and "length (payload f) \<le> MAX_PAYLOAD_LEN"
  shows "mux_inv (dispatch_frame now f m)"
  using assms
proof (cases "(now, f, m)" rule: dispatch_frame.cases)
  case (1 now pl m)
  then show ?thesis using assms
    by (simp add: mux_inv_def plane_ok_offer encodable_pong)
qed (auto intro: mux_inv_dispatch_data mux_inv_dispatch_close mux_inv_dispatch_window_update
    mux_inv_dispatch_connect)

lemma mux_inv_drain:
  "mux_inv m \<Longrightarrow> mux_inv (fst (drain c (dispatch_frame now) buf m))"
proof (induction "length buf" arbitrary: buf m rule: less_induct)
  case less
  show ?case
  proof (cases "decode_frame c buf")
    case (Inr opt)
    show ?thesis
    proof (cases opt)
      case (Some p)
      obtain f n where dec: "decode_frame c buf = Inr (Some (f, n))" using Inr Some by (cases p) auto
      have "length (payload f) \<le> MAX_PAYLOAD_LEN"
        using dec by (auto simp: decode_frame_def dest: obf.parse_frame_bounds)
      then have "mux_inv (dispatch_frame now f m)" by (rule mux_inv_dispatch [OF less.prems])
      moreover have "length (drop n buf) < length buf" using codec.dec_progress [OF dec] by auto
      ultimately show ?thesis using less.hyps dec by (simp add: drain.simps [of c _ buf])
    qed (use Inr less.prems in \<open>simp add: drain.simps [of c _ buf]\<close>)
  qed (use less.prems in \<open>simp add: drain.simps [of c _ buf]\<close>)
qed

lemma mux_inv_reader_round:
  assumes "mux_inv m"
  shows "mux_inv (snd (reader_round c now ev rd m))"
proof -
  have ping: "encodable (OutFrame 0 Ping (u64_to_be ts))" for ts
    by (rule encodable_small) (simp add: flow_consts)
  have drain: "mux_inv m1" if "drain c (dispatch_frame now) buf m = (m1, b, e)" for buf m1 b e
    using mux_inv_drain [OF assms, of c now buf] that by simp
  have tick: "mux_inv (m\<lparr>ctrl_ch := ch\<rparr>)" if "try_send (OutFrame 0 Ping (u64_to_be ts)) (ctrl_ch m) = Inr ch" for ts ch
    using assms plane_ok_try_send [OF _ that ping] by (simp add: mux_inv_def)
  show ?thesis
  proof (cases ev)
    case (RdData chunk)
    then show ?thesis
      using assms by (auto simp: reader_round_def split: prod.splits option.splits dest: drain)
  next
    case (RdError e)
    then show ?thesis using assms by (simp add: reader_round_def)
  next
    case (RdTick ts)
    then show ?thesis
      using assms by (simp add: reader_round_def tick split: sum.splits send_error.splits)
  qed
qed

lemma mux_inv_reader_end: "mux_inv m \<Longrightarrow> mux_inv (reader_end m)"
  using registry_ok_reader_end [of m] fold_drop_entry [of "map snd (streams m)" m]
  by (simp add: mux_inv_def reader_end_def)

lemma mux_inv_drop_receiver: "mux_inv m \<Longrightarrow> mux_inv (drop_receiver i m)"
  unfolding drop_receiver_def by (rule mux_inv_update_cell) (simp_all add: cell_ok_def chan_ok_def)

lemma mux_inv_guard: "mux_inv m \<Longrightarrow> mux_inv (open_guard sid i m)"
  unfolding open_guard_def by (rule mux_inv_cong [OF mux_inv_drop_receiver]) simp_all

lemma mux_inv_send_frame:
  "mux_inv m \<Longrightarrow> length data \<le> SEND_CHUNK_MAX \<Longrightarrow> mux_inv (snd (send_frame sid cmd data m))"
  by (auto simp: send_frame_def mux_inv_def registry_ok_def encodable_small split: poll.splits sum.splits
      intro: plane_ok_send)

lemma mux_inv_pop:
  "mux_inv m \<Longrightarrow> mux_inv (update_cell (\<lambda>c. c\<lparr>rx := pop (rx c)\<rparr>) i m)"
  by (rule mux_inv_update_cell) (simp_all add: cell_ok_def)

lemma mux_inv_open_poll:
  assumes "mux_inv m" and "\<And>sid i pl. st = OpenConnect sid i pl \<Longrightarrow> length pl \<le> SEND_CHUNK_MAX"
  shows "mux_inv (snd (open_poll timeout st m))"
proof (cases st)
  case (OpenConnect sid i pl)
  then have "mux_inv (snd (send_frame sid Connect pl m))" using assms by (simp add: mux_inv_send_frame)
  then show ?thesis
    using OpenConnect by (auto split: prod.splits poll.splits sum.splits intro: mux_inv_guard)
next
  case (OpenWait sid i)
  then show ?thesis using assms(1) by (auto split: list.splits intro: mux_inv_guard mux_inv_pop)
qed

lemma mux_inv_recv:
  assumes "mux_inv m"
  shows "mux_inv (snd (snd (stream_recv ms m)))"
proof (cases "queue (rx (cells m ! ms_cell ms))")
  case (Cons d ds)
  let ?m = "update_cell (\<lambda>c. c\<lparr>rx := pop (rx c)\<rparr>) (ms_cell ms) m"
  have inv: "mux_inv ?m" by (rule mux_inv_pop [OF assms])
  have "mux_inv (?m\<lparr>ctrl_ch := ctrl', writer_ch := bulk'\<rparr>)"
    if "consumed (length d) rc (ctrl_ch ?m) (writer_ch ?m) = (rc', ctrl', bulk')" for rc rc' ctrl' bulk'
    using consumed_plane [OF that] inv by (auto simp: mux_inv_def registry_ok_def)
  with inv Cons assms show ?thesis
    by (auto simp: stream_recv_def Let_def simp del: update_cell_sel split: option.splits prod.splits)
qed (use assms in \<open>simp add: stream_recv_def\<close>)

lemma mux_inv_set_win:
  assumes "mux_inv m" and "plane_ok ch"
    and "window_ok (win (cells m ! i)) \<Longrightarrow> window_ok w \<and> win_closed w = win_closed (win (cells m ! i))"
  shows "mux_inv (update_cell (\<lambda>c. c\<lparr>win := w\<rparr>) i (m\<lparr>writer_ch := ch\<rparr>))"
  using assms by (intro mux_inv_update_cell) (auto simp: cell_ok_def mux_inv_def registry_ok_def)

lemma mux_inv_send:
  assumes "mux_inv m"
  shows "mux_inv (snd (stream_send ms data m))"
proof -
  obtain w ch st where res: "send_data (alive m) (ms_id ms) data (win (cells m ! ms_cell ms)) (writer_ch m) = (w, ch, st)"
    by (metis prod_cases3)
  have "plane_ok ch"
    using send_data_plane [of "writer_ch m" "alive m" "ms_id ms" data "win (cells m ! ms_cell ms)"] res assms
    by (simp add: mux_inv_def)
  then show ?thesis
    using mux_inv_set_win [OF assms] send_data_window [OF _ res] by (simp add: stream_send_def res)
qed

lemma mux_inv_send_resume:
  assumes "mux_inv m" and "status_ok st"
  shows "mux_inv (snd (stream_send_resume ms st m))"
proof -
  obtain w ch st' where res: "send_resume (ms_id ms) st (win (cells m ! ms_cell ms)) (writer_ch m) = (w, ch, st')"
    by (metis prod_cases3)
  have "plane_ok ch"
    using send_resume_plane [of "writer_ch m" st "ms_id ms" "win (cells m ! ms_cell ms)"] res assms
    by (simp add: mux_inv_def)
  then show ?thesis
    using mux_inv_set_win [OF assms(1)] send_resume_window [OF _ res] by (simp add: stream_send_resume_def res)
qed

section \<open>The multiplexer as a transition system\<close>

text \<open>
  Everything that can happen to a multiplexer: rounds of the reader and turns of the writer, their
  ends, and the calls of the owners of streams, in any order and on any handle. Callers pass Close
  reasons and raw frames that leave room for the stream id.
\<close>

definition mux_init :: "mux \<Rightarrow> bool" where
  "mux_init m \<longleftrightarrow> (\<exists>sid h cps. m = mux_new sid h cps)"

inductive mux_step :: "mux \<Rightarrow> mux \<Rightarrow> bool" where
  read_round: "mux_step m (snd (reader_round c now ev rd m))"
| read_end: "mux_step m (reader_end m)"
| write_turn: "writer_turn r c werr (shutdown_permit m) True True (ctrl_ch m) (writer_ch m) = Wrote wire ctrl' data' \<Longrightarrow>
    mux_step m (m\<lparr>ctrl_ch := ctrl', writer_ch := data'\<rparr>)"
| write_end: "mux_step m (writer_end m)"
| register: "mux_step m (snd (register_stream sid m))"
| start_open: "mux_step m (snd (open_begin lock_ok target m))"
| poll_open: "(\<And>sid i pl. st = OpenConnect sid i pl \<Longrightarrow> length pl \<le> SEND_CHUNK_MAX) \<Longrightarrow>
    mux_step m (snd (open_poll timeout st m))"
| cancel_open: "mux_step m (open_cancel st m)"
| cleanup: "mux_step m (run_cleanup m)"
| recv: "mux_step m (snd (snd (stream_recv ms m)))"
| send: "mux_step m (snd (stream_send ms data m))"
| resume: "status_ok st \<Longrightarrow> mux_step m (snd (stream_send_resume ms st m))"
| close: "length reason \<le> SEND_CHUNK_MAX \<Longrightarrow> mux_step m (snd (snd (stream_close_with reason ms m)))"
| close_again: "length reason \<le> SEND_CHUNK_MAX \<Longrightarrow> mux_step m (snd (stream_close_resume reason ms m))"
| drop_stream: "mux_step m (stream_drop ms m)"
| raw_frame: "length data \<le> SEND_CHUNK_MAX \<Longrightarrow> mux_step m (snd (send_frame sid cmd data m))"
| raw_close: "length reason \<le> SEND_CHUNK_MAX \<Longrightarrow> mux_step m (snd (send_stream_close sid reason m))"
| take_rx: "mux_step m (snd (take_new_stream_rx m))"
| accept_new: "mux_step m (m\<lparr>new_streams := pop (new_streams m)\<rparr>)"
| shut: "mux_step m (mux_shutdown m)"

lemma mux_inv_writer_ch: "mux_inv m \<Longrightarrow> plane_ok ch \<Longrightarrow> mux_inv (m\<lparr>writer_ch := ch\<rparr>)"
  by (simp add: mux_inv_def)

lemma mux_inv_close_frames:
  assumes "mux_inv m" and "length reason \<le> SEND_CHUNK_MAX"
  shows "mux_inv (snd (snd (stream_close_with reason ms m)))" "mux_inv (snd (stream_close_resume reason ms m))"
    "mux_inv (snd (send_stream_close sid reason m))"
proof -
  have "mux_inv (m\<lparr>writer_ch := ch\<rparr>)" if "chan_send (OutFrame s Close reason) (writer_ch m) = Ready (Inr ch)" for s ch
    using assms plane_ok_send [OF _ that] encodable_small by (simp add: mux_inv_def)
  then show "mux_inv (snd (snd (stream_close_with reason ms m)))" "mux_inv (snd (stream_close_resume reason ms m))"
    "mux_inv (snd (send_stream_close sid reason m))"
    using assms(1) by (auto simp: stream_close_with_def stream_close_resume_def send_stream_close_def
        split: poll.splits sum.splits)
qed

lemma mux_inv_drop_stream: "mux_inv m \<Longrightarrow> mux_inv (stream_drop ms m)"
  by (auto simp: stream_drop_def Let_def close_on_drop_def
      intro!: mux_inv_drop_receiver mux_inv_writer_ch plane_ok_offer encodable_close)
    (auto simp: mux_inv_def)

lemma mux_inv_open_begin:
  assumes "mux_inv m"
  shows "mux_inv (snd (open_begin lock_ok target m))"
proof -
  have "mux_inv (m\<lparr>next_stream_id := n\<rparr>)" for n using assms by (simp add: mux_inv_def)
  then show ?thesis
    using assms by (auto simp: open_begin_def Let_def split: sum.splits prod.splits dest: mux_inv_register)
qed

lemma mux_inv_write_turn:
  assumes "mux_inv m"
    and "writer_turn r c werr sh co da (ctrl_ch m) (writer_ch m) = Wrote wire ctrl' data'"
  shows "mux_inv (m\<lparr>ctrl_ch := ctrl', writer_ch := data'\<rparr>)"
proof -
  have "plane_ok ctrl' \<and> plane_ok data'"
    using assms by (auto simp: writer_turn_def writer_select_def mux_inv_def plane_ok_pop
        split: writer_pick.splits list.splits if_splits sum.splits option.splits)
  then show ?thesis using assms(1) by (simp add: mux_inv_def)
qed

lemma mux_inv_step:
  assumes "mux_inv m" and "mux_step m m'"
  shows "mux_inv m'"
  using assms(2)
proof cases
  case write_end
  then show ?thesis using assms(1)
    by (simp add: writer_end_def mux_inv_def registry_ok_def plane_ok_def chan_ok_def)
next
  case (register sid)
  then show ?thesis using mux_inv_register [OF assms(1)]
    by (auto simp: register_stream_def split: prod.splits)
next
  case (start_open lock_ok target)
  then show ?thesis using mux_inv_open_begin [OF assms(1)] by simp
next
  case (cancel_open st)
  then show ?thesis using assms(1) by (cases st) (auto intro: mux_inv_guard)
next
  case cleanup
  then show ?thesis using assms(1)
    by (auto simp: run_cleanup_def split: list.splits intro!: mux_inv_remove elim: mux_inv_cong)
next
  case take_rx
  then show ?thesis using assms(1) by (auto simp: take_new_stream_rx_def elim: mux_inv_cong)
next
  case accept_new
  then show ?thesis using assms(1) by (simp add: mux_inv_def)
next
  case shut
  then show ?thesis using assms(1) by (auto simp: mux_shutdown_def elim: mux_inv_cong)
qed (use assms(1) in \<open>auto intro: mux_inv_reader_round mux_inv_reader_end mux_inv_write_turn
    mux_inv_open_poll mux_inv_recv mux_inv_send mux_inv_send_resume mux_inv_close_frames
    mux_inv_drop_stream mux_inv_send_frame\<close>)

interpretation mux_sys: transition_system mux_init mux_step mux_inv
  by unfold_locales (auto simp: mux_init_def intro: mux_inv_new mux_inv_step)

section \<open>Properties of the multiplexer\<close>

text \<open>
  A sender is never left asleep on a stream that is gone. Once the entry of a stream has been
  removed, for whatever reason (the peer's Close, an overflow, the death of the reader), a new send
  on its handle and the next poll of a send that waits for credit both fail with BrokenPipe.
\<close>

theorem removed_stream_wakes_sender:
  assumes "reach mux_init mux_step m" and "ms_cell ms < length (cells m)" and "ms_cell ms \<notin> set (refs m)"
    and "data \<noteq> []"
  shows "(\<exists>e. fst (stream_send ms data m) = SendFailed e \<and> kind e = BrokenPipe) \<and>
         (\<exists>e. fst (stream_send_resume ms (WaitWindow data) m) = SendFailed e \<and> kind e = BrokenPipe)"
proof -
  have "mux_inv m" using assms(1) by (rule mux_sys.reach_inv)
  then have "win_closed (win (cells m ! ms_cell ms))"
    using assms(2,3) by (auto simp: mux_inv_def registry_ok_def cell_ok_def)
  then have "acquire n (win (cells m ! ms_cell ms)) = Ready (Inl mux_broken)" for n
    by (simp add: acquire_def try_acquire_def)
  then have "send_data_loop sid data (win (cells m ! ms_cell ms)) ch =
      (win (cells m ! ms_cell ms), ch, SendFailed mux_broken)" for sid ch
    using assms(4) by (subst send_data_loop.simps) simp
  then show ?thesis
    using assms(4) by (simp add: stream_send_def stream_send_resume_def send_data_def mux_broken_def)
qed

text \<open>A client that registered stream 1 and then lost its reader.\<close>

definition dead_client :: mux where
  "dead_client = reader_end (snd (register_stream 1 (new_client caps_LOCAL)))"

definition dead_handle :: mux_stream where
  "dead_handle = fst (register_stream 1 (new_client caps_LOCAL))"

lemma reach_dead_client: "reach mux_init mux_step dead_client"
proof -
  have "reach mux_init mux_step (new_client caps_LOCAL)"
    by (rule reach_init) (auto simp: mux_init_def new_client_def)
  then show ?thesis unfolding dead_client_def by (blast intro: reach_step mux_step.register mux_step.read_end)
qed

theorem removed_stream_wakes_sender_witness:
  "(\<exists>e. fst (stream_send dead_handle [1] dead_client) = SendFailed e \<and> kind e = BrokenPipe) \<and>
   (\<exists>e. fst (stream_send_resume dead_handle (WaitWindow [1]) dead_client) = SendFailed e \<and> kind e = BrokenPipe)"
  by (rule removed_stream_wakes_sender [OF reach_dead_client])
    (simp_all add: dead_client_def dead_handle_def register_stream_def register_cell_def insert_stream_def
      remove_stream_def new_client_def mux_new_def reader_end_def drop_entry_def Let_def)

lemma map_of_count_first_data:
  "sid' \<noteq> sid \<Longrightarrow> map_of (streams (count_first_data now cmd sid e m)) sid' = map_of (streams m) sid'"
  "map_of (streams m) sid = Some e \<Longrightarrow>
     \<exists>e2. map_of (streams (count_first_data now cmd sid e m)) sid = Some e2 \<and> e_cell e2 = e_cell e"
  "cells (count_first_data now cmd sid e m) = cells m"
  by (auto simp: count_first_data_def note_health_def update_conv')

lemma cells_remove_counted:
  assumes "map_of (streams m) sid = Some e" and "j < length (cells m)" and "e_cell e \<noteq> j"
  shows "cells (remove_stream sid (count_first_data now cmd sid e m)) ! j = cells m ! j"
proof -
  obtain e2 where "map_of (streams (count_first_data now cmd sid e m)) sid = Some e2" "e_cell e2 = e_cell e"
    using map_of_count_first_data(2) [OF assms(1)] by blast
  then show ?thesis
    using assms(2,3) map_of_count_first_data(3) [of now cmd sid e m]
    by (simp add: cells_remove_stream)
qed

text \<open>
  Frames of one stream touch no other stream: dispatching any frame whose payload carries stream id
  \<open>sid\<close> leaves the registration, the queued data, the window and the close reason of every other
  registered stream as they were, even when the frame overflows or closes its own stream.
\<close>

theorem dispatch_isolates_streams:
  assumes "reach mux_init mux_step m" and "decode_mux_payload (payload f) = Inr (sid, d)"
    and "map_of (streams m) sid' = Some e'" and "sid' \<noteq> sid"
  shows "map_of (streams (dispatch_frame now f m)) sid' = Some e' \<and>
         cells (dispatch_frame now f m) ! e_cell e' = cells m ! e_cell e'"
proof -
  have reg: "registry_ok m" using mux_sys.reach_inv [OF assms(1)] by (simp add: mux_inv_def)
  have mem: "e_cell e' \<in> set (refs m)" using map_of_SomeD [OF assms(3)] by force
  then have l: "e_cell e' < length (cells m)" using reg by (auto simp: registry_ok_def)
  have ne: "e_cell e \<noteq> e_cell e'" if "map_of (streams m) sid = Some e" for e
  proof
    assume "e_cell e = e_cell e'"
    moreover have "(sid, e) \<in> set (streams m)" "(sid', e') \<in> set (streams m)"
      using that assms(3) by (auto dest: map_of_SomeD)
    moreover have "inj_on (e_cell \<circ> snd) (set (streams m))" using reg by (simp add: registry_ok_def distinct_map)
    ultimately have "(sid, e) = (sid', e')" by (intro inj_onD [of "e_cell \<circ> snd"]) auto
    then show False using assms(4) by simp
  qed
  note defs = dispatch_close_def dispatch_window_update_def dispatch_connect_def Let_def
    count_close_def note_health_def
  show ?thesis
  proof (cases f)
    case (Frame cmd pl)
    have "map_of (streams (dispatch_data now cmd' pl m)) sid' = Some e' \<and>
        cells (dispatch_data now cmd' pl m) ! e_cell e' = cells m ! e_cell e'" for cmd'
      using assms Frame ne l
      by (auto simp: dispatch_data_def Let_def cells_remove_counted cells_update_cell streams_remove_stream
          map_of_count_first_data split: option.splits sum.splits)
    then show ?thesis
      using assms Frame ne l
      by (cases cmd) (auto simp: defs cells_remove_stream cells_update_cell streams_remove_stream
          split: option.splits sum.splits list.splits)
  qed
qed

text \<open>Two streams registered by the peer.\<close>

definition two_streams :: mux where
  "two_streams = snd (register_stream 5 (snd (register_stream 3 (new_client_tracked (health_new 0) caps_LOCAL))))"

lemma reach_two_streams: "reach mux_init mux_step two_streams"
proof -
  have "reach mux_init mux_step (new_client_tracked (health_new 0) caps_LOCAL)"
    by (rule reach_init) (auto simp: mux_init_def new_client_tracked_def)
  then show ?thesis unfolding two_streams_def by (blast intro: reach_step mux_step.register)
qed

lemmas two_streams_defs = two_streams_def register_stream_def register_cell_def insert_stream_def
  remove_stream_def new_client_tracked_def mux_new_def Let_def

theorem dispatch_isolates_streams_witness:
  "map_of (streams (dispatch_frame 0 (Frame Close [0, 0, 0, 3, 1]) two_streams)) 5
     = Some \<lparr>e_cell = 1, got_data = False, domain = False\<rparr> \<and>
   cells (dispatch_frame 0 (Frame Close [0, 0, 0, 3, 1]) two_streams) ! 1 = cells two_streams ! 1"
proof -
  have e: "map_of (streams two_streams) 5 = Some \<lparr>e_cell = 1, got_data = False, domain = False\<rparr>"
    by (simp add: two_streams_defs)
  have d: "decode_mux_payload (payload (Frame Close [0, 0, 0, 3, 1])) = Inr (3, [1])"
    by (simp add: decode_mux_payload_def u32_from_be_def)
  show ?thesis using dispatch_isolates_streams [OF reach_two_streams d e] by simp
qed

text \<open>
  The writer task never dies of a frame: in every reachable state, whatever mixture of Data,
  Close, Connect, Ping, Pong and WindowUpdate frames is queued, the writer's next turn does not end
  the task with an encoding error.
\<close>

theorem writer_encodes_everything:
  assumes "reach mux_init mux_step m"
  shows "writer_turn r c None sh True True (ctrl_ch m) (writer_ch m) \<noteq> WriterEnds (Some e)"
proof -
  have "mux_inv m" using assms by (rule mux_sys.reach_inv)
  then show ?thesis by (intro writer_turn_no_error) (auto simp: mux_inv_def plane_ok_def)
qed

theorem writer_encodes_everything_witness:
  "writer_turn example_rng example_codec None False True True (ctrl_ch two_streams) (writer_ch two_streams)
     \<noteq> WriterEnds (Some (IoError InvalidInput ''payload too large''))"
  by (rule writer_encodes_everything [OF reach_two_streams])

text \<open>
  A Close with a reason is counted once and loses nothing already received: the stream leaves the
  registry, the reason is published, the sender is woken, data queued for the consumer stays queued,
  the relay health records the failure the reason names, and a second copy of the frame changes nothing.
\<close>

theorem peer_close_counted_once:
  assumes "reach mux_init mux_step m" and "map_of (streams m) sid = Some e"
    and "f = Frame Close (encode_mux_payload sid (code # rest))" and "m' = dispatch_frame now f m"
  shows "map_of (streams m') sid = None \<and>
    cells m' ! e_cell e = (cells m ! e_cell e)\<lparr>close_reason := code, tx_open := False,
       win := win_close (win (cells m ! e_cell e))\<rparr> \<and>
    health m' = (if code = 1 then map_option (record_resolve_fail now) (health m)
                 else if code = 2 then map_option (record_connect_fail now) (health m) else health m) \<and>
    dispatch_frame later f m' = m'"
proof -
  have "registry_ok m" using mux_sys.reach_inv [OF assms(1)] by (simp add: mux_inv_def)
  moreover have "e_cell e \<in> set (refs m)" using map_of_SomeD [OF assms(2)] by force
  ultimately have l: "e_cell e < length (cells m)" by (auto simp: registry_ok_def)
  let ?m = "update_cell (\<lambda>c. c\<lparr>close_reason := code\<rparr>) (e_cell e) m"
  have m': "m' = remove_stream sid (count_close now code ?m)"
    using assms(2-4) by (simp add: dispatch_close_def)
  have sel: "streams (count_close now code ?m) = streams m" "cells (count_close now code ?m) = cells ?m"
    by (simp_all add: count_close_def note_health_def)
  have none: "map_of (streams m') sid = None"
    by (simp add: m' streams_remove_stream delete_conv' sel)
  have "cells m' ! e_cell e = (cells m ! e_cell e)\<lparr>close_reason := code, tx_open := False,
       win := win_close (win (cells m ! e_cell e))\<rparr>"
    using l by (simp add: m' cells_remove_stream sel assms(2) cells_update_cell)
  moreover have "health m' = (if code = 1 then map_option (record_resolve_fail now) (health m)
                 else if code = 2 then map_option (record_connect_fail now) (health m) else health m)"
    by (simp add: m' count_close_def note_health_def CLOSE_REASON_RESOLVE_FAIL_def CLOSE_REASON_CONNECT_FAIL_def)
  moreover have "dispatch_frame later f m' = m'"
    using none assms(3) by (simp add: dispatch_close_def)
  ultimately show ?thesis using none by blast
qed

theorem peer_close_counted_once_witness:
  "map_of (streams (dispatch_frame 7 (Frame Close (encode_mux_payload 3 [2])) two_streams)) 3 = None \<and>
   health (dispatch_frame 7 (Frame Close (encode_mux_payload 3 [2])) two_streams)
     = map_option (record_connect_fail 7) (health two_streams)"
proof -
  have e: "map_of (streams two_streams) 3 = Some \<lparr>e_cell = 0, got_data = False, domain = False\<rparr>"
    by (simp add: two_streams_defs)
  show ?thesis using peer_close_counted_once [OF reach_two_streams e refl refl, where code = 2 and rest = "[]" and now = 7] by simp
qed

section \<open>Properties of opening a stream\<close>

lemma run_cleanups:
  "(\<forall>sid \<in> set (take n (cleanups m)). map_of (streams ((run_cleanup ^^ n) m)) sid = None) \<and>
   (\<forall>sid. map_of (streams m) sid = None \<longrightarrow> map_of (streams ((run_cleanup ^^ n) m)) sid = None)"
proof (induction n arbitrary: m)
  case (Suc n)
  show ?case
  proof (cases "cleanups m")
    case Nil
    then have "(run_cleanup ^^ k) m = m" for k by (induction k) (simp_all add: run_cleanup_def)
    from this [of "Suc n"] Nil show ?thesis by (simp del: funpow.simps)
  next
    case (Cons sid rest)
    let ?m = "remove_stream sid (m\<lparr>cleanups := rest\<rparr>)"
    have "run_cleanup m = ?m" using Cons by (simp add: run_cleanup_def)
    moreover have "cleanups ?m = rest" by simp
    moreover have "map_of (streams ?m) s = (if s = sid then None else map_of (streams m) s)" for s
      by (simp add: streams_remove_stream delete_conv')
    ultimately show ?thesis using Suc.IH [of ?m] Cons by (auto simp: funpow_Suc_right simp del: funpow.simps)
  qed
qed simp

fun open_sid :: "open_state \<Rightarrow> u32" where
  "open_sid (OpenConnect sid i pl) = sid"
| "open_sid (OpenWait sid i) = sid"

lemma open_failed_cleanup:
  "fst (open_poll timeout st m) = OpenFailed e \<Longrightarrow> open_sid st \<in> set (cleanups (snd (open_poll timeout st m)))"
  by (cases st) (auto simp: open_guard_def split: prod.splits poll.splits sum.splits list.splits if_splits)

text \<open>
  An open that does not return a stream leaves no registration behind: after an error of any
  step, a timeout, or the cancellation of the future, once the spawned cleanup tasks have run the
  stream id is not in the registry.
\<close>

theorem failed_open_unregisters:
  assumes "m' = (if cancelled then open_cancel st m else snd (open_poll timeout st m))"
    and "cancelled \<or> fst (open_poll timeout st m) = OpenFailed e"
  shows "map_of (streams ((run_cleanup ^^ length (cleanups m')) m')) (open_sid st) = None"
proof -
  have "open_sid st \<in> set (cleanups m')"
  proof (cases cancelled)
    case True
    then show ?thesis using assms(1) by (cases st) (simp_all add: open_guard_def)
  next
    case False
    then show ?thesis using assms open_failed_cleanup by auto
  qed
  then show ?thesis using run_cleanups [of "length (cleanups m')" m'] by simp
qed

definition opened_client :: "open_result \<times> mux" where
  "opened_client = open_begin True (TaDomain ''a'' 80) (new_client caps_LOCAL)"

theorem failed_open_unregisters_witness:
  "map_of (streams (snd opened_client)) 1 \<noteq> None \<and>
   map_of (streams ((run_cleanup ^^ 1) (snd (open_poll True (OpenWait 1 0) (snd opened_client))))) 1 = None"
proof
  show "map_of (streams (snd opened_client)) 1 \<noteq> None"
    by (simp add: opened_client_def open_begin_def new_client_def mux_new_def Let_def MAX_DOMAIN_LEN_def
        register_cell_def insert_stream_def remove_stream_def)
  let ?m = "snd (open_poll True (OpenWait 1 0) (snd opened_client))"
  have "fst (open_poll True (OpenWait 1 0) (snd opened_client)) = OpenFailed (IoError TimedOut ''mux connect ack timeout'')"
    and "length (cleanups ?m) = 1"
    by (simp_all add: opened_client_def open_begin_def new_client_def mux_new_def Let_def MAX_DOMAIN_LEN_def
        register_cell_def insert_stream_def remove_stream_def channel_def open_guard_def drop_receiver_def)
  then show "map_of (streams ((run_cleanup ^^ 1) ?m)) 1 = None"
    using failed_open_unregisters [of ?m False "OpenWait 1 0" "snd opened_client" True] by simp
qed

end
