(* ===== verification/Mux_Io.thy ===== *)
theory Mux_Io
  imports Mux
begin

text \<open>
  \<^verbatim>\<open>MuxStreamIo\<close> of \<^verbatim>\<open>xr-proto/src/mux.rs\<close>: a mux stream as a byte channel with
  \<^verbatim>\<open>poll_read\<close>, \<^verbatim>\<open>poll_write\<close>, \<^verbatim>\<open>poll_flush\<close> and \<^verbatim>\<open>poll_shutdown\<close>. A stored future is a value that
  says where it waits.

  The lemmas show that reading loses, repeats and reorders nothing, that a write accounts for
  exactly the bytes it reports, and that Close is queued behind a Data frame still on its way.
\<close>

section \<open>State\<close>

definition IO_WRITE_CHUNK :: nat where "IO_WRITE_CHUNK = 16 * 1024"

datatype write_fut =
    FutAcquire bytes          \<comment> \<open>waits for credit for these bytes\<close>
  | FutSend out_frame nat     \<comment> \<open>waits for room in the writer queue; resolves to the count\<close>

record mux_io =
  io_id :: u32
  io_cell :: nat
  io_credit :: "recv_credit option"
  read_buf :: bytes
  read_pos :: nat
  write_fut :: "write_fut option"
  close_fut :: bool
  io_closed :: bool

definition into_io :: "mux_stream \<Rightarrow> mux_io option" where
  "into_io ms =
     (if \<not> ms_rx ms then None
      else Some \<lparr>io_id = ms_id ms, io_cell = ms_cell ms, io_credit = ms_credit ms, read_buf = [],
             read_pos = 0, write_fut = None, close_fut = False, io_closed = ms_closed ms\<rparr>)"

section \<open>Reading\<close>

definition credit_read :: "nat \<Rightarrow> recv_credit option \<Rightarrow> out_frame chan \<Rightarrow> out_frame chan \<Rightarrow>
    recv_credit option \<times> out_frame chan \<times> out_frame chan" where
  "credit_read n rc ctrl bulk = (case rc of
      None \<Rightarrow> (None, ctrl, bulk)
    | Some c \<Rightarrow> (case consumed n c ctrl bulk of (c', ctrl', bulk') \<Rightarrow> (Some c', ctrl', bulk')))"

text \<open>The pull loop: payloads without bytes are skipped, but their credit is returned.\<close>

fun io_pull :: "bytes list \<Rightarrow> recv_credit option \<Rightarrow> out_frame chan \<Rightarrow> out_frame chan \<Rightarrow>
    bytes option \<times> bytes list \<times> recv_credit option \<times> out_frame chan \<times> out_frame chan" where
  "io_pull [] rc ctrl bulk = (None, [], rc, ctrl, bulk)"
| "io_pull (d # ds) rc ctrl bulk =
     (case credit_read (length d) rc ctrl bulk of (rc', ctrl', bulk') \<Rightarrow>
        if d = [] then io_pull ds rc' ctrl' bulk' else (Some d, ds, rc', ctrl', bulk'))"

text \<open>
  \<open>remaining\<close> is the room in the caller's buffer. \<open>Ready bs\<close> appends \<open>bs\<close> to it; nothing appended
  to a buffer with room is the end of the stream.
\<close>

definition poll_read :: "nat \<Rightarrow> mux_io \<Rightarrow> mux \<Rightarrow> bytes poll \<times> mux_io \<times> mux" where
  "poll_read remaining io m =
     (if remaining = 0 then (Ready [], io, m)
      else if read_pos io < length (read_buf io) then
        let n = min (length (read_buf io) - read_pos io) remaining;
            out = take n (drop (read_pos io) (read_buf io));
            pos = read_pos io + n
        in (Ready out,
            (if length (read_buf io) \<le> pos then io\<lparr>read_buf := [], read_pos := 0\<rparr> else io\<lparr>read_pos := pos\<rparr>), m)
      else
        let c = cells m ! io_cell io in
        (case io_pull (queue (rx c)) (io_credit io) (ctrl_ch m) (writer_ch m) of
           (res, ds, rc', ctrl', bulk') \<Rightarrow>
             let m1 = (update_cell (\<lambda>c. c\<lparr>rx := (rx c)\<lparr>queue := ds\<rparr>\<rparr>) (io_cell io) m)
                        \<lparr>ctrl_ch := ctrl', writer_ch := bulk'\<rparr>;
                 io1 = io\<lparr>io_credit := rc'\<rparr>
             in (case res of
                   None \<Rightarrow> (if tx_open c then Pending else Ready [], io1, m1)
                 | Some d \<Rightarrow>
                     let n = min (length d) remaining in
                     (Ready (take n d),
                      (if n < length d then io1\<lparr>read_buf := d, read_pos := n\<rparr> else io1), m1))))"

section \<open>Writing\<close>

text \<open>One poll of a stored future on the stream's window and the bulk plane.\<close>

fun poll_fut :: "u32 \<Rightarrow> write_fut \<Rightarrow> send_window \<Rightarrow> out_frame chan \<Rightarrow>
    (unit + nat) poll \<times> write_fut \<times> send_window \<times> out_frame chan" where
  "poll_fut sid (FutSend f n) w ch =
     (case chan_send f ch of
        Pending \<Rightarrow> (Pending, FutSend f n, w, ch)
      | Ready (Inl _) \<Rightarrow> (Ready (Inl ()), FutSend f n, w, ch)
      | Ready (Inr ch') \<Rightarrow> (Ready (Inr n), FutSend f n, w, ch'))"
| "poll_fut sid (FutAcquire data) w ch =
     (case acquire (length data) w of
        Pending \<Rightarrow> (Pending, FutAcquire data, w, ch)
      | Ready (Inl _) \<Rightarrow> (Ready (Inl ()), FutAcquire data, w, ch)
      | Ready (Inr (granted, w')) \<Rightarrow>
          let f = OutFrame sid Data (take granted data) in
          (case chan_send f ch of
             Pending \<Rightarrow> (Pending, FutSend f granted, w', ch)
           | Ready (Inl _) \<Rightarrow> (Ready (Inl ()), FutSend f granted, w', ch)
           | Ready (Inr ch') \<Rightarrow> (Ready (Inr granted), FutSend f granted, w', ch')))"

definition poll_stored_write :: "write_fut \<Rightarrow> mux_io \<Rightarrow> mux \<Rightarrow> nat io_result poll \<times> mux_io \<times> mux" where
  "poll_stored_write fut io m =
     (case poll_fut (io_id io) fut (win (cells m ! io_cell io)) (writer_ch m) of
        (res, fut', w, ch) \<Rightarrow>
          let m1 = update_cell (\<lambda>c. c\<lparr>win := w\<rparr>) (io_cell io) (m\<lparr>writer_ch := ch\<rparr>) in
          (case res of
             Ready (Inr n) \<Rightarrow> (Ready (Inr n), io\<lparr>write_fut := None\<rparr>, m1)
           | Ready (Inl _) \<Rightarrow> (Ready (Inl mux_broken), io\<lparr>write_fut := None\<rparr>, m1)
           | Pending \<Rightarrow> (Pending, io\<lparr>write_fut := Some fut'\<rparr>, m1)))"

definition poll_write :: "bytes \<Rightarrow> mux_io \<Rightarrow> mux \<Rightarrow> nat io_result poll \<times> mux_io \<times> mux" where
  "poll_write buf io m =
     (case write_fut io of
        Some fut \<Rightarrow> poll_stored_write fut io m
      | None \<Rightarrow>
          if \<not> alive m then (Ready (Inl mux_broken), io, m)
          else if buf = [] then (Ready (Inr 0), io, m)
          else
            let want = min (length buf) IO_WRITE_CHUNK in
            (case try_acquire want (win (cells m ! io_cell io)) of
               Inl _ \<Rightarrow> (Ready (Inl mux_broken), io, m)
             | Inr (n, w) \<Rightarrow>
                 if n = 0 then poll_stored_write (FutAcquire (take want buf)) io m
                 else
                   let m1 = update_cell (\<lambda>c. c\<lparr>win := w\<rparr>) (io_cell io) m;
                       f = OutFrame (io_id io) Data (take n buf)
                   in (case try_send f (writer_ch m) of
                         Inr ch \<Rightarrow> (Ready (Inr n), io, m1\<lparr>writer_ch := ch\<rparr>)
                       | Inl Full \<Rightarrow> poll_stored_write (FutSend f n) io m1
                       | Inl Closed \<Rightarrow> (Ready (Inl mux_broken), io, m1))))"

definition poll_flush :: "mux_io \<Rightarrow> mux \<Rightarrow> unit io_result poll \<times> mux_io \<times> mux" where
  "poll_flush io m =
     (case write_fut io of
        None \<Rightarrow> (Ready (Inr ()), io, m)
      | Some fut \<Rightarrow> (case poll_stored_write fut io m of
          (Ready (Inr _), io', m') \<Rightarrow> (Ready (Inr ()), io', m')
        | (Ready (Inl e), io', m') \<Rightarrow> (Ready (Inl e), io', m')
        | (Pending, io', m') \<Rightarrow> (Pending, io', m')))"

definition poll_close :: "mux_io \<Rightarrow> mux \<Rightarrow> unit io_result poll \<times> mux_io \<times> mux" where
  "poll_close io m =
     (if io_closed io then (Ready (Inr ()), io, m)
      else case chan_send (OutFrame (io_id io) Close []) (writer_ch m) of
        Pending \<Rightarrow> (Pending, io\<lparr>close_fut := True\<rparr>, m)
      | Ready (Inl _) \<Rightarrow> (Ready (Inr ()), io\<lparr>close_fut := False, io_closed := True\<rparr>, m)
      | Ready (Inr ch) \<Rightarrow> (Ready (Inr ()), io\<lparr>close_fut := False, io_closed := True\<rparr>, m\<lparr>writer_ch := ch\<rparr>))"

definition poll_shutdown :: "mux_io \<Rightarrow> mux \<Rightarrow> unit io_result poll \<times> mux_io \<times> mux" where
  "poll_shutdown io m =
     (case write_fut io of
        None \<Rightarrow> poll_close io m
      | Some fut \<Rightarrow> (case poll_stored_write fut io m of
          (Ready (Inr _), io', m') \<Rightarrow> poll_close io' m'
        | (Ready (Inl e), io', m') \<Rightarrow> (Ready (Inl e), io', m')
        | (Pending, io', m') \<Rightarrow> (Pending, io', m')))"

definition io_drop :: "mux_io \<Rightarrow> mux \<Rightarrow> mux" where
  "io_drop io m =
     drop_receiver (io_cell io) (if \<not> io_closed io \<and> alive m then close_on_drop (io_id io) m else m)"

section \<open>What is still to be read\<close>

definition unread_bytes :: "mux_io \<Rightarrow> mux \<Rightarrow> bytes" where
  "unread_bytes io m = drop (read_pos io) (read_buf io) @ concat (queue (rx (cells m ! io_cell io)))"

lemma io_pull_concat:
  assumes "io_pull q rc ctrl bulk = (res, ds, rc', ctrl', bulk')"
  shows "concat q = (case res of None \<Rightarrow> [] | Some d \<Rightarrow> d @ concat ds) \<and> (res = None \<longrightarrow> ds = []) \<and> res \<noteq> Some []"
  using assms
  by (induction q rc ctrl bulk rule: io_pull.induct) (auto split: prod.splits if_splits)

text \<open>
  Reading a stream through the adapter loses, repeats and reorders nothing: whatever the size of
  the caller's buffer, what a poll hands over is a prefix of the bytes not yet read and the rest
  stays unread; with room in the buffer, nothing is handed over only if nothing is unread, and then
  the poll reports the end of the stream exactly when the sender is gone.
\<close>

theorem poll_read_exact:
  assumes "io_cell io < length (cells m)" and "poll_read remaining io m = (res, io', m')"
  shows "case res of
      Ready bs \<Rightarrow> unread_bytes io m = bs @ unread_bytes io' m' \<and> length bs \<le> remaining \<and>
        (bs = [] \<and> 0 < remaining \<longrightarrow> unread_bytes io m = [] \<and> \<not> tx_open (cells m ! io_cell io))
    | Pending \<Rightarrow> unread_bytes io m = [] \<and> unread_bytes io' m' = [] \<and> tx_open (cells m ! io_cell io)"
proof -
  consider (none) "remaining = 0" | (tail) "remaining \<noteq> 0" "read_pos io < length (read_buf io)"
    | (pull) "remaining \<noteq> 0" "length (read_buf io) \<le> read_pos io" by fastforce
  then show ?thesis
  proof cases
    case none
    then show ?thesis using assms(2) by (auto simp: poll_read_def)
  next
    case tail
    then show ?thesis
      using assms(2) by (auto simp: poll_read_def Let_def unread_bytes_def min_def split: if_splits)
  next
    case pull
    obtain r ds rc' ctrl' bulk' where p:
      "io_pull (queue (rx (cells m ! io_cell io))) (io_credit io) (ctrl_ch m) (writer_ch m) = (r, ds, rc', ctrl', bulk')"
      by (metis prod_cases5)
    note c = io_pull_concat [OF p]
    show ?thesis
    proof (cases r)
      case None
      then show ?thesis using assms pull p c
        by (auto simp: poll_read_def Let_def unread_bytes_def cells_update_cell)
    next
      case (Some d)
      then show ?thesis using assms pull p c
        by (auto simp: poll_read_def Let_def unread_bytes_def cells_update_cell min_def split: if_splits)
    qed
  qed
qed

definition reading_io :: mux_io where
  "reading_io = \<lparr>io_id = 5, io_cell = 1, io_credit = None, read_buf = [1, 2, 3], read_pos = 1,
     write_fut = None, close_fut = False, io_closed = False\<rparr>"

theorem poll_read_exact_witness:
  "case fst (poll_read 1 reading_io two_streams) of
      Ready bs \<Rightarrow> bs = [2] \<and> unread_bytes reading_io two_streams = bs @ [3] \<and> length bs \<le> 1
    | Pending \<Rightarrow> False"
proof -
  have l: "io_cell reading_io < length (cells two_streams)"
    by (simp add: reading_io_def two_streams_defs)
  have p: "poll_read 1 reading_io two_streams = (Ready [2], reading_io\<lparr>read_pos := 2\<rparr>, two_streams)"
    by (simp add: poll_read_def reading_io_def Let_def)
  have "unread_bytes (reading_io\<lparr>read_pos := 2\<rparr>) two_streams = [3]"
    by (simp add: unread_bytes_def reading_io_def two_streams_defs channel_def)
  then show ?thesis using poll_read_exact [OF l p] p by simp
qed

section \<open>What a write promises\<close>

text \<open>A stored future belongs to a call with buffer \<open>buf\<close>: it carries a prefix of it.\<close>

definition fut_for :: "u32 \<Rightarrow> bytes \<Rightarrow> write_fut \<Rightarrow> bool" where
  "fut_for sid buf fut = (case fut of
      FutAcquire d \<Rightarrow> d \<noteq> [] \<and> prefix d buf
    | FutSend f n \<Rightarrow> 0 < n \<and> n \<le> length buf \<and> f = OutFrame sid Data (take n buf))"

text \<open>
  The outcome of a poll on the bulk plane: one Data frame with the first \<open>n\<close> bytes was queued and
  reported, nothing was queued and a future of the same buffer waits, or nothing was queued.
\<close>

definition write_outcome :: "u32 \<Rightarrow> bytes \<Rightarrow> out_frame list \<Rightarrow> nat io_result poll \<Rightarrow> mux_io \<Rightarrow> mux \<Rightarrow> bool" where
  "write_outcome sid buf q res io' m' = (case res of
      Ready (Inr n) \<Rightarrow> 0 < n \<and> n \<le> length buf \<and> queue (writer_ch m') = q @ [OutFrame sid Data (take n buf)]
        \<and> write_fut io' = None
    | Ready (Inl e) \<Rightarrow> queue (writer_ch m') = q \<and> kind e = BrokenPipe
    | Pending \<Rightarrow> queue (writer_ch m') = q \<and> (\<exists>fut. write_fut io' = Some fut \<and> fut_for sid buf fut))"

lemma prefix_take_take: "prefix d buf \<Longrightarrow> n \<le> length d \<Longrightarrow> take n d = take n buf"
  by (auto simp: prefix_def)

lemma poll_fut_outcome:
  assumes "fut_for sid buf fut" and "poll_fut sid fut w ch = (res, fut', w', ch')"
  shows "case res of
      Ready (Inr n) \<Rightarrow> 0 < n \<and> n \<le> length buf \<and> queue ch' = queue ch @ [OutFrame sid Data (take n buf)]
    | Ready (Inl _) \<Rightarrow> queue ch' = queue ch
    | Pending \<Rightarrow> queue ch' = queue ch \<and> fut_for sid buf fut'"
proof (cases fut)
  case (FutSend f n)
  then show ?thesis
    using assms by (auto simp: fut_for_def split: poll.splits sum.splits dest!: chan_send_Inr)
next
  case (FutAcquire d)
  have d: "d \<noteq> []" "prefix d buf" using assms(1) FutAcquire by (simp_all add: fut_for_def)
  show ?thesis
  proof (cases "acquire (length d) w")
    case (Ready r)
    show ?thesis
    proof (cases r)
      case (Inr p)
      obtain n w1 where p: "p = (n, w1)" by fastforce
      have n: "0 < n" "n \<le> length d" using acquire_Ready_pos Ready Inr p by blast+
      then have "take n d = take n buf" "n \<le> length buf"
        using d prefix_take_take prefix_length_le by fastforce+
      then show ?thesis
        using assms(2) FutAcquire Ready Inr p n
        by (auto simp: fut_for_def Let_def split: poll.splits sum.splits dest!: chan_send_Inr)
    qed (use assms FutAcquire Ready in auto)
  qed (use assms FutAcquire in auto)
qed

lemma poll_stored_write_outcome:
  assumes "fut_for (io_id io) buf fut" and "poll_stored_write fut io m = (res, io', m')"
  shows "write_outcome (io_id io) buf (queue (writer_ch m)) res io' m' \<and> io_id io' = io_id io \<and>
    io_closed io' = io_closed io"
proof -
  obtain r fut' w ch where p:
    "poll_fut (io_id io) fut (win (cells m ! io_cell io)) (writer_ch m) = (r, fut', w, ch)"
    by (metis prod_cases4)
  from poll_fut_outcome [OF assms(1) p] assms(2) p show ?thesis
    by (auto simp: poll_stored_write_def write_outcome_def mux_broken_def Let_def
        split: poll.splits sum.splits)
qed

text \<open>
  A write accounts for exactly what it reports. Polled any number of times with the same nonempty
  buffer, it queues nothing until it is ready; when it is ready with \<open>n\<close>, exactly one Data frame of
  this stream was queued, it carries the first \<open>n\<close> bytes of the buffer, and \<open>n\<close> is positive.
\<close>

theorem poll_write_exact:
  assumes "buf \<noteq> []" and "\<And>fut. write_fut io = Some fut \<Longrightarrow> fut_for (io_id io) buf fut"
    and "poll_write buf io m = (res, io', m')"
  shows "write_outcome (io_id io) buf (queue (writer_ch m)) res io' m'"
proof (cases "write_fut io")
  case (Some fut)
  then show ?thesis
    using poll_stored_write_outcome [OF assms(2)] assms(3) by (simp add: poll_write_def)
next
  case None
  let ?want = "min (length buf) IO_WRITE_CHUNK"
  let ?w = "win (cells m ! io_cell io)"
  have want: "take ?want buf \<noteq> []" using assms(1) by (simp add: IO_WRITE_CHUNK_def)
  show ?thesis
  proof (cases "alive m")
    case True
    show ?thesis
    proof (cases "try_acquire ?want ?w")
      case (Inl e)
      then show ?thesis
        using assms None True by (auto simp: poll_write_def write_outcome_def mux_broken_def Let_def)
    next
      case (Inr p)
      obtain n w1 where p: "p = (n, w1)" by fastforce
      show ?thesis
      proof (cases "n = 0")
        case True
        have "fut_for (io_id io) buf (FutAcquire (take ?want buf))"
          using want by (simp add: fut_for_def take_is_prefix)
        from poll_stored_write_outcome [OF this] show ?thesis
          using assms None \<open>alive m\<close> Inr p True by (simp add: poll_write_def Let_def)
      next
        case False
        then have "acquire ?want ?w = Ready (Inr (n, w1))" using Inr p by (simp add: acquire_def)
        then have n: "0 < n" "n \<le> length buf" using acquire_Ready_pos by fastforce+
        let ?f = "OutFrame (io_id io) Data (take n buf)"
        have fut: "fut_for (io_id io) buf (FutSend ?f n)" using n by (simp add: fut_for_def)
        let ?m = "update_cell (\<lambda>c. c\<lparr>win := w1\<rparr>) (io_cell io) m"
        have pw: "poll_write buf io m = (case try_send ?f (writer_ch m) of
             Inr ch \<Rightarrow> (Ready (Inr n), io, ?m\<lparr>writer_ch := ch\<rparr>)
           | Inl Full \<Rightarrow> poll_stored_write (FutSend ?f n) io ?m
           | Inl Closed \<Rightarrow> (Ready (Inl mux_broken), io, ?m))"
          using assms(1) None \<open>alive m\<close> Inr p False by (simp add: poll_write_def Let_def)
        show ?thesis
        proof (cases "try_send ?f (writer_ch m)")
          case (Inr ch)
          have q: "queue ch = queue (writer_ch m) @ [?f]" using try_send_Inr [OF Inr] by simp
          have "res = Ready (Inr n)" "io' = io" "m' = ?m\<lparr>writer_ch := ch\<rparr>"
            using pw assms(3) Inr by simp_all
          with q n None show ?thesis by (simp add: write_outcome_def)
        next
          case (Inl e)
          show ?thesis
          proof (cases e)
            case Full
            then have "poll_stored_write (FutSend ?f n) io ?m = (res, io', m')" using pw assms(3) Inl by simp
            from poll_stored_write_outcome [OF fut this] show ?thesis by simp
          next
            case Closed
            then have "res = Ready (Inl mux_broken)" "m' = ?m" using pw assms(3) Inl by simp_all
            then show ?thesis by (simp add: write_outcome_def mux_broken_def)
          qed
        qed
      qed
    qed
  qed (use assms None in \<open>auto simp: poll_write_def write_outcome_def mux_broken_def\<close>)
qed

theorem poll_write_exact_witness:
  "write_outcome 5 [8, 9] [] (fst (poll_write [8, 9] reading_io two_streams))
     (fst (snd (poll_write [8, 9] reading_io two_streams))) (snd (snd (poll_write [8, 9] reading_io two_streams)))"
proof -
  have "queue (writer_ch two_streams) = []" by (simp add: two_streams_defs channel_def)
  then show ?thesis
    using poll_write_exact [of "[8, 9]" reading_io two_streams] by (simp add: reading_io_def)
qed

text \<open>
  Closing never truncates: when a shutdown completes on an open queue, the Close frame is the last
  frame queued, and a Data frame still waiting to be queued when the shutdown began is queued right
  before it.
\<close>

theorem poll_shutdown_after_data:
  assumes "poll_shutdown io m = (Ready (Inr ()), io', m')" and "\<not> io_closed io" and "rx_open (writer_ch m)"
    and "\<And>fut. write_fut io = Some fut \<Longrightarrow> fut_for (io_id io) buf fut"
  shows "\<exists>fs. queue (writer_ch m') = queue (writer_ch m) @ fs @ [OutFrame (io_id io) Close []] \<and>
    (if write_fut io = None then fs = []
     else \<exists>n. 0 < n \<and> n \<le> length buf \<and> fs = [OutFrame (io_id io) Data (take n buf)])"
proof (cases "write_fut io")
  case None
  then show ?thesis
    using assms by (auto simp: poll_shutdown_def poll_close_def chan_send_def split: if_splits)
next
  case (Some fut)
  obtain res io1 m1 where p: "poll_stored_write fut io m = (res, io1, m1)" by (metis prod_cases3)
  note out = poll_stored_write_outcome [OF assms(4) [OF Some] p]
  obtain n where n: "res = Ready (Inr n)" and close: "poll_close io1 m1 = (Ready (Inr ()), io', m')"
    using assms(1) Some p by (auto simp: poll_shutdown_def split: poll.splits sum.splits)
  have "rx_open (writer_ch m1)"
    using p assms(3) n by (cases fut) (auto simp: poll_stored_write_def Let_def
        split: prod.splits poll.splits sum.splits dest!: chan_send_Inr)
  then have "queue (writer_ch m') = queue (writer_ch m1) @ [OutFrame (io_id io) Close []]"
    using close out assms(2) by (auto simp: poll_close_def chan_send_def split: if_splits)
  then show ?thesis using out n Some by (auto simp: write_outcome_def)
qed

definition closing_io :: mux_io where
  "closing_io = reading_io\<lparr>write_fut := Some (FutSend (OutFrame 5 Data [8]) 1)\<rparr>"

theorem poll_shutdown_after_data_witness:
  "\<exists>io' m' fs. poll_shutdown closing_io two_streams = (Ready (Inr ()), io', m') \<and>
     queue (writer_ch m') = [] @ fs @ [OutFrame 5 Close []] \<and> fs \<noteq> []"
proof -
  obtain io' m' where p: "poll_shutdown closing_io two_streams = (Ready (Inr ()), io', m')"
    by (simp add: poll_shutdown_def poll_stored_write_def poll_close_def closing_io_def reading_io_def
        two_streams_defs chan_send_def channel_def update_cell_def WRITER_CHANNEL_SIZE_def)
  have q: "queue (writer_ch two_streams) = []" "rx_open (writer_ch two_streams)"
    by (simp_all add: two_streams_defs channel_def)
  have f: "fut_for (io_id closing_io) [8] fut" if "write_fut closing_io = Some fut" for fut
    using that by (auto simp: closing_io_def reading_io_def fut_for_def)
  from poll_shutdown_after_data [OF p _ q(2) f] p q(1) show ?thesis
    by (auto simp: closing_io_def reading_io_def)
qed

end
