(* ===== verification/Mux_Pool.thy ===== *)
theory Mux_Pool
  imports Mux
begin

text \<open>
  The pool of parallel tunnels to one server, \<^verbatim>\<open>xr-proto/src/mux_pool.rs\<close>: slots with reconnection,
  the round-robin walk of \<^verbatim>\<open>open_stream\<close> with its failover, and the circuit breaker with the
  election of a prober. An \<^verbatim>\<open>open_stream\<close> call is a small state machine whose steps are the code
  between two points where another caller can run: the load and the compare-and-swap of the
  breaker, the slot lock, the connect, the open on a mux, the invalidation. Any number of callers
  interleave. What the network does is an argument of the step.
\<close>

section \<open>State\<close>

definition DEFAULT_POOL_SIZE :: nat where "DEFAULT_POOL_SIZE = 4"
definition MAX_CONSECUTIVE_TIMEOUTS :: u32 where "MAX_CONSECUTIVE_TIMEOUTS = 3"
definition SERVER_DOWN_COOLDOWN :: duration where "SERVER_DOWN_COOLDOWN = from_secs 5"
definition PROBE_LEASE :: duration where "PROBE_LEASE = from_secs 15"

text \<open>A reference to a multiplexer; \<open>mx_alive\<close> is its alive flag.\<close>

record mux_ref =
  mx_id :: nat
  mx_alive :: bool

text \<open>
  Milliseconds since \<open>created\<close> are natural numbers: the \<^verbatim>\<open>u64\<close> of the code holds more than 500
  million years. \<open>locked\<close> are the slot locks held across a connect, \<open>shut\<close> the multiplexers that
  were told to shut down.
\<close>

record mux_pool =
  slots :: "mux_ref option list"
  locked :: "bool list"
  timeout_counters :: "u32 list"
  next_slot :: nat
  usize :: usize_width
  down_until_ms :: nat
  created :: instant
  relay_health :: relay_window
  next_mux :: nat
  shut :: "nat list"

definition pool_new :: "usize_width \<Rightarrow> instant \<Rightarrow> nat \<Rightarrow> mux_pool" where
  "pool_new width now sz =
     (let n = (if sz = 0 then DEFAULT_POOL_SIZE else sz) in
      \<lparr>slots = replicate n None, locked = replicate n False, timeout_counters = replicate n 0,
       next_slot = 0, usize = width, down_until_ms = 0, created = now, relay_health = health_new now,
       next_mux = 0, shut = []\<rparr>)"

definition pool_size :: "mux_pool \<Rightarrow> nat" where
  "pool_size p = length (slots p)"

definition relay_degraded :: "instant \<Rightarrow> mux_pool \<Rightarrow> bool \<times> mux_pool" where
  "relay_degraded now p = (case degraded now (relay_health p) of (d, h) \<Rightarrow> (d, p\<lparr>relay_health := h\<rparr>))"

section \<open>The circuit breaker\<close>

definition now_ms :: "mux_pool \<Rightarrow> instant \<Rightarrow> nat" where
  "now_ms p now = as_millis (elapsed (created p) now)"

definition is_server_down :: "instant \<Rightarrow> mux_pool \<Rightarrow> bool" where
  "is_server_down now p \<longleftrightarrow> down_until_ms p \<noteq> 0 \<and> now_ms p now < down_until_ms p"

definition arm_breaker :: "instant \<Rightarrow> mux_pool \<Rightarrow> mux_pool" where
  "arm_breaker now p = p\<lparr>down_until_ms := now_ms p now + as_millis SERVER_DOWN_COOLDOWN\<rparr>"

definition clear_breaker :: "mux_pool \<Rightarrow> mux_pool" where
  "clear_breaker p = p\<lparr>down_until_ms := 0\<rparr>"

definition cooldown_error :: io_error where
  "cooldown_error = IoError Other ''mux pool: server in fail-open cooldown''"

section \<open>Slots\<close>

definition shut_slot :: "nat \<Rightarrow> mux_pool \<Rightarrow> mux_pool" where
  "shut_slot idx p = (case slots p ! idx of
      None \<Rightarrow> p
    | Some old \<Rightarrow> p\<lparr>slots := (slots p)[idx := None], shut := mx_id old # shut p\<rparr>)"

definition reset_counter :: "nat \<Rightarrow> mux_pool \<Rightarrow> mux_pool" where
  "reset_counter idx p = p\<lparr>timeout_counters := (timeout_counters p)[idx := 0]\<rparr>"

definition invalidate_slot :: "nat \<Rightarrow> mux_pool \<Rightarrow> mux_pool" where
  "invalidate_slot idx p = reset_counter idx (shut_slot idx p)"

text \<open>
  \<^verbatim>\<open>acquire_or_connect\<close> up to the connect, run with the slot's lock: the live mux, the error, or the
  decision to connect, for which the lock stays taken.
\<close>

datatype acquired = Live mux_ref | Refused io_error | MustConnect

definition acquire_slot :: "instant \<Rightarrow> nat \<Rightarrow> bool \<Rightarrow> mux_pool \<Rightarrow> acquired \<times> mux_pool" where
  "acquire_slot now idx bail_if_down p = (case slots p ! idx of
      Some m \<Rightarrow>
        if mx_alive m then (Live m, p)
        else let p1 = reset_counter idx (shut_slot idx p) in
          if bail_if_down \<and> is_server_down now p1 then (Refused cooldown_error, p1)
          else (MustConnect, p1\<lparr>locked := (locked p1)[idx := True]\<rparr>)
    | None \<Rightarrow>
        if bail_if_down \<and> is_server_down now p then (Refused cooldown_error, p)
        else (MustConnect, p\<lparr>locked := (locked p)[idx := True]\<rparr>))"

text \<open>The rest of it: the outcome of the connect and the handshake, and the lock is released.\<close>

definition finish_connect :: "nat \<Rightarrow> mux_caps option io_result \<Rightarrow> mux_pool \<Rightarrow> mux_ref io_result \<times> mux_pool" where
  "finish_connect idx outcome p =
     (let p1 = p\<lparr>locked := (locked p)[idx := False]\<rparr> in
      case outcome of
        Inl e \<Rightarrow> (Inl e, p1)
      | Inr None \<Rightarrow> (Inl (IoError ConnectionRefused ''server rejected mux handshake''), p1)
      | Inr (Some cps) \<Rightarrow>
          let m = \<lparr>mx_id = next_mux p1, mx_alive = True\<rparr> in
          (Inr m, p1\<lparr>slots := (slots p1)[idx := Some m], next_mux := next_mux p1 + 1\<rparr>))"

section \<open>Opening a stream\<close>

record walk =
  w_prober :: bool
  w_start :: nat
  w_i :: nat
  w_err :: "io_error option"

datatype caller =
    Start
  | GateCas nat                    \<comment> \<open>read the expired breaker, about to swap it\<close>
  | WalkTop walk
  | Locking walk
  | Connecting walk
  | OpeningOn walk mux_ref
  | Invalidating walk
  | Returned "mux_ref io_result"

datatype event =
    Go
  | LockWedged
  | ConnectOutcome "mux_caps option io_result"
  | OpenOutcome "unit io_result"

definition begin_walk :: "bool \<Rightarrow> mux_pool \<Rightarrow> caller \<times> mux_pool" where
  "begin_walk am_prober p =
     (WalkTop \<lparr>w_prober = am_prober, w_start = next_slot p mod pool_size p, w_i = 0, w_err = None\<rparr>,
      p\<lparr>next_slot := (next_slot p + 1) mod usize_modulus (usize p)\<rparr>)"

definition walk_idx :: "walk \<Rightarrow> mux_pool \<Rightarrow> nat" where
  "walk_idx w p = (w_start w + w_i w) mod pool_size p"

definition fail_next :: "walk \<Rightarrow> io_error \<Rightarrow> caller" where
  "fail_next w e = WalkTop (w\<lparr>w_i := w_i w + 1, w_err := Some e\<rparr>)"

text \<open>What the outcome of \<^verbatim>\<open>mux_open_stream\<close> on the slot's mux does.\<close>

definition opened_on :: "walk \<Rightarrow> mux_ref \<Rightarrow> unit io_result \<Rightarrow> mux_pool \<Rightarrow> caller \<times> mux_pool" where
  "opened_on w m outcome p =
     (let idx = walk_idx w p in
      case outcome of
        Inr _ \<Rightarrow> (Returned (Inr m), clear_breaker (reset_counter idx p))
      | Inl e \<Rightarrow>
          if kind e = BrokenPipe then (Invalidating (w\<lparr>w_err := Some e\<rparr>), p)
          else if kind e = TimedOut then
            let prev = timeout_counters p ! idx;
                p1 = p\<lparr>timeout_counters := (timeout_counters p)[idx := prev + 1]\<rparr>
            in if MAX_CONSECUTIVE_TIMEOUTS \<le> prev + 1 then (Invalidating (w\<lparr>w_err := Some e\<rparr>), p1)
               else (fail_next w e, p1)
          else (Returned (Inl e), p))"

text \<open>
  One step of a caller at time \<open>now\<close>; \<open>None\<close> when it cannot move: the lock is taken, the event is
  not one it waits for, or it has returned.
\<close>

fun open_step :: "event \<Rightarrow> instant \<Rightarrow> caller \<Rightarrow> mux_pool \<Rightarrow> (caller \<times> mux_pool) option" where
  "open_step Go now Start p =
     (if down_until_ms p \<noteq> 0 then
        if now_ms p now < down_until_ms p then Some (Returned (Inl cooldown_error), p)
        else Some (GateCas (down_until_ms p), p)
      else Some (begin_walk False p))"
| "open_step Go now (GateCas breaker) p =
     (if down_until_ms p = breaker
      then Some (begin_walk True (p\<lparr>down_until_ms := now_ms p now + as_millis PROBE_LEASE\<rparr>))
      else Some (Returned (Inl cooldown_error), p))"
| "open_step Go now (WalkTop w) p =
     (if pool_size p \<le> w_i w
      then Some (Returned (Inl (case w_err w of Some e \<Rightarrow> e | None \<Rightarrow> IoError Other ''no mux slots'')),
                 arm_breaker now p)
      else if \<not> w_prober w \<and> is_server_down now p then Some (Returned (Inl cooldown_error), p)
      else Some (Locking w, p))"
| "open_step LockWedged now (Locking w) p =
     Some (fail_next w (IoError WouldBlock ''mux slot lock wedged''), p)"
| "open_step Go now (Locking w) p =
     (if locked p ! walk_idx w p then None
      else case acquire_slot now (walk_idx w p) (\<not> w_prober w) p of
          (Live m, p') \<Rightarrow> Some (OpeningOn w m, p')
        | (Refused e, p') \<Rightarrow> Some (fail_next w e, p')
        | (MustConnect, p') \<Rightarrow> Some (Connecting w, p'))"
| "open_step (ConnectOutcome r) now (Connecting w) p =
     (case finish_connect (walk_idx w p) r p of
        (Inl e, p') \<Rightarrow> Some (fail_next w e, p')
      | (Inr m, p') \<Rightarrow> Some (OpeningOn w m, p'))"
| "open_step (OpenOutcome r) now (OpeningOn w m) p = Some (opened_on w m r p)"
| "open_step Go now (Invalidating w) p =
     (if locked p ! walk_idx w p then None
      else Some (WalkTop (w\<lparr>w_i := w_i w + 1\<rparr>), invalidate_slot (walk_idx w p) p))"
| "open_step _ now c p = None"

section \<open>The other operations\<close>

definition probe_fresh :: "mux_caps option io_result \<Rightarrow> mux_pool \<Rightarrow> unit io_result \<times> mux_pool" where
  "probe_fresh outcome p = (case outcome of
      Inl e \<Rightarrow> (Inl e, p)
    | Inr None \<Rightarrow> (Inl (IoError ConnectionRefused ''probe: server rejected mux handshake''), p)
    | Inr (Some _) \<Rightarrow> (Inr (), clear_breaker p))"

definition recycle :: "instant \<Rightarrow> mux_pool \<Rightarrow> mux_pool" where
  "recycle now p =
     (let p1 = clear_breaker (fold invalidate_slot [0..<pool_size p] p)
      in p1\<lparr>relay_health := health_reset now (relay_health p1)\<rparr>)"

text \<open>
  \<^verbatim>\<open>warmup\<close> connects every slot without the breaker check. The slots are handled here in the order
  in which their connects finish; \<open>outcomes\<close> lists the slot and what its connect yields.
\<close>

fun warmup_loop :: "(nat \<times> mux_caps option io_result) list \<Rightarrow> instant \<Rightarrow> bool \<Rightarrow> io_error option \<Rightarrow>
    mux_pool \<Rightarrow> unit io_result \<times> mux_pool" where
  "warmup_loop [] now any_ok last_err p =
     (if any_ok then Inr () else Inl (case last_err of Some e \<Rightarrow> e | None \<Rightarrow> IoError Other ''no mux slots''), p)"
| "warmup_loop ((idx, r) # rest) now any_ok last_err p =
     (case acquire_slot now idx False p of
        (Live _, p1) \<Rightarrow> warmup_loop rest now True last_err p1
      | (Refused e, p1) \<Rightarrow> warmup_loop rest now any_ok (Some e) p1
      | (MustConnect, p1) \<Rightarrow>
          (case finish_connect idx r p1 of
             (Inr _, p2) \<Rightarrow> warmup_loop rest now True last_err p2
           | (Inl e, p2) \<Rightarrow> warmup_loop rest now any_ok (Some e) p2))"

definition warmup :: "(nat \<times> mux_caps option io_result) list \<Rightarrow> instant \<Rightarrow> mux_pool \<Rightarrow> unit io_result \<times> mux_pool" where
  "warmup outcomes now p = warmup_loop outcomes now False None p"

section \<open>A caller makes progress\<close>

definition pool_ok :: "mux_pool \<Rightarrow> bool" where
  "pool_ok p \<longleftrightarrow> 0 < pool_size p \<and> length (locked p) = pool_size p \<and> length (timeout_counters p) = pool_size p"

lemma pool_ok_new: "pool_ok (pool_new w now n)"
  by (simp add: pool_ok_def pool_new_def pool_size_def Let_def DEFAULT_POOL_SIZE_def)

text \<open>In the middle of a round the slot is one of the pool's.\<close>

fun caller_ok :: "mux_pool \<Rightarrow> caller \<Rightarrow> bool" where
  "caller_ok p (Locking w) = (w_i w < pool_size p)"
| "caller_ok p (Connecting w) = (w_i w < pool_size p)"
| "caller_ok p (OpeningOn w m) = (w_i w < pool_size p)"
| "caller_ok p (Invalidating w) = (w_i w < pool_size p)"
| "caller_ok p _ = True"

fun caller_rank :: "nat \<Rightarrow> caller \<Rightarrow> nat" where
  "caller_rank n Start = 5 * n + 3"
| "caller_rank n (GateCas b) = 5 * n + 2"
| "caller_rank n (WalkTop w) = 5 * (n - w_i w) + 1"
| "caller_rank n (Locking w) = 5 * (n - w_i w)"
| "caller_rank n (Connecting w) = 5 * (n - w_i w) - 1"
| "caller_rank n (OpeningOn w m) = 5 * (n - w_i w) - 2"
| "caller_rank n (Invalidating w) = 5 * (n - w_i w) - 3"
| "caller_rank n (Returned r) = 0"

lemma pool_ops_sel [simp]:
  "pool_size (shut_slot i p) = pool_size p" "pool_size (reset_counter i p) = pool_size p"
  "pool_size (invalidate_slot i p) = pool_size p" "pool_size (arm_breaker now p) = pool_size p"
  "pool_size (clear_breaker p) = pool_size p"
  "created (shut_slot i p) = created p" "created (reset_counter i p) = created p"
  "created (invalidate_slot i p) = created p" "created (arm_breaker now p) = created p"
  "created (clear_breaker p) = created p"
  "down_until_ms (shut_slot i p) = down_until_ms p" "down_until_ms (reset_counter i p) = down_until_ms p"
  "down_until_ms (invalidate_slot i p) = down_until_ms p" "down_until_ms (clear_breaker p) = 0"
  "pool_ok (shut_slot i p) = pool_ok p" "pool_ok (reset_counter i p) = pool_ok p"
  "pool_ok (invalidate_slot i p) = pool_ok p" "pool_ok (arm_breaker now p) = pool_ok p"
  "pool_ok (clear_breaker p) = pool_ok p"
  by (simp_all add: shut_slot_def reset_counter_def invalidate_slot_def arm_breaker_def clear_breaker_def
      pool_size_def pool_ok_def split: option.splits)

lemma lock_sel [simp]:
  "pool_size (p\<lparr>locked := l\<rparr>) = pool_size p" "pool_ok (p\<lparr>locked := (locked p)[i := b]\<rparr>) = pool_ok p"
  "pool_size (p\<lparr>down_until_ms := d\<rparr>) = pool_size p" "pool_ok (p\<lparr>down_until_ms := d\<rparr>) = pool_ok p"
  "pool_size (p\<lparr>next_slot := n\<rparr>) = pool_size p" "pool_ok (p\<lparr>next_slot := n\<rparr>) = pool_ok p"
  "pool_size (p\<lparr>timeout_counters := cs\<rparr>) = pool_size p"
  "pool_ok (p\<lparr>timeout_counters := (timeout_counters p)[i := k]\<rparr>) = pool_ok p"
  by (simp_all add: pool_ok_def pool_size_def)

lemma acquire_slot_sel:
  assumes "acquire_slot now i b p = (a, p')"
  shows "pool_size p' = pool_size p \<and> created p' = created p \<and> down_until_ms p' = down_until_ms p \<and>
    pool_ok p' = pool_ok p"
  using assms by (auto simp: acquire_slot_def Let_def split: option.splits if_splits)

lemma finish_connect_sel:
  assumes "finish_connect i r p = (a, p')"
  shows "pool_size p' = pool_size p \<and> created p' = created p \<and> down_until_ms p' = down_until_ms p \<and>
    pool_ok p' = pool_ok p"
  using assms by (auto simp: finish_connect_def Let_def pool_size_def pool_ok_def
      split: option.splits sum.splits)

lemma begin_walk_sel:
  "begin_walk b p = (c, p') \<Longrightarrow> pool_size p' = pool_size p \<and> created p' = created p \<and>
     down_until_ms p' = down_until_ms p \<and> pool_ok p' = pool_ok p \<and>
     (\<exists>w. c = WalkTop w \<and> w_i w = 0 \<and> w_prober w = b)"
  by (auto simp: begin_walk_def)

lemma opened_on_sel:
  assumes "opened_on w m r p = (c, p')"
  shows "pool_size p' = pool_size p \<and> created p' = created p \<and>
     (down_until_ms p' = down_until_ms p \<or> down_until_ms p' = 0) \<and> pool_ok p' = pool_ok p"
  using assms by (auto simp: opened_on_def Let_def fail_next_def split: sum.splits if_splits)

text \<open>What a step can do to the breaker: leave it, clear it, or set it to a time in the future.\<close>

lemma open_step_sel:
  assumes "open_step ev now c p = Some (c', p')"
  shows "pool_size p' = pool_size p \<and> created p' = created p \<and> pool_ok p' = pool_ok p \<and>
    (down_until_ms p' = down_until_ms p \<or> down_until_ms p' = 0 \<or> now_ms p now < down_until_ms p')"
  using assms
proof (cases "(ev, now, c, p)" rule: open_step.cases)
  case (3 now w p)
  then show ?thesis
    using assms by (auto simp: arm_breaker_def SERVER_DOWN_COOLDOWN_def split: if_splits)
qed (auto simp: PROBE_LEASE_def split: if_splits prod.splits acquired.splits sum.splits
    dest!: begin_walk_sel acquire_slot_sel finish_connect_sel opened_on_sel)

lemma opened_on_rank:
  assumes "opened_on w m r p = (c, p')" and "w_i w < n" and "n = pool_size p"
  shows "caller_rank n c < 5 * (n - w_i w) - 2 \<and> caller_ok p' c"
  using assms by (auto simp: opened_on_def Let_def fail_next_def split: sum.splits if_splits)

lemma open_step_rank:
  assumes "open_step ev now c p = Some (c', p')" and "caller_ok p c" and n: "n = pool_size p"
  shows "caller_rank n c' < caller_rank n c \<and> caller_ok p' c'"
proof (cases c)
  case Start
  then show ?thesis using assms by (cases ev) (auto simp: begin_walk_def split: if_splits)
next
  case (GateCas b)
  then show ?thesis using assms by (cases ev) (auto simp: begin_walk_def split: if_splits)
next
  case (WalkTop w)
  then show ?thesis using assms by (cases ev) (auto split: if_splits)
next
  case (Locking w)
  have "pool_size p2 = n" if "acquire_slot now (walk_idx w p) b p = (a, p2)" for a b p2
    using acquire_slot_sel [OF that] n by simp
  then show ?thesis
    using assms Locking by (cases ev) (auto simp: fail_next_def split: if_splits prod.splits acquired.splits)
next
  case (Connecting w)
  have "pool_size p2 = n" if "finish_connect (walk_idx w p) r p = (a, p2)" for a r p2
    using finish_connect_sel [OF that] n by simp
  then show ?thesis
    using assms Connecting by (cases ev) (auto simp: fail_next_def split: prod.splits sum.splits)
next
  case (OpeningOn w m)
  then show ?thesis using assms opened_on_rank by (cases ev) auto
next
  case (Invalidating w)
  then show ?thesis using assms by (cases ev) (auto split: if_splits)
qed (use assms in \<open>cases ev; simp\<close>)

text \<open>
  What a caller waits for at each place: its turn, where it only looks at the pool; the lock of its slot, or the end of the patience with it;
  the outcome of the connect or of the stream's handshake, both of which run under a timeout.
\<close>

fun awaits :: "caller \<Rightarrow> event \<Rightarrow> mux_pool \<Rightarrow> bool" where
  "awaits (Locking w) ev p \<longleftrightarrow> ev = LockWedged \<or> ev = Go \<and> \<not> locked p ! walk_idx w p"
| "awaits (Connecting w) ev p \<longleftrightarrow> (case ev of ConnectOutcome r \<Rightarrow> True | _ \<Rightarrow> False)"
| "awaits (OpeningOn w m) ev p \<longleftrightarrow> (case ev of OpenOutcome r \<Rightarrow> True | _ \<Rightarrow> False)"
| "awaits (Invalidating w) ev p \<longleftrightarrow> ev = Go \<and> \<not> locked p ! walk_idx w p"
| "awaits (Returned r) ev p \<longleftrightarrow> False"
| "awaits _ ev p \<longleftrightarrow> ev = Go"

lemma open_step_awaits: "open_step ev now c p = None \<longleftrightarrow> \<not> awaits c ev p"
  by (cases c; cases ev) (auto split: prod.splits acquired.splits sum.splits)

text \<open>
  One caller among others: turn \<open>k\<close> is an event, the time, and the pool as everybody else has left it. A turn that is not what the caller
  waits for leaves it where it is.
\<close>

type_synonym turns = "nat \<Rightarrow> event \<times> instant \<times> mux_pool"

definition serves :: "turns \<Rightarrow> nat \<Rightarrow> caller \<Rightarrow> bool" where
  "serves turn k c \<longleftrightarrow> (case turn k of (ev, now, p) \<Rightarrow> awaits c ev p)"

primrec caller_at :: "turns \<Rightarrow> nat \<Rightarrow> caller" where
  "caller_at turn 0 = Start"
| "caller_at turn (Suc k) = (case turn k of (ev, now, p) \<Rightarrow>
     case open_step ev now (caller_at turn k) p of None \<Rightarrow> caller_at turn k | Some (c, _) \<Rightarrow> c)"

primrec served :: "turns \<Rightarrow> nat \<Rightarrow> nat" where
  "served turn 0 = 0"
| "served turn (Suc k) = served turn k + (if serves turn k (caller_at turn k) then 1 else 0)"

lemma caller_at_waits: "\<not> serves turn k (caller_at turn k) \<Longrightarrow> caller_at turn (Suc k) = caller_at turn k"
  using open_step_awaits [of "fst (turn k)" "fst (snd (turn k))" "caller_at turn k" "snd (snd (turn k))"] by (auto simp: serves_def split: prod.splits)

lemma caller_ok_size: "caller_ok p c \<Longrightarrow> pool_size p = pool_size p' \<Longrightarrow> caller_ok p' c"
  by (cases c) auto

lemma caller_at_served:
  assumes "\<forall>k. pool_size (snd (snd (turn k))) = n" and "serves turn k (caller_at turn k)" and "caller_ok p (caller_at turn k)" and "pool_size p = n"
  shows "caller_rank n (caller_at turn (Suc k)) < caller_rank n (caller_at turn k) \<and> caller_ok p (caller_at turn (Suc k))"
proof -
  obtain ev now q where t: "turn k = (ev, now, q)" by (cases "turn k")
  have n: "n = pool_size q" using assms(1) t by (metis snd_conv)
  have "open_step ev now (caller_at turn k) q \<noteq> None" using assms(2) open_step_awaits [of ev now] by (simp add: serves_def t)
  then obtain c q' where s: "open_step ev now (caller_at turn k) q = Some (c, q')" by auto
  have "caller_ok q (caller_at turn k)" using assms(3,4) n by (auto intro: caller_ok_size)
  from open_step_rank [OF s this n] have "caller_rank n c < caller_rank n (caller_at turn k)" "caller_ok q' c" by simp_all
  moreover have "pool_size q' = n" using open_step_sel [OF s] n by simp
  ultimately show ?thesis using s t assms(4) by (auto intro: caller_ok_size)
qed

lemma caller_at_budget:
  assumes "\<forall>k. pool_size (snd (snd (turn k))) = n" and "pool_size p = n"
  shows "served turn k + caller_rank n (caller_at turn k) \<le> 5 * n + 3 \<and> caller_ok p (caller_at turn k)"
proof (induction k)
  case (Suc k)
  show ?case
  proof (cases "serves turn k (caller_at turn k)")
    case True
    have "served turn (Suc k) = Suc (served turn k)" using True by simp
    then show ?thesis using caller_at_served [OF assms(1) True _ assms(2)] Suc by linarith
  next
    case False
    then have "served turn (Suc k) = served turn k" by simp
    then show ?thesis using Suc caller_at_waits [OF False] by presburger
  qed
qed simp

lemma caller_at_next:
  assumes "serves turn j (caller_at turn k)" and "k \<le> j"
  shows "\<exists>i. k \<le> i \<and> caller_at turn i = caller_at turn k \<and> serves turn i (caller_at turn i)"
  using assms(2,1)
proof (induction k rule: inc_induct)
  case (step i)
  show ?case
  proof (cases "serves turn i (caller_at turn i)")
    case False
    then have e: "caller_at turn (Suc i) = caller_at turn i" by (rule caller_at_waits)
    then obtain i' where "Suc i \<le> i'" "caller_at turn i' = caller_at turn (Suc i)" "serves turn i' (caller_at turn i')" using step by auto
    then show ?thesis using e by (intro exI [of _ i']) simp
  qed auto
qed auto

lemma caller_at_returns:
  assumes "\<forall>k. pool_size (snd (snd (turn k))) = n"
    and fair: "\<forall>k. (\<forall>r. caller_at turn k \<noteq> Returned r) \<longrightarrow> (\<exists>j \<ge> k. serves turn j (caller_at turn k))"
  shows "\<exists>k r. caller_at turn k = Returned r"
proof -
  define p where "p = snd (snd (turn 0))"
  have p: "pool_size p = n" using assms(1) by (simp add: p_def)
  have "\<exists>k' r. caller_at turn k' = Returned r" if "caller_rank n (caller_at turn k) = m" for m k
    using that
  proof (induction m arbitrary: k rule: less_induct)
    case (less m)
    show ?case
    proof (cases "\<exists>r. caller_at turn k = Returned r")
      case False
      then obtain j where "k \<le> j" "serves turn j (caller_at turn k)" using fair by blast
      then obtain i where i: "caller_at turn i = caller_at turn k" "serves turn i (caller_at turn i)" using caller_at_next by blast
      have "caller_rank n (caller_at turn (Suc i)) < m"
        using caller_at_served [OF assms(1) i(2) _ p] caller_at_budget [OF assms(1) p, of i] less.prems i(1) by simp
      then show ?thesis using less.IH by blast
    qed blast
  qed
  then show ?thesis by blast
qed

text \<open>
  C39. An \<^verbatim>\<open>open_stream\<close> call ends. Whatever the other callers make of the pool between its turns and whatever the network answers, as long as
  the thing it waits for always comes (its turn, the lock or the end of the wait for it, the outcome of a connect or a handshake that run under
  timeouts), the call returns; and on a pool of \<open>n\<close> slots it has moved at most \<open>5 n + 3\<close> times by then, however many turns it waited.
\<close>

theorem open_stream_returns:
  assumes "\<forall>k. pool_size (snd (snd (turn k))) = n"
    and "\<forall>k. (\<forall>r. caller_at turn k \<noteq> Returned r) \<longrightarrow> (\<exists>j \<ge> k. serves turn j (caller_at turn k))"
  shows "\<exists>k r. caller_at turn k = Returned r \<and> served turn k \<le> 5 * n + 3"
proof -
  obtain k r where "caller_at turn k = Returned r" using caller_at_returns [OF assms] by blast
  moreover have "served turn k \<le> 5 * n + 3" using caller_at_budget [OF assms(1), of "snd (snd (turn 0))" k] assms(1) by simp
  ultimately show ?thesis by blast
qed

text \<open>A pool of two slots, both of whose locks are held: each wait ends, and the call fails on its seventh turn.\<close>

theorem open_stream_returns_witness:
  "\<exists>k r. caller_at (\<lambda>j. (if j \<in> {2, 4} then LockWedged else Go, 0, (pool_new Usize64 0 2)\<lparr>locked := [True, True]\<rparr>)) k = Returned r \<and>
     served (\<lambda>j. (if j \<in> {2, 4} then LockWedged else Go, 0, (pool_new Usize64 0 2)\<lparr>locked := [True, True]\<rparr>)) k \<le> 13"
proof -
  define turn :: turns where "turn = (\<lambda>j. (if j \<in> {2, 4} then LockWedged else Go, 0, (pool_new Usize64 0 2)\<lparr>locked := [True, True]\<rparr>))"
  have size: "pool_size (snd (snd (turn k))) = 2" for k by (simp add: turn_def pool_new_def pool_size_def Let_def)
  note run = turn_def pool_new_def pool_size_def begin_walk_def fail_next_def is_server_down_def serves_def Let_def
  let ?w = "\<lambda>i e. \<lparr>w_prober = False, w_start = 0, w_i = i, w_err = e\<rparr>" and ?e = "IoError WouldBlock ''mux slot lock wedged''"
  have c1: "caller_at turn (Suc 0) = WalkTop (?w 0 None)" by (simp add: run)
  have c2: "caller_at turn (Suc (Suc 0)) = Locking (?w 0 None)" unfolding caller_at.simps(2) [of turn "Suc 0"] c1 by (simp add: run)
  have c3: "caller_at turn (Suc (Suc (Suc 0))) = WalkTop (?w 1 (Some ?e))" unfolding caller_at.simps(2) [of turn "Suc (Suc 0)"] c2 by (simp add: run)
  have c4: "caller_at turn (Suc (Suc (Suc (Suc 0)))) = Locking (?w 1 (Some ?e))" unfolding caller_at.simps(2) [of turn "Suc (Suc (Suc 0))"] c3 by (simp add: run)
  have c5: "caller_at turn (Suc (Suc (Suc (Suc (Suc 0))))) = WalkTop (?w 2 (Some ?e))" unfolding caller_at.simps(2) [of turn "Suc (Suc (Suc (Suc 0)))"] c4 by (simp add: run)
  have c6: "caller_at turn (Suc (Suc (Suc (Suc (Suc (Suc 0)))))) = Returned (Inl ?e)" unfolding caller_at.simps(2) [of turn "Suc (Suc (Suc (Suc (Suc 0))))"] c5 by (simp add: run)
  have end6: "\<exists>r. caller_at turn (6 + k) = Returned r" for k by (induction k) (use c6 in \<open>auto simp: numeral_eq_Suc split: prod.splits\<close>)
  have "serves turn k (caller_at turn k)" if "k < 6" for k
  proof -
    have "k \<in> {0, Suc 0, Suc (Suc 0), Suc (Suc (Suc 0)), Suc (Suc (Suc (Suc 0))), Suc (Suc (Suc (Suc (Suc 0))))}" using that by auto
    then show ?thesis using c1 c2 c3 c4 c5 by (elim insertE) (simp_all add: run del: caller_at.simps(2))
  qed
  then have "\<exists>j \<ge> k. serves turn j (caller_at turn k)" if "\<forall>r. caller_at turn k \<noteq> Returned r" for k
    using that end6 [of "k - 6"] by (cases "k < 6") auto
  then show ?thesis using open_stream_returns [of turn 2] size unfolding turn_def by auto
qed

section \<open>Many callers on one pool\<close>

record pool_sys =
  the_pool :: mux_pool
  callers :: "caller list"
  clock :: instant

definition pool_init :: "pool_sys \<Rightarrow> bool" where
  "pool_init s \<longleftrightarrow> (\<exists>w n now. s = \<lparr>the_pool = pool_new w now n, callers = [], clock = now\<rparr>)"

definition mux_dies :: "nat \<Rightarrow> mux_pool \<Rightarrow> mux_pool" where
  "mux_dies k p = p\<lparr>slots := map (map_option (\<lambda>m. if mx_id m = k then m\<lparr>mx_alive := False\<rparr> else m)) (slots p)\<rparr>"

inductive pool_step :: "pool_sys \<Rightarrow> pool_sys \<Rightarrow> bool" where
  arrive: "pool_step s (s\<lparr>callers := callers s @ [Start]\<rparr>)"
| move: "k < length (callers s) \<Longrightarrow> clock s \<le> now \<Longrightarrow> open_step ev now (callers s ! k) (the_pool s) = Some (c, p) \<Longrightarrow>
    pool_step s (s\<lparr>the_pool := p, callers := (callers s)[k := c], clock := now\<rparr>)"
| dies: "pool_step s (s\<lparr>the_pool := mux_dies k (the_pool s)\<rparr>)"
| probe: "pool_step s (s\<lparr>the_pool := snd (probe_fresh outcome (the_pool s))\<rparr>)"
| recycled: "clock s \<le> now \<Longrightarrow> pool_step s (s\<lparr>the_pool := recycle now (the_pool s), clock := now\<rparr>)"
| warmed: "clock s \<le> now \<Longrightarrow> pool_step s (s\<lparr>the_pool := snd (warmup outcomes now (the_pool s)), clock := now\<rparr>)"

lemma probe_fresh_sel:
  "created (snd (probe_fresh r p)) = created p"
  "down_until_ms (snd (probe_fresh r p)) = down_until_ms p \<or> down_until_ms (snd (probe_fresh r p)) = 0"
  by (auto simp: probe_fresh_def split: sum.splits option.splits)

lemma fold_invalidate_sel:
  "created (fold invalidate_slot is p) = created p"
  by (induction "is" arbitrary: p) simp_all

lemma recycle_sel: "created (recycle now p) = created p" "down_until_ms (recycle now p) = 0"
  by (simp_all add: recycle_def Let_def fold_invalidate_sel)

lemma warmup_loop_sel:
  "created (snd (warmup_loop rs now ok e p)) = created p \<and>
   down_until_ms (snd (warmup_loop rs now ok e p)) = down_until_ms p"
  by (induction rs now ok e p rule: warmup_loop.induct)
    (auto split: prod.splits acquired.splits sum.splits dest!: acquire_slot_sel finish_connect_sel)

text \<open>The breaker's moves in one step of the system, and the clock.\<close>

lemma pool_step_breaker:
  assumes "pool_step s t"
  shows "created (the_pool t) = created (the_pool s) \<and> clock s \<le> clock t \<and>
    (down_until_ms (the_pool t) = down_until_ms (the_pool s) \<or> down_until_ms (the_pool t) = 0 \<or>
     now_ms (the_pool t) (clock t) < down_until_ms (the_pool t))"
  using assms
proof cases
  case (move k now ev c p)
  then show ?thesis using open_step_sel [OF move(4)] by (auto simp: now_ms_def)
next
  case (probe outcome)
  then show ?thesis using probe_fresh_sel [of outcome "the_pool s"] by auto
qed (auto simp: mux_dies_def recycle_sel warmup_def warmup_loop_sel)

text \<open>A caller that read the breaker read a deadline that has passed.\<close>

definition gates_ok :: "pool_sys \<Rightarrow> bool" where
  "gates_ok s \<longleftrightarrow> created (the_pool s) \<le> clock s \<and>
     (\<forall>b. GateCas b \<in> set (callers s) \<longrightarrow> b \<noteq> 0 \<and> b \<le> now_ms (the_pool s) (clock s))"

lemma now_ms_mono: "created p = created q \<Longrightarrow> t \<le> u \<Longrightarrow> now_ms p t \<le> now_ms q u"
  by (simp add: now_ms_def div_le_mono diff_le_mono)

lemma open_step_gate:
  assumes "open_step ev now c p = Some (GateCas b, p')"
  shows "b \<noteq> 0 \<and> b \<le> now_ms p now"
  using assms
  by (cases c; cases ev) (auto simp: begin_walk_def fail_next_def opened_on_def Let_def
      split: if_splits prod.splits acquired.splits sum.splits)

lemma gates_ok_step:
  assumes "gates_ok s" and "pool_step s t"
  shows "gates_ok t"
proof -
  note br = pool_step_breaker [OF assms(2)]
  have mono: "now_ms (the_pool s) (clock s) \<le> now_ms (the_pool t) (clock t)"
    using br by (intro now_ms_mono) simp_all
  have "b \<noteq> 0 \<and> b \<le> now_ms (the_pool t) (clock t)" if b: "GateCas b \<in> set (callers t)" for b
  proof (cases "GateCas b \<in> set (callers s)")
    case True
    then show ?thesis using assms(1) mono by (auto simp: gates_ok_def)
  next
    case False
    from assms(2) show ?thesis
    proof cases
      case (move k now ev c p)
      with b False have "c = GateCas b" using set_update_subset_insert by fastforce
      then show ?thesis
        using open_step_gate [of ev now "callers s ! k" "the_pool s" b p] move open_step_sel [OF move(4)]
        by (simp add: now_ms_def)
    qed (use b False in auto)
  qed
  then show ?thesis using assms(1) br by (auto simp: gates_ok_def)
qed

lemma gates_ok_init: "pool_init s \<Longrightarrow> gates_ok s"
  by (auto simp: pool_init_def gates_ok_def pool_new_def Let_def)

interpretation pool_sys: transition_system pool_init pool_step gates_ok
  by unfold_locales (blast intro: gates_ok_init gates_ok_step)+

text \<open>After an election at millisecond \<open>T\<close> the breaker never again holds a deadline of \<open>T\<close> or before.\<close>

definition barred :: "nat \<Rightarrow> pool_sys \<Rightarrow> bool" where
  "barred T s \<longleftrightarrow> T \<le> now_ms (the_pool s) (clock s) \<and>
     (down_until_ms (the_pool s) = 0 \<or> T < down_until_ms (the_pool s))"

lemma barred_step: "barred T s \<Longrightarrow> pool_step s t \<Longrightarrow> barred T t"
  using pool_step_breaker [of s t] now_ms_mono [of "the_pool s" "the_pool t" "clock s" "clock t"]
  by (auto simp: barred_def)

lemma barred_steps: "pool_step\<^sup>*\<^sup>* s t \<Longrightarrow> barred T s \<Longrightarrow> barred T t"
  by (induction rule: rtranclp_induct) (auto intro: barred_step)

text \<open>
  One expiry elects one prober: when a caller wins the swap of an expired breaker, every other caller
  that had read an expired breaker by then loses its swap, however much later it runs and whatever
  happened to the breaker in between, and returns the fast error.
\<close>

theorem probe_election_unique:
  assumes "reach pool_init pool_step s"
    and "j < length (callers s)" and "callers s ! j = GateCas b" and "down_until_ms (the_pool s) = b"
    and "clock s \<le> now" and "open_step Go now (callers s ! j) (the_pool s) = Some (c, p)"
    and "pool_step\<^sup>*\<^sup>* (s\<lparr>the_pool := p, callers := (callers s)[j := c], clock := now\<rparr>) t"
    and "GateCas b' \<in> set (callers s)"
  shows "open_step Go later (GateCas b') (the_pool t) = Some (Returned (Inl cooldown_error), the_pool t)"
proof -
  let ?s1 = "s\<lparr>the_pool := p, callers := (callers s)[j := c], clock := now\<rparr>"
  have g: "gates_ok s" using assms(1) by (rule pool_sys.reach_inv)
  then have b': "b' \<noteq> 0" "b' \<le> now_ms (the_pool s) (clock s)" using assms(8) by (auto simp: gates_ok_def)
  have p: "created p = created (the_pool s)" "down_until_ms p = now_ms (the_pool s) now + 15000"
    using assms(3,4,6) by (auto simp: PROBE_LEASE_def begin_walk_def)
  then have "barred (now_ms (the_pool s) now) ?s1" by (simp add: barred_def now_ms_def)
  with assms(7) have "barred (now_ms (the_pool s) now) t" by (rule barred_steps)
  moreover have "now_ms (the_pool s) (clock s) \<le> now_ms (the_pool s) now"
    using assms(5) by (intro now_ms_mono) simp_all
  ultimately have "down_until_ms (the_pool t) \<noteq> b'" using b' by (auto simp: barred_def)
  then show ?thesis by simp
qed

section \<open>Concrete runs\<close>

fun pool_run :: "(nat option \<times> event \<times> instant) list \<Rightarrow> pool_sys \<Rightarrow> pool_sys option" where
  "pool_run [] s = Some s"
| "pool_run ((None, ev, now) # rest) s = pool_run rest (s\<lparr>callers := callers s @ [Start]\<rparr>)"
| "pool_run ((Some k, ev, now) # rest) s =
     (if k < length (callers s) \<and> clock s \<le> now then
        (case open_step ev now (callers s ! k) (the_pool s) of
           None \<Rightarrow> None
         | Some (c, p) \<Rightarrow> pool_run rest (s\<lparr>the_pool := p, callers := (callers s)[k := c], clock := now\<rparr>))
      else None)"

lemma pool_run_steps: "pool_run tr s = Some t \<Longrightarrow> pool_step\<^sup>*\<^sup>* s t"
proof (induction tr s rule: pool_run.induct)
  case (2 ev now rest s)
  then show ?case by (auto intro: converse_rtranclp_into_rtranclp pool_step.arrive)
next
  case (3 k ev now rest s)
  then obtain c p where st: "k < length (callers s)" "clock s \<le> now"
      "open_step ev now (callers s ! k) (the_pool s) = Some (c, p)"
    by (auto split: if_splits option.splits)
  let ?s = "s\<lparr>the_pool := p, callers := (callers s)[k := c], clock := now\<rparr>"
  have "pool_step s ?s" using st by (rule pool_step.move)
  moreover have "pool_step\<^sup>*\<^sup>* ?s t" using 3 st by simp
  ultimately show ?case by (rule converse_rtranclp_into_rtranclp)
qed simp

lemma reach_steps: "reach init step s \<Longrightarrow> step\<^sup>*\<^sup>* s t \<Longrightarrow> reach init step t"
  by (rotate_tac, induction rule: rtranclp_induct) (auto intro: reach_step)

lemma pool_run_reach:
  "pool_run tr \<lparr>the_pool = pool_new w 0 n, callers = [], clock = 0\<rparr> = Some t \<Longrightarrow> reach pool_init pool_step t"
  by (rule reach_steps [OF reach_init pool_run_steps]) (auto simp: pool_init_def)

fun probing :: "caller \<Rightarrow> bool" where
  "probing (WalkTop w) = w_prober w"
| "probing (Locking w) = w_prober w"
| "probing (Connecting w) = w_prober w"
| "probing (OpeningOn w m) = w_prober w"
| "probing (Invalidating w) = w_prober w"
| "probing _ = False"

definition ack_timeout :: io_error where
  "ack_timeout = IoError TimedOut ''mux connect ack timeout''"

text \<open>
  Callers 0 and 1 open on the only slot; caller 1 fails and arms the breaker; caller 2 is elected
  after the cooldown; caller 0, started before the breaker was armed, fails and arms it again.
\<close>

definition shortened_lease :: "(nat option \<times> event \<times> instant) list" where
  "shortened_lease =
     [(None, Go, 0), (Some 0, Go, 0), (Some 0, Go, 0), (Some 0, Go, 0),
      (Some 0, ConnectOutcome (Inr (Some caps_LOCAL)), 0),
      (None, Go, 0), (Some 1, Go, 0), (Some 1, Go, 0), (Some 1, Go, 0),
      (Some 1, OpenOutcome (Inl ack_timeout), from_secs 1), (Some 1, Go, from_secs 1),
      (None, Go, 0), (Some 2, Go, from_secs 6), (Some 2, Go, from_secs 6), (Some 2, Go, from_secs 6),
      (Some 2, Go, from_secs 6),
      (Some 0, OpenOutcome (Inl ack_timeout), from_secs 10), (Some 0, Go, from_secs 10),
      (None, Go, 0), (Some 3, Go, from_secs 15), (Some 3, Go, from_secs 15)]"

text \<open>
  The lease does not keep a second prober away: a caller that entered its walk before the breaker
  was armed overwrites the prober's 15 s lease with a 5 s cooldown when its own walk fails, and the
  next caller is elected while the first prober is still walking.
\<close>

theorem two_probers_at_once:
  "\<exists>s. reach pool_init pool_step s \<and> 2 \<le> length (filter probing (callers s)) \<and> clock s < from_secs 6 + PROBE_LEASE"
proof -
  obtain s where s: "pool_run shortened_lease \<lparr>the_pool = pool_new Usize64 0 1, callers = [], clock = 0\<rparr> = Some s"
    and "2 \<le> length (filter probing (callers s))" "clock s < from_secs 6 + PROBE_LEASE"
    by (simp add: shortened_lease_def pool_new_def begin_walk_def now_ms_def is_server_down_def walk_idx_def
        pool_size_def acquire_slot_def finish_connect_def opened_on_def arm_breaker_def fail_next_def
        SERVER_DOWN_COOLDOWN_def PROBE_LEASE_def MAX_CONSECUTIVE_TIMEOUTS_def ack_timeout_def Let_def word_le_nat_alt)
  with pool_run_reach [OF s] show ?thesis by blast
qed

text \<open>Caller 0 fails and arms the breaker; callers 1 and 2 both read it after it expired.\<close>

definition two_at_the_gate :: "(nat option \<times> event \<times> instant) list" where
  "two_at_the_gate =
     [(None, Go, 0), (Some 0, Go, 0), (Some 0, Go, 0), (Some 0, Go, 0),
      (Some 0, ConnectOutcome (Inl ack_timeout), from_secs 1), (Some 0, Go, from_secs 1),
      (None, Go, 0), (None, Go, 0), (Some 1, Go, from_secs 6), (Some 2, Go, from_secs 6)]"

theorem probe_election_unique_witness:
  "\<exists>s p. reach pool_init pool_step s \<and> callers s ! 1 = GateCas 6000 \<and> callers s ! 2 = GateCas 6000 \<and>
     open_step Go (from_secs 6) (callers s ! 1) (the_pool s) = Some (begin_walk True ((the_pool s)\<lparr>down_until_ms := 21000\<rparr>)) \<and>
     snd (begin_walk True ((the_pool s)\<lparr>down_until_ms := 21000\<rparr>)) = p \<and>
     open_step Go (from_secs 7) (GateCas 6000) p = Some (Returned (Inl cooldown_error), p)"
proof -
  obtain s where s: "pool_run two_at_the_gate \<lparr>the_pool = pool_new Usize64 0 1, callers = [], clock = 0\<rparr> = Some s"
    and c: "callers s = [Returned (Inl ack_timeout), GateCas 6000, GateCas 6000]"
      "down_until_ms (the_pool s) = 6000" "clock s = from_secs 6" "created (the_pool s) = 0"
    by (simp add: two_at_the_gate_def pool_new_def begin_walk_def now_ms_def is_server_down_def walk_idx_def
        pool_size_def acquire_slot_def finish_connect_def arm_breaker_def fail_next_def
        SERVER_DOWN_COOLDOWN_def ack_timeout_def Let_def)
  let ?p0 = "(the_pool s)\<lparr>down_until_ms := 21000\<rparr>"
  obtain w p where w: "begin_walk True ?p0 = (w, p)" by fastforce
  have st: "open_step Go (from_secs 6) (callers s ! 1) (the_pool s) = Some (w, p)"
    using c w by (simp add: now_ms_def PROBE_LEASE_def)
  have "open_step Go (from_secs 7) (GateCas 6000) p = Some (Returned (Inl cooldown_error), p)"
    using probe_election_unique [OF pool_run_reach [OF s] _ _ _ _ st rtranclp.rtrancl_refl] c by simp
  with pool_run_reach [OF s] c st w show ?thesis by auto
qed

end
