(* ===== verification/Rust_Str.thy ===== *)
theory Rust_Str
  imports XR_Prelude
begin

text \<open>
  What the components use of Rust's \<^verbatim>\<open>str\<close>, over strings that hold UTF-8 bytes: case conversion,
  \<^verbatim>\<open>trim\<close>, \<^verbatim>\<open>split_once\<close>, \<^verbatim>\<open>split\<close>, \<^verbatim>\<open>contains\<close>, \<^verbatim>\<open>join\<close>, decimal printing, and the
  \<^verbatim>\<open>FromStr\<close> parsers of \<^verbatim>\<open>u32\<close>, \<^verbatim>\<open>Ipv4Addr\<close> and \<^verbatim>\<open>Ipv6Addr\<close> of the standard library.
\<close>

section \<open>Characters and case\<close>

abbreviation code_of :: "char \<Rightarrow> nat" where
  "code_of c \<equiv> of_char c"

definition ascii_lower :: "char \<Rightarrow> char" where
  "ascii_lower c = (let n = of_char c :: nat in if 65 \<le> n \<and> n \<le> 90 then char_of (n + 32) else c)"

definition ascii_upper :: "char \<Rightarrow> char" where
  "ascii_upper c = (let n = of_char c :: nat in if 97 \<le> n \<and> n \<le> 122 then char_of (n - 32) else c)"

definition is_ascii :: "string \<Rightarrow> bool" where
  "is_ascii s \<longleftrightarrow> list_all (\<lambda>c. (of_char c :: nat) < 128) s"

text \<open>
  Case conversion of text beyond ASCII follows the Unicode tables, an argument of the functions
  that need it.
\<close>

definition to_lowercase :: "(string \<Rightarrow> string) \<Rightarrow> string \<Rightarrow> string" where
  "to_lowercase unicode s = (if is_ascii s then map ascii_lower s else unicode s)"

definition to_uppercase :: "(string \<Rightarrow> string) \<Rightarrow> string \<Rightarrow> string" where
  "to_uppercase unicode s = (if is_ascii s then map ascii_upper s else unicode s)"

definition to_ascii_lowercase :: "string \<Rightarrow> string" where
  "to_ascii_lowercase s = map ascii_lower s"

definition eq_ignore_ascii_case :: "string \<Rightarrow> string \<Rightarrow> bool" where
  "eq_ignore_ascii_case s t \<longleftrightarrow> map ascii_lower s = map ascii_lower t"

definition is_ascii_digit :: "char \<Rightarrow> bool" where
  "is_ascii_digit c \<longleftrightarrow> 48 \<le> code_of c \<and> code_of c \<le> 57"

definition is_ascii_alphanumeric :: "char \<Rightarrow> bool" where
  "is_ascii_alphanumeric c \<longleftrightarrow> is_ascii_digit c \<or> 65 \<le> code_of c \<and> code_of c \<le> 90 \<or> 97 \<le> code_of c \<and> code_of c \<le> 122"

lemma ascii_lower_idem [simp]: "ascii_lower (ascii_lower c) = ascii_lower c"
  by (auto simp: ascii_lower_def Let_def of_char_of)

lemma ascii_lower_ascii [simp]: "code_of (ascii_lower c) < 128 \<longleftrightarrow> code_of c < 128"
  by (auto simp: ascii_lower_def Let_def of_char_of)

lemma is_ascii_lower [simp]: "is_ascii (map ascii_lower s) \<longleftrightarrow> is_ascii s"
  by (simp add: is_ascii_def list_all_iff)

lemma to_lowercase_ascii: "is_ascii s \<Longrightarrow> to_lowercase u s = map ascii_lower s"
  by (simp add: to_lowercase_def)

lemma to_lowercase_idem: "is_ascii s \<Longrightarrow> to_lowercase u (to_lowercase u s) = to_lowercase u s"
  by (simp add: to_lowercase_def o_def)

section \<open>Trimming\<close>

text \<open>The UTF-8 encodings of the characters with the Unicode property \<^verbatim>\<open>White_Space\<close>.\<close>

definition utf8_seq :: "nat list \<Rightarrow> string" where
  "utf8_seq ns = map char_of ns"

definition ascii_spaces :: "string list" where
  "ascii_spaces = map (\<lambda>n. utf8_seq [n]) [9, 10, 11, 12, 13, 32]"

definition white_spaces :: "string list" where
  "white_spaces = ascii_spaces @ [utf8_seq [0xC2, 0x85], utf8_seq [0xC2, 0xA0], utf8_seq [0xE1, 0x9A, 0x80]]
     @ map (\<lambda>n. utf8_seq [0xE2, 0x80, 0x80 + n]) [0, 1, 2, 3, 4, 5, 6, 7, 8, 9, 10, 0x28, 0x29, 0x2F]
     @ [utf8_seq [0xE2, 0x81, 0x9F], utf8_seq [0xE3, 0x80, 0x80]]"

text \<open>Drop leading members of \<open>ws\<close>; at most one of them is a prefix of a string.\<close>

function drop_leading :: "string list \<Rightarrow> string \<Rightarrow> string" where
  "drop_leading ws s = (case find (\<lambda>w. w \<noteq> [] \<and> prefix w s) ws of
      None \<Rightarrow> s
    | Some w \<Rightarrow> drop_leading ws (drop (length w) s))"
  by pat_completeness auto
termination
  by (relation "measure (\<lambda>(ws, s). length s)") (auto simp: find_Some_iff prefix_def)

declare drop_leading.simps [simp del]

definition trim_start :: "string \<Rightarrow> string" where
  "trim_start s = drop_leading white_spaces s"

definition trim_end :: "string \<Rightarrow> string" where
  "trim_end s = rev (drop_leading (map rev white_spaces) (rev s))"

definition trim :: "string \<Rightarrow> string" where
  "trim s = trim_end (trim_start s)"

section \<open>Searching and splitting\<close>

abbreviation starts_with :: "string \<Rightarrow> string \<Rightarrow> bool" where
  "starts_with s p \<equiv> prefix p s"

abbreviation ends_with :: "string \<Rightarrow> string \<Rightarrow> bool" where
  "ends_with s p \<equiv> suffix p s"

definition strip_prefix :: "string \<Rightarrow> string \<Rightarrow> string option" where
  "strip_prefix p s = (if prefix p s then Some (drop (length p) s) else None)"

definition contains_str :: "string \<Rightarrow> string \<Rightarrow> bool" where
  "contains_str s p \<longleftrightarrow> list_ex (prefix p) (suffixes s)"

definition split_once :: "char \<Rightarrow> string \<Rightarrow> (string \<times> string) option" where
  "split_once c s = (if c \<in> set s
     then Some (takeWhile (\<lambda>x. x \<noteq> c) s, tl (dropWhile (\<lambda>x. x \<noteq> c) s)) else None)"

fun split_on :: "char \<Rightarrow> string \<Rightarrow> string list" where
  "split_on c [] = [[]]"
| "split_on c (x # xs) = (if x = c then [] # split_on c xs
     else (case split_on c xs of w # ws \<Rightarrow> (x # w) # ws | [] \<Rightarrow> [[x]]))"

fun join :: "string \<Rightarrow> string list \<Rightarrow> string" where
  "join sep [] = []"
| "join sep [s] = s"
| "join sep (s # ss) = s @ sep @ join sep ss"

section \<open>Numbers\<close>

definition digit_char :: "nat \<Rightarrow> char" where
  "digit_char d = char_of (48 + d)"

fun dec_string :: "nat \<Rightarrow> string" where
  "dec_string n = (if n < 10 then [digit_char n] else dec_string (n div 10) @ [digit_char (n mod 10)])"

declare dec_string.simps [simp del]

text \<open>\<^verbatim>\<open>char::to_digit\<close> for the radixes 10 and 16.\<close>

definition to_digit :: "int \<Rightarrow> char \<Rightarrow> int option" where
  "to_digit radix c =
     (let n = of_char c :: int;
          d = (if 48 \<le> n \<and> n \<le> 57 then n - 48
               else if 97 \<le> n \<and> n \<le> 122 then n - 87
               else if 65 \<le> n \<and> n \<le> 90 then n - 55 else 99)
      in if d < radix then Some d else None)"

definition digits_value :: "int \<Rightarrow> int list \<Rightarrow> int" where
  "digits_value radix ds = foldl (\<lambda>acc d. acc * radix + d) 0 ds"

text \<open>\<^verbatim>\<open>str::parse::<u32>\<close>: an optional plus sign, at least one digit, no overflow.\<close>

definition parse_u32 :: "string \<Rightarrow> int option" where
  "parse_u32 s =
     (let t = (case s of c # rest \<Rightarrow> if c = CHR ''+'' \<and> rest \<noteq> [] then rest else s | [] \<Rightarrow> s) in
      if t = [] \<or> \<not> list_all (\<lambda>c. to_digit 10 c \<noteq> None) t then None
      else let v = digits_value 10 (map (\<lambda>c. the (to_digit 10 c)) t) in
        if v < 2 ^ 32 then Some v else None)"

text \<open>The same for any width.\<close>

definition parse_unsigned :: "nat \<Rightarrow> string \<Rightarrow> int option" where
  "parse_unsigned bits s =
     (let t = (case s of c # rest \<Rightarrow> if c = CHR ''+'' \<and> rest \<noteq> [] then rest else s | [] \<Rightarrow> s) in
      if t = [] \<or> \<not> list_all (\<lambda>c. to_digit 10 c \<noteq> None) t then None
      else let v = digits_value 10 (map (\<lambda>c. the (to_digit 10 c)) t) in
        if v < 2 ^ bits then Some v else None)"

text \<open>Texts in Cyrillic, letter by letter, in UTF-8.\<close>

definition cyrillic_letters :: string where
  "cyrillic_letters = ''abvgdeZzijklmnoprstufhcCSHqyQEUA''"

definition ru_char :: "char \<Rightarrow> string" where
  "ru_char c = (case map_of (zip cyrillic_letters [0..<32]) c of
      None \<Rightarrow> [c]
    | Some i \<Rightarrow> [char_of (192 + (1072 + i) div 64), char_of (128 + (1072 + i) mod 64)])"

definition ru :: "string \<Rightarrow> string" where
  "ru s = concat (map ru_char s)"

definition trim_end_char :: "char \<Rightarrow> string \<Rightarrow> string" where
  "trim_end_char c s = rev (dropWhile (\<lambda>x. x = c) (rev s))"

section \<open>Addresses\<close>

text \<open>
  The parser of \<^verbatim>\<open>core::net::parser\<close>, one definition per method. A parser takes what is left of the
  input and returns a value with the rest; \<open>None\<close> restores the input (\<^verbatim>\<open>read_atomically\<close>).
\<close>

type_synonym 'a parser = "string \<Rightarrow> ('a \<times> string) option"

definition read_given_char :: "char \<Rightarrow> unit parser" where
  "read_given_char c s = (case s of x # rest \<Rightarrow> if x = c then Some ((), rest) else None | [] \<Rightarrow> None)"

definition read_separator :: "char \<Rightarrow> nat \<Rightarrow> 'a parser \<Rightarrow> 'a parser" where
  "read_separator sep i p s =
     (if i > 0 then (case read_given_char sep s of None \<Rightarrow> None | Some (_, rest) \<Rightarrow> p rest) else p s)"

definition read_number :: "int \<Rightarrow> nat \<Rightarrow> bool \<Rightarrow> int \<Rightarrow> int parser" where
  "read_number radix max_digits allow_zero_prefix bound s =
     (let digits = takeWhile (\<lambda>c. to_digit radix c \<noteq> None) s;
          rest = drop (length digits) s;
          result = digits_value radix (map (\<lambda>c. the (to_digit radix c)) digits)
      in if length digits > max_digits \<or> digits = [] then None
      else if \<not> allow_zero_prefix \<and> hd digits = CHR ''0'' \<and> length digits > 1 then None
      else if result < bound then Some (result, rest) else None)"

fun read_octets :: "nat \<Rightarrow> nat \<Rightarrow> int list parser" where
  "read_octets i 0 s = Some ([], s)"
| "read_octets i (Suc k) s = (case read_separator CHR ''.'' i (read_number 10 3 False 256) s of
      None \<Rightarrow> None
    | Some (v, rest) \<Rightarrow> (case read_octets (i + 1) k rest of None \<Rightarrow> None | Some (vs, rest') \<Rightarrow> Some (v # vs, rest')))"

definition read_ipv4_addr :: "int list parser" where
  "read_ipv4_addr s = read_octets 0 4 s"

text \<open>
  \<^verbatim>\<open>read_groups\<close> from group \<open>i\<close> with \<open>k\<close> slots left: the groups read, whether they end with an
  embedded IPv4 address, and the rest of the input.
\<close>

fun read_groups :: "nat \<Rightarrow> nat \<Rightarrow> string \<Rightarrow> int list \<times> bool \<times> string" where
  "read_groups i 0 s = ([], False, s)"
| "read_groups i (Suc k) s =
     (case (if k > 0 then read_separator CHR '':'' i read_ipv4_addr s else None) of
        Some (os, rest) \<Rightarrow> ([os ! 0 * 256 + os ! 1, os ! 2 * 256 + os ! 3], True, rest)
      | None \<Rightarrow>
          (case read_separator CHR '':'' i (read_number 16 4 True 65536) s of
             None \<Rightarrow> ([], False, s)
           | Some (g, rest) \<Rightarrow>
               (case read_groups (i + 1) k rest of (gs, v4, rest') \<Rightarrow> (g # gs, v4, rest'))))"

definition read_ipv6_addr :: "int list parser" where
  "read_ipv6_addr s =
     (case read_groups 0 8 s of (head, head_ipv4, rest) \<Rightarrow>
        if length head = 8 then Some (head, rest)
        else if head_ipv4 then None
        else (case read_given_char CHR '':'' rest of None \<Rightarrow> None | Some (_, r1) \<Rightarrow>
             (case read_given_char CHR '':'' r1 of None \<Rightarrow> None | Some (_, r2) \<Rightarrow>
             (case read_groups 0 (8 - (length head + 1)) r2 of (tail, _, r3) \<Rightarrow>
               Some (head @ replicate (8 - length head - length tail) 0 @ tail, r3)))))"

definition parse_ipv4 :: "string \<Rightarrow> u32 option" where
  "parse_ipv4 s = (if length s > 15 then None
     else case read_ipv4_addr s of
        Some (os, []) \<Rightarrow> Some (word_of_int (digits_value 256 os))
      | _ \<Rightarrow> None)"

definition parse_ipv6 :: "string \<Rightarrow> 128 word option" where
  "parse_ipv6 s = (case read_ipv6_addr s of
        Some (gs, []) \<Rightarrow> Some (word_of_int (digits_value 65536 gs))
      | _ \<Rightarrow> None)"

datatype ip_addr = V4 u32 | V6 "128 word"

section \<open>Facts on trimming ASCII text\<close>

definition ascii_space :: "char \<Rightarrow> bool" where
  "ascii_space c \<longleftrightarrow> code_of c \<in> {9, 10, 11, 12, 13, 32}"

lemma ascii_space_lower [simp]: "ascii_space (ascii_lower c) = ascii_space c"
  by (auto simp: ascii_space_def ascii_lower_def Let_def of_char_of)

lemma multibyte_not_ascii:
  "w \<in> set white_spaces \<Longrightarrow> w \<notin> set ascii_spaces \<Longrightarrow> \<not> is_ascii w"
  by (auto simp: white_spaces_def utf8_seq_def is_ascii_def of_char_of)

lemma ascii_space_singleton: "[c] \<in> set ascii_spaces \<longleftrightarrow> ascii_space c"
proof -
  have "c = char_of n \<longleftrightarrow> code_of c = n" if "n < 256" for n :: nat using that by (auto simp: of_char_of)
  then show ?thesis by (simp add: ascii_spaces_def utf8_seq_def ascii_space_def)
qed

lemma ascii_spaces_single: "w \<in> set ascii_spaces \<Longrightarrow> \<exists>c. w = [c]"
  by (auto simp: ascii_spaces_def utf8_seq_def)

lemma space_prefix:
  assumes "is_ascii (c # s)" and "w \<in> set white_spaces \<union> rev ` set white_spaces"
  shows "w \<noteq> [] \<and> prefix w (c # s) \<longleftrightarrow> w = [c] \<and> ascii_space c"
proof -
  obtain v where v: "v \<in> set white_spaces" "w = v \<or> w = rev v" using assms(2) by auto
  show ?thesis
  proof (cases "v \<in> set ascii_spaces")
    case True
    obtain d where d: "v = [d]" using ascii_spaces_single [OF True] by blast
    then have "w = [d]" "ascii_space d" using v(2) True by (auto simp: ascii_space_singleton)
    then show ?thesis by auto
  next
    case False
    then have n: "\<not> is_ascii w" using multibyte_not_ascii [OF v(1)] v(2) by (auto simp: is_ascii_def)
    have "\<not> prefix w (c # s)" using n assms(1) set_mono_prefix [of w "c # s"] by (auto simp: is_ascii_def list_all_iff)
    moreover have "w = [c] \<Longrightarrow> False" using n assms(1) by (auto simp: is_ascii_def)
    ultimately show ?thesis by blast
  qed
qed

lemma drop_leading_ascii:
  assumes "set ascii_spaces \<subseteq> set ws" "set ws \<subseteq> set white_spaces \<union> rev ` set white_spaces"
  shows "is_ascii s \<Longrightarrow> drop_leading ws s = dropWhile ascii_space s"
proof (induction s)
  case Nil
  have "find (\<lambda>w. w \<noteq> [] \<and> prefix w []) ws = None" by (auto simp: find_None_iff)
  then show ?case by (subst drop_leading.simps) simp
next
  case (Cons c s)
  have key: "(\<lambda>w. w \<noteq> [] \<and> prefix w (c # s)) w \<longleftrightarrow> w = [c] \<and> ascii_space c" if "w \<in> set ws" for w
    using space_prefix [OF Cons.prems] that assms(2) by blast
  show ?case
  proof (cases "ascii_space c")
    case True
    then have "[c] \<in> set ws" using assms(1) ascii_space_singleton by blast
    then have "find (\<lambda>w. w \<noteq> [] \<and> prefix w (c # s)) ws \<noteq> None"
      unfolding find_None_iff using key [of "[c]"] True by blast
    then obtain w where w: "find (\<lambda>w. w \<noteq> [] \<and> prefix w (c # s)) ws = Some w" by blast
    then obtain i where "i < length ws" "w \<noteq> [] \<and> prefix w (c # s)" "w = ws ! i" by (auto simp only: find_Some_iff)
    then have "w = [c]" using key [of w] by simp
    moreover have "is_ascii s" using Cons.prems by (simp add: is_ascii_def)
    ultimately show ?thesis using True w Cons.IH by (subst drop_leading.simps) simp
  next
    case False
    then have "find (\<lambda>w. w \<noteq> [] \<and> prefix w (c # s)) ws = None" using key by (auto simp: find_None_iff)
    then show ?thesis using False by (subst drop_leading.simps) simp
  qed
qed

lemma is_ascii_dropWhile: "is_ascii s \<Longrightarrow> is_ascii (dropWhile P s)"
  by (auto simp: is_ascii_def list_all_iff dest: set_dropWhileD)

lemma is_ascii_rev [simp]: "is_ascii (rev s) = is_ascii s"
  by (simp add: is_ascii_def)

lemma trim_ascii:
  assumes "is_ascii s"
  shows "trim s = rev (dropWhile ascii_space (rev (dropWhile ascii_space s)))"
proof -
  have rv: "rev ` set ascii_spaces = set ascii_spaces" by (auto simp: ascii_spaces_def utf8_seq_def)
  have "trim_start s = dropWhile ascii_space s"
    unfolding trim_start_def by (rule drop_leading_ascii [OF _ _ assms]) (auto simp: white_spaces_def)
  moreover have "trim_end t = rev (dropWhile ascii_space (rev t))" if "is_ascii t" for t
    unfolding trim_end_def
    by (subst drop_leading_ascii) (use that rv in \<open>auto simp: white_spaces_def\<close>)
  ultimately show ?thesis by (simp add: trim_def is_ascii_dropWhile assms)
qed

text \<open>Equations with which evaluation reads the bits of a character instead of its code and goes through the table of spaces only for text outside ASCII.\<close>

lemma ascii_space_code [code]:
  "ascii_space c \<longleftrightarrow> c = CHR 0x09 \<or> c = CHR 0x0A \<or> c = CHR 0x0B \<or> c = CHR 0x0C \<or> c = CHR 0x0D \<or> c = CHR '' ''"
proof -
  have "code_of c = n \<longleftrightarrow> c = char_of n" if "n < 256" for n using that by (metis char_of_char of_char_of mod_less)
  then show ?thesis by (simp add: ascii_space_def char_of_def bit_0)
qed

lemma is_ascii_code [code]: "is_ascii s \<longleftrightarrow> list_all (\<lambda>c. \<not> digit7 c) s"
proof -
  have "code_of c < 128 \<longleftrightarrow> \<not> digit7 c" for c by (cases c) auto
  then show ?thesis by (simp add: is_ascii_def)
qed

lemma trim_code [code]:
  "trim s = (if is_ascii s then rev (dropWhile ascii_space (rev (dropWhile ascii_space s))) else trim_end (trim_start s))"
  using trim_ascii [of s] by (simp add: trim_def)

definition trimmed :: "string \<Rightarrow> bool" where
  "trimmed s \<longleftrightarrow> s = [] \<or> \<not> ascii_space (hd s) \<and> \<not> ascii_space (last s)"

lemma trimmed_trim: "is_ascii s \<Longrightarrow> trimmed (trim s)"
proof -
  assume a: "is_ascii s"
  let ?t = "dropWhile ascii_space s"
  let ?u = "rev (dropWhile ascii_space (rev ?t))"
  have "\<not> ascii_space (last ?u)" if "?u \<noteq> []" using that by (simp add: last_rev hd_dropWhile)
  moreover have "\<not> ascii_space (hd ?u)" if "?u \<noteq> []"
  proof -
    have "suffix (dropWhile ascii_space (rev ?t)) (rev ?t)" by (rule suffix_dropWhile)
    then have "prefix ?u ?t" by (simp add: suffix_to_prefix)
    then obtain zs where z: "?t = ?u @ zs" by (auto simp only: prefix_def)
    then have t: "?t \<noteq> []" using that by (metis append_is_Nil_conv)
    have "hd ?u = hd ?t" using z that by (metis hd_append2)
    then show ?thesis using hd_dropWhile [OF t] by simp
  qed
  ultimately show ?thesis unfolding trimmed_def trim_ascii [OF a] by blast
qed

lemma trim_trimmed: "is_ascii s \<Longrightarrow> trimmed s \<Longrightarrow> trim s = s"
proof -
  assume a: "is_ascii s" and t: "trimmed s"
  have "dropWhile ascii_space s = s" using t by (cases s) (auto simp: trimmed_def)
  moreover have "dropWhile ascii_space (rev s) = rev s" using t by (cases s rule: rev_cases) (auto simp: trimmed_def)
  ultimately show "trim s = s" by (simp add: trim_ascii a)
qed

lemma trimmed_lower [simp]: "trimmed (map ascii_lower s) = trimmed s"
  by (auto simp: trimmed_def hd_map last_map)

lemma is_ascii_trim: "is_ascii s \<Longrightarrow> is_ascii (trim s)"
  by (simp add: trim_ascii is_ascii_dropWhile)

section \<open>Facts on the parsers\<close>

text \<open>The characters an address can have.\<close>

definition ip_char :: "char \<Rightarrow> bool" where
  "ip_char c \<longleftrightarrow> to_digit 16 c \<noteq> None \<or> c = CHR ''.'' \<or> c = CHR '':''"

lemma not_ip_char [simp]: "\<not> ip_char CHR ''/''" "\<not> ip_char CHR ''[''" "\<not> ip_char CHR '']''" "\<not> ip_char CHR ''*''"
  by (simp_all add: ip_char_def to_digit_def)

lemma decimal_ip_char: "to_digit 10 c \<noteq> None \<Longrightarrow> ip_char c"
  by (auto simp: ip_char_def to_digit_def Let_def split: if_splits)

text \<open>What a parser consumes is a prefix of address characters.\<close>

definition consumes :: "string \<Rightarrow> string \<Rightarrow> bool" where
  "consumes s rest \<longleftrightarrow> (\<exists>pre. s = pre @ rest \<and> list_all ip_char pre)"

lemma consumes_refl [simp]: "consumes s s"
  by (simp add: consumes_def)

lemma consumes_trans: "consumes s t \<Longrightarrow> consumes t u \<Longrightarrow> consumes s u"
  by (auto simp: consumes_def)

lemma consumes_Nil: "consumes s [] \<Longrightarrow> list_all ip_char s"
  by (auto simp: consumes_def)

lemma read_given_char_consumes:
  "read_given_char c s = Some (u, rest) \<Longrightarrow> ip_char c \<Longrightarrow> consumes s rest"
  by (auto simp: read_given_char_def consumes_def split: list.splits if_splits intro: exI [of _ "[c]"])

lemma read_number_consumes:
  assumes "read_number radix m z b s = Some (v, rest)" and "radix \<le> 16"
  shows "consumes s rest"
proof -
  let ?d = "takeWhile (\<lambda>c. to_digit radix c \<noteq> None) s"
  have "rest = drop (length ?d) s" using assms(1) by (auto simp: read_number_def Let_def split: if_splits)
  moreover have "s = ?d @ drop (length ?d) s" by (metis dropWhile_eq_drop takeWhile_dropWhile_id)
  moreover have "list_all ip_char ?d"
    using assms(2) by (auto simp: list_all_iff ip_char_def to_digit_def Let_def dest!: set_takeWhileD split: if_splits)
  ultimately show ?thesis unfolding consumes_def by blast
qed

lemma read_separator_consumes:
  assumes "read_separator sep i p s = Some (v, rest)" and "ip_char sep"
    and "\<And>s v rest. p s = Some (v, rest) \<Longrightarrow> consumes s rest"
  shows "consumes s rest"
  using assms by (auto simp: read_separator_def split: if_splits option.splits prod.splits
      intro: consumes_trans dest: read_given_char_consumes)

lemma ip_char_separators [simp]: "ip_char CHR ''.''" "ip_char CHR '':''"
  by (simp_all add: ip_char_def)

lemma read_octets_consumes: "read_octets i k s = Some (vs, rest) \<Longrightarrow> consumes s rest"
proof (induction k arbitrary: i s vs)
  case (Suc k)
  then obtain v t ws where r: "read_separator CHR ''.'' i (read_number 10 3 False 256) s = Some (v, t)"
      "read_octets (i + 1) k t = Some (ws, rest)"
    by (auto split: option.splits prod.splits)
  have "consumes s t" by (rule read_separator_consumes [OF r(1)]) (auto dest: read_number_consumes)
  then show ?case using Suc.IH [OF r(2)] by (rule consumes_trans)
qed simp

lemma read_octets_length: "read_octets i k s = Some (vs, rest) \<Longrightarrow> length vs = k"
  by (induction k arbitrary: i s vs) (auto split: option.splits prod.splits)

lemma read_groups_consumes: "read_groups i k s = (gs, v4, rest) \<Longrightarrow> consumes s rest"
proof (induction k arbitrary: i s gs v4)
  case (Suc k)
  note num = read_separator_consumes [OF _ ip_char_separators(2) read_number_consumes [of 16]]
  note v4 = read_separator_consumes [OF _ ip_char_separators(2), of _ read_ipv4_addr]
  show ?case
  proof (cases "if k > 0 then read_separator CHR '':'' i read_ipv4_addr s else None")
    case None
    show ?thesis
    proof (cases "read_separator CHR '':'' i (read_number 16 4 True 65536) s")
      case (Some gr)
      then obtain g t where "read_separator CHR '':'' i (read_number 16 4 True 65536) s = Some (g, t)" by (cases gr) simp
      moreover from this obtain gs' where "read_groups (i + 1) k t = (gs', v4, rest)"
        using Suc.prems None by (auto split: prod.splits)
      ultimately show ?thesis using Suc.IH num consumes_trans by fastforce
    qed (use Suc.prems None in simp)
  next
    case (Some or)
    then obtain os t where "read_separator CHR '':'' i read_ipv4_addr s = Some (os, t)" by (cases or) (auto split: if_splits)
    moreover have "t = rest" using Suc.prems Some calculation by (auto split: if_splits)
    ultimately show ?thesis using v4 read_octets_consumes by (auto simp: read_ipv4_addr_def)
  qed
qed simp

lemma parse_ipv4_chars: "parse_ipv4 s = Some a \<Longrightarrow> list_all ip_char s \<and> s \<noteq> []"
proof -
  assume a: "parse_ipv4 s = Some a"
  then obtain os where o: "read_octets 0 4 s = Some (os, [])"
    by (auto simp: parse_ipv4_def read_ipv4_addr_def split: if_splits option.splits prod.splits list.splits)
  have "read_octets 0 4 [] = None" by code_simp
  then show ?thesis using consumes_Nil [OF read_octets_consumes [OF o]] o by auto
qed

lemma parse_ipv6_chars: "parse_ipv6 s = Some a \<Longrightarrow> list_all ip_char s \<and> s \<noteq> []"
proof -
  assume a: "parse_ipv6 s = Some a"
  then obtain gs where o: "read_ipv6_addr s = Some (gs, [])"
    by (auto simp: parse_ipv6_def split: option.splits prod.splits list.splits)
  have "consumes s []"
    using o by (auto simp: read_ipv6_addr_def split: prod.splits if_splits option.splits
        dest!: read_groups_consumes read_given_char_consumes intro: consumes_trans)
  moreover have "read_ipv6_addr [] = None" by code_simp
  ultimately show ?thesis using consumes_Nil o by auto
qed

lemma parse_u32_chars: "parse_u32 s = Some n \<Longrightarrow> s \<noteq> [] \<and> list_all (\<lambda>c. to_digit 10 c \<noteq> None \<or> c = CHR ''+'') s"
  by (auto simp: parse_u32_def Let_def list_all_iff split: list.splits if_splits)

lemma parse_u32_nonneg: "parse_u32 s = Some n \<Longrightarrow> 0 \<le> n"
proof -
  have "0 \<le> foldl (\<lambda>acc d. acc * 10 + d) a ds" if "list_all (\<lambda>d. 0 \<le> d) ds" "0 \<le> a" for ds and a :: int
    using that by (induction ds arbitrary: a) auto
  moreover have "list_all (\<lambda>d. 0 \<le> d) (map (\<lambda>c. the (to_digit 10 c)) t)" if "list_all (\<lambda>c. to_digit 10 c \<noteq> None) t" for t
    using that by (auto simp: list_all_iff to_digit_def Let_def split: if_splits)
  ultimately show "parse_u32 s = Some n \<Longrightarrow> 0 \<le> n"
    by (auto simp: parse_u32_def digits_value_def Let_def split: if_splits)
qed

lemma split_once_SomeD: "split_once c s = Some (a, b) \<Longrightarrow> s = a @ c # b \<and> c \<notin> set a"
proof -
  assume s: "split_once c s = Some (a, b)"
  then have c: "c \<in> set s" and a: "a = takeWhile (\<lambda>x. x \<noteq> c) s" and b: "b = tl (dropWhile (\<lambda>x. x \<noteq> c) s)"
    by (auto simp: split_once_def split: if_splits)
  have d: "dropWhile (\<lambda>x. x \<noteq> c) s \<noteq> []" using c by auto
  then have "dropWhile (\<lambda>x. x \<noteq> c) s = c # b" using b hd_dropWhile [OF d] by (cases "dropWhile (\<lambda>x. x \<noteq> c) s") simp_all
  moreover have "c \<notin> set a" using a by (auto dest: set_takeWhileD)
  ultimately show ?thesis using a takeWhile_dropWhile_id [of "\<lambda>x. x \<noteq> c" s] by simp
qed

lemma split_once_append: "c \<notin> set a \<Longrightarrow> split_once c (a @ c # b) = Some (a, b)"
  by (induction a) (auto simp: split_once_def)

lemma split_on_ne [simp]: "split_on c s \<noteq> []"
  by (cases "(c, s)" rule: split_on.cases) (auto split: list.splits)

lemma set_split_on: "x \<in> set s \<Longrightarrow> x = c \<or> (\<exists>w \<in> set (split_on c s). x \<in> set w)"
  by (induction c s rule: split_on.induct) (auto split: list.splits if_splits)

lemma contains_str_count: "contains_str s p \<Longrightarrow> count_list p c \<le> count_list s c"
proof -
  assume "contains_str s p"
  then obtain u w where "s = u @ p @ w" by (auto simp: contains_str_def list_ex_iff suffix_def prefix_def)
  then show ?thesis by simp
qed

section \<open>Splitting and joining\<close>

lemma split_on_no_sep: "c \<notin> set s \<Longrightarrow> split_on c s = [s]"
  by (induction c s rule: split_on.induct) auto

lemma split_on_sep_append: "split_on c (s @ c # t) = split_on c s @ split_on c t"
  by (induction s) (auto split: list.splits)

lemma join_Cons: "ss \<noteq> [] \<Longrightarrow> join sep (s # ss) = s @ sep @ join sep ss"
  by (cases ss) auto

lemma join_append: "xs \<noteq> [] \<Longrightarrow> ys \<noteq> [] \<Longrightarrow> join sep (xs @ ys) = join sep xs @ sep @ join sep ys"
proof (induction xs)
  case (Cons x xs)
  then show ?case by (cases "xs = []") (simp_all add: join_Cons)
qed simp

text \<open>Splitting a joined list concatenates the splits of its fields; joining a split gives the string back.\<close>

lemma split_on_join: "ss \<noteq> [] \<Longrightarrow> split_on c (join [c] ss) = concat (map (split_on c) ss)"
proof (induction ss)
  case (Cons s ss)
  show ?case using Cons.IH by (cases "ss = []") (simp_all add: join_Cons split_on_sep_append)
qed simp

lemma join_split_on [simp]: "join [c] (split_on c s) = s"
proof (induction s)
  case (Cons x xs)
  obtain w ws where w: "split_on c xs = w # ws" by (cases "split_on c xs") auto
  then show ?case using Cons by (cases ws) auto
qed simp

lemma split_on_parts: "w \<in> set (split_on c s) \<Longrightarrow> c \<notin> set w"
  by (induction c s arbitrary: w rule: split_on.induct) (auto split: list.splits if_splits)

lemma split_on_chars: "w \<in> set (split_on c s) \<Longrightarrow> set w \<subseteq> set s"
  by (induction c s arbitrary: w rule: split_on.induct) (fastforce split: list.splits if_splits)+

end
