(* ===== verification/Server_Pool.thy ===== *)
theory Server_Pool
  imports Mux_Pool Rust_Str
begin

text \<open>
  The pool of servers, \<^verbatim>\<open>xr-proto/src/server_pool.rs\<close>: health of each server, failover inside
  \<^verbatim>\<open>open_stream\<close>, failback with hold-down and flap penalty in \<^verbatim>\<open>health_tick\<close>, failover on relay
  degradation, warmup and recycle. What a server's \<^verbatim>\<open>MuxPool\<close> answers, when, and the state it leaves
  that pool in are arguments of the operations that await it; the synchronous calls into
  \<^verbatim>\<open>MuxPool\<close> are those of \<open>Mux_Pool\<close>. User-visible texts are transliterated.

  The operations that await a server are given as they run undisturbed. \<^verbatim>\<open>open_stream\<close> is given a second time as the turns of one
  caller, between which the others may do to the pool what they like; failover is proved of these turns.
\<close>

section \<open>State\<close>

definition PER_SERVER_OPEN_TIMEOUT :: duration where "PER_SERVER_OPEN_TIMEOUT = from_secs 5"
definition PROBE_TIMEOUT :: duration where "PROBE_TIMEOUT = from_secs 10"
definition FAILBACK_FLAP_WINDOW :: duration where "FAILBACK_FLAP_WINDOW = from_secs 45"
definition FAILBACK_FLAP_CAP :: nat where "FAILBACK_FLAP_CAP = 6"
definition FAILBACK_BACKOFF_MAX :: duration where "FAILBACK_BACKOFF_MAX = from_secs 1800"

record pool_profile =
  warm_backups :: bool
  probe_interval :: duration
  failback_hold :: duration

definition profile_router :: pool_profile where
  "profile_router = \<lparr>warm_backups = True, probe_interval = from_secs 15, failback_hold = from_secs 60\<rparr>"

definition profile_mobile :: pool_profile where
  "profile_mobile = \<lparr>warm_backups = False, probe_interval = from_secs 60, failback_hold = from_secs 60\<rparr>"

datatype down_class = UnknownClass

datatype health_state = Up | Down instant down_class

record slot_state =
  health :: health_state
  up_since :: "instant option"
  became_active_at :: "instant option"
  flap_count :: nat
  failback_suppressed_until :: "instant option"

record server_slot =
  srv_name :: string
  srv_addr :: string
  srv_pool :: mux_pool
  srv_state :: slot_state

record server_pool =
  servers :: "server_slot list"
  active :: nat
  profile :: pool_profile
  events :: "string list"

section \<open>One server\<close>

definition slot_label :: "server_slot \<Rightarrow> string" where
  "slot_label s = (if srv_name s = [] then srv_addr s else srv_name s)"

definition mark_up :: "instant \<Rightarrow> slot_state \<Rightarrow> slot_state" where
  "mark_up now st =
     st\<lparr>health := Up, up_since := (case up_since st of None \<Rightarrow> Some now | Some t \<Rightarrow> Some t)\<rparr>"

definition is_down :: "slot_state \<Rightarrow> bool" where
  "is_down st = (case health st of Down _ _ \<Rightarrow> True | Up \<Rightarrow> False)"

definition mark_down :: "instant \<Rightarrow> slot_state \<Rightarrow> slot_state" where
  "mark_down now st =
     (if is_down st then st else st\<lparr>health := Down now UnknownClass\<rparr>)\<lparr>up_since := None\<rparr>"

definition up_for :: "instant \<Rightarrow> slot_state \<Rightarrow> duration option" where
  "up_for now st = map_option (\<lambda>t. elapsed t now) (up_since st)"

definition note_became_active :: "instant \<Rightarrow> slot_state \<Rightarrow> slot_state" where
  "note_became_active now st = st\<lparr>became_active_at := Some now\<rparr>"

definition active_for :: "instant \<Rightarrow> slot_state \<Rightarrow> duration option" where
  "active_for now st = map_option (\<lambda>t. elapsed t now) (became_active_at st)"

definition failback_suppressed :: "instant \<Rightarrow> slot_state \<Rightarrow> bool" where
  "failback_suppressed now st = (case failback_suppressed_until st of None \<Rightarrow> False | Some t \<Rightarrow> now < t)"

definition penalize_flap :: "instant \<Rightarrow> duration \<Rightarrow> slot_state \<Rightarrow> slot_state" where
  "penalize_flap now hold st =
     (let k = min (flap_count st + 1) FAILBACK_FLAP_CAP;
          backoff = min (hold * 2 ^ k) FAILBACK_BACKOFF_MAX
      in st\<lparr>flap_count := k, failback_suppressed_until := Some (now + backoff)\<rparr>)"

definition clear_flap :: "slot_state \<Rightarrow> slot_state" where
  "clear_flap st = st\<lparr>flap_count := 0, failback_suppressed_until := None\<rparr>"

definition slot_state_new :: slot_state where
  "slot_state_new = \<lparr>health = Up, up_since = None, became_active_at = None, flap_count = 0,
     failback_suppressed_until = None\<rparr>"

definition slot_reset :: "slot_state \<Rightarrow> slot_state" where
  "slot_reset st = st\<lparr>health := Up, up_since := None, became_active_at := None, flap_count := 0,
     failback_suppressed_until := None\<rparr>"

section \<open>The pool\<close>

text \<open>\<open>None\<close> is the panic on an empty list; a server is its name, address and pool.\<close>

definition server_pool_new :: "(string \<times> string \<times> mux_pool) list \<Rightarrow> pool_profile \<Rightarrow> server_pool option" where
  "server_pool_new srvs prof =
     (if srvs = [] then None
      else Some \<lparr>servers = map (\<lambda>(n, a, p). \<lparr>srv_name = n, srv_addr = a, srv_pool = p, srv_state = slot_state_new\<rparr>) srvs,
             active = 0, profile = prof, events = []\<rparr>)"

definition active_index :: "server_pool \<Rightarrow> nat" where
  "active_index sp = min (active sp) (length (servers sp) - 1)"

definition active_name :: "server_pool \<Rightarrow> string" where
  "active_name sp = slot_label (servers sp ! active_index sp)"

definition active_label :: "server_pool \<Rightarrow> string" where
  "active_label sp = (let s = servers sp ! active_index sp in
     if srv_name s = [] then srv_addr s else srv_name s @ '' ('' @ srv_addr s @ '')'')"

definition is_backup_active :: "server_pool \<Rightarrow> bool" where
  "is_backup_active sp \<longleftrightarrow> active_index sp \<noteq> 0"

definition server_health :: "nat \<Rightarrow> server_pool \<Rightarrow> health_state option" where
  "server_health idx sp = (if idx < length (servers sp) then Some (health (srv_state (servers sp ! idx))) else None)"

definition on_state :: "nat \<Rightarrow> (slot_state \<Rightarrow> slot_state) \<Rightarrow> server_pool \<Rightarrow> server_pool" where
  "on_state idx g sp = sp\<lparr>servers := (servers sp)[idx := (servers sp ! idx)\<lparr>srv_state := g (srv_state (servers sp ! idx))\<rparr>]\<rparr>"

definition on_pool :: "nat \<Rightarrow> (mux_pool \<Rightarrow> mux_pool) \<Rightarrow> server_pool \<Rightarrow> server_pool" where
  "on_pool idx g sp = sp\<lparr>servers := (servers sp)[idx := (servers sp ! idx)\<lparr>srv_pool := g (srv_pool (servers sp ! idx))\<rparr>]\<rparr>"

datatype switch_reason = Failover | RelayDegraded | Failback | Warmup

fun reason_user :: "switch_reason \<Rightarrow> string" where
  "reason_user Failover = ''server ne otvetil, pereshel na rezerv''"
| "reason_user RelayDegraded = ''cherez server ne idet trafik, pereshel na rezerv''"
| "reason_user Failback = ''osnovnoy server snova zhivoy, vernulsya na nego''"
| "reason_user Warmup = ''vybran server''"

definition emit :: "string \<Rightarrow> server_pool \<Rightarrow> server_pool" where
  "emit user sp = sp\<lparr>events := events sp @ [user]\<rparr>"

text \<open>The swap wins only if \<open>from\<close> is still the active server.\<close>

definition switch_active :: "instant \<Rightarrow> nat \<Rightarrow> nat \<Rightarrow> switch_reason \<Rightarrow> server_pool \<Rightarrow> bool \<times> server_pool" where
  "switch_active now from to reason sp =
     (if from = to then (False, sp)
      else if active sp \<noteq> from then (False, sp)
      else let sp1 = on_state to (note_became_active now) (sp\<lparr>active := to\<rparr>)
           in (True, emit (reason_user reason @ '': '' @ slot_label (servers sp ! from) @ '' -> ''
                     @ slot_label (servers sp ! to)) sp1))"

definition walk_order :: "nat \<Rightarrow> server_pool \<Rightarrow> nat list" where
  "walk_order start sp = start # filter (\<lambda>i. i \<noteq> start) [0..<length (servers sp)]"

subsection \<open>The error of an exhausted pool\<close>

definition servers_word :: "nat \<Rightarrow> string" where
  "servers_word n =
     (if 11 \<le> n mod 100 \<and> n mod 100 \<le> 14 then ''serverov''
      else if n mod 10 = 1 then ''server''
      else if 2 \<le> n mod 10 \<and> n mod 10 \<le> 4 then ''servera''
      else ''serverov'')"

definition pool_exhausted :: "(nat \<times> io_error) list \<Rightarrow> server_pool \<Rightarrow> io_error" where
  "pool_exhausted failures sp =
     (if length failures \<le> 1
      then (case failures of [] \<Rightarrow> IoError Other ''no servers in pool'' | (_, e) # _ \<Rightarrow> e)
      else
        let sorted = sort_key fst failures;
            n = length sorted;
            details = join '', '' (map (\<lambda>(idx, e). slot_label (servers sp ! idx) @ '' ('' @ msg e @ '')'') sorted)
        in IoError (kind (snd (sorted ! 0)))
             (''vse '' @ dec_string n @ '' '' @ servers_word n @ '' nedostupny: '' @ details))"

subsection \<open>Opening a stream\<close>

datatype 'a answer = Answered 'a | NoAnswer

text \<open>What awaiting one server yields: the time, the outcome, and its pool's state then.\<close>

type_synonym open_env = "nat \<Rightarrow> instant \<times> mux_ref io_result answer \<times> mux_pool"

definition within_flap_window :: "instant \<Rightarrow> slot_state \<Rightarrow> bool" where
  "within_flap_window now st = (case active_for now st of None \<Rightarrow> False | Some d \<Rightarrow> d < FAILBACK_FLAP_WINDOW)"

definition beyond_flap_window :: "instant \<Rightarrow> slot_state \<Rightarrow> bool" where
  "beyond_flap_window now st = (case active_for now st of None \<Rightarrow> False | Some d \<Rightarrow> FAILBACK_FLAP_WINDOW \<le> d)"

definition open_succeeded :: "instant \<Rightarrow> nat \<Rightarrow> nat \<Rightarrow> server_pool \<Rightarrow> server_pool" where
  "open_succeeded now start idx sp =
     (let sp1 = on_state idx (mark_up now) sp;
          st = srv_state (servers sp1 ! start)
      in if idx \<noteq> start then
           let sp2 = (if within_flap_window now st
                      then on_state start (penalize_flap now (failback_hold (profile sp1))) sp1 else sp1)
           in snd (switch_active now start idx Failover sp2)
         else if beyond_flap_window now st then on_state start clear_flap sp1
         else sp1)"

fun open_walk :: "open_env \<Rightarrow> nat \<Rightarrow> nat list \<Rightarrow> (nat \<times> io_error) list \<Rightarrow> server_pool \<Rightarrow>
    mux_ref io_result \<times> server_pool" where
  "open_walk env start [] failures sp = (Inl (pool_exhausted failures sp), sp)"
| "open_walk env start (idx # rest) failures sp =
     (case env idx of (now, outcome, mp) \<Rightarrow>
        let sp1 = on_pool idx (\<lambda>_. mp) sp in
        (case outcome of
           Answered (Inr stream) \<Rightarrow> (Inr stream, open_succeeded now start idx sp1)
         | Answered (Inl e) \<Rightarrow>
             if kind e = InvalidInput then (Inl e, sp1)
             else open_walk env start rest (failures @ [(idx, e)]) (on_state idx (mark_down now) sp1)
         | NoAnswer \<Rightarrow>
             open_walk env start rest
               (failures @ [(idx, IoError TimedOut ''open timed out za 5s'')])
               (on_state idx (mark_down now) sp1)))"

definition open_stream :: "open_env \<Rightarrow> server_pool \<Rightarrow> mux_ref io_result \<times> server_pool" where
  "open_stream env sp =
     (let start = active_index sp in open_walk env start (walk_order start sp) [] sp)"

text \<open>
  The same call among others. Every await and every lock of its own is a turn, at which it finds the pool as the other callers, the health ticks
  and the warmups have left it; \<open>out\<close> is what the server that it awaits answers.
\<close>

datatype opener = Arriving | Asking nat "nat list" "(nat \<times> io_error) list" | Answering nat nat mux_ref | Penalising nat nat mux_ref
  | Clearing nat mux_ref | Swapping nat nat mux_ref | Noting nat nat mux_ref | Telling nat nat mux_ref | Opened "mux_ref io_result"

fun open_turn :: "instant \<Rightarrow> mux_ref io_result answer \<Rightarrow> opener \<Rightarrow> server_pool \<Rightarrow> opener \<times> server_pool" where
  "open_turn now out Arriving sp = (let start = active_index sp in (Asking start (walk_order start sp) [], sp))"
| "open_turn now out (Asking start [] failures) sp = (Opened (Inl (pool_exhausted failures sp)), sp)"
| "open_turn now out (Asking start (idx # rest) failures) sp = (case out of
      Answered (Inr stream) \<Rightarrow> (Answering start idx stream, on_state idx (mark_up now) sp)
    | Answered (Inl e) \<Rightarrow>
        if kind e = InvalidInput then (Opened (Inl e), sp)
        else (Asking start rest (failures @ [(idx, e)]), on_state idx (mark_down now) sp)
    | NoAnswer \<Rightarrow> (Asking start rest (failures @ [(idx, IoError TimedOut ''open timed out za 5s'')]), on_state idx (mark_down now) sp))"
| "open_turn now out (Answering start idx stream) sp =
     (let st = srv_state (servers sp ! start) in
      if idx \<noteq> start then (if within_flap_window now st then Penalising start idx stream else Swapping start idx stream, sp)
      else (if beyond_flap_window now st then Clearing start stream else Opened (Inr stream), sp))"
| "open_turn now out (Penalising start idx stream) sp = (Swapping start idx stream, on_state start (penalize_flap now (failback_hold (profile sp))) sp)"
| "open_turn now out (Clearing start stream) sp = (Opened (Inr stream), on_state start clear_flap sp)"
| "open_turn now out (Swapping start idx stream) sp =
     (if start = idx \<or> active sp \<noteq> start then (Opened (Inr stream), sp) else (Noting start idx stream, sp\<lparr>active := idx\<rparr>))"
| "open_turn now out (Noting start idx stream) sp = (Telling start idx stream, on_state idx (note_became_active now) sp)"
| "open_turn now out (Telling start idx stream) sp =
     (Opened (Inr stream), emit (reason_user Failover @ '': '' @ slot_label (servers sp ! start) @ '' -> '' @ slot_label (servers sp ! idx)) sp)"
| "open_turn now out (Opened r) sp = (Opened r, sp)"

subsection \<open>Warmup and recycle\<close>

type_synonym warm_env = "nat \<Rightarrow> instant \<times> unit io_result \<times> mux_pool"

text \<open>The warm profile: all servers at once; results are taken in the order of the servers.\<close>

fun warm_all :: "warm_env \<Rightarrow> nat list \<Rightarrow> nat option \<Rightarrow> (nat \<times> io_error) list \<Rightarrow> server_pool \<Rightarrow>
    nat option \<times> (nat \<times> io_error) list \<times> server_pool" where
  "warm_all env [] best failures sp = (best, failures, sp)"
| "warm_all env (idx # rest) best failures sp =
     (case env idx of (now, res, mp) \<Rightarrow>
        let sp1 = on_pool idx (\<lambda>_. mp) sp in
        (case res of
           Inr _ \<Rightarrow> warm_all env rest (Some (case best of None \<Rightarrow> idx | Some b \<Rightarrow> min b idx)) failures
                     (on_state idx (mark_up now) sp1)
         | Inl e \<Rightarrow> warm_all env rest best (failures @ [(idx, e)]) (on_state idx (mark_down now) sp1)))"

fun warm_cold :: "warm_env \<Rightarrow> nat \<Rightarrow> nat list \<Rightarrow> (nat \<times> io_error) list \<Rightarrow> server_pool \<Rightarrow>
    unit io_result \<times> server_pool" where
  "warm_cold env start [] failures sp = (Inl (pool_exhausted failures sp), sp)"
| "warm_cold env start (idx # rest) failures sp =
     (case env idx of (now, res, mp) \<Rightarrow>
        let sp1 = on_pool idx (\<lambda>_. mp) sp in
        (case res of
           Inr _ \<Rightarrow>
             let sp2 = on_state idx (mark_up now) sp1 in
             (Inr (), if idx \<noteq> start then snd (switch_active now start idx Failover sp2) else sp2)
         | Inl e \<Rightarrow> warm_cold env start rest (failures @ [(idx, e)]) (on_state idx (mark_down now) sp1)))"

definition pool_warmup :: "warm_env \<Rightarrow> instant \<Rightarrow> server_pool \<Rightarrow> unit io_result \<times> server_pool" where
  "pool_warmup env now sp =
     (if warm_backups (profile sp) then
        (case warm_all env [0..<length (servers sp)] None [] sp of
           (Some idx, _, sp1) \<Rightarrow> (Inr (), snd (switch_active now (active sp1) idx Warmup sp1))
         | (None, failures, sp1) \<Rightarrow> (Inl (pool_exhausted failures sp1), sp1))
      else let start = active_index sp in warm_cold env start (walk_order start sp) [] sp)"

definition pool_recycle :: "instant \<Rightarrow> server_pool \<Rightarrow> server_pool" where
  "pool_recycle now sp =
     (let sp1 = fold (\<lambda>idx s. on_state idx slot_reset (on_pool idx (recycle now) s)) [0..<length (servers sp)] sp;
          sp2 = sp1\<lparr>active := 0\<rparr>
      in if active sp1 \<noteq> 0
         then emit (''pul serverov peresobran posle smeny seti, snova rabotayu cherez '' @ slot_label (servers sp2 ! 0)) sp2
         else sp2)"

subsection \<open>The health tick\<close>

definition relay_degradation_tick :: "instant \<Rightarrow> server_pool \<Rightarrow> server_pool" where
  "relay_degradation_tick now sp =
     (let a = active_index sp in
      if length (servers sp) < 2 then sp
      else case relay_degraded now (srv_pool (servers sp ! a)) of (deg, mp) \<Rightarrow>
        let sp1 = on_pool a (\<lambda>_. mp) sp in
        if \<not> deg then sp1
        else case List.find (\<lambda>i. \<not> is_down (srv_state (servers sp1 ! i))) (drop 1 (walk_order a sp1)) of
            None \<Rightarrow> sp1
          | Some to \<Rightarrow>
              let sp2 = on_state a (mark_down now) sp1;
                  sp3 = (if within_flap_window now (srv_state (servers sp2 ! a))
                         then on_state a (penalize_flap now (failback_hold (profile sp2))) sp2 else sp2);
                  sp4 = on_pool a (\<lambda>p. p\<lparr>relay_health := health_reset now (relay_health p)\<rparr>) sp3
              in snd (switch_active now a to RelayDegraded sp4))"

text \<open>What awaiting one probe yields.\<close>

type_synonym probe_env = "nat \<Rightarrow> instant \<times> mux_caps option io_result answer"

definition probe_server :: "probe_env \<Rightarrow> nat \<Rightarrow> server_pool \<Rightarrow> server_pool" where
  "probe_server env idx sp =
     (case env idx of
        (now, NoAnswer) \<Rightarrow> on_state idx (mark_down now) sp
      | (now, Answered r) \<Rightarrow>
          (case probe_fresh r (srv_pool (servers sp ! idx)) of
             (Inr _, mp) \<Rightarrow> on_state idx (mark_up now) (on_pool idx (\<lambda>_. mp) sp)
           | (Inl _, mp) \<Rightarrow> on_state idx (mark_down now) (on_pool idx (\<lambda>_. mp) sp)))"

fun failback_scan :: "instant \<Rightarrow> nat \<Rightarrow> nat list \<Rightarrow> server_pool \<Rightarrow> server_pool" where
  "failback_scan now a [] sp = sp"
| "failback_scan now a (idx # rest) sp =
     (let st = srv_state (servers sp ! idx) in
      if failback_suppressed now st then failback_scan now a rest sp
      else case up_for now st of
          Some up \<Rightarrow>
            if failback_hold (profile sp) \<le> up then snd (switch_active now a idx Failback sp)
            else failback_scan now a rest sp
        | None \<Rightarrow> failback_scan now a rest sp)"

text \<open>\<open>warm\<close>: the state each server's pool is in after the background warmup of the warm profile.\<close>

definition health_tick :: "instant \<Rightarrow> (nat \<Rightarrow> mux_pool) \<Rightarrow> probe_env \<Rightarrow> instant \<Rightarrow> server_pool \<Rightarrow> server_pool" where
  "health_tick t0 warm probes t1 sp =
     (let sp1 = relay_degradation_tick t0 sp;
          a = active_index sp1;
          sp2 = (if warm_backups (profile sp1)
                 then fold (\<lambda>i. on_pool i (\<lambda>_. warm i)) [0..<length (servers sp1)] sp1 else sp1);
          sp3 = fold (probe_server probes) [0..<a] sp2;
          a' = active_index sp3
      in failback_scan t1 a' [0..<a'] sp3)"

section \<open>What the operations touch\<close>

abbreviation state_of :: "nat \<Rightarrow> server_pool \<Rightarrow> slot_state" where
  "state_of i sp \<equiv> srv_state (servers sp ! i)"

lemma on_state_sel [simp]:
  "length (servers (on_state i g sp)) = length (servers sp)" "active (on_state i g sp) = active sp"
  "profile (on_state i g sp) = profile sp" "events (on_state i g sp) = events sp"
  by (simp_all add: on_state_def)

lemma on_pool_sel [simp]:
  "length (servers (on_pool i g sp)) = length (servers sp)" "active (on_pool i g sp) = active sp"
  "profile (on_pool i g sp) = profile sp" "events (on_pool i g sp) = events sp"
  by (simp_all add: on_pool_def)

lemma state_of_on_state [simp]:
  "j < length (servers sp) \<Longrightarrow> state_of j (on_state i g sp) = (if j = i then g (state_of j sp) else state_of j sp)"
  by (simp add: on_state_def)

lemma state_of_on_pool [simp]: "j < length (servers sp) \<Longrightarrow> state_of j (on_pool i g sp) = state_of j sp"
  by (cases "j = i") (simp_all add: on_pool_def)

lemma label_on_state [simp]:
  "j < length (servers sp) \<Longrightarrow> slot_label (servers (on_state i g sp) ! j) = slot_label (servers sp ! j)"
  by (cases "j = i") (simp_all add: on_state_def slot_label_def)

lemma label_on_pool [simp]:
  "j < length (servers sp) \<Longrightarrow> slot_label (servers (on_pool i g sp) ! j) = slot_label (servers sp ! j)"
  by (cases "j = i") (simp_all add: on_pool_def slot_label_def)

lemma mark_down_sel [simp]: "is_down (mark_down now st)" "up_since (mark_down now st) = None"
  by (auto simp: mark_down_def is_down_def split: health_state.splits)

lemma mark_up_sel [simp]: "\<not> is_down (mark_up now st)" "up_since (mark_up now st) \<noteq> None"
  by (auto simp: mark_up_def is_down_def split: option.splits)

lemma penalize_sel [simp]:
  "is_down (penalize_flap now h st) = is_down st" "is_down (clear_flap st) = is_down st"
  "is_down (note_became_active now st) = is_down st" "up_since (penalize_flap now h st) = up_since st"
  by (simp_all add: penalize_flap_def clear_flap_def note_became_active_def is_down_def Let_def)

lemma switch_active_sel:
  assumes "switch_active now from to r sp = (b, sp')"
  shows "length (servers sp') = length (servers sp) \<and> profile sp' = profile sp \<and>
    (b \<longleftrightarrow> from \<noteq> to \<and> active sp = from) \<and> active sp' = (if b then to else active sp) \<and>
    (\<forall>j < length (servers sp). is_down (state_of j sp') = is_down (state_of j sp))"
  using assms by (auto simp: switch_active_def emit_def Let_def split: if_splits)

definition sp_ok :: "server_pool \<Rightarrow> bool" where
  "sp_ok sp \<longleftrightarrow> active sp < length (servers sp)"

lemma active_index_ok: "sp_ok sp \<Longrightarrow> active_index sp = active sp"
  by (simp add: sp_ok_def active_index_def)

lemma walk_order_set: "a < length (servers sp) \<Longrightarrow> set (walk_order a sp) = {..<length (servers sp)}"
  by (auto simp: walk_order_def)

lemma walk_order_distinct: "distinct (walk_order a sp)"
  by (simp add: walk_order_def)

section \<open>Failover\<close>

text \<open>A server that does not yield a stream but lets the walk go on.\<close>

definition refuses :: "open_env \<Rightarrow> nat \<Rightarrow> bool" where
  "refuses env i = (case env i of
      (_, Answered (Inr _), _) \<Rightarrow> False
    | (_, Answered (Inl e), _) \<Rightarrow> kind e \<noteq> InvalidInput
    | (_, NoAnswer, _) \<Rightarrow> True)"

definition refusal :: "open_env \<Rightarrow> nat \<Rightarrow> io_error" where
  "refusal env i = (case env i of
      (_, Answered (Inl e), _) \<Rightarrow> e
    | _ \<Rightarrow> IoError TimedOut ''open timed out za 5s'')"

text \<open>The pool after the servers \<open>is\<close> refused in turn.\<close>

definition refused :: "open_env \<Rightarrow> nat list \<Rightarrow> server_pool \<Rightarrow> server_pool" where
  "refused env is sp = fold (\<lambda>i s. on_state i (mark_down (fst (env i))) (on_pool i (\<lambda>_. snd (snd (env i))) s)) is sp"

lemma refused_sel [simp]:
  "length (servers (refused env is sp)) = length (servers sp)" "active (refused env is sp) = active sp"
  "profile (refused env is sp) = profile sp"
  by (induction "is" arbitrary: sp) (simp_all add: refused_def)

lemma refused_state:
  "j < length (servers sp) \<Longrightarrow>
   (j \<in> set is \<longrightarrow> is_down (state_of j (refused env is sp)) \<and> up_since (state_of j (refused env is sp)) = None) \<and>
   (j \<notin> set is \<longrightarrow> state_of j (refused env is sp) = state_of j sp)"
proof (induction "is" arbitrary: sp)
  case (Cons i "is")
  let ?s = "on_state i (mark_down (fst (env i))) (on_pool i (\<lambda>_. snd (snd (env i))) sp)"
  have step: "refused env (i # is) sp = refused env is ?s" by (simp add: refused_def)
  show ?case
    using Cons.IH [of ?s] Cons.prems unfolding step by (cases "j \<in> set is") auto
qed (simp add: refused_def)

lemma open_walk_refused:
  "(\<And>i. i \<in> set pre \<Longrightarrow> refuses env i) \<Longrightarrow>
   open_walk env start (pre @ post) fs sp =
     open_walk env start post (fs @ map (\<lambda>i. (i, refusal env i)) pre) (refused env pre sp)"
proof (induction pre arbitrary: fs sp)
  case (Cons i pre)
  obtain now out mp where e: "env i = (now, out, mp)" by (metis prod_cases3)
  have "refuses env i" using Cons.prems by simp
  then have "open_walk env start ((i # pre) @ post) fs sp =
      open_walk env start (pre @ post) (fs @ [(i, refusal env i)])
        (on_state i (mark_down (fst (env i))) (on_pool i (\<lambda>_. snd (snd (env i))) sp))"
    by (auto simp: e refuses_def refusal_def Let_def split: answer.splits sum.splits)
  then show ?case using Cons by (simp add: refused_def)
qed (simp add: refused_def)

text \<open>Undisturbed, the turns after an answer add up to \<^const>\<open>open_succeeded\<close>.\<close>

lemma open_succeeded_turns:
  assumes "start < length (servers sp)" and "idx < length (servers sp)"
  shows "((\<lambda>(c, s). open_turn now out c s) ^^ 5) (Answering start idx stream, on_state idx (mark_up now) sp) = (Opened (Inr stream), open_succeeded now start idx sp)"
proof -
  have five: "(g ^^ 5) x = g (g (g (g (g x))))" for g :: "opener \<times> server_pool \<Rightarrow> opener \<times> server_pool" and x by (simp add: numeral_eq_Suc)
  have ec: "on_state i g (s\<lparr>active := x\<rparr>) = (on_state i g s)\<lparr>active := x\<rparr>" for i g s x by (simp add: on_state_def)
  show ?thesis unfolding five using assms
    by (cases "idx = start") (simp_all add: open_succeeded_def switch_active_def ec Let_def)
qed

subsection \<open>A caller among others\<close>

text \<open>\<open>turn k\<close>: the time, the answer and the pool that the caller finds at its turn \<open>k\<close>; \<open>left_at\<close>: the pool as it leaves it.\<close>

type_synonym open_turns = "nat \<Rightarrow> instant \<times> mux_ref io_result answer \<times> server_pool"

primrec opener_at :: "open_turns \<Rightarrow> nat \<Rightarrow> opener" where
  "opener_at turn 0 = Arriving"
| "opener_at turn (Suc k) = (case turn k of (now, out, sp) \<Rightarrow> fst (open_turn now out (opener_at turn k) sp))"

declare opener_at.simps(2) [simp del]

definition time_at :: "open_turns \<Rightarrow> nat \<Rightarrow> instant" where
  "time_at turn k = fst (turn k)"

definition answer_at :: "open_turns \<Rightarrow> nat \<Rightarrow> mux_ref io_result answer" where
  "answer_at turn k = fst (snd (turn k))"

definition pool_at :: "open_turns \<Rightarrow> nat \<Rightarrow> server_pool" where
  "pool_at turn k = snd (snd (turn k))"

definition left_at :: "open_turns \<Rightarrow> nat \<Rightarrow> server_pool" where
  "left_at turn k = snd (open_turn (time_at turn k) (answer_at turn k) (opener_at turn k) (pool_at turn k))"

definition in_vain :: "mux_ref io_result answer \<Rightarrow> bool" where
  "in_vain out = (case out of Answered (Inr _) \<Rightarrow> False | Answered (Inl e) \<Rightarrow> kind e \<noteq> InvalidInput | NoAnswer \<Rightarrow> True)"

lemma opener_at_Suc: "opener_at turn (Suc k) = fst (open_turn (time_at turn k) (answer_at turn k) (opener_at turn k) (pool_at turn k))"
  by (simp add: opener_at.simps time_at_def answer_at_def pool_at_def split: prod.splits)

lemma asking_at:
  assumes "active (pool_at turn 0) < length (servers (pool_at turn 0))" and "walk_order (active (pool_at turn 0)) (pool_at turn 0) = pre @ post"
    and "\<forall>k < length pre. in_vain (answer_at turn (Suc k))" and "n \<le> length pre"
  shows "\<exists>fs. opener_at turn (Suc n) = Asking (active (pool_at turn 0)) (drop n pre @ post) fs"
  using assms(4)
proof (induction n)
  case 0
  then show ?case using assms(1,2) by (simp add: opener_at_Suc active_index_def Let_def min_def)
next
  case (Suc n)
  then obtain fs where fs: "opener_at turn (Suc n) = Asking (active (pool_at turn 0)) (drop n pre @ post) fs" by auto
  have d: "drop n pre = pre ! n # drop (Suc n) pre" "in_vain (answer_at turn (Suc n))" using Suc.prems assms(3) by (simp_all add: Cons_nth_drop_Suc)
  show ?case unfolding opener_at_Suc [of turn "Suc n"] fs using d by (auto simp: in_vain_def split: answer.splits sum.splits)
qed

lemma asking_left:
  assumes "opener_at turn k = Asking start (i # rest) fs" and "in_vain (answer_at turn k)"
  shows "left_at turn k = on_state i (mark_down (time_at turn k)) (pool_at turn k)"
  using assms by (auto simp: left_at_def in_vain_def split: answer.splits sum.splits)

text \<open>After an answer: which places the caller passes, and that it swaps the active server at one turn only.\<close>

fun settling :: "nat \<Rightarrow> nat \<Rightarrow> mux_ref \<Rightarrow> opener \<Rightarrow> bool" where
  "settling start idx stream (Answering a i m) \<longleftrightarrow> a = start \<and> i = idx \<and> m = stream"
| "settling start idx stream (Penalising a i m) \<longleftrightarrow> a = start \<and> i = idx \<and> m = stream \<and> idx \<noteq> start"
| "settling start idx stream (Clearing a m) \<longleftrightarrow> a = start \<and> m = stream"
| "settling start idx stream (Swapping a i m) \<longleftrightarrow> a = start \<and> i = idx \<and> m = stream \<and> idx \<noteq> start"
| "settling start idx stream (Noting a i m) \<longleftrightarrow> a = start \<and> i = idx \<and> m = stream"
| "settling start idx stream (Telling a i m) \<longleftrightarrow> a = start \<and> i = idx \<and> m = stream"
| "settling start idx stream (Opened r) \<longleftrightarrow> r = Inr stream"
| "settling start idx stream _ \<longleftrightarrow> False"

fun turns_left :: "opener \<Rightarrow> nat" where
  "turns_left (Answering _ _ _) = 5" | "turns_left (Penalising _ _ _) = 4" | "turns_left (Swapping _ _ _) = 3" | "turns_left (Noting _ _ _) = 2"
| "turns_left (Telling _ _ _) = 1" | "turns_left (Clearing _ _) = 1" | "turns_left _ = 0"

lemma settling_turn:
  assumes "settling start idx stream c" and "open_turn now out c sp = (c', sp')"
  shows "settling start idx stream c' \<and> turns_left c' \<le> turns_left c - 1 \<and>
    (\<forall>j < length (servers sp). is_down (state_of j sp') = is_down (state_of j sp)) \<and>
    active sp' = (if (\<exists>m. c = Swapping start idx m) \<and> active sp = start then idx else active sp)"
  using assms by (cases c) (auto simp: Let_def emit_def split: if_splits)

lemma settling_later:
  assumes "settling start idx stream (opener_at turn t)" and "t \<le> k"
  shows "settling start idx stream (opener_at turn k) \<and> turns_left (opener_at turn k) \<le> turns_left (opener_at turn t) - (k - t)"
  using assms(2)
proof (induction k rule: dec_induct)
  case (step k)
  obtain c sp' where "open_turn (time_at turn k) (answer_at turn k) (opener_at turn k) (pool_at turn k) = (c, sp')" by fastforce
  from settling_turn [OF _ this, of start idx stream] step show ?case unfolding opener_at_Suc by (auto simp: \<open>open_turn _ _ _ _ = _\<close>)
qed (use assms(1) in simp)

text \<open>The caller stands before the swap once at most, since its turns left go down.\<close>

lemma swap_once:
  assumes "settling start idx stream (opener_at turn t)" and "t \<le> m" "opener_at turn m = Swapping start idx x" and "t \<le> k" "opener_at turn k = Swapping start idx y"
  shows "k = m"
proof -
  have no: "\<not> i < j" if "t \<le> i" "opener_at turn i = Swapping start idx u" "opener_at turn j = Swapping start idx v" for i j u v
  proof
    assume "i < j"
    moreover have "settling start idx stream (opener_at turn i)" using settling_later [OF assms(1) that(1)] by simp
    ultimately have "turns_left (opener_at turn j) \<le> turns_left (opener_at turn i) - (j - i)" using settling_later [of start idx stream turn i j] by simp
    then show False using that(2,3) \<open>i < j\<close> by (simp only: turns_left.simps)
  qed
  show ?thesis using no [OF assms(2,3,5)] no [OF assms(4,5,3)] by simp
qed

lemma swap_turn:
  assumes "opener_at turn t = Answering start idx stream" and "idx \<noteq> start"
  shows "\<exists>m. m \<in> {Suc t, Suc (Suc t)} \<and> opener_at turn m = Swapping start idx stream"
proof (cases "within_flap_window (time_at turn t) (state_of start (pool_at turn t))")
  case True
  then have "opener_at turn (Suc t) = Penalising start idx stream" using assms by (simp add: opener_at_Suc Let_def)
  then have "opener_at turn (Suc (Suc t)) = Swapping start idx stream" by (simp add: opener_at_Suc [of turn "Suc t"])
  then show ?thesis by blast
next
  case False
  then have "opener_at turn (Suc t) = Swapping start idx stream" using assms by (simp add: opener_at_Suc Let_def)
  then show ?thesis by blast
qed

text \<open>
  C5. Failover finds the first server that answers, whatever other callers, health ticks and warmups do to the pool in the meantime. The caller reads
  the active server \<open>start\<close> once, asks it first and then the others by priority; if every server before \<open>idx\<close> in that order refuses or stays silent
  and \<open>idx\<close> yields a stream, the caller gets that stream a few turns later. At its turn each server that was tried in vain is marked down and
  \<open>idx\<close> is marked up, and with that the caller touches the mark of no other server. It changes the active server at one turn at most: if
  \<open>idx\<close> is not \<open>start\<close>, and if \<open>start\<close> is still the active one at that turn, \<open>idx\<close> takes its place; if another caller was faster, it leaves its choice alone.
\<close>

theorem failover_first_answering:
  assumes "\<forall>k. length (servers (pool_at turn k)) = n" and "start = active (pool_at turn 0)" and "start < n"
    and "start # filter (\<lambda>i. i \<noteq> start) [0..<n] = pre @ idx # post"
    and "\<forall>k < length pre. in_vain (answer_at turn (Suc k))" and "answer_at turn (Suc (length pre)) = Answered (Inr stream)"
  shows "(\<forall>k \<ge> length pre + 7. opener_at turn k = Opened (Inr stream)) \<and>
    (\<forall>k < length pre. left_at turn (Suc k) = on_state (pre ! k) (mark_down (time_at turn (Suc k))) (pool_at turn (Suc k))) \<and>
    left_at turn (Suc (length pre)) = on_state idx (mark_up (time_at turn (Suc (length pre)))) (pool_at turn (Suc (length pre))) \<and>
    (\<forall>k > Suc (length pre). \<forall>j < n. is_down (state_of j (left_at turn k)) = is_down (state_of j (pool_at turn k))) \<and>
    (\<exists>m \<le> length pre + 4. \<forall>k. active (left_at turn k) = (if k = m \<and> idx \<noteq> start \<and> active (pool_at turn k) = start then idx else active (pool_at turn k)))"
proof -
  let ?t = "Suc (length pre)"
  have w: "walk_order (active (pool_at turn 0)) (pool_at turn 0) = pre @ idx # post" using assms(1,2,4) by (simp add: walk_order_def)
  have a: "active (pool_at turn 0) < length (servers (pool_at turn 0))" using assms(1-3) by simp
  have ask: "\<exists>fs. opener_at turn (Suc k) = Asking start (drop k pre @ idx # post) fs" if "k \<le> length pre" for k
    using asking_at [OF a w assms(5) that] assms(2) by simp
  have vain: "left_at turn (Suc k) = on_state (pre ! k) (mark_down (time_at turn (Suc k))) (pool_at turn (Suc k))" if "k < length pre" for k
    using ask [of k] that assms(5) asking_left [of turn "Suc k" start "pre ! k"] by (auto simp: Cons_nth_drop_Suc [symmetric])
  obtain fs where fs: "opener_at turn ?t = Asking start (idx # post) fs" using ask [of "length pre"] by auto
  then have up: "left_at turn ?t = on_state idx (mark_up (time_at turn ?t)) (pool_at turn ?t)" "opener_at turn (Suc ?t) = Answering start idx stream"
    using assms(6) by (simp_all add: left_at_def opener_at_Suc [of turn ?t])
  then have st: "settling start idx stream (opener_at turn (Suc ?t))" by simp
  have later: "settling start idx stream (opener_at turn k)" if "Suc ?t \<le> k" for k using settling_later [OF st that] by simp
  have fin: "opener_at turn k = Opened (Inr stream)" if "length pre + 7 \<le> k" for k
    using settling_later [OF st, of k] that up(2) by (cases "opener_at turn k") auto
  have marks: "\<forall>j < n. is_down (state_of j (left_at turn k)) = is_down (state_of j (pool_at turn k))"
    and act: "active (left_at turn k) = (if (\<exists>x. opener_at turn k = Swapping start idx x) \<and> active (pool_at turn k) = start then idx else active (pool_at turn k))"
    if "Suc ?t \<le> k" for k
    using settling_turn [OF later [OF that] surjective_pairing, of "time_at turn k" "answer_at turn k" "pool_at turn k"] assms(1) by (simp_all add: left_at_def)
  have early: "active (left_at turn k) = active (pool_at turn k)" if "k \<le> ?t" for k
  proof (cases k)
    case 0
    then show ?thesis by (simp add: left_at_def Let_def)
  next
    case (Suc k')
    then show ?thesis using that vain [of k'] up(1) by (cases "k' = length pre") auto
  qed
  have "\<exists>m \<le> length pre + 4. \<forall>k. active (left_at turn k) = (if k = m \<and> idx \<noteq> start \<and> active (pool_at turn k) = start then idx else active (pool_at turn k))"
  proof (cases "idx = start")
    case True
    then have "active (left_at turn k) = active (pool_at turn k)" for k using early [of k] act [of k] by (cases "k \<le> ?t") auto
    then show ?thesis using True by auto
  next
    case False
    then obtain m where m: "m \<in> {Suc (Suc ?t), Suc (Suc (Suc ?t))}" "opener_at turn m = Swapping start idx stream" using swap_turn [OF up(2)] by blast
    have "active (left_at turn k) = (if k = m \<and> idx \<noteq> start \<and> active (pool_at turn k) = start then idx else active (pool_at turn k))" for k
    proof (cases "Suc ?t \<le> k")
      case True
      have "(\<exists>x. opener_at turn k = Swapping start idx x) \<longleftrightarrow> k = m" using swap_once [OF st _ m(2) True] m by auto
      then show ?thesis using act [OF True] False by simp
    next
      case nt: False
      then show ?thesis using early [of k] m(1) by auto
    qed
    then show ?thesis using m(1) by (intro exI [of _ m]) auto
  qed
  then show ?thesis using fin vain up(1) marks by auto
qed

text \<open>
  When every server refuses, the error speaks for the primary: the pool keeps its active server,
  all servers are marked down, and with at least two of them the error has the kind of the
  primary's own failure, whichever server was active.
\<close>

theorem exhausted_blames_primary:
  assumes "sp_ok sp" and "2 \<le> length (servers sp)" and "\<And>i. i < length (servers sp) \<Longrightarrow> refuses env i"
  shows "\<exists>e. fst (open_stream env sp) = Inl e \<and> kind e = kind (refusal env 0) \<and>
    active (snd (open_stream env sp)) = active sp \<and>
    (\<forall>j < length (servers sp). is_down (state_of j (snd (open_stream env sp))))"
proof -
  have a: "active sp < length (servers sp)" using assms(1) by (simp add: sp_ok_def)
  let ?o = "walk_order (active sp) sp" and ?fs = "map (\<lambda>i. (i, refusal env i)) (walk_order (active sp) sp)"
  have set_o: "set ?o = {..<length (servers sp)}" by (rule walk_order_set [OF a])
  have run: "open_stream env sp = (Inl (pool_exhausted ?fs (refused env ?o sp)), refused env ?o sp)"
    using assms open_walk_refused [of ?o env "active sp" "[]" "[]" sp] set_o
    by (simp add: open_stream_def active_index_ok Let_def)
  have len: "length ?o = length (servers sp)"
    using distinct_card [OF walk_order_distinct [of "active sp" sp]] set_o by simp
  let ?s = "sort_key fst ?fs"
  have ne: "?s \<noteq> []" using len a by (metis length_map length_sort list.size(3) not_less_zero)
  have pos: "0 < length ?s" using ne by blast
  have mem: "?s ! 0 \<in> set ?fs" using ne by (metis length_greater_0_conv nth_mem set_sort)
  have "(0, refusal env 0) \<in> set ?s" using set_o a by auto
  then obtain k where k: "k < length ?s" "?s ! k = (0, refusal env 0)" by (metis in_set_conv_nth)
  have "fst (?s ! 0) \<le> fst (?s ! k)"
    using sorted_nth_mono [of "map fst ?s" 0 k] k(1) nth_map [of 0 ?s fst, OF pos] by simp
  then have "?s ! 0 = (0, refusal env 0)" using mem k by auto
  then have "kind (pool_exhausted ?fs (refused env ?o sp)) = kind (refusal env 0)"
    using len assms(2) by (simp add: pool_exhausted_def Let_def)
  moreover have "is_down (state_of j (refused env ?o sp))" if "j < length (servers sp)" for j
    using refused_state [OF that, of ?o env] set_o that by auto
  ultimately show ?thesis using run by simp
qed

text \<open>
  A request the servers cannot encode costs the pool nothing: when the active server answers with
  InvalidInput, that error is returned at once, and the active server and the health, the flap
  penalty and the timers of every server are unchanged.
\<close>

theorem invalid_target_spares_servers:
  assumes "sp_ok sp" and "env (active sp) = (now, Answered (Inl e), mp)" and "kind e = InvalidInput"
  shows "fst (open_stream env sp) = Inl e \<and> active (snd (open_stream env sp)) = active sp \<and>
    (\<forall>j < length (servers sp). state_of j (snd (open_stream env sp)) = state_of j sp)"
  using assms by (simp add: open_stream_def active_index_ok walk_order_def Let_def)

section \<open>Failback\<close>

lemma failback_scan_sel:
  "active sp = a \<Longrightarrow> (\<And>i. i \<in> set is \<Longrightarrow> i < a) \<Longrightarrow> a < length (servers sp) \<Longrightarrow>
   (active (failback_scan now a is sp) = a \<and> failback_scan now a is sp = sp) \<or>
   (\<exists>i \<in> set is. active (failback_scan now a is sp) = i \<and> \<not> failback_suppressed now (state_of i sp) \<and>
      (\<exists>t. up_since (state_of i sp) = Some t \<and> failback_hold (profile sp) \<le> now - t))"
proof (induction "is")
  case (Cons idx rest)
  show ?case
  proof (cases "\<not> failback_suppressed now (state_of idx sp) \<and>
      (\<exists>t. up_since (state_of idx sp) = Some t \<and> failback_hold (profile sp) \<le> now - t)")
    case True
    then have "failback_scan now a (idx # rest) sp = snd (switch_active now a idx Failback sp)"
      by (auto simp: up_for_def Let_def)
    moreover have "idx < a" using Cons.prems(2) by simp
    ultimately show ?thesis
      using True Cons.prems switch_active_sel [of now a idx Failback sp] by (auto simp: prod_eq_iff)
  next
    case False
    then have "failback_scan now a (idx # rest) sp = failback_scan now a rest sp"
      by (auto simp: up_for_def Let_def split: option.splits)
    moreover have "i < a" if "i \<in> set rest" for i using that Cons.prems(2) by simp
    ultimately show ?thesis using Cons.IH [OF Cons.prems(1) _ Cons.prems(3)] by fastforce
  qed
qed simp

text \<open>
  Failback is earned: the scan of a health tick moves the active role only to a server of higher
  priority that has been up without interruption for the hold-down, and never to one under a flap
  penalty, which lasts the hold-down doubled for every flap in a row (at most six times), up to
  thirty minutes.
\<close>

theorem failback_respects_hold:
  assumes "sp_ok sp" and "sp' = failback_scan now (active sp) [0..<active sp] sp" and "active sp' \<noteq> active sp"
  shows "active sp' < active sp \<and>
    (\<exists>t. up_since (state_of (active sp') sp) = Some t \<and> failback_hold (profile sp) \<le> now - t) \<and>
    (\<forall>t h st. state_of (active sp') sp = penalize_flap t h st \<longrightarrow>
       t + min (h * 2 ^ min (flap_count st + 1) 6) (from_secs 1800) \<le> now)"
proof -
  obtain i where i: "i < active sp" "active sp' = i" "\<not> failback_suppressed now (state_of i sp)"
      "\<exists>t. up_since (state_of i sp) = Some t \<and> failback_hold (profile sp) \<le> now - t"
    using failback_scan_sel [of sp "active sp" "[0..<active sp]" now] assms by (auto simp: sp_ok_def)
  moreover have "t + min (h * 2 ^ min (flap_count st + 1) 6) (from_secs 1800) \<le> now"
    if "state_of i sp = penalize_flap t h st" for t h st
    using i(3) that by (simp add: failback_suppressed_def penalize_flap_def Let_def FAILBACK_FLAP_CAP_def
        FAILBACK_BACKOFF_MAX_def)
  ultimately show ?thesis by simp
qed

section \<open>Stale marks\<close>

datatype sp_op = Tick instant "nat \<Rightarrow> mux_pool" probe_env instant | Open open_env

fun run_op :: "sp_op \<Rightarrow> server_pool \<Rightarrow> server_pool" where
  "run_op (Tick t0 warm probes t1) sp = health_tick t0 warm probes t1 sp"
| "run_op (Open env) sp = snd (open_stream env sp)"

definition backups_down :: "server_pool \<Rightarrow> bool" where
  "backups_down sp \<longleftrightarrow> active sp = 0 \<and> 2 \<le> length (servers sp) \<and>
     (\<forall>i < length (servers sp). 0 < i \<longrightarrow> is_down (state_of i sp))"

lemma backups_down_on_pool: "backups_down (on_pool i g sp) = backups_down sp"
  by (simp add: backups_down_def)

lemma backups_down_degradation: 
  assumes "backups_down sp"
  shows "backups_down (relay_degradation_tick now sp)"
proof -
  have a: "active_index sp = 0" using assms by (simp add: backups_down_def active_index_def)
  obtain deg mp where d: "relay_degraded now (srv_pool (servers sp ! 0)) = (deg, mp)" by fastforce
  let ?sp = "on_pool 0 (\<lambda>_. mp) sp"
  have "drop 1 (walk_order 0 ?sp) = filter (\<lambda>i. i \<noteq> 0) [0..<length (servers sp)]" by (simp add: walk_order_def)
  then have "List.find (\<lambda>i. \<not> is_down (state_of i ?sp)) (drop 1 (walk_order 0 ?sp)) = None"
    using assms by (auto simp: find_None_iff backups_down_def)
  then have "relay_degradation_tick now sp = (if length (servers sp) < 2 then sp else ?sp)"
    by (simp add: relay_degradation_tick_def a d Let_def)
  then show ?thesis using assms by (simp add: backups_down_on_pool)
qed

lemma backups_down_tick:
  assumes "backups_down sp"
  shows "backups_down (health_tick t0 warm probes t1 sp)"
proof -
  let ?sp1 = "relay_degradation_tick t0 sp"
  have "backups_down (fold (\<lambda>i. on_pool i (\<lambda>_. warm i)) is s)" if "backups_down s" for "is" s
    using that by (induction "is" arbitrary: s) (simp_all add: backups_down_on_pool)
  moreover have "backups_down ?sp1" using assms by (rule backups_down_degradation)
  moreover have "active_index s = 0" if "backups_down s" for s
    using that by (simp add: backups_down_def active_index_def)
  ultimately show ?thesis by (simp add: health_tick_def Let_def)
qed

lemma backups_down_open:
  assumes "backups_down sp" and "env 0 = (now, Answered (Inr s), mp)"
  shows "backups_down (snd (open_stream env sp))"
proof -
  have a: "active_index sp = 0" using assms by (simp add: backups_down_def active_index_def)
  have "open_stream env sp = (Inr s, open_succeeded now 0 0 (on_pool 0 (\<lambda>_. mp) sp))"
    using assms(2) by (simp add: open_stream_def a walk_order_def Let_def)
  then show ?thesis using assms(1) by (auto simp: open_succeeded_def Let_def backups_down_def)
qed

text \<open>
  A mark of being down on a backup can outlive the outage for ever. While the primary is active
  and serves, no health tick probes the backups, whatever its warmups find; so after an outage that
  marked them all down, relay degradation of the primary finds nowhere to go and the active
  server stays the primary, however healthy the backups are.
\<close>

theorem stale_down_blocks_relay_failover:
  assumes "active sp = 0" and "2 \<le> length (servers sp)"
    and "\<And>i. 0 < i \<Longrightarrow> i < length (servers sp) \<Longrightarrow> is_down (state_of i sp)"
    and "\<And>env. Open env \<in> set ops \<Longrightarrow> \<exists>now s mp. env 0 = (now, Answered (Inr s), mp)"
  shows "active (fold run_op ops sp) = 0 \<and>
    (\<forall>i < length (servers (fold run_op ops sp)). 0 < i \<longrightarrow> is_down (state_of i (fold run_op ops sp)))"
proof -
  have "backups_down sp" using assms(1-3) by (simp add: backups_down_def)
  then have "backups_down (fold run_op ops sp)"
    using assms(4)
  proof (induction ops arbitrary: sp)
    case (Cons op ops)
    have "backups_down (run_op op sp)"
    proof (cases op)
      case (Open env)
      then show ?thesis using Cons.prems backups_down_open by (metis list.set_intros(1) run_op.simps(2))
    qed (use Cons.prems(1) backups_down_tick in simp)
    then show ?case using Cons by simp
  qed simp
  then show ?thesis by (simp add: backups_down_def)
qed

section \<open>Concrete pools\<close>

definition two_servers :: server_pool where
  "two_servers = \<lparr>servers = map (\<lambda>n. \<lparr>srv_name = n, srv_addr = n, srv_pool = pool_new Usize64 0 1,
      srv_state = slot_state_new\<rparr>) [''de'', ''nl''], active = 0, profile = profile_router, events = []\<rparr>"

definition primary_silent :: open_env where
  "primary_silent i = (if i = 0 then (from_secs 5, NoAnswer, pool_new Usize64 0 1)
     else (from_secs 6, Answered (Inr \<lparr>mx_id = 7, mx_alive = True\<rparr>), pool_new Usize64 0 1))"

lemma two_servers_sel: "sp_ok two_servers" "active two_servers = 0" "length (servers two_servers) = 2"
  by (simp_all add: two_servers_def sp_ok_def)

text \<open>Two callers find the primary silent: the second, slower one gets its stream too, but leaves the active server as the first has set it.\<close>

definition slower_turns :: open_turns where
  "slower_turns k = (if k = 0 then (0, NoAnswer, two_servers)
     else if k = 1 then (from_secs 5, NoAnswer, two_servers)
     else (from_secs 6, Answered (Inr \<lparr>mx_id = 7, mx_alive = True\<rparr>), two_servers\<lparr>active := 1\<rparr>))"

theorem failover_first_answering_witness:
  "opener_at slower_turns 8 = Opened (Inr \<lparr>mx_id = 7, mx_alive = True\<rparr>) \<and>
   left_at slower_turns 1 = on_state 0 (mark_down (from_secs 5)) two_servers \<and> (\<forall>k. active (left_at slower_turns (k + 2)) = 1)"
proof -
  have len: "\<forall>k. length (servers (pool_at slower_turns k)) = 2" by (simp add: slower_turns_def pool_at_def two_servers_sel)
  have w: "(0 :: nat) # filter (\<lambda>i. i \<noteq> 0) [0..<2] = [0] @ 1 # []" by (simp add: upt_rec)
  have "0 = active (pool_at slower_turns 0)" "(0 :: nat) < 2" "\<forall>k < length [0 :: nat]. in_vain (answer_at slower_turns (Suc k))"
      "answer_at slower_turns (Suc (length [0 :: nat])) = Answered (Inr \<lparr>mx_id = 7, mx_alive = True\<rparr>)"
    by (simp_all add: slower_turns_def pool_at_def answer_at_def in_vain_def two_servers_sel)
  note f = failover_first_answering [OF len this(1,2) w this(3,4)]
  have act: "active (pool_at slower_turns (k + 2)) = 1" for k by (simp add: slower_turns_def pool_at_def)
  have "active (left_at slower_turns (k + 2)) = 1" for k using f act [of k] by auto
  then show ?thesis using f by (auto simp: slower_turns_def pool_at_def time_at_def)
qed

text \<open>Undisturbed: the backup takes over.\<close>

lemma primary_silent_failover:
  "fst (open_stream primary_silent two_servers) = Inr \<lparr>mx_id = 7, mx_alive = True\<rparr> \<and> active (snd (open_stream primary_silent two_servers)) = 1"
  by (simp add: open_stream_def active_index_def two_servers_sel walk_order_def upt_rec primary_silent_def open_succeeded_def switch_active_def emit_def Let_def)

definition both_silent :: open_env where
  "both_silent i = (from_secs 5, if i = 0 then NoAnswer else Answered (Inl (IoError ConnectionRefused ''no'')), pool_new Usize64 0 1)"

theorem exhausted_blames_primary_witness:
  "\<exists>e. fst (open_stream both_silent two_servers) = Inl e \<and> kind e = TimedOut"
proof -
  have "refuses both_silent i" for i by (simp add: both_silent_def refuses_def)
  moreover have "kind (refusal both_silent 0) = TimedOut" by (simp add: both_silent_def refusal_def)
  ultimately show ?thesis
    using exhausted_blames_primary [OF two_servers_sel(1), of both_silent] by (auto simp: two_servers_sel)
qed

theorem invalid_target_spares_servers_witness:
  "fst (open_stream (\<lambda>i. (0, Answered (Inl (IoError InvalidInput ''x'')), pool_new Usize64 0 1)) two_servers)
     = Inl (IoError InvalidInput ''x'')"
  using invalid_target_spares_servers [OF two_servers_sel(1),
      of "\<lambda>i. (0, Answered (Inl (IoError InvalidInput ''x'')), pool_new Usize64 0 1)"] by simp

definition on_backup :: server_pool where
  "on_backup = on_state 0 (mark_up 0) (two_servers\<lparr>active := 1\<rparr>)"

theorem failback_respects_hold_witness:
  "active (failback_scan (from_secs 60) 1 [0..<1] on_backup) = 0 \<and>
   (\<exists>t. up_since (state_of 0 on_backup) = Some t \<and> failback_hold (profile on_backup) \<le> from_secs 60 - t)"
proof -
  let ?sp = "failback_scan (from_secs 60) (active on_backup) [0..<active on_backup] on_backup"
  have b: "sp_ok on_backup" "active on_backup = 1"
    by (simp_all add: on_backup_def sp_ok_def two_servers_def)
  have z: "active ?sp = 0"
    by (simp add: on_backup_def two_servers_def on_state_def mark_up_def slot_state_new_def failback_suppressed_def
        up_for_def profile_router_def switch_active_def emit_def Let_def)
  show ?thesis using failback_respects_hold [OF b(1) refl, of "from_secs 60"] z b(2) by simp
qed

definition outage :: server_pool where
  "outage = on_state 1 (mark_down 0) two_servers"

theorem stale_down_blocks_relay_failover_witness:
  "active (fold run_op [Open (\<lambda>i. (1, Answered (Inr \<lparr>mx_id = 7, mx_alive = True\<rparr>), pool_new Usize64 0 1)),
     Tick 2 (\<lambda>i. pool_new Usize64 0 1) (\<lambda>i. (2, NoAnswer)) 3] outage) = 0"
proof -
  have "is_down (state_of i outage)" if "0 < i" "i < length (servers outage)" for i
    using that by (simp add: outage_def two_servers_sel less_Suc_eq numeral_2_eq_2)
  then show ?thesis
    using stale_down_blocks_relay_failover [of outage "[Open (\<lambda>i. (1, Answered (Inr \<lparr>mx_id = 7, mx_alive = True\<rparr>), pool_new Usize64 0 1)),
     Tick 2 (\<lambda>i. pool_new Usize64 0 1) (\<lambda>i. (2, NoAnswer)) 3]"]
    by (auto simp: outage_def two_servers_sel)
qed

end
