(* ===== verification/Fake_Dns.thy ===== *)
theory Fake_Dns
  imports Protocol Rust_Str "HOL-Library.AList"
begin

unbundle bit_operations_syntax

text \<open>
  The fake DNS resolver, \<^verbatim>\<open>xr-core/src/dns.rs\<close>: the two-way map between domains and addresses of
  198.18.0.0/15, allocation with expiry and eviction, and the parser and builder of DNS packets.
  The hash maps are association lists with distinct keys (the code never depends on their order).
  Lower-casing of names that are not ASCII follows the Unicode tables and is an argument.

  The invariant says that every name points at an entry of its own; from it follow that lookups
  after an allocation find the name until its entry expires, and that no live entry is evicted while an address is free.
\<close>

declare map_of_eq_Some_iff [simp del] Some_eq_map_of_iff [simp del]

section \<open>State\<close>

definition FAKE_IP_BASE :: u32 where "FAKE_IP_BASE = 0xC6120000"
definition FAKE_IP_MASK :: u32 where "FAKE_IP_MASK = 0xFFFE0000"
definition FAKE_IP_POOL_SIZE :: nat where "FAKE_IP_POOL_SIZE = unat (NOT FAKE_IP_MASK) - 1"
definition DEFAULT_TTL :: duration where "DEFAULT_TTL = from_secs 3600"

record dns_entry =
  fe_domain :: string
  fe_created :: instant
  fe_last_used :: nat

record fake_dns =
  domain_to_ip :: "(string \<times> u32) list"
  ip_to_entry :: "(u32 \<times> dns_entry) list"
  next_offset :: nat
  fd_pool_size :: nat
  uses :: nat
  exhaustion_reported :: bool
  ttl :: duration

definition fake_dns_build :: "duration \<Rightarrow> nat \<Rightarrow> fake_dns" where
  "fake_dns_build t size0 =
     \<lparr>domain_to_ip = [], ip_to_entry = [], next_offset = 1,
      fd_pool_size = max 1 (min size0 FAKE_IP_POOL_SIZE), uses = 0, exhaustion_reported = False, ttl = t\<rparr>"

definition fake_dns_new :: fake_dns where
  "fake_dns_new = fake_dns_build DEFAULT_TTL FAKE_IP_POOL_SIZE"

definition fake_dns_with_ttl :: "duration \<Rightarrow> fake_dns" where
  "fake_dns_with_ttl t = fake_dns_build t FAKE_IP_POOL_SIZE"

section \<open>Entries\<close>

definition live :: "instant \<Rightarrow> fake_dns \<Rightarrow> dns_entry \<Rightarrow> bool" where
  "live now s e \<longleftrightarrow> elapsed (fe_created e) now < ttl s"

definition remove_entry_inner :: "u32 \<Rightarrow> fake_dns \<Rightarrow> dns_entry option \<times> fake_dns" where
  "remove_entry_inner ip s = (case map_of (ip_to_entry s) ip of
      None \<Rightarrow> (None, s)
    | Some e \<Rightarrow>
        let s1 = s\<lparr>ip_to_entry := AList.delete ip (ip_to_entry s)\<rparr> in
        (Some e,
         if map_of (domain_to_ip s1) (fe_domain e) = Some ip
         then s1\<lparr>domain_to_ip := AList.delete (fe_domain e) (domain_to_ip s1)\<rparr> else s1))"

definition evict_expired_inner :: "instant \<Rightarrow> fake_dns \<Rightarrow> fake_dns" where
  "evict_expired_inner now s =
     fold (\<lambda>ip s. snd (remove_entry_inner ip s))
       (map fst (filter (\<lambda>(ip, e). \<not> live now s e) (ip_to_entry s))) s"

definition touch :: "u32 \<Rightarrow> dns_entry \<Rightarrow> fake_dns \<Rightarrow> fake_dns" where
  "touch ip e s = s\<lparr>ip_to_entry := AList.update ip (e\<lparr>fe_last_used := uses s\<rparr>) (ip_to_entry s)\<rparr>"

section \<open>Allocation\<close>

text \<open>The walk over the pool: at most \<open>k\<close> more candidates from the cursor on.\<close>

fun alloc_scan :: "instant \<Rightarrow> nat \<Rightarrow> fake_dns \<Rightarrow> u32 option \<times> fake_dns" where
  "alloc_scan now 0 s = (None, s)"
| "alloc_scan now (Suc k) s =
     (let candidate = FAKE_IP_BASE OR of_nat (next_offset s);
          s1 = s\<lparr>next_offset := next_offset s + 1\<rparr>;
          s2 = (if next_offset s1 > fd_pool_size s1
                then evict_expired_inner now (s1\<lparr>next_offset := 1\<rparr>) else s1)
      in case map_of (ip_to_entry s2) candidate of
           Some old \<Rightarrow>
             if live now s2 old then alloc_scan now k s2
             else (Some candidate, snd (remove_entry_inner candidate s2))
         | None \<Rightarrow> (Some candidate, s2))"

text \<open>\<^verbatim>\<open>min_by_key\<close> with the key \<^verbatim>\<open>(last_used, ip)\<close>.\<close>

definition key_le :: "u32 \<times> dns_entry \<Rightarrow> u32 \<times> dns_entry \<Rightarrow> bool" where
  "key_le x y \<longleftrightarrow> fe_last_used (snd x) < fe_last_used (snd y) \<or>
     fe_last_used (snd x) = fe_last_used (snd y) \<and> fst x \<le> fst y"

fun least_used :: "(u32 \<times> dns_entry) list \<Rightarrow> (u32 \<times> dns_entry) option" where
  "least_used [] = None"
| "least_used (x # xs) = (case least_used xs of
      None \<Rightarrow> Some x
    | Some y \<Rightarrow> if key_le x y then Some x else Some y)"

text \<open>
  The address for a new name: a free or expired one, or else that of the least recently used entry;
  with it what is to be reported as evicted.
\<close>

definition pick_ip :: "instant \<Rightarrow> fake_dns \<Rightarrow> u32 \<times> (string \<times> u32) option \<times> fake_dns" where
  "pick_ip now s =
     (case alloc_scan now (fd_pool_size s) s of
        (Some candidate, s1) \<Rightarrow> (candidate, None, s1\<lparr>exhaustion_reported := False\<rparr>)
      | (None, s1) \<Rightarrow>
          (case least_used (ip_to_entry s1) of
             None \<Rightarrow> (FAKE_IP_BASE OR 1, None, s1)
           | Some (victim, _) \<Rightarrow>
               (case remove_entry_inner victim s1 of
                  (Some old, s2) \<Rightarrow>
                    if \<not> exhaustion_reported s2
                    then (victim, Some (fe_domain old, victim), s2\<lparr>exhaustion_reported := True\<rparr>)
                    else (victim, None, s2)
                | (None, s2) \<Rightarrow> (victim, None, s2))))"

definition insert_fresh :: "instant \<Rightarrow> string \<Rightarrow> u32 \<Rightarrow> fake_dns \<Rightarrow> fake_dns" where
  "insert_fresh now d ip s =
     (let s1 = s\<lparr>uses := uses s + 1\<rparr> in
      s1\<lparr>domain_to_ip := AList.update d ip (domain_to_ip s1),
         ip_to_entry := AList.update ip \<lparr>fe_domain = d, fe_created = now, fe_last_used = uses s1\<rparr> (ip_to_entry s1)\<rparr>)"

definition alloc_fresh :: "instant \<Rightarrow> string \<Rightarrow> fake_dns \<Rightarrow> u32 \<times> (string \<times> u32) option \<times> fake_dns" where
  "alloc_fresh now d s = (case pick_ip now s of (ip, evicted, s1) \<Rightarrow> (ip, evicted, insert_fresh now d ip s1))"

definition allocate :: "(string \<Rightarrow> string) \<Rightarrow> instant \<Rightarrow> string \<Rightarrow> fake_dns \<Rightarrow>
    u32 \<times> (string \<times> u32) option \<times> fake_dns" where
  "allocate unicode now name s =
     (let d = to_lowercase unicode name in
      case map_of (domain_to_ip s) d of
        None \<Rightarrow> alloc_fresh now d s
      | Some ip \<Rightarrow>
          let s1 = s\<lparr>uses := uses s + 1\<rparr>;
              s2 = s1\<lparr>domain_to_ip := AList.delete d (domain_to_ip s1)\<rparr>
          in (case map_of (ip_to_entry s1) ip of
                Some e \<Rightarrow> if live now s1 e then (ip, None, touch ip e s1) else alloc_fresh now d s2
              | None \<Rightarrow> alloc_fresh now d s2))"

definition lookup :: "instant \<Rightarrow> u32 \<Rightarrow> fake_dns \<Rightarrow> string option \<times> fake_dns" where
  "lookup now ip s =
     (let s1 = s\<lparr>uses := uses s + 1\<rparr> in
      case map_of (ip_to_entry s1) ip of
        None \<Rightarrow> (None, s1)
      | Some e \<Rightarrow> if live now s1 e then (Some (fe_domain e), touch ip e s1) else (None, s1))"

definition is_fake_ip :: "u32 \<Rightarrow> bool" where
  "is_fake_ip ip \<longleftrightarrow> ip AND FAKE_IP_MASK = FAKE_IP_BASE"

section \<open>Packets\<close>

text \<open>The labels of a question from \<open>pos\<close> on; \<open>None\<close> when the packet ends or a label is not UTF-8.\<close>

function parse_labels :: "bytes \<Rightarrow> nat \<Rightarrow> string list \<Rightarrow> (string list \<times> nat) option" where
  "parse_labels data pos parts =
     (if length data \<le> pos then None
      else let len = unat (data ! pos) in
        if len = 0 then Some (parts, pos + 1)
        else if length data < pos + 1 + len then None
        else case from_utf8 (take len (drop (pos + 1) data)) of
            None \<Rightarrow> None
          | Some label \<Rightarrow> parse_labels data (pos + 1 + len) (parts @ [label]))"
  by pat_completeness auto
termination by (relation "measure (\<lambda>(data, pos, parts). length data - pos)") auto

declare parse_labels.simps [simp del]

definition parse_dns_question :: "bytes \<Rightarrow> (string \<times> u16 \<times> u16 \<times> nat) option" where
  "parse_dns_question data = (case parse_labels data 0 [] of
      None \<Rightarrow> None
    | Some (parts, pos) \<Rightarrow>
        if length data < pos + 4 then None
        else let name = join ''.'' parts in
          if MAX_DOMAIN_LEN < length name then None
          else Some (name, u16_from_be (data ! pos) (data ! (pos + 1)),
                     u16_from_be (data ! (pos + 2)) (data ! (pos + 3)), pos + 4))"

definition build_dns_response :: "u16 \<Rightarrow> bytes \<Rightarrow> u32 \<Rightarrow> bytes" where
  "build_dns_response qid question ip =
     u16_to_be qid @ u16_to_be 0x8180 @ u16_to_be 1 @ u16_to_be 1 @ u16_to_be 0 @ u16_to_be 0
     @ question
     @ u16_to_be 0xC00C @ u16_to_be 1 @ u16_to_be 1 @ u32_to_be 60 @ u16_to_be 4 @ u32_to_be ip"

definition handle_query :: "(string \<Rightarrow> string) \<Rightarrow> instant \<Rightarrow> bytes \<Rightarrow> fake_dns \<Rightarrow>
    (bytes \<times> u32) option \<times> fake_dns" where
  "handle_query unicode now query s =
     (if length query < 12 then (None, s)
      else
        let qid = u16_from_be (query ! 0) (query ! 1);
            flags = u16_from_be (query ! 2) (query ! 3);
            qdcount = u16_from_be (query ! 4) (query ! 5)
        in if flags AND 0xF800 \<noteq> 0 then (None, s)
        else if qdcount = 0 then (None, s)
        else case parse_dns_question (drop 12 query) of
            None \<Rightarrow> (None, s)
          | Some (name, qtype, qclass, qend) \<Rightarrow>
              if qtype \<noteq> 1 \<or> qclass \<noteq> 1 then (None, s)
              else (case allocate unicode now name s of (ip, _, s1) \<Rightarrow>
                (Some (build_dns_response qid (take qend (drop 12 query)) ip, ip), s1)))"

section \<open>The invariant\<close>

abbreviation pool_ip :: "nat \<Rightarrow> u32" where
  "pool_ip k \<equiv> FAKE_IP_BASE OR of_nat k"

definition pool_ips :: "fake_dns \<Rightarrow> u32 set" where
  "pool_ips s = pool_ip ` {1..fd_pool_size s}"

definition dns_inv :: "fake_dns \<Rightarrow> bool" where
  "dns_inv s \<longleftrightarrow> distinct (map fst (ip_to_entry s)) \<and>
     (\<forall>d ip. map_of (domain_to_ip s) d = Some ip \<longrightarrow> (\<exists>e. map_of (ip_to_entry s) ip = Some e \<and> fe_domain e = d)) \<and>
     fst ` set (ip_to_entry s) \<subseteq> pool_ips s \<and>
     1 \<le> next_offset s \<and> next_offset s \<le> fd_pool_size s \<and> fd_pool_size s \<le> FAKE_IP_POOL_SIZE"

lemma FAKE_IP_POOL_SIZE_eq: "FAKE_IP_POOL_SIZE = 131070"
  by (simp add: FAKE_IP_POOL_SIZE_def FAKE_IP_MASK_def)

lemma dns_inv_build: "dns_inv (fake_dns_build t n)"
  by (simp add: dns_inv_def fake_dns_build_def FAKE_IP_POOL_SIZE_eq)

lemma is_fake_pool_ip:
  assumes "k \<le> FAKE_IP_POOL_SIZE"
  shows "is_fake_ip (pool_ip k)"
proof -
  have "k < 2 ^ 17" using assms by (simp add: FAKE_IP_POOL_SIZE_eq)
  then have "(of_nat k :: u32) = take_bit 17 (of_nat k)"
    by (metis take_bit_nat_eq_self take_bit_of_nat)
  then have k: "(of_nat k :: u32) = of_nat k AND mask 17" by (simp only: take_bit_eq_mask)
  have "(of_nat k :: u32) AND FAKE_IP_MASK = 0"
    by (subst k) (simp add: and.assoc FAKE_IP_MASK_def mask_eq_exp_minus_1)
  then show ?thesis
    by (simp add: is_fake_ip_def bit.conj_disj_distrib2 FAKE_IP_MASK_def FAKE_IP_BASE_def)
qed

lemma dns_inv_link:
  "dns_inv s \<Longrightarrow> map_of (domain_to_ip s) d = Some ip \<Longrightarrow> \<exists>e. map_of (ip_to_entry s) ip = Some e \<and> fe_domain e = d"
  unfolding dns_inv_def by blast

lemma remove_entry_sel [simp]:
  "fd_pool_size (snd (remove_entry_inner ip s)) = fd_pool_size s" "ttl (snd (remove_entry_inner ip s)) = ttl s"
  "next_offset (snd (remove_entry_inner ip s)) = next_offset s" "uses (snd (remove_entry_inner ip s)) = uses s"
  "exhaustion_reported (snd (remove_entry_inner ip s)) = exhaustion_reported s"
  "live now (snd (remove_entry_inner ip s)) = live now s"
  by (auto simp: remove_entry_inner_def live_def fun_eq_iff Let_def split: option.splits)

lemma ip_to_entry_remove:
  "ip_to_entry (snd (remove_entry_inner ip s)) = AList.delete ip (ip_to_entry s)"
  by (auto simp: remove_entry_inner_def Let_def map_of_eq_None_iff split: option.splits)

lemma domain_to_ip_remove:
  assumes "dns_inv s"
  shows "map_of (domain_to_ip (snd (remove_entry_inner ip s))) d =
    (if map_of (domain_to_ip s) d = Some ip \<and> map_of (ip_to_entry s) ip \<noteq> None then None else map_of (domain_to_ip s) d)"
proof (cases "map_of (ip_to_entry s) ip")
  case None
  then show ?thesis by (simp add: remove_entry_inner_def)
next
  case (Some e)
  show ?thesis
  proof (cases "map_of (domain_to_ip s) d = Some ip")
    case True
    then have "d = fe_domain e" using dns_inv_link [OF assms True] Some by simp
    then show ?thesis using True Some by (simp add: remove_entry_inner_def Let_def delete_conv')
  next
    case False
    then show ?thesis using Some by (auto simp: remove_entry_inner_def Let_def delete_conv')
  qed
qed

lemma dns_inv_remove:
  assumes "dns_inv s"
  shows "dns_inv (snd (remove_entry_inner ip s))"
proof -
  have "\<exists>e. map_of (AList.delete ip (ip_to_entry s)) ip' = Some e \<and> fe_domain e = d"
    if l: "map_of (domain_to_ip (snd (remove_entry_inner ip s))) d = Some ip'" for d ip'
  proof -
    have "map_of (domain_to_ip s) d = Some ip'" and ne: "map_of (ip_to_entry s) ip = None \<or> ip' \<noteq> ip"
      using l by (auto simp: domain_to_ip_remove [OF assms] split: if_splits)
    then obtain e where "map_of (ip_to_entry s) ip' = Some e" "fe_domain e = d"
      using dns_inv_link [OF assms] by blast
    with ne show ?thesis by (auto simp: delete_conv')
  qed
  moreover have "fst ` set (ip_to_entry s) \<subseteq> pool_ips s" using assms by (simp add: dns_inv_def)
  then have "fst ` set (AList.delete ip (ip_to_entry s)) \<subseteq> pool_ips (snd (remove_entry_inner ip s))"
    using dom_delete_subset [of ip "ip_to_entry s"] by (simp add: pool_ips_def)
  moreover have "distinct (map fst (AList.delete ip (ip_to_entry s)))"
    using assms by (simp add: dns_inv_def distinct_delete)
  ultimately show ?thesis
    using assms unfolding dns_inv_def ip_to_entry_remove by simp
qed

text \<open>\<open>t\<close> is \<open>s\<close> after some expired entries and their back links were removed.\<close>

definition shrinks :: "instant \<Rightarrow> fake_dns \<Rightarrow> fake_dns \<Rightarrow> bool" where
  "shrinks now s t \<longleftrightarrow> fd_pool_size t = fd_pool_size s \<and> ttl t = ttl s \<and> uses t = uses s \<and>
     exhaustion_reported t = exhaustion_reported s \<and>
     (\<forall>ip e. map_of (ip_to_entry s) ip = Some e \<and> live now s e \<longrightarrow> map_of (ip_to_entry t) ip = Some e) \<and>
     (\<forall>ip e. map_of (ip_to_entry t) ip = Some e \<longrightarrow> map_of (ip_to_entry s) ip = Some e) \<and>
     (\<forall>d ip e. map_of (domain_to_ip s) d = Some ip \<and> map_of (ip_to_entry s) ip = Some e \<and> live now s e \<longrightarrow>
        map_of (domain_to_ip t) d = Some ip) \<and>
     (\<forall>d ip. map_of (domain_to_ip t) d = Some ip \<longrightarrow> map_of (domain_to_ip s) d = Some ip)"

lemma shrinks_refl [simp]: "shrinks now s s" by (simp add: shrinks_def)

lemma shrinks_offset [simp]: "shrinks now s (s\<lparr>next_offset := n\<rparr>)" by (simp add: shrinks_def)

lemma shrinks_trans: "shrinks now s t \<Longrightarrow> shrinks now t u \<Longrightarrow> shrinks now s u"
  unfolding shrinks_def live_def by (elim conjE) (intro conjI allI impI; metis)

lemma shrinks_sel:
  "shrinks now s t \<Longrightarrow> ttl t = ttl s" "shrinks now s t \<Longrightarrow> fd_pool_size t = fd_pool_size s"
  "shrinks now s t \<Longrightarrow> uses t = uses s"
  by (simp_all add: shrinks_def)

lemma shrinks_entry:
  "shrinks now s t \<Longrightarrow> map_of (ip_to_entry s) ip = Some e \<Longrightarrow> live now s e \<Longrightarrow> map_of (ip_to_entry t) ip = Some e"
  unfolding shrinks_def by blast

lemma shrinks_link:
  "shrinks now s t \<Longrightarrow> map_of (domain_to_ip s) d = Some ip \<Longrightarrow> map_of (ip_to_entry s) ip = Some e \<Longrightarrow>
   live now s e \<Longrightarrow> map_of (domain_to_ip t) d = Some ip"
  unfolding shrinks_def by blast

lemma shrinks_remove:
  assumes "dns_inv s" and "\<And>e. map_of (ip_to_entry s) ip = Some e \<Longrightarrow> \<not> live now s e"
  shows "shrinks now s (snd (remove_entry_inner ip s))"
  using assms by (auto simp: shrinks_def ip_to_entry_remove delete_conv' domain_to_ip_remove split: if_splits)

lemma shrinks_evict:
  assumes "dns_inv s"
  shows "shrinks now s (evict_expired_inner now s) \<and> dns_inv (evict_expired_inner now s) \<and>
    next_offset (evict_expired_inner now s) = next_offset s"
proof -
  have "shrinks now s (fold (\<lambda>ip s. snd (remove_entry_inner ip s)) ips t) \<and>
      dns_inv (fold (\<lambda>ip s. snd (remove_entry_inner ip s)) ips t) \<and>
      next_offset (fold (\<lambda>ip s. snd (remove_entry_inner ip s)) ips t) = next_offset t"
    if "shrinks now s t" "dns_inv t" "\<forall>ip e. ip \<in> set ips \<longrightarrow> map_of (ip_to_entry s) ip = Some e \<longrightarrow> \<not> live now s e"
    for ips t
    using that
  proof (induction ips arbitrary: t)
    case (Cons ip ips)
    have "\<not> live now t e" if "map_of (ip_to_entry t) ip = Some e" for e
    proof -
      have "map_of (ip_to_entry s) ip = Some e" "ttl t = ttl s"
        using Cons.prems(1) that unfolding shrinks_def by blast+
      then show ?thesis using Cons.prems(3) by (simp add: live_def)
    qed
    then have "shrinks now s (snd (remove_entry_inner ip t))"
      using shrinks_trans [OF Cons.prems(1) shrinks_remove [OF Cons.prems(2)]] by blast
    then show ?case using Cons.IH [of "snd (remove_entry_inner ip t)"] Cons.prems dns_inv_remove by simp
  qed simp
  moreover have "\<not> live now s e"
    if a: "ip \<in> set (map fst (filter (\<lambda>(ip, e). \<not> live now s e) (ip_to_entry s)))" and m: "map_of (ip_to_entry s) ip = Some e" for ip e
  proof -
    obtain b where b: "(ip, b) \<in> set (ip_to_entry s)" "\<not> live now s b" using a by auto
    have "distinct (map fst (ip_to_entry s))" using assms by (simp add: dns_inv_def)
    then have "map_of (ip_to_entry s) ip = Some b" using b(1) by (rule map_of_is_SomeI)
    then show ?thesis using b(2) m by simp
  qed
  ultimately show ?thesis unfolding evict_expired_inner_def using shrinks_refl assms by blast
qed

lemma dns_inv_offset: "dns_inv s \<Longrightarrow> 1 \<le> n \<Longrightarrow> n \<le> fd_pool_size s \<Longrightarrow> dns_inv (s\<lparr>next_offset := n\<rparr>)"
  by (simp add: dns_inv_def pool_ips_def)

text \<open>One turn of the walk moves the cursor around the pool and removes only expired entries.\<close>

definition advance :: "instant \<Rightarrow> fake_dns \<Rightarrow> fake_dns" where
  "advance now s = (let s1 = s\<lparr>next_offset := next_offset s + 1\<rparr> in
     if next_offset s1 > fd_pool_size s1 then evict_expired_inner now (s1\<lparr>next_offset := 1\<rparr>) else s1)"

lemma advance_sel:
  assumes "dns_inv s"
  shows "shrinks now s (advance now s)" "dns_inv (advance now s)"
    "next_offset (advance now s) = (if next_offset s = fd_pool_size s then 1 else next_offset s + 1)"
proof -
  have n: "1 \<le> next_offset s" "next_offset s \<le> fd_pool_size s" using assms by (simp_all add: dns_inv_def)
  have wrap: "dns_inv (s\<lparr>next_offset := 1\<rparr>)" using n by (intro dns_inv_offset assms) simp_all
  note ev = shrinks_evict [OF wrap, of now]
  have "shrinks now s (evict_expired_inner now (s\<lparr>next_offset := 1\<rparr>))"
    using shrinks_trans [OF shrinks_offset] ev by blast
  then show "shrinks now s (advance now s)" by (simp add: advance_def Let_def)
  show "dns_inv (advance now s)" using ev n dns_inv_offset [OF assms] by (simp add: advance_def Let_def)
  show "next_offset (advance now s) = (if next_offset s = fd_pool_size s then 1 else next_offset s + 1)"
    using ev n by (auto simp: advance_def Let_def)
qed

lemma alloc_scan_Suc:
  "alloc_scan now (Suc k) s = (case map_of (ip_to_entry (advance now s)) (pool_ip (next_offset s)) of
      Some old \<Rightarrow> if live now (advance now s) old then alloc_scan now k (advance now s)
                  else (Some (pool_ip (next_offset s)), snd (remove_entry_inner (pool_ip (next_offset s)) (advance now s)))
    | None \<Rightarrow> (Some (pool_ip (next_offset s)), advance now s))"
  by (simp only: alloc_scan.simps advance_def Let_def)

lemma alloc_scan_found:
  "dns_inv s \<Longrightarrow> alloc_scan now k s = (res, t) \<Longrightarrow>
   shrinks now s t \<and> dns_inv t \<and>
   (\<forall>ip. res = Some ip \<longrightarrow> ip \<in> pool_ips s \<and> map_of (ip_to_entry t) ip = None \<and>
      (\<forall>e. map_of (ip_to_entry s) ip = Some e \<longrightarrow> \<not> live now s e))"
proof (induction k arbitrary: s)
  case (Suc k)
  note adv = advance_sel [OF Suc.prems(1), of now]
  let ?a = "advance now s" and ?c = "pool_ip (next_offset s)"
  have mem: "?c \<in> pool_ips s" using Suc.prems(1) by (auto simp: dns_inv_def pool_ips_def)
  have pool: "pool_ips ?a = pool_ips s" using adv(1) by (simp add: shrinks_def pool_ips_def)
  have lv: "live now ?a = live now s" using adv(1) by (simp add: shrinks_def live_def fun_eq_iff)
  have expired: "\<not> live now s e"
    if "map_of (ip_to_entry s) ip = Some e" and "\<forall>e. map_of (ip_to_entry ?a) ip = Some e \<longrightarrow> \<not> live now ?a e" for ip e
    using adv(1) that unfolding shrinks_def lv by blast
  show ?case
  proof (cases "\<exists>old. map_of (ip_to_entry ?a) ?c = Some old \<and> live now ?a old")
    case True
    then have "alloc_scan now k ?a = (res, t)" using Suc.prems(2) by (auto simp: alloc_scan_Suc simp del: alloc_scan.simps)
    from Suc.IH [OF adv(2) this] show ?thesis
      using shrinks_trans [OF adv(1)] pool expired by blast
  next
    case False
    let ?t = "snd (remove_entry_inner ?c ?a)"
    have "(res, t) = (Some ?c, if map_of (ip_to_entry ?a) ?c = None then ?a else ?t)"
      using Suc.prems(2) False by (auto simp: alloc_scan_Suc simp del: alloc_scan.simps split: option.splits)
    moreover have "shrinks now ?a ?t" using False by (intro shrinks_remove adv(2)) auto
    then have "shrinks now s ?t" by (rule shrinks_trans [OF adv(1)])
    moreover have "map_of (ip_to_entry ?t) ?c = None" by (simp add: ip_to_entry_remove delete_conv')
    moreover have "\<not> live now s e" if "map_of (ip_to_entry s) ?c = Some e" for e
      using expired [OF that] False by blast
    ultimately show ?thesis using mem adv dns_inv_remove [OF adv(2)] by auto
  qed
qed simp

text \<open>A walk around the whole pool that finds nothing has seen a live entry at every address.\<close>

lemma alloc_scan_seen:
  "dns_inv s \<Longrightarrow> alloc_scan now k s = (None, t) \<Longrightarrow> j < k \<Longrightarrow>
   \<exists>e. map_of (ip_to_entry s) (pool_ip ((next_offset s - 1 + j) mod fd_pool_size s + 1)) = Some e \<and> live now s e"
proof (induction k arbitrary: s j)
  case (Suc k)
  note adv = advance_sel [OF Suc.prems(1), of now]
  let ?a = "advance now s" and ?n = "fd_pool_size s"
  have n: "1 \<le> next_offset s" "next_offset s \<le> ?n" using Suc.prems(1) by (simp_all add: dns_inv_def)
  have a: "fd_pool_size ?a = ?n" "live now ?a = live now s"
    using adv(1) by (simp_all add: shrinks_def live_def fun_eq_iff)
  have up: "map_of (ip_to_entry s) ip = Some e" if "map_of (ip_to_entry ?a) ip = Some e" for ip e
    using adv(1) that unfolding shrinks_def by blast
  obtain old where old: "map_of (ip_to_entry ?a) (pool_ip (next_offset s)) = Some old" "live now ?a old"
    and rest: "alloc_scan now k ?a = (None, t)"
    using Suc.prems(2) by (auto simp: alloc_scan_Suc simp del: alloc_scan.simps split: option.splits if_splits)
  show ?case
  proof (cases j)
    case 0
    have "(next_offset s - 1) mod ?n + 1 = next_offset s" using n by simp
    then show ?thesis using old up a 0 by auto
  next
    case (Suc j')
    have "next_offset ?a - 1 = next_offset s mod ?n" using adv(3) n by auto
    then have "(next_offset ?a - 1 + j') mod ?n = (next_offset s - 1 + j) mod ?n"
      using n Suc by (simp add: mod_add_left_eq)
    then show ?thesis using Suc.IH [OF adv(2) rest, of j'] Suc.prems(3) Suc up a by auto
  qed
qed simp

lemma cursor_covers:
  fixes c m n :: nat
  assumes "1 \<le> c" "c \<le> n" "1 \<le> m" "m \<le> n"
  shows "\<exists>j < n. (c - 1 + j) mod n + 1 = m"
proof -
  let ?j = "(m - 1 + n - (c - 1)) mod n"
  have "(c - 1 + ?j) mod n = (c - 1 + (m - 1 + n - (c - 1))) mod n" by (simp add: mod_add_right_eq)
  also have "c - 1 + (m - 1 + n - (c - 1)) = m - 1 + n" using assms by simp
  also have "(m - 1 + n) mod n = m - 1" using assms by (simp only: mod_add_self2) simp
  finally have "(c - 1 + ?j) mod n = m - 1" .
  moreover have "?j < n" using assms by simp
  ultimately show ?thesis using assms by (intro exI [of _ ?j]) simp
qed

definition pool_full :: "instant \<Rightarrow> fake_dns \<Rightarrow> bool" where
  "pool_full now s \<longleftrightarrow> (\<forall>ip \<in> pool_ips s. \<exists>e. map_of (ip_to_entry s) ip = Some e \<and> live now s e)"

lemma alloc_scan_full:
  assumes "dns_inv s" and "alloc_scan now (fd_pool_size s) s = (None, t)"
  shows "pool_full now s"
  unfolding pool_full_def pool_ips_def
proof safe
  fix m assume "m \<in> {1..fd_pool_size s}"
  moreover have "1 \<le> next_offset s" "next_offset s \<le> fd_pool_size s" using assms(1) by (simp_all add: dns_inv_def)
  ultimately obtain j where "j < fd_pool_size s" "(next_offset s - 1 + j) mod fd_pool_size s + 1 = m"
    using cursor_covers by (metis atLeastAtMost_iff)
  then show "\<exists>e. map_of (ip_to_entry s) (pool_ip m) = Some e \<and> live now s e"
    using alloc_scan_seen [OF assms] by metis
qed

lemma least_used_mem: "least_used es = Some x \<Longrightarrow> x \<in> set es"
  by (induction es arbitrary: x) (auto split: option.splits if_splits)

lemma least_used_None: "least_used es = None \<longleftrightarrow> es = []"
  by (cases es) (auto split: option.splits)

text \<open>
  \<open>spares now ip s t\<close>: in \<open>t\<close> the address \<open>ip\<close> is free, and the live entries of \<open>s\<close> at other addresses
  and the names that point at them are as they were.
\<close>

definition spares :: "instant \<Rightarrow> u32 \<Rightarrow> fake_dns \<Rightarrow> fake_dns \<Rightarrow> bool" where
  "spares now ip s t \<longleftrightarrow> ttl t = ttl s \<and> fd_pool_size t = fd_pool_size s \<and> uses t = uses s \<and>
     map_of (ip_to_entry t) ip = None \<and>
     (\<forall>ip' e. map_of (ip_to_entry s) ip' = Some e \<and> live now s e \<and> ip' \<noteq> ip \<longrightarrow> map_of (ip_to_entry t) ip' = Some e) \<and>
     (\<forall>d ip' e. map_of (domain_to_ip s) d = Some ip' \<and> map_of (ip_to_entry s) ip' = Some e \<and> live now s e \<and> ip' \<noteq> ip
        \<longrightarrow> map_of (domain_to_ip t) d = Some ip')"

lemma spares_shrinks: "shrinks now s t \<Longrightarrow> map_of (ip_to_entry t) ip = None \<Longrightarrow> spares now ip s t"
  unfolding shrinks_def spares_def by blast

lemma spares_remove:
  assumes "shrinks now s t" and "dns_inv t"
  shows "spares now ip s (snd (remove_entry_inner ip t))"
proof -
  let ?t = "snd (remove_entry_inner ip t)"
  have e: "map_of (ip_to_entry ?t) ip' = (if ip' = ip then None else map_of (ip_to_entry t) ip')" for ip'
    by (simp add: ip_to_entry_remove delete_conv')
  have d: "map_of (domain_to_ip ?t) d = Some ip'" if "map_of (domain_to_ip t) d = Some ip'" "ip' \<noteq> ip" for d ip'
    using that by (simp add: domain_to_ip_remove [OF assms(2)])
  show ?thesis
    unfolding spares_def
  proof (intro conjI allI impI; (elim conjE)?)
    show "map_of (ip_to_entry ?t) ip' = Some x"
      if "map_of (ip_to_entry s) ip' = Some x" "live now s x" "ip' \<noteq> ip" for ip' x
      using shrinks_entry [OF assms(1) that(1,2)] that(3) e by simp
    show "map_of (domain_to_ip ?t) a = Some ip'"
      if "map_of (domain_to_ip s) a = Some ip'" "map_of (ip_to_entry s) ip' = Some x" "live now s x" "ip' \<noteq> ip" for a ip' x
      using shrinks_link [OF assms(1) that(1,2,3)] that(4) d by simp
  qed (simp_all add: shrinks_sel [OF assms(1)] e)
qed

lemma dns_inv_reported: "dns_inv (s\<lparr>exhaustion_reported := b\<rparr>) = dns_inv s"
  by (simp add: dns_inv_def pool_ips_def)

lemma spares_reported: "spares now ip s (t\<lparr>exhaustion_reported := b\<rparr>) = spares now ip s t"
  by (simp add: spares_def)

lemma pick_ip_spec:
  assumes inv: "dns_inv s" and pick: "pick_ip now s = (ip, ev, t)"
  shows "ip \<in> pool_ips s \<and> dns_inv t \<and> spares now ip s t \<and>
    ((\<exists>e. map_of (ip_to_entry s) ip = Some e \<and> live now s e) \<longrightarrow> pool_full now s)"
proof -
  obtain res s1 where scan: "alloc_scan now (fd_pool_size s) s = (res, s1)" by fastforce
  note found = alloc_scan_found [OF inv scan]
  show ?thesis
  proof (cases res)
    case (Some c)
    then have "ip = c" "t = s1\<lparr>exhaustion_reported := False\<rparr>" using pick scan by (simp_all add: pick_ip_def)
    then show ?thesis using found Some spares_shrinks by (auto simp: dns_inv_reported spares_reported)
  next
    case None
    then have full: "pool_full now s" using alloc_scan_full [OF inv] scan by simp
    have "1 \<le> fd_pool_size s" using inv by (simp add: dns_inv_def)
    then obtain e0 where "map_of (ip_to_entry s) (pool_ip 1) = Some e0" "live now s e0"
      using full by (force simp: pool_full_def pool_ips_def)
    then have "map_of (ip_to_entry s1) (pool_ip 1) = Some e0" using found shrinks_entry by blast
    then have "ip_to_entry s1 \<noteq> []" by auto
    then obtain v e where v: "least_used (ip_to_entry s1) = Some (v, e)"
      by (metis least_used_None not_None_eq surj_pair)
    obtain old s2 where rem: "remove_entry_inner v s1 = (old, s2)" by fastforce
    have "v \<in> fst ` set (ip_to_entry s1)" using least_used_mem [OF v] by force
    moreover have "fst ` set (ip_to_entry s1) \<subseteq> pool_ips s1" "fd_pool_size s1 = fd_pool_size s"
      using found shrinks_sel(2) [of now s s1] by (simp_all add: dns_inv_def)
    ultimately have mem: "v \<in> pool_ips s" by (auto simp: pool_ips_def)
    have "ip = v" "t = s2 \<or> t = s2\<lparr>exhaustion_reported := True\<rparr>"
      using pick scan None v rem by (auto simp: pick_ip_def split: option.splits if_splits)
    moreover have "s2 = snd (remove_entry_inner v s1)" using rem by simp
    moreover have "dns_inv s2" "spares now v s s2"
      using calculation(3) found dns_inv_remove spares_remove by simp_all
    then have "dns_inv t" "spares now v s t" using calculation(2) by (auto simp: dns_inv_reported spares_reported)
    ultimately show ?thesis using mem full by simp
  qed
qed

lemma insert_fresh_sel [simp]:
  "map_of (ip_to_entry (insert_fresh now d ip s)) = (map_of (ip_to_entry s))
     (ip \<mapsto> \<lparr>fe_domain = d, fe_created = now, fe_last_used = uses s + 1\<rparr>)"
  "map_of (domain_to_ip (insert_fresh now d ip s)) = (map_of (domain_to_ip s))(d \<mapsto> ip)"
  "ttl (insert_fresh now d ip s) = ttl s"
  by (simp_all add: insert_fresh_def Let_def update_conv')

lemma dns_inv_insert:
  assumes inv: "dns_inv s" and ip: "ip \<in> pool_ips s" and free: "map_of (ip_to_entry s) ip = None"
  shows "dns_inv (insert_fresh now d ip s)"
proof -
  let ?t = "insert_fresh now d ip s"
  have "\<exists>e. map_of (ip_to_entry ?t) ip' = Some e \<and> fe_domain e = d'"
    if "map_of (domain_to_ip ?t) d' = Some ip'" for d' ip'
  proof (cases "d' = d")
    case False
    then have "map_of (domain_to_ip s) d' = Some ip'" using that by simp
    from dns_inv_link [OF inv this] free show ?thesis by auto
  qed (use that in auto)
  moreover have "distinct (map fst (ip_to_entry ?t))"
    using inv by (simp add: dns_inv_def insert_fresh_def Let_def distinct_update)
  moreover have "fst ` set (ip_to_entry ?t) \<subseteq> insert ip (fst ` set (ip_to_entry s))"
    by (auto simp: insert_fresh_def Let_def dom_update)
  moreover have "fst ` set (ip_to_entry s) \<subseteq> pool_ips s" using inv by (simp add: dns_inv_def)
  moreover have "pool_ips ?t = pool_ips s" by (simp add: pool_ips_def insert_fresh_def Let_def)
  moreover have "1 \<le> next_offset ?t \<and> next_offset ?t \<le> fd_pool_size ?t \<and> fd_pool_size ?t \<le> FAKE_IP_POOL_SIZE"
    using inv by (simp add: dns_inv_def insert_fresh_def Let_def)
  ultimately show ?thesis using ip unfolding dns_inv_def by blast
qed

lemma touch_sel [simp]:
  "map_of (ip_to_entry (touch ip e s)) = (map_of (ip_to_entry s))(ip \<mapsto> e\<lparr>fe_last_used := uses s\<rparr>)"
  "domain_to_ip (touch ip e s) = domain_to_ip s" "ttl (touch ip e s) = ttl s"
  by (simp_all add: touch_def update_conv')

lemma dns_inv_touch:
  assumes inv: "dns_inv s" and e: "map_of (ip_to_entry s) ip = Some e"
  shows "dns_inv (touch ip e s)"
proof -
  have "\<exists>x. map_of (ip_to_entry (touch ip e s)) ip' = Some x \<and> fe_domain x = d"
    if "map_of (domain_to_ip (touch ip e s)) d = Some ip'" for d ip'
    using dns_inv_link [OF inv, of d ip'] that e by auto
  moreover have "ip \<in> fst ` set (ip_to_entry s)" using map_of_SomeD [OF e] by force
  then have "fst ` set (ip_to_entry (touch ip e s)) = fst ` set (ip_to_entry s)"
    by (auto simp: touch_def dom_update)
  moreover have "distinct (map fst (ip_to_entry (touch ip e s)))"
    using inv by (simp add: dns_inv_def touch_def distinct_update)
  moreover have "pool_ips (touch ip e s) = pool_ips s" by (simp add: pool_ips_def touch_def)
  ultimately show ?thesis using inv unfolding dns_inv_def by (simp add: touch_def)
qed

lemma dns_inv_uses: "dns_inv (s\<lparr>uses := n\<rparr>) = dns_inv s"
  by (simp add: dns_inv_def pool_ips_def)

lemma dns_inv_unlink: "dns_inv s \<Longrightarrow> dns_inv (s\<lparr>domain_to_ip := AList.delete d (domain_to_ip s)\<rparr>)"
  by (simp add: dns_inv_def pool_ips_def delete_conv')

text \<open>The time from which the age of a name's entry is counted after an allocation: that of the allocation, or that of the live entry it found.\<close>

definition born :: "instant \<Rightarrow> string \<Rightarrow> fake_dns \<Rightarrow> instant" where
  "born now d s = (case map_of (domain_to_ip s) d of
      None \<Rightarrow> now
    | Some a \<Rightarrow> (case map_of (ip_to_entry s) a of None \<Rightarrow> now | Some e \<Rightarrow> if live now s e then fe_created e else now))"

text \<open>What allocation does in each of its cases.\<close>

lemma allocate_cases:
  assumes inv: "dns_inv s" and alloc: "allocate unicode now name s = (ip, ev, t)"
  defines "d \<equiv> to_lowercase unicode name"
  obtains (hit) e where "map_of (domain_to_ip s) d = Some ip" "map_of (ip_to_entry s) ip = Some e" "live now s e"
      "fe_domain e = d" "t = touch ip e (s\<lparr>uses := uses s + 1\<rparr>)" "ev = None"
  | (fresh) s0 s1 where "dns_inv s0" "ip_to_entry s0 = ip_to_entry s" "ttl s0 = ttl s" "fd_pool_size s0 = fd_pool_size s"
      "\<And>d'. d' \<noteq> d \<Longrightarrow> map_of (domain_to_ip s0) d' = map_of (domain_to_ip s) d'"
      "pick_ip now s0 = (ip, ev, s1)" "t = insert_fresh now d ip s1" "born now d s = now"
proof (cases "map_of (domain_to_ip s) d")
  case None
  then obtain s1 where "pick_ip now s = (ip, ev, s1)" "t = insert_fresh now d ip s1"
    using alloc by (auto simp: allocate_def d_def alloc_fresh_def Let_def split: prod.splits)
  then show ?thesis using fresh [of s s1] inv None by (simp add: born_def)
next
  case (Some ip0)
  from dns_inv_link [OF inv Some] obtain e where e: "map_of (ip_to_entry s) ip0 = Some e" "fe_domain e = d" by blast
  let ?s1 = "s\<lparr>uses := uses s + 1\<rparr>"
  let ?s2 = "?s1\<lparr>domain_to_ip := AList.delete d (domain_to_ip ?s1)\<rparr>"
  have lv: "live now ?s1 = live now s" by (simp add: live_def fun_eq_iff)
  show ?thesis
  proof (cases "live now s e")
    case True
    then show ?thesis
      using hit [of e] Some e alloc lv by (auto simp: allocate_def d_def Let_def)
  next
    case False
    then obtain s1 where p: "pick_ip now ?s2 = (ip, ev, s1)" "t = insert_fresh now d ip s1"
      using alloc Some e lv by (auto simp: allocate_def d_def alloc_fresh_def Let_def split: prod.splits)
    have "dns_inv ?s2" using inv by (intro dns_inv_unlink) (simp add: dns_inv_uses)
    then show ?thesis using fresh [of ?s2 s1] p Some e False by (simp add: delete_conv' born_def)
  qed
qed

lemma dns_inv_allocate:
  assumes "dns_inv s" and "allocate unicode now name s = (ip, ev, t)"
  shows "dns_inv t \<and> ip \<in> pool_ips s"
  using assms
proof (cases rule: allocate_cases)
  case (hit e)
  have "ip \<in> fst ` set (ip_to_entry s)" using map_of_SomeD [OF hit(2)] by force
  then have "ip \<in> pool_ips s" using assms(1) by (auto simp: dns_inv_def)
  moreover have "dns_inv (s\<lparr>uses := uses s + 1\<rparr>)" using assms(1) by (simp add: dns_inv_uses)
  then have "dns_inv t" unfolding hit(5) by (rule dns_inv_touch) (simp add: hit(2))
  ultimately show ?thesis by blast
next
  case (fresh s0 s1)
  note pick = pick_ip_spec [OF fresh(1,6)]
  have "pool_ips s1 = pool_ips s0" "pool_ips s0 = pool_ips s"
    using pick fresh(4) by (simp_all add: spares_def pool_ips_def)
  moreover have "dns_inv t" unfolding fresh(7)
    using pick calculation by (intro dns_inv_insert) (simp_all add: spares_def)
  ultimately show ?thesis using pick by simp
qed

lemma dns_inv_lookup:
  assumes "dns_inv s"
  shows "dns_inv (snd (lookup now ip s))"
proof -
  have "dns_inv (s\<lparr>uses := uses s + 1\<rparr>)" using assms by (simp add: dns_inv_uses)
  then show ?thesis by (auto simp: lookup_def Let_def intro: dns_inv_touch split: option.splits)
qed

lemma dns_inv_query:
  assumes "dns_inv s"
  shows "dns_inv (snd (handle_query unicode now query s))"
  using assms dns_inv_allocate [OF assms]
  by (auto simp: handle_query_def Let_def split: option.splits prod.splits)

section \<open>The resolver as a transition system\<close>

definition dns_init :: "fake_dns \<Rightarrow> bool" where
  "dns_init s \<longleftrightarrow> (\<exists>t n. s = fake_dns_build t n)"

inductive dns_step :: "(string \<Rightarrow> string) \<Rightarrow> fake_dns \<Rightarrow> fake_dns \<Rightarrow> bool" for unicode where
  do_allocate: "allocate unicode now name s = (ip, ev, t) \<Longrightarrow> dns_step unicode s t"
| do_lookup: "dns_step unicode s (snd (lookup now ip s))"
| do_query: "dns_step unicode s (snd (handle_query unicode now query s))"

lemma dns_inv_step: "dns_inv s \<Longrightarrow> dns_step unicode s t \<Longrightarrow> dns_inv t"
  by (auto elim!: dns_step.cases dest: dns_inv_allocate intro: dns_inv_lookup dns_inv_query)

interpretation dns_sys: transition_system dns_init "dns_step unicode" dns_inv
  by unfold_locales (auto simp: dns_init_def intro: dns_inv_build dns_inv_step)

section \<open>Properties of the resolver\<close>

lemma pool_ips_fake: "dns_inv s \<Longrightarrow> ip \<in> pool_ips s \<Longrightarrow> is_fake_ip ip"
  by (auto simp: pool_ips_def dns_inv_def intro!: is_fake_pool_ip)

lemma allocate_links:
  assumes inv: "dns_inv s" and alloc: "allocate unicode now name s = (ip, ev, t)"
  shows "ttl t = ttl s \<and> map_of (domain_to_ip t) (to_lowercase unicode name) = Some ip \<and>
    (\<exists>e. map_of (ip_to_entry t) ip = Some e \<and> fe_domain e = to_lowercase unicode name \<and> fe_created e = born now (to_lowercase unicode name) s)"
  using inv alloc
proof (cases rule: allocate_cases)
  case (hit e)
  then show ?thesis by (simp add: born_def)
next
  case (fresh s0 s1)
  then show ?thesis using pick_ip_spec [OF fresh(1,6)] by (simp add: spares_def)
qed

lemma lookup_allocated:
  assumes "dns_inv s" and "allocate unicode now name s = (ip, ev, t)"
  shows "fst (lookup later ip t) =
    (if elapsed (born now (to_lowercase unicode name) s) later < ttl s then Some (to_lowercase unicode name) else None)"
  using allocate_links [OF assms] by (auto simp: lookup_def Let_def live_def)

text \<open>
  No name loses a live address while another address is free: as long as the pool is not full of live entries, allocating for one name leaves
  every other name whose entry has not expired with its address, and the address with that name.
\<close>

lemma allocate_spares_live:
  assumes inv: "dns_inv s" and "allocate unicode now name s = (ip, ev, t)"
    and "\<not> pool_full now s"
    and "map_of (domain_to_ip s) d = Some a" and "map_of (ip_to_entry s) a = Some e" and "live now s e"
    and "d \<noteq> to_lowercase unicode name"
  shows "map_of (domain_to_ip t) d = Some a \<and> map_of (ip_to_entry t) a = Some e \<and> a \<noteq> ip"
proof -
  have dom: "fe_domain e = d" using dns_inv_link [OF inv assms(4)] assms(5) by simp
  from inv assms(2) show ?thesis
  proof (cases rule: allocate_cases)
    case (hit x)
    then have "a \<noteq> ip" using dom assms(5,7) by auto
    then show ?thesis using hit assms(4,5) by simp
  next
    case (fresh s0 s1)
    note pick = pick_ip_spec [OF fresh(1,6)]
    have lv: "live now s0 = live now s" using fresh(3) by (simp add: live_def fun_eq_iff)
    have "\<not> pool_full now s0"
      using assms(3) fresh(2,4) by (simp add: pool_full_def pool_ips_def lv)
    then have ne: "a \<noteq> ip" using pick assms(5,6) fresh(2) lv by auto
    have "map_of (domain_to_ip s0) d = Some a" "map_of (ip_to_entry s0) a = Some e" "live now s0 e"
      using fresh(2) fresh(5) [OF assms(7)] assms(4-6) lv by simp_all
    then have "map_of (domain_to_ip s1) d = Some a" "map_of (ip_to_entry s1) a = Some e"
      using pick ne unfolding spares_def by blast+
    then show ?thesis using fresh(7) ne assms(7) by simp
  qed
qed

subsection \<open>Names over time\<close>

text \<open>Requests to the resolver, each with its time, one after another under its lock.\<close>

datatype dns_op = Allocate instant string | Lookup instant u32 | Query instant bytes

fun op_time :: "dns_op \<Rightarrow> instant" where
  "op_time (Allocate now name) = now"
| "op_time (Lookup now ip) = now"
| "op_time (Query now query) = now"

fun dns_do :: "(string \<Rightarrow> string) \<Rightarrow> dns_op \<Rightarrow> fake_dns \<Rightarrow> fake_dns" where
  "dns_do unicode (Allocate now name) s = snd (snd (allocate unicode now name s))"
| "dns_do unicode (Lookup now ip) s = snd (lookup now ip s)"
| "dns_do unicode (Query now query) s = snd (handle_query unicode now query s)"

fun dns_run :: "(string \<Rightarrow> string) \<Rightarrow> dns_op list \<Rightarrow> fake_dns \<Rightarrow> fake_dns" where
  "dns_run unicode [] s = s"
| "dns_run unicode (x # xs) s = dns_run unicode xs (dns_do unicode x s)"

text \<open>At every request some address of the pool is free or expired.\<close>

fun roomy :: "(string \<Rightarrow> string) \<Rightarrow> dns_op list \<Rightarrow> fake_dns \<Rightarrow> bool" where
  "roomy unicode [] s = True"
| "roomy unicode (x # xs) s \<longleftrightarrow> \<not> pool_full (op_time x) s \<and> roomy unicode xs (dns_do unicode x s)"

definition named :: "string \<Rightarrow> u32 \<Rightarrow> instant \<Rightarrow> fake_dns \<Rightarrow> bool" where
  "named d a b s \<longleftrightarrow> map_of (domain_to_ip s) d = Some a \<and> (\<exists>e. map_of (ip_to_entry s) a = Some e \<and> fe_domain e = d \<and> fe_created e = b)"

lemma named_allocate:
  assumes "dns_inv s" and "named d a b s" and "elapsed b now < ttl s" and "\<not> pool_full now s" and "allocate unicode now name s = (ip, ev, t)"
  shows "named d a b t \<and> ttl t = ttl s"
proof -
  obtain e where e: "map_of (domain_to_ip s) d = Some a" "map_of (ip_to_entry s) a = Some e" "live now s e" "fe_domain e = d" "fe_created e = b"
    using assms(2,3) by (auto simp: named_def live_def)
  show ?thesis
  proof (cases "d = to_lowercase unicode name")
    case True
    then have "t = touch a e (s\<lparr>uses := uses s + 1\<rparr>)" using assms(5) e(1,2,3) by (auto simp: allocate_def Let_def live_def)
    then show ?thesis using e by (simp add: named_def)
  next
    case False
    then show ?thesis using allocate_spares_live [OF assms(1,5,4) e(1-3) False] allocate_links [OF assms(1,5)] e(4,5) by (auto simp: named_def)
  qed
qed

lemma named_do:
  assumes "dns_inv s" and "named d a b s" and "elapsed b (op_time x) < ttl s" and "\<not> pool_full (op_time x) s"
  shows "named d a b (dns_do unicode x s) \<and> ttl (dns_do unicode x s) = ttl s"
proof (cases x)
  case (Allocate now name)
  obtain ip ev t where "allocate unicode now name s = (ip, ev, t)" by (metis prod_cases3)
  then show ?thesis using named_allocate [OF assms(1,2)] assms(3,4) by (simp add: Allocate)
next
  case (Lookup now ip)
  then show ?thesis using assms(2) by (auto simp: lookup_def Let_def named_def split: option.splits)
next
  case (Query now query)
  then show ?thesis using assms(2,3,4) named_allocate [OF assms(1,2)]
    by (auto simp: handle_query_def Let_def split: option.splits prod.splits)
qed

lemma dns_inv_do: "dns_inv s \<Longrightarrow> dns_inv (dns_do unicode x s)"
  using dns_inv_allocate by (cases x) (auto intro: dns_inv_lookup dns_inv_query simp: prod_eq_iff)

lemma named_run:
  assumes "dns_inv s" and "named d a b s" and "roomy unicode xs s" and "\<forall>x \<in> set xs. op_time x \<le> later" and "elapsed b later < ttl s"
  shows "named d a b (dns_run unicode xs s) \<and> ttl (dns_run unicode xs s) = ttl s"
  using assms
proof (induction xs arbitrary: s)
  case (Cons x xs)
  then have "elapsed b (op_time x) < ttl s" by (auto intro: le_less_trans diff_le_mono)
  from named_do [OF Cons.prems(1,2) this] show ?case using Cons.IH [OF dns_inv_do [OF Cons.prems(1)]] Cons.prems by simp
qed simp

text \<open>
  C6. An address leads back to its name until its entry expires. Whatever was asked before, the address handed out for a name is in the fake range;
  looked up next, at whatever later time, it gives the name in lower case exactly as long as the entry is younger than the resolver's lifetime for
  entries, counted from the allocation if it made the entry, and from the older allocation that made it if the name had a live entry
  already; and until then no requests in between, for whatever names, change that, provided each of them finds some address of the pool free or expired.
\<close>

theorem allocate_then_lookup:
  assumes "reach dns_init (dns_step unicode) s" and "allocate unicode now name s = (ip, ev, t)"
    and "b = born now (to_lowercase unicode name) s"
  shows "is_fake_ip ip \<and>
    (\<forall>later. fst (lookup later ip t) = (if elapsed b later < ttl s then Some (to_lowercase unicode name) else None)) \<and>
    (\<forall>xs later. roomy unicode xs t \<and> (\<forall>x \<in> set xs. op_time x \<le> later) \<and> elapsed b later < ttl s \<longrightarrow>
       fst (lookup later ip (dns_run unicode xs t)) = Some (to_lowercase unicode name))"
proof -
  have inv: "dns_inv s" using assms(1) by (rule dns_sys.reach_inv)
  then have t: "dns_inv t" "is_fake_ip ip" "ttl t = ttl s" "named (to_lowercase unicode name) ip b t"
    using dns_inv_allocate [OF inv assms(2)] pool_ips_fake allocate_links [OF inv assms(2)] assms(3) by (auto simp: named_def)
  have "fst (lookup later ip (dns_run unicode xs t)) = Some (to_lowercase unicode name)"
    if "roomy unicode xs t" "\<forall>x \<in> set xs. op_time x \<le> later" "elapsed b later < ttl s" for xs later
    using named_run [OF t(1,4) that(1,2)] that(3) t(3) by (auto simp: named_def lookup_def Let_def live_def)
  then show ?thesis using t(2) lookup_allocated [OF inv assms(2)] assms(3) by blast
qed

text \<open>
  An answer can outlive its mapping. Asking again for a name refreshes its rank but not its age:
  the second answer hands out the address with a DNS lifetime of 60 s, and yet the lookup fails
  from the moment the first answer is one TTL old, however recent the second one is.
\<close>

theorem renewed_answer_expires_early:
  assumes "reach dns_init (dns_step unicode) s"
    and "map_of (domain_to_ip s) (to_lowercase unicode name) = Some a" and "map_of (ip_to_entry s) a = Some e"
    and "live now s e" and "fe_created e + ttl s \<le> later"
  shows "\<exists>t. allocate unicode now name s = (a, None, t) \<and> fst (lookup later a t) = None"
  using assms(2-) by (auto simp: allocate_def lookup_def live_def Let_def)

subsection \<open>A concrete resolver\<close>

definition example_dns :: fake_dns where
  "example_dns = \<lparr>domain_to_ip = [(''ab'', pool_ip 1)],
     ip_to_entry = [(pool_ip 1, \<lparr>fe_domain = ''ab'', fe_created = 0, fe_last_used = 1\<rparr>)],
     next_offset = 2, fd_pool_size = 131070, uses = 1, exhaustion_reported = False, ttl = from_secs 3600\<rparr>"

lemma lower_examples: "to_lowercase (\<lambda>s. s) ''Ab'' = ''ab''" "to_lowercase (\<lambda>s. s) ''c'' = ''c''"
  by code_simp+

lemma example_allocates: "allocate (\<lambda>s. s) 0 ''Ab'' fake_dns_new = (pool_ip 1, None, example_dns)"
proof -
  have "alloc_scan 0 131070 fake_dns_new = (Some (pool_ip 1), fake_dns_new\<lparr>next_offset := 2\<rparr>)"
    using alloc_scan_Suc [of 0 131069 fake_dns_new]
    by (simp add: fake_dns_new_def fake_dns_build_def advance_def FAKE_IP_POOL_SIZE_eq Let_def del: alloc_scan.simps)
  then show ?thesis
    by (simp add: allocate_def lower_examples alloc_fresh_def pick_ip_def insert_fresh_def fake_dns_new_def
        fake_dns_build_def FAKE_IP_POOL_SIZE_eq DEFAULT_TTL_def example_dns_def Let_def)
qed

lemma reach_new: "reach dns_init (dns_step u) fake_dns_new"
  by (rule reach_init) (auto simp: dns_init_def fake_dns_new_def)

lemma reach_example: "reach dns_init (dns_step (\<lambda>s. s)) example_dns"
  using example_allocates by (blast intro: reach_step reach_new dns_step.do_allocate)

theorem allocate_then_lookup_witness:
  "is_fake_ip (pool_ip 1) \<and> fst (lookup (from_secs 3599) (pool_ip 1) example_dns) = Some ''ab'' \<and>
   fst (lookup (from_secs 3600) (pool_ip 1) example_dns) = None \<and>
   fst (lookup (from_secs 3599) (pool_ip 1) (dns_run (\<lambda>s. s) [Allocate (from_secs 1) ''c''] example_dns)) = Some ''ab''"
proof -
  have b: "born 0 (to_lowercase (\<lambda>s. s) ''Ab'') fake_dns_new = 0" by (simp add: born_def fake_dns_new_def fake_dns_build_def)
  have "pool_ip 2 \<in> pool_ips example_dns" unfolding pool_ips_def by (rule image_eqI [of _ _ 2]) (simp_all add: example_dns_def)
  moreover have "map_of (ip_to_entry example_dns) (pool_ip 2) = None" by (simp add: example_dns_def FAKE_IP_BASE_def)
  ultimately have "\<not> pool_full (from_secs 1) example_dns" by (force simp: pool_full_def)
  then have "roomy (\<lambda>s. s) [Allocate (from_secs 1) ''c''] example_dns" by simp
  moreover have "ttl fake_dns_new = from_secs 3600" by (simp add: fake_dns_new_def fake_dns_build_def DEFAULT_TTL_def)
  ultimately have r: "roomy (\<lambda>s. s) [Allocate (from_secs 1) ''c''] example_dns \<and>
      (\<forall>x \<in> set [Allocate (from_secs 1) ''c'']. op_time x \<le> from_secs 3599) \<and> elapsed 0 (from_secs 3599) < ttl fake_dns_new"
    "\<not> elapsed 0 (from_secs 3600) < ttl fake_dns_new" by simp_all
  note a = allocate_then_lookup [OF reach_new example_allocates b [symmetric], unfolded lower_examples]
  show ?thesis using a [THEN conjunct1] a [THEN conjunct2, THEN conjunct1] a [THEN conjunct2, THEN conjunct2, rule_format, OF r(1)] r
    by (auto simp del: dns_run.simps)
qed

theorem renewed_answer_expires_early_witness:
  "\<exists>t. allocate (\<lambda>s. s) (from_secs 3595) ''Ab'' example_dns = (pool_ip 1, None, t) \<and>
     fst (lookup (from_secs 3600) (pool_ip 1) t) = None"
  by (rule renewed_answer_expires_early [OF reach_example, where e = "\<lparr>fe_domain = ''ab'', fe_created = 0, fe_last_used = 1\<rparr>"])
    (simp_all add: example_dns_def live_def lower_examples)

section \<open>Properties of packets\<close>

lemma parse_labels_SomeE:
  assumes "parse_labels data pos parts = Some (ps, p)"
  obtains (last) "pos < length data" "unat (data ! pos) = 0" "ps = parts" "p = pos + 1"
  | (label) l where "pos < length data" "unat (data ! pos) \<noteq> 0" "pos + 1 + unat (data ! pos) \<le> length data"
      "from_utf8 (take (unat (data ! pos)) (drop (pos + 1) data)) = Some l"
      "parse_labels data (pos + 1 + unat (data ! pos)) (parts @ [l]) = Some (ps, p)"
  using assms
  by (subst (asm) parse_labels.simps) (auto simp: Let_def not_le not_less split: if_splits option.splits)

lemma parse_labels_bounds:
  "parse_labels data pos parts = Some (ps, p) \<Longrightarrow> pos < p \<and> p \<le> length data"
proof (induction "length data - pos" arbitrary: pos parts rule: less_induct)
  case less
  from less.prems show ?case
  proof (cases rule: parse_labels_SomeE)
    case (label l)
    then have "length data - (pos + 1 + unat (data ! pos)) < length data - pos" by simp
    from less.hyps [OF this label(5)] show ?thesis by simp
  qed simp
qed

text \<open>The parser looks only at the bytes it consumes.\<close>

lemma parse_labels_prefix:
  "parse_labels data pos parts = Some (ps, p) \<Longrightarrow> p \<le> k \<Longrightarrow> parse_labels (take k data @ rest) pos parts = Some (ps, p)"
proof (induction "length data - pos" arbitrary: pos parts rule: less_induct)
  case less
  let ?data = "take k data @ rest"
  have b: "pos < p" "p \<le> length data" using parse_labels_bounds [OF less.prems(1)] by auto
  then have pos: "\<not> length ?data \<le> pos" "?data ! pos = data ! pos"
    using less.prems(2) by (auto simp: nth_append min_def)
  from less.prems(1) show ?case
  proof (cases rule: parse_labels_SomeE)
    case last
    then show ?thesis using pos by (simp add: parse_labels.simps [of ?data])
  next
    case (label l)
    let ?len = "unat (data ! pos)"
    have "pos + 1 + ?len < p" using parse_labels_bounds [OF label(5)] by simp
    then have "take ?len (drop (pos + 1) ?data) = take ?len (drop (pos + 1) data)" "\<not> length ?data < pos + 1 + ?len"
      using less.prems(2) b by (auto simp: drop_take min_def)
    moreover have "length data - (pos + 1 + ?len) < length data - pos" using label(1) by simp
    from less.hyps [OF this label(5) less.prems(2)]
    have "parse_labels ?data (pos + 1 + ?len) (parts @ [l]) = Some (ps, p)" .
    ultimately show ?thesis
      using label pos by (simp add: parse_labels.simps [of ?data pos] Let_def)
  qed
qed

lemma parse_question_prefix:
  assumes "parse_dns_question data = Some (name, qt, qc, n)"
  shows "n \<le> length data \<and> parse_dns_question (take n data @ rest) = Some (name, qt, qc, n) \<and> length name \<le> 255"
proof -
  obtain ps p where p: "parse_labels data 0 [] = Some (ps, p)" "n = p + 4" "p + 4 \<le> length data" "length (join ''.'' ps) \<le> 255"
      "name = join ''.'' ps" "qt = u16_from_be (data ! p) (data ! (p + 1))" "qc = u16_from_be (data ! (p + 2)) (data ! (p + 3))"
    using assms by (auto simp: parse_dns_question_def Let_def MAX_DOMAIN_LEN_def split: option.splits if_splits)
  have "parse_labels (take n data @ rest) 0 [] = Some (ps, p)"
    using parse_labels_prefix [OF p(1), of n] p(2) by simp
  then show ?thesis using p by (simp add: parse_dns_question_def Let_def MAX_DOMAIN_LEN_def nth_append)
qed

text \<open>
  C38. The resolver answers what was asked. A query that it answers is marked as a standard query (not a response, operation code 0), has at least
  one question, and the first asks for the A record of a name of at most 255 bytes; the response repeats
  the identifier and the question, so that the same parser reads the same name from it, is sixteen bytes of record longer than header and
  question, and ends with the address; and the address leads back to the name at every later time until its entry, made by this query or
  by an earlier one for the name, has the age at which entries expire.
\<close>

theorem dns_answer_matches_query:
  assumes "reach dns_init (dns_step unicode) s" and "handle_query unicode now query s = (Some (resp, ip), t)"
  shows "\<exists>name qend. u16_from_be (query ! 2) (query ! 3) AND 0xF800 = 0 \<and> u16_from_be (query ! 4) (query ! 5) \<noteq> 0 \<and>
    parse_dns_question (drop 12 query) = Some (name, 1, 1, qend) \<and> length name \<le> 255 \<and>
    parse_dns_question (drop 12 resp) = Some (name, 1, 1, qend) \<and> take 2 resp = take 2 query \<and>
    length resp = 12 + qend + 16 \<and> drop (12 + qend + 12) resp = u32_to_be ip \<and>
    (\<forall>later. fst (lookup later ip t) =
       (if elapsed (born now (to_lowercase unicode name) s) later < ttl s then Some (to_lowercase unicode name) else None))"
proof -
  have flags: "u16_from_be (query ! 2) (query ! 3) AND 0xF800 = 0" "u16_from_be (query ! 4) (query ! 5) \<noteq> 0"
    using assms(2) by (auto simp: handle_query_def Let_def split: if_splits)
  obtain name qend ev where q: "12 \<le> length query" "parse_dns_question (drop 12 query) = Some (name, 1, 1, qend)"
      "allocate unicode now name s = (ip, ev, t)"
      "resp = build_dns_response (u16_from_be (query ! 0) (query ! 1)) (take qend (drop 12 query)) ip"
    using assms(2) by (auto simp: handle_query_def Let_def split: if_splits option.splits prod.splits)
  let ?q = "take qend (drop 12 query)"
  let ?tail = "u16_to_be 0xC00C @ u16_to_be 1 @ u16_to_be 1 @ u32_to_be 60 @ u16_to_be 4 @ u32_to_be ip"
  have len: "length ?q = qend" using parse_question_prefix [OF q(2)] by simp
  have inv: "dns_inv s" using assms(1) by (rule dns_sys.reach_inv)
  have two: "take 2 query = [query ! 0, query ! 1]"
    using q(1) by (cases query; cases "tl query") (auto simp: take_Cons')
  have "drop 12 resp = ?q @ ?tail" by (simp add: q(4) build_dns_response_def)
  then have "parse_dns_question (drop 12 resp) = Some (name, 1, 1, qend)"
    using parse_question_prefix [OF q(2)] by simp
  moreover have "take 2 resp = take 2 query"
    by (simp add: q(4) build_dns_response_def two u16_to_from_be)
  moreover have "length resp = 12 + qend + 16" using len by (simp add: q(4) build_dns_response_def)
  moreover have "drop (12 + qend + 12) resp = u32_to_be ip" using len by (simp add: q(4) build_dns_response_def)
  ultimately show ?thesis
    using flags q(2) parse_question_prefix [OF q(2)] lookup_allocated [OF inv q(3)] by blast
qed

subsection \<open>A concrete query\<close>

definition example_query :: bytes where
  "example_query = [0x12, 0x34, 1, 0, 0, 1, 0, 0, 0, 0, 0, 0, 2, 0x41, 0x62, 0, 0, 1, 0, 1]"

lemma example_question:
  "parse_dns_question [2, 0x41, 0x62, 0, 0, 1, 0, 1] = Some (''Ab'', 1, 1, 8)"
  by code_simp

lemma example_query_answered: "\<exists>resp. handle_query (\<lambda>s. s) 0 example_query fake_dns_new = (Some (resp, pool_ip 1), example_dns)"
proof -
  have "u16_from_be (1 :: u8) 0 AND 0xF800 = 0" "u16_from_be (0 :: u8) 1 \<noteq> 0" by code_simp+
  then show ?thesis
    by (simp add: handle_query_def example_query_def example_question example_allocates Let_def)
qed

theorem dns_answer_matches_query_witness:
  "\<exists>resp. handle_query (\<lambda>s. s) 0 example_query fake_dns_new = (Some (resp, pool_ip 1), example_dns) \<and>
     parse_dns_question (drop 12 resp) = Some (''Ab'', 1, 1, 8) \<and> length resp = 36 \<and>
     fst (lookup (from_secs 3599) (pool_ip 1) example_dns) = Some ''ab''"
proof -
  obtain resp where r: "handle_query (\<lambda>s. s) 0 example_query fake_dns_new = (Some (resp, pool_ip 1), example_dns)"
    using example_query_answered by blast
  have "born 0 (to_lowercase (\<lambda>s. s) ''Ab'') fake_dns_new = 0" "ttl fake_dns_new = from_secs 3600"
    by (simp_all add: born_def fake_dns_new_def fake_dns_build_def DEFAULT_TTL_def)
  with dns_answer_matches_query [OF reach_new r] r show ?thesis
    by (auto simp: example_query_def example_question lower_examples)
qed

end
