(* ===== verification/User_Rule.thy ===== *)
theory User_Rule
  imports Rust_Str
begin

text \<open>
  Patterns of routing rules, \<^verbatim>\<open>xr-proto/src/user_rule.rs\<close>, with the configuration types they are
  compiled into (\<^verbatim>\<open>RoutingConfig\<close> and \<^verbatim>\<open>RoutingRule\<close> of \<^verbatim>\<open>config.rs\<close>): normalisation,
  classification, and the configuration built from a user's list. The reference reading of a pattern,
  \<open>pattern_spec\<close>, has none of the classifier's early exits; the two agree on every trimmed pattern.
\<close>

section \<open>Configuration\<close>

record routing_rule =
  rr_name :: "string option"
  rr_action :: string
  rr_domains :: "string list"
  rr_ip_ranges :: "string list"
  rr_geoip :: "string list"

record routing_config =
  rc_default_action :: string
  rc_rules :: "routing_rule list"

datatype rule_kind = Domain | Wildcard | CidrV4 | CidrV6

definition rule_kind_as_str :: "rule_kind \<Rightarrow> string" where
  "rule_kind_as_str k = (case k of Domain \<Rightarrow> ''domain'' | Wildcard \<Rightarrow> ''wildcard'' | CidrV4 \<Rightarrow> ''cidr4'' | CidrV6 \<Rightarrow> ''cidr6'')"

record user_rule =
  ur_action :: string
  ur_pattern :: string

text \<open>\<^verbatim>\<open>RulePatternError\<close> is its text.\<close>

type_synonym 'a pattern_result = "string + 'a"

section \<open>Classification\<close>

definition normalize_pattern :: "(string \<Rightarrow> string) \<Rightarrow> string \<Rightarrow> string" where
  "normalize_pattern unicode raw =
     (let s = to_lowercase unicode (trim raw) in
      if parse_ipv4 s \<noteq> None then s @ ''/32''
      else if parse_ipv6 s \<noteq> None then s @ ''/128''
      else s)"

definition is_valid_label :: "string \<Rightarrow> bool" where
  "is_valid_label label \<longleftrightarrow>
     label \<noteq> [] \<and> length label \<le> 63 \<and> \<not> starts_with label ''-'' \<and> \<not> ends_with label ''-''
     \<and> list_all (\<lambda>c. is_ascii_alphanumeric c \<or> c = CHR ''-'') label"

definition is_valid_domain :: "string \<Rightarrow> bool" where
  "is_valid_domain s =
     (if CHR ''.'' \<notin> set s \<or> length s > 253 then False
      else if list_all (\<lambda>c. is_ascii_digit c \<or> c = CHR ''.'') s then False
      else list_all is_valid_label (split_on CHR ''.'' s))"

definition classify_pattern :: "string \<Rightarrow> rule_kind pattern_result" where
  "classify_pattern pattern =
     (let s = trim pattern in
      if s = [] then Inl ''Vvedite domen ili IP-diapazon''
      else if contains_str s ''://'' then Inl ''Vvedite domen bez shemy (https://) i puti''
      else if starts_with s ''['' \<or> ends_with s '']'' then Inl ''Vvedite IPv6 bez kvadratnyh skobok''
      else case split_once CHR ''/'' s of
        Some (ip, pfx) \<Rightarrow>
          (case parse_u32 pfx of
             None \<Rightarrow> Inl ''Nekorrektnyj format''
           | Some n \<Rightarrow>
               if parse_ipv4 ip \<noteq> None then
                 (if n > 32 then Inl ''Prefiks IPv4 ne bolshe /32'' else Inr CidrV4)
               else if parse_ipv6 ip \<noteq> None then
                 (if n > 128 then Inl ''Prefiks IPv6 ne bolshe /128'' else Inr CidrV6)
               else Inl ''Nekorrektnyj format'')
      | None \<Rightarrow>
          if s = ''*'' then Inr Wildcard
          else (case strip_prefix ''*.'' s of
              Some rest \<Rightarrow> if is_valid_domain rest then Inr Wildcard else Inl ''Nekorrektnyj format''
            | None \<Rightarrow>
                if CHR ''*'' \<in> set s then Inl ''Podstanovka dopustima tolko v nachale: *.example.com''
                else if is_valid_domain s then Inr Domain
                else Inl ''Nekorrektnyj format''))"

definition user_rule_compile :: "(string \<Rightarrow> string) \<Rightarrow> user_rule \<Rightarrow> routing_rule option" where
  "user_rule_compile unicode r =
     (let pattern = normalize_pattern unicode (ur_pattern r);
          base = \<lparr>rr_name = None, rr_action = ur_action r, rr_domains = [], rr_ip_ranges = [], rr_geoip = []\<rparr>
      in case classify_pattern pattern of
           Inr Domain \<Rightarrow> Some (base\<lparr>rr_domains := [pattern]\<rparr>)
         | Inr Wildcard \<Rightarrow> Some (base\<lparr>rr_domains := [pattern]\<rparr>)
         | Inr CidrV4 \<Rightarrow> Some (base\<lparr>rr_ip_ranges := [pattern]\<rparr>)
         | Inr CidrV6 \<Rightarrow> Some (base\<lparr>rr_ip_ranges := [pattern]\<rparr>)
         | Inl _ \<Rightarrow> None)"

definition to_routing_config :: "(string \<Rightarrow> string) \<Rightarrow> user_rule list \<Rightarrow> string \<Rightarrow> routing_config" where
  "to_routing_config unicode rules default_action =
     \<lparr>rc_default_action = default_action, rc_rules = List.map_filter (user_rule_compile unicode) rules\<rparr>"

section \<open>The reference reading of a pattern\<close>

datatype pattern = PAny | PExact string | PSuffix string | PNet4 u32 int | PNet6 "128 word" int

definition pattern_spec :: "string \<Rightarrow> pattern option" where
  "pattern_spec s = (case split_once CHR ''/'' s of
      Some (ip, pfx) \<Rightarrow>
        (case parse_u32 pfx of
           None \<Rightarrow> None
         | Some n \<Rightarrow>
             (case parse_ipv4 ip of
                Some a \<Rightarrow> if n \<le> 32 then Some (PNet4 a n) else None
              | None \<Rightarrow>
                  (case parse_ipv6 ip of
                     Some a \<Rightarrow> if n \<le> 128 then Some (PNet6 a n) else None
                   | None \<Rightarrow> None)))
    | None \<Rightarrow>
        if s = ''*'' then Some PAny
        else if starts_with s ''*.'' \<and> is_valid_domain (drop 2 s) then Some (PSuffix (drop 2 s))
        else if is_valid_domain s then Some (PExact s) else None)"

section \<open>The classifier reads a pattern as the reference does\<close>

definition kind_of :: "pattern \<Rightarrow> rule_kind" where
  "kind_of p = (case p of PAny \<Rightarrow> Wildcard | PExact _ \<Rightarrow> Domain | PSuffix _ \<Rightarrow> Wildcard | PNet4 _ _ \<Rightarrow> CidrV4 | PNet6 _ _ \<Rightarrow> CidrV6)"

lemma valid_domain_chars:
  assumes "is_valid_domain s" and "c \<in> set s"
  shows "is_ascii_alphanumeric c \<or> c = CHR ''-'' \<or> c = CHR ''.''"
proof (cases "c = CHR ''.''")
  case False
  then obtain w where "w \<in> set (split_on CHR ''.'' s)" "c \<in> set w" using set_split_on [OF assms(2)] by blast
  moreover have "list_all is_valid_label (split_on CHR ''.'' s)" using assms(1) by (simp add: is_valid_domain_def split: if_splits)
  ultimately show ?thesis by (auto simp: list_all_iff is_valid_label_def)
qed simp

lemma valid_domain_excludes:
  assumes "is_valid_domain s"
  shows "s \<noteq> []" "CHR ''/'' \<notin> set s" "CHR ''['' \<notin> set s" "CHR '']'' \<notin> set s" "CHR ''*'' \<notin> set s" "CHR '':'' \<notin> set s"
proof -
  show "s \<noteq> []" using assms by (auto simp: is_valid_domain_def)
  have n: "c \<notin> set s" if "\<not> is_ascii_alphanumeric c" "c \<noteq> CHR ''-''" "c \<noteq> CHR ''.''" for c
    using valid_domain_chars [OF assms] that by blast
  show "CHR ''/'' \<notin> set s" "CHR ''['' \<notin> set s" "CHR '']'' \<notin> set s" "CHR ''*'' \<notin> set s" "CHR '':'' \<notin> set s"
    by (rule n; simp add: is_ascii_alphanumeric_def is_ascii_digit_def)+
qed

text \<open>A slash and a bracket rule out every reading that the early exits refuse.\<close>

lemma spec_of_scheme: "contains_str s ''://'' \<Longrightarrow> pattern_spec s = None"
proof -
  assume c: "contains_str s ''://''"
  have two: "2 \<le> count_list s CHR ''/''" using contains_str_count [OF c, of "CHR ''/''"] by simp
  then have "CHR ''/'' \<in> set s" using count_list_0_iff [of s "CHR ''/''"] by auto
  then obtain a b where s: "split_once CHR ''/'' s = Some (a, b)" by (auto simp: split_once_def)
  have "CHR ''/'' \<in> set b"
    using two split_once_SomeD [OF s] count_list_0_iff [of a "CHR ''/''"] count_list_0_iff [of b "CHR ''/''"] by auto
  then have "parse_u32 b = None" using parse_u32_chars [of b] by (cases "parse_u32 b") (auto simp: list_all_iff to_digit_def)
  then show ?thesis using s by (simp add: pattern_spec_def)
qed

lemma spec_of_bracket: 
  assumes "starts_with s ''['' \<or> ends_with s '']''"
  shows "pattern_spec s = None"
proof (cases "split_once CHR ''/'' s")
  case None
  have "CHR ''['' \<in> set s \<or> CHR '']'' \<in> set s" using assms by (auto simp: prefix_def suffix_def)
  then have "\<not> is_valid_domain s" "s \<noteq> ''*''" using valid_domain_excludes [of s] by auto
  moreover have "\<not> (starts_with s ''*.'' \<and> is_valid_domain (drop 2 s))"
    using assms valid_domain_excludes [of "drop 2 s"] by (auto simp: prefix_def suffix_def append_eq_Cons_conv)
  ultimately show ?thesis using None by (simp add: pattern_spec_def)
next
  case (Some ab)
  then obtain a b where s: "split_once CHR ''/'' s = Some (a, b)" by (cases ab) simp
  then have sab: "s = a @ CHR ''/'' # b" using split_once_SomeD by blast
  show ?thesis
  proof (cases "parse_u32 b")
    case (Some n)
    have b: "b \<noteq> []" "CHR '']'' \<notin> set b" using parse_u32_chars [OF Some] by (auto simp: list_all_iff to_digit_def)
    then have "\<not> ends_with s '']''" using sab by (cases b rule: rev_cases) (auto simp: suffix_def)
    then have "a = [] \<or> CHR ''['' \<in> set a" using assms sab by (cases a) (auto simp: prefix_def)
    then have "\<not> (list_all ip_char a \<and> a \<noteq> [])" unfolding list_all_iff using not_ip_char(2) by blast
    then have "parse_ipv4 a = None" "parse_ipv6 a = None"
      using parse_ipv4_chars [of a] parse_ipv6_chars [of a] by (metis not_None_eq)+
    then show ?thesis using s Some by (simp add: pattern_spec_def)
  qed (use s in \<open>simp add: pattern_spec_def\<close>)
qed

lemma spec_of_nil: "pattern_spec [] = None"
  by (simp add: pattern_spec_def split_once_def is_valid_domain_def)

lemma classify_spec:
  assumes "trim s = s"
  shows "(case classify_pattern s of Inr k \<Rightarrow> Some k | Inl _ \<Rightarrow> None) = map_option kind_of (pattern_spec s)"
proof (cases "s = [] \<or> contains_str s ''://'' \<or> starts_with s ''['' \<or> ends_with s '']''")
  case True
  then have "\<exists>e. classify_pattern s = Inl e" by (auto simp: classify_pattern_def assms Let_def)
  moreover have "pattern_spec s = None" using True spec_of_nil spec_of_scheme spec_of_bracket by blast
  ultimately show ?thesis by auto
next
  case False
  show ?thesis
  proof (cases "split_once CHR ''/'' s")
    case None
    have "is_valid_domain s \<Longrightarrow> CHR ''*'' \<notin> set s" using valid_domain_excludes by blast
    moreover have "starts_with s ''*.'' \<Longrightarrow> CHR ''*'' \<in> set s" by (auto simp: prefix_def)
    moreover have "drop (length ''*.'') s = drop 2 s" by (simp add: numeral_2_eq_2)
    ultimately show ?thesis
      using False None by (auto simp: classify_pattern_def pattern_spec_def assms Let_def strip_prefix_def kind_of_def
          simp del: drop_Suc_Cons list.size)
  next
    case (Some ab)
    then show ?thesis
      using False by (cases ab) (auto simp: classify_pattern_def pattern_spec_def assms Let_def kind_of_def split: option.splits)
  qed
qed

end
