(* ===== verification/Routing.thy ===== *)
theory Routing
  imports User_Rule
begin

unbundle bit_operations_syntax

text \<open>
  The routing engine, \<^verbatim>\<open>xr-proto/src/routing.rs\<close>: actions, CIDR ranges, compiled rules, and the
  verdict for a connection. The GeoIP database is a third-party reader: what it answers for an
  address is an argument (\<open>country\<close>), constantly \<open>None\<close> when the feature is off or no database loads.
\<close>

section \<open>Actions and ranges\<close>

datatype action = Proxy | Direct | Block

definition action_from_str :: "string \<Rightarrow> action" where
  "action_from_str s = (if s = ''proxy'' then Proxy else if s = ''block'' then Block else Direct)"

definition on_server_down_from_str :: "string \<Rightarrow> action" where
  "on_server_down_from_str s = (if to_ascii_lowercase (trim s) = ''direct'' then Direct else Block)"

datatype cidr_range = RangeV4 u32 u32 | RangeV6 "128 word" "128 word"

definition cidr_parse :: "string \<Rightarrow> cidr_range option" where
  "cidr_parse s = (case split_once CHR ''/'' s of
      None \<Rightarrow> None
    | Some (ip_str, prefix_str) \<Rightarrow>
        (case parse_u32 prefix_str of
           None \<Rightarrow> None
         | Some prefix_len \<Rightarrow>
             (case parse_ipv4 ip_str of
                Some ip \<Rightarrow>
                  if prefix_len > 32 then None
                  else let mask = (if prefix_len = 0 then 0 else push_bit (nat (32 - prefix_len)) (NOT 0))
                    in Some (RangeV4 (ip AND mask) mask)
              | None \<Rightarrow>
                  (case parse_ipv6 ip_str of
                     Some ip \<Rightarrow>
                       if prefix_len > 128 then None
                       else let mask = (if prefix_len = 0 then 0 else push_bit (nat (128 - prefix_len)) (NOT 0))
                         in Some (RangeV6 (ip AND mask) mask)
                   | None \<Rightarrow> None))))"

fun cidr_contains :: "cidr_range \<Rightarrow> ip_addr \<Rightarrow> bool" where
  "cidr_contains (RangeV4 addr msk) (V4 v4) = (v4 AND msk = addr)"
| "cidr_contains (RangeV6 addr msk) (V6 v6) = (v6 AND msk = addr)"
| "cidr_contains _ _ = False"

section \<open>Rules\<close>

record compiled_rule =
  cr_action :: action
  exact_domains :: "string list"
  wildcard_suffixes :: "string list"
  cr_ip_ranges :: "cidr_range list"
  geoip_codes :: "string list"

record router =
  rt_rules :: "compiled_rule list"
  rt_default :: action

text \<open>One domain of a rule: what it adds to the exact names and to the suffixes.\<close>

definition compile_domain :: "(string \<Rightarrow> string) \<Rightarrow> string \<Rightarrow> string list \<times> string list \<Rightarrow> string list \<times> string list" where
  "compile_domain unicode domain acc =
     (let d = normalize_pattern unicode domain in
      case acc of (exact, suffixes0) \<Rightarrow>
        (case classify_pattern d of
           Inr Wildcard \<Rightarrow> (exact, suffixes0 @ [case strip_prefix ''*'' d of Some t \<Rightarrow> t | None \<Rightarrow> []])
         | Inr Domain \<Rightarrow> (exact @ [d], suffixes0)
         | _ \<Rightarrow> (exact, suffixes0)))"

definition compile_rule :: "(string \<Rightarrow> string) \<Rightarrow> (string \<Rightarrow> string) \<Rightarrow> routing_rule \<Rightarrow> compiled_rule" where
  "compile_rule lower upper rule =
     (case fold (compile_domain lower) (rr_domains rule) ([], []) of (exact, suffixes0) \<Rightarrow>
        \<lparr>cr_action = action_from_str (rr_action rule), exact_domains = exact, wildcard_suffixes = suffixes0,
         cr_ip_ranges = List.map_filter cidr_parse (rr_ip_ranges rule),
         geoip_codes = map (to_uppercase upper) (rr_geoip rule)\<rparr>)"

definition router_new :: "(string \<Rightarrow> string) \<Rightarrow> (string \<Rightarrow> string) \<Rightarrow> routing_config \<Rightarrow> router" where
  "router_new lower upper config =
     \<lparr>rt_rules = map (compile_rule lower upper) (rc_rules config),
      rt_default = action_from_str (rc_default_action config)\<rparr>"

definition from_merged :: "(string \<Rightarrow> string) \<Rightarrow> (string \<Rightarrow> string) \<Rightarrow> routing_config \<Rightarrow> routing_config \<Rightarrow> router" where
  "from_merged lower upper overrides preset =
     \<lparr>rt_rules = map (compile_rule lower upper) (rc_rules overrides @ rc_rules preset),
      rt_default = action_from_str (rc_default_action overrides)\<rparr>"

section \<open>The verdict\<close>

definition suffix_matches :: "string \<Rightarrow> string \<Rightarrow> bool" where
  "suffix_matches host sfx \<longleftrightarrow>
     ends_with host sfx \<or> (case strip_prefix ''.'' sfx of Some base \<Rightarrow> host = base | None \<Rightarrow> False)"

definition matches_rule :: "(string \<Rightarrow> string) \<Rightarrow> (ip_addr \<Rightarrow> string option) \<Rightarrow> compiled_rule \<Rightarrow> string option \<Rightarrow> ip_addr \<Rightarrow> bool" where
  "matches_rule lower country rule sni dest_ip \<longleftrightarrow>
     (case sni of
        None \<Rightarrow> False
      | Some hostname \<Rightarrow>
          let hostname_lower = to_lowercase lower hostname in
          hostname_lower \<in> set (exact_domains rule)
          \<or> list_ex (suffix_matches hostname_lower) (wildcard_suffixes rule))
     \<or> list_ex (\<lambda>cidr. cidr_contains cidr dest_ip) (cr_ip_ranges rule)
     \<or> geoip_codes rule \<noteq> []
       \<and> (case country dest_ip of
            None \<Rightarrow> False
          | Some c \<Rightarrow> list_ex (eq_ignore_ascii_case c) (geoip_codes rule))"

fun first_match :: "(string \<Rightarrow> string) \<Rightarrow> (ip_addr \<Rightarrow> string option) \<Rightarrow> action \<Rightarrow> compiled_rule list \<Rightarrow>
    string option \<Rightarrow> ip_addr \<Rightarrow> action" where
  "first_match lower country dflt [] sni dest_ip = dflt"
| "first_match lower country dflt (rule # rules) sni dest_ip =
     (if matches_rule lower country rule sni dest_ip then cr_action rule
      else first_match lower country dflt rules sni dest_ip)"

definition resolve :: "(string \<Rightarrow> string) \<Rightarrow> (ip_addr \<Rightarrow> string option) \<Rightarrow> router \<Rightarrow> string option \<Rightarrow> ip_addr \<Rightarrow> action" where
  "resolve lower country rt sni dest_ip = first_match lower country (rt_default rt) (rt_rules rt) sni dest_ip"

section \<open>What a user's list means\<close>

text \<open>A pattern read directly: the leading bits of the address, the name, or its parent domains.\<close>

fun pattern_matches :: "(string \<Rightarrow> string) \<Rightarrow> pattern \<Rightarrow> string option \<Rightarrow> ip_addr \<Rightarrow> bool" where
  "pattern_matches lower PAny sni ip = (sni \<noteq> None)"
| "pattern_matches lower (PExact d) sni ip = (case sni of None \<Rightarrow> False | Some h \<Rightarrow> to_lowercase lower h = d)"
| "pattern_matches lower (PSuffix d) sni ip = (case sni of None \<Rightarrow> False
     | Some h \<Rightarrow> to_lowercase lower h = d \<or> ends_with (to_lowercase lower h) (CHR ''.'' # d))"
| "pattern_matches lower (PNet4 a n) sni ip = (case ip of V6 _ \<Rightarrow> False
     | V4 x \<Rightarrow> drop_bit (nat (32 - n)) x = drop_bit (nat (32 - n)) a)"
| "pattern_matches lower (PNet6 a n) sni ip = (case ip of V4 _ \<Rightarrow> False
     | V6 x \<Rightarrow> drop_bit (nat (128 - n)) x = drop_bit (nat (128 - n)) a)"

definition user_pattern :: "(string \<Rightarrow> string) \<Rightarrow> user_rule \<Rightarrow> pattern option" where
  "user_pattern lower r = (let s = to_lowercase lower (trim (ur_pattern r)) in
     case parse_ipv4 s of Some a \<Rightarrow> Some (PNet4 a 32) | None \<Rightarrow>
     (case parse_ipv6 s of Some a \<Rightarrow> Some (PNet6 a 128) | None \<Rightarrow> pattern_spec s))"

definition user_rule_applies :: "(string \<Rightarrow> string) \<Rightarrow> string option \<Rightarrow> ip_addr \<Rightarrow> user_rule \<Rightarrow> bool" where
  "user_rule_applies lower sni ip r =
     (case user_pattern lower r of None \<Rightarrow> False | Some p \<Rightarrow> pattern_matches lower p sni ip)"

section \<open>Ranges compare leading bits\<close>

lemma and_high_mask: "x AND NOT (mask n) = push_bit n (drop_bit n x)" for x :: "'a::len word"
  by (rule bit_eqI) (auto simp: bit_simps)

lemma masked_eq_iff: "x AND NOT (mask n) = y AND NOT (mask n) \<longleftrightarrow> drop_bit n x = drop_bit n y"
  for x y :: "'a::len word"
proof
  assume "x AND NOT (mask n) = y AND NOT (mask n)"
  then have *: "push_bit n (drop_bit n x) = push_bit n (drop_bit n y)" by (simp only: and_high_mask)
  show "drop_bit n x = drop_bit n y"
  proof (rule bit_word_eqI)
    fix k assume "k < LENGTH('a)"
    show "bit (drop_bit n x) k = bit (drop_bit n y) k"
      using arg_cong [OF *, of "\<lambda>w. bit w (n + k)"]
      by (cases "n + k < LENGTH('a)") (auto simp: bit_simps dest: bit_imp_le_length)
  qed
qed (simp only: and_high_mask)

lemma cidr_parse_net4:
  assumes "pattern_spec s = Some (PNet4 a n)"
  shows "\<exists>r. cidr_parse s = Some r \<and> (\<forall>ip. cidr_contains r ip = pattern_matches l (PNet4 a n) sni ip)"
proof -
  obtain i p where s: "split_once CHR ''/'' s = Some (i, p)" "parse_u32 p = Some n" "parse_ipv4 i = Some a" "n \<le> 32"
    using assms by (auto simp: pattern_spec_def split: option.splits if_splits)
  have z: "drop_bit 32 x = 0" for x :: u32 by (rule bit_word_eqI) (simp add: bit_simps)
  show ?thesis
  proof (cases "n = 0")
    case True
    then have "cidr_parse s = Some (RangeV4 0 0)" using s by (simp add: cidr_parse_def Let_def)
    then show ?thesis using True z by (auto split: ip_addr.splits)
  next
    case False
    let ?m = "push_bit (nat (32 - n)) (NOT 0) :: u32"
    have "cidr_parse s = Some (RangeV4 (a AND ?m) ?m)" using s False by (simp add: cidr_parse_def Let_def)
    then show ?thesis by (auto simp: masked_eq_iff split: ip_addr.splits)
  qed
qed

lemma cidr_parse_net6:
  assumes "pattern_spec s = Some (PNet6 a n)"
  shows "\<exists>r. cidr_parse s = Some r \<and> (\<forall>ip. cidr_contains r ip = pattern_matches l (PNet6 a n) sni ip)"
proof -
  obtain i p where s: "split_once CHR ''/'' s = Some (i, p)" "parse_u32 p = Some n" "parse_ipv4 i = None" "parse_ipv6 i = Some a" "n \<le> 128"
    using assms by (auto simp: pattern_spec_def split: option.splits if_splits)
  have z: "drop_bit 128 x = 0" for x :: "128 word" by (rule bit_word_eqI) (simp add: bit_simps)
  show ?thesis
  proof (cases "n = 0")
    case True
    then have "cidr_parse s = Some (RangeV6 0 0)" using s by (simp add: cidr_parse_def Let_def)
    then show ?thesis using True z by (auto split: ip_addr.splits)
  next
    case False
    let ?m = "push_bit (nat (128 - n)) (NOT 0) :: 128 word"
    have "cidr_parse s = Some (RangeV6 (a AND ?m) ?m)" using s False by (simp add: cidr_parse_def Let_def)
    then show ?thesis by (auto simp: masked_eq_iff split: ip_addr.splits)
  qed
qed

section \<open>A compiled user rule matches what its pattern says\<close>

abbreviation rule_with :: "string \<Rightarrow> string list \<Rightarrow> string list \<Rightarrow> routing_rule" where
  "rule_with act ds rs \<equiv> \<lparr>rr_name = None, rr_action = act, rr_domains = ds, rr_ip_ranges = rs, rr_geoip = []\<rparr>"

lemma compiled_name:
  assumes "pattern_spec s = Some p" and "kind_of p \<in> {Domain, Wildcard}" and "trim s = s" and "normalize_pattern l s = s"
  shows "matches_rule l country (compile_rule l u (rule_with act [s] [])) sni ip = pattern_matches l p sni ip"
proof -
  have c: "classify_pattern s = Inr (kind_of p)"
    using classify_spec [OF assms(3)] assms(1) by (auto split: sum.splits)
  have nm: "split_once CHR ''/'' s = None" using assms(1,2)
    by (auto simp: pattern_spec_def kind_of_def split: option.splits if_splits)
  show ?thesis
  proof (cases p)
    case PAny
    then have "s = ''*''" using assms(1) nm by (auto simp: pattern_spec_def split: if_splits)
    then show ?thesis using c assms(4) PAny
      by (simp add: compile_rule_def compile_domain_def matches_rule_def kind_of_def strip_prefix_def
          suffix_matches_def map_filter_simps split: option.splits)
  next
    case (PExact d)
    then have "d = s" using assms(1) nm by (auto simp: pattern_spec_def split: if_splits)
    then show ?thesis using c assms(4) PExact
      by (simp add: compile_rule_def compile_domain_def matches_rule_def kind_of_def
          suffix_matches_def map_filter_simps split: option.splits)
  next
    case (PSuffix d)
    then have "s = ''*.'' @ d" using assms(1) nm by (auto simp: pattern_spec_def prefix_def split: if_splits)
    then show ?thesis using c assms(4) PSuffix
      by (auto simp: compile_rule_def compile_domain_def matches_rule_def kind_of_def strip_prefix_def
          suffix_matches_def map_filter_simps split: option.splits)
  qed (use assms(2) in \<open>auto simp: kind_of_def\<close>)
qed

lemma compiled_range:
  assumes "pattern_spec s = Some p" and "kind_of p \<in> {CidrV4, CidrV6}"
  shows "matches_rule l country (compile_rule l u (rule_with act [] [s])) sni ip = pattern_matches l p sni ip"
proof -
  obtain r where "cidr_parse s = Some r" "\<forall>ip. cidr_contains r ip = pattern_matches l p sni ip"
    using assms cidr_parse_net4 [of s _ _ l sni] cidr_parse_net6 [of s _ _ l sni] by (cases p) (force simp: kind_of_def)+
  then show ?thesis
    by (simp add: compile_rule_def matches_rule_def map_filter_simps split: option.splits)
qed

lemma user_rule_compile_some:
  assumes "pattern_spec s = Some p" and "trim s = s" and "normalize_pattern l (ur_pattern r) = s"
    and "kind_of p \<in> {Domain, Wildcard} \<Longrightarrow> normalize_pattern l s = s"
  shows "\<exists>rr. user_rule_compile l r = Some rr \<and> rr_action rr = ur_action r \<and>
    (\<forall>sni ip. matches_rule l country (compile_rule l u rr) sni ip = pattern_matches l p sni ip)"
proof -
  have c: "classify_pattern s = Inr (kind_of p)"
    using classify_spec [OF assms(2)] assms(1) by (auto split: sum.splits)
  show ?thesis
  proof (cases "kind_of p \<in> {Domain, Wildcard}")
    case True
    then have "user_rule_compile l r = Some (rule_with (ur_action r) [s] [])"
      using c assms(3) by (auto simp: user_rule_compile_def)
    then show ?thesis using compiled_name [OF assms(1) True assms(2) assms(4) [OF True]] by simp
  next
    case False
    then have k: "kind_of p \<in> {CidrV4, CidrV6}" by (cases "kind_of p") auto
    then have "user_rule_compile l r = Some (rule_with (ur_action r) [] [s])"
      using c assms(3) by (auto simp: user_rule_compile_def)
    then show ?thesis using compiled_range [OF assms(1) k] by simp
  qed
qed

lemma address_pattern:
  assumes "list_all ip_char t" and "t \<noteq> []" and "is_ascii t" and "trimmed t" and "\<not> ascii_space (last b)" and "is_ascii b" and "b \<noteq> []"
  shows "split_once CHR ''/'' (t @ CHR ''/'' # b) = Some (t, b) \<and> trim (t @ CHR ''/'' # b) = t @ CHR ''/'' # b"
proof -
  have "CHR ''/'' \<notin> set t" using assms(1) not_ip_char(1) unfolding list_all_iff by blast
  moreover have "is_ascii (t @ CHR ''/'' # b)" using assms by (simp add: is_ascii_def)
  moreover have "trimmed (t @ CHR ''/'' # b)" using assms by (simp add: trimmed_def)
  ultimately show ?thesis by (simp add: split_once_append trim_trimmed)
qed

lemma user_rule_compiled:
  assumes "is_ascii (ur_pattern r)"
  shows "case user_pattern l r of
      None \<Rightarrow> user_rule_compile l r = None
    | Some p \<Rightarrow> (\<exists>rr. user_rule_compile l r = Some rr \<and> rr_action rr = ur_action r \<and>
        (\<forall>sni ip. matches_rule l country (compile_rule l u rr) sni ip = pattern_matches l p sni ip))"
proof -
  let ?t = "map ascii_lower (trim (ur_pattern r))"
  have t: "to_lowercase l (trim (ur_pattern r)) = ?t" using is_ascii_trim [OF assms] by (rule to_lowercase_ascii)
  have asc: "is_ascii ?t" "trimmed ?t" using is_ascii_trim [OF assms] trimmed_trim [OF assms] by simp_all
  have tr: "trim ?t = ?t" using asc by (rule trim_trimmed)
  have low: "to_lowercase l ?t = ?t" using asc(1) by (simp add: to_lowercase_def o_def)
  have n32: "parse_u32 ''32'' = Some 32" "parse_u32 ''128'' = Some 128" by code_simp+
  have sp: "\<not> ascii_space (last ''32'')" "\<not> ascii_space (last ''128'')" "is_ascii ''32''" "is_ascii ''128''"
    by (simp_all add: ascii_space_def is_ascii_def)
  consider (v4) a where "parse_ipv4 ?t = Some a" | (v6) a where "parse_ipv4 ?t = None" "parse_ipv6 ?t = Some a"
    | (name) "parse_ipv4 ?t = None" "parse_ipv6 ?t = None" by (cases "parse_ipv4 ?t"; cases "parse_ipv6 ?t") auto
  then show ?thesis
  proof cases
    case v4
    let ?s = "?t @ ''/32''"
    have sp4: "split_once CHR ''/'' ?s = Some (?t, ''32'') \<and> trim ?s = ?s"
      using address_pattern [OF _ _ asc sp(1,3)] parse_ipv4_chars [OF v4] by simp
    then have "pattern_spec ?s = Some (PNet4 a 32)" using v4 n32 by (simp add: pattern_spec_def)
    moreover have "normalize_pattern l (ur_pattern r) = ?s" using v4 by (simp add: normalize_pattern_def t)
    ultimately show ?thesis
      using user_rule_compile_some [of ?s "PNet4 a 32" l r country u] sp4 v4
      by (simp add: user_pattern_def t kind_of_def)
  next
    case v6
    let ?s = "?t @ ''/128''"
    have sp6: "split_once CHR ''/'' ?s = Some (?t, ''128'') \<and> trim ?s = ?s"
      using address_pattern [OF _ _ asc sp(2,4)] parse_ipv6_chars [OF v6(2)] by simp
    then have "pattern_spec ?s = Some (PNet6 a 128)" using v6 n32 by (simp add: pattern_spec_def)
    moreover have "normalize_pattern l (ur_pattern r) = ?s" using v6 by (simp add: normalize_pattern_def t)
    ultimately show ?thesis
      using user_rule_compile_some [of ?s "PNet6 a 128" l r country u] sp6 v6
      by (simp add: user_pattern_def t kind_of_def)
  next
    case name
    then have norm: "normalize_pattern l (ur_pattern r) = ?t" "normalize_pattern l ?t = ?t"
      by (simp_all add: normalize_pattern_def t tr low)
    show ?thesis
    proof (cases "pattern_spec ?t")
      case None
      then have "\<exists>e. classify_pattern ?t = Inl e" using classify_spec [OF tr] by (auto split: sum.splits)
      then show ?thesis using None name norm by (auto simp: user_pattern_def t user_rule_compile_def)
    next
      case (Some p)
      then show ?thesis
        using user_rule_compile_some [OF Some tr norm(1) norm(2), of country u] name by (simp add: user_pattern_def t)
    qed
  qed
qed

section \<open>The verdict on a user's list\<close>

lemma first_match_append:
  "first_match l country dflt (xs @ ys) sni ip =
     (case find (\<lambda>r. matches_rule l country r sni ip) xs of Some r \<Rightarrow> cr_action r | None \<Rightarrow> first_match l country dflt ys sni ip)"
  by (induction xs) auto

lemma cr_action_compile [simp]: "cr_action (compile_rule l u rr) = action_from_str (rr_action rr)"
  by (simp add: compile_rule_def split: prod.splits)

lemma find_user_rule:
  assumes "\<forall>r \<in> set rules. is_ascii (ur_pattern r)"
  shows "map_option cr_action (find (\<lambda>r. matches_rule l country r sni ip)
      (map (compile_rule l u) (List.map_filter (user_rule_compile l) rules)))
    = map_option (\<lambda>r. action_from_str (ur_action r)) (find (user_rule_applies l sni ip) rules)"
  using assms
proof (induction rules)
  case (Cons r rules)
  show ?case
  proof (cases "user_pattern l r")
    case None
    then have "user_rule_compile l r = None" using user_rule_compiled [of r l country u] Cons.prems by simp
    then show ?thesis using Cons None by (simp add: map_filter_simps user_rule_applies_def)
  next
    case (Some p)
    then obtain rr where "user_rule_compile l r = Some rr" "rr_action rr = ur_action r"
        "\<forall>sni ip. matches_rule l country (compile_rule l u rr) sni ip = pattern_matches l p sni ip"
      using user_rule_compiled [of r l country u] Cons.prems by auto
    then show ?thesis using Cons Some by (simp add: map_filter_simps user_rule_applies_def)
  qed
qed (simp add: map_filter_simps)

text \<open>
  C7. A user's list decides before the hub's preset, in its order, and every pattern means what it
  says: normalising, classifying, compiling and matching the list gives the action of the first
  user rule whose pattern, read directly (leading bits of the address, the name itself, or a
  parent domain), fits the connection, and otherwise the preset's verdict with the user's default. (The patterns are ASCII, as the rules ask for.)
\<close>

theorem user_rules_decide_first:
  assumes "\<forall>r \<in> set rules. is_ascii (ur_pattern r)"
  shows "resolve l country (from_merged l u (to_routing_config l rules d) preset) sni ip =
    (case find (user_rule_applies l sni ip) rules of
       Some r \<Rightarrow> action_from_str (ur_action r)
     | None \<Rightarrow> resolve l country ((router_new l u preset)\<lparr>rt_default := action_from_str d\<rparr>) sni ip)"
  using find_user_rule [OF assms, of l country sni ip u]
  by (auto simp: resolve_def from_merged_def to_routing_config_def router_new_def first_match_append split: option.splits)

subsection \<open>A concrete list\<close>

definition example_rules :: "user_rule list" where
  "example_rules = [\<lparr>ur_action = ''direct'', ur_pattern = ''10.0.0.0/8''\<rparr>, \<lparr>ur_action = ''proxy'', ur_pattern = '' *.Example.com''\<rparr>]"

definition empty_preset :: routing_config where
  "empty_preset = \<lparr>rc_default_action = ''block'', rc_rules = []\<rparr>"

lemma example_rules_ascii: "\<forall>r \<in> set example_rules. is_ascii (ur_pattern r)"
  by (simp add: example_rules_def is_ascii_def)

lemma example_rule_applies:
  "find (user_rule_applies (\<lambda>s. s) (Some ''mail.EXAMPLE.com'') (V4 0x01020304)) example_rules
     = Some \<lparr>ur_action = ''proxy'', ur_pattern = '' *.Example.com''\<rparr>"
  by code_simp

theorem user_rules_decide_first_witness:
  "resolve (\<lambda>s. s) (\<lambda>_. None) (from_merged (\<lambda>s. s) (\<lambda>s. s) (to_routing_config (\<lambda>s. s) example_rules ''direct'') empty_preset)
     (Some ''mail.EXAMPLE.com'') (V4 0x01020304) = Proxy"
  using user_rules_decide_first [OF example_rules_ascii, of "\<lambda>s. s" "\<lambda>_. None" "\<lambda>s. s" "''direct''" empty_preset
      "Some ''mail.EXAMPLE.com''" "V4 0x01020304"]
  by (simp add: example_rule_applies action_from_str_def)

end
