(* ===== verification/Sni.thy ===== *)
theory Sni
  imports Protocol
begin

unbundle bit_operations_syntax

text \<open>
  The TLS sniffer, \<^verbatim>\<open>xr-proto/src/sni.rs\<close>: how many bytes the first record needs and the host name
  of a ClientHello. The bytes come from a stranger, so every index, every slice and every
  subtraction of the source is checked here and leads to \<open>Panic\<close> where Rust panics. The theorems: no input
  panics; the name of a well-formed ClientHello is found wherever the extension stands; and
  bytes after the record that \<^verbatim>\<open>client_hello_record_len\<close> waits for never change the answer.
\<close>

section \<open>Checked access\<close>

datatype 'a run = Panic | Done 'a

definition index :: "bytes \<Rightarrow> nat \<Rightarrow> (byte \<Rightarrow> 'a run) \<Rightarrow> 'a run" where
  "index xs i k = (if i < length xs then k (xs ! i) else Panic)"

definition index_u16 :: "bytes \<Rightarrow> nat \<Rightarrow> (nat \<Rightarrow> 'a run) \<Rightarrow> 'a run" where
  "index_u16 xs i k = index xs i (\<lambda>a. index xs (i + 1) (\<lambda>b. k (unat (u16_from_be a b))))"

definition slice :: "bytes \<Rightarrow> nat \<Rightarrow> nat \<Rightarrow> (bytes \<Rightarrow> 'a run) \<Rightarrow> 'a run" where
  "slice xs a b k = (if a \<le> b \<and> b \<le> length xs then k (take (b - a) (drop a xs)) else Panic)"

definition minus_checked :: "nat \<Rightarrow> nat \<Rightarrow> (nat \<Rightarrow> 'a run) \<Rightarrow> 'a run" where
  "minus_checked a b k = (if b \<le> a then k (a - b) else Panic)"

section \<open>The sniffer\<close>

definition TLS_RECORD_HEADER_LEN :: nat where "TLS_RECORD_HEADER_LEN = 5"
definition MAX_CLIENT_HELLO :: nat where "MAX_CLIENT_HELLO = TLS_RECORD_HEADER_LEN + 16384"

definition client_hello_record_len :: "bytes \<Rightarrow> nat option run" where
  "client_hello_record_len buf =
     (if buf = [] \<or> hd buf \<noteq> 0x16 then Done None
      else if length buf < TLS_RECORD_HEADER_LEN then Done (Some TLS_RECORD_HEADER_LEN)
      else index_u16 buf 3 (\<lambda>record_len. Done (Some (min (TLS_RECORD_HEADER_LEN + record_len) MAX_CLIENT_HELLO))))"

text \<open>
  The entries of the server name list. \<^verbatim>\<open>name_type\<close> and \<^verbatim>\<open>name_len\<close> are read in the body of the
  loop; the loop advances by at least three bytes.
\<close>

function parse_sni_names :: "bytes \<Rightarrow> nat \<Rightarrow> string option run" where
  "parse_sni_names data pos =
     (if pos + 3 \<le> length data then
        index data pos (\<lambda>name_type. index_u16 data (pos + 1) (\<lambda>name_len.
          if name_type = 0 \<and> name_len > MAX_DOMAIN_LEN then Done None
          else if name_type = 0 \<and> pos + 3 + name_len \<le> length data
          then slice data (pos + 3) (pos + 3 + name_len) (\<lambda>name. Done (from_utf8 name))
          else parse_sni_names data (pos + 3 + name_len)))
      else Done None)"
  by pat_completeness auto
termination by (relation "measure (\<lambda>(data, pos). length data + 3 - pos)") auto

declare parse_sni_names.simps [simp del]

definition parse_sni_extension :: "bytes \<Rightarrow> string option run" where
  "parse_sni_extension data = (if length data < 5 then Done None else parse_sni_names data 2)"

function scan_extensions :: "bytes \<Rightarrow> nat \<Rightarrow> nat \<Rightarrow> string option run" where
  "scan_extensions ch pos ext_end =
     (if pos + 4 \<le> ext_end then
        index_u16 ch pos (\<lambda>ext_type. index_u16 ch (pos + 2) (\<lambda>ext_data_len.
          if ext_type = 0 then
            minus_checked (length ch) (pos + 4) (\<lambda>left.
              slice ch (pos + 4) (pos + 4 + min ext_data_len left) parse_sni_extension)
          else scan_extensions ch (pos + 4 + ext_data_len) ext_end))
      else Done None)"
  by pat_completeness auto
termination by (relation "measure (\<lambda>(ch, pos, ext_end). ext_end + 4 - pos)") auto

declare scan_extensions.simps [simp del]

definition parse_client_hello :: "bytes \<Rightarrow> string option run" where
  "parse_client_hello ch =
     (if length ch < 35 then Done None
      else index ch 34 (\<lambda>session_id_len.
        let pos = 34 + (1 + unat session_id_len) in
        if pos + 2 > length ch then Done None
        else index_u16 ch pos (\<lambda>cs_len.
          let pos = pos + (2 + cs_len) in
          if pos + 1 > length ch then Done None
          else index ch pos (\<lambda>cm_len.
            let pos = pos + (1 + unat cm_len) in
            if pos + 2 > length ch then Done None
            else index_u16 ch pos (\<lambda>ext_len.
              let pos = pos + 2 in
              minus_checked (length ch) pos (\<lambda>left. scan_extensions ch pos (pos + min ext_len left)))))))"

definition parse_handshake :: "bytes \<Rightarrow> string option run" where
  "parse_handshake hs =
     (if length hs < 4 then Done None
      else index hs 0 (\<lambda>typ. if typ \<noteq> 1 then Done None
        else index hs 1 (\<lambda>a. index hs 2 (\<lambda>b. index hs 3 (\<lambda>c.
          let hs_len = unat (u32_from_be 0 a b c) in
          minus_checked (length hs) 4 (\<lambda>left. slice hs 4 (4 + min hs_len left) parse_client_hello))))))"

definition extract_sni :: "bytes \<Rightarrow> string option run" where
  "extract_sni buf =
     (if length buf < 44 then Done None
      else index buf 0 (\<lambda>content_type. if content_type \<noteq> 0x16 then Done None
        else index_u16 buf 3 (\<lambda>record_len. minus_checked (length buf) 5 (\<lambda>left.
          slice buf 5 (5 + min record_len left) parse_handshake))))"

section \<open>No input panics\<close>

definition name_ok :: "string option run \<Rightarrow> bool" where
  "name_ok r \<longleftrightarrow> (case r of Panic \<Rightarrow> False | Done None \<Rightarrow> True | Done (Some s) \<Rightarrow> length s \<le> MAX_DOMAIN_LEN \<and> str_ok s)"

lemma name_ok_None [simp]: "name_ok (Done None)"
  by (simp add: name_ok_def)

lemma index_ok: "i < length xs \<Longrightarrow> index xs i k = k (xs ! i)"
  by (simp add: index_def)

lemma index_u16_ok: "i + 1 < length xs \<Longrightarrow> index_u16 xs i k = k (unat (u16_from_be (xs ! i) (xs ! (i + 1))))"
  by (simp add: index_u16_def index_def)

lemma slice_ok: "a \<le> b \<Longrightarrow> b \<le> length xs \<Longrightarrow> slice xs a b k = k (take (b - a) (drop a xs))"
  by (simp add: slice_def)

lemmas access_simps = index_ok index_u16_ok slice_ok minus_checked_def

lemma from_utf8_ok: "length bs \<le> MAX_DOMAIN_LEN \<Longrightarrow> name_ok (Done (from_utf8 bs))"
  by (cases "from_utf8 bs") (auto simp: name_ok_def dest: from_utf8_SomeD simp flip: length_as_bytes)

lemma parse_sni_names_ok: "name_ok (parse_sni_names data pos)"
proof (induction data pos rule: parse_sni_names.induct)
  case (1 data pos)
  show ?case
  proof (cases "pos + 3 \<le> length data")
    case True
    let ?n = "unat (u16_from_be (data ! (pos + 1)) (data ! (pos + 2)))"
    show ?thesis
    proof (cases "data ! pos = 0")
      case host: True
      then show ?thesis using True 1
        by (subst parse_sni_names.simps) (auto simp: access_simps intro: from_utf8_ok)
    next
      case False
      then show ?thesis using True 1 [of "data ! pos" ?n] by (subst parse_sni_names.simps) (simp add: access_simps)
    qed
  qed (subst parse_sni_names.simps, simp)
qed

lemma scan_extensions_ok: "ext_end \<le> length ch \<Longrightarrow> name_ok (scan_extensions ch pos ext_end)"
proof (induction ch pos ext_end rule: scan_extensions.induct)
  case (1 ch pos ext_end)
  then show ?case
    by (subst scan_extensions.simps) (auto simp: access_simps parse_sni_extension_def parse_sni_names_ok)
qed

lemma parse_client_hello_ok: "name_ok (parse_client_hello ch)"
  by (auto simp: parse_client_hello_def access_simps Let_def scan_extensions_ok)

lemma parse_handshake_ok: "name_ok (parse_handshake hs)"
proof (cases "length hs < 4")
  case False
  then have "hs \<noteq> []" "\<not> length hs < 4" by auto
  then show ?thesis by (simp add: parse_handshake_def access_simps Let_def parse_client_hello_ok)
qed (simp add: parse_handshake_def)

text \<open>
  C36. No bytes a client can send make the sniffer panic: it indexes and slices only what the buffer
  has, and a name it returns can be put on the wire by \<^verbatim>\<open>TargetAddr::encode\<close>.
\<close>

theorem sni_never_panics:
  "client_hello_record_len buf \<noteq> Panic \<and>
   (case extract_sni buf of
      Panic \<Rightarrow> False
    | Done None \<Rightarrow> True
    | Done (Some name) \<Rightarrow> \<exists>bs. target_addr_encode (TaDomain name port) = Inr bs)"
proof -
  have "name_ok (extract_sni buf)"
  proof (cases "length buf < 44")
    case False
    then have "buf \<noteq> []" "\<not> length buf < 44" by auto
    then show ?thesis by (simp add: extract_sni_def access_simps parse_handshake_ok)
  qed (simp add: extract_sni_def)
  then show ?thesis
    by (auto simp: client_hello_record_len_def access_simps TLS_RECORD_HEADER_LEN_def name_ok_def Let_def
        split: run.splits option.splits)
qed

section \<open>A well-formed ClientHello\<close>

text \<open>The reference builder, RFC 8446 section 4.1.2 and RFC 6066 section 3.\<close>

definition encode_extension :: "u16 \<times> bytes \<Rightarrow> bytes" where
  "encode_extension e = u16_to_be (fst e) @ u16_to_be (of_nat (length (snd e))) @ snd e"

definition server_name_extension :: "string \<Rightarrow> u16 \<times> bytes" where
  "server_name_extension name =
     (0, u16_to_be (of_nat (length name + 3)) @ [0] @ u16_to_be (of_nat (length name)) @ as_bytes name)"

definition hello_extensions :: "(u16 \<times> bytes) list \<Rightarrow> string \<Rightarrow> (u16 \<times> bytes) list \<Rightarrow> bytes" where
  "hello_extensions before name after = concat (map encode_extension (before @ [server_name_extension name] @ after))"

definition client_hello :: "bytes \<Rightarrow> bytes \<Rightarrow> bytes \<Rightarrow> bytes \<Rightarrow> bytes \<Rightarrow> bytes" where
  "client_hello version_random session_id cipher_suites compression exts =
     version_random @ [of_nat (length session_id)] @ session_id
     @ u16_to_be (of_nat (length cipher_suites)) @ cipher_suites
     @ [of_nat (length compression)] @ compression
     @ u16_to_be (of_nat (length exts)) @ exts"

definition handshake_record :: "bytes \<Rightarrow> bytes" where
  "handshake_record ch = [0x16, 3, 1] @ u16_to_be (of_nat (4 + length ch)) @ [1] @ tl (u32_to_be (of_nat (length ch))) @ ch"

lemma u16_read:
  "xs = pre @ u16_to_be w @ post \<Longrightarrow> i = length pre \<Longrightarrow> index_u16 xs i k = k (unat w)"
  by (simp add: index_u16_def index_def nth_append u16_to_be_def u16_from_to_be)

lemma take_length_append: "take (length xs) (xs @ ys) = xs"
  by simp

lemma unat_of_nat16: "n < 65536 \<Longrightarrow> unat (of_nat n :: u16) = n"
  by (simp add: unat_of_nat)

lemma parse_server_name:
  assumes "length name \<le> MAX_DOMAIN_LEN" and "str_ok name"
  shows "parse_sni_extension (snd (server_name_extension name)) = Done (Some name)"
proof -
  let ?d = "snd (server_name_extension name)"
  let ?l = "u16_to_be (of_nat (length name + 3))"
  have n: "length name < 65536" using assms(1) by (simp add: MAX_DOMAIN_LEN_def)
  have d: "?d = ?l @ [0] @ u16_to_be (of_nat (length name)) @ as_bytes name" by (simp add: server_name_extension_def)
  then have len: "length ?d = 5 + length name" by simp
  have t: "?d ! 2 = 0" by (simp add: d nth_append)
  have u: "index_u16 ?d 3 k = k (length name)" for k :: "nat \<Rightarrow> string option run"
    using u16_read [of ?d "?l @ [0]" "of_nat (length name)" "as_bytes name" 3 k] unat_of_nat16 [OF n] by (simp add: d)
  have s: "take (length name) (drop 5 ?d) = as_bytes name" by (simp add: d)
  have "parse_sni_names ?d 2 = Done (Some name)"
    using assms len t u s by (subst parse_sni_names.simps) (simp add: index_ok slice_ok from_utf8_as_bytes)
  then show ?thesis using len by (simp add: parse_sni_extension_def)
qed

lemma scan_finds_name:
  assumes "length name \<le> MAX_DOMAIN_LEN" and "str_ok name"
    and "list_all (\<lambda>e. fst e \<noteq> 0 \<and> length (snd e) < 65536) before"
    and "ch = pre @ concat (map encode_extension (before @ [server_name_extension name])) @ post"
    and "length pre + length (concat (map encode_extension (before @ [server_name_extension name]))) \<le> ext_end"
  shows "scan_extensions ch (length pre) ext_end = Done (Some name)"
  using assms(3-)
proof (induction before arbitrary: pre)
  case Nil
  let ?e = "server_name_extension name"
  have l: "length (snd ?e) = 5 + length name" "fst ?e = 0" by (simp_all add: server_name_extension_def)
  have n: "length (snd ?e) < 65536" using l assms(1) by (simp add: MAX_DOMAIN_LEN_def)
  have c: "ch = pre @ u16_to_be 0 @ u16_to_be (of_nat (length (snd ?e))) @ snd ?e @ post"
    using Nil.prems l by (simp add: encode_extension_def)
  have a: "index_u16 ch (length pre) k = k 0" for k :: "nat \<Rightarrow> string option run"
    by (subst u16_read [OF c]) simp_all
  have b: "index_u16 ch (length pre + 2) k = k (length (snd ?e))" for k :: "nat \<Rightarrow> string option run"
    using u16_read [of ch "pre @ u16_to_be 0" "of_nat (length (snd ?e))" "snd ?e @ post" "length pre + 2" k]
      c unat_of_nat16 [OF n] by simp
  have sl: "take (length (snd ?e)) (drop (length pre + 4) ch) = snd ?e" by (simp add: c)
  have lc: "length ch = length pre + 4 + length (snd ?e) + length post" by (simp add: c)
  show ?case
    using Nil.prems l lc a b sl parse_server_name [OF assms(1,2)]
    by (subst scan_extensions.simps) (simp add: encode_extension_def slice_ok minus_checked_def)
next
  case (Cons e es)
  let ?r = "concat (map encode_extension (es @ [server_name_extension name]))"
  have e: "fst e \<noteq> 0" "length (snd e) < 65536" using Cons.prems(1) by simp_all
  have c: "ch = pre @ u16_to_be (fst e) @ u16_to_be (of_nat (length (snd e))) @ snd e @ ?r @ post"
    using Cons.prems(2) by (simp add: encode_extension_def [of e])
  have a: "index_u16 ch (length pre) k = k (unat (fst e))" for k :: "nat \<Rightarrow> string option run"
    by (subst u16_read [OF c]) simp_all
  have b: "index_u16 ch (length pre + 2) k = k (length (snd e))" for k :: "nat \<Rightarrow> string option run"
    using u16_read [of ch "pre @ u16_to_be (fst e)" "of_nat (length (snd e))" "snd e @ ?r @ post" "length pre + 2" k]
      c unat_of_nat16 [OF e(2)] by simp
  have "scan_extensions ch (length (pre @ encode_extension e)) ext_end = Done (Some name)"
    using Cons.prems by (intro Cons.IH) simp_all
  moreover have l: "length (pre @ encode_extension e) = length pre + 4 + length (snd e)" by (simp add: encode_extension_def)
  ultimately have r: "scan_extensions ch (length pre + 4 + length (snd e)) ext_end = Done (Some name)" by (simp only:)
  have "length pre + 4 \<le> ext_end" using Cons.prems(3) l by simp
  moreover have "unat (fst e) \<noteq> 0" using e(1) by (simp add: unat_eq_0)
  ultimately show ?case by (subst scan_extensions.simps) (simp only: a b r if_True if_False)
qed

lemma parse_hello:
  assumes "length name \<le> MAX_DOMAIN_LEN" and "str_ok name"
    and "list_all (\<lambda>e. fst e \<noteq> 0 \<and> length (snd e) < 65536) before"
    and "length vr = 34" "length sid < 256" "length cs < 65536" "length cm < 256"
    and "exts = hello_extensions before name after" "length exts < 65536"
  shows "parse_client_hello (client_hello vr sid cs cm exts) = Done (Some name)"
proof -
  let ?ch = "client_hello vr sid cs cm exts"
  let ?p1 = "vr @ [of_nat (length sid)] @ sid"
  let ?p2 = "?p1 @ u16_to_be (of_nat (length cs)) @ cs"
  let ?p3 = "?p2 @ [of_nat (length cm)] @ cm"
  let ?p4 = "?p3 @ u16_to_be (of_nat (length exts))"
  have c1: "?ch = ?p1 @ u16_to_be (of_nat (length cs)) @ cs @ [of_nat (length cm)] @ cm @ u16_to_be (of_nat (length exts)) @ exts"
    and c3: "?ch = ?p3 @ u16_to_be (of_nat (length exts)) @ exts" and c4: "?ch = ?p4 @ exts"
    by (simp_all add: client_hello_def)
  have ns: "unat (?ch ! 34) = length sid" using assms(4,5) by (simp add: client_hello_def nth_append unat_of_nat)
  have nc: "unat (?ch ! (37 + length sid + length cs)) = length cm"
    using assms(4,7) by (simp add: client_hello_def nth_append unat_of_nat)
  have rc: "index_u16 ?ch (35 + length sid) k = k (length cs)" for k :: "nat \<Rightarrow> string option run"
    using u16_read [OF c1, of "35 + length sid" k] assms(4) unat_of_nat16 [OF assms(6)] by simp
  have re: "index_u16 ?ch (38 + length sid + length cs + length cm) k = k (length exts)" for k :: "nat \<Rightarrow> string option run"
    using u16_read [OF c3, of "38 + length sid + length cs + length cm" k] assms(4) unat_of_nat16 [OF assms(9)] by simp
  have len: "length ?ch = 40 + length sid + length cs + length cm + length exts" using assms(4) by (simp add: client_hello_def)
  have x: "exts = concat (map encode_extension (before @ [server_name_extension name])) @ concat (map encode_extension after)"
    by (simp add: assms(8) hello_extensions_def)
  have "scan_extensions ?ch (length ?p4) (length ?p4 + length exts) = Done (Some name)"
  proof (rule scan_finds_name [OF assms(1-3)])
    show "?ch = ?p4 @ concat (map encode_extension (before @ [server_name_extension name])) @ concat (map encode_extension after)"
      by (rule trans [OF c4 arg_cong [OF x, of "\<lambda>e. ?p4 @ e"]])
    show "length ?p4 + length (concat (map encode_extension (before @ [server_name_extension name]))) \<le> length ?p4 + length exts"
      using arg_cong [OF x, of length] by simp
  qed
  then have "scan_extensions ?ch (40 + length sid + length cs + length cm) (40 + length sid + length cs + length cm + length exts) = Done (Some name)"
    using assms(4) by (simp add: algebra_simps)
  then show ?thesis
    using ns nc rc re len by (simp add: parse_client_hello_def Let_def index_ok minus_checked_def algebra_simps)
qed

lemma parse_hs:
  assumes "length ch < 65532"
  shows "parse_handshake ([1] @ tl (u32_to_be (of_nat (length ch))) @ ch) = parse_client_hello ch"
proof -
  let ?n = "of_nat (length ch) :: u32"
  have n: "unat ?n = length ch" using assms by (simp add: unat_of_nat)
  have "unat (drop_bit 24 ?n) = length ch div 2 ^ 24" by (subst unat_drop_bit_eq) (simp only: n drop_bit_eq_div)
  then have "unat (drop_bit 24 ?n) = 0" using assms by simp
  then have "drop_bit 24 ?n = 0" by (simp add: unat_eq_0)
  then have "u32_from_be 0 (ucast (drop_bit 16 ?n)) (ucast (drop_bit 8 ?n)) (ucast ?n) = ?n"
    using u32_from_to_be [of ?n] by simp
  then show ?thesis
    using n by (simp add: parse_handshake_def u32_to_be_def index_def slice_def minus_checked_def)
qed

lemma extract_record:
  assumes "length hs < 65536" and "39 \<le> length hs"
  shows "extract_sni ([0x16, 3, 1] @ u16_to_be (of_nat (length hs)) @ hs @ rest) = parse_handshake hs"
proof -
  let ?buf = "[0x16, 3, 1] @ u16_to_be (of_nat (length hs)) @ hs @ rest"
  have len: "length ?buf = 5 + length hs + length rest" by simp
  have ix: "index_u16 ?buf 3 k = k (length hs)" for k :: "nat \<Rightarrow> string option run"
    using u16_read [of ?buf "[0x16, 3, 1]" "of_nat (length hs)" "hs @ rest" 3 k] unat_of_nat16 [OF assms(1)] by simp
  have d: "drop 5 ?buf = hs @ rest" by simp
  show ?thesis
    unfolding extract_sni_def minus_checked_def index_def [of _ 0] ix slice_def d len using assms(2) by simp
qed

text \<open>
  C37. The sniffer finds the name: from the record of a well-formed ClientHello (whatever its session id, cipher
  suites, compression methods and other extensions, and whatever bytes follow the record) it
  extracts exactly the host name of the server name extension. (The extension lists one name, of at most 255 bytes, in valid UTF-8.)
\<close>

theorem sni_finds_name:
  assumes "length name \<le> MAX_DOMAIN_LEN" and "str_ok name"
    and "list_all (\<lambda>e. fst e \<noteq> 0 \<and> length (snd e) < 65536) before"
    and "length vr = 34" "length sid < 256" "length cs < 65536" "length cm < 256"
    and "length (hello_extensions before name after) < 65536"
    and "length (client_hello vr sid cs cm (hello_extensions before name after)) < 65532"
  shows "extract_sni (handshake_record (client_hello vr sid cs cm (hello_extensions before name after)) @ rest) = Done (Some name)"
proof -
  let ?ch = "client_hello vr sid cs cm (hello_extensions before name after)"
  let ?hs = "[1] @ tl (u32_to_be (of_nat (length ?ch))) @ ?ch"
  have t: "length (tl (u32_to_be w)) = 3" for w by (simp add: u32_to_be_def)
  have big: "40 \<le> length ?ch" using assms(4) by (simp add: client_hello_def)
  have hl: "length ?hs = 4 + length ?ch" by (simp add: t)
  have "extract_sni ([0x16, 3, 1] @ u16_to_be (of_nat (length ?hs)) @ ?hs @ rest) = parse_handshake ?hs"
    by (rule extract_record) (use hl big assms(9) in simp_all)
  moreover have "handshake_record ?ch @ rest = [0x16, 3, 1] @ u16_to_be (of_nat (length ?hs)) @ ?hs @ rest"
    by (simp only: hl handshake_record_def append_assoc)
  ultimately show ?thesis using parse_hs [OF assms(9)] parse_hello [OF assms(1-7) refl assms(8)] by simp
qed

subsection \<open>A concrete ClientHello\<close>

definition example_hello :: bytes where
  "example_hello = client_hello (replicate 34 0) [] [0x13, 1] [0] (hello_extensions [(10, [0, 2, 0, 23])] ''a.io'' [(43, [2, 3, 4])])"

theorem sni_finds_name_witness: "extract_sni (handshake_record example_hello @ [0x17]) = Done (Some ''a.io'')"
  unfolding example_hello_def
  by (rule sni_finds_name) (simp_all add: MAX_DOMAIN_LEN_def str_ok_def as_bytes_def byte_of_char_def
      hello_extensions_def encode_extension_def server_name_extension_def client_hello_def)

section \<open>One record is enough\<close>

lemma short_handshake: "length hs < 39 \<Longrightarrow> parse_handshake hs = Done None"
proof (cases "length hs < 4")
  case False
  assume "length hs < 39"
  moreover have "hs \<noteq> []" using False by auto
  ultimately show ?thesis using False
    by (simp add: parse_handshake_def access_simps Let_def parse_client_hello_def)
qed (simp add: parse_handshake_def)

lemma extract_by_record:
  assumes "5 + unat (u16_from_be (b ! 3) (b ! 4)) \<le> length b"
  shows "extract_sni b =
    (if b ! 0 \<noteq> 0x16 then Done None else parse_handshake (take (unat (u16_from_be (b ! 3) (b ! 4))) (drop 5 b)))"
proof (cases "length b < 44")
  case True
  then have "parse_handshake (take (unat (u16_from_be (b ! 3) (b ! 4))) (drop 5 b)) = Done None"
    using assms by (intro short_handshake) simp
  then show ?thesis using True by (simp add: extract_sni_def)
next
  case False
  moreover have "b \<noteq> []" using False by auto
  ultimately show ?thesis using assms by (simp add: extract_sni_def access_simps)
qed

text \<open>
  Waiting for one record is enough: once the buffer holds the number of bytes that
  \<^verbatim>\<open>client_hello_record_len\<close> asks for (below its cap), the answer depends on those bytes alone, however
  many more have arrived.
\<close>

theorem sni_one_record_enough:
  assumes "client_hello_record_len buf = Done (Some n)" and "TLS_RECORD_HEADER_LEN < n" and "n < MAX_CLIENT_HELLO" and "n \<le> length buf"
  shows "extract_sni (take n buf @ rest) = extract_sni buf"
proof -
  let ?b = "take n buf @ rest"
  obtain m where m: "unat (u16_from_be (buf ! 3) (buf ! 4)) = m" "n = 5 + m" "0 < m"
    using assms by (auto simp: client_hello_record_len_def access_simps TLS_RECORD_HEADER_LEN_def MAX_CLIENT_HELLO_def split: if_splits)
  then have same: "?b ! 0 = buf ! 0" "?b ! 3 = buf ! 3" "?b ! 4 = buf ! 4" using assms(4) by (simp_all add: nth_append)
  have t: "take m (drop 5 ?b) = take m (drop 5 buf)" using assms(4) m by (simp add: drop_take)
  have l: "5 + m \<le> length ?b" "5 + m \<le> length buf" using assms(4) m by simp_all
  show ?thesis
    using extract_by_record [of ?b] extract_by_record [of buf] l unfolding same m(1) t by simp
qed

theorem sni_one_record_enough_witness:
  "extract_sni (take 80 (handshake_record example_hello @ [0x17]) @ [1, 2, 3]) = extract_sni (handshake_record example_hello @ [0x17])"
proof -
  have len: "length (handshake_record example_hello) = 80"
    by (simp add: example_hello_def handshake_record_def u32_to_be_def hello_extensions_def encode_extension_def
        server_name_extension_def client_hello_def)
  have "client_hello_record_len (handshake_record example_hello @ [0x17]) = Done (Some 80)" by code_simp
  then show ?thesis
    by (rule sni_one_record_enough) (simp_all add: len TLS_RECORD_HEADER_LEN_def MAX_CLIENT_HELLO_def)
qed

end
