(* ===== verification/Share.thy ===== *)
theory Share
  imports Rust_Str Protocol
begin

text \<open>
  Shares and the mandates that open them, \<^verbatim>\<open>xr-proto/src/share.rs\<close>: listings, grants, and the six kinds
  of signed bytes with their signing and verification. The crates \<^verbatim>\<open>ed25519-dalek\<close> and \<^verbatim>\<open>base64\<close> are
  the fields of \<open>crypto\<close>; \<open>crypto_ok\<close> states what they document, \<open>unforgeable\<close> the security of the signature.
  The theorems: the signed forms of different mandates never coincide, so whatever is
  accepted was issued with exactly these claims; and what is issued is accepted until it expires.
\<close>

section \<open>Listings and mandates\<close>

record file_meta =
  fm_url :: string
  fm_source :: string
  fm_source_url :: string
  fm_published :: string
  fm_title :: string

definition file_meta_is_empty :: "file_meta \<Rightarrow> bool" where
  "file_meta_is_empty m \<longleftrightarrow>
     fm_url m = [] \<and> fm_source m = [] \<and> fm_source_url m = [] \<and> fm_published m = [] \<and> fm_title m = []"

record share_entry =
  se_path :: string
  se_size :: u64
  se_mtime :: int
  se_sha256 :: string
  se_meta :: "file_meta option"

record share_token =
  st_share_id :: string
  st_scope :: string
  st_exp :: u64
  st_signature :: string

record agent_credential =
  ac_agent_pubkey :: string
  ac_exp :: u64
  ac_signature :: string

record relay_token =
  rl_share_id :: string
  rl_agent_pubkey :: string
  rl_exp :: u64
  rl_signature :: string

record expose_token =
  ex_publication :: string
  ex_agent_pubkey :: string
  ex_exp :: u64
  ex_signature :: string

record relay_register =
  rg_credential :: agent_credential
  rg_nonce_sig :: string

record relay_obf =
  ro_key :: string
  ro_salt :: u64
  ro_modifier :: string
  ro_padding_min :: u8
  ro_padding_max :: u8

record relay_descriptor =
  rd_addr :: string
  rd_port :: u16
  rd_obf :: relay_obf

record relay_grant =
  rt_addr :: string
  rt_port :: u16
  rt_obf :: relay_obf
  rt_relay_token :: relay_token

definition relay_grant_descriptor :: "relay_grant \<Rightarrow> relay_descriptor" where
  "relay_grant_descriptor g = \<lparr>rd_addr = rt_addr g, rd_port = rt_port g, rd_obf = rt_obf g\<rparr>"

definition dial :: "string \<Rightarrow> u16 \<Rightarrow> string" where
  "dial addr port = addr @ '':'' @ dec_string (unat port)"

record share_grant =
  sg_share_id :: string
  sg_name :: string
  sg_addr :: string
  sg_addrs :: "string list"
  sg_port :: u16
  sg_agent_pubkey :: string
  sg_token :: string
  sg_exp :: u64
  sg_relay :: "relay_grant option"

datatype mandate_error = MalformedKey | MalformedSignature | BadSignature | Expired | WrongShare | WrongAgent
  | WrongPublication | MissingScope | BadCredential

definition SCOPE_READ :: string where "SCOPE_READ = ''share:read''"
definition SCOPE_WRITE :: string where "SCOPE_WRITE = ''share:write''"
definition SCOPE_IMPORT :: string where "SCOPE_IMPORT = ''share:import''"

definition scope_contains :: "string \<Rightarrow> string \<Rightarrow> bool" where
  "scope_contains scope name \<longleftrightarrow> list_ex (\<lambda>s. s = name) (split_on CHR '' '' scope)"

text \<open>The direct addresses of a grant: trimmed, without blanks and repetitions, the public one last.\<close>

definition add_candidate :: "string \<Rightarrow> string list \<Rightarrow> string list" where
  "add_candidate a0 out = (let a = trim a0 in if a \<noteq> [] \<and> a \<notin> set out then out @ [a] else out)"

definition candidate_addrs :: "share_grant \<Rightarrow> string list" where
  "candidate_addrs g = fold add_candidate (sg_addrs g @ [sg_addr g]) []"

definition web_share_id :: "string \<Rightarrow> string" where
  "web_share_id publication = ''web:'' @ publication"

definition valid_publication_name :: "string \<Rightarrow> bool" where
  "valid_publication_name name \<longleftrightarrow>
     1 \<le> length name \<and> length name \<le> 63
     \<and> list_all (\<lambda>c. 97 \<le> code_of c \<and> code_of c \<le> 122 \<or> is_ascii_digit c \<or> c = CHR ''-'') name
     \<and> \<not> starts_with name ''-'' \<and> \<not> ends_with name ''-''"

section \<open>Signed bytes\<close>

abbreviation NL :: char where "NL \<equiv> CHR 0x0A"

definition nl_fields :: "string list \<Rightarrow> bytes" where
  "nl_fields fs = as_bytes (join [NL] fs)"

abbreviation exp_string :: "u64 \<Rightarrow> string" where
  "exp_string e \<equiv> dec_string (unat e)"

definition token_signing_bytes :: "string \<Rightarrow> string \<Rightarrow> u64 \<Rightarrow> bytes" where
  "token_signing_bytes share_id scope e = nl_fields [''xr-share-token'', ''v2'', share_id, scope, exp_string e]"

definition agent_credential_signing_bytes :: "string \<Rightarrow> u64 \<Rightarrow> bytes" where
  "agent_credential_signing_bytes agent_pubkey e = nl_fields [''xr-share-agent-cred'', ''v1'', agent_pubkey, exp_string e]"

definition relay_token_signing_bytes :: "string \<Rightarrow> string \<Rightarrow> u64 \<Rightarrow> bytes" where
  "relay_token_signing_bytes share_id agent_pubkey e = nl_fields [''xr-relay-token'', ''v1'', share_id, agent_pubkey, exp_string e]"

definition expose_token_signing_bytes :: "string \<Rightarrow> string \<Rightarrow> u64 \<Rightarrow> bytes" where
  "expose_token_signing_bytes publication agent_pubkey e =
     nl_fields [''xr-expose-token'', ''v1'', publication, agent_pubkey, exp_string e]"

definition relay_register_signing_bytes :: "bytes \<Rightarrow> bytes" where
  "relay_register_signing_bytes nonce = nl_fields [''xr-relay-register'', ''v1'', []] @ nonce"

definition manifest_signing_bytes :: "string \<Rightarrow> u64 \<Rightarrow> bytes \<Rightarrow> bytes" where
  "manifest_signing_bytes share_id signed_at manifest_json =
     nl_fields [''xr-share-manifest'', ''v1'', share_id, exp_string signed_at, []] @ manifest_json"

section \<open>Signing and verifying\<close>

record crypto =
  sign_msg :: "bytes \<Rightarrow> bytes \<Rightarrow> bytes"
  verify_msg :: "bytes \<Rightarrow> bytes \<Rightarrow> bytes \<Rightarrow> bool"
  key_valid :: "bytes \<Rightarrow> bool"
  b64_encode :: "bytes \<Rightarrow> string"
  b64_decode :: "string \<Rightarrow> bytes option"

text \<open>The codec of a relay mux: \<^verbatim>\<open>RelayObf::codec\<close>. The salt is cut to 32 bits.\<close>

definition relay_obf_codec :: "crypto \<Rightarrow> usize_width \<Rightarrow> relay_obf \<Rightarrow> string + codec" where
  "relay_obf_codec cr width ro =
     (case b64_decode cr (trim (ro_key ro)) of
        None \<Rightarrow> Inl ''relay obf key not base64''
      | Some key \<Rightarrow>
          if key = [] then Inl ''relay obf key is empty''
          else (case modifier_from_str (ro_modifier ro) of
              None \<Rightarrow> Inl (''relay obf modifier unknown: '' @ ro_modifier ro)
            | Some strategy \<Rightarrow>
                (case obfuscator_new key (ucast (ro_salt ro)) strategy width of
                   None \<Rightarrow> Inl []
                 | Some ob \<Rightarrow> Inr \<lparr>obfuscator = ob, padding_min = ro_padding_min ro, padding_max = ro_padding_max ro\<rparr>)))"

text \<open>The steps every verifier shares: decode the base64 of 64 bytes, then check the signature.\<close>

definition check_signature :: "crypto \<Rightarrow> bytes \<Rightarrow> bytes \<Rightarrow> string \<Rightarrow> mandate_error + unit" where
  "check_signature cr key message sig =
     (case b64_decode cr (trim sig) of
        None \<Rightarrow> Inl MalformedSignature
      | Some bs \<Rightarrow>
          if length bs \<noteq> 64 then Inl MalformedSignature
          else if verify_msg cr key message bs then Inr () else Inl BadSignature)"

definition sign_share_token :: "crypto \<Rightarrow> bytes \<Rightarrow> string \<Rightarrow> string \<Rightarrow> u64 \<Rightarrow> share_token" where
  "sign_share_token cr key share_id scope e =
     \<lparr>st_share_id = share_id, st_scope = scope, st_exp = e,
      st_signature = b64_encode cr (sign_msg cr key (token_signing_bytes share_id scope e))\<rparr>"

definition verify_share_token :: "crypto \<Rightarrow> share_token \<Rightarrow> bytes \<Rightarrow> string \<Rightarrow> string \<Rightarrow> u64 \<Rightarrow> mandate_error + unit" where
  "verify_share_token cr token hub_key expected_share_id required_scope now_unix =
     (if st_share_id token \<noteq> expected_share_id then Inl WrongShare
      else if st_exp token \<le> now_unix then Inl Expired
      else case check_signature cr hub_key
             (token_signing_bytes (st_share_id token) (st_scope token) (st_exp token)) (st_signature token) of
          Inl e \<Rightarrow> Inl e
        | Inr _ \<Rightarrow> if \<not> scope_contains (st_scope token) required_scope then Inl MissingScope else Inr ())"

definition sign_agent_credential :: "crypto \<Rightarrow> bytes \<Rightarrow> string \<Rightarrow> u64 \<Rightarrow> agent_credential" where
  "sign_agent_credential cr key agent_pubkey e =
     \<lparr>ac_agent_pubkey = agent_pubkey, ac_exp = e,
      ac_signature = b64_encode cr (sign_msg cr key (agent_credential_signing_bytes agent_pubkey e))\<rparr>"

definition verify_agent_credential :: "crypto \<Rightarrow> agent_credential \<Rightarrow> bytes \<Rightarrow> u64 \<Rightarrow> mandate_error + unit" where
  "verify_agent_credential cr cred hub_key now_unix =
     (if ac_exp cred \<le> now_unix then Inl Expired
      else check_signature cr hub_key (agent_credential_signing_bytes (ac_agent_pubkey cred) (ac_exp cred)) (ac_signature cred))"

definition sign_relay_token :: "crypto \<Rightarrow> bytes \<Rightarrow> string \<Rightarrow> string \<Rightarrow> u64 \<Rightarrow> relay_token" where
  "sign_relay_token cr key share_id agent_pubkey e =
     \<lparr>rl_share_id = share_id, rl_agent_pubkey = agent_pubkey, rl_exp = e,
      rl_signature = b64_encode cr (sign_msg cr key (relay_token_signing_bytes share_id agent_pubkey e))\<rparr>"

definition verify_relay_token :: "crypto \<Rightarrow> relay_token \<Rightarrow> bytes \<Rightarrow> string \<Rightarrow> string \<Rightarrow> u64 \<Rightarrow> mandate_error + unit" where
  "verify_relay_token cr token hub_key expected_share_id expected_agent_pubkey now_unix =
     (if rl_share_id token \<noteq> expected_share_id then Inl WrongShare
      else if rl_agent_pubkey token \<noteq> expected_agent_pubkey then Inl WrongAgent
      else if rl_exp token \<le> now_unix then Inl Expired
      else check_signature cr hub_key
        (relay_token_signing_bytes (rl_share_id token) (rl_agent_pubkey token) (rl_exp token)) (rl_signature token))"

definition sign_expose_token :: "crypto \<Rightarrow> bytes \<Rightarrow> string \<Rightarrow> string \<Rightarrow> u64 \<Rightarrow> expose_token" where
  "sign_expose_token cr key publication agent_pubkey e =
     \<lparr>ex_publication = publication, ex_agent_pubkey = agent_pubkey, ex_exp = e,
      ex_signature = b64_encode cr (sign_msg cr key (expose_token_signing_bytes publication agent_pubkey e))\<rparr>"

definition verify_expose_token :: "crypto \<Rightarrow> expose_token \<Rightarrow> bytes \<Rightarrow> string \<Rightarrow> string \<Rightarrow> u64 \<Rightarrow> mandate_error + unit" where
  "verify_expose_token cr token hub_key expected_publication expected_agent_pubkey now_unix =
     (if ex_publication token \<noteq> expected_publication then Inl WrongPublication
      else if ex_agent_pubkey token \<noteq> expected_agent_pubkey then Inl WrongAgent
      else if ex_exp token \<le> now_unix then Inl Expired
      else check_signature cr hub_key
        (expose_token_signing_bytes (ex_publication token) (ex_agent_pubkey token) (ex_exp token)) (ex_signature token))"

definition parse_agent_pubkey :: "crypto \<Rightarrow> string \<Rightarrow> mandate_error + bytes" where
  "parse_agent_pubkey cr b64 =
     (case b64_decode cr (trim b64) of
        None \<Rightarrow> Inl MalformedKey
      | Some bs \<Rightarrow> if length bs \<noteq> 32 then Inl MalformedKey else if key_valid cr bs then Inr bs else Inl MalformedKey)"

definition sign_relay_register :: "crypto \<Rightarrow> bytes \<Rightarrow> agent_credential \<Rightarrow> bytes \<Rightarrow> relay_register" where
  "sign_relay_register cr identity credential nonce =
     \<lparr>rg_credential = credential,
      rg_nonce_sig = b64_encode cr (sign_msg cr identity (relay_register_signing_bytes nonce))\<rparr>"

definition verify_relay_register :: "crypto \<Rightarrow> relay_register \<Rightarrow> bytes \<Rightarrow> bytes \<Rightarrow> u64 \<Rightarrow> mandate_error + string" where
  "verify_relay_register cr reg hub_key nonce now_unix =
     (case verify_agent_credential cr (rg_credential reg) hub_key now_unix of
        Inl _ \<Rightarrow> Inl BadCredential
      | Inr _ \<Rightarrow>
          (case parse_agent_pubkey cr (ac_agent_pubkey (rg_credential reg)) of
             Inl _ \<Rightarrow> Inl MalformedKey
           | Inr agent_key \<Rightarrow>
               (case check_signature cr agent_key (relay_register_signing_bytes nonce) (rg_nonce_sig reg) of
                  Inl e \<Rightarrow> Inl e
                | Inr _ \<Rightarrow> Inr (ac_agent_pubkey (rg_credential reg)))))"

definition sign_share_manifest :: "crypto \<Rightarrow> bytes \<Rightarrow> string \<Rightarrow> u64 \<Rightarrow> bytes \<Rightarrow> string" where
  "sign_share_manifest cr key share_id signed_at manifest_json =
     b64_encode cr (sign_msg cr key (manifest_signing_bytes share_id signed_at manifest_json))"

definition verify_share_manifest :: "crypto \<Rightarrow> string \<Rightarrow> bytes \<Rightarrow> string \<Rightarrow> u64 \<Rightarrow> bytes \<Rightarrow> mandate_error + unit" where
  "verify_share_manifest cr sig_b64 agent_key share_id signed_at manifest_json =
     check_signature cr agent_key (manifest_signing_bytes share_id signed_at manifest_json) sig_b64"

section \<open>The signed forms never coincide\<close>

lemma as_bytes_inj: "as_bytes s = as_bytes t \<longleftrightarrow> s = t"
  using map_char_of_byte_as_bytes by metis

definition plain :: "string \<Rightarrow> bool" where
  "plain s \<longleftrightarrow> NL \<notin> set s"

lemma split_plain [simp]: "plain s \<Longrightarrow> split_on NL s = [s]"
  by (simp add: plain_def split_on_no_sep)

lemma fields_eqD:
  assumes "nl_fields fs = nl_fields gs" and "fs \<noteq> []" "gs \<noteq> []"
  shows "concat (map (split_on NL) fs) = concat (map (split_on NL) gs)"
proof -
  have "join [NL] fs = join [NL] gs" using assms(1) by (simp add: nl_fields_def as_bytes_inj)
  then show ?thesis using split_on_join [OF assms(2), of NL] split_on_join [OF assms(3), of NL] by metis
qed

lemma digit_char_code: "d < 10 \<Longrightarrow> code_of (digit_char d) = 48 + d"
  by (simp add: digit_char_def of_char_of)

lemma digit_char_not_NL: "d < 10 \<Longrightarrow> digit_char d \<noteq> NL"
proof
  assume "d < 10" "digit_char d = NL"
  then have "48 + d = code_of NL" using digit_char_code by metis
  then show False by simp
qed

lemma dec_string_plain [simp]: "plain (dec_string n)"
proof (induction n rule: dec_string.induct)
  case (1 n)
  have "NL \<noteq> digit_char (n mod 10)" using digit_char_not_NL [of "n mod 10"] by simp
  moreover have "n < 10 \<Longrightarrow> NL \<noteq> digit_char n" using digit_char_not_NL [of n] by simp
  ultimately show ?case using 1 by (subst dec_string.simps) (simp add: plain_def)
qed

text \<open>Reading the digits back gives the number.\<close>

definition dec_value :: "string \<Rightarrow> nat" where
  "dec_value s = foldl (\<lambda>acc c. acc * 10 + (code_of c - 48)) 0 s"

lemma dec_value_dec_string [simp]: "dec_value (dec_string n) = n"
proof (induction n rule: dec_string.induct)
  case (1 n)
  show ?case
  proof (cases "n < 10")
    case True
    then show ?thesis by (subst dec_string.simps) (simp add: dec_value_def digit_char_code)
  next
    case False
    then have "dec_value (dec_string n) = dec_value (dec_string (n div 10)) * 10 + n mod 10"
      by (subst dec_string.simps) (simp add: dec_value_def digit_char_code)
    then show ?thesis using 1 False by simp
  qed
qed

lemma dec_string_inj [simp]: "dec_string n = dec_string m \<longleftrightarrow> n = m"
  by (metis dec_value_dec_string)

lemma split_on_singleD: "split_on c s = [w] \<Longrightarrow> w = s \<and> c \<notin> set s"
  by (induction c s arbitrary: w rule: split_on.induct) (auto split: list.splits if_splits)

lemma append_split_pair:
  "split_on c s @ split_on c t @ us = a # b # us \<longleftrightarrow> split_on c s = [a] \<and> split_on c t = [b]"
  by (cases "split_on c s"; cases "split_on c t") (auto simp: Cons_eq_append_conv append_eq_Cons_conv)

text \<open>
  Everything the hub signs with its key: the four mandates, and beside them the registration tokens (\<^verbatim>\<open>reg_signing_bytes\<close> of
  \<^verbatim>\<open>xr-hub/src/api/register.rs\<close>) and the presets, whose signed form is a JSON object.
\<close>

definition reg_signing_bytes :: "u64 \<Rightarrow> bytes" where
  "reg_signing_bytes e = nl_fields [''xr-share-reg'', ''v1'', exp_string e]"

datatype mandate = MShare string string u64 | MAgent string u64 | MRelay string string u64 | MExpose string string u64
  | MReg u64 | MPreset string

fun mandate_bytes :: "mandate \<Rightarrow> bytes" where
  "mandate_bytes (MShare share_id scope e) = token_signing_bytes share_id scope e"
| "mandate_bytes (MAgent agent_pubkey e) = agent_credential_signing_bytes agent_pubkey e"
| "mandate_bytes (MRelay share_id agent_pubkey e) = relay_token_signing_bytes share_id agent_pubkey e"
| "mandate_bytes (MExpose publication agent_pubkey e) = expose_token_signing_bytes publication agent_pubkey e"
| "mandate_bytes (MReg e) = reg_signing_bytes e"
| "mandate_bytes (MPreset json) = as_bytes json"

fun mandate_plain :: "mandate \<Rightarrow> bool" where
  "mandate_plain (MShare a b e) = (plain a \<and> plain b)"
| "mandate_plain (MAgent a e) = plain a"
| "mandate_plain (MRelay a b e) = (plain a \<and> plain b)"
| "mandate_plain (MExpose a b e) = (plain a \<and> plain b)"
| "mandate_plain (MReg e) = True"
| "mandate_plain (MPreset json) = starts_with json ''{''"

lemmas signing_defs = token_signing_bytes_def agent_credential_signing_bytes_def relay_token_signing_bytes_def
  expose_token_signing_bytes_def reg_signing_bytes_def

lemma plain_literals [simp]: "plain ''xr-share-token''" "plain ''xr-share-agent-cred''" "plain ''xr-relay-token''"
    "plain ''xr-expose-token''" "plain ''xr-share-reg''" "plain ''v1''" "plain ''v2''" "plain []"
  by (simp_all add: plain_def)

text \<open>The fields of a mandate's signed form, and that two forms are equal only for equal mandates.\<close>

definition mandate_lines :: "mandate \<Rightarrow> string list" where
  "mandate_lines x = (case x of
      MShare a b e \<Rightarrow> [''xr-share-token'', ''v2''] @ split_on NL a @ split_on NL b @ [exp_string e]
    | MAgent a e \<Rightarrow> [''xr-share-agent-cred'', ''v1''] @ split_on NL a @ [exp_string e]
    | MRelay a b e \<Rightarrow> [''xr-relay-token'', ''v1''] @ split_on NL a @ split_on NL b @ [exp_string e]
    | MExpose a b e \<Rightarrow> [''xr-expose-token'', ''v1''] @ split_on NL a @ split_on NL b @ [exp_string e]
    | MReg e \<Rightarrow> [''xr-share-reg'', ''v1'', exp_string e]
    | MPreset json \<Rightarrow> split_on NL json)"

definition mandate_fields :: "mandate \<Rightarrow> string list" where
  "mandate_fields x = (case x of
      MShare a b e \<Rightarrow> [''xr-share-token'', ''v2'', a, b, exp_string e]
    | MAgent a e \<Rightarrow> [''xr-share-agent-cred'', ''v1'', a, exp_string e]
    | MRelay a b e \<Rightarrow> [''xr-relay-token'', ''v1'', a, b, exp_string e]
    | MExpose a b e \<Rightarrow> [''xr-expose-token'', ''v1'', a, b, exp_string e]
    | MReg e \<Rightarrow> [''xr-share-reg'', ''v1'', exp_string e]
    | MPreset json \<Rightarrow> [json])"

lemma mandate_bytes_fields: "mandate_bytes x = nl_fields (mandate_fields x)"
  by (cases x) (simp_all add: signing_defs mandate_fields_def nl_fields_def)

lemma mandate_lines_fields: "mandate_lines x = concat (map (split_on NL) (mandate_fields x))"
  by (cases x) (simp_all add: mandate_lines_def mandate_fields_def)

lemma mandate_bytes_lines: "mandate_bytes x = mandate_bytes y \<Longrightarrow> mandate_lines x = mandate_lines y"
  unfolding mandate_bytes_fields mandate_lines_fields by (rule fields_eqD) (simp_all add: mandate_fields_def split: mandate.splits)

lemma split_on_brace:
  assumes "starts_with s ''{''"
  shows "\<exists>h t. split_on NL s = (CHR ''{'' # h) # t"
proof -
  obtain r where "s = CHR ''{'' # r" using assms by (auto simp: prefix_def)
  then show ?thesis by (cases "split_on NL r") auto
qed

lemma mandate_bytes_inj:
  assumes "mandate_bytes x = mandate_bytes y" and "mandate_plain y" and "\<forall>json. x \<noteq> MPreset json"
  shows "x = y"
proof (cases "\<exists>json. y = MPreset json")
  case True
  then obtain h t where "mandate_lines y = (CHR ''{'' # h) # t" using assms(2) split_on_brace by (fastforce simp: mandate_lines_def)
  then show ?thesis using mandate_bytes_lines [OF assms(1)] assms(3) by (cases x) (auto simp: mandate_lines_def)
next
  case False
  note l = mandate_bytes_lines [OF assms(1)]
  show ?thesis using assms(2,3) False l
    by (cases x; cases y)
      (auto simp: mandate_lines_def append_split_pair append_eq_Cons_conv Cons_eq_append_conv
        word_unat_eq_iff dest!: split_on_singleD)
qed

section \<open>What is accepted was issued\<close>

text \<open>
  \<open>unforgeable\<close>: every message with a valid signature under the hub's key is the signed form of something the
  hub issued. \<open>crypto_ok\<close>: signatures have 64 bytes and verify under the public key, and base64 is
  decoded to what was encoded.
\<close>

definition unforgeable :: "crypto \<Rightarrow> bytes \<Rightarrow> mandate set \<Rightarrow> bool" where
  "unforgeable cr key issued \<longleftrightarrow> (\<forall>message sig. verify_msg cr key message sig \<longrightarrow> (\<exists>x \<in> issued. message = mandate_bytes x))"

definition crypto_ok :: "crypto \<Rightarrow> (bytes \<Rightarrow> bytes) \<Rightarrow> bool" where
  "crypto_ok cr public \<longleftrightarrow>
     (\<forall>bs. b64_decode cr (trim (b64_encode cr bs)) = Some bs) \<and>
     (\<forall>key message. length (sign_msg cr key message) = 64 \<and> verify_msg cr (public key) message (sign_msg cr key message))"

lemma check_signature_verifies: "check_signature cr key message sig = Inr () \<Longrightarrow> \<exists>bs. verify_msg cr key message bs"
  by (auto simp: check_signature_def split: option.splits if_splits)

lemma check_signature_signed:
  "crypto_ok cr public \<Longrightarrow> check_signature cr (public key) message (b64_encode cr (sign_msg cr key message)) = Inr ()"
  by (simp add: check_signature_def crypto_ok_def)

lemma accepted_was_issued:
  assumes "unforgeable cr key issued" and "\<forall>x \<in> issued. mandate_plain x"
    and "check_signature cr key (mandate_bytes x) sig = Inr ()" and "\<forall>json. x \<noteq> MPreset json"
  shows "x \<in> issued"
proof -
  obtain y where "y \<in> issued" "mandate_bytes x = mandate_bytes y"
    using assms(1) check_signature_verifies [OF assms(3)] by (auto simp: unforgeable_def)
  then show ?thesis using mandate_bytes_inj assms(2,4) by metis
qed

lemma relay_token_was_issued:
  assumes "unforgeable cr hub issued" and "\<forall>x \<in> issued. mandate_plain x"
    and v: "verify_relay_token cr rtok hub sid apk now = Inr ()"
  shows "MRelay sid apk (rl_exp rtok) \<in> issued \<and> now < rl_exp rtok"
proof
  from v have "check_signature cr hub (mandate_bytes (MRelay sid apk (rl_exp rtok))) (rl_signature rtok) = Inr ()"
    by (auto simp: verify_relay_token_def split: if_splits)
  then show "MRelay sid apk (rl_exp rtok) \<in> issued" by (rule accepted_was_issued [OF assms(1,2)]) simp
  show "now < rl_exp rtok" using v by (auto simp: verify_relay_token_def not_le split: if_splits)
qed

lemma credential_was_issued:
  assumes "unforgeable cr hub issued" and "\<forall>x \<in> issued. mandate_plain x"
    and v: "verify_agent_credential cr cred hub now = Inr ()"
  shows "MAgent (ac_agent_pubkey cred) (ac_exp cred) \<in> issued \<and> now < ac_exp cred"
proof
  from v have "check_signature cr hub (mandate_bytes (MAgent (ac_agent_pubkey cred) (ac_exp cred))) (ac_signature cred) = Inr ()"
    by (auto simp: verify_agent_credential_def split: if_splits)
  then show "MAgent (ac_agent_pubkey cred) (ac_exp cred) \<in> issued" by (rule accepted_was_issued [OF assms(1,2)]) simp
  show "now < ac_exp cred" using v by (auto simp: verify_agent_credential_def not_le split: if_splits)
qed

text \<open>
  C8. Nothing is opened that the hub did not open: when the agent accepts a share token, the relay a transit token or
  an agent credential, or the agent a publication mandate, the hub has issued a mandate of exactly that kind with exactly
  those claims, it is for the share, agent or publication asked about, it has not expired, and a share
  token names the required scope. A signature made for one kind never serves as another.
\<close>

theorem accepted_mandates_were_issued:
  assumes "unforgeable cr hub issued" and "\<forall>x \<in> issued. mandate_plain x"
  shows "(verify_share_token cr tok hub sid req now = Inr () \<longrightarrow>
      MShare sid (st_scope tok) (st_exp tok) \<in> issued \<and> now < st_exp tok \<and> req \<in> set (split_on CHR '' '' (st_scope tok)))
    \<and> (verify_relay_token cr rtok hub sid apk now = Inr () \<longrightarrow> MRelay sid apk (rl_exp rtok) \<in> issued \<and> now < rl_exp rtok)
    \<and> (verify_expose_token cr etok hub pub apk now = Inr () \<longrightarrow> MExpose pub apk (ex_exp etok) \<in> issued \<and> now < ex_exp etok)
    \<and> (verify_agent_credential cr cred hub now = Inr () \<longrightarrow> MAgent (ac_agent_pubkey cred) (ac_exp cred) \<in> issued \<and> now < ac_exp cred)"
proof (intro conjI impI)
  assume v: "verify_share_token cr tok hub sid req now = Inr ()"
  then have "check_signature cr hub (mandate_bytes (MShare sid (st_scope tok) (st_exp tok))) (st_signature tok) = Inr ()"
    by (auto simp: verify_share_token_def split: if_splits sum.splits)
  then show "MShare sid (st_scope tok) (st_exp tok) \<in> issued" by (rule accepted_was_issued [OF assms]) simp
  show "now < st_exp tok" "req \<in> set (split_on CHR '' '' (st_scope tok))"
    using v by (auto simp: verify_share_token_def scope_contains_def list_ex_iff not_le split: if_splits sum.splits)
next
  assume "verify_relay_token cr rtok hub sid apk now = Inr ()"
  then show "MRelay sid apk (rl_exp rtok) \<in> issued" "now < rl_exp rtok" using relay_token_was_issued [OF assms] by simp_all
next
  assume v: "verify_expose_token cr etok hub pub apk now = Inr ()"
  then have "check_signature cr hub (mandate_bytes (MExpose pub apk (ex_exp etok))) (ex_signature etok) = Inr ()"
    by (auto simp: verify_expose_token_def split: if_splits)
  then show "MExpose pub apk (ex_exp etok) \<in> issued" by (rule accepted_was_issued [OF assms]) simp
  show "now < ex_exp etok" using v by (auto simp: verify_expose_token_def not_le split: if_splits)
next
  assume "verify_agent_credential cr cred hub now = Inr ()"
  then show "MAgent (ac_agent_pubkey cred) (ac_exp cred) \<in> issued" "now < ac_exp cred" using credential_was_issued [OF assms] by simp_all
qed

text \<open>
  C35. What the hub issues works until it expires and not longer: a minted share token opens its share for exactly the
  scopes it names, and a minted credential, answered with a signature over the relay's nonce, registers the
  agent under its key.
\<close>

theorem issued_mandates_are_accepted:
  assumes "crypto_ok cr public" and "parse_agent_pubkey cr apk = Inr (public identity)"
  shows "verify_share_token cr (sign_share_token cr key sid scope e) (public key) sid req now =
      (if e \<le> now then Inl Expired else if req \<in> set (split_on CHR '' '' scope) then Inr () else Inl MissingScope)
    \<and> verify_relay_token cr (sign_relay_token cr key sid apk e) (public key) sid apk now = (if e \<le> now then Inl Expired else Inr ())
    \<and> verify_expose_token cr (sign_expose_token cr key pub apk e) (public key) pub apk now = (if e \<le> now then Inl Expired else Inr ())
    \<and> verify_relay_register cr (sign_relay_register cr identity (sign_agent_credential cr key apk e) nonce) (public key) nonce now =
      (if e \<le> now then Inl BadCredential else Inr apk)"
  using check_signature_signed [OF assms(1)] assms(2)
  by (simp add: verify_share_token_def sign_share_token_def verify_relay_token_def sign_relay_token_def
      verify_expose_token_def sign_expose_token_def verify_relay_register_def sign_relay_register_def
      verify_agent_credential_def sign_agent_credential_def scope_contains_def list_ex_iff)

section \<open>What an agent's identity key says\<close>

datatype statement = SRegister bytes | SManifest string u64 bytes

fun statement_bytes :: "statement \<Rightarrow> bytes" where
  "statement_bytes (SRegister nonce) = relay_register_signing_bytes nonce"
| "statement_bytes (SManifest share_id signed_at json) = manifest_signing_bytes share_id signed_at json"

fun statement_plain :: "statement \<Rightarrow> bool" where
  "statement_plain (SRegister nonce) = True"
| "statement_plain (SManifest share_id signed_at json) = plain share_id"

lemma plain_line_eq:
  assumes "as_bytes (a @ NL # r) @ x = as_bytes (b @ NL # s) @ y" and "plain a" and "plain b"
  shows "a = b \<and> as_bytes r @ x = as_bytes s @ y"
proof -
  let ?t = "map char_of_byte"
  have "a @ NL # (r @ ?t x) = b @ NL # (s @ ?t y)"
    using arg_cong [OF assms(1), of "map char_of_byte"] by (simp add: as_bytes_def o_def)
  then have "split_once NL (a @ NL # (r @ ?t x)) = split_once NL (b @ NL # (s @ ?t y))" by (simp only:)
  moreover have "split_once NL (a @ NL # (r @ ?t x)) = Some (a, r @ ?t x)"
    using assms(2) unfolding plain_def by (rule split_once_append)
  moreover have "split_once NL (b @ NL # (s @ ?t y)) = Some (b, s @ ?t y)"
    using assms(3) unfolding plain_def by (rule split_once_append)
  ultimately have "Some (a, r @ ?t x) = Some (b, s @ ?t y)" by metis
  then have "a = b" "r @ ?t x = s @ ?t y" by simp_all
  then have "a = b" "map byte_of_char (r @ ?t x) = map byte_of_char (s @ ?t y)" by (simp_all only:)
  then show ?thesis by (simp add: as_bytes_def o_def)
qed

lemma manifest_bytes_inj:
  assumes "manifest_signing_bytes a t json = manifest_signing_bytes b u json'" and "plain a" and "plain b"
  shows "a = b \<and> t = u \<and> json = json'"
proof -
  have 1: "as_bytes (a @ NL # exp_string t @ [NL]) @ json = as_bytes (b @ NL # exp_string u @ [NL]) @ json'"
    using assms(1) by (simp add: manifest_signing_bytes_def nl_fields_def as_bytes_def)
  have 2: "a = b" "as_bytes (exp_string t @ NL # []) @ json = as_bytes (exp_string u @ NL # []) @ json'"
    using plain_line_eq [OF 1 assms(2,3)] by simp_all
  from plain_line_eq [OF 2(2) dec_string_plain dec_string_plain] 2(1) show ?thesis
    by (simp add: as_bytes_def word_unat_eq_iff)
qed

lemma statement_bytes_inj:
  assumes "statement_bytes x = statement_bytes y" and "statement_plain x" and "statement_plain y"
  shows "x = y"
proof -
  have reg: "relay_register_signing_bytes n = relay_register_signing_bytes n' \<Longrightarrow> n = n'" for n n'
    by (simp add: relay_register_signing_bytes_def)
  have sep: "relay_register_signing_bytes n \<noteq> manifest_signing_bytes a t j" for n a t j
    by (simp add: relay_register_signing_bytes_def manifest_signing_bytes_def nl_fields_def as_bytes_def byte_of_char_def)
  show ?thesis using assms reg sep sep [symmetric]
    by (cases x; cases y) (auto dest: manifest_bytes_inj)
qed

text \<open>What a key has signed: the counterpart of \<open>unforgeable\<close> for an agent's identity.\<close>

definition speaks :: "crypto \<Rightarrow> bytes \<Rightarrow> statement set \<Rightarrow> bool" where
  "speaks cr agent said \<longleftrightarrow> (\<forall>message sig. verify_msg cr agent message sig \<longrightarrow> (\<exists>x \<in> said. message = statement_bytes x))
     \<and> (\<forall>x \<in> said. statement_plain x)"

lemma verified_was_said:
  assumes "speaks cr agent said" and "check_signature cr agent (statement_bytes x) sig = Inr ()" and "statement_plain x"
  shows "x \<in> said"
proof -
  obtain y where "y \<in> said" "statement_bytes x = statement_bytes y"
    using assms(1) check_signature_verifies [OF assms(2)] unfolding speaks_def by blast
  then show ?thesis using statement_bytes_inj assms(1,3) unfolding speaks_def by metis
qed

lemma registration_was_said:
  assumes "speaks cr agent said" and r: "verify_relay_register cr reg hub nonce now = Inr apk" and "parse_agent_pubkey cr apk = Inr agent"
  shows "SRegister nonce \<in> said \<and> verify_agent_credential cr (rg_credential reg) hub now = Inr () \<and>
    ac_agent_pubkey (rg_credential reg) = apk"
proof -
  have c: "verify_agent_credential cr (rg_credential reg) hub now = Inr ()" "ac_agent_pubkey (rg_credential reg) = apk"
      "check_signature cr agent (relay_register_signing_bytes nonce) (rg_nonce_sig reg) = Inr ()"
    using r assms(3) by (auto simp: verify_relay_register_def split: sum.splits)
  then show ?thesis using verified_was_said [OF assms(1), of "SRegister nonce" "rg_nonce_sig reg"] by simp
qed

text \<open>
  A listing is the agent's own, for the share that was asked for: when the signature of a manifest verifies, the agent signed
  exactly these bytes at exactly that moment for exactly that share. A registration with the relay
  is live: when it is accepted, the holder of the key signed this very nonce, and the hub
  vouches for the key. Neither signature can be passed off as the other.
\<close>

theorem identity_signatures_are_bound:
  assumes "speaks cr agent said" and "plain sid"
  shows "(verify_share_manifest cr sig agent sid at json = Inr () \<longrightarrow> SManifest sid at json \<in> said)
    \<and> (verify_relay_register cr reg hub nonce now = Inr apk \<and> parse_agent_pubkey cr apk = Inr agent \<longrightarrow>
         SRegister nonce \<in> said \<and> verify_agent_credential cr (rg_credential reg) hub now = Inr () \<and>
         ac_agent_pubkey (rg_credential reg) = apk)"
proof (intro conjI impI; (elim conjE)?)
  assume "verify_share_manifest cr sig agent sid at json = Inr ()"
  then show "SManifest sid at json \<in> said"
    using verified_was_said [OF assms(1), of "SManifest sid at json" sig] assms(2) by (simp add: verify_share_manifest_def)
qed (use registration_was_said [OF assms(1)] in blast)+

section \<open>Concrete instances\<close>

text \<open>Stand-ins for the crates: a transparent base64, and signatures that are 64 zeros.\<close>

definition frame_text :: "bytes \<Rightarrow> string" where
  "frame_text bs = ''x'' @ map char_of_byte bs @ ''x''"

definition unframe_text :: "string \<Rightarrow> bytes option" where
  "unframe_text s = Some (as_bytes (butlast (tl s)))"

definition example_crypto :: "(bytes \<Rightarrow> bytes \<Rightarrow> bytes \<Rightarrow> bool) \<Rightarrow> crypto" where
  "example_crypto v = \<lparr>sign_msg = (\<lambda>_ _. replicate 64 0), verify_msg = v, key_valid = (\<lambda>_. True),
     b64_encode = frame_text, b64_decode = unframe_text\<rparr>"

lemma no_space_x: "\<forall>w \<in> set white_spaces. w \<noteq> [] \<and> hd w \<noteq> CHR ''x'' \<and> last w \<noteq> CHR ''x''"
  by code_simp

lemma drop_leading_id: "(\<And>w. w \<in> set ws \<Longrightarrow> w \<noteq> [] \<and> hd w \<noteq> c) \<Longrightarrow> drop_leading ws (c # s) = c # s"
proof -
  assume h: "\<And>w. w \<in> set ws \<Longrightarrow> w \<noteq> [] \<and> hd w \<noteq> c"
  have "\<not> prefix w (c # s)" if "w \<in> set ws" for w using h [OF that] by (cases w) auto
  then have "find (\<lambda>w. w \<noteq> [] \<and> prefix w (c # s)) ws = None" by (auto simp: find_None_iff)
  then show ?thesis by (subst drop_leading.simps) simp
qed

lemma trim_framed: "trim (frame_text bs) = frame_text bs"
proof -
  have "trim_start (frame_text bs) = frame_text bs"
    unfolding trim_start_def frame_text_def append_Cons append_Nil
    by (rule drop_leading_id) (use no_space_x in auto)
  moreover have "trim_end (frame_text bs) = frame_text bs"
  proof -
    have "drop_leading (map rev white_spaces) (rev (frame_text bs)) = rev (frame_text bs)"
      unfolding frame_text_def rev_append rev.simps append_Cons append_Nil append.simps
      by (rule drop_leading_id) (use no_space_x in \<open>auto simp: hd_rev\<close>)
    then show ?thesis by (simp add: trim_end_def)
  qed
  ultimately show ?thesis by (simp add: trim_def)
qed

lemma unframe_frame: "unframe_text (frame_text bs) = Some bs"
  by (simp add: unframe_text_def frame_text_def as_bytes_def o_def)

theorem issued_mandates_are_accepted_witness:
  "let cr = example_crypto (\<lambda>_ _ _. True); apk = frame_text (replicate 32 0) in
   verify_share_token cr (sign_share_token cr [] ''s1'' ''share:read'' 10) (replicate 32 0) ''s1'' ''share:read'' 5 = Inr () \<and>
   verify_relay_register cr (sign_relay_register cr [] (sign_agent_credential cr [] apk 10) [7]) (replicate 32 0) [7] 5 = Inr apk"
proof -
  let ?cr = "example_crypto (\<lambda>_ _ _. True)" and ?apk = "frame_text (replicate 32 0)"
  have "crypto_ok ?cr (\<lambda>_. replicate 32 0)"
    by (simp add: crypto_ok_def example_crypto_def trim_framed unframe_frame)
  moreover have "parse_agent_pubkey ?cr ?apk = Inr (replicate 32 0)"
    by (simp add: parse_agent_pubkey_def example_crypto_def trim_framed unframe_frame)
  ultimately show ?thesis
    using issued_mandates_are_accepted [of ?cr "\<lambda>_. replicate 32 0" ?apk "[]" "[]" "''s1''" "''share:read''" 10 "''share:read''" 5 "[]" "[7]"]
    by (simp add: Let_def)
qed

definition only_share :: "bytes \<Rightarrow> bytes \<Rightarrow> bytes \<Rightarrow> bool" where
  "only_share key message sig \<longleftrightarrow> message = token_signing_bytes ''s1'' ''share:read'' 10"

theorem accepted_mandates_were_issued_witness:
  "verify_share_token (example_crypto only_share) (sign_share_token (example_crypto only_share) [] ''s1'' ''share:read'' 10)
     [] ''s1'' ''share:read'' 5 = Inr () \<and> MShare ''s1'' ''share:read'' 10 \<in> {MShare ''s1'' ''share:read'' 10}"
proof -
  let ?cr = "example_crypto only_share" and ?tok = "sign_share_token (example_crypto only_share) [] ''s1'' ''share:read'' 10"
  have u: "unforgeable ?cr [] {MShare ''s1'' ''share:read'' 10}"
    by (auto simp: unforgeable_def example_crypto_def only_share_def)
  have p: "\<forall>x \<in> {MShare ''s1'' ''share:read'' 10}. mandate_plain x" by (simp add: plain_def)
  have "verify_share_token ?cr ?tok [] ''s1'' ''share:read'' 5 = Inr ()"
    by (simp add: verify_share_token_def sign_share_token_def check_signature_def example_crypto_def trim_framed unframe_frame
        only_share_def scope_contains_def)
  with accepted_mandates_were_issued [OF u p, of ?tok "''s1''" "''share:read''" 5] show ?thesis by (simp add: sign_share_token_def)
qed

definition only_listing :: "bytes \<Rightarrow> bytes \<Rightarrow> bytes \<Rightarrow> bool" where
  "only_listing key message sig \<longleftrightarrow> message = manifest_signing_bytes ''s1'' 9 [1, 2]"

theorem identity_signatures_are_bound_witness:
  "verify_share_manifest (example_crypto only_listing) (frame_text (replicate 64 0)) [] ''s1'' 9 [1, 2] = Inr () \<and>
   SManifest ''s1'' 9 [1, 2] \<in> {SManifest ''s1'' 9 [1, 2]}"
proof -
  let ?cr = "example_crypto only_listing"
  have a: "speaks ?cr [] {SManifest ''s1'' 9 [1, 2]}" and p: "plain ''s1''"
    by (auto simp: speaks_def example_crypto_def only_listing_def plain_def)
  have "verify_share_manifest ?cr (frame_text (replicate 64 0)) [] ''s1'' 9 [1, 2] = Inr ()"
    by (simp add: verify_share_manifest_def check_signature_def example_crypto_def trim_framed unframe_frame only_listing_def)
  with identity_signatures_are_bound [OF a p, of "frame_text (replicate 64 0)" 9 "[1, 2]"] show ?thesis by blast
qed

end
