(* ===== verification/Disk.thy ===== *)
theory Disk
  imports Rust_Str "HOL-Library.AList"
begin

text \<open>
  The calls of \<^verbatim>\<open>std::fs\<close> and \<^verbatim>\<open>tokio::fs\<close> that the mirror makes, on a tree of directories. An operation fails
  for the reasons the tree shows (something missing, a file where a directory is needed and so on); failures of the
  medium are outside the model, and a symbolic link is a dangling one that is never written through.

  What a tree says of its regular files is \<open>file_at\<close>, a map from paths to contents: every operation is shown to do to
  this map what its name says.
\<close>

type_synonym fpath = "string list"

datatype node = File bytes "int option" | Symlink | Dir "(string \<times> node) list"

datatype fs_error = NotFound | NotADirectory | IsADirectory | DirectoryNotEmpty | AlreadyExists

fun fs_error_text :: "fs_error \<Rightarrow> string" where
  "fs_error_text NotFound = ''No such file or directory (os error 2)''"
| "fs_error_text NotADirectory = ''Not a directory (os error 20)''"
| "fs_error_text IsADirectory = ''Is a directory (os error 21)''"
| "fs_error_text DirectoryNotEmpty = ''Directory not empty (os error 39)''"
| "fs_error_text AlreadyExists = ''File exists (os error 17)''"

section \<open>Looking up and replacing\<close>

fun lookup :: "node \<Rightarrow> fpath \<Rightarrow> node option" where
  "lookup n [] = Some n"
| "lookup (Dir es) (k # ks) = (case map_of es k of None \<Rightarrow> None | Some n \<Rightarrow> lookup n ks)"
| "lookup _ (k # ks) = None"

fun put :: "node \<Rightarrow> fpath \<Rightarrow> node option \<Rightarrow> node option" where
  "put (Dir es) [k] v = Some (Dir (case v of None \<Rightarrow> AList.delete k es | Some n \<Rightarrow> AList.update k n es))"
| "put (Dir es) (k # ks) v = (case map_of es k of
      None \<Rightarrow> None
    | Some n \<Rightarrow> (case put n ks v of None \<Rightarrow> None | Some n' \<Rightarrow> Some (Dir (AList.update k n' es))))"
| "put _ _ v = None"

definition file_at :: "node \<Rightarrow> fpath \<Rightarrow> bytes option" where
  "file_at t p = (case lookup t p of Some (File c m) \<Rightarrow> Some c | _ \<Rightarrow> None)"

section \<open>Operations\<close>

definition is_dir :: "node \<Rightarrow> fpath \<Rightarrow> bool" where
  "is_dir t p = (case lookup t p of Some (Dir es) \<Rightarrow> True | _ \<Rightarrow> False)"

definition path_exists :: "node \<Rightarrow> fpath \<Rightarrow> bool" where
  "path_exists t p = (case lookup t p of None \<Rightarrow> False | Some Symlink \<Rightarrow> False | _ \<Rightarrow> True)"

text \<open>Length and modification time; a directory reports the size of its block.\<close>

definition fs_metadata :: "node \<Rightarrow> fpath \<Rightarrow> (u64 \<times> int option) option" where
  "fs_metadata t p = (case lookup t p of
      Some (File c m) \<Rightarrow> Some (of_nat (length c), m)
    | Some (Dir es) \<Rightarrow> Some (4096, None)
    | _ \<Rightarrow> None)"

fun dir_chain :: "fpath \<Rightarrow> node" where
  "dir_chain [] = Dir []"
| "dir_chain (k # ks) = Dir [(k, dir_chain ks)]"

fun create_dir_all :: "node \<Rightarrow> fpath \<Rightarrow> fs_error + node" where
  "create_dir_all (Dir es) [] = Inr (Dir es)"
| "create_dir_all (Dir es) (k # ks) = (case map_of es k of
      None \<Rightarrow> Inr (Dir (AList.update k (dir_chain ks) es))
    | Some n \<Rightarrow> (case create_dir_all n ks of Inl e \<Rightarrow> Inl e | Inr n' \<Rightarrow> Inr (Dir (AList.update k n' es))))"
| "create_dir_all _ [] = Inl AlreadyExists"
| "create_dir_all _ (k # ks) = Inl NotADirectory"

definition put_or :: "node \<Rightarrow> fpath \<Rightarrow> node option \<Rightarrow> fs_error + node" where
  "put_or t p v = (case put t p v of None \<Rightarrow> Inl NotFound | Some t' \<Rightarrow> Inr t')"

text \<open>Create or truncate a file and give it these bytes, stamped with the time of the write.\<close>

definition write_file :: "int option \<Rightarrow> bytes \<Rightarrow> fpath \<Rightarrow> node \<Rightarrow> fs_error + node" where
  "write_file now c p t = (case lookup t p of
      Some (Dir es) \<Rightarrow> Inl IsADirectory
    | Some Symlink \<Rightarrow> Inl NotFound
    | _ \<Rightarrow> put_or t p (Some (File c now)))"

definition read_file :: "node \<Rightarrow> fpath \<Rightarrow> fs_error + bytes" where
  "read_file t p = (case lookup t p of
      Some (File c m) \<Rightarrow> Inr c
    | Some (Dir es) \<Rightarrow> Inl IsADirectory
    | _ \<Rightarrow> Inl NotFound)"

definition append_file :: "int option \<Rightarrow> bytes \<Rightarrow> fpath \<Rightarrow> node \<Rightarrow> fs_error + node" where
  "append_file now c p t = (case read_file t p of Inl e \<Rightarrow> Inl e | Inr old \<Rightarrow> write_file now (old @ c) p t)"

definition remove_file :: "fpath \<Rightarrow> node \<Rightarrow> fs_error + node" where
  "remove_file p t = (case lookup t p of
      None \<Rightarrow> Inl NotFound
    | Some (Dir es) \<Rightarrow> Inl IsADirectory
    | _ \<Rightarrow> put_or t p None)"

definition remove_dir :: "fpath \<Rightarrow> node \<Rightarrow> fs_error + node" where
  "remove_dir p t = (case lookup t p of
      None \<Rightarrow> Inl NotFound
    | Some (Dir es) \<Rightarrow> if es = [] then put_or t p None else Inl DirectoryNotEmpty
    | _ \<Rightarrow> Inl NotADirectory)"

text \<open>Rename of a regular file, which replaces a file at the new name.\<close>

definition rename_file :: "fpath \<Rightarrow> fpath \<Rightarrow> node \<Rightarrow> fs_error + node" where
  "rename_file p q t = (case lookup t p of
      Some (File c m) \<Rightarrow>
        (if p = q then Inr t
         else if is_dir t q then Inl IsADirectory
         else (case put_or t q (Some (File c m)) of Inl e \<Rightarrow> Inl e | Inr t' \<Rightarrow> put_or t' p None))
    | _ \<Rightarrow> Inl NotFound)"

section \<open>The map of files\<close>

lemma lookup_append: "lookup t (p @ q) = (case lookup t p of None \<Rightarrow> None | Some n \<Rightarrow> lookup n q)"
  by (induction t p rule: lookup.induct) (auto split: option.splits)

lemma lookup_File [simp]: "lookup (File c m) q = (if q = [] then Some (File c m) else None)"
  by (cases q) auto

lemma lookup_Symlink [simp]: "lookup Symlink q = (if q = [] then Some Symlink else None)"
  by (cases q) auto

text \<open>Away from the path and what is below it nothing changes; directories above it stay directories.\<close>

lemma lookup_put_same:
  "put t p v = Some t' \<Longrightarrow> lookup t' p = v"
proof (induction t p v arbitrary: t' rule: put.induct)
  case (2 es k k' ks v)
  then show ?case by (auto split: option.splits simp: update_conv')
qed (auto simp: update_conv' delete_conv' split: option.splits)

lemma lookup_put_below:
  "put t p v = Some t' \<Longrightarrow> lookup t' (p @ q) = (case v of None \<Rightarrow> None | Some n \<Rightarrow> lookup n q)"
  using lookup_put_same [of t p v t'] by (simp add: lookup_append)

lemma lookup_put_parallel:
  "put t p v = Some t' \<Longrightarrow> \<not> prefix p q \<Longrightarrow> \<not> prefix q p \<Longrightarrow> lookup t' q = lookup t q"
proof (induction t p v arbitrary: t' q rule: put.induct)
  case (1 es k v)
  then show ?case by (cases q) (auto simp: update_conv' delete_conv' split: option.splits)
next
  case (2 es k k' ks v)
  then show ?case by (cases q) (auto simp: update_conv' split: option.splits)
qed auto

lemma lookup_put_above:
  "put t p v = Some t' \<Longrightarrow> strict_prefix q p \<Longrightarrow> (\<exists>es. lookup t q = Some (Dir es)) \<and> (\<exists>es. lookup t' q = Some (Dir es))"
proof (induction t p v arbitrary: t' q rule: put.induct)
  case (1 es k v)
  then have "q = []" by (auto simp: strict_prefix_def prefix_Cons)
  then show ?case using 1 by auto
next
  case (2 es k k' ks v)
  show ?case
  proof (cases q)
    case Nil
    then show ?thesis using 2 by (auto split: option.splits)
  next
    case (Cons a q')
    then have "a = k" "strict_prefix q' (k' # ks)" using 2(3) by (auto simp: strict_prefix_def)
    then show ?thesis using 2 Cons by (auto simp: update_conv' split: option.splits)
  qed
qed auto

lemma file_at_put:
  assumes "put t p v = Some t'" and "file_at t' p = c" and "v = None \<or> (\<exists>c m. v = Some (File c m))" and "\<not> is_dir t p"
  shows "file_at t' = (file_at t)(p := c)"
proof
  fix q
  consider "q = p" | "strict_prefix p q" | "strict_prefix q p" | "\<not> prefix p q" "\<not> prefix q p"
    by (auto simp: strict_prefix_def)
  then show "file_at t' q = ((file_at t)(p := c)) q"
  proof cases
    case 2
    then obtain r where r: "q = p @ r" "r \<noteq> []" by (auto simp: strict_prefix_def prefix_def)
    have "lookup t' q = None" using assms(1,3) r by (auto simp: lookup_put_below)
    moreover have "lookup t q = None"
      using assms(4) r by (auto simp: lookup_append is_dir_def split: option.splits node.splits)
    ultimately show ?thesis using 2 by (auto simp: file_at_def strict_prefix_def)
  next
    case 3
    then show ?thesis using lookup_put_above [OF assms(1) 3] by (auto simp: file_at_def strict_prefix_def)
  next
    case 4
    then show ?thesis using lookup_put_parallel [OF assms(1) 4] by (auto simp: file_at_def)
  qed (use assms(2) in simp)
qed

lemma file_at_write:
  assumes "write_file now c p t = Inr t'"
  shows "file_at t' = (file_at t)(p \<mapsto> c)"
proof -
  have p: "put t p (Some (File c now)) = Some t'" "\<not> is_dir t p"
    using assms by (auto simp: write_file_def put_or_def is_dir_def split: option.splits node.splits)
  then show ?thesis using lookup_put_same [OF p(1)] by (intro file_at_put) (auto simp: file_at_def)
qed

lemma read_file_at: "read_file t p = Inr c \<longleftrightarrow> file_at t p = Some c"
  by (auto simp: read_file_def file_at_def split: option.splits node.splits)

lemma file_at_append:
  assumes "append_file now c p t = Inr t'"
  shows "\<exists>old. file_at t p = Some old \<and> file_at t' = (file_at t)(p \<mapsto> old @ c)"
  using assms by (auto simp: append_file_def read_file_at split: sum.splits dest: file_at_write)

lemma file_at_remove:
  assumes "remove_file p t = Inr t'"
  shows "file_at t' = (file_at t)(p := None) \<and> lookup t' p = None"
proof -
  have p: "put t p None = Some t'" "\<not> is_dir t p"
    using assms by (auto simp: remove_file_def put_or_def is_dir_def split: option.splits node.splits)
  then show ?thesis using lookup_put_same [OF p(1)] by (auto intro!: file_at_put simp: file_at_def)
qed

lemma file_at_rename:
  assumes "rename_file p q t = Inr t'"
  shows "\<exists>c. file_at t p = Some c \<and> file_at t' = (file_at t)(p := None, q \<mapsto> c)"
proof -
  obtain c m where c: "lookup t p = Some (File c m)"
    using assms by (auto simp: rename_file_def split: option.splits node.splits)
  show ?thesis
  proof (cases "p = q")
    case True
    then show ?thesis using assms c by (auto simp: rename_file_def file_at_def)
  next
    case False
    then obtain u where u: "put t q (Some (File c m)) = Some u" "put u p None = Some t'" "\<not> is_dir t q"
      using assms c by (auto simp: rename_file_def put_or_def split: if_splits option.splits sum.splits)
    have fu: "file_at u = (file_at t)(q \<mapsto> c)"
      using u lookup_put_same [OF u(1)] by (intro file_at_put) (auto simp: file_at_def)
    have "\<not> is_dir u p"
    proof
      assume d: "is_dir u p"
      have "\<not> strict_prefix p q" using lookup_put_above [OF u(1), of p] c by auto
      moreover have "\<not> strict_prefix q p" using d u lookup_put_below [OF u(1)] by (auto simp: is_dir_def strict_prefix_def prefix_def split: if_splits)
      ultimately have "lookup u p = lookup t p" using False lookup_put_parallel [OF u(1), of p] by (auto simp: strict_prefix_def)
      then show False using c d by (simp add: is_dir_def)
    qed
    then have "file_at t' = (file_at u)(p := None)"
      using u lookup_put_same [OF u(2)] by (intro file_at_put) (auto simp: file_at_def)
    then show ?thesis using False c fu by (auto simp: file_at_def fun_upd_twist)
  qed
qed

lemma file_at_Dir [simp]:
  "file_at (Dir es) [] = None"
  "file_at (Dir es) (k # ks) = (case map_of es k of None \<Rightarrow> None | Some n \<Rightarrow> file_at n ks)"
  by (auto simp: file_at_def split: option.splits)

lemma file_at_dir_chain [simp]: "file_at (dir_chain ks) q = None"
proof (induction ks arbitrary: q)
  case Nil
  then show ?case by (cases q) auto
next
  case (Cons k ks)
  then show ?case by (cases q) auto
qed

lemma file_at_mkdir:
  "create_dir_all t p = Inr t' \<Longrightarrow> file_at t' = file_at t"
proof (induction t p arbitrary: t' rule: create_dir_all.induct)
  case (2 es k ks)
  have "file_at t' q = file_at (Dir es) q" for q
  proof (cases "map_of es k")
    case None
    then show ?thesis using 2 by (cases q) (auto simp: update_conv')
  next
    case (Some n)
    then obtain n' where "create_dir_all n ks = Inr n'" "t' = Dir (AList.update k n' es)" using 2(2) by (auto split: sum.splits)
    then show ?thesis using 2(1) [OF Some] Some by (cases q) (auto simp: update_conv')
  qed
  then show ?case by auto
qed auto

lemma file_at_rmdir:
  assumes "remove_dir p t = Inr t'"
  shows "file_at t' = file_at t"
proof -
  have p: "put t p None = Some t'" "lookup t p = Some (Dir [])"
    using assms by (auto simp: remove_dir_def put_or_def split: option.splits node.splits if_splits)
  show ?thesis
  proof
    fix q
    consider "prefix p q" | "strict_prefix q p" | "\<not> prefix p q" "\<not> prefix q p"
      by (auto simp: strict_prefix_def)
    then show "file_at t' q = file_at t q"
    proof cases
      case 1
      then obtain r where r: "q = p @ r" by (auto simp: prefix_def)
      then have "lookup t' q = None" using lookup_put_below [OF p(1), of r] by simp
      moreover have "file_at t q = None" using p(2) r by (cases r) (auto simp: file_at_def lookup_append)
      ultimately show ?thesis by (simp add: file_at_def)
    next
      case 2
      then show ?thesis using lookup_put_above [OF p(1) 2] by (auto simp: file_at_def)
    next
      case 3
      then show ?thesis using lookup_put_parallel [OF p(1) 3] by (simp add: file_at_def)
    qed
  qed
qed

end
