(* ===== verification/Sync_Plan.thy ===== *)
theory Sync_Plan
  imports Share Disk "HOL-Library.Char_ord" "HOL-Library.List_Lexorder"
begin

text \<open>
  The pure half of the mirror, \<^verbatim>\<open>xr-core/src/sync.rs\<close>: the diff between a share's manifest and the local files
  (\<^verbatim>\<open>plan_sync\<close>, \<^verbatim>\<open>plan_with_selection\<close>), what a selection covers, taking one path out of a selection
  (\<^verbatim>\<open>expand_deselect\<close>), and where a manifest path may be written (\<^verbatim>\<open>safe_dest\<close>). Hash sets are lists read as sets.

  The theorems: executing a plan leaves exactly the selected part of the manifest, after which the plan is empty;
  deselecting a path takes out exactly that path and what is below it; no path leaves the root.
\<close>

section \<open>Plans\<close>

record local_file =
  lf_path :: string
  lf_sha256 :: string
  lf_size :: u64

record sync_plan =
  sp_fetch :: "share_entry list"
  sp_delete :: "string list"

definition plan_is_empty :: "sync_plan \<Rightarrow> bool" where
  "plan_is_empty p \<longleftrightarrow> sp_fetch p = [] \<and> sp_delete p = []"

definition path_selected :: "string \<Rightarrow> string list option \<Rightarrow> bool" where
  "path_selected path selection = (case selection of
      None \<Rightarrow> True
    | Some sel \<Rightarrow> list_ex (\<lambda>s. path = s \<or> starts_with path (s @ ''/'')) sel)"

text \<open>Whether an entry is to be fetched, given the local file of its path if there is one.\<close>

definition needs_fetch :: "local_file option \<Rightarrow> share_entry \<Rightarrow> bool" where
  "needs_fetch held e = (case held of
      Some l \<Rightarrow> if se_sha256 e \<noteq> [] then \<not> eq_ignore_ascii_case (lf_sha256 l) (se_sha256 e)
                else lf_size l \<noteq> se_size e
    | None \<Rightarrow> True)"

definition plan_with_selection :: "share_entry list \<Rightarrow> local_file list \<Rightarrow> string list option \<Rightarrow> sync_plan" where
  "plan_with_selection manifest loc selection =
     (let local_by_path = map_of (rev (map (\<lambda>f. (lf_path f, f)) loc));
          desired = filter (\<lambda>e. path_selected (se_path e) selection) manifest;
          desired_paths = map se_path desired
      in \<lparr>sp_fetch = sort_key se_path (filter (\<lambda>e. needs_fetch (local_by_path (se_path e)) e) desired),
          sp_delete = sort (map lf_path (filter (\<lambda>f. lf_path f \<notin> set desired_paths) loc))\<rparr>)"

definition plan_sync :: "share_entry list \<Rightarrow> local_file list \<Rightarrow> sync_plan" where
  "plan_sync manifest loc = plan_with_selection manifest loc None"

section \<open>Deselecting\<close>

text \<open>\<^verbatim>\<open>rfind('/')\<close> and the slice before it.\<close>

definition parent_dir :: "string \<Rightarrow> string option" where
  "parent_dir p = (if CHR ''/'' \<in> set p then Some (rev (tl (dropWhile (\<lambda>c. c \<noteq> CHR ''/'') (rev p)))) else None)"

lemma parent_dir_SomeD: "parent_dir p = Some q \<Longrightarrow> \<exists>r. p = q @ CHR ''/'' # r \<and> CHR ''/'' \<notin> set r"
proof -
  assume a: "parent_dir p = Some q"
  have "split_once CHR ''/'' (rev p) = Some (takeWhile (\<lambda>c. c \<noteq> CHR ''/'') (rev p), rev q)"
    using a by (auto simp: parent_dir_def split_once_def split: if_splits)
  from split_once_SomeD [OF this] have "rev p = takeWhile (\<lambda>c. c \<noteq> CHR ''/'') (rev p) @ CHR ''/'' # rev q"
      "CHR ''/'' \<notin> set (takeWhile (\<lambda>c. c \<noteq> CHR ''/'') (rev p))" by auto
  then show ?thesis
    by (intro exI [of _ "rev (takeWhile (\<lambda>c. c \<noteq> CHR ''/'') (rev p))"]) (metis append_Cons append_assoc rev.simps(2) rev_append rev_rev_ident set_rev append_Nil)
qed

function nearest_ancestor :: "string list \<Rightarrow> string \<Rightarrow> string option" where
  "nearest_ancestor sel p = (case parent_dir p of
      None \<Rightarrow> None
    | Some q \<Rightarrow> if q \<in> set sel then Some q else nearest_ancestor sel q)"
  by pat_completeness auto
termination
  by (relation "measure (\<lambda>(sel, p). length p)") (auto dest: parent_dir_SomeD)

declare nearest_ancestor.simps [simp del]

text \<open>The names next to \<open>nm\<close> in \<open>dir\<close> that the manifest knows.\<close>

definition siblings :: "string list \<Rightarrow> string \<Rightarrow> string \<Rightarrow> string list" where
  "siblings manifest_paths dir nm =
     (let pre = dir @ ''/'' in
      remdups_adj (sort (filter (\<lambda>c. c \<noteq> [] \<and> c \<noteq> nm)
        (map (\<lambda>m. hd (split_on CHR ''/'' (drop (length pre) m))) (filter (\<lambda>m. starts_with m pre) manifest_paths)))))"

fun split_down :: "string list \<Rightarrow> string \<Rightarrow> string list \<Rightarrow> string list \<Rightarrow> string list" where
  "split_down manifest_paths dir [] sel = sel"
| "split_down manifest_paths dir (nm # comps) sel =
     split_down manifest_paths (dir @ ''/'' @ nm) comps
       (fold (\<lambda>c. List.insert (dir @ ''/'' @ c)) (siblings manifest_paths dir nm) sel)"

section \<open>Where a path may be written\<close>

text \<open>
  A path is its list of components. A component without a slash that is not empty and not a dot is one normal
  component for \<^verbatim>\<open>Path::components\<close> and is not absolute, so the inner check never refuses.
\<close>

fun push_components :: "string list \<Rightarrow> fpath \<Rightarrow> nat \<Rightarrow> (fpath \<times> nat) option" where
  "push_components [] out n = Some (out, n)"
| "push_components (nm # comps) out n =
     (if nm = [] \<or> nm = ''.'' then push_components comps out n
      else if nm = ''..'' then None
      else push_components comps (out @ [nm]) (n + 1))"

definition safe_dest :: "fpath \<Rightarrow> string \<Rightarrow> fpath option" where
  "safe_dest root rel =
     (if starts_with rel ''/'' \<or> CHR 0x5C \<in> set rel \<or> CHR 0x00 \<in> set rel then None
      else case push_components (split_on CHR ''/'' rel) root 0 of
        None \<Rightarrow> None
      | Some (out, n) \<Rightarrow> if n = 0 then None else Some out)"

section \<open>Paths as lists of components\<close>

abbreviation cs :: "string \<Rightarrow> string list" where
  "cs \<equiv> split_on CHR ''/''"

definition covers :: "string \<Rightarrow> string \<Rightarrow> bool" where
  "covers s m \<longleftrightarrow> m = s \<or> starts_with m (s @ ''/'')"

lemma cs_sep: "cs (s @ CHR ''/'' # r) = cs s @ cs r"
  by (rule split_on_sep_append)

lemma cs_inj: "cs s = cs t \<longleftrightarrow> s = t"
  by (metis join_split_on)

lemma covers_prefix: "covers s m \<longleftrightarrow> prefix (cs s) (cs m)"
proof
  assume "covers s m"
  then show "prefix (cs s) (cs m)" by (auto simp: covers_def prefix_def cs_sep)
next
  assume "prefix (cs s) (cs m)"
  then obtain ts where ts: "cs m = cs s @ ts" by (auto simp: prefix_def)
  show "covers s m"
  proof (cases "ts = []")
    case True
    then show ?thesis using ts cs_inj by (simp add: covers_def)
  next
    case False
    have "m = join [CHR ''/''] (cs s @ ts)" using ts join_split_on by metis
    also have "\<dots> = s @ CHR ''/'' # join [CHR ''/''] ts" using False by (simp add: join_append)
    finally show ?thesis by (simp add: covers_def prefix_def)
  qed
qed

lemma path_selected_covers: "path_selected m (Some sel) \<longleftrightarrow> (\<exists>s \<in> set sel. covers s m)"
  by (simp add: path_selected_def covers_def list_ex_iff)

lemma parent_dir_cs: "parent_dir p = Some q \<Longrightarrow> \<exists>r. cs p = cs q @ [r]"
  using parent_dir_SomeD [of p q] by (auto simp: cs_sep split_on_no_sep)

lemma parent_dir_None: "parent_dir p = None \<Longrightarrow> cs p = [p]"
  by (simp add: parent_dir_def split_on_no_sep split: if_splits)

lemma nearest_ancestor_Some:
  "nearest_ancestor sel p = Some a \<Longrightarrow> a \<in> set sel \<and> strict_prefix (cs a) (cs p)"
proof (induction sel p rule: nearest_ancestor.induct)
  case (1 sel p)
  obtain q where q: "parent_dir p = Some q" using 1(2) by (subst (asm) nearest_ancestor.simps) (auto split: option.splits)
  then obtain r where r: "cs p = cs q @ [r]" using parent_dir_cs by blast
  then have s: "strict_prefix (cs q) (cs p)" by (simp add: strict_prefix_def)
  show ?case
  proof (cases "q \<in> set sel")
    case True
    then have "a = q" using 1(2) q by (subst (asm) nearest_ancestor.simps) simp
    then show ?thesis using True s by simp
  next
    case False
    then have "nearest_ancestor sel q = Some a" using 1(2) q by (subst (asm) nearest_ancestor.simps) simp
    then show ?thesis using 1(1) [OF q False] s by (meson prefix_order.less_trans)
  qed
qed

lemma nearest_ancestor_None:
  "nearest_ancestor sel p = None \<Longrightarrow> s \<in> set sel \<Longrightarrow> \<not> strict_prefix (cs s) (cs p)"
proof (induction sel p rule: nearest_ancestor.induct)
  case (1 sel p)
  show ?case
  proof (cases "parent_dir p")
    case None
    have "cs s \<noteq> []" by (rule split_on_ne)
    then show ?thesis using parent_dir_None [OF None] by (auto simp: strict_prefix_def prefix_Cons)
  next
    case (Some q)
    then obtain r where r: "cs p = cs q @ [r]" using parent_dir_cs by blast
    have q: "q \<notin> set sel" "nearest_ancestor sel q = None"
      using 1(2) Some by (auto simp: nearest_ancestor.simps [of sel p] split: if_splits)
    have "\<not> strict_prefix (cs s) (cs q)" using 1(1) [OF Some q 1(3)] .
    moreover have "cs s \<noteq> cs q" using q 1(3) cs_inj by metis
    ultimately show ?thesis using r by (metis prefix_snoc strict_prefix_def)
  qed
qed

subsection \<open>What a split adds\<close>

lemma set_siblings: "c \<in> set (siblings mp dir nm) \<longleftrightarrow> c \<noteq> [] \<and> c \<noteq> nm \<and> (\<exists>m \<in> set mp. prefix (cs dir @ [c]) (cs m))"
proof -
  have "prefix (cs dir @ [c]) (cs m) \<longleftrightarrow> starts_with m (dir @ ''/'') \<and> c = hd (cs (drop (length dir + 1) m))" for m
  proof
    assume "starts_with m (dir @ ''/'') \<and> c = hd (cs (drop (length dir + 1) m))"
    then obtain r where "m = dir @ CHR ''/'' # r" "c = hd (cs r)" by (auto simp: prefix_def)
    then show "prefix (cs dir @ [c]) (cs m)" by (cases "cs r") (auto simp: cs_sep)
  next
    assume p: "prefix (cs dir @ [c]) (cs m)"
    then have "covers dir m" by (auto simp: covers_prefix prefix_def)
    moreover have "m \<noteq> dir" using p by (auto simp: prefix_def)
    ultimately obtain r where r: "m = dir @ CHR ''/'' # r" by (auto simp: covers_def prefix_def)
    then have "prefix [c] (cs r)" using p by (simp add: cs_sep)
    then show "starts_with m (dir @ ''/'') \<and> c = hd (cs (drop (length dir + 1) m))" using r by (auto simp: prefix_def)
  qed
  then show ?thesis by (auto simp: siblings_def Let_def)
qed

lemma set_fold_insert: "set (fold (\<lambda>c. List.insert (f c)) xs sel) = f ` set xs \<union> set sel"
  by (induction xs arbitrary: sel) auto

text \<open>The entries that a split of \<open>dir\<close> along \<open>comps\<close> adds, as component lists.\<close>

definition branches :: "string list \<Rightarrow> string list \<Rightarrow> string list \<Rightarrow> string list set" where
  "branches mp dir comps = {d. \<exists>pre nm post c. comps = pre @ nm # post \<and> d = dir @ pre @ [c] \<and> c \<noteq> [] \<and> c \<noteq> nm
     \<and> (\<exists>m \<in> set mp. prefix d (cs m))}"

lemma branches_Nil [simp]: "branches mp dir [] = {}"
  by (simp add: branches_def)

lemma branches_Cons:
  "branches mp dir (nm # comps) =
     {dir @ [c] |c. c \<noteq> [] \<and> c \<noteq> nm \<and> (\<exists>m \<in> set mp. prefix (dir @ [c]) (cs m))} \<union> branches mp (dir @ [nm]) comps"
  unfolding branches_def by (auto simp: Cons_eq_append_conv)

lemma cs_child: "CHR ''/'' \<notin> set c \<Longrightarrow> cs (dir @ CHR ''/'' # c) = cs dir @ [c]"
  by (simp add: cs_sep split_on_no_sep)

lemma split_down_branches:
  assumes "\<forall>c \<in> set comps. CHR ''/'' \<notin> set c"
  shows "cs ` set (split_down mp dir comps sel) = cs ` set sel \<union> branches mp (cs dir) comps"
  using assms
proof (induction comps arbitrary: dir sel)
  case (Cons nm comps)
  let ?sel = "fold (\<lambda>c. List.insert (dir @ ''/'' @ c)) (siblings mp dir nm) sel"
  have nf: "CHR ''/'' \<notin> set c" if "c \<in> set (siblings mp dir nm)" for c
  proof -
    obtain m zs where "cs m = (cs dir @ [c]) @ zs" using \<open>c \<in> set (siblings mp dir nm)\<close> by (auto simp: set_siblings prefix_def)
    then have "c \<in> set (cs m)" by simp
    then show ?thesis by (rule split_on_parts)
  qed
  have "cs ` set ?sel = (\<lambda>c. cs (dir @ CHR ''/'' # c)) ` set (siblings mp dir nm) \<union> cs ` set sel"
    by (auto simp: set_fold_insert)
  also have "(\<lambda>c. cs (dir @ CHR ''/'' # c)) ` set (siblings mp dir nm) = (\<lambda>c. cs dir @ [c]) ` set (siblings mp dir nm)"
    by (rule image_cong [OF refl]) (simp add: cs_child nf)
  finally have 1: "cs ` set ?sel = (\<lambda>c. cs dir @ [c]) ` set (siblings mp dir nm) \<union> cs ` set sel" .
  have 2: "cs (dir @ ''/'' @ nm) = cs dir @ [nm]" using Cons.prems by (simp add: cs_child)
  have "set (siblings mp dir nm) = {c. c \<noteq> [] \<and> c \<noteq> nm \<and> (\<exists>m \<in> set mp. prefix (cs dir @ [c]) (cs m))}"
    by (rule set_eqI) (simp only: set_siblings mem_Collect_eq)
  then have 3: "(\<lambda>c. cs dir @ [c]) ` set (siblings mp dir nm) =
      {cs dir @ [c] |c. c \<noteq> [] \<and> c \<noteq> nm \<and> (\<exists>m \<in> set mp. prefix (cs dir @ [c]) (cs m))}"
    by (simp only: setcompr_eq_image)
  have 4: "cs ` set (split_down mp (dir @ ''/'' @ nm) comps ?sel) = cs ` set ?sel \<union> branches mp (cs (dir @ ''/'' @ nm)) comps"
    using Cons.prems by (intro Cons.IH) simp
  show ?case unfolding split_down.simps branches_Cons 4 1 2 3 by (simp only: Un_ac)
qed simp

lemma branch_not_above:
  assumes "d \<in> branches mp dir comps"
  shows "\<not> prefix d (dir @ comps) \<and> \<not> prefix (dir @ comps) d \<and> strict_prefix dir d"
  using assms by (auto simp: branches_def strict_prefix_def prefix_def Cons_eq_append_conv append_eq_append_conv2)

subsection \<open>The loop\<close>

definition split_ancestor :: "string list \<Rightarrow> string \<Rightarrow> string \<Rightarrow> string list \<Rightarrow> string list" where
  "split_ancestor manifest_paths target a sel =
     split_down manifest_paths a (split_on CHR ''/'' (drop (length a + 1) target)) (removeAll a sel)"

lemma split_ancestor_cs:
  assumes "strict_prefix (cs a) (cs target)"
  shows "\<exists>comps. cs target = cs a @ comps \<and> comps \<noteq> [] \<and>
    cs ` set (split_ancestor mp target a sel) = (cs ` set sel - {cs a}) \<union> branches mp (cs a) comps"
proof -
  have "covers a target" "target \<noteq> a" using assms by (auto simp: covers_prefix strict_prefix_def)
  then obtain r where r: "target = a @ CHR ''/'' # r" by (auto simp: covers_def prefix_def)
  have "cs ` set (removeAll a sel) = cs ` set sel - {cs a}" by (auto simp: cs_inj)
  then show ?thesis
    using r split_on_parts by (intro exI [of _ "cs r"]) (simp add: cs_sep split_ancestor_def split_down_branches)
qed

text \<open>Every turn of the loop takes one selected ancestor of the target away and adds none.\<close>

definition ancestors_in :: "string \<Rightarrow> string list \<Rightarrow> string list set" where
  "ancestors_in target sel = {d \<in> cs ` set sel. strict_prefix d (cs target)}"

lemma split_ancestor_decreases:
  assumes "nearest_ancestor sel target = Some a"
  shows "ancestors_in target (split_ancestor mp target a sel) = ancestors_in target sel - {cs a} \<and> cs a \<in> ancestors_in target sel"
proof -
  have a: "a \<in> set sel" "strict_prefix (cs a) (cs target)" using nearest_ancestor_Some [OF assms] by auto
  obtain comps where c: "cs target = cs a @ comps"
      "cs ` set (split_ancestor mp target a sel) = (cs ` set sel - {cs a}) \<union> branches mp (cs a) comps"
    using split_ancestor_cs [OF a(2)] by blast
  have "\<not> strict_prefix d (cs target)" if "d \<in> branches mp (cs a) comps" for d
    using branch_not_above [OF that] c(1) by (auto simp: strict_prefix_def)
  then show ?thesis using a c(2) by (auto simp: ancestors_in_def)
qed

function expand_loop :: "string list \<Rightarrow> string \<Rightarrow> string list \<Rightarrow> string list" where
  "expand_loop manifest_paths target sel = (case nearest_ancestor sel target of
      None \<Rightarrow> sel
    | Some a \<Rightarrow> expand_loop manifest_paths target (split_ancestor manifest_paths target a sel))"
  by pat_completeness auto
termination
proof (relation "measure (\<lambda>(mp, target, sel). card (ancestors_in target sel))")
  fix mp target sel a
  assume n: "nearest_ancestor sel target = Some a"
  have "finite (ancestors_in target sel)" by (simp add: ancestors_in_def)
  then show "((mp, target, split_ancestor mp target a sel), mp, target, sel) \<in> measure (\<lambda>(mp, target, sel). card (ancestors_in target sel))"
    using split_ancestor_decreases [OF n, of mp] card_Diff1_less [of "ancestors_in target sel" "cs a"] by simp
qed simp

declare expand_loop.simps [simp del]

definition expand_deselect :: "string list \<Rightarrow> string list \<Rightarrow> string \<Rightarrow> string list" where
  "expand_deselect selection manifest_paths target =
     expand_loop manifest_paths target
       (filter (\<lambda>s. s \<noteq> target \<and> \<not> starts_with s (target @ ''/'')) selection)"

section \<open>Deselecting takes out exactly the target\<close>

lemma branch_covers:
  assumes "m \<in> set mp" and "[] \<notin> set (cs m)" and "prefix dir (cs m)" and "cs m \<parallel> dir @ comps"
  shows "\<exists>d \<in> branches mp dir comps. prefix d (cs m)"
proof -
  obtain ms where ms: "cs m = dir @ ms" using assms(3) by (auto simp: prefix_def)
  then have "ms \<parallel> comps" using assms(4) by (simp add: parallel_def)
  then obtain as b bs c es where d: "b \<noteq> c" "ms = as @ b # bs" "comps = as @ c # es" using parallel_decomp by blast
  have "dir @ as @ [b] \<in> branches mp dir comps"
    unfolding branches_def using d ms assms(1,2)
    by (intro CollectI exI [of _ as] exI [of _ c] exI [of _ es] exI [of _ b]) (auto simp: prefix_def)
  then show ?thesis using ms d by (intro bexI [of _ "dir @ as @ [b]"]) (auto simp: prefix_def)
qed

definition off_target :: "string \<Rightarrow> string list \<Rightarrow> bool" where
  "off_target target sel \<longleftrightarrow> (\<forall>d \<in> cs ` set sel. \<not> prefix (cs target) d)"

lemma split_ancestor_coverage:
  assumes "nearest_ancestor sel target = Some a" and "off_target target sel"
  shows "off_target target (split_ancestor mp target a sel)"
    and "m \<in> set mp \<Longrightarrow> [] \<notin> set (cs m) \<Longrightarrow> cs m \<parallel> cs target \<Longrightarrow>
      (\<exists>d \<in> cs ` set (split_ancestor mp target a sel). prefix d (cs m)) \<longleftrightarrow> (\<exists>d \<in> cs ` set sel. prefix d (cs m))"
proof -
  have a: "a \<in> set sel" "strict_prefix (cs a) (cs target)" using nearest_ancestor_Some [OF assms(1)] by auto
  obtain comps where c: "cs target = cs a @ comps"
      "cs ` set (split_ancestor mp target a sel) = (cs ` set sel - {cs a}) \<union> branches mp (cs a) comps"
    using split_ancestor_cs [OF a(2)] by blast
  have br: "\<not> prefix (cs target) d" "prefix (cs a) d" if "d \<in> branches mp (cs a) comps" for d
    using branch_not_above [OF that] c(1) by (auto simp: strict_prefix_def)
  show "off_target target (split_ancestor mp target a sel)"
    using assms(2) br(1) c(2) by (auto simp: off_target_def)
  assume m: "m \<in> set mp" "[] \<notin> set (cs m)" "cs m \<parallel> cs target"
  show "(\<exists>d \<in> cs ` set (split_ancestor mp target a sel). prefix d (cs m)) \<longleftrightarrow> (\<exists>d \<in> cs ` set sel. prefix d (cs m))"
  proof
    assume "\<exists>d \<in> cs ` set (split_ancestor mp target a sel). prefix d (cs m)"
    then obtain d where d: "d \<in> cs ` set (split_ancestor mp target a sel)" "prefix d (cs m)" by blast
    show "\<exists>d \<in> cs ` set sel. prefix d (cs m)"
    proof (cases "d \<in> cs ` set sel")
      case False
      then have "d \<in> branches mp (cs a) comps" using d(1) unfolding c(2) by blast
      then have "prefix (cs a) (cs m)" using br(2) d(2) prefix_order.trans by blast
      then show ?thesis using a(1) by blast
    qed (use d(2) in blast)
  next
    assume "\<exists>d \<in> cs ` set sel. prefix d (cs m)"
    then obtain d where d: "d \<in> cs ` set sel" "prefix d (cs m)" by blast
    show "\<exists>d \<in> cs ` set (split_ancestor mp target a sel). prefix d (cs m)"
    proof (cases "d = cs a")
      case True
      then obtain e where "e \<in> branches mp (cs a) comps" "prefix e (cs m)"
        using branch_covers [OF m(1,2), of "cs a" comps] d(2) m(3) c(1) by auto
      then show ?thesis unfolding c(2) by blast
    qed (use d c(2) in blast)
  qed
qed

lemma expand_loop_spec:
  assumes "off_target target sel"
  shows "off_target target (expand_loop mp target sel) \<and> ancestors_in target (expand_loop mp target sel) = {} \<and>
    (\<forall>m \<in> set mp. [] \<notin> set (cs m) \<and> cs m \<parallel> cs target \<longrightarrow>
      (\<exists>d \<in> cs ` set (expand_loop mp target sel). prefix d (cs m)) = (\<exists>d \<in> cs ` set sel. prefix d (cs m)))"
  using assms
proof (induction mp target sel rule: expand_loop.induct)
  case (1 mp target sel)
  show ?case
  proof (cases "nearest_ancestor sel target")
    case None
    then have e: "expand_loop mp target sel = sel" by (simp add: expand_loop.simps)
    have "ancestors_in target sel = {}" using nearest_ancestor_None [OF None] by (auto simp: ancestors_in_def)
    then show ?thesis using 1(2) by (simp add: e)
  next
    case (Some a)
    then have e: "expand_loop mp target sel = expand_loop mp target (split_ancestor mp target a sel)"
      by (simp add: expand_loop.simps [of mp target sel])
    note ih = 1(1) [OF Some split_ancestor_coverage(1) [OF Some 1(2)]]
    have "(\<exists>d \<in> cs ` set (expand_loop mp target sel). prefix d (cs m)) = (\<exists>d \<in> cs ` set sel. prefix d (cs m))"
      if "m \<in> set mp" "[] \<notin> set (cs m)" "cs m \<parallel> cs target" for m
      using ih [THEN conjunct2, THEN conjunct2, THEN bspec, OF that(1)] that(2,3)
        split_ancestor_coverage(2) [OF Some 1(2) that] unfolding e by simp
    then show ?thesis using ih [THEN conjunct1] ih [THEN conjunct2, THEN conjunct1] unfolding e by simp
  qed
qed

lemma bex_cs: "(\<exists>d \<in> cs ` set sel. prefix d (cs m)) \<longleftrightarrow> path_selected m (Some sel)"
  by (simp add: path_selected_covers covers_prefix)

text \<open>
  C33. Unticking takes out exactly what was unticked: after a path is deselected, a file of the manifest is selected if and only
  if it was selected before and is neither the path itself nor below it, however many folders
  above the path were ticked. (The manifest's paths have no empty components, and no file of it is a folder above the path.)
\<close>

theorem deselect_exact:
  assumes "m \<in> set manifest_paths" and "[] \<notin> set (split_on CHR ''/'' m)" and "\<not> starts_with target (m @ ''/'')"
  shows "path_selected m (Some (expand_deselect selection manifest_paths target)) \<longleftrightarrow>
    path_selected m (Some selection) \<and> m \<noteq> target \<and> \<not> starts_with m (target @ ''/'')"
proof -
  let ?init = "filter (\<lambda>s. s \<noteq> target \<and> \<not> starts_with s (target @ ''/'')) selection"
  let ?r = "expand_loop manifest_paths target ?init"
  have off: "off_target target ?init" by (auto simp: off_target_def covers_prefix [symmetric] covers_def)
  note spec = expand_loop_spec [OF off, of manifest_paths]
  show ?thesis
  proof (cases "covers target m")
    case True
    have "\<not> prefix d (cs m)" if "d \<in> cs ` set ?r" for d
    proof
      assume "prefix d (cs m)"
      then have "prefix d (cs target) \<or> prefix (cs target) d" using True prefix_same_cases by (auto simp: covers_prefix)
      moreover have "\<not> prefix (cs target) d" using conjunct1 [OF spec] that unfolding off_target_def by blast
      ultimately have "d \<in> ancestors_in target ?r" using that by (auto simp: ancestors_in_def strict_prefix_def)
      then show False using spec by simp
    qed
    then have "\<not> path_selected m (Some ?r)" unfolding bex_cs [symmetric] by blast
    then show ?thesis using True by (auto simp: expand_deselect_def covers_def)
  next
    case False
    have "\<not> strict_prefix (cs m) (cs target)" using assms(3) covers_prefix [of m target]
      by (auto simp: covers_def strict_prefix_def cs_inj)
    then have par: "cs m \<parallel> cs target" using False by (auto simp: covers_prefix parallel_def strict_prefix_def)
    have "path_selected m (Some ?r) = path_selected m (Some ?init)"
      using spec assms(1,2) par by (simp only: bex_cs) blast
    also have "\<dots> = path_selected m (Some selection)"
    proof -
      have "\<not> covers s m" if "covers target s" for s
        using that False by (auto simp: covers_prefix dest: prefix_order.trans)
      then show ?thesis by (auto simp: path_selected_covers covers_def)
    qed
    finally show ?thesis using False by (auto simp: expand_deselect_def covers_def)
  qed
qed

theorem deselect_exact_witness:
  "path_selected ''a/b/x'' (Some (expand_deselect [''a'', ''a/b''] [''a/b/x'', ''a/b/y'', ''a/c''] ''a/b/y'')) \<and>
   \<not> path_selected ''a/b/y'' (Some (expand_deselect [''a'', ''a/b''] [''a/b/x'', ''a/b/y'', ''a/c''] ''a/b/y''))"
  using deselect_exact [of "''a/b/x''" "[''a/b/x'', ''a/b/y'', ''a/c'']" "''a/b/y''" "[''a'', ''a/b'']"]
    deselect_exact [of "''a/b/y''" "[''a/b/x'', ''a/b/y'', ''a/c'']" "''a/b/y''" "[''a'', ''a/b'']"]
  by (simp add: path_selected_def)

section \<open>A plan leads to the mirror\<close>

text \<open>
  A plan is carried out when every fetched path holds a file that matches its manifest entry, the deleted paths are
  gone and the other files are as they were.
\<close>

abbreviation held_at :: "local_file list \<Rightarrow> string \<Rightarrow> local_file option" where
  "held_at loc \<equiv> map_of (rev (map (\<lambda>f. (lf_path f, f)) loc))"

definition carried_out :: "sync_plan \<Rightarrow> local_file list \<Rightarrow> local_file list \<Rightarrow> bool" where
  "carried_out p loc loc' \<longleftrightarrow>
     list_all (\<lambda>e. held_at loc' (se_path e) \<noteq> None \<and> \<not> needs_fetch (held_at loc' (se_path e)) e) (sp_fetch p) \<and>
     list_all (\<lambda>q. held_at loc' q = None) (sp_delete p) \<and>
     list_all (\<lambda>q. q \<in> set (map se_path (sp_fetch p)) \<or> q \<in> set (sp_delete p) \<or> held_at loc' q = held_at loc q)
       (map lf_path loc @ map lf_path loc')"

lemma held_at_None: "held_at loc q = None \<longleftrightarrow> q \<notin> lf_path ` set loc"
  by (force simp: map_of_eq_None_iff)

lemma set_sp_fetch:
  "set (sp_fetch (plan_with_selection manifest loc sel)) =
     {e \<in> set manifest. path_selected (se_path e) sel \<and> needs_fetch (held_at loc (se_path e)) e}"
  by (auto simp: plan_with_selection_def Let_def)

lemma set_sp_delete:
  "set (sp_delete (plan_with_selection manifest loc sel)) =
     lf_path ` set loc - se_path ` {e \<in> set manifest. path_selected (se_path e) sel}"
  by (auto simp: plan_with_selection_def Let_def)

lemma needs_fetch_None [simp]: "needs_fetch None e"
  by (simp add: needs_fetch_def)

lemma plan_is_empty_sets: "plan_is_empty p \<longleftrightarrow> set (sp_fetch p) = {} \<and> set (sp_delete p) = {}"
  by (simp add: plan_is_empty_def)

lemma carried_out_converges:
  assumes "distinct (map se_path manifest)"
    and "carried_out (plan_with_selection manifest loc sel) loc loc'"
  shows "plan_is_empty (plan_with_selection manifest loc' sel) \<and>
    set (map lf_path loc') = set (map se_path (filter (\<lambda>e. path_selected (se_path e) sel) manifest))"
proof -
  let ?p = "plan_with_selection manifest loc sel"
  have fetched: "held_at loc' (se_path e) \<noteq> None \<and> \<not> needs_fetch (held_at loc' (se_path e)) e" if "e \<in> set (sp_fetch ?p)" for e
    using assms(2) that by (simp add: carried_out_def list_all_iff)
  have gone: "held_at loc' q = None" if "q \<in> set (sp_delete ?p)" for q
    using assms(2) that by (simp add: carried_out_def list_all_iff)
  have kept: "held_at loc' q = held_at loc q"
    if "q \<notin> se_path ` set (sp_fetch ?p)" "q \<notin> set (sp_delete ?p)" "q \<in> lf_path ` set loc \<union> lf_path ` set loc'" for q
    using assms(2) that by (auto simp: carried_out_def list_all_iff)
  have ok: "\<not> needs_fetch (held_at loc' (se_path e)) e" if e: "e \<in> set manifest" "path_selected (se_path e) sel" for e
  proof (cases "e \<in> set (sp_fetch ?p)")
    case False
    then have n: "\<not> needs_fetch (held_at loc (se_path e)) e" using e by (simp add: set_sp_fetch)
    then have "held_at loc (se_path e) \<noteq> None" using needs_fetch_None by metis
    then have q: "se_path e \<in> lf_path ` set loc" unfolding held_at_None by simp
    have "se_path e \<notin> se_path ` set (sp_fetch ?p)"
    proof
      assume "se_path e \<in> se_path ` set (sp_fetch ?p)"
      then obtain e' where e': "e' \<in> set (sp_fetch ?p)" "se_path e' = se_path e" by auto
      then have "e' = e" using e(1) assms(1) by (auto simp: set_sp_fetch distinct_map dest: inj_onD)
      then show False using e' False by simp
    qed
    moreover have "se_path e \<notin> set (sp_delete ?p)" using e by (auto simp: set_sp_delete)
    ultimately show ?thesis using n kept [of "se_path e"] q by simp
  qed (use fetched in blast)
  have sub: "q \<in> se_path ` {e \<in> set manifest. path_selected (se_path e) sel}" if q: "q \<in> lf_path ` set loc'" for q
  proof (rule ccontr)
    assume n: "q \<notin> se_path ` {e \<in> set manifest. path_selected (se_path e) sel}"
    then have "q \<notin> se_path ` set (sp_fetch ?p)" by (auto simp: set_sp_fetch)
    moreover have "held_at loc' q \<noteq> None" using q by (simp only: held_at_None not_not)
    moreover have d: "q \<notin> set (sp_delete ?p)" using gone [of q] calculation by auto
    ultimately have "held_at loc q \<noteq> None" using kept [of q] q by (metis UnI2)
    then have "q \<in> lf_path ` set loc" unfolding held_at_None by simp
    then show False using n d by (simp add: set_sp_delete)
  qed
  have sup: "se_path e \<in> lf_path ` set loc'" if "e \<in> set manifest" "path_selected (se_path e) sel" for e
  proof -
    have "held_at loc' (se_path e) \<noteq> None" using ok [OF that] needs_fetch_None by metis
    then show ?thesis by (simp only: held_at_None not_not)
  qed
  have "plan_is_empty (plan_with_selection manifest loc' sel)"
    using ok sub by (auto simp: plan_is_empty_sets set_sp_fetch set_sp_delete)
  moreover have "lf_path ` set loc' = se_path ` {e \<in> set manifest. path_selected (se_path e) sel}"
    using sub sup by blast
  ultimately show ?thesis by simp
qed

text \<open>
  The mirror converges in one step: once a plan has been carried out, the local files are exactly the selected files of
  the manifest and the next plan against the same manifest is empty, whatever was there before and whatever the
  selection. (The manifest lists each path once.)
\<close>

theorem plan_converges:
  assumes "distinct (map se_path manifest)"
    and "carried_out (plan_with_selection manifest loc sel) loc loc'"
  shows "plan_is_empty (plan_with_selection manifest loc' sel) \<and>
    set (map lf_path loc') = set (map se_path (filter (\<lambda>e. path_selected (se_path e) sel) manifest))"
  using assms by (rule carried_out_converges)

definition demo_manifest :: "share_entry list" where
  "demo_manifest = [\<lparr>se_path = ''a'', se_size = 1, se_mtime = 0, se_sha256 = ''00'', se_meta = None\<rparr>,
     \<lparr>se_path = ''d/b'', se_size = 2, se_mtime = 0, se_sha256 = [], se_meta = None\<rparr>]"

definition demo_before :: "local_file list" where
  "demo_before = [\<lparr>lf_path = ''a'', lf_sha256 = ''01'', lf_size = 1\<rparr>, \<lparr>lf_path = ''old'', lf_sha256 = ''01'', lf_size = 1\<rparr>]"

definition demo_after :: "local_file list" where
  "demo_after = [\<lparr>lf_path = ''a'', lf_sha256 = ''00'', lf_size = 1\<rparr>]"

theorem plan_converges_witness:
  "plan_is_empty (plan_with_selection demo_manifest demo_after (Some [''a''])) \<and>
   set (map lf_path demo_after) = set (map se_path (filter (\<lambda>e. path_selected (se_path e) (Some [''a''])) demo_manifest))"
proof (rule plan_converges)
  show "distinct (map se_path demo_manifest)" by code_simp
  show "carried_out (plan_with_selection demo_manifest demo_before (Some [''a''])) demo_before demo_after" by code_simp
qed

section \<open>No path leaves the root\<close>

lemma push_components_Some:
  "push_components comps out n = Some (out', n') \<Longrightarrow>
     (\<exists>ks. out' = out @ ks \<and> n' = n + length ks \<and> set ks \<subseteq> set comps - {[], ''.'', ''..''})"
proof (induction comps out n rule: push_components.induct)
  case (2 nm comps out n)
  show ?case
  proof (cases "nm = [] \<or> nm = ''.''")
    case True
    then show ?thesis using 2 by auto
  next
    case False
    then have nd: "nm \<noteq> ''..''" and "push_components comps (out @ [nm]) (n + 1) = Some (out', n')"
      using "2.prems" by (auto split: if_splits)
    then obtain ks where "out' = out @ nm # ks" "n' = n + 1 + length ks" "set ks \<subseteq> set comps - {[], ''.'', ''..''}"
      using "2.IH"(2) [OF False nd] by auto
    then show ?thesis using False nd by (intro exI [of _ "nm # ks"]) auto
  qed
qed simp

lemma safe_dest_Some:
  assumes "safe_dest root rel = Some out"
  shows "\<exists>ks. out = root @ ks \<and> ks \<noteq> [] \<and>
    list_all (\<lambda>k. k \<notin> {[], ''.'', ''..''} \<and> CHR ''/'' \<notin> set k \<and> CHR 0x5C \<notin> set k \<and> CHR 0x00 \<notin> set k) ks"
proof -
  obtain n where n: "CHR 0x5C \<notin> set rel" "CHR 0x00 \<notin> set rel" "n \<noteq> 0"
      "push_components (cs rel) root 0 = Some (out, n)"
    using assms by (auto simp: safe_dest_def split: if_splits option.splits)
  then obtain ks where ks: "out = root @ ks" "n = length ks" "set ks \<subseteq> set (cs rel) - {[], ''.'', ''..''}"
    using push_components_Some [OF n(4)] by auto
  have sub: "set k \<subseteq> set rel \<and> CHR ''/'' \<notin> set k" if "k \<in> set ks" for k
    using ks(3) that split_on_parts [of k "CHR ''/''" rel] split_on_chars [of k "CHR ''/''" rel] by blast
  show ?thesis
    using ks n sub by (intro exI [of _ ks]) (auto simp: list_all_iff subset_eq)
qed

text \<open>
  C34. A manifest path never leads out of the folder: where \<^verbatim>\<open>safe_dest\<close> gives a place at all, the place is the root
  followed by at least one further component, and none of these is empty, a dot or two dots or has a slash, a backslash
  or a zero byte in it.
\<close>

theorem safe_dest_inside:
  assumes "safe_dest root rel = Some out"
  shows "\<exists>ks. out = root @ ks \<and> ks \<noteq> [] \<and>
    list_all (\<lambda>k. k \<notin> {[], ''.'', ''..''} \<and> CHR ''/'' \<notin> set k \<and> CHR 0x5C \<notin> set k \<and> CHR 0x00 \<notin> set k) ks"
  using assms by (rule safe_dest_Some)

theorem safe_dest_inside_witness:
  "safe_dest [''srv''] ''./a//b'' = Some [''srv'', ''a'', ''b''] \<and>
   (\<exists>ks. [''srv'', ''a'', ''b''] = [''srv''] @ ks \<and> ks \<noteq> [] \<and>
     list_all (\<lambda>k. k \<notin> {[], ''.'', ''..''} \<and> CHR ''/'' \<notin> set k \<and> CHR 0x5C \<notin> set k \<and> CHR 0x00 \<notin> set k) ks)"
  using safe_dest_inside [of "[''srv'']" "''./a//b''" "[''srv'', ''a'', ''b'']"] by (simp add: safe_dest_def)

end
