(* ===== verification/Transfer_Control.thy ===== *)
theory Transfer_Control
  imports XR_Prelude
begin

text \<open>
  The process-wide transfer control of \<^verbatim>\<open>xr-core/src/sync.rs\<close>: one transfer at a time, progress counters, and cancelling by
  number. Its fields are atomics that several threads use without a lock, so every load and store of
  \<^verbatim>\<open>TransferGuard::acquire\<close>, its \<^verbatim>\<open>Drop\<close>, \<^verbatim>\<open>transfer_cancel\<close> and \<^verbatim>\<open>transfer_cancelled\<close> is a step of its own and the steps of
  different threads interleave freely, each taking effect in one order that all threads see; most of the
  source's accesses are only \<^verbatim>\<open>Relaxed\<close>, which promises such an order for each field by itself.

  The theorems: a transfer is told to stop only when its own number was asked for after it started; and a run in which
  a cancel that was answered with success has no effect.
\<close>

section \<open>The shared fields\<close>

record transfer_control =
  tc_active :: bool
  tc_id :: u64
  tc_cancel :: u64
  tc_bytes_done :: u64
  tc_bytes_total :: u64
  tc_files_done :: u64
  tc_files_total :: u64
  tc_file :: string
  tc_share :: string
  next_transfer_id :: u64

definition transfer_control_new :: transfer_control where
  "transfer_control_new = \<lparr>tc_active = False, tc_id = 0, tc_cancel = 0, tc_bytes_done = 0, tc_bytes_total = 0,
     tc_files_done = 0, tc_files_total = 0, tc_file = [], tc_share = [], next_transfer_id = 1\<rparr>"

datatype store = StoreActive bool | StoreId u64 | StoreCancel u64 | StoreBytesDone u64 | StoreBytesTotal u64
  | StoreFilesDone u64 | StoreFilesTotal u64 | StoreFile string | StoreShare string

fun run_store :: "store \<Rightarrow> transfer_control \<Rightarrow> transfer_control" where
  "run_store (StoreActive b) tc = tc\<lparr>tc_active := b\<rparr>"
| "run_store (StoreId v) tc = tc\<lparr>tc_id := v\<rparr>"
| "run_store (StoreCancel v) tc = tc\<lparr>tc_cancel := v\<rparr>"
| "run_store (StoreBytesDone v) tc = tc\<lparr>tc_bytes_done := v\<rparr>"
| "run_store (StoreBytesTotal v) tc = tc\<lparr>tc_bytes_total := v\<rparr>"
| "run_store (StoreFilesDone v) tc = tc\<lparr>tc_files_done := v\<rparr>"
| "run_store (StoreFilesTotal v) tc = tc\<lparr>tc_files_total := v\<rparr>"
| "run_store (StoreFile v) tc = tc\<lparr>tc_file := v\<rparr>"
| "run_store (StoreShare v) tc = tc\<lparr>tc_share := v\<rparr>"

text \<open>What \<^verbatim>\<open>acquire\<close> stores once it has won the swap and drawn a number, and what the drop of a guard stores, in order.\<close>

definition acquire_stores :: "u64 \<Rightarrow> string \<Rightarrow> u64 \<Rightarrow> u64 \<Rightarrow> store list" where
  "acquire_stores i share_id files_total bytes_total =
     [StoreId i, StoreCancel 0, StoreBytesDone 0, StoreBytesTotal bytes_total, StoreFilesDone 0,
      StoreFilesTotal files_total, StoreFile [], StoreShare share_id]"

definition drop_stores :: "store list" where
  "drop_stores = [StoreId 0, StoreCancel 0, StoreBytesDone 0, StoreBytesTotal 0, StoreFilesDone 0, StoreFilesTotal 0,
     StoreFile [], StoreShare [], StoreActive False]"

definition transfer_file_stores :: "string \<Rightarrow> u64 \<Rightarrow> store list" where
  "transfer_file_stores path i = [StoreFile path, StoreFilesDone i]"

definition transfer_add_bytes :: "u64 \<Rightarrow> transfer_control \<Rightarrow> transfer_control" where
  "transfer_add_bytes n tc = tc\<lparr>tc_bytes_done := tc_bytes_done tc + n\<rparr>"

record transfer_snapshot =
  ts_active :: bool
  ts_id :: u64
  ts_cancelled :: bool
  ts_share :: string
  ts_file :: string
  ts_files_done :: u64
  ts_files_total :: u64
  ts_bytes_done :: u64
  ts_bytes_total :: u64

text \<open>The calls with nothing in between, which is what a thread sees when no other one runs.\<close>

definition transfer_cancelled :: "transfer_control \<Rightarrow> bool" where
  "transfer_cancelled tc \<longleftrightarrow> tc_id tc \<noteq> 0 \<and> tc_cancel tc = tc_id tc"

definition transfer_take_snapshot :: "transfer_control \<Rightarrow> transfer_snapshot" where
  "transfer_take_snapshot tc = \<lparr>ts_active = tc_active tc, ts_id = tc_id tc, ts_cancelled = transfer_cancelled tc,
     ts_share = tc_share tc, ts_file = tc_file tc, ts_files_done = tc_files_done tc, ts_files_total = tc_files_total tc,
     ts_bytes_done = tc_bytes_done tc, ts_bytes_total = tc_bytes_total tc\<rparr>"

definition transfer_acquire :: "string \<Rightarrow> u64 \<Rightarrow> u64 \<Rightarrow> transfer_control \<Rightarrow> u64 option \<times> transfer_control" where
  "transfer_acquire share_id files_total bytes_total tc =
     (if tc_active tc then (None, tc)
      else let i = next_transfer_id tc in
        (Some i, fold run_store (acquire_stores i share_id files_total bytes_total)
           (tc\<lparr>tc_active := True, next_transfer_id := i + 1\<rparr>)))"

definition transfer_drop :: "transfer_control \<Rightarrow> transfer_control" where
  "transfer_drop tc = fold run_store drop_stores tc"

definition transfer_cancel :: "u64 \<Rightarrow> transfer_control \<Rightarrow> bool \<times> transfer_control" where
  "transfer_cancel i tc =
     (if i = 0 \<or> tc_id tc \<noteq> i then (False, tc)
      else let tc1 = tc\<lparr>tc_cancel := i\<rparr> in (tc_id tc1 = i, tc1))"

section \<open>Threads\<close>

text \<open>
  Where a thread stands. \<open>Claimed\<close>: has won the swap and not drawn its number. \<open>Setting\<close> and
  \<open>Clearing\<close>: with the stores still to do. \<open>Holding\<close>: owns the guard of that number, with the last answer of
  \<^verbatim>\<open>transfer_cancelled\<close>. \<open>Looking\<close>: in that call, with the number it has loaded. \<open>Asking\<close>, \<open>Checked\<close>, \<open>Stored\<close>,
  \<open>Answered\<close>: in \<^verbatim>\<open>transfer_cancel\<close>, before the first load, the store, the second load and the return.
\<close>

datatype thread = Outside
  | Claimed string u64 u64 | Setting u64 "store list" | Holding u64 bool | Looking u64 u64 | Clearing "store list"
  | Asking u64 | Checked u64 | Stored u64 | Answered u64 bool

text \<open>\<open>wins\<close> and \<open>asked\<close> are for the statements only: how many swaps were won, and the numbers that passed
  the check of \<^verbatim>\<open>transfer_cancel\<close> since the last one.\<close>

record transfer_sys =
  ctl :: transfer_control
  threads :: "thread list"
  wins :: nat
  asked :: "u64 list"

datatype action = Spawn | CallAcquire string u64 u64 | CallCancel u64 | Look | AddBytes u64 | MarkFile string u64 | DropGuard | Go

fun go_move :: "thread \<Rightarrow> transfer_sys \<Rightarrow> (thread \<times> transfer_sys) option" where
  "go_move (Claimed sh f b) s =
     (let i = next_transfer_id (ctl s) in
      Some (Setting i (acquire_stores i sh f b), s\<lparr>ctl := (ctl s)\<lparr>next_transfer_id := i + 1\<rparr>\<rparr>))"
| "go_move (Setting i (x # xs)) s = Some (Setting i xs, s\<lparr>ctl := run_store x (ctl s)\<rparr>)"
| "go_move (Setting i []) s = Some (Holding i False, s)"
| "go_move (Looking i j) s = Some (Holding i (j \<noteq> 0 \<and> tc_cancel (ctl s) = j), s)"
| "go_move (Clearing (x # xs)) s =
     Some (if xs = [] then Outside else Clearing xs, s\<lparr>ctl := run_store x (ctl s)\<rparr>)"
| "go_move (Clearing []) s = None"
| "go_move (Asking i) s =
     (if i = 0 \<or> tc_id (ctl s) \<noteq> i then Some (Answered i False, s) else Some (Checked i, s\<lparr>asked := i # asked s\<rparr>))"
| "go_move (Checked i) s = Some (Stored i, s\<lparr>ctl := (ctl s)\<lparr>tc_cancel := i\<rparr>\<rparr>)"
| "go_move (Stored i) s = Some (Answered i (tc_id (ctl s) = i), s)"
| "go_move (Answered i b) s = Some (Outside, s)"
| "go_move Outside s = None"
| "go_move (Holding i b) s = None"

text \<open>What only the owner of a guard can call, with the number of its transfer.\<close>

definition owner_call :: "thread \<Rightarrow> (u64 \<Rightarrow> bool \<Rightarrow> thread \<times> transfer_sys) \<Rightarrow> (thread \<times> transfer_sys) option" where
  "owner_call t call = (case t of Holding i b \<Rightarrow> Some (call i b) | _ \<Rightarrow> None)"

fun thread_move :: "action \<Rightarrow> thread \<Rightarrow> transfer_sys \<Rightarrow> (thread \<times> transfer_sys) option" where
  "thread_move (CallAcquire sh f b) t s =
     (if t \<noteq> Outside then None
      else if tc_active (ctl s) then Some (Outside, s)
      else Some (Claimed sh f b, s\<lparr>ctl := (ctl s)\<lparr>tc_active := True\<rparr>, wins := wins s + 1, asked := []\<rparr>))"
| "thread_move (CallCancel i) t s = (if t \<noteq> Outside then None else Some (Asking i, s))"
| "thread_move Look t s = owner_call t (\<lambda>i b. (Looking i (tc_id (ctl s)), s))"
| "thread_move (AddBytes n) t s = owner_call t (\<lambda>i b. (Holding i b, s\<lparr>ctl := transfer_add_bytes n (ctl s)\<rparr>))"
| "thread_move (MarkFile p n) t s = owner_call t (\<lambda>i b. (Holding i b, s\<lparr>ctl := fold run_store (transfer_file_stores p n) (ctl s)\<rparr>))"
| "thread_move DropGuard t s = owner_call t (\<lambda>i b. (Clearing drop_stores, s))"
| "thread_move Go t s = go_move t s"
| "thread_move Spawn t s = None"

definition sys_move :: "nat \<times> action \<Rightarrow> transfer_sys \<Rightarrow> transfer_sys option" where
  "sys_move ka s = (case ka of (k, a) \<Rightarrow>
     if a = Spawn then Some (s\<lparr>threads := threads s @ [Outside]\<rparr>)
     else if k < length (threads s) then
       (case thread_move a (threads s ! k) s of
          None \<Rightarrow> None
        | Some (t, s') \<Rightarrow> Some (s'\<lparr>threads := (threads s)[k := t]\<rparr>))
     else None)"

definition transfer_init :: "transfer_sys \<Rightarrow> bool" where
  "transfer_init s \<longleftrightarrow> s = \<lparr>ctl = transfer_control_new, threads = [], wins = 0, asked = []\<rparr>"

definition transfer_step :: "transfer_sys \<Rightarrow> transfer_sys \<Rightarrow> bool" where
  "transfer_step s t \<longleftrightarrow> (\<exists>ka. sys_move ka s = Some t)"

fun run_schedule :: "(nat \<times> action) list \<Rightarrow> transfer_sys \<Rightarrow> transfer_sys option" where
  "run_schedule [] s = Some s"
| "run_schedule (ka # kas) s = (case sys_move ka s of None \<Rightarrow> None | Some t \<Rightarrow> run_schedule kas t)"

lemma run_schedule_reach:
  "reach transfer_init transfer_step s \<Longrightarrow> run_schedule kas s = Some t \<Longrightarrow> reach transfer_init transfer_step t"
proof (induction kas s rule: run_schedule.induct)
  case (2 ka kas s)
  then obtain u where u: "sys_move ka s = Some u" "run_schedule kas u = Some t" by (auto split: option.splits)
  have "transfer_step s u" using u(1) unfolding transfer_step_def by blast
  then show ?case using 2 u reach_step by metis
qed simp

section \<open>One owner, and numbers that are used once\<close>

fun owning :: "thread \<Rightarrow> bool" where
  "owning (Claimed _ _ _) = True"
| "owning (Setting _ _) = True"
| "owning (Holding _ _) = True"
| "owning (Looking _ _) = True"
| "owning (Clearing _) = True"
| "owning _ = False"

text \<open>A number that may be in the cancel field or on its way there: none, an earlier transfer's, or one asked for since.\<close>

definition accounted :: "transfer_sys \<Rightarrow> u64 \<Rightarrow> bool" where
  "accounted s i \<longleftrightarrow> unat i < wins s \<or> unat i = wins s \<and> (i = 0 \<or> i \<in> set (asked s))"

fun thread_ok :: "transfer_sys \<Rightarrow> thread \<Rightarrow> bool" where
  "thread_ok s (Claimed _ _ _) \<longleftrightarrow> tc_active (ctl s) \<and> 0 < wins s \<and> tc_id (ctl s) = 0 \<and> unat (next_transfer_id (ctl s)) = wins s"
| "thread_ok s (Setting i xs) \<longleftrightarrow> tc_active (ctl s) \<and> unat i = wins s \<and> unat (next_transfer_id (ctl s)) = wins s + 1 \<and>
     (\<exists>n sh f b. xs = drop n (acquire_stores i sh f b) \<and> tc_id (ctl s) = (if n = 0 then 0 else i))"
| "thread_ok s (Holding i b) \<longleftrightarrow> tc_active (ctl s) \<and> unat i = wins s \<and> unat (next_transfer_id (ctl s)) = wins s + 1 \<and>
     tc_id (ctl s) = i \<and> (b \<longrightarrow> i \<in> set (asked s))"
| "thread_ok s (Looking i j) \<longleftrightarrow> tc_active (ctl s) \<and> unat i = wins s \<and> unat (next_transfer_id (ctl s)) = wins s + 1 \<and>
     tc_id (ctl s) = i \<and> j = i"
| "thread_ok s (Clearing xs) \<longleftrightarrow> tc_active (ctl s) \<and> unat (next_transfer_id (ctl s)) = wins s + 1 \<and>
     (\<exists>n < length drop_stores. xs = drop n drop_stores \<and> (n = 0 \<longrightarrow> unat (tc_id (ctl s)) = wins s) \<and> (n \<noteq> 0 \<longrightarrow> tc_id (ctl s) = 0))"
| "thread_ok s (Checked i) \<longleftrightarrow> accounted s i"
| "thread_ok s _ \<longleftrightarrow> True"

definition fields_ok :: "transfer_sys \<Rightarrow> bool" where
  "fields_ok s \<longleftrightarrow> accounted s (tc_cancel (ctl s)) \<and>
     (tc_id (ctl s) \<noteq> 0 \<longrightarrow> unat (tc_id (ctl s)) = wins s) \<and>
     (\<not> tc_active (ctl s) \<longrightarrow> tc_id (ctl s) = 0 \<and> unat (next_transfer_id (ctl s)) = wins s + 1)"

definition sys_ok :: "transfer_sys \<Rightarrow> bool" where
  "sys_ok s \<longleftrightarrow> fields_ok s \<and> (\<forall>k < length (threads s). thread_ok s (threads s ! k)) \<and>
     (\<forall>j < length (threads s). \<forall>k < length (threads s). owning (threads s ! j) \<longrightarrow> owning (threads s ! k) \<longrightarrow> j = k)"

text \<open>The numbers are 64 bits wide, so the accounts are kept for the first \<open>2 ^ 64 - 3\<close> transfers.\<close>

definition transfer_inv :: "transfer_sys \<Rightarrow> bool" where
  "transfer_inv s \<longleftrightarrow> (wins s + 2 < 2 ^ 64 \<longrightarrow> sys_ok s)"

lemma owner_active: "thread_ok s t \<Longrightarrow> owning t \<Longrightarrow> tc_active (ctl s)"
  by (cases t) auto

lemma unat_succ: "unat (i :: u64) + 1 < 2 ^ 64 \<Longrightarrow> unat (i + 1) = unat i + 1"
  by (simp add: unat_word_ariths)

lemma run_store_next [simp]: "next_transfer_id (run_store x tc) = next_transfer_id tc"
  by (cases x) auto

fun_cases go_moveE: "go_move t s = Some (t', s')"

fun_cases action_moveE: "thread_move a t s = Some (t', s')"

lemma owner_callE:
  assumes "Some (t', s') = owner_call t call"
  obtains i b where "t = Holding i b" and "(t', s') = call i b"
  using assms by (cases t) (auto simp: owner_call_def)

lemmas thread_moveE = action_moveE go_moveE [OF sym] owner_callE

lemma move_frame:
  assumes "thread_move a t s = Some (t', s')"
  shows "threads s' = threads s \<and> wins s \<le> wins s'"
  using assms by (elim thread_moveE) (auto simp: Let_def split: if_splits)

lemma drop_ConsD:
  assumes "x # xs = drop n ys"
  shows "n < length ys \<and> x = ys ! n \<and> xs = drop (Suc n) ys"
proof -
  have "n < length ys" using assms by (metis drop_eq_Nil list.distinct(1) not_less)
  then show ?thesis using assms by (simp add: Cons_nth_drop_Suc [symmetric])
qed

lemma acquire_store_effect:
  assumes "x # xs = drop n (acquire_stores i sh f b)" and "tc_active tc" and "tc_id tc = (if n = 0 then 0 else i)"
  shows "xs = drop (Suc n) (acquire_stores i sh f b) \<and> tc_active (run_store x tc) \<and> tc_id (run_store x tc) = i \<and>
    tc_cancel (run_store x tc) \<in> {tc_cancel tc, 0}"
proof -
  note d = drop_ConsD [OF assms(1)]
  then have "n < 8" by (simp add: acquire_stores_def)
  then have "n \<in> {0, 1, 2, 3, 4, 5, 6, 7}" by auto
  moreover have "x = acquire_stores i sh f b ! n" "xs = drop (Suc n) (acquire_stores i sh f b)" using d by simp_all
  ultimately show ?thesis using assms(2,3) by (auto simp: acquire_stores_def)
qed

lemma drop_store_effect:
  assumes "x # xs = drop n drop_stores" and "tc_active tc" and "n \<noteq> 0 \<longrightarrow> tc_id tc = 0"
  shows "n < length drop_stores \<and> xs = drop (Suc n) drop_stores \<and> tc_active (run_store x tc) = (n \<noteq> 8) \<and>
    tc_id (run_store x tc) = 0 \<and> tc_cancel (run_store x tc) \<in> {tc_cancel tc, 0}"
proof -
  note d = drop_ConsD [OF assms(1)]
  then have "n < 9" by (simp add: drop_stores_def)
  then have "n \<in> {0, 1, 2, 3, 4, 5, 6, 7, 8}" by auto
  moreover have "x = drop_stores ! n" "xs = drop (Suc n) drop_stores" using d by simp_all
  ultimately show ?thesis using assms(2,3) by (auto simp: drop_stores_def)
qed

lemma accounted_zero [simp]: "accounted s 0"
  by (cases "wins s") (auto simp: accounted_def)

lemma move_setting:
  assumes "fields_ok s" and "thread_ok s (Setting i (x # xs))" and s': "s' = s\<lparr>ctl := run_store x (ctl s)\<rparr>"
  shows "fields_ok s' \<and> thread_ok s' (Setting i xs)"
proof -
  from assms(2) obtain n sh f b where n: "x # xs = drop n (acquire_stores i sh f b)" "tc_active (ctl s)" "unat i = wins s"
      "unat (next_transfer_id (ctl s)) = wins s + 1" "tc_id (ctl s) = (if n = 0 then 0 else i)" by auto
  note c = acquire_store_effect [OF n(1,2,5)]
  have ac: "accounted s' j = accounted s j" for j unfolding s' by (simp add: accounted_def)
  have a: "tc_active (ctl s')" and i: "tc_id (ctl s') = i" using c by (simp_all add: s')
  have "tc_cancel (ctl s') = tc_cancel (ctl s) \<or> tc_cancel (ctl s') = 0" using c by (simp add: s')
  then have "accounted s' (tc_cancel (ctl s'))" using assms(1) ac accounted_zero unfolding fields_ok_def by metis
  then have "fields_ok s'" using a i n(3) by (simp add: fields_ok_def s')
  moreover have "\<exists>m sh f b. xs = drop m (acquire_stores i sh f b) \<and> tc_id (ctl s') = (if m = 0 then 0 else i)"
    using c i by (intro exI [of _ "Suc n"] exI [of _ sh] exI [of _ f] exI [of _ b]) simp
  ultimately show ?thesis using a n(3,4) by (simp add: s')
qed

lemma move_clearing:
  assumes "fields_ok s" and "thread_ok s (Clearing (x # xs))" and s': "s' = s\<lparr>ctl := run_store x (ctl s)\<rparr>"
  shows "fields_ok s' \<and> thread_ok s' (if xs = [] then Outside else Clearing xs)"
proof -
  from assms(2) obtain n where n: "x # xs = drop n drop_stores" "tc_active (ctl s)" "unat (next_transfer_id (ctl s)) = wins s + 1"
      "n \<noteq> 0 \<longrightarrow> tc_id (ctl s) = 0" by auto
  note c = drop_store_effect [OF n(1,2,4)]
  have ac: "accounted s' j = accounted s j" for j unfolding s' by (simp add: accounted_def)
  have i: "tc_id (ctl s') = 0" using c by (simp add: s')
  have "tc_cancel (ctl s') = tc_cancel (ctl s) \<or> tc_cancel (ctl s') = 0" using c by (simp add: s')
  then have "accounted s' (tc_cancel (ctl s'))" using assms(1) ac accounted_zero unfolding fields_ok_def by metis
  then have f: "fields_ok s'" using i n(3) by (simp add: fields_ok_def s')
  have "thread_ok s' (Clearing xs)" if "xs \<noteq> []"
  proof -
    have m: "Suc n < length drop_stores" using that c by (auto simp: not_less)
    then have "n \<noteq> 8" by (simp add: drop_stores_def)
    then have "tc_active (ctl s')" using c by (simp add: s')
    then show ?thesis using i n(3) c m by (auto simp: s' intro!: exI [of _ "Suc n"])
  qed
  then show ?thesis using f by simp
qed

lemma move_self:
  assumes "fields_ok s" and "thread_ok s t" and "thread_move a t s = Some (t', s')" and "wins s' + 2 < 2 ^ 64"
  shows "fields_ok s' \<and> thread_ok s' t'"
  using assms(3)
proof (elim thread_moveE)
  fix i x xs
  assume "t = Setting i (x # xs)" "t' = Setting i xs" "s' = s\<lparr>ctl := run_store x (ctl s)\<rparr>"
  then have "t' = Setting i xs" "s' = s\<lparr>ctl := run_store x (ctl s)\<rparr>" "thread_ok s (Setting i (x # xs))" using assms(2) by blast+
  then show ?thesis using move_setting [OF assms(1)] by blast
next
  fix x xs
  assume "t = Clearing (x # xs)" "t' = (if xs = [] then Outside else Clearing xs)" "s' = s\<lparr>ctl := run_store x (ctl s)\<rparr>"
  then have "t' = (if xs = [] then Outside else Clearing xs)" "s' = s\<lparr>ctl := run_store x (ctl s)\<rparr>" "thread_ok s (Clearing (x # xs))"
    using assms(2) by blast+
  then show ?thesis using move_clearing [OF assms(1)] by blast
qed (use assms(1,2,4) in \<open>auto simp: Let_def fields_ok_def accounted_def unat_succ transfer_add_bytes_def transfer_file_stores_def
        drop_stores_def acquire_stores_def split: if_splits\<close>)

lemma move_accounted:
  assumes "thread_move a t s = Some (t', s')" and "accounted s i"
  shows "accounted s' i"
  using assms(1) by (elim thread_moveE) (use assms(2) in \<open>auto simp: accounted_def Let_def split: if_splits\<close>)

lemma move_other:
  assumes "thread_ok s u" and "thread_move a t s = Some (t', s')" and "\<not> (owning t \<and> owning u)"
  shows "thread_ok s' u"
proof (cases "owning u")
  case True
  then have n: "\<not> owning t" "tc_active (ctl s)" using assms(1,3) owner_active by auto
  from assms(2) have "wins s' = wins s \<and> set (asked s) \<subseteq> set (asked s') \<and>
      tc_active (ctl s') = tc_active (ctl s) \<and> tc_id (ctl s') = tc_id (ctl s) \<and> next_transfer_id (ctl s') = next_transfer_id (ctl s)"
    by (elim thread_moveE) (use n in \<open>auto split: if_splits\<close>)
  then show ?thesis using assms(1) True by (cases u) (simp_all, blast)
next
  case False
  then show ?thesis using assms(1) move_accounted [OF assms(2)] by (cases u) auto
qed

lemma move_owner:
  assumes "thread_move a t s = Some (t', s')" and "owning t'"
  shows "owning t \<or> \<not> tc_active (ctl s)"
  using assms(1) by (elim thread_moveE) (use assms(2) in \<open>auto split: if_splits\<close>)

lemma sys_ok_step:
  assumes "sys_ok s" and "sys_move ka s = Some u" and "wins u + 2 < 2 ^ 64"
  shows "sys_ok u"
proof -
  obtain k a where ka: "ka = (k, a)" by (cases ka)
  show ?thesis
  proof (cases "a = Spawn")
    case True
    then have u: "u = s\<lparr>threads := threads s @ [Outside]\<rparr>" using assms(2) ka by (simp add: sys_move_def)
    have "thread_ok u t = thread_ok s t" for t by (cases t) (auto simp: u accounted_def)
    then show ?thesis using assms(1) by (auto simp: sys_ok_def u nth_append fields_ok_def accounted_def less_Suc_eq)
  next
    case False
    let ?t = "threads s ! k"
    obtain t' s' where m: "k < length (threads s)" "thread_move a ?t s = Some (t', s')" "u = s'\<lparr>threads := (threads s)[k := t']\<rparr>"
      using assms(2) ka False by (auto simp: sys_move_def split: if_splits option.splits)
    have same: "fields_ok u = fields_ok s'" "thread_ok u t = thread_ok s' t" for t
      by (cases t; simp add: m(3) fields_ok_def accounted_def)+
    have f: "fields_ok s" and t: "thread_ok s (threads s ! j)" if "j < length (threads s)" for j
      using assms(1) that by (auto simp: sys_ok_def)
    have one: "i = j" if "i < length (threads s)" "j < length (threads s)" "owning (threads s ! i)" "owning (threads s ! j)" for i j
      using assms(1) that by (auto simp: sys_ok_def)
    have self: "fields_ok s' \<and> thread_ok s' t'" using move_self [OF f t m(2)] m assms(3) by simp
    have other: "thread_ok s' (threads s ! j)" if "j < length (threads s)" "j \<noteq> k" for j
      using move_other [OF t [OF that(1)] m(2)] one [OF m(1) that(1)] that(2) by blast
    have owner: "j = k" if "j < length (threads s)" "owning (threads s ! j)" "owning t'" for j
      using move_owner [OF m(2) that(3)] one [OF that(1) m(1) that(2)] owner_active [OF t [OF that(1)] that(2)] by blast
    have "i = j" if "i < length (threads u)" "j < length (threads u)" "owning (threads u ! i)" "owning (threads u ! j)" for i j
    proof -
      have th: "threads u ! j = (if j = k then t' else threads s ! j)" if "j < length (threads s)" for j
        using that by (simp add: m(3) nth_list_update)
      have "length (threads u) = length (threads s)" by (simp add: m(3))
      then show ?thesis using that th [of i] th [of j] one owner by metis
    qed
    moreover have "thread_ok u (threads u ! j)" if "j < length (threads u)" for j
      using that self other [of j] unfolding same(2) by (cases "j = k") (simp_all add: m(3))
    ultimately show ?thesis using self same by (simp add: sys_ok_def)
  qed
qed

lemma transfer_inv_init: "transfer_init s \<Longrightarrow> transfer_inv s"
  by (simp add: transfer_init_def transfer_inv_def sys_ok_def fields_ok_def transfer_control_new_def)

lemma transfer_inv_step:
  assumes "transfer_inv s" and "transfer_step s u"
  shows "transfer_inv u"
proof -
  obtain ka where m: "sys_move ka s = Some u" using assms(2) unfolding transfer_step_def by blast
  have "wins s \<le> wins u" using m move_frame by (auto simp: sys_move_def split: if_splits option.splits prod.splits)
  then show ?thesis using assms(1) sys_ok_step [OF _ m] by (auto simp: transfer_inv_def)
qed

interpretation transfers: transition_system transfer_init transfer_step transfer_inv
  by unfold_locales (blast intro: transfer_inv_init transfer_inv_step)+

text \<open>
  C31. A transfer stops only for a cancel of its own: whatever the threads do and however their steps interleave, a transfer that
  is told it was cancelled is the only one running, and since it started somebody has called
  \<^verbatim>\<open>transfer_cancel\<close> with its number while it was the published one. (For fewer than \<open>2 ^ 64 - 2\<close> transfers in the life of the process.)
\<close>

theorem cancel_is_addressed:
  assumes "reach transfer_init transfer_step s" and "wins s + 2 < 2 ^ 64"
    and "j < length (threads s)" and "threads s ! j = Holding i True"
  shows "i \<in> set (asked s) \<and> tc_id (ctl s) = i \<and> (\<forall>k. k < length (threads s) \<and> owning (threads s ! k) \<longrightarrow> k = j)"
proof -
  have "sys_ok s" using transfers.reach_inv [OF assms(1)] assms(2) by (simp add: transfer_inv_def)
  moreover from this have "thread_ok s (Holding i True)" using assms(3,4) unfolding sys_ok_def by metis
  ultimately show ?thesis using assms(3,4) by (auto simp: sys_ok_def)
qed

section \<open>Runs\<close>

definition quiet :: transfer_sys where
  "quiet = \<lparr>ctl = transfer_control_new, threads = [], wins = 0, asked = []\<rparr>"

lemma quiet_reach: "reach transfer_init transfer_step quiet"
  by (rule reach_init) (simp add: transfer_init_def quiet_def)

definition go :: "nat \<Rightarrow> nat \<Rightarrow> (nat \<times> action) list" where
  "go n k = replicate n (k, Go)"

definition one_cancel :: "(nat \<times> action) list" where
  "one_cancel = [(0, Spawn), (0, Spawn), (0, CallAcquire ''s'' 1 10)] @ go 10 0 @ [(1, CallCancel 1)] @ go 3 1 @ [(0, Look), (0, Go)]"

lemma one_cancel_run:
  "(case run_schedule one_cancel quiet of None \<Rightarrow> False
    | Some s \<Rightarrow> threads s = [Holding 1 True, Answered 1 True] \<and> wins s = 1)"
  by code_simp

theorem cancel_is_addressed_witness:
  "\<exists>s. run_schedule one_cancel quiet = Some s \<and> threads s ! 0 = Holding 1 True \<and> 1 \<in> set (asked s)"
proof -
  obtain s where s: "run_schedule one_cancel quiet = Some s" "threads s ! 0 = Holding 1 True" "length (threads s) = 2" "wins s = 1"
    using one_cancel_run by (cases "run_schedule one_cancel quiet") auto
  then show ?thesis
    using cancel_is_addressed [of s 0 1] run_schedule_reach [OF quiet_reach s(1)] by auto
qed

definition swallowed_cancel :: "(nat \<times> action) list" where
  "swallowed_cancel = [(0, Spawn), (0, Spawn), (0, Spawn), (0, CallAcquire ''a'' 1 10)] @ go 10 0 @ [(1, CallCancel 1), (1, Go)] @
     [(0, DropGuard)] @ go 9 0 @ [(0, CallAcquire ''b'' 1 10)] @ go 10 0 @ [(2, CallCancel 2)] @ go 3 2 @ go 2 1 @ [(0, Look), (0, Go)]"

text \<open>
  A cancel that was confirmed can be lost: there is a run in which a late cancel of the finished transfer 1 passed its check
  before that transfer ended, the cancel of the running transfer 2 was answered with success, and then the late
  one overwrote it, so that transfer 2 goes on and is told that nobody cancelled it.
\<close>

theorem confirmed_cancel_can_be_lost:
  "\<exists>s. reach transfer_init transfer_step s \<and> threads s = [Holding 2 False, Answered 1 False, Answered 2 True] \<and>
     2 \<in> set (asked s) \<and> \<not> transfer_cancelled (ctl s)"
proof -
  have "case run_schedule swallowed_cancel quiet of None \<Rightarrow> False
      | Some s \<Rightarrow> threads s = [Holding 2 False, Answered 1 False, Answered 2 True] \<and> 2 \<in> set (asked s) \<and>
          \<not> transfer_cancelled (ctl s)"
    by code_simp
  then obtain s where "run_schedule swallowed_cancel quiet = Some s"
      "threads s = [Holding 2 False, Answered 1 False, Answered 2 True]" "2 \<in> set (asked s)" "\<not> transfer_cancelled (ctl s)"
    by (cases "run_schedule swallowed_cancel quiet") auto
  then show ?thesis using run_schedule_reach [OF quiet_reach] by blast
qed

end
