(* ===== verification/Sync_Fs.thy ===== *)
theory Sync_Fs
  imports Sync_Plan Transfer_Control
begin

text \<open>
  The disk half of the mirror, \<^verbatim>\<open>xr-core/src/sync.rs\<close>: the hash index, scanning a directory with and without it, and the
  collection of files for a migration. SHA-256 is a third-party function and an argument; the JSON of the index
  file is one too.

  The theorems: a scan with a coherent index gives what a full rehash gives and leaves a coherent index.
\<close>

section \<open>The hash index\<close>

definition PART_SUFFIX :: string where "PART_SUFFIX = ''.xrsync-part''"

definition hex_digit :: "nat \<Rightarrow> char" where
  "hex_digit n = (if n < 10 then char_of (48 + n) else char_of (87 + n))"

definition hex_lower :: "bytes \<Rightarrow> string" where
  "hex_lower bs = concat (map (\<lambda>b. [hex_digit (unat b div 16), hex_digit (unat b mod 16)]) bs)"

definition sha256_file :: "(bytes \<Rightarrow> bytes) \<Rightarrow> bytes \<Rightarrow> string" where
  "sha256_file sha content = hex_lower (sha content)"

record index_entry =
  ie_size :: u64
  ie_mtime :: int
  ie_sha256 :: string

type_synonym hash_index = "string \<rightharpoonup> index_entry"

definition HASH_INDEX_VERSION :: u32 where "HASH_INDEX_VERSION = 1"

text \<open>Loading: anything that is not a file of this version, as the JSON reader sees it, is an empty index.\<close>

definition hash_index_load :: "(bytes \<Rightarrow> (u32 \<times> hash_index) option) \<Rightarrow> bytes option \<Rightarrow> hash_index" where
  "hash_index_load from_json content = (case content of
      None \<Rightarrow> Map.empty
    | Some bs \<Rightarrow> (case from_json bs of
          Some (version, ix) \<Rightarrow> if version = HASH_INDEX_VERSION then ix else Map.empty
        | None \<Rightarrow> Map.empty))"

definition index_lookup :: "hash_index \<Rightarrow> string \<Rightarrow> u64 \<Rightarrow> int option \<Rightarrow> string option" where
  "index_lookup ix rel len mtime = (case mtime of
      None \<Rightarrow> None
    | Some m \<Rightarrow> (case ix rel of
          None \<Rightarrow> None
        | Some e \<Rightarrow> if ie_size e = len \<and> ie_mtime e = m then Some (ie_sha256 e) else None))"

definition index_insert :: "string \<Rightarrow> u64 \<Rightarrow> int option \<Rightarrow> string \<Rightarrow> hash_index \<Rightarrow> hash_index" where
  "index_insert rel len mtime sha256 ix = (case mtime of
      None \<Rightarrow> ix
    | Some m \<Rightarrow> ix(rel \<mapsto> \<lparr>ie_size = len, ie_mtime = m, ie_sha256 = sha256\<rparr>))"

definition index_remove :: "string \<Rightarrow> hash_index \<Rightarrow> hash_index" where
  "index_remove rel ix = ix(rel := None)"

section \<open>Scanning\<close>

text \<open>The relative path as the manifest spells it.\<close>

definition rel_slash :: "fpath \<Rightarrow> string" where
  "rel_slash comps = join ''/'' comps"

function scan_dir :: "(bytes \<Rightarrow> bytes) \<Rightarrow> hash_index \<Rightarrow> fpath \<Rightarrow> (string \<times> node) list \<Rightarrow> hash_index \<times> local_file list \<Rightarrow>
    hash_index \<times> local_file list" where
  "scan_dir sha ix rel [] acc = acc"
| "scan_dir sha ix rel ((nm, Symlink) # es) acc = scan_dir sha ix rel es acc"
| "scan_dir sha ix rel ((nm, Dir ds) # es) acc = scan_dir sha ix rel es (scan_dir sha ix (rel @ [nm]) ds acc)"
| "scan_dir sha ix rel ((nm, File c m) # es) acc =
     (if ends_with nm PART_SUFFIX then scan_dir sha ix rel es acc
      else let r = rel_slash (rel @ [nm]);
               len = of_nat (length c);
               sha256 = (case index_lookup ix r len m of Some h \<Rightarrow> h | None \<Rightarrow> sha256_file sha c)
           in scan_dir sha ix rel es
                (index_insert r len m sha256 (fst acc), snd acc @ [\<lparr>lf_path = r, lf_sha256 = sha256, lf_size = len\<rparr>]))"
  by pat_completeness auto
termination
  by (relation "measure (\<lambda>(sha, ix, rel, es, acc). size_list (size_prod (\<lambda>_. 0) size) es)") auto

definition scan_local_dir_indexed :: "(bytes \<Rightarrow> bytes) \<Rightarrow> node \<Rightarrow> fpath \<Rightarrow> hash_index \<Rightarrow> fs_error + (local_file list \<times> hash_index)" where
  "scan_local_dir_indexed sha t root ix = (case lookup t root of
      Some (Dir es) \<Rightarrow> (let (fresh, out) = scan_dir sha ix [] es (Map.empty, []) in Inr (sort_key lf_path out, fresh))
    | Some (File c m) \<Rightarrow> Inl NotADirectory
    | _ \<Rightarrow> Inr ([], Map.empty))"

definition scan_local_dir :: "(bytes \<Rightarrow> bytes) \<Rightarrow> node \<Rightarrow> fpath \<Rightarrow> fs_error + local_file list" where
  "scan_local_dir sha t root = (case scan_local_dir_indexed sha t root Map.empty of Inl e \<Rightarrow> Inl e | Inr (loc, ix) \<Rightarrow> Inr loc)"

subsection \<open>The files of a tree, in the order of the walk\<close>

function walk :: "fpath \<Rightarrow> (string \<times> node) list \<Rightarrow> (fpath \<times> bytes \<times> int option) list" where
  "walk rel [] = []"
| "walk rel ((nm, Symlink) # es) = walk rel es"
| "walk rel ((nm, Dir ds) # es) = walk (rel @ [nm]) ds @ walk rel es"
| "walk rel ((nm, File c m) # es) = (if ends_with nm PART_SUFFIX then [] else [(rel @ [nm], c, m)]) @ walk rel es"
  by pat_completeness auto
termination
  by (relation "measure (\<lambda>(rel, es). size_list (size_prod (\<lambda>_. 0) size) es)") auto

definition hash_of :: "(bytes \<Rightarrow> bytes) \<Rightarrow> hash_index \<Rightarrow> fpath \<times> bytes \<times> int option \<Rightarrow> string" where
  "hash_of sha ix f = (case f of (p, c, m) \<Rightarrow>
     case index_lookup ix (rel_slash p) (of_nat (length c)) m of Some h \<Rightarrow> h | None \<Rightarrow> sha256_file sha c)"

definition local_of :: "(bytes \<Rightarrow> bytes) \<Rightarrow> hash_index \<Rightarrow> fpath \<times> bytes \<times> int option \<Rightarrow> local_file" where
  "local_of sha ix f = (case f of (p, c, m) \<Rightarrow> \<lparr>lf_path = rel_slash p, lf_sha256 = hash_of sha ix f, lf_size = of_nat (length c)\<rparr>)"

definition index_file :: "(bytes \<Rightarrow> bytes) \<Rightarrow> hash_index \<Rightarrow> fpath \<times> bytes \<times> int option \<Rightarrow> hash_index \<Rightarrow> hash_index" where
  "index_file sha ix f = (case f of (p, c, m) \<Rightarrow> index_insert (rel_slash p) (of_nat (length c)) m (hash_of sha ix f))"

lemma scan_dir_walk:
  "scan_dir sha ix rel es acc = (fold (index_file sha ix) (walk rel es) (fst acc), snd acc @ map (local_of sha ix) (walk rel es))"
  by (induction sha ix rel es acc rule: scan_dir.induct)
    (auto simp: Let_def index_file_def local_of_def hash_of_def)

section \<open>Well-formed trees\<close>

definition name_ok :: "string \<Rightarrow> bool" where
  "name_ok n \<longleftrightarrow> n \<notin> {[], ''.'', ''..''} \<and> CHR ''/'' \<notin> set n"

fun node_ok :: "node \<Rightarrow> bool" where
  "node_ok (File c m) = True"
| "node_ok Symlink = True"
| "node_ok (Dir es) = (distinct (map fst es) \<and> list_all (\<lambda>e. name_ok (fst e) \<and> node_ok (snd e)) es)"

definition in_scan :: "fpath \<Rightarrow> bool" where
  "in_scan q \<longleftrightarrow> q \<noteq> [] \<and> \<not> ends_with (last q) PART_SUFFIX"

lemma walk_set:
  "node_ok (Dir es) \<Longrightarrow>
   (p, c, m) \<in> set (walk rel es) \<longleftrightarrow> (\<exists>q. p = rel @ q \<and> lookup (Dir es) q = Some (File c m) \<and> in_scan q)"
proof (induction rel es arbitrary: p c m rule: walk.induct)
  case (1 rel)
  then show ?case by (auto simp: in_scan_def neq_Nil_conv)
next
  case (2 rel nm es)
  have "map_of es nm = None" using "2.prems" by (auto simp: map_of_eq_None_iff)
  then have "lookup (Dir ((nm, Symlink) # es)) q = Some (File c m) \<longleftrightarrow> lookup (Dir es) q = Some (File c m)" for q
    by (cases q) auto
  then show ?case using 2 by simp
next
  case (3 rel nm ds es)
  have nm: "map_of es nm = None" using "3.prems" by (auto simp: map_of_eq_None_iff)
  have "lookup (Dir ((nm, Dir ds) # es)) q = Some (File c m) \<and> in_scan q \<longleftrightarrow>
      (\<exists>q'. q = nm # q' \<and> lookup (Dir ds) q' = Some (File c m) \<and> in_scan q') \<or> lookup (Dir es) q = Some (File c m) \<and> in_scan q" for q
  proof (cases q)
    case (Cons a q')
    then show ?thesis using nm by (cases q') (auto simp: in_scan_def)
  qed (simp add: in_scan_def)
  moreover have "(p, c, m) \<in> set (walk (rel @ [nm]) ds) \<longleftrightarrow> (\<exists>q. p = rel @ nm # q \<and> lookup (Dir ds) q = Some (File c m) \<and> in_scan q)"
    using "3.IH"(1) [of p c m] "3.prems" by simp
  moreover have "(p, c, m) \<in> set (walk rel es) \<longleftrightarrow> (\<exists>q. p = rel @ q \<and> lookup (Dir es) q = Some (File c m) \<and> in_scan q)"
    using "3.IH"(2) [of p c m] "3.prems" by simp
  ultimately show ?case by (simp only: walk.simps set_append Un_iff) blast
next
  case (4 rel nm c' m' es)
  have nm: "map_of es nm = None" using "4.prems" by (auto simp: map_of_eq_None_iff)
  have "lookup (Dir ((nm, File c' m') # es)) q = Some (File c m) \<and> in_scan q \<longleftrightarrow>
      q = [nm] \<and> c = c' \<and> m = m' \<and> \<not> ends_with nm PART_SUFFIX \<or> lookup (Dir es) q = Some (File c m) \<and> in_scan q" for q
  proof (cases q)
    case (Cons a q')
    then show ?thesis using nm by (cases q') (auto simp: in_scan_def)
  qed (simp add: in_scan_def)
  moreover have "(p, c, m) \<in> set (walk rel es) \<longleftrightarrow> (\<exists>q. p = rel @ q \<and> lookup (Dir es) q = Some (File c m) \<and> in_scan q)"
    using "4.IH" [of p c m] "4.prems" by simp
  ultimately show ?case by auto
qed

lemma walk_prefix: "(p, r) \<in> set (walk rel es) \<Longrightarrow> \<exists>k q. p = rel @ k # q \<and> k \<in> fst ` set es"
proof (induction rel es rule: walk.induct)
  case (3 rel nm ds es)
  then consider "(p, r) \<in> set (walk (rel @ [nm]) ds)" | "(p, r) \<in> set (walk rel es)" by auto
  then show ?case
  proof cases
    case 1
    then obtain k q where "p = rel @ nm # k # q" using "3.IH"(1) by auto
    then show ?thesis by auto
  next
    case 2
    then obtain k q where "p = rel @ k # q" "k \<in> fst ` set es" using "3.IH"(2) by blast
    then show ?thesis by (intro exI [of _ k] exI [of _ q]) simp
  qed
next
  case (4 rel nm c m es)
  then consider "p = rel @ [nm]" | "(p, r) \<in> set (walk rel es)" by (auto split: if_splits)
  then show ?case
  proof cases
    case 2
    then obtain k q where "p = rel @ k # q" "k \<in> fst ` set es" using "4.IH" by blast
    then show ?thesis by (intro exI [of _ k] exI [of _ q]) simp
  qed simp
next
  case (2 rel nm es)
  then obtain k q where "p = rel @ k # q" "k \<in> fst ` set es" by auto
  then show ?case by (intro exI [of _ k] exI [of _ q]) simp
qed simp

lemma walk_distinct: "node_ok (Dir es) \<Longrightarrow> distinct (map fst (walk rel es))"
proof (induction rel es rule: walk.induct)
  case (3 rel nm ds es)
  have "p \<notin> fst ` set (walk rel es)" if "p \<in> fst ` set (walk (rel @ [nm]) ds)" for p
    using that walk_prefix [of p _ "rel @ [nm]" ds] walk_prefix [of p _ rel es] "3.prems" by fastforce
  then show ?case using 3 by auto
next
  case (4 rel nm c m es)
  have "rel @ [nm] \<notin> fst ` set (walk rel es)"
    using walk_prefix [of "rel @ [nm]" _ rel es] "4.prems" by fastforce
  then show ?case using 4 by auto
qed auto

lemma node_ok_names: "node_ok t \<Longrightarrow> lookup t q \<noteq> None \<Longrightarrow> list_all name_ok q"
proof (induction t q rule: lookup.induct)
  case (2 es k ks)
  then obtain n where n: "map_of es k = Some n" "lookup n ks \<noteq> None" by (auto split: option.splits)
  then have "name_ok k \<and> node_ok n" using 2(2) map_of_SomeD [OF n(1)] by (auto simp: list_all_iff)
  then show ?case using 2(1) n by simp
qed auto

lemma node_ok_map_of: "node_ok (Dir es) \<Longrightarrow> map_of es k = Some n \<Longrightarrow> name_ok k \<and> node_ok n"
  by (auto simp: list_all_iff dest!: map_of_SomeD)

lemma node_ok_lookup: "node_ok t \<Longrightarrow> lookup t p = Some n \<Longrightarrow> node_ok n"
proof (induction t p rule: lookup.induct)
  case (2 es k ks)
  then obtain m where "map_of es k = Some m" "lookup m ks = Some n" by (auto split: option.splits)
  then show ?case using 2(1) node_ok_map_of [OF 2(2)] by blast
qed auto

lemma rel_slash_cs: "list_all name_ok q \<Longrightarrow> q \<noteq> [] \<Longrightarrow> cs (rel_slash q) = q"
proof -
  assume "list_all name_ok q" and ne: "q \<noteq> []"
  then have "map cs q = map (\<lambda>n. [n]) q" by (auto simp: list_all_iff name_ok_def split_on_no_sep)
  then show ?thesis unfolding rel_slash_def split_on_join [OF ne] by (simp only: concat_map_singleton map_ident)
qed

lemma rel_slash_inj: "list_all name_ok p \<Longrightarrow> p \<noteq> [] \<Longrightarrow> list_all name_ok q \<Longrightarrow> q \<noteq> [] \<Longrightarrow> rel_slash p = rel_slash q \<Longrightarrow> p = q"
  using rel_slash_cs by metis

lemma walk_names:
  assumes "node_ok (Dir es)" and "(p, c, m) \<in> set (walk [] es)"
  shows "list_all name_ok p \<and> p \<noteq> []"
proof -
  have "lookup (Dir es) p = Some (File c m) \<and> in_scan p" using assms walk_set [of es p c m "[]"] by simp
  then show ?thesis using node_ok_names [OF assms(1), of p] by (auto simp: in_scan_def)
qed

lemma walk_rel_distinct:
  assumes "node_ok (Dir es)"
  shows "distinct (map (\<lambda>f. rel_slash (fst f)) (walk [] es))"
proof -
  have "inj_on (\<lambda>f. rel_slash (fst f)) (set (walk [] es))"
  proof (rule inj_onI)
    fix f g
    assume fg: "f \<in> set (walk [] es)" "g \<in> set (walk [] es)" "rel_slash (fst f) = rel_slash (fst g)"
    then have "fst f = fst g" using walk_names [OF assms] rel_slash_inj by (metis prod.collapse)
    then show "f = g" using fg(1,2) walk_distinct [OF assms, of "[]"] by (auto simp: distinct_map dest: inj_onD)
  qed
  then show ?thesis using walk_distinct [OF assms, of "[]"] by (simp add: distinct_map)
qed

section \<open>A scan with the index is a full scan\<close>

text \<open>
  When the index may be trusted, said without the lookup: an entry filed under a file's path with exactly the file's size and time has the hash of
  its content. An entry whose size or time differs may have any hash.
\<close>

definition index_coherent :: "(bytes \<Rightarrow> bytes) \<Rightarrow> hash_index \<Rightarrow> (string \<times> node) list \<Rightarrow> bool" where
  "index_coherent sha ix es \<longleftrightarrow> list_all (\<lambda>f. case f of (p, c, m) \<Rightarrow> (case ix (rel_slash p) of
     None \<Rightarrow> True
   | Some e \<Rightarrow> ie_size e = of_nat (length c) \<and> m = Some (ie_mtime e) \<longrightarrow> ie_sha256 e = sha256_file sha c)) (walk [] es)"

lemma index_coherent_lookup:
  "index_coherent sha ix es \<longleftrightarrow> list_all (\<lambda>f. case f of (p, c, m) \<Rightarrow>
     index_lookup ix (rel_slash p) (of_nat (length c)) m \<in> {None, Some (sha256_file sha c)}) (walk [] es)"
  unfolding index_coherent_def by (intro list_all_cong) (auto simp: index_lookup_def split: option.splits)

lemma index_lookup_empty [simp]: "index_lookup Map.empty rel len m = None"
  by (simp add: index_lookup_def split: option.splits)

lemma coherent_hash:
  assumes "index_coherent sha ix es" and "f \<in> set (walk [] es)"
  shows "hash_of sha ix f = sha256_file sha (fst (snd f))"
  using assms by (auto simp: index_coherent_lookup hash_of_def list_all_iff split: prod.splits option.splits)

lemma fold_index_file_other:
  "rel \<notin> (\<lambda>f. rel_slash (fst f)) ` set fs \<Longrightarrow> fold (index_file sha ix) fs acc rel = acc rel"
  by (induction fs arbitrary: acc) (auto simp: index_file_def index_insert_def split: prod.splits option.splits)

lemma fold_index_file_at:
  assumes "distinct (map (\<lambda>f. rel_slash (fst f)) fs)" and "(p, c, m) \<in> set fs" and "acc (rel_slash p) = None"
  shows "index_lookup (fold (index_file sha ix) fs acc) (rel_slash p) (of_nat (length c)) m \<in> {None, Some (hash_of sha ix (p, c, m))}"
  using assms
proof (induction fs arbitrary: acc)
  case (Cons f fs)
  show ?case
  proof (cases "f = (p, c, m)")
    case True
    then have "rel_slash p \<notin> (\<lambda>f. rel_slash (fst f)) ` set fs" using Cons.prems(1) by auto
    then have "fold (index_file sha ix) fs (index_file sha ix f acc) (rel_slash p) = index_file sha ix f acc (rel_slash p)"
      by (rule fold_index_file_other)
    then have "index_lookup (fold (index_file sha ix) fs (index_file sha ix f acc)) (rel_slash p) (of_nat (length c)) m =
        index_lookup (index_file sha ix f acc) (rel_slash p) (of_nat (length c)) m" unfolding index_lookup_def by presburger
    moreover have "index_lookup (index_file sha ix f acc) (rel_slash p) (of_nat (length c)) m \<in> {None, Some (hash_of sha ix (p, c, m))}"
      using True Cons.prems(3) by (auto simp: index_lookup_def index_file_def index_insert_def split: option.splits)
    ultimately show ?thesis by (simp only: fold.simps o_apply)
  next
    case False
    then have in_fs: "(p, c, m) \<in> set fs" using Cons.prems(2) by auto
    then have "rel_slash (fst f) \<noteq> rel_slash p" using Cons.prems(1) by force
    then have "index_file sha ix f acc (rel_slash p) = None"
      using Cons.prems(3) by (auto simp: index_file_def index_insert_def split: prod.splits option.splits)
    then show ?thesis using Cons.IH [of "index_file sha ix f acc"] Cons.prems(1) in_fs by simp
  qed
qed simp

lemma indexed_scan:
  assumes "lookup t root = Some (Dir es)" and "node_ok (Dir es)" and "index_coherent sha ix es"
  shows "\<exists>loc fresh. scan_local_dir_indexed sha t root ix = Inr (loc, fresh) \<and> scan_local_dir sha t root = Inr loc \<and>
    index_coherent sha fresh es"
proof -
  let ?fs = "walk [] es"
  have same: "map (local_of sha ix) ?fs = map (local_of sha Map.empty) ?fs"
    using coherent_hash [OF assms(3)] by (intro map_cong refl) (auto simp: local_of_def hash_of_def)
  have "index_coherent sha (fold (index_file sha ix) ?fs Map.empty) es"
    unfolding index_coherent_lookup list_all_iff
  proof
    fix f
    assume "f \<in> set ?fs"
    moreover obtain p c m where e: "f = (p, c, m)" by (cases f)
    ultimately have f: "(p, c, m) \<in> set ?fs" by simp
    have "index_lookup (fold (index_file sha ix) ?fs Map.empty) (rel_slash p) (of_nat (length c)) m \<in> {None, Some (sha256_file sha c)}"
      using fold_index_file_at [OF walk_rel_distinct [OF assms(2)] f, of Map.empty sha ix] coherent_hash [OF assms(3) f] by simp
    then show "case f of (p, c, m) \<Rightarrow>
        index_lookup (fold (index_file sha ix) ?fs Map.empty) (rel_slash p) (of_nat (length c)) m \<in> {None, Some (sha256_file sha c)}"
      by (simp add: e)
  qed
  then show ?thesis
    using assms(1) arg_cong [OF same, of "sort_key lf_path"] by (simp add: scan_local_dir_indexed_def scan_local_dir_def scan_dir_walk)
qed

text \<open>
  C32. The hash index never changes an answer: as long as each entry that is filed under a file with exactly its size and time has its hash (whatever the others say), a scan
  through the index lists the same files with the same hashes as one that reads every file, and the
  index it leaves behind has that property again.
\<close>

theorem indexed_scan_is_full_scan:
  assumes "lookup t root = Some (Dir es)" and "node_ok (Dir es)" and "index_coherent sha ix es"
  shows "\<exists>loc fresh. scan_local_dir_indexed sha t root ix = Inr (loc, fresh) \<and> scan_local_dir sha t root = Inr loc \<and>
    index_coherent sha fresh es"
  using assms by (rule indexed_scan)

definition demo_disk :: node where
  "demo_disk = Dir [(''s'', Dir [(''a'', File [1, 2] (Some 5)), (''d'', Dir [(''b'', File [3] None), (''c.xrsync-part'', File [9] (Some 1))])])]"

definition demo_index :: hash_index where
  "demo_index = [''a'' \<mapsto> \<lparr>ie_size = 2, ie_mtime = 5, ie_sha256 = ''0102''\<rparr>, ''gone'' \<mapsto> \<lparr>ie_size = 1, ie_mtime = 1, ie_sha256 = ''00''\<rparr>]"

theorem indexed_scan_is_full_scan_witness:
  "\<exists>loc fresh. scan_local_dir_indexed id demo_disk [''s''] demo_index = Inr (loc, fresh) \<and> scan_local_dir id demo_disk [''s''] = Inr loc"
proof -
  have "index_coherent id demo_index [(''a'', File [1, 2] (Some 5)), (''d'', Dir [(''b'', File [3] None), (''c.xrsync-part'', File [9] (Some 1))])]"
    by code_simp
  moreover have "node_ok (Dir [(''a'', File [1, 2] (Some 5)), (''d'', Dir [(''b'', File [3] None), (''c.xrsync-part'', File [9] (Some 1))])])"
    by code_simp
  ultimately show ?thesis
    using indexed_scan_is_full_scan [of demo_disk "[''s'']" "[(''a'', File [1, 2] (Some 5)), (''d'', Dir [(''b'', File [3] None), (''c.xrsync-part'', File [9] (Some 1))])]" id demo_index]
    by (auto simp: demo_disk_def)
qed

end
