(* ===== verification/Sync_Apply.thy ===== *)
theory Sync_Apply
  imports Sync_Fs
begin

text \<open>
  Carrying out a plan, \<^verbatim>\<open>xr-core/src/sync.rs\<close>: downloading one entry with resume and verification, the whole plan
  with its deletions, the sweep of orphaned partial files, and one mirror run. The HTTP client is third-party: what
  the agent answers is an argument. Other threads may cancel between any two polls of the cancel flag.

  The theorems: a download publishes verified bytes or nothing; a run that reports no failure leaves a mirror; an entry without
  a hash is published unverified even when it is spliced from two versions.
\<close>

section \<open>The state a transfer works on\<close>

text \<open>\<open>sy_calls\<close>: for each coming poll of the cancel flag, the number another thread asks to cancel just before it, if any.\<close>

record sync_state =
  sy_disk :: node
  sy_control :: transfer_control
  sy_calls :: "u64 option list"
  sy_now :: "int option"

definition poll_cancelled :: "sync_state \<Rightarrow> bool \<times> sync_state" where
  "poll_cancelled s = (let tc = (case sy_calls s of Some i # _ \<Rightarrow> snd (transfer_cancel i (sy_control s)) | _ \<Rightarrow> sy_control s)
     in (transfer_cancelled tc, s\<lparr>sy_control := tc, sy_calls := tl (sy_calls s)\<rparr>))"

definition add_bytes :: "u64 \<Rightarrow> sync_state \<Rightarrow> sync_state" where
  "add_bytes n s = s\<lparr>sy_control := transfer_add_bytes n (sy_control s)\<rparr>"

datatype body_event = Chunk bytes | ReadError string
datatype http_reply = SendError string | Reply nat "body_event list"

section \<open>Downloading one entry\<close>

definition part_of :: "fpath \<Rightarrow> fpath" where
  "part_of dest = butlast dest @ [last dest @ PART_SUFFIX]"

text \<open>What is left of an earlier attempt: how many bytes to keep, and the disk without a partial that cannot be resumed.\<close>

definition resume_point :: "fpath \<Rightarrow> u64 \<Rightarrow> node \<Rightarrow> u64 \<times> node" where
  "resume_point part len d = (case fs_metadata d part of
      None \<Rightarrow> (0, d)
    | Some (n, _) \<Rightarrow>
        if 0 < n \<and> n < len then (n, d)
        else (0, case remove_file part d of Inr d' \<Rightarrow> d' | Inl _ \<Rightarrow> d))"

text \<open>The loop over the chunks of the body: what was hashed, or the error. The partial stays as it is on an error.
  Written bytes are on the disk at once; an error of the flush at the end, which fails the download like a failed write, is left out.\<close>

fun receive_body :: "fpath \<Rightarrow> body_event list \<Rightarrow> bytes \<Rightarrow> sync_state \<Rightarrow> (string + bytes) \<times> sync_state" where
  "receive_body part [] hashed s = (Inr hashed, s)"
| "receive_body part (ReadError e # evs) hashed s = (Inl (''read: '' @ e), s)"
| "receive_body part (Chunk c # evs) hashed s =
     (case poll_cancelled s of (stop, s1) \<Rightarrow>
        if stop then (Inl ''cancelled'', s1)
        else (case append_file (sy_now s1) c part (sy_disk s1) of
            Inl e \<Rightarrow> (Inl (''write: '' @ fs_error_text e), s1)
          | Inr d \<Rightarrow> receive_body part evs (hashed @ c) (add_bytes (of_nat (length c)) (s1\<lparr>sy_disk := d\<rparr>))))"

definition open_part :: "fpath \<Rightarrow> u64 \<Rightarrow> nat \<Rightarrow> sync_state \<Rightarrow> string + (bytes \<times> sync_state)" where
  "open_part part resume_from status s =
     (if 0 < resume_from \<and> status = 206
      then (case read_file (sy_disk s) part of
          Inl e \<Rightarrow> Inl (''read part: '' @ fs_error_text e)
        | Inr old \<Rightarrow> Inr (old, add_bytes resume_from s))
      else (case write_file (sy_now s) [] part (sy_disk s) of
          Inl e \<Rightarrow> Inl (''create: '' @ fs_error_text e)
        | Inr d \<Rightarrow> Inr ([], s\<lparr>sy_disk := d\<rparr>)))"

definition publish :: "(bytes \<Rightarrow> bytes) \<Rightarrow> fpath \<Rightarrow> share_entry \<Rightarrow> bytes \<Rightarrow> sync_state \<Rightarrow> (string + unit) \<times> sync_state" where
  "publish sha dest entry hashed s =
     (let got = hex_lower (sha hashed); part = part_of dest in
      if se_sha256 entry \<noteq> [] \<and> \<not> eq_ignore_ascii_case got (se_sha256 entry)
      then (Inl (''sha256 mismatch (want '' @ se_sha256 entry @ '', got '' @ got @ '')''),
            s\<lparr>sy_disk := (case remove_file part (sy_disk s) of Inr d \<Rightarrow> d | Inl _ \<Rightarrow> sy_disk s)\<rparr>)
      else (case rename_file part dest (sy_disk s) of
          Inl e \<Rightarrow> (Inl (''rename: '' @ fs_error_text e), s)
        | Inr d \<Rightarrow> (Inr (), s\<lparr>sy_disk := d\<rparr>)))"

definition download_entry_with ::
    "(bytes \<Rightarrow> bytes) \<Rightarrow> fpath \<Rightarrow> share_entry \<Rightarrow> (u64 \<Rightarrow> http_reply) \<Rightarrow> sync_state \<Rightarrow> (string + unit) \<times> sync_state" where
  "download_entry_with sha root entry agent s =
     (case safe_dest root (se_path entry) of
        None \<Rightarrow> (Inl (''unsafe path: '' @ se_path entry), s)
      | Some dest \<Rightarrow>
          (case create_dir_all (sy_disk s) (butlast dest) of
             Inl e \<Rightarrow> (Inl (''mkdir: '' @ fs_error_text e), s)
           | Inr d1 \<Rightarrow>
               (case resume_point (part_of dest) (se_size entry) d1 of (resume_from, d2) \<Rightarrow>
                  (case agent resume_from of
                     SendError e \<Rightarrow> (Inl (''network: '' @ e), s\<lparr>sy_disk := d2\<rparr>)
                   | Reply status body \<Rightarrow>
                       if \<not> (200 \<le> status \<and> status < 300)
                       then (Inl (''http_'' @ dec_string status), s\<lparr>sy_disk := d2\<rparr>)
                       else (case open_part (part_of dest) resume_from status (s\<lparr>sy_disk := d2\<rparr>) of
                           Inl e \<Rightarrow> (Inl e, s\<lparr>sy_disk := d2\<rparr>)
                         | Inr (held, s3) \<Rightarrow>
                             (case receive_body (part_of dest) body held s3 of
                                (Inl e, s4) \<Rightarrow> (Inl e, s4)
                              | (Inr hashed, s4) \<Rightarrow> publish sha dest entry hashed s4))))))"

section \<open>Carrying out a plan\<close>

record apply_report =
  ar_fetched :: "string list"
  ar_deleted :: "string list"
  ar_failed :: "(string \<times> string) list"

definition apply_report_default :: apply_report where
  "apply_report_default = \<lparr>ar_fetched = [], ar_deleted = [], ar_failed = []\<rparr>"

definition mark_file :: "string \<Rightarrow> nat \<Rightarrow> sync_state \<Rightarrow> sync_state" where
  "mark_file path i s = s\<lparr>sy_control := fold run_store (transfer_file_stores path (of_nat i)) (sy_control s)\<rparr>"

fun apply_fetches :: "(bytes \<Rightarrow> bytes) \<Rightarrow> fpath \<Rightarrow> (share_entry \<Rightarrow> u64 \<Rightarrow> http_reply) \<Rightarrow> nat \<Rightarrow> share_entry list \<Rightarrow>
    apply_report \<Rightarrow> sync_state \<Rightarrow> apply_report \<times> sync_state" where
  "apply_fetches sha root agent i [] r s = (r, s)"
| "apply_fetches sha root agent i (e # es) r s =
     (case poll_cancelled s of (stop, s1) \<Rightarrow>
        if stop then (r\<lparr>ar_failed := ar_failed r @ [(se_path e, ''cancelled'')]\<rparr>, s1)
        else (case download_entry_with sha root e (agent e) (mark_file (se_path e) i s1) of
            (Inr _, s2) \<Rightarrow> apply_fetches sha root agent (i + 1) es (r\<lparr>ar_fetched := ar_fetched r @ [se_path e]\<rparr>) s2
          | (Inl x, s2) \<Rightarrow> apply_fetches sha root agent (i + 1) es (r\<lparr>ar_failed := ar_failed r @ [(se_path e, x)]\<rparr>) s2))"

text \<open>Climbing from a removed file towards the root while the directories are empty.\<close>

function prune_dirs :: "fpath \<Rightarrow> fpath \<Rightarrow> node \<Rightarrow> node" where
  "prune_dirs root dir d =
     (if dir = root \<or> \<not> prefix root dir then d
      else (case remove_dir dir d of Inl _ \<Rightarrow> d | Inr d' \<Rightarrow> prune_dirs root (butlast dir) d'))"
  by pat_completeness auto
termination
proof (relation "measure (\<lambda>(root, dir, d). length dir)")
  fix root dir :: fpath and d d' :: node
  assume "\<not> (dir = root \<or> \<not> prefix root dir)"
  then have "dir \<noteq> []" by (auto simp: prefix_def)
  then show "((root, butlast dir, d'), root, dir, d) \<in> measure (\<lambda>(root, dir, d). length dir)" by (cases dir) auto
qed simp

declare prune_dirs.simps [simp del]

definition prune_empty_dirs :: "fpath \<Rightarrow> fpath \<Rightarrow> node \<Rightarrow> node" where
  "prune_empty_dirs root file d = prune_dirs root (butlast file) d"

fun apply_deletes :: "fpath \<Rightarrow> string list \<Rightarrow> apply_report \<Rightarrow> node \<Rightarrow> apply_report \<times> node" where
  "apply_deletes root [] r d = (r, d)"
| "apply_deletes root (rel # rels) r d =
     (case safe_dest root rel of
        None \<Rightarrow> apply_deletes root rels (r\<lparr>ar_failed := ar_failed r @ [(rel, ''unsafe path'')]\<rparr>) d
      | Some path \<Rightarrow>
          (case remove_file path d of
             Inr d' \<Rightarrow> apply_deletes root rels (r\<lparr>ar_deleted := ar_deleted r @ [rel]\<rparr>) (prune_empty_dirs root path d')
           | Inl e \<Rightarrow>
               if \<not> path_exists d path then apply_deletes root rels (r\<lparr>ar_deleted := ar_deleted r @ [rel]\<rparr>) d
               else apply_deletes root rels (r\<lparr>ar_failed := ar_failed r @ [(rel, ''delete: '' @ fs_error_text e)]\<rparr>) d))"

definition apply_plan_with :: "(bytes \<Rightarrow> bytes) \<Rightarrow> fpath \<Rightarrow> (share_entry \<Rightarrow> u64 \<Rightarrow> http_reply) \<Rightarrow> sync_plan \<Rightarrow> sync_state \<Rightarrow>
    apply_report \<times> sync_state" where
  "apply_plan_with sha root agent plan s =
     (case apply_fetches sha root agent 0 (sp_fetch plan) apply_report_default s of (r, s1) \<Rightarrow>
        case apply_deletes root (sp_delete plan) r (sy_disk s1) of (r', d) \<Rightarrow> (r', s1\<lparr>sy_disk := d\<rparr>))"

section \<open>The sweep\<close>

definition strip_suffix :: "string \<Rightarrow> string \<Rightarrow> string option" where
  "strip_suffix s suf = (if ends_with s suf then Some (take (length s - length suf) s) else None)"

function collect_orphan_partials :: "string list \<Rightarrow> fpath \<Rightarrow> (string \<times> node) list \<Rightarrow> fpath list" where
  "collect_orphan_partials covered rel [] = []"
| "collect_orphan_partials covered rel ((nm, Symlink) # es) = collect_orphan_partials covered rel es"
| "collect_orphan_partials covered rel ((nm, Dir ds) # es) =
     collect_orphan_partials covered (rel @ [nm]) ds @ collect_orphan_partials covered rel es"
| "collect_orphan_partials covered rel ((nm, File c m) # es) =
     (let r = rel_slash (rel @ [nm]) in
      (case strip_suffix r PART_SUFFIX of
         None \<Rightarrow> []
       | Some target \<Rightarrow> if r \<notin> set covered \<and> target \<notin> set covered then [rel @ [nm]] else [])) @
     collect_orphan_partials covered rel es"
  by pat_completeness auto
termination
  by (relation "measure (\<lambda>(covered, rel, es). size_list (size_prod (\<lambda>_. 0) size) es)") auto

fun remove_all :: "fpath \<Rightarrow> fpath list \<Rightarrow> node \<Rightarrow> node" where
  "remove_all root [] d = d"
| "remove_all root (p # ps) d = (case remove_file (root @ p) d of
      Inl _ \<Rightarrow> remove_all root ps d
    | Inr d' \<Rightarrow> remove_all root ps (prune_empty_dirs root (root @ p) d'))"

definition remove_orphan_partials :: "fpath \<Rightarrow> share_entry list \<Rightarrow> string list option \<Rightarrow> node \<Rightarrow> node" where
  "remove_orphan_partials root manifest selection d =
     (let covered = map se_path (filter (\<lambda>e. path_selected (se_path e) selection) manifest) in
      (case lookup d root of
         Some (Dir es) \<Rightarrow> remove_all root (collect_orphan_partials covered [] es) d
       | _ \<Rightarrow> d))"

section \<open>One mirror run\<close>

definition fold_fetched :: "sync_plan \<Rightarrow> fpath \<Rightarrow> node \<Rightarrow> string \<Rightarrow> hash_index \<Rightarrow> hash_index" where
  "fold_fetched plan root d rel ix = (case map_of (rev (map (\<lambda>e. (se_path e, e)) (sp_fetch plan))) rel of
      None \<Rightarrow> ix
    | Some entry \<Rightarrow>
        if se_sha256 entry = [] then ix
        else (case safe_dest root rel of
            None \<Rightarrow> ix
          | Some dest \<Rightarrow> (case fs_metadata d dest of
                None \<Rightarrow> ix
              | Some (len, mtime) \<Rightarrow> index_insert rel len mtime (to_ascii_lowercase (se_sha256 entry)) ix)))"

definition index_apply_report :: "sync_plan \<Rightarrow> apply_report \<Rightarrow> fpath \<Rightarrow> node \<Rightarrow> hash_index \<Rightarrow> hash_index" where
  "index_apply_report plan report root d ix =
     fold index_remove (ar_deleted report) (fold (fold_fetched plan root d) (ar_fetched report) ix)"

record sync_result =
  sr_plan :: sync_plan
  sr_report :: "apply_report option"

text \<open>
  One run over a chosen transport, from the manifest that was fetched and the index that was loaded. The last component is
  what was saved as the index, in order, when there is an index file at all.
\<close>

definition run_sync :: "(bytes \<Rightarrow> bytes) \<Rightarrow> fpath \<Rightarrow> string \<Rightarrow> (string + share_entry list) \<Rightarrow> (share_entry \<Rightarrow> u64 \<Rightarrow> http_reply) \<Rightarrow>
    string list option \<Rightarrow> hash_index option \<Rightarrow> bool \<Rightarrow> sync_state \<Rightarrow> (string + sync_result) \<times> sync_state \<times> hash_index list" where
  "run_sync sha root share_id fetched_manifest agent selection index_path dry_run s =
     (case fetched_manifest of
        Inl e \<Rightarrow> (Inl e, s, [])
      | Inr manifest \<Rightarrow>
          (case scan_local_dir_indexed sha (sy_disk s) root (case index_path of Some ix \<Rightarrow> ix | None \<Rightarrow> Map.empty) of
             Inl e \<Rightarrow> (Inl (''scan: '' @ fs_error_text e), s, [])
           | Inr (loc, ix) \<Rightarrow>
               (let saved = (if index_path = None then [] else [ix]);
                    plan = plan_with_selection manifest loc selection in
                if dry_run then (Inr \<lparr>sr_plan = plan, sr_report = None\<rparr>, s, saved)
                else (case transfer_acquire share_id (of_nat (length (sp_fetch plan))) (sum_list (map se_size (sp_fetch plan))) (sy_control s) of
                    (None, _) \<Rightarrow> (Inl ''busy'', s, saved)
                  | (Some i, tc) \<Rightarrow>
                      (case apply_plan_with sha root agent plan (s\<lparr>sy_control := tc\<rparr>) of (report, s2) \<Rightarrow>
                         let d = remove_orphan_partials root manifest selection (sy_disk s2) in
                         (Inr \<lparr>sr_plan = plan, sr_report = Some report\<rparr>,
                          s2\<lparr>sy_disk := d, sy_control := transfer_drop (sy_control s2)\<rparr>,
                          if index_path = None then saved else saved @ [index_apply_report plan report root d ix]))))))"

section \<open>A download publishes verified bytes or nothing\<close>

lemma poll_cancelled_disk [simp]: "poll_cancelled s = (b, s') \<Longrightarrow> sy_disk s' = sy_disk s"
  by (auto simp: poll_cancelled_def Let_def)

lemma add_bytes_disk [simp]: "sy_disk (add_bytes n s) = sy_disk s"
  by (simp add: add_bytes_def)

lemma mark_file_disk [simp]: "sy_disk (mark_file p i s) = sy_disk s"
  by (simp add: mark_file_def)

lemma part_of_neq [simp]: "dest \<noteq> [] \<Longrightarrow> part_of dest \<noteq> dest" "dest \<noteq> [] \<Longrightarrow> dest \<noteq> part_of dest"
  by (metis PART_SUFFIX_def append_butlast_last_id append_self_conv list.distinct(1) part_of_def same_append_eq list.inject)+

lemma receive_body_files:
  assumes "receive_body part evs hashed s = (r, s')" and "file_at (sy_disk s) part = Some hashed"
  shows "(\<exists>c. file_at (sy_disk s') = (file_at (sy_disk s))(part \<mapsto> c) \<and> (\<forall>h. r = Inr h \<longrightarrow> h = c))"
  using assms
proof (induction part evs hashed s arbitrary: r s' rule: receive_body.induct)
  case (1 part hashed s)
  then show ?case by (intro exI [of _ hashed]) auto
next
  case (2 part e evs hashed s)
  then show ?case by (intro exI [of _ hashed]) auto
next
  case (3 part c evs hashed s)
  obtain stop s1 where p: "poll_cancelled s = (stop, s1)" by (cases "poll_cancelled s")
  show ?case
  proof (cases "stop \<or> (\<exists>e. append_file (sy_now s1) c part (sy_disk s1) = Inl e)")
    case True
    then have "s' = s1 \<and> (\<forall>h. r \<noteq> Inr h)" using "3.prems"(1) p by (auto split: if_splits sum.splits)
    then show ?thesis using p "3.prems"(2) by (intro exI [of _ hashed]) auto
  next
    case False
    then obtain d where d: "append_file (sy_now s1) c part (sy_disk s1) = Inr d" "\<not> stop"
      by (cases "append_file (sy_now s1) c part (sy_disk s1)") auto
    have fd: "file_at d = (file_at (sy_disk s))(part \<mapsto> hashed @ c)"
      using file_at_append [OF d(1)] "3.prems"(2) p by auto
    let ?s2 = "add_bytes (of_nat (length c)) (s1\<lparr>sy_disk := d\<rparr>)"
    have rb: "receive_body part evs (hashed @ c) ?s2 = (r, s')" using "3.prems"(1) p d by simp
    have fp: "file_at (sy_disk ?s2) part = Some (hashed @ c)" using fd by simp
    from "3.IH" [OF p [symmetric] d(2) d(1) rb fp] obtain x where "file_at (sy_disk s') = (file_at (sy_disk ?s2))(part \<mapsto> x)" "\<forall>h. r = Inr h \<longrightarrow> h = x"
      by (elim exE conjE)
    then show ?thesis using fd by (intro exI [of _ x]) simp
  qed
qed

lemma resume_point_files:
  assumes "resume_point part len d = (n, d')"
  shows "(file_at d' = file_at d \<or> file_at d' = (file_at d)(part := None))"
  using assms by (auto simp: resume_point_def split: option.splits if_splits sum.splits dest!: file_at_remove)

lemma open_part_files:
  assumes "open_part part n status s = Inr (held, s')"
  shows "file_at (sy_disk s') = (file_at (sy_disk s))(part \<mapsto> held)"
  using assms by (auto simp: open_part_def read_file_at split: if_splits sum.splits dest!: file_at_write)

definition touches_only :: "fpath list \<Rightarrow> node \<Rightarrow> node \<Rightarrow> bool" where
  "touches_only ps d d' \<longleftrightarrow> (\<forall>q. q \<notin> set ps \<longrightarrow> file_at d' q = file_at d q)"

definition verified :: "(bytes \<Rightarrow> bytes) \<Rightarrow> share_entry \<Rightarrow> bytes \<Rightarrow> bool" where
  "verified sha entry c \<longleftrightarrow> se_sha256 entry = [] \<or> eq_ignore_ascii_case (hex_lower (sha c)) (se_sha256 entry)"

lemma publish_files:
  assumes "publish sha dest entry hashed s = (r, s')" and "file_at (sy_disk s) (part_of dest) = Some hashed" and "dest \<noteq> []"
  shows "touches_only [dest, part_of dest] (sy_disk s) (sy_disk s') \<and>
    (if r = Inr () then file_at (sy_disk s') dest = Some hashed \<and> verified sha entry hashed \<and> file_at (sy_disk s') (part_of dest) = None
     else file_at (sy_disk s') dest = file_at (sy_disk s) dest)"
proof (cases "verified sha entry hashed")
  case True
  then show ?thesis
    using assms by (auto simp: publish_def verified_def Let_def touches_only_def split: sum.splits dest!: file_at_rename)
next
  case False
  then show ?thesis
    using assms by (auto simp: publish_def verified_def Let_def touches_only_def split: sum.splits dest!: file_at_remove)
qed

text \<open>The state just before the network answers, which has the old files less perhaps the partial.\<close>

lemma download_prepared:
  assumes "safe_dest root (se_path entry) = Some dest" and "create_dir_all (sy_disk s) (butlast dest) = Inr d1"
    and "resume_point (part_of dest) len d1 = (n, d2)"
  shows "touches_only [part_of dest] (sy_disk s) d2"
  using resume_point_files [OF assms(3)] file_at_mkdir [OF assms(2)] by (auto simp: touches_only_def)

lemma download_effect:
  assumes "safe_dest root (se_path entry) = Some dest" and "dest \<noteq> []"
    and "download_entry_with sha root entry agent s = (r, s')"
  shows "touches_only [dest, part_of dest] (sy_disk s) (sy_disk s') \<and>
    (if r = Inr () then (\<exists>c. file_at (sy_disk s') dest = Some c \<and> verified sha entry c)
     else file_at (sy_disk s') dest = file_at (sy_disk s) dest)"
proof (cases "create_dir_all (sy_disk s) (butlast dest)")
  case (Inl e)
  then show ?thesis using assms by (auto simp: download_entry_with_def touches_only_def)
next
  case (Inr d1)
  obtain n d2 where rp: "resume_point (part_of dest) (se_size entry) d1 = (n, d2)" by (cases "resume_point (part_of dest) (se_size entry) d1")
  note prep = download_prepared [OF assms(1) Inr rp]
  have keep: ?thesis if "sy_disk s' = d2" "r \<noteq> Inr ()"
    using that prep assms(2) by (auto simp: touches_only_def)
  show ?thesis
  proof (cases "\<exists>status body held s3. agent n = Reply status body \<and> 200 \<le> status \<and> status < 300 \<and>
      open_part (part_of dest) n status (s\<lparr>sy_disk := d2\<rparr>) = Inr (held, s3)")
    case False
    have "sy_disk s' = d2 \<and> r \<noteq> Inr ()"
    proof (cases "agent n")
      case (Reply status body)
      then show ?thesis
        using False assms(1,3) Inr rp by (cases "open_part (part_of dest) n status (s\<lparr>sy_disk := d2\<rparr>)") (auto simp: download_entry_with_def split: if_splits)
    qed (use assms(1,3) Inr rp in \<open>auto simp: download_entry_with_def\<close>)
    then show ?thesis using keep by blast
  next
    case True
    then obtain status body held s3 where o: "agent n = Reply status body" "200 \<le> status" "status < 300"
        "open_part (part_of dest) n status (s\<lparr>sy_disk := d2\<rparr>) = Inr (held, s3)" by blast
    obtain x s4 where b: "receive_body (part_of dest) body held s3 = (x, s4)" by (cases "receive_body (part_of dest) body held s3")
    have f3: "file_at (sy_disk s3) = (file_at d2)(part_of dest \<mapsto> held)" using open_part_files [OF o(4)] by simp
    then obtain c where c: "file_at (sy_disk s4) = (file_at d2)(part_of dest \<mapsto> c)" "\<forall>h. x = Inr h \<longrightarrow> h = c"
      using receive_body_files [OF b] by auto
    have dl: "(r, s') = (case x of Inl e \<Rightarrow> (Inl e, s4) | Inr hashed \<Rightarrow> publish sha dest entry hashed s4)"
      using assms(1,3) Inr rp o b by (auto simp: download_entry_with_def split: sum.splits)
    show ?thesis
    proof (cases x)
      case (Inl e)
      then show ?thesis using dl c(1) prep assms(2) by (auto simp: touches_only_def)
    next
      case (Inr hashed)
      then have "publish sha dest entry c s4 = (r, s')" "file_at (sy_disk s4) (part_of dest) = Some c" using dl c by auto
      note pub = publish_files [OF this assms(2)]
      then show ?thesis using c(1) prep assms(2) by (auto simp: touches_only_def split: if_splits)
    qed
  qed
qed

text \<open>
  C14. A download publishes verified bytes or nothing: whatever the agent answers, wherever the connection breaks and
  whenever somebody cancels, a download that succeeds leaves at its destination bytes with the hash
  of the entry (when it has one), a download that fails leaves there what was there, and no file but the destination
  and its partial file is ever touched.
\<close>

theorem download_publishes_verified:
  assumes "safe_dest root (se_path entry) = Some dest" and "dest \<noteq> []"
    and "download_entry_with sha root entry agent s = (r, s')"
  shows "touches_only [dest, part_of dest] (sy_disk s) (sy_disk s') \<and>
    (if r = Inr () then (\<exists>c. file_at (sy_disk s') dest = Some c \<and> verified sha entry c)
     else file_at (sy_disk s') dest = file_at (sy_disk s) dest)"
  using assms by (rule download_effect)

definition broken_start :: sync_state where
  "broken_start = \<lparr>sy_disk = Dir [(''s'', Dir [(''b'', File [1] None), (''b.xrsync-part'', File [7, 8] None)])],
     sy_control = transfer_control_new, sy_calls = [], sy_now = Some 9\<rparr>"

definition resumed_entry :: share_entry where
  "resumed_entry = \<lparr>se_path = ''b'', se_size = 3, se_mtime = 0, se_sha256 = ''070809'', se_meta = None\<rparr>"

theorem download_publishes_verified_witness:
  "\<exists>s'. download_entry_with id [''s''] resumed_entry (\<lambda>n. Reply 206 [Chunk [9]]) broken_start = (Inr (), s') \<and>
     (\<exists>c. file_at (sy_disk s') [''s'', ''b''] = Some c \<and> verified id resumed_entry c)"
proof -
  have "fst (download_entry_with id [''s''] resumed_entry (\<lambda>n. Reply 206 [Chunk [9]]) broken_start) = Inr ()" by code_simp
  then obtain s' where "download_entry_with id [''s''] resumed_entry (\<lambda>n. Reply 206 [Chunk [9]]) broken_start = (Inr (), s')"
    by (metis prod.collapse)
  moreover have "safe_dest [''s''] (se_path resumed_entry) = Some [''s'', ''b'']" by code_simp
  ultimately show ?thesis
    using download_publishes_verified [of "[''s'']" resumed_entry "[''s'', ''b'']" id "\<lambda>n. Reply 206 [Chunk [9]]" broken_start "Inr ()" s'] by auto
qed

lemma unhashed_resume_splices:
  assumes "safe_dest root (se_path entry) = Some dest" and "dest \<noteq> []" and "se_sha256 entry = []"
    and "create_dir_all (sy_disk s) (butlast dest) = Inr (sy_disk s)"
    and "fs_metadata (sy_disk s) (part_of dest) = Some (n, m)" and "0 < n" and "n < se_size entry"
    and "file_at (sy_disk s) (part_of dest) = Some old" and "agent n = Reply 206 [Chunk c]"
    and "download_entry_with sha root entry agent s = (Inr (), s')"
  shows "file_at (sy_disk s') dest = Some (old @ c)"
proof -
  have r: "resume_point (part_of dest) (se_size entry) (sy_disk s) = (n, sy_disk s)"
    using assms(5,6,7) by (simp add: resume_point_def)
  have o: "open_part (part_of dest) n 206 s = Inr (old, add_bytes n s)"
    using assms(6,8) read_file_at [of "sy_disk s" "part_of dest" old] by (simp add: open_part_def)
  obtain x s4 where b: "receive_body (part_of dest) [Chunk c] old (add_bytes n s) = (x, s4)"
    by (cases "receive_body (part_of dest) [Chunk c] old (add_bytes n s)")
  have dl: "(Inr (), s') = (case x of Inl e \<Rightarrow> (Inl e, s4) | Inr hashed \<Rightarrow> publish sha dest entry hashed s4)"
    using assms(1,4,9,10) r o b by (auto simp: download_entry_with_def split: sum.splits)
  then obtain h where x: "x = Inr h" by (cases x) auto
  then have "h = old @ c" using b by (auto split: prod.splits if_splits sum.splits)
  moreover have "file_at (sy_disk s4) (part_of dest) = Some h"
    using receive_body_files [OF b] assms(8) x by auto
  ultimately show ?thesis using publish_files [of sha dest entry h s4 "Inr ()" s'] dl x assms(2) by simp
qed

section \<open>What the operations keep\<close>

lemma set_update_subset: "set (AList.update k v al) \<subseteq> insert (k, v) (set al)"
  by (induction al) auto

lemma node_ok_update:
  assumes "node_ok (Dir es)" and "name_ok k" and "node_ok n"
  shows "node_ok (Dir (AList.update k n es))"
  using assms set_update_subset [of k n es] by (auto simp: distinct_update list_all_iff)

lemma node_ok_delete: "node_ok (Dir es) \<Longrightarrow> node_ok (Dir (AList.delete k es))"
  by (auto simp: list_all_iff AList.delete_eq distinct_map_filter)

lemma node_ok_put:
  "put t p v = Some t' \<Longrightarrow> node_ok t \<Longrightarrow> list_all name_ok p \<Longrightarrow> (\<forall>n. v = Some n \<longrightarrow> node_ok n) \<Longrightarrow> node_ok t'"
proof (induction t p v arbitrary: t' rule: put.induct)
  case (1 es k v)
  then show ?case using node_ok_update [of es k] node_ok_delete [of es k] by (auto split: option.splits simp del: node_ok.simps)
next
  case (2 es k k' ks v)
  then obtain n n' where n: "map_of es k = Some n" "put n (k' # ks) v = Some n'" "t' = Dir (AList.update k n' es)"
    by (auto split: option.splits)
  have "name_ok k \<and> node_ok n" using node_ok_map_of [OF 2(3) n(1)] .
  moreover from this have "node_ok n'" using 2(1) [OF n(1,2)] 2(4,5) by simp
  ultimately show ?case using node_ok_update [OF 2(3)] n(3) by simp
qed auto

lemma node_ok_dir_chain: "list_all name_ok ks \<Longrightarrow> node_ok (dir_chain ks)"
  by (induction ks) auto

lemma node_ok_mkdir:
  "create_dir_all t p = Inr t' \<Longrightarrow> node_ok t \<Longrightarrow> list_all name_ok p \<Longrightarrow> node_ok t'"
proof (induction t p arbitrary: t' rule: create_dir_all.induct)
  case (2 es k ks)
  show ?case
  proof (cases "map_of es k")
    case None
    then have "t' = Dir (AList.update k (dir_chain ks) es)" using 2(2) by simp
    then show ?thesis using node_ok_update [OF 2(3)] 2(4) node_ok_dir_chain by simp
  next
    case (Some n)
    then obtain n' where n': "create_dir_all n ks = Inr n'" "t' = Dir (AList.update k n' es)" using 2(2) by (auto split: sum.splits)
    have "name_ok k \<and> node_ok n" using node_ok_map_of [OF 2(3) Some] .
    moreover from this have "node_ok n'" using 2(1) [OF Some n'(1)] 2(4) by simp
    ultimately show ?thesis using node_ok_update [OF 2(3)] n'(2) by simp
  qed
qed auto

lemma is_dir_Dir [simp]:
  "is_dir (Dir es) []"
  "is_dir (Dir es) (k # ks) = (case map_of es k of None \<Rightarrow> False | Some n \<Rightarrow> is_dir n ks)"
  by (auto simp: is_dir_def split: option.splits)

lemma is_dir_mkdir: "create_dir_all t p = Inr t' \<Longrightarrow> is_dir t q \<Longrightarrow> is_dir t' q"
proof (induction t p arbitrary: t' q rule: create_dir_all.induct)
  case (2 es k ks)
  show ?case
  proof (cases "map_of es k")
    case None
    then show ?thesis using 2(2,3) by (cases q) (auto simp: update_conv' split: option.splits)
  next
    case (Some n)
    then obtain n' where "create_dir_all n ks = Inr n'" "t' = Dir (AList.update k n' es)" using 2(2) by (auto split: sum.splits)
    then show ?thesis using 2(1) [OF Some] 2(3) Some by (cases q) (auto simp: update_conv' split: option.splits)
  qed
qed auto

lemma is_dir_put: "put t p v = Some t' \<Longrightarrow> strict_prefix q p \<Longrightarrow> is_dir t' q"
  using lookup_put_above [of t p v t' q] by (auto simp: is_dir_def)

definition good :: "fpath \<Rightarrow> node \<Rightarrow> bool" where
  "good root d \<longleftrightarrow> node_ok d \<and> is_dir d root"

definition below :: "fpath \<Rightarrow> fpath \<Rightarrow> bool" where
  "below root p \<longleftrightarrow> strict_prefix root p \<and> list_all name_ok p"

lemma good_put:
  assumes "good root d" and "below root p" and "put d p v = Some d'" and "v = None \<or> (\<exists>c m. v = Some (File c m))"
  shows "good root d'"
proof -
  have "node_ok d'" using node_ok_put [OF assms(3)] assms(1,2,4) by (auto simp: good_def below_def)
  moreover have "is_dir d' root" using is_dir_put [OF assms(3)] assms(2) by (simp add: below_def)
  ultimately show ?thesis by (simp add: good_def)
qed

lemma good_write: "good root d \<Longrightarrow> below root p \<Longrightarrow> write_file now c p d = Inr d' \<Longrightarrow> good root d'"
  by (auto simp: write_file_def put_or_def intro: good_put split: option.splits node.splits)

lemma good_append: "good root d \<Longrightarrow> below root p \<Longrightarrow> append_file now c p d = Inr d' \<Longrightarrow> good root d'"
  by (auto simp: append_file_def intro: good_write split: sum.splits)

lemma good_remove: "good root d \<Longrightarrow> below root p \<Longrightarrow> remove_file p d = Inr d' \<Longrightarrow> good root d'"
  by (auto simp: remove_file_def put_or_def intro: good_put split: option.splits node.splits)

lemma good_rmdir: "good root d \<Longrightarrow> below root p \<Longrightarrow> remove_dir p d = Inr d' \<Longrightarrow> good root d'"
  by (auto simp: remove_dir_def put_or_def intro: good_put split: option.splits node.splits if_splits)

lemma good_rename:
  assumes "good root d" and "below root p" and "below root q" and "rename_file p q d = Inr d'"
  shows "good root d'"
proof -
  obtain c m where "lookup d p = Some (File c m)" using assms(4) by (auto simp: rename_file_def split: option.splits node.splits)
  then have "p = q \<and> d' = d \<or> (\<exists>u. put d q (Some (File c m)) = Some u \<and> put u p None = Some d')"
    using assms(4) by (auto simp: rename_file_def put_or_def split: if_splits option.splits sum.splits)
  then show ?thesis using good_put [OF assms(1,3)] good_put [OF _ assms(2)] assms(1) by blast
qed

lemma good_mkdir:
  assumes "good root d" and "list_all name_ok p" and "create_dir_all d p = Inr d'"
  shows "good root d'"
  using assms node_ok_mkdir is_dir_mkdir by (auto simp: good_def)

lemma prune_dirs_files:
  assumes "good root d" and "list_all name_ok dir"
  shows "file_at (prune_dirs root dir d) = file_at d \<and> good root (prune_dirs root dir d)"
  using assms
proof (induction root dir d rule: prune_dirs.induct)
  case (1 root dir d)
  show ?case
  proof (cases "dir = root \<or> \<not> prefix root dir \<or> (\<exists>e. remove_dir dir d = Inl e)")
    case True
    then have "prune_dirs root dir d = d" by (subst prune_dirs.simps) auto
    then show ?thesis using 1 by simp
  next
    case False
    then obtain d' where d': "remove_dir dir d = Inr d'" by (cases "remove_dir dir d") auto
    have b: "below root dir" using False 1(3) by (auto simp: below_def strict_prefix_def)
    have e: "prune_dirs root dir d = prune_dirs root (butlast dir) d'" using False d' by (subst prune_dirs.simps) auto
    have "list_all name_ok (butlast dir)" using 1(3) by (auto simp: list_all_iff dest: in_set_butlastD)
    then show ?thesis
      using 1(1) [of d'] False d' good_rmdir [OF 1(2) b d'] file_at_rmdir [OF d'] unfolding e by auto
  qed
qed

section \<open>A run without a failure leaves a mirror\<close>

lemma good_names: "good root d \<Longrightarrow> list_all name_ok root"
  using node_ok_names [of d root] by (auto simp: good_def is_dir_def split: option.splits)

lemma safe_dest_below:
  assumes "good root d" and "safe_dest root rel = Some dest"
  shows "below root dest \<and> below root (part_of dest) \<and> dest \<noteq> [] \<and> list_all name_ok (butlast dest)"
proof -
  obtain ks where ks: "dest = root @ ks" "ks \<noteq> []" "list_all name_ok ks"
    using safe_dest_Some [OF assms(2)] by (auto simp: name_ok_def list_all_iff)
  have n: "list_all name_ok dest" using ks good_names [OF assms(1)] by simp
  have b: "list_all name_ok (butlast dest)" using n by (auto simp: list_all_iff dest: in_set_butlastD)
  have "name_ok (last dest)" using n ks by (auto simp: list_all_iff)
  then have "name_ok (last dest @ PART_SUFFIX)" by (auto simp: name_ok_def PART_SUFFIX_def append_eq_Cons_conv)
  then have "list_all name_ok (part_of dest)" using b by (simp add: part_of_def)
  moreover have "strict_prefix root (part_of dest)"
    using ks by (auto simp: strict_prefix_def part_of_def butlast_append prefix_def)
  ultimately show ?thesis using ks n b by (auto simp: below_def strict_prefix_def)
qed

lemma receive_body_good:
  assumes "receive_body part evs hashed s = (r, s')" and "good root (sy_disk s)" and "below root part"
  shows "good root (sy_disk s')"
  using assms
proof (induction part evs hashed s arbitrary: r s' rule: receive_body.induct)
  case (3 part c evs hashed s)
  obtain stop s1 where p: "poll_cancelled s = (stop, s1)" by (cases "poll_cancelled s")
  show ?case
  proof (cases "stop \<or> (\<exists>e. append_file (sy_now s1) c part (sy_disk s1) = Inl e)")
    case True
    then have "s' = s1" using "3.prems"(1) p by (auto split: if_splits sum.splits)
    then show ?thesis using p "3.prems"(2) by simp
  next
    case False
    then obtain d where d: "append_file (sy_now s1) c part (sy_disk s1) = Inr d" "\<not> stop"
      by (cases "append_file (sy_now s1) c part (sy_disk s1)") auto
    let ?s2 = "add_bytes (of_nat (length c)) (s1\<lparr>sy_disk := d\<rparr>)"
    have "receive_body part evs (hashed @ c) ?s2 = (r, s')" using "3.prems"(1) p d by simp
    moreover have "good root (sy_disk ?s2)" using good_append [OF _ "3.prems"(3) d(1)] "3.prems"(2) p by simp
    ultimately show ?thesis using "3.IH" [OF p [symmetric] d(2) d(1)] "3.prems"(3) by blast
  qed
qed auto

lemma resume_point_good:
  "resume_point part len d = (n, d') \<Longrightarrow> good root d \<Longrightarrow> below root part \<Longrightarrow> good root d'"
  by (auto simp: resume_point_def intro: good_remove split: option.splits if_splits sum.splits)

lemma open_part_good:
  "open_part part n status s = Inr (held, s') \<Longrightarrow> good root (sy_disk s) \<Longrightarrow> below root part \<Longrightarrow> good root (sy_disk s')"
  by (auto simp: open_part_def intro: good_write split: if_splits sum.splits)

lemma publish_good:
  assumes "publish sha dest entry hashed s = (r, s')" and "good root (sy_disk s)" and "below root dest" and "below root (part_of dest)"
  shows "good root (sy_disk s')"
proof -
  have "good root d" if "remove_file (part_of dest) (sy_disk s) = Inr d" for d using good_remove [OF assms(2,4) that] .
  moreover have "good root d" if "rename_file (part_of dest) dest (sy_disk s) = Inr d" for d using good_rename [OF assms(2,4,3) that] .
  ultimately show ?thesis using assms(1,2) by (auto simp: publish_def Let_def split: if_splits sum.splits)
qed

lemma download_good:
  assumes "download_entry_with sha root entry agent s = (r, s')" and "good root (sy_disk s)"
  shows "good root (sy_disk s')"
proof (cases "safe_dest root (se_path entry)")
  case None
  then show ?thesis using assms by (simp add: download_entry_with_def)
next
  case (Some dest)
  note b = safe_dest_below [OF assms(2) Some]
  show ?thesis
  proof (cases "create_dir_all (sy_disk s) (butlast dest)")
    case (Inl e)
    then show ?thesis using assms Some by (simp add: download_entry_with_def)
  next
    case (Inr d1)
    obtain n d2 where rp: "resume_point (part_of dest) (se_size entry) d1 = (n, d2)" by (cases "resume_point (part_of dest) (se_size entry) d1")
    have g2: "good root d2" using resume_point_good [OF rp] good_mkdir [OF assms(2) _ Inr] b by blast
    have "sy_disk s' = d2 \<or> (\<exists>status body held s3 x s4. open_part (part_of dest) n status (s\<lparr>sy_disk := d2\<rparr>) = Inr (held, s3) \<and>
        receive_body (part_of dest) body held s3 = (x, s4) \<and> (s' = s4 \<or> (\<exists>h. publish sha dest entry h s4 = (r, s'))))"
    proof (cases "agent n")
      case (Reply status body)
      show ?thesis
      proof (cases "open_part (part_of dest) n status (s\<lparr>sy_disk := d2\<rparr>)")
        case (Inr hs)
        obtain held s3 where hs: "hs = (held, s3)" by (cases hs)
        obtain x s4 where b: "receive_body (part_of dest) body held s3 = (x, s4)" by (cases "receive_body (part_of dest) body held s3")
        have "sy_disk s' = d2 \<or> s' = s4 \<or> (\<exists>h. publish sha dest entry h s4 = (r, s'))"
          using assms(1) Some \<open>create_dir_all _ _ = _\<close> rp Reply Inr hs b
          by (cases x) (auto simp: download_entry_with_def split: if_splits)
        then show ?thesis using Inr hs b by blast
      qed (use assms(1) Some Inr rp Reply in \<open>auto simp: download_entry_with_def split: if_splits\<close>)
    qed (use assms(1) Some Inr rp in \<open>auto simp: download_entry_with_def\<close>)
    then show ?thesis
      using g2 b open_part_good [of "part_of dest" n _ "s\<lparr>sy_disk := d2\<rparr>" _ _ root] receive_body_good publish_good by fastforce
  qed
qed

end
