(* ===== verification/Sync_Mirror.thy ===== *)
theory Sync_Mirror
  imports Sync_Apply
begin

text \<open>
  The mirror end to end: a run of \<^verbatim>\<open>run_sync\<close> (\<^verbatim>\<open>xr-core/src/sync.rs\<close>) that reports no failure leaves on disk exactly the selected
  part of the manifest, so that the next run finds nothing to do. The disk operations are those of theory Sync_Apply,
  the plan is that of theory Sync_Plan, and what connects them is what a scan sees of a tree.
\<close>

section \<open>What a scan sees\<close>

lemma distinct_map_sort_key: "distinct (map f (sort_key g xs)) = distinct (map f xs)"
  by (simp add: distinct_map)

lemma scan_full:
  assumes "good root d"
  shows "\<exists>loc. scan_local_dir sha d root = Inr loc \<and> distinct (map lf_path loc) \<and>
    set loc = {\<lparr>lf_path = rel_slash q, lf_sha256 = sha256_file sha c, lf_size = of_nat (length c)\<rparr> |q c.
      file_at d (root @ q) = Some c \<and> in_scan q}"
proof -
  obtain es where es: "lookup d root = Some (Dir es)" using assms by (auto simp: good_def is_dir_def split: option.splits node.splits)
  have ok: "node_ok (Dir es)" using node_ok_lookup [OF _ es] assms by (simp add: good_def)
  let ?fs = "walk [] es"
  have "\<exists>m. lookup (Dir es) q = Some (File c m)" if "file_at d (root @ q) = Some c" for q c
    using that es by (auto simp: file_at_def lookup_append split: option.splits node.splits)
  moreover have "file_at d (root @ q) = Some c" if "lookup (Dir es) q = Some (File c m)" for q c m
    using that es by (simp add: file_at_def lookup_append)
  ultimately have fs: "(\<exists>m. (q, c, m) \<in> set ?fs) \<longleftrightarrow> file_at d (root @ q) = Some c \<and> in_scan q" for q c
    using walk_set [OF ok, of q c _ "[]"] by auto
  have h: "local_of sha Map.empty (q, c, m) = \<lparr>lf_path = rel_slash q, lf_sha256 = sha256_file sha c, lf_size = of_nat (length c)\<rparr>" for q c m
    by (simp add: local_of_def hash_of_def)
  have "local_of sha Map.empty ` set ?fs = {\<lparr>lf_path = rel_slash q, lf_sha256 = sha256_file sha c, lf_size = of_nat (length c)\<rparr> |q c.
      \<exists>m. (q, c, m) \<in> set ?fs}" (is "?l = ?r")
  proof
    show "?l \<subseteq> ?r" using h by fastforce
    show "?r \<subseteq> ?l" using h by (smt (verit) image_iff mem_Collect_eq subsetI)
  qed
  moreover have "distinct (map lf_path (map (local_of sha Map.empty) ?fs))"
    using walk_rel_distinct [OF ok] by (simp add: local_of_def case_prod_beta comp_def)
  ultimately show ?thesis
    using es by (simp add: scan_local_dir_def scan_local_dir_indexed_def scan_dir_walk fs distinct_map_sort_key)
qed

lemma held_at_scan:
  assumes "distinct (map lf_path loc)" and "f \<in> set loc"
  shows "held_at loc (lf_path f) = Some f"
proof -
  have "distinct (map fst (rev (map (\<lambda>f. (lf_path f, f)) loc)))" using assms(1) unfolding rev_map [symmetric] by (simp add: comp_def)
  moreover have "(lf_path f, f) \<in> set (rev (map (\<lambda>f. (lf_path f, f)) loc))" using assms(2) by simp
  ultimately show ?thesis by (rule map_of_is_SomeI)
qed

section \<open>The fetches and the deletions\<close>

definition canonical :: "string \<Rightarrow> bool" where
  "canonical rel \<longleftrightarrow> list_all name_ok (cs rel)"

lemma push_components_names: "list_all name_ok comps \<Longrightarrow> push_components comps out n = Some (out @ comps, n + length comps)"
  by (induction comps arbitrary: out n) (auto simp: name_ok_def)

lemma safe_dest_canonical: "canonical rel \<Longrightarrow> safe_dest root rel = Some dest \<Longrightarrow> dest = root @ cs rel"
  by (auto simp: safe_dest_def canonical_def push_components_names split: if_splits)

definition mirrored_path :: "share_entry \<Rightarrow> bool" where
  "mirrored_path e \<longleftrightarrow> canonical (se_path e) \<and> \<not> ends_with (last (cs (se_path e))) PART_SUFFIX"

lemma in_scan_cs: "mirrored_path e \<Longrightarrow> in_scan (cs (se_path e))"
  using split_on_ne [of "CHR ''/''" "se_path e"] by (auto simp: mirrored_path_def in_scan_def)

lemma part_not_in_scan: "q \<noteq> [] \<Longrightarrow> in_scan q' \<Longrightarrow> root @ q' \<noteq> part_of (root @ q)"
  by (auto simp: part_of_def in_scan_def butlast_append suffix_def dest: arg_cong [of _ _ last])

lemma apply_fetches_failed:
  "apply_fetches sha root agent i es r s = (r', s') \<Longrightarrow> \<exists>zs. ar_failed r' = ar_failed r @ zs"
proof (induction sha root agent i es r s rule: apply_fetches.induct)
  case (2 sha root agent i e es r s)
  obtain stop s1 where p: "poll_cancelled s = (stop, s1)" by (cases "poll_cancelled s")
  obtain x s2 where d: "download_entry_with sha root e (agent e) (mark_file (se_path e) i s1) = (x, s2)"
    by (cases "download_entry_with sha root e (agent e) (mark_file (se_path e) i s1)")
  show ?case
  proof (cases stop)
    case True
    then show ?thesis using 2(3) p by auto
  next
    case False
    show ?thesis
    proof (cases x)
      case (Inl y)
      then show ?thesis using 2(1) [OF p [symmetric] False d [symmetric] Inl] 2(3) p d False by fastforce
    next
      case (Inr y)
      then show ?thesis using 2(2) [OF p [symmetric] False d [symmetric] Inr] 2(3) p d False by simp
    qed
  qed
qed simp

definition fetched_ok :: "(bytes \<Rightarrow> bytes) \<Rightarrow> fpath \<Rightarrow> share_entry list \<Rightarrow> node \<Rightarrow> bool" where
  "fetched_ok sha root es d \<longleftrightarrow> (\<forall>e \<in> set es. \<exists>c. file_at d (root @ cs (se_path e)) = Some c \<and> verified sha e c)"

definition scan_unchanged :: "fpath \<Rightarrow> fpath set \<Rightarrow> node \<Rightarrow> node \<Rightarrow> bool" where
  "scan_unchanged root qs d d' \<longleftrightarrow> (\<forall>q. in_scan q \<and> q \<notin> qs \<longrightarrow> file_at d' (root @ q) = file_at d (root @ q))"

lemma scan_unchanged_trans:
  "scan_unchanged root qs d d' \<Longrightarrow> scan_unchanged root qs' d' d'' \<Longrightarrow> scan_unchanged root (qs \<union> qs') d d''"
  by (simp add: scan_unchanged_def)

text \<open>A download that succeeded, in terms of what a scan sees.\<close>

lemma download_scan:
  assumes "download_entry_with sha root e agent s = (Inr (), s')" and "good root (sy_disk s)" and "mirrored_path e"
  shows "good root (sy_disk s') \<and> fetched_ok sha root [e] (sy_disk s') \<and> scan_unchanged root {cs (se_path e)} (sy_disk s) (sy_disk s')"
proof -
  obtain dest where sd: "safe_dest root (se_path e) = Some dest"
    using assms(1) by (cases "safe_dest root (se_path e)") (auto simp: download_entry_with_def)
  then have dest: "dest = root @ cs (se_path e)" using safe_dest_canonical assms(3) by (simp add: mirrored_path_def)
  have ne: "cs (se_path e) \<noteq> []" by (rule split_on_ne)
  have pub: "touches_only [dest, part_of dest] (sy_disk s) (sy_disk s') \<and> (\<exists>c. file_at (sy_disk s') dest = Some c \<and> verified sha e c)"
    using download_effect [OF sd _ assms(1)] dest ne by simp
  have "scan_unchanged root {cs (se_path e)} (sy_disk s) (sy_disk s')"
    using pub dest part_not_in_scan [OF ne] by (auto simp: scan_unchanged_def touches_only_def)
  then show ?thesis using pub dest download_good [OF assms(1,2)] by (auto simp: fetched_ok_def)
qed

lemma apply_fetches_scan:
  assumes "apply_fetches sha root agent i es r s = (r', s')" and "ar_failed r' = []" and "good root (sy_disk s)"
    and "\<forall>e \<in> set es. mirrored_path e" and "distinct (map se_path es)"
  shows "good root (sy_disk s') \<and> fetched_ok sha root es (sy_disk s') \<and> scan_unchanged root (cs ` se_path ` set es) (sy_disk s) (sy_disk s')"
  using assms
proof (induction sha root agent i es r s rule: apply_fetches.induct)
  case (1 sha root agent i r s)
  then show ?case by (auto simp: fetched_ok_def scan_unchanged_def)
next
  case (2 sha root agent i e es r s)
  obtain stop s1 where p: "poll_cancelled s = (stop, s1)" by (cases "poll_cancelled s")
  obtain x s2 where d: "download_entry_with sha root e (agent e) (mark_file (se_path e) i s1) = (x, s2)"
    by (cases "download_entry_with sha root e (agent e) (mark_file (se_path e) i s1)")
  have ns: "\<not> stop" using 2(3,4) p by auto
  have x: "x = Inr ()"
  proof (cases x)
    case (Inl y)
    then have "apply_fetches sha root agent (i + 1) es (r\<lparr>ar_failed := ar_failed r @ [(se_path e, y)]\<rparr>) s2 = (r', s')"
      using 2(3) p d ns by simp
    then show ?thesis using apply_fetches_failed 2(4) by fastforce
  qed simp
  have rest: "apply_fetches sha root agent (i + 1) es (r\<lparr>ar_fetched := ar_fetched r @ [se_path e]\<rparr>) s2 = (r', s')"
    using 2(3) p d ns x by simp
  have one: "good root (sy_disk s2) \<and> fetched_ok sha root [e] (sy_disk s2) \<and> scan_unchanged root {cs (se_path e)} (sy_disk s) (sy_disk s2)"
    using download_scan [OF d [unfolded x]] 2(5,6) p by simp
  have ih: "good root (sy_disk s') \<and> fetched_ok sha root es (sy_disk s') \<and> scan_unchanged root (cs ` se_path ` set es) (sy_disk s2) (sy_disk s')"
    using 2(2) [OF p [symmetric] ns d [symmetric] x rest 2(4)] one 2(6,7) by simp
  have "cs (se_path e) \<notin> cs ` se_path ` set es" using 2(7) by (auto simp: cs_inj)
  then have "file_at (sy_disk s') (root @ cs (se_path e)) = file_at (sy_disk s2) (root @ cs (se_path e))"
    using ih in_scan_cs 2(6) unfolding scan_unchanged_def by simp
  then have "fetched_ok sha root (e # es) (sy_disk s')" using ih one by (simp add: fetched_ok_def)
  moreover have "scan_unchanged root (cs ` se_path ` set (e # es)) (sy_disk s) (sy_disk s')"
    using scan_unchanged_trans [of root "{cs (se_path e)}" "sy_disk s" "sy_disk s2" "cs ` se_path ` set es" "sy_disk s'"] one ih by simp
  ultimately show ?case using ih by simp
qed

lemma apply_deletes_failed:
  "apply_deletes root rels r d = (r', d') \<Longrightarrow> \<exists>zs. ar_failed r' = ar_failed r @ zs"
  by (induction root rels r d rule: apply_deletes.induct) (fastforce split: option.splits sum.splits if_splits)+

lemma apply_deletes_scan:
  assumes "apply_deletes root rels r d = (r', d')" and "ar_failed r' = []" and "good root d" and "\<forall>rel \<in> set rels. canonical rel"
  shows "good root d' \<and> ar_failed r = [] \<and> file_at d' = (\<lambda>p. if p \<in> (\<lambda>rel. root @ cs rel) ` set rels then None else file_at d p)"
  using assms
proof (induction root rels r d arbitrary: r' d' rule: apply_deletes.induct)
  case (2 root rel rels r d)
  show ?case
  proof (cases "safe_dest root rel")
    case None
    then show ?thesis using 2(1) [OF None] 2(5,6,7,8) by fastforce
  next
    case (Some path)
    have path: "path = root @ cs rel" using safe_dest_canonical [OF _ Some] 2(8) by simp
    note b = safe_dest_below [OF 2(7) Some]
    show ?thesis
    proof (cases "remove_file path d")
      case (Inr d1)
      have g1: "good root d1" using good_remove [OF 2(7) _ Inr] b by simp
      have "file_at d1 = (file_at d)(path := None)" using file_at_remove [OF Inr] by simp
      then have pr: "good root (prune_empty_dirs root path d1)" "file_at (prune_empty_dirs root path d1) = (file_at d)(path := None)"
        using prune_dirs_files [OF g1] b by (simp_all add: prune_empty_dirs_def)
      show ?thesis
        using 2(4) [OF Some Inr, of r' d'] 2(5,6,8) Some Inr pr path by (auto simp: fun_eq_iff)
    next
      case (Inl e)
      show ?thesis
      proof (cases "path_exists d path")
        case True
        then have "ar_failed (r\<lparr>ar_failed := ar_failed r @ [(rel, ''delete: '' @ fs_error_text e)]\<rparr>) = []"
          using 2(3) [OF Some Inl, of r' d'] 2(5,6,7,8) Some Inl by simp
        then show ?thesis by simp
      next
        case False
        then have "file_at d path = None" by (auto simp: path_exists_def file_at_def split: option.splits node.splits)
        then show ?thesis using 2(2) [OF Some Inl False, of r' d'] 2(5,6,7,8) Some Inl False path by (auto simp: fun_eq_iff)
      qed
    qed
  qed
qed auto

section \<open>The sweep\<close>

lemma join_ends:
  assumes "ends_with (join ''/'' (ps @ [nm])) suf" and "CHR ''/'' \<notin> set suf"
  shows "ends_with nm suf"
proof (cases "ps = []")
  case False
  then have e: "join ''/'' (ps @ [nm]) = join ''/'' ps @ CHR ''/'' # nm" by (simp add: join_append)
  then have "suffix nm (join ''/'' (ps @ [nm]))" by (auto simp: suffix_def)
  then consider "suffix suf nm" | "suffix nm suf" using assms(1) suffix_same_cases by blast
  then show ?thesis
  proof cases
    case 2
    then obtain zs where zs: "suf = zs @ nm" by (auto simp: suffix_def)
    have "zs = []"
    proof (rule ccontr)
      assume "zs \<noteq> []"
      moreover have "suffix zs (join ''/'' ps @ ''/'')" using assms(1) zs unfolding e by (auto simp: suffix_def)
      ultimately have "last zs = CHR ''/''" by (auto simp: suffix_def) (metis last_appendR last_snoc)
      then show False using assms(2) zs \<open>zs \<noteq> []\<close> last_in_set by fastforce
    qed
    then show ?thesis using zs by simp
  qed simp
qed (use assms in simp)

definition partial_path :: "fpath \<Rightarrow> bool" where
  "partial_path q \<longleftrightarrow> q \<noteq> [] \<and> list_all name_ok q \<and> ends_with (last q) PART_SUFFIX"

lemma collect_orphans_partial:
  "p \<in> set (collect_orphan_partials covered rel es) \<Longrightarrow> node_ok (Dir es) \<Longrightarrow> list_all name_ok rel \<Longrightarrow> partial_path p"
proof (induction covered rel es rule: collect_orphan_partials.induct)
  case (4 covered rel nm c m es)
  have "partial_path (rel @ [nm])" if "ends_with (rel_slash (rel @ [nm])) PART_SUFFIX"
    using join_ends [OF that [unfolded rel_slash_def]] 4(3,4) by (auto simp: partial_path_def PART_SUFFIX_def)
  then show ?case using 4 by (auto simp: Let_def strip_suffix_def split: option.splits if_splits)
qed auto

lemma remove_all_scan:
  "good root d \<Longrightarrow> \<forall>p \<in> set ps. partial_path p \<Longrightarrow>
   good root (remove_all root ps d) \<and> scan_unchanged root {} d (remove_all root ps d)"
proof (induction root ps d rule: remove_all.induct)
  case (1 root d)
  then show ?case by (simp add: scan_unchanged_def)
next
  case (2 root p ps d)
  show ?case
  proof (cases "remove_file (root @ p) d")
    case (Inl e)
    then show ?thesis using 2(1) [OF Inl] 2(3,4) by simp
  next
    case (Inr d1)
    have b: "below root (root @ p)" using 2(4) good_names [OF 2(3)] by (auto simp: below_def partial_path_def strict_prefix_def)
    have g1: "good root d1" using good_remove [OF 2(3) b Inr] .
    have n: "list_all name_ok (butlast (root @ p))" using b by (auto simp: below_def list_all_iff dest: in_set_butlastD)
    let ?d2 = "prune_empty_dirs root (root @ p) d1"
    have g2: "good root ?d2" "file_at ?d2 = (file_at d)(root @ p := None)"
      using prune_dirs_files [OF g1 n] file_at_remove [OF Inr] by (simp_all add: prune_empty_dirs_def)
    have "scan_unchanged root {} d ?d2" using g2(2) 2(4) by (auto simp: scan_unchanged_def partial_path_def in_scan_def)
    moreover have "good root (remove_all root ps ?d2) \<and> scan_unchanged root {} ?d2 (remove_all root ps ?d2)"
      using 2(2) [OF Inr g2(1)] 2(4) by simp
    ultimately show ?thesis using Inr scan_unchanged_trans [of root "{}" d ?d2 "{}"] by simp
  qed
qed

lemma sweep_scan:
  assumes "good root d"
  shows "good root (remove_orphan_partials root manifest selection d) \<and> scan_unchanged root {} d (remove_orphan_partials root manifest selection d)"
proof -
  obtain es where es: "lookup d root = Some (Dir es)" using assms by (auto simp: good_def is_dir_def split: option.splits node.splits)
  have "node_ok (Dir es)" using node_ok_lookup [OF _ es] assms by (simp add: good_def)
  then have "\<forall>p \<in> set (collect_orphan_partials covered [] es). partial_path p" for covered
    using collect_orphans_partial by auto
  then show ?thesis using es remove_all_scan [OF assms] by (simp add: remove_orphan_partials_def Let_def)
qed

section \<open>End to end\<close>

text \<open>The local file that a scan lists under a path.\<close>

definition seen :: "(bytes \<Rightarrow> bytes) \<Rightarrow> fpath \<Rightarrow> node \<Rightarrow> string \<Rightarrow> local_file option" where
  "seen sha root d x = (if in_scan (cs x) then
     map_option (\<lambda>c. \<lparr>lf_path = x, lf_sha256 = sha256_file sha c, lf_size = of_nat (length c)\<rparr>) (file_at d (root @ cs x)) else None)"

lemma rel_slash_cs_id [simp]: "rel_slash (cs x) = x"
  by (simp add: rel_slash_def)

lemma file_names:
  assumes "good root d" and "file_at d (root @ q) = Some c"
  shows "list_all name_ok q"
proof -
  have "lookup d (root @ q) \<noteq> None" using assms(2) by (auto simp: file_at_def split: option.splits)
  then show ?thesis using node_ok_names [of d "root @ q"] assms(1) by (simp add: good_def)
qed

lemma scan_seen:
  assumes "good root d"
  shows "\<exists>loc. scan_local_dir sha d root = Inr loc \<and> held_at loc = seen sha root d \<and> (\<forall>x \<in> lf_path ` set loc. canonical x)"
proof -
  obtain loc where loc: "scan_local_dir sha d root = Inr loc" "distinct (map lf_path loc)"
      "set loc = {\<lparr>lf_path = rel_slash q, lf_sha256 = sha256_file sha c, lf_size = of_nat (length c)\<rparr> |q c.
        file_at d (root @ q) = Some c \<and> in_scan q}"
    using scan_full [OF assms] by blast
  have listed: "\<exists>c. file_at d (root @ cs x) = Some c \<and> in_scan (cs x) \<and> canonical x" if lx: "x \<in> lf_path ` set loc" for x
  proof -
    obtain f where f: "f \<in> set loc" "x = lf_path f" using lx by blast
    then obtain q c where q: "x = rel_slash q" "file_at d (root @ q) = Some c" "in_scan q" unfolding loc(3) by force
    then have "cs x = q" using rel_slash_cs [OF file_names [OF assms q(2)]] by (simp add: in_scan_def)
    then show ?thesis using q file_names [OF assms q(2)] by (simp add: canonical_def)
  qed
  have "held_at loc x = seen sha root d x" for x
  proof (cases "x \<in> lf_path ` set loc")
    case True
    then obtain c where c: "file_at d (root @ cs x) = Some c" "in_scan (cs x)" using listed by blast
    let ?f = "\<lparr>lf_path = x, lf_sha256 = sha256_file sha c, lf_size = of_nat (length c)\<rparr>"
    have "?f \<in> set loc" unfolding loc(3) using c by (intro CollectI exI [of _ "cs x"] exI [of _ c]) simp
    then have "held_at loc x = Some ?f" using held_at_scan [OF loc(2)] by fastforce
    then show ?thesis using c by (simp add: seen_def)
  next
    case False
    have "file_at d (root @ cs x) = None" if i: "in_scan (cs x)"
    proof (rule ccontr)
      assume "file_at d (root @ cs x) \<noteq> None"
      then obtain c where c: "file_at d (root @ cs x) = Some c" by auto
      let ?f = "\<lparr>lf_path = x, lf_sha256 = sha256_file sha c, lf_size = of_nat (length c)\<rparr>"
      have "?f \<in> set loc" unfolding loc(3) using c i by (intro CollectI exI [of _ "cs x"] exI [of _ c]) simp
      then show False using False by force
    qed
    then show ?thesis using False held_at_None [of loc x] by (simp add: seen_def)
  qed
  then show ?thesis using loc(1) listed by blast
qed

text \<open>A fetched file as the next scan sees it needs no second fetch.\<close>

lemma fetched_not_needed:
  assumes "fetched_ok sha root es d" and "e \<in> set es" and "mirrored_path e" and "se_sha256 e \<noteq> []"
  shows "\<exists>l. seen sha root d (se_path e) = Some l \<and> \<not> needs_fetch (Some l) e"
  using assms in_scan_cs by (fastforce simp: fetched_ok_def verified_def seen_def needs_fetch_def sha256_file_def)

lemma apply_fetches_good:
  "apply_fetches sha root agent i es r s = (r', s') \<Longrightarrow> good root (sy_disk s) \<Longrightarrow> good root (sy_disk s')"
proof (induction sha root agent i es r s rule: apply_fetches.induct)
  case (2 sha root agent i e es r s)
  obtain stop s1 where p: "poll_cancelled s = (stop, s1)" by (cases "poll_cancelled s")
  obtain x s2 where d: "download_entry_with sha root e (agent e) (mark_file (se_path e) i s1) = (x, s2)"
    by (cases "download_entry_with sha root e (agent e) (mark_file (se_path e) i s1)")
  have g: "good root (sy_disk s2)" using download_good [OF d] p 2(4) by simp
  show ?case
  proof (cases stop)
    case True
    then show ?thesis using 2(3,4) p by auto
  next
    case False
    then show ?thesis
      using 2(1) [OF p [symmetric] False d [symmetric]] 2(2) [OF p [symmetric] False d [symmetric]] 2(3) p d g by (cases x) auto
  qed
qed simp

lemma apply_deletes_good:
  "apply_deletes root rels r d = (r', d') \<Longrightarrow> good root d \<Longrightarrow> good root d'"
proof (induction root rels r d rule: apply_deletes.induct)
  case (2 root rel rels r d)
  show ?case
  proof (cases "safe_dest root rel")
    case None
    then show ?thesis using 2 by simp
  next
    case (Some path)
    note b = safe_dest_below [OF 2(6) Some]
    show ?thesis
    proof (cases "remove_file path d")
      case (Inl e)
      then show ?thesis using 2(2) [OF Some Inl] 2(3) [OF Some Inl] 2(5,6) Some by (auto split: if_splits)
    next
      case (Inr d1)
      have "good root (prune_empty_dirs root path d1)"
        using prune_dirs_files [OF good_remove [OF 2(6) _ Inr]] b by (simp add: prune_empty_dirs_def)
      then show ?thesis using 2(4) [OF Some Inr] 2(5) Some Inr by simp
    qed
  qed
qed simp

lemma apply_plan_good:
  assumes "apply_plan_with sha root agent p s = (report, s')" and "good root (sy_disk s)"
  shows "good root (sy_disk s')"
  using assms by (auto simp: apply_plan_with_def split: prod.splits dest!: apply_fetches_good apply_deletes_good)

lemma apply_plan_scan:
  assumes "apply_plan_with sha root agent p s = (report, s')" and "ar_failed report = []" and "good root (sy_disk s)"
    and "\<forall>e \<in> set (sp_fetch p). mirrored_path e" and "distinct (map se_path (sp_fetch p))" and "\<forall>rel \<in> set (sp_delete p). canonical rel"
    and "cs ` se_path ` set (sp_fetch p) \<inter> cs ` set (sp_delete p) = {}"
  shows "good root (sy_disk s') \<and> fetched_ok sha root (sp_fetch p) (sy_disk s') \<and>
    scan_unchanged root (cs ` se_path ` set (sp_fetch p) \<union> cs ` set (sp_delete p)) (sy_disk s) (sy_disk s') \<and>
    (\<forall>rel \<in> set (sp_delete p). file_at (sy_disk s') (root @ cs rel) = None)"
proof -
  obtain r s1 where f: "apply_fetches sha root agent 0 (sp_fetch p) apply_report_default s = (r, s1)"
    by (cases "apply_fetches sha root agent 0 (sp_fetch p) apply_report_default s")
  obtain r' d where d: "apply_deletes root (sp_delete p) r (sy_disk s1) = (r', d)" by (cases "apply_deletes root (sp_delete p) r (sy_disk s1)")
  have e: "report = r'" "s' = s1\<lparr>sy_disk := d\<rparr>" using assms(1) f d by (auto simp: apply_plan_with_def)
  have r: "ar_failed r = []" using apply_deletes_failed [OF d] assms(2) e(1) by simp
  note one = apply_fetches_scan [OF f r assms(3,4,5)]
  then have two: "good root d \<and> file_at d = (\<lambda>p'. if p' \<in> (\<lambda>rel. root @ cs rel) ` set (sp_delete p) then None else file_at (sy_disk s1) p')"
    using apply_deletes_scan [OF d _ _ assms(6)] assms(2) e(1) by blast
  have off: "file_at d (root @ q) = file_at (sy_disk s1) (root @ q)" if "q \<notin> cs ` set (sp_delete p)" for q
    using two that by auto
  then have "scan_unchanged root (cs ` set (sp_delete p)) (sy_disk s1) d" by (simp add: scan_unchanged_def)
  moreover have "file_at d (root @ cs (se_path e)) = file_at (sy_disk s1) (root @ cs (se_path e))" if "e \<in> set (sp_fetch p)" for e
    using off assms(7) that by blast
  then have "fetched_ok sha root (sp_fetch p) d" using one by (simp add: fetched_ok_def)
  moreover have "\<forall>rel \<in> set (sp_delete p). file_at d (root @ cs rel) = None" using two by auto
  ultimately show ?thesis
    using two one scan_unchanged_trans [of root "cs ` se_path ` set (sp_fetch p)" "sy_disk s" "sy_disk s1" "cs ` set (sp_delete p)" d] by (simp add: e(2))
qed

lemma plan_distinct: "distinct (map se_path manifest) \<Longrightarrow> distinct (map se_path (sp_fetch (plan_with_selection manifest loc sel)))"
  by (simp add: plan_with_selection_def Let_def distinct_map_sort_key distinct_map_filter)

definition mirrorable :: "share_entry list \<Rightarrow> string list option \<Rightarrow> bool" where
  "mirrorable manifest selection \<longleftrightarrow> distinct (map se_path manifest) \<and>
     list_all (\<lambda>e. path_selected (se_path e) selection \<longrightarrow> mirrored_path e \<and> se_sha256 e \<noteq> []) manifest"

lemma applied_plan_carried_out:
  assumes "good root (sy_disk s)" and "held_at loc = seen sha root (sy_disk s)" and "\<forall>x \<in> lf_path ` set loc. canonical x"
    and "mirrorable manifest selection" and "p = plan_with_selection manifest loc selection"
    and "apply_plan_with sha root agent p (s\<lparr>sy_control := tc\<rparr>) = (report, s')" and "ar_failed report = []"
    and "good root d" and "scan_unchanged root {} (sy_disk s') d" and "held_at loc' = seen sha root d"
  shows "carried_out p loc loc'"
proof -
  have m: "mirrored_path e \<and> se_sha256 e \<noteq> []" if "e \<in> set (sp_fetch p)" for e
    using that assms(4,5) by (auto simp: set_sp_fetch mirrorable_def list_all_iff)
  have c: "canonical rel" if "rel \<in> set (sp_delete p)" for rel
    using that assms(3,5) by (auto simp: set_sp_delete)
  have "se_path e \<notin> set (sp_delete p)" if "e \<in> set (sp_fetch p)" for e
    using that assms(5) by (simp add: set_sp_fetch set_sp_delete)
  then have dj: "cs ` se_path ` set (sp_fetch p) \<inter> cs ` set (sp_delete p) = {}" by (auto simp: cs_inj)
  have ap: "fetched_ok sha root (sp_fetch p) (sy_disk s')"
      "scan_unchanged root (cs ` se_path ` set (sp_fetch p) \<union> cs ` set (sp_delete p)) (sy_disk s) (sy_disk s')"
      "\<forall>rel \<in> set (sp_delete p). file_at (sy_disk s') (root @ cs rel) = None"
    using apply_plan_scan [OF assms(6,7)] assms(1,4,5) m c dj plan_distinct by (auto simp: mirrorable_def)
  have same: "seen sha root d x = seen sha root (sy_disk s') x" for x
    using assms(9) by (simp add: seen_def scan_unchanged_def)
  have "held_at loc' (se_path e) \<noteq> None \<and> \<not> needs_fetch (held_at loc' (se_path e)) e" if "e \<in> set (sp_fetch p)" for e
    using fetched_not_needed [OF ap(1) that] m [OF that] by (auto simp: assms(10) same)
  moreover have "held_at loc' q = None" if "q \<in> set (sp_delete p)" for q
    using ap(3) that unfolding assms(10) same by (simp add: seen_def)
  moreover have "held_at loc' q = held_at loc q" if "q \<notin> se_path ` set (sp_fetch p)" "q \<notin> set (sp_delete p)" for q
  proof -
    have "cs q \<notin> cs ` se_path ` set (sp_fetch p) \<union> cs ` set (sp_delete p)" using that by (auto simp: cs_inj)
    then have "in_scan (cs q) \<Longrightarrow> file_at (sy_disk s') (root @ cs q) = file_at (sy_disk s) (root @ cs q)"
      using ap(2) by (simp add: scan_unchanged_def)
    then show ?thesis unfolding assms(2,10) same by (simp add: seen_def)
  qed
  ultimately show ?thesis by (auto simp: carried_out_def list_all_iff)
qed

text \<open>
  C4. A run that reports no failure leaves a mirror: if a non-dry run of the mirror over a well-formed folder comes back with a report without
  failures, a full scan of the folder afterwards lists exactly the selected files of the manifest, and
  the next plan against the same manifest is empty, whatever was in the folder before, whatever partial files earlier
  attempts left and however the agent cut its answers. (The selected paths are in canonical form, have a hash and do not end
  like a partial file, the manifest lists each path once, and the hash index is coherent; the disk's symbolic links lead nowhere.)
\<close>

theorem clean_run_leaves_mirror:
  assumes "node_ok (sy_disk s)" and "lookup (sy_disk s) root = Some (Dir es)"
    and "index_coherent sha (case index_path of Some ix \<Rightarrow> ix | None \<Rightarrow> Map.empty) es" and "mirrorable manifest selection"
    and "run_sync sha root share_id (Inr manifest) agent selection index_path False s = (Inr result, s', saved)"
    and "sr_report result = Some report" and "ar_failed report = []"
  shows "\<exists>loc. scan_local_dir sha (sy_disk s') root = Inr loc \<and> plan_is_empty (plan_with_selection manifest loc selection) \<and>
    set (map lf_path loc) = set (map se_path (filter (\<lambda>e. path_selected (se_path e) selection) manifest))"
proof -
  have g: "good root (sy_disk s)" using assms(1,2) by (simp add: good_def is_dir_def)
  have ok: "node_ok (Dir es)" using node_ok_lookup [OF assms(1,2)] .
  obtain loc0 fresh where sc: "scan_local_dir_indexed sha (sy_disk s) root (case index_path of Some ix \<Rightarrow> ix | None \<Rightarrow> Map.empty) = Inr (loc0, fresh)"
      "scan_local_dir sha (sy_disk s) root = Inr loc0" using indexed_scan [OF assms(2) ok assms(3)] by blast
  have l0: "held_at loc0 = seen sha root (sy_disk s)" "\<forall>x \<in> lf_path ` set loc0. canonical x"
    using scan_seen [OF g, of sha] sc(2) by auto
  let ?p = "plan_with_selection manifest loc0 selection"
  obtain i tc where a: "transfer_acquire share_id (of_nat (length (sp_fetch ?p))) (sum_list (map se_size (sp_fetch ?p))) (sy_control s) = (Some i, tc)"
    using assms(5) sc(1) by (auto simp: run_sync_def Let_def split: prod.splits option.splits)
  obtain rep s2 where ap: "apply_plan_with sha root agent ?p (s\<lparr>sy_control := tc\<rparr>) = (rep, s2)"
    by (cases "apply_plan_with sha root agent ?p (s\<lparr>sy_control := tc\<rparr>)")
  let ?d = "remove_orphan_partials root manifest selection (sy_disk s2)"
  have res: "rep = report" "sy_disk s' = ?d"
    using assms(5,6) sc(1) a ap by (auto simp: run_sync_def Let_def)
  have g2: "good root (sy_disk s2)"
    using apply_plan_good [OF ap] g by simp
  have g3: "good root ?d" "scan_unchanged root {} (sy_disk s2) ?d" using sweep_scan [OF g2] by auto
  obtain loc where loc: "scan_local_dir sha ?d root = Inr loc" "held_at loc = seen sha root ?d" using scan_seen [OF g3(1)] by blast
  have "carried_out ?p loc0 loc"
    using applied_plan_carried_out [OF g l0 assms(4) refl ap _ g3 loc(2)] assms(7) res(1) by simp
  moreover have "distinct (map se_path manifest)" using assms(4) by (simp add: mirrorable_def)
  ultimately show ?thesis using carried_out_converges loc(1) res(2) by metis
qed

definition run_start :: sync_state where
  "run_start = \<lparr>sy_disk = Dir [(''s'', Dir [(''a'', File [1, 2] (Some 5)), (''old'', File [3] None), (''x.xrsync-part'', File [7] None)])],
     sy_control = transfer_control_new, sy_calls = [], sy_now = Some 9\<rparr>"

definition run_manifest :: "share_entry list" where
  "run_manifest = [\<lparr>se_path = ''a'', se_size = 2, se_mtime = 0, se_sha256 = ''0102'', se_meta = None\<rparr>,
     \<lparr>se_path = ''d/b'', se_size = 2, se_mtime = 0, se_sha256 = ''0708'', se_meta = None\<rparr>]"

definition run_agent :: "share_entry \<Rightarrow> u64 \<Rightarrow> http_reply" where
  "run_agent e n = Reply 200 [Chunk [7], Chunk [8]]"

lemma run_clean:
  "case run_sync id [''s''] ''share'' (Inr run_manifest) run_agent None None False run_start of
     (Inr result, s', saved) \<Rightarrow> (case sr_report result of Some rep \<Rightarrow> ar_failed rep = [] \<and> ar_fetched rep = [''d/b''] \<and> ar_deleted rep = [''old''] | None \<Rightarrow> False)
   | _ \<Rightarrow> False"
  by code_simp

theorem clean_run_leaves_mirror_witness:
  "\<exists>result s' saved loc. run_sync id [''s''] ''share'' (Inr run_manifest) run_agent None None False run_start = (Inr result, s', saved) \<and>
     scan_local_dir id (sy_disk s') [''s''] = Inr loc \<and> set (map lf_path loc) = {''a'', ''d/b''}"
proof -
  obtain result s' saved rep where r: "run_sync id [''s''] ''share'' (Inr run_manifest) run_agent None None False run_start = (Inr result, s', saved)"
      "sr_report result = Some rep" "ar_failed rep = []"
    using run_clean by (auto split: prod.splits sum.splits option.splits)
  have n: "node_ok (sy_disk run_start)" by code_simp
  have m: "mirrorable run_manifest None" by code_simp
  have l: "lookup (sy_disk run_start) [''s''] =
      Some (Dir [(''a'', File [1, 2] (Some 5)), (''old'', File [3] None), (''x.xrsync-part'', File [7] None)])"
    by (simp add: run_start_def)
  have c: "index_coherent id (case None of Some ix \<Rightarrow> ix | None \<Rightarrow> Map.empty)
      [(''a'', File [1, 2] (Some 5)), (''old'', File [3] None), (''x.xrsync-part'', File [7] None)]" by code_simp
  have "set (map se_path (filter (\<lambda>e. path_selected (se_path e) None) run_manifest)) = {''a'', ''d/b''}"
    by (simp add: run_manifest_def path_selected_def)
  then show ?thesis using clean_run_leaves_mirror [OF n l c m r] r(1) by auto
qed

end
