(* ===== verification/Sync_Migrate.thy ===== *)
theory Sync_Migrate
  imports Sync_Mirror
begin



record mig_file =
  mf_abs :: fpath
  mf_rel :: string
  mf_size :: u64


function collect_dir :: "fpath \<Rightarrow> fpath \<Rightarrow> (string \<times> node) list \<Rightarrow> mig_file list" where
  "collect_dir root rel [] = []"
| "collect_dir root rel ((nm, Symlink) # es) = collect_dir root rel es"
| "collect_dir root rel ((nm, Dir ds) # es) = collect_dir root (rel @ [nm]) ds @ collect_dir root rel es"
| "collect_dir root rel ((nm, File c m) # es) =
     (if ends_with nm PART_SUFFIX then []
      else [\<lparr>mf_abs = root @ rel @ [nm], mf_rel = rel_slash (rel @ [nm]), mf_size = of_nat (length c)\<rparr>]) @ collect_dir root rel es"
  by pat_completeness auto
termination
  by (relation "measure (\<lambda>(root, rel, es). size_list (size_prod (\<lambda>_. 0) size) es)") auto

definition collect_files :: "node \<Rightarrow> fpath \<Rightarrow> mig_file list" where
  "collect_files d root = (case lookup d root of Some (Dir es) \<Rightarrow> sort_key mf_rel (collect_dir root [] es) | _ \<Rightarrow> [])"

definition dir_totals :: "node \<Rightarrow> fpath \<Rightarrow> nat \<times> u64" where
  "dir_totals d root = (let files = collect_files d root in (length files, sum_list (map mf_size files)))"











section \<open>Nothing is lost\<close>























end
