(* ===== verification/Sync_Transport.thy ===== *)
theory Sync_Transport
  imports Share
begin

text \<open>
  How the consumer of a share reaches its agent, \<^verbatim>\<open>xr-core/src/sync.rs\<close>: the order of the direct addresses and the relay, which
  errors move on to the next one, the pinned listing, and the calls that change the share. The HTTP client is
  third-party: what an address answers to a request is an argument, and every call returns the requests it sent. JSON and
  base64 are arguments too.

  The theorems: which attempt decides the outcome, and that a write never reaches an address that has not shown a listing
  signed with the pinned key.
\<close>

section \<open>Requests and answers\<close>

datatype transport = Plain | Pinned string
datatype http_method = GET | PUT | DELETE | POST

record request =
  rq_transport :: transport
  rq_method :: http_method
  rq_url :: string
  rq_bearer :: share_token
  rq_if_match :: "string option"
  rq_body :: bytes

datatype net_reply = NetError string | Answer nat "string option" "string option" "string + bytes"

type_synonym 'a outcome = "(string + 'a) \<times> request list"

definition is_success :: "nat \<Rightarrow> bool" where
  "is_success code \<longleftrightarrow> 200 \<le> code \<and> code < 300"

definition http_err :: "nat \<Rightarrow> string" where
  "http_err code = ''http_'' @ dec_string code"

definition bind_out :: "'a outcome \<Rightarrow> ('a \<Rightarrow> 'b outcome) \<Rightarrow> 'b outcome" where
  "bind_out x f = (case x of (Inl e, rs) \<Rightarrow> (Inl e, rs) | (Inr a, rs) \<Rightarrow> (case f a of (y, rs') \<Rightarrow> (y, rs @ rs')))"

lemma bind_out_simps [simp]:
  "bind_out (Inl e, rs) f = (Inl e, rs)"
  "bind_out (Inr a, rs) f = (fst (f a), rs @ snd (f a))"
  by (simp_all add: bind_out_def case_prod_beta)

section \<open>Which address decides\<close>

definition is_unreachable :: "string \<Rightarrow> bool" where
  "is_unreachable err \<longleftrightarrow> starts_with err ''network:''"

definition http_status :: "string \<Rightarrow> int option" where
  "http_status err = (case strip_prefix err ''http_'' of None \<Rightarrow> None | Some s \<Rightarrow> parse_unsigned 16 s)"

definition is_invite_gone :: "string \<Rightarrow> bool" where
  "is_invite_gone err \<longleftrightarrow> http_status err = Some 410"

definition should_try_next :: "string \<Rightarrow> bool" where
  "should_try_next err \<longleftrightarrow> is_unreachable err \<or> starts_with err ''manifest_signature'' \<or> err = ''manifest_unsigned''
     \<or> starts_with err ''parse:'' \<or> starts_with err ''read:'' \<or> starts_with err ''sha256 mismatch''
     \<or> (case http_status err of Some code \<Rightarrow> code = 404 \<or> 500 \<le> code \<and> code < 600 | None \<Rightarrow> False)"

definition ERR_AGENT_OFFLINE :: string where
  "ERR_AGENT_OFFLINE = ''agent_offline: '' @ ru ''agent Sary ne na svAzi''"

definition map_relay_outcome :: "string + 'a \<Rightarrow> bool \<Rightarrow> string + 'a" where
  "map_relay_outcome out agent_offline = (case out of
      Inl e \<Rightarrow> if is_unreachable e \<and> agent_offline then Inl ERR_AGENT_OFFLINE else Inl e
    | Inr v \<Rightarrow> Inr v)"

definition split_candidates :: "string \<Rightarrow> string list" where
  "split_candidates agent_url = filter (\<lambda>s. s \<noteq> []) (map trim (split_on CHR 0x0A agent_url))"

definition grant_direct_bases :: "share_grant \<Rightarrow> string list" where
  "grant_direct_bases g = map (\<lambda>a. ''http://'' @ a @ '':'' @ dec_string (unat (sg_port g)) @ ''/'' @ sg_share_id g) (candidate_addrs g)"

text \<open>
  The outside of one run: what \<^verbatim>\<open>GET /healthz\<close> at the host of a base URL gives (status and text) within the probe's
  deadline; whether the plain and the pinned client can be built; the relay leg (its local address, or the error of opening
  it) and whether the forwarder saw the agent missing.
\<close>

record outside =
  healthz :: "string \<Rightarrow> (nat \<times> string) option"
  http_client :: "string option"
  pinned_client :: "string \<Rightarrow> string option"
  relay_leg :: "relay_grant \<Rightarrow> string + string"
  leg_offline :: bool

definition HEALTHZ_BODY :: string where "HEALTHZ_BODY = ''ok''"

definition direct_reachable :: "outside \<Rightarrow> string \<Rightarrow> bool" where
  "direct_reachable out base = (http_client out = None \<and> (case healthz out base of
      None \<Rightarrow> False
    | Some (code, text) \<Rightarrow> is_success code \<and> trim text = HEALTHZ_BODY))"

definition no_answer_text :: "string \<Rightarrow> string" where
  "no_answer_text base = ''network: '' @ ru ''po adresu '' @ base @ ru '' agent Sary ne otveCaet''"

definition no_path_text :: string where
  "no_path_text = ''network: '' @ ru ''prAmoj putQ nedostupen'' @ '', relay '' @ ru ''ne zadan''"

text \<open>The loop over the direct addresses: the final outcome, or the last error and the requests sent so far.\<close>

fun direct_loop :: "outside \<Rightarrow> bool \<Rightarrow> (transport \<Rightarrow> string \<Rightarrow> 'a outcome) \<Rightarrow> string list \<Rightarrow> string option \<Rightarrow> request list \<Rightarrow>
    'a outcome + (string option \<times> request list)" where
  "direct_loop out has_relay op [] last_err rs = Inr (last_err, rs)"
| "direct_loop out has_relay op (base # bases) last_err rs =
     (let more_after = (bases \<noteq> [] \<or> has_relay) in
      if more_after \<and> \<not> direct_reachable out base
      then direct_loop out has_relay op bases (Some (no_answer_text base)) rs
      else (case http_client out of
          Some e \<Rightarrow> Inl (Inl e, rs)
        | None \<Rightarrow>
            (case op Plain base of
               (Inr v, rs') \<Rightarrow> Inl (Inr v, rs @ rs')
             | (Inl e, rs') \<Rightarrow>
                 if should_try_next e then direct_loop out has_relay op bases (Some e) (rs @ rs')
                 else Inl (Inl e, rs @ rs'))))"

definition run_relay :: "outside \<Rightarrow> string \<Rightarrow> relay_grant \<Rightarrow> string \<Rightarrow> (transport \<Rightarrow> string \<Rightarrow> 'a outcome) \<Rightarrow> 'a outcome" where
  "run_relay out agent_pubkey relay share_id op =
     (case relay_leg out relay of
        Inl e \<Rightarrow> (Inl e, [])
      | Inr local_addr \<Rightarrow>
          (case pinned_client out agent_pubkey of
             Some e \<Rightarrow> (Inl e, [])
           | None \<Rightarrow>
               (case op (Pinned agent_pubkey) (''https://'' @ local_addr @ ''/'' @ share_id) of
                  (r, rs) \<Rightarrow> (map_relay_outcome r (leg_offline out), rs))))"

definition direct_then_relay :: "outside \<Rightarrow> string list \<Rightarrow> string \<Rightarrow> relay_grant option \<Rightarrow> string \<Rightarrow>
    (transport \<Rightarrow> string \<Rightarrow> 'a outcome) \<Rightarrow> 'a outcome" where
  "direct_then_relay out candidates agent_pubkey relay share_id op =
     (case direct_loop out (relay \<noteq> None) op candidates None [] of
        Inl final \<Rightarrow> final
      | Inr (last_err, rs) \<Rightarrow>
          (case relay of
             None \<Rightarrow> (Inl (case last_err of Some e \<Rightarrow> e | None \<Rightarrow> no_path_text), rs)
           | Some g \<Rightarrow> (case run_relay out agent_pubkey g share_id op of (r, rs') \<Rightarrow> (r, rs @ rs'))))"

section \<open>The listing\<close>

fun manifest_sig_text :: "mandate_error \<Rightarrow> string" where
  "manifest_sig_text MalformedKey = ''malformed agent public key''"
| "manifest_sig_text MalformedSignature = ''malformed manifest signature''"
| "manifest_sig_text _ = ''manifest signature does not verify''"

definition base_url :: "string \<Rightarrow> string" where
  "base_url s = trim_end_char CHR ''/'' s"

definition fetch_manifest_with :: "crypto \<Rightarrow> (bytes \<Rightarrow> string + 'm) \<Rightarrow> (request \<Rightarrow> net_reply) \<Rightarrow> transport \<Rightarrow> string \<Rightarrow> share_token \<Rightarrow> string \<Rightarrow> 'm outcome" where
  "fetch_manifest_with cr from_json net tr base token agent_pubkey =
     (let rq = \<lparr>rq_transport = tr, rq_method = GET, rq_url = base_url base @ ''/manifest'', rq_bearer = token, rq_if_match = None, rq_body = []\<rparr> in
      ((case net rq of
          NetError e \<Rightarrow> Inl (''network: '' @ e)
        | Answer code sig signed_at body \<Rightarrow>
            if \<not> is_success code then Inl (http_err code)
            else (case body of
                Inl e \<Rightarrow> Inl (''read: '' @ e)
              | Inr bs \<Rightarrow>
                  (case (if agent_pubkey = [] then Inr ()
                         else (case parse_agent_pubkey cr agent_pubkey of
                             Inl e \<Rightarrow> Inl (''agent_pubkey: '' @ manifest_sig_text e)
                           | Inr key \<Rightarrow>
                               (case (sig, case signed_at of None \<Rightarrow> None | Some s \<Rightarrow> parse_unsigned 64 s) of
                                  (Some sg, Some at) \<Rightarrow>
                                    (case verify_share_manifest cr sg key (st_share_id token) (of_int at) bs of
                                       Inl e \<Rightarrow> Inl (''manifest_signature: '' @ manifest_sig_text e)
                                     | Inr _ \<Rightarrow> Inr ())
                                | _ \<Rightarrow> Inl ''manifest_unsigned''))) of
                     Inl e \<Rightarrow> Inl e
                   | Inr _ \<Rightarrow> (case from_json bs of Inl e \<Rightarrow> Inl (''parse: '' @ e) | Inr m \<Rightarrow> Inr m)))), [rq]))"

definition verify_agent_at :: "crypto \<Rightarrow> (bytes \<Rightarrow> string + 'm) \<Rightarrow> (request \<Rightarrow> net_reply) \<Rightarrow> transport \<Rightarrow> string \<Rightarrow> share_token \<Rightarrow> string \<Rightarrow> unit outcome" where
  "verify_agent_at cr from_json net tr base token agent_pubkey =
     (case fetch_manifest_with cr from_json net tr base token agent_pubkey of (r, rs) \<Rightarrow> (case r of Inl e \<Rightarrow> Inl e | Inr _ \<Rightarrow> Inr (), rs))"

definition fetch_manifest_relay :: "crypto \<Rightarrow> (bytes \<Rightarrow> string + 'm) \<Rightarrow> (request \<Rightarrow> net_reply) \<Rightarrow> outside \<Rightarrow> string \<Rightarrow> share_token \<Rightarrow> string \<Rightarrow>
    relay_grant option \<Rightarrow> 'm outcome" where
  "fetch_manifest_relay cr from_json net out agent_url token agent_pubkey relay =
     direct_then_relay out (split_candidates agent_url) agent_pubkey relay (st_share_id token)
       (\<lambda>tr base. fetch_manifest_with cr from_json net tr base token agent_pubkey)"

section \<open>Writing\<close>

text \<open>\<^verbatim>\<open>encode_path\<close>: percent-encoding that leaves slashes alone.\<close>

definition upper_hex :: "nat \<Rightarrow> char" where
  "upper_hex n = (if n < 10 then char_of (48 + n) else char_of (55 + n))"

definition encode_path :: "string \<Rightarrow> string" where
  "encode_path p = concat (map (\<lambda>c. if is_ascii_alphanumeric c \<or> c \<in> set ''-_.~/'' then [c]
     else [CHR ''%'', upper_hex (code_of c div 16), upper_hex (code_of c mod 16)]) p)"

definition ERR_NO_WRITE_SCOPE :: string where
  "ERR_NO_WRITE_SCOPE = ''no_write_scope: '' @ ru ''net prava zapisi na Etu Saru''"

definition file_request :: "transport \<Rightarrow> http_method \<Rightarrow> string \<Rightarrow> share_token \<Rightarrow> string \<Rightarrow> string option \<Rightarrow> bytes \<Rightarrow> request" where
  "file_request tr meth base token rel if_match body =
     \<lparr>rq_transport = tr, rq_method = meth, rq_url = base_url base @ ''/file/'' @ encode_path rel, rq_bearer = token, rq_if_match = if_match, rq_body = body\<rparr>"

text \<open>The local file to upload: its bytes, or the error of opening it.\<close>

definition upload_with :: "(request \<Rightarrow> net_reply) \<Rightarrow> transport \<Rightarrow> string \<Rightarrow> share_token \<Rightarrow> string \<Rightarrow> string + bytes \<Rightarrow> string option \<Rightarrow> unit outcome" where
  "upload_with net tr base token rel local_file if_match =
     (case local_file of
        Inl e \<Rightarrow> (Inl (''open: '' @ e), [])
      | Inr content \<Rightarrow>
          (let rq = file_request tr PUT base token rel if_match content in
           (case net rq of
              NetError e \<Rightarrow> Inl (''network: '' @ e)
            | Answer code _ _ _ \<Rightarrow> if code = 201 \<or> code = 204 then Inr () else Inl (http_err code), [rq])))"

definition delete_with :: "(request \<Rightarrow> net_reply) \<Rightarrow> transport \<Rightarrow> string \<Rightarrow> share_token \<Rightarrow> string \<Rightarrow> string option \<Rightarrow> unit outcome" where
  "delete_with net tr base token rel if_match =
     (let rq = file_request tr DELETE base token rel if_match [] in
      (case net rq of
         NetError e \<Rightarrow> Inl (''network: '' @ e)
       | Answer code _ _ _ \<Rightarrow> if code = 204 then Inr () else if code = 404 then Inl ''not_found'' else Inl (http_err code), [rq]))"

definition verified_op :: "crypto \<Rightarrow> (bytes \<Rightarrow> string + 'm) \<Rightarrow> (request \<Rightarrow> net_reply) \<Rightarrow> share_grant \<Rightarrow> share_token \<Rightarrow>
    (transport \<Rightarrow> string \<Rightarrow> 'a outcome) \<Rightarrow> transport \<Rightarrow> string \<Rightarrow> 'a outcome" where
  "verified_op cr from_json net g token act tr base =
     (if 1 < length (grant_direct_bases g)
      then bind_out (verify_agent_at cr from_json net tr base token (sg_agent_pubkey g)) (\<lambda>_. act tr base)
      else act tr base)"

definition upload_file :: "crypto \<Rightarrow> (string \<Rightarrow> string + share_token) \<Rightarrow> (bytes \<Rightarrow> string + 'm) \<Rightarrow> (request \<Rightarrow> net_reply) \<Rightarrow> outside \<Rightarrow> share_grant \<Rightarrow>
    string \<Rightarrow> string + bytes \<Rightarrow> string option \<Rightarrow> unit outcome" where
  "upload_file cr decode_share_token from_json net out g rel local_file expected_hash =
     (case decode_share_token (sg_token g) of
        Inl e \<Rightarrow> (Inl e, [])
      | Inr token \<Rightarrow>
          if \<not> scope_contains (st_scope token) SCOPE_WRITE then (Inl ERR_NO_WRITE_SCOPE, [])
          else direct_then_relay out (grant_direct_bases g) (sg_agent_pubkey g) (sg_relay g) (st_share_id token)
            (verified_op cr from_json net g token (\<lambda>tr base. upload_with net tr base token rel local_file expected_hash)))"

definition delete_file :: "crypto \<Rightarrow> (string \<Rightarrow> string + share_token) \<Rightarrow> (bytes \<Rightarrow> string + 'm) \<Rightarrow> (request \<Rightarrow> net_reply) \<Rightarrow> outside \<Rightarrow> share_grant \<Rightarrow>
    string \<Rightarrow> string option \<Rightarrow> unit outcome" where
  "delete_file cr decode_share_token from_json net out g rel expected_hash =
     (case decode_share_token (sg_token g) of
        Inl e \<Rightarrow> (Inl e, [])
      | Inr token \<Rightarrow>
          if \<not> scope_contains (st_scope token) SCOPE_WRITE then (Inl ERR_NO_WRITE_SCOPE, [])
          else direct_then_relay out (grant_direct_bases g) (sg_agent_pubkey g) (sg_relay g) (st_share_id token)
            (verified_op cr from_json net g token (\<lambda>tr base. delete_with net tr base token rel expected_hash)))"

section \<open>Importing\<close>

definition ERR_NO_IMPORT_SCOPE :: string where
  "ERR_NO_IMPORT_SCOPE = ''no_import_scope: '' @ ru ''net prava importa na Etu Saru''"
definition ERR_NO_IMPORT_PLUGIN :: string where
  "ERR_NO_IMPORT_PLUGIN = ''no_plugin: '' @ ru ''net plagina pod Etu ssylku''"
definition ERR_IMPORT_JOB_LOST :: string where
  "ERR_IMPORT_JOB_LOST = ''job_lost: '' @ ru ''agent perezapustilsA, zadanie poterAlosQ''"
definition ERR_IMPORT_OFF :: string where
  "ERR_IMPORT_OFF = ''import_off: '' @ ru ''import na Etoj Sare vyklUCen u agenta''"
definition ERR_IMPORT_QUEUE_FULL :: string where
  "ERR_IMPORT_QUEUE_FULL = ''queue_full: '' @ ru ''oCeredQ importa zanAta, poprobuj pozZe''"

text \<open>The answer to the start of an import; \<open>job_id\<close> reads the identifier out of the JSON answer.\<close>

definition import_answer :: "(bytes \<Rightarrow> string + string option) \<Rightarrow> (bytes \<Rightarrow> string) \<Rightarrow> nat \<Rightarrow> string + bytes \<Rightarrow> string + string" where
  "import_answer job_id text code body =
     (if code = 202 then
        (case body of
           Inl e \<Rightarrow> Inl (''parse: '' @ e)
         | Inr bs \<Rightarrow> (case job_id bs of
               Inl e \<Rightarrow> Inl (''parse: '' @ e)
             | Inr None \<Rightarrow> Inl (''parse: '' @ ru ''net'' @ '' job_id '' @ ru ''v otvete'')
             | Inr (Some j) \<Rightarrow> Inr j))
      else if code = 422 then Inl ERR_NO_IMPORT_PLUGIN
      else if code = 403 then Inl ERR_IMPORT_OFF
      else if code = 429 then Inl ERR_IMPORT_QUEUE_FULL
      else if code = 400 then
        (let b = trim (case body of Inl _ \<Rightarrow> [] | Inr bs \<Rightarrow> text bs) in
         Inl (if b = [] then ''bad_request: '' @ ru ''agent otklonil zapros'' else ''bad_request: '' @ b))
      else Inl (http_err code))"

definition import_request :: "transport \<Rightarrow> http_method \<Rightarrow> string \<Rightarrow> share_token \<Rightarrow> bytes \<Rightarrow> request" where
  "import_request tr meth url token body =
     \<lparr>rq_transport = tr, rq_method = meth, rq_url = url, rq_bearer = token, rq_if_match = None, rq_body = body\<rparr>"

definition import_url :: "crypto \<Rightarrow> (string \<Rightarrow> string + share_token) \<Rightarrow> (bytes \<Rightarrow> string + 'm) \<Rightarrow> (bytes \<Rightarrow> string + string option) \<Rightarrow> (bytes \<Rightarrow> string) \<Rightarrow>
    (string \<Rightarrow> string \<Rightarrow> u32 option \<Rightarrow> bytes) \<Rightarrow> (request \<Rightarrow> net_reply) \<Rightarrow> outside \<Rightarrow> share_grant \<Rightarrow> string \<Rightarrow> string \<Rightarrow> u32 option \<Rightarrow> string outcome" where
  "import_url cr decode_share_token from_json job_id text to_json net out g url dest height =
     (case decode_share_token (sg_token g) of
        Inl e \<Rightarrow> (Inl e, [])
      | Inr token \<Rightarrow>
          if \<not> scope_contains (st_scope token) SCOPE_IMPORT then (Inl ERR_NO_IMPORT_SCOPE, [])
          else direct_then_relay out (grant_direct_bases g) (sg_agent_pubkey g) (sg_relay g) (st_share_id token)
            (verified_op cr from_json net g token (\<lambda>tr base.
               (let rq = import_request tr POST (base_url base @ ''/import'') token (to_json url dest height) in
                (case net rq of
                   NetError e \<Rightarrow> Inl (''network: '' @ e)
                 | Answer code _ _ body \<Rightarrow> import_answer job_id text code body, [rq])))))"

definition import_status :: "(string \<Rightarrow> string + share_token) \<Rightarrow> (bytes \<Rightarrow> string + 'j) \<Rightarrow> (request \<Rightarrow> net_reply) \<Rightarrow> outside \<Rightarrow> share_grant \<Rightarrow> string \<Rightarrow> 'j outcome" where
  "import_status decode_share_token status_json net out g job_id =
     (case decode_share_token (sg_token g) of
        Inl e \<Rightarrow> (Inl e, [])
      | Inr token \<Rightarrow>
          if \<not> scope_contains (st_scope token) SCOPE_IMPORT then (Inl ERR_NO_IMPORT_SCOPE, [])
          else direct_then_relay out (grant_direct_bases g) (sg_agent_pubkey g) (sg_relay g) (st_share_id token)
            (\<lambda>tr base. let rq = import_request tr GET (base_url base @ ''/import/'' @ job_id) token [] in
               (case net rq of
                  NetError e \<Rightarrow> Inl (''network: '' @ e)
                | Answer code _ _ body \<Rightarrow>
                    if code = 200 then (case (case body of Inl e \<Rightarrow> Inl e | Inr bs \<Rightarrow> status_json bs) of Inl e \<Rightarrow> Inl (''parse: '' @ e) | Inr j \<Rightarrow> Inr j)
                    else if code = 404 then Inl ERR_IMPORT_JOB_LOST
                    else Inl (http_err code), [rq])))"

definition import_cancel :: "(string \<Rightarrow> string + share_token) \<Rightarrow> (request \<Rightarrow> net_reply) \<Rightarrow> outside \<Rightarrow> share_grant \<Rightarrow> string \<Rightarrow> unit outcome" where
  "import_cancel decode_share_token net out g job_id =
     (case decode_share_token (sg_token g) of
        Inl e \<Rightarrow> (Inl e, [])
      | Inr token \<Rightarrow>
          if \<not> scope_contains (st_scope token) SCOPE_IMPORT then (Inl ERR_NO_IMPORT_SCOPE, [])
          else direct_then_relay out (grant_direct_bases g) (sg_agent_pubkey g) (sg_relay g) (st_share_id token)
            (\<lambda>tr base. let rq = import_request tr DELETE (base_url base @ ''/import/'' @ job_id) token [] in
               (case net rq of
                  NetError e \<Rightarrow> Inl (''network: '' @ e)
                | Answer code _ _ _ \<Rightarrow> if code = 204 \<or> code = 404 then Inr () else Inl (http_err code), [rq])))"

section \<open>Which attempt decides\<close>

text \<open>The addresses at which the operation is run at all: the ones that pass the probe, and the last one when nothing follows it.\<close>

fun eligible :: "bool \<Rightarrow> (string \<Rightarrow> bool) \<Rightarrow> string list \<Rightarrow> string list" where
  "eligible has_relay alive [] = []"
| "eligible has_relay alive (b # bs) =
     (if (bs \<noteq> [] \<or> has_relay) \<and> \<not> alive b then [] else [b]) @ eligible has_relay alive bs"

definition decisive :: "string + 'a \<Rightarrow> bool" where
  "decisive r = (case r of Inl e \<Rightarrow> \<not> should_try_next e | Inr _ \<Rightarrow> True)"

fun attempt_errors :: "bool \<Rightarrow> (string \<Rightarrow> bool) \<Rightarrow> (transport \<Rightarrow> string \<Rightarrow> 'a outcome) \<Rightarrow> string list \<Rightarrow> string list" where
  "attempt_errors has_relay alive op [] = []"
| "attempt_errors has_relay alive op (b # bs) =
     (if (bs \<noteq> [] \<or> has_relay) \<and> \<not> alive b then no_answer_text b
      else (case fst (op Plain b) of Inl e \<Rightarrow> e | Inr _ \<Rightarrow> [])) # attempt_errors has_relay alive op bs"

lemma direct_loop_find:
  assumes "http_client out = None"
  shows "(case direct_loop out has_relay op bs last_err rs of
      Inl final \<Rightarrow> \<exists>b. find (\<lambda>b. decisive (fst (op Plain b))) (eligible has_relay (direct_reachable out) bs) = Some b \<and> fst final = fst (op Plain b)
    | Inr (le, rs') \<Rightarrow> find (\<lambda>b. decisive (fst (op Plain b))) (eligible has_relay (direct_reachable out) bs) = None \<and>
        le = last (last_err # map Some (attempt_errors has_relay (direct_reachable out) op bs)))"
  using assms
proof (induction out has_relay op bs last_err rs rule: direct_loop.induct)
  case (2 out has_relay op base bases last_err rs)
  obtain x rs' where o: "op Plain base = (x, rs')" by (cases "op Plain base")
  show ?case
  proof (cases "(bases \<noteq> [] \<or> has_relay) \<and> \<not> direct_reachable out base")
    case True
    then show ?thesis using 2(1) [OF refl True 2(3)] by (auto split: sum.splits)
  next
    case False
    show ?thesis
    proof (cases "decisive x")
      case True
      then show ?thesis using False 2(3) o by (cases x) (auto simp: decisive_def)
    next
      case nd: False
      then obtain e where e: "x = Inl e" "should_try_next e" by (cases x) (auto simp: decisive_def)
      then show ?thesis using 2(2) [OF refl False 2(3) o [symmetric] e(1) e(2) 2(3)] False 2(3) o nd by (auto split: sum.splits)
    qed
  qed
qed simp

text \<open>
  The first trustworthy answer decides: the outcome of \<^verbatim>\<open>direct_then_relay\<close> is that of the operation at the first direct address, in
  order, that passes the health probe (or has nothing after it) and whose answer is a success or an error only the real agent
  gives; only when there is no such address is it the relay's, and without a relay the last attempt's error. A stranger's
  error page at an early address never decides.
\<close>

theorem first_trusted_answer_decides:
  assumes "http_client out = None"
  shows "fst (direct_then_relay out candidates agent_pubkey relay share_id op) =
    (case find (\<lambda>b. decisive (fst (op Plain b))) (eligible (relay \<noteq> None) (direct_reachable out) candidates) of
       Some b \<Rightarrow> fst (op Plain b)
     | None \<Rightarrow> (case relay of
          Some g \<Rightarrow> fst (run_relay out agent_pubkey g share_id op)
        | None \<Rightarrow> Inl (last (no_path_text # attempt_errors False (direct_reachable out) op candidates))))"
proof (cases "direct_loop out (relay \<noteq> None) op candidates None []")
  case (Inl final)
  then show ?thesis using direct_loop_find [OF assms, where has_relay = "relay \<noteq> None" and op = op and bs = candidates and last_err = None and rs = "[]"] by (auto simp: direct_then_relay_def)
next
  case (Inr p)
  obtain le rs where p: "p = (le, rs)" by (cases p)
  have f: "find (\<lambda>b. decisive (fst (op Plain b))) (eligible (relay \<noteq> None) (direct_reachable out) candidates) = None"
      "le = last (None # map Some (attempt_errors (relay \<noteq> None) (direct_reachable out) op candidates))"
    using direct_loop_find [OF assms, where has_relay = "relay \<noteq> None" and op = op and bs = candidates and last_err = None and rs = "[]"] Inr p by auto
  show ?thesis
  proof (cases relay)
    case None
    let ?es = "attempt_errors False (direct_reachable out) op candidates"
    have "(case le of Some e \<Rightarrow> e | None \<Rightarrow> no_path_text) = last (no_path_text # ?es)"
      using f(2) None by (cases "?es = []") (simp_all add: last_map)
    then show ?thesis using Inr p f(1) None by (simp add: direct_then_relay_def)
  next
    case (Some g)
    then show ?thesis using Inr p f(1) by (simp add: direct_then_relay_def split: prod.splits)
  qed
qed

definition stranger_first :: outside where
  "stranger_first = \<lparr>healthz = (\<lambda>b. if b = ''http://b/s'' then Some (200, ''ok'') else Some (200, ''<html>'')), http_client = None,
     pinned_client = (\<lambda>_. None), relay_leg = (\<lambda>_. Inr []), leg_offline = False\<rparr>"

definition share_at_b :: "transport \<Rightarrow> string \<Rightarrow> nat outcome" where
  "share_at_b tr b = (if b = ''http://b/s'' then Inr 1 else Inl ''http_404'', [])"

theorem first_trusted_answer_decides_witness:
  "fst (direct_then_relay stranger_first [''http://a/s'', ''http://b/s'', ''http://c/s''] ''k'' None ''s'' share_at_b) = Inr 1"
proof -
  have c: "http_client stranger_first = None" by (simp add: stranger_first_def)
  have "eligible (None \<noteq> (None :: relay_grant option)) (direct_reachable stranger_first) [''http://a/s'', ''http://b/s'', ''http://c/s''] = [''http://b/s'', ''http://c/s'']"
    by code_simp
  note e = this
  show ?thesis unfolding first_trusted_answer_decides [OF c] e by (simp add: share_at_b_def decisive_def)
qed

section \<open>A write never reaches a stranger\<close>

lemma direct_loop_requests:
  "rq \<in> set (case direct_loop out has_relay op bs last_err rs of Inl final \<Rightarrow> snd final | Inr (le, rs') \<Rightarrow> rs') \<Longrightarrow>
   rq \<in> set rs \<or> (\<exists>b \<in> set bs. rq \<in> set (snd (op Plain b)))"
proof (induction out has_relay op bs last_err rs rule: direct_loop.induct)
  case (2 out has_relay op base bases last_err rs)
  obtain x rs' where o: "op Plain base = (x, rs')" by (cases "op Plain base")
  show ?case
  proof (cases "(bases \<noteq> [] \<or> has_relay) \<and> \<not> direct_reachable out base")
    case True
    then show ?thesis using 2(1) [OF refl True] 2(3) by (auto split: sum.splits)
  next
    case False
    show ?thesis
    proof (cases "http_client out")
      case (Some e)
      then show ?thesis using 2(3) unfolding direct_loop.simps Let_def if_not_P [OF False] by simp
    next
      case None
      show ?thesis
      proof (cases "\<exists>e. x = Inl e \<and> should_try_next e")
        case True
        then obtain e where e: "x = Inl e" "should_try_next e" by blast
        have l: "direct_loop out has_relay op (base # bases) last_err rs = direct_loop out has_relay op bases (Some e) (rs @ rs')"
          unfolding direct_loop.simps Let_def if_not_P [OF False] using None o e by simp
        show ?thesis using 2(2) [OF refl False None o [symmetric] e] 2(3) o unfolding l by auto
      next
        case nt: False
        then have "direct_loop out has_relay op (base # bases) last_err rs = Inl (x, rs @ rs')"
          unfolding direct_loop.simps Let_def if_not_P [OF False] using None o by (cases x) auto
        then show ?thesis using 2(3) o by auto
      qed
    qed
  qed
qed simp

lemma dtr_requests:
  assumes "rq \<in> set (snd (direct_then_relay out candidates agent_pubkey relay share_id op))"
  shows "(\<exists>b \<in> set candidates. rq \<in> set (snd (op Plain b))) \<or> (\<exists>b. rq \<in> set (snd (op (Pinned agent_pubkey) b)))"
proof -
  have relay: "\<exists>b. r \<in> set (snd (op (Pinned agent_pubkey) b))" if "r \<in> set (snd (run_relay out agent_pubkey g share_id op))" for r g
  proof (cases "relay_leg out g")
    case (Inr a)
    then show ?thesis using that
      by (cases "pinned_client out agent_pubkey") (auto simp: run_relay_def split: prod.splits intro!: exI [of _ "''https://'' @ a @ ''/'' @ share_id"])
  qed (use that in \<open>simp add: run_relay_def\<close>)
  have "rq \<in> set (case direct_loop out (relay \<noteq> None) op candidates None [] of Inl final \<Rightarrow> snd final | Inr (le, rs') \<Rightarrow> rs') \<or>
      (\<exists>g. rq \<in> set (snd (run_relay out agent_pubkey g share_id op)))"
  proof (cases "direct_loop out (relay \<noteq> None) op candidates None []")
    case (Inl final)
    then show ?thesis using assms by (simp add: direct_then_relay_def)
  next
    case (Inr p)
    then show ?thesis using assms
    proof (cases relay)
      case (Some g)
      then show ?thesis using assms Inr by (cases p; cases "run_relay out agent_pubkey g share_id op") (auto simp: direct_then_relay_def intro!: exI [of _ g])
    qed (auto simp: direct_then_relay_def split: prod.splits)
  qed
  then show ?thesis using direct_loop_requests [of rq out "relay \<noteq> None" op candidates None "[]"] relay by auto
qed

text \<open>An address has shown a listing of the share that is signed with the pinned key.\<close>

definition shown_listing :: "crypto \<Rightarrow> (request \<Rightarrow> net_reply) \<Rightarrow> string \<Rightarrow> share_token \<Rightarrow> string \<Rightarrow> bool" where
  "shown_listing cr net base token agent_pubkey \<longleftrightarrow>
     (\<exists>code sig at_text at bs key.
        net \<lparr>rq_transport = Plain, rq_method = GET, rq_url = base_url base @ ''/manifest'', rq_bearer = token, rq_if_match = None, rq_body = []\<rparr> =
          Answer code (Some sig) (Some at_text) (Inr bs) \<and>
        parse_agent_pubkey cr agent_pubkey = Inr key \<and> verify_share_manifest cr sig key (st_share_id token) at bs = Inr ())"

lemma fetch_manifest_shown:
  assumes "fst (fetch_manifest_with cr from_json net Plain base token agent_pubkey) = Inr m" and "agent_pubkey \<noteq> []"
  shows "shown_listing cr net base token agent_pubkey"
  using assms unfolding fetch_manifest_with_def shown_listing_def Let_def
  by (fastforce split: net_reply.splits if_splits sum.splits option.splits)

lemma verify_agent_requests: "rq \<in> set (snd (verify_agent_at cr from_json net tr base token pk)) \<Longrightarrow> rq_method rq = GET"
  by (auto simp: verify_agent_at_def fetch_manifest_with_def Let_def split: prod.splits)

lemma verified_op_requests:
  assumes "rq \<in> set (snd (verified_op cr from_json net g token act Plain base))" and "rq_method rq \<noteq> GET"
    and "1 < length (grant_direct_bases g)" and "sg_agent_pubkey g \<noteq> []"
  shows "rq \<in> set (snd (act Plain base)) \<and> shown_listing cr net base token (sg_agent_pubkey g)"
proof -
  obtain r rs where v: "verify_agent_at cr from_json net Plain base token (sg_agent_pubkey g) = (r, rs)"
    by (cases "verify_agent_at cr from_json net Plain base token (sg_agent_pubkey g)")
  have not_rs: "rq \<notin> set rs" using verify_agent_requests [of rq cr from_json net Plain base token "sg_agent_pubkey g"] v assms(2) by auto
  have b: "rq \<in> set (snd (bind_out (r, rs) (\<lambda>_. act Plain base)))" using assms(1,3) v by (simp add: verified_op_def)
  then obtain u where u: "r = Inr u" using not_rs by (cases r) auto
  then have "rq \<in> set (snd (act Plain base))" using b not_rs by simp
  moreover have "\<exists>m. fst (fetch_manifest_with cr from_json net Plain base token (sg_agent_pubkey g)) = Inr m" (is "\<exists>m. ?f m")
    using v u unfolding verify_agent_at_def
    by (cases "fetch_manifest_with cr from_json net Plain base token (sg_agent_pubkey g)"; cases "fst (fetch_manifest_with cr from_json net Plain base token (sg_agent_pubkey g))") auto
  then obtain m where "?f m" by (elim exE)
  then have "shown_listing cr net base token (sg_agent_pubkey g)" using assms(4) by (rule fetch_manifest_shown)
  ultimately show ?thesis by (intro conjI)
qed

lemma write_requests:
  assumes "1 < length (grant_direct_bases g)" and "sg_agent_pubkey g \<noteq> []" and "decode_share_token (sg_token g) = Inr token"
    and "rs = snd (upload_file cr decode_share_token from_json net out g rel local_file expected) \<or>
         rs = snd (delete_file cr decode_share_token from_json net out g rel expected)"
    and "rq \<in> set rs" and "rq_method rq \<noteq> GET"
  shows "rq_bearer rq = token \<and>
    (rq_transport rq = Pinned (sg_agent_pubkey g) \<or>
     (\<exists>base \<in> set (grant_direct_bases g). rq_url rq = base_url base @ ''/file/'' @ encode_path rel \<and>
        shown_listing cr net base token (sg_agent_pubkey g)))"
proof -
  let ?up = "\<lambda>tr base. upload_with net tr base token rel local_file expected"
  let ?del = "\<lambda>tr base. delete_with net tr base token rel expected"
  have sc: "scope_contains (st_scope token) SCOPE_WRITE"
    using assms(3,4,5) by (auto simp: upload_file_def delete_file_def split: if_splits)
  obtain act where act: "act = ?up \<or> act = ?del"
      "rq \<in> set (snd (direct_then_relay out (grant_direct_bases g) (sg_agent_pubkey g) (sg_relay g) (st_share_id token) (verified_op cr from_json net g token act)))"
    using assms(3,4,5) sc by (auto simp: upload_file_def delete_file_def)
  have one: "rq \<in> set (snd (act tr base)) \<Longrightarrow> rq_transport rq = tr \<and> rq_bearer rq = token \<and> rq_url rq = base_url base @ ''/file/'' @ encode_path rel" for tr base
    using act(1) by (auto simp: upload_with_def delete_with_def file_request_def Let_def split: sum.splits)
  from dtr_requests [OF act(2)] show ?thesis
  proof (elim disjE bexE exE)
    fix b
    assume b: "b \<in> set (grant_direct_bases g)" "rq \<in> set (snd (verified_op cr from_json net g token act Plain b))"
    then show ?thesis using verified_op_requests [OF b(2) assms(6,1,2)] one by blast
  next
    fix b
    assume "rq \<in> set (snd (verified_op cr from_json net g token act (Pinned (sg_agent_pubkey g)) b))"
    then have "rq \<in> set (snd (act (Pinned (sg_agent_pubkey g)) b))"
      using assms(1,6) verify_agent_requests [of rq cr from_json net "Pinned (sg_agent_pubkey g)" b token "sg_agent_pubkey g"]
      by (cases "verify_agent_at cr from_json net (Pinned (sg_agent_pubkey g)) b token (sg_agent_pubkey g)";
          cases "fst (verify_agent_at cr from_json net (Pinned (sg_agent_pubkey g)) b token (sg_agent_pubkey g))")
        (auto simp: verified_op_def)
    then show ?thesis using one by blast
  qed
qed

text \<open>
  C16. A write never reaches a stranger: of the requests that \<^verbatim>\<open>upload_file\<close> and \<^verbatim>\<open>delete_file\<close> send for a share with several direct addresses
  and a pinned key, each one that changes something carries the grant's token and goes either over the connection that is pinned to that key or to
  a direct address that answers the request for the listing, under the same token, with one of this very share signed with that key. If the
  token does not have the write scope, no request at all is sent, not even one for the listing. (What an address answers is a function of the request.)
\<close>

theorem writes_reach_pinned_agent_only:
  assumes "1 < length (grant_direct_bases g)" and "sg_agent_pubkey g \<noteq> []" and "decode_share_token (sg_token g) = Inr token"
    and "rs = snd (upload_file cr decode_share_token from_json net out g rel local_file expected) \<or>
         rs = snd (delete_file cr decode_share_token from_json net out g rel expected)"
  shows "(\<not> scope_contains (st_scope token) SCOPE_WRITE \<longrightarrow> rs = []) \<and>
    (\<forall>rq \<in> set rs. rq_method rq \<noteq> GET \<longrightarrow> rq_bearer rq = token \<and>
      (rq_transport rq = Pinned (sg_agent_pubkey g) \<or>
       (\<exists>base \<in> set (grant_direct_bases g). rq_url rq = base_url base @ ''/file/'' @ encode_path rel \<and>
          shown_listing cr net base token (sg_agent_pubkey g))))"
proof (intro conjI impI ballI)
  assume "\<not> scope_contains (st_scope token) SCOPE_WRITE"
  then show "rs = []" using assms(3,4) by (auto simp: upload_file_def delete_file_def)
next
  fix rq
  assume rq: "rq \<in> set rs" "rq_method rq \<noteq> GET"
  then have "rq_bearer rq = token \<and> (rq_transport rq = Pinned (sg_agent_pubkey g) \<or>
      (\<exists>base \<in> set (grant_direct_bases g). rq_url rq = base_url base @ ''/file/'' @ encode_path rel \<and> shown_listing cr net base token (sg_agent_pubkey g)))"
    using write_requests [OF assms] by blast
  then show "rq_bearer rq = token" "rq_transport rq = Pinned (sg_agent_pubkey g) \<or>
      (\<exists>base \<in> set (grant_direct_bases g). rq_url rq = base_url base @ ''/file/'' @ encode_path rel \<and> shown_listing cr net base token (sg_agent_pubkey g))"
    by blast+
qed

definition two_address_grant :: share_grant where
  "two_address_grant = \<lparr>sg_share_id = ''s1'', sg_name = [], sg_addr = ''pub'', sg_addrs = [''lan''], sg_port = 80, sg_agent_pubkey = frame_text (replicate 32 0),
     sg_token = ''t'', sg_exp = 9, sg_relay = None\<rparr>"

definition write_token :: share_token where
  "write_token = \<lparr>st_share_id = ''s1'', st_scope = ''share:read share:write'', st_exp = 9, st_signature = []\<rparr>"

definition agent_net :: "request \<Rightarrow> net_reply" where
  "agent_net rq = (if rq_method rq = GET then Answer 200 (Some (frame_text (replicate 64 0))) (Some ''9'') (Inr [1, 2]) else Answer 201 None None (Inr []))"

definition all_up :: outside where
  "all_up = \<lparr>healthz = (\<lambda>_. Some (200, ''ok'')), http_client = None, pinned_client = (\<lambda>_. None), relay_leg = (\<lambda>_. Inr []), leg_offline = False\<rparr>"

definition demo_upload :: "unit outcome" where
  "demo_upload = upload_file (example_crypto only_listing) (\<lambda>_. Inr write_token) (\<lambda>bs. Inr bs) agent_net all_up two_address_grant ''a'' (Inr [5]) None"

lemma demo_upload_runs: "list_ex (\<lambda>rq. rq_method rq = PUT \<and> rq_transport rq = Plain) (snd demo_upload)"
proof -
  let ?cr = "example_crypto only_listing"
  have "grant_direct_bases two_address_grant = [''http://lan:80/s1'', ''http://pub:80/s1''] \<and> trim ''ok'' = ''ok'' \<and> parse_unsigned 64 ''9'' = Some 9 \<and>
      scope_contains (st_scope write_token) SCOPE_WRITE" by code_simp
  then have bases: "grant_direct_bases two_address_grant = [''http://lan:80/s1'', ''http://pub:80/s1'']" and ok: "trim ''ok'' = ''ok''"
      and nine: "parse_unsigned 64 ''9'' = Some 9" and sc: "scope_contains (st_scope write_token) SCOPE_WRITE" by simp_all
  have "parse_agent_pubkey ?cr (sg_agent_pubkey two_address_grant) = Inr (replicate 32 0)"
    by (simp add: parse_agent_pubkey_def example_crypto_def two_address_grant_def trim_framed unframe_frame)
  moreover have "verify_share_manifest ?cr (frame_text (replicate 64 0)) key (st_share_id write_token) 9 [1, 2] = Inr ()" for key
    by (simp add: verify_share_manifest_def check_signature_def example_crypto_def trim_framed unframe_frame only_listing_def write_token_def)
  ultimately have v: "fst (verify_agent_at ?cr (\<lambda>bs. Inr bs :: string + bytes) agent_net Plain base write_token (sg_agent_pubkey two_address_grant)) = Inr ()" for base
    by (simp add: verify_agent_at_def fetch_manifest_with_def agent_net_def is_success_def nine)
  obtain rs where "verify_agent_at ?cr (\<lambda>bs. Inr bs :: string + bytes) agent_net Plain ''http://lan:80/s1'' write_token (sg_agent_pubkey two_address_grant) = (Inr (), rs)"
    using v [of "''http://lan:80/s1''"] by (metis prod.collapse)
  then show ?thesis
    by (simp add: demo_upload_def upload_file_def sc bases direct_then_relay_def Let_def direct_reachable_def all_up_def is_success_def ok HEALTHZ_BODY_def
        verified_op_def upload_with_def agent_net_def file_request_def)
qed

theorem writes_reach_pinned_agent_only_witness:
  "\<exists>rq \<in> set (snd demo_upload). rq_method rq = PUT \<and>
     (\<exists>base \<in> set (grant_direct_bases two_address_grant). shown_listing (example_crypto only_listing) agent_net base write_token (sg_agent_pubkey two_address_grant))"
proof -
  obtain rq where rq: "rq \<in> set (snd demo_upload)" "rq_method rq = PUT" "rq_transport rq = Plain"
    using demo_upload_runs by (auto simp: list_ex_iff)
  have l: "1 < length (grant_direct_bases two_address_grant)" by code_simp
  have k: "sg_agent_pubkey two_address_grant \<noteq> []" by (simp add: two_address_grant_def frame_text_def)
  have "snd demo_upload = snd (upload_file (example_crypto only_listing) (\<lambda>_. Inr write_token) (\<lambda>bs. Inr bs) agent_net all_up two_address_grant ''a'' (Inr [5]) None)"
    by (simp add: demo_upload_def)
  from writes_reach_pinned_agent_only [OF l k refl disjI1 [OF this]] rq show ?thesis by (intro bexI [of _ rq]) auto
qed

end
