(* ===== verification/Relay_Server.thy ===== *)
theory Relay_Server
  imports Share
begin

text \<open>
  The relay, \<^verbatim>\<open>xr-relay/src/registry.rs\<close> and \<^verbatim>\<open>xr-relay/src/lib.rs\<close>: the registry of agents with its generations, the byte
  counters, the budgets per address, and the handlers of a connection. Every \<^verbatim>\<open>await\<close> of a handler
  is a point where the other handlers run, so a handler is a task with a program counter and a step of the relay is
  one move of one task. What a peer sends, whether a send succeeds, the clock, the random nonce and the JSON parser
  are inputs of a move; a multiplexer is its number and whether it is alive.
\<close>

section \<open>Registry, counters, budgets\<close>

record registered =
  rm_mux :: nat
  rm_generation :: u64

record agent_registry =
  ar_inner :: "string \<rightharpoonup> registered"
  ar_next_gen :: u64

definition registry_new :: agent_registry where
  "registry_new = \<lparr>ar_inner = Map.empty, ar_next_gen = 0\<rparr>"

text \<open>\<^verbatim>\<open>AgentRegistry::register\<close> draws its generation before it waits for the lock, so it is two steps. The second
  answers the multiplexer to shut down.\<close>

definition registry_draw :: "agent_registry \<Rightarrow> u64 \<times> agent_registry" where
  "registry_draw r = (ar_next_gen r, r\<lparr>ar_next_gen := ar_next_gen r + 1\<rparr>)"

definition registry_insert :: "string \<Rightarrow> nat \<Rightarrow> u64 \<Rightarrow> agent_registry \<Rightarrow> nat option \<times> agent_registry" where
  "registry_insert pubkey mux generation r =
     (map_option rm_mux (ar_inner r pubkey), r\<lparr>ar_inner := (ar_inner r)(pubkey \<mapsto> \<lparr>rm_mux = mux, rm_generation = generation\<rparr>)\<rparr>)"

definition registry_get :: "string \<Rightarrow> agent_registry \<Rightarrow> nat option" where
  "registry_get pubkey r = map_option rm_mux (ar_inner r pubkey)"

definition registry_deregister :: "string \<Rightarrow> u64 \<Rightarrow> agent_registry \<Rightarrow> agent_registry" where
  "registry_deregister pubkey generation r =
     (if map_option rm_generation (ar_inner r pubkey) = Some generation then r\<lparr>ar_inner := (ar_inner r)(pubkey := None)\<rparr> else r)"

definition counters_add :: "string \<Rightarrow> u64 \<Rightarrow> (string \<rightharpoonup> u64) \<Rightarrow> string \<rightharpoonup> u64" where
  "counters_add share_id n m = (if n = 0 then m else m(share_id \<mapsto> (case m share_id of None \<Rightarrow> 0 | Some v \<Rightarrow> v) + n))"

definition try_acquire :: "nat \<Rightarrow> ip_addr \<Rightarrow> (ip_addr \<rightharpoonup> nat) \<Rightarrow> bool \<times> (ip_addr \<rightharpoonup> nat)" where
  "try_acquire limit ip m =
     (let m1 = (if m ip = None then m(ip \<mapsto> 0) else m); count = the (m1 ip) in
      if limit \<le> count then (False, m1) else (True, m1(ip \<mapsto> count + 1)))"

definition release :: "ip_addr \<Rightarrow> (ip_addr \<rightharpoonup> nat) \<Rightarrow> ip_addr \<rightharpoonup> nat" where
  "release ip m = (case m ip of
      None \<Rightarrow> m
    | Some count \<Rightarrow> if count - 1 = 0 then m(ip := None) else m(ip \<mapsto> count - 1))"

section \<open>Handlers\<close>

definition REGISTER_NONCE_LEN :: nat where "REGISTER_NONCE_LEN = 32"
definition RELAY_CONNECT_TARGET :: string where "RELAY_CONNECT_TARGET = ''xr-relay:connect''"
definition RELAY_REGISTER_TARGET :: string where "RELAY_REGISTER_TARGET = ''xr-relay:register''"
definition RELAY_HELLO_OK :: u8 where "RELAY_HELLO_OK = 1"

text \<open>The deployment: the hub's key, the limits, and the JSON parser of the two hellos.\<close>

record relay_env =
  re_crypto :: crypto
  re_hub_key :: bytes
  re_max_streams :: nat
  re_max_reg_per_ip :: nat
  re_parse_register :: "bytes \<Rightarrow> relay_register option"
  re_parse_token :: "bytes \<Rightarrow> relay_token option"

text \<open>
  Where a handler stands, named by what it does next. \<^verbatim>\<open>handle_register\<close>: the acknowledgement, the challenge, the answer to its
  nonce, the address budget, the generation, the insertion, the verdict, the wait for the stream's end, deregistration,
  shutdown, the return (with or without a budget to give back). \<^verbatim>\<open>handle_connect\<close>: the permit, the acknowledgement, the hello,
  the lookup, the reverse stream, the verdict, the splice, the counters; \<open>Closing\<close> sends a \<^verbatim>\<open>Close\<close> and returns, \<open>Refusing\<close> the
  same without a permit.
\<close>

datatype pc =
    RegAck | RegChallenge | RegAnswer bytes | RegBudget string | RegDraw string | RegInsert string u64
  | RegVerdict string u64 | RegHeld string u64 | RegLeave string u64 | RegShutdown | RegReturn bool bool
  | ConPermit | Refusing | ConAck | ConHello | ConLookup relay_token | ConOpen relay_token nat | ConVerdict relay_token nat
  | ConSplice relay_token nat | ConCount relay_token u64 | Closing bytes | ConReturn | Finished

datatype status = Serving | Uplink | Closed

record conn =
  cn_ip :: ip_addr
  cn_alive :: bool
  cn_status :: status

record task =
  tk_conn :: nat
  tk_stream :: u32
  tk_pc :: pc

text \<open>The last four fields are for the statements: the registrations that were verified (connection, key, nonce, answer, time),
  the transit tokens that were (with the time), how many generations were drawn, and the frames handed to the multiplexers.\<close>

record relay_sys =
  registry :: agent_registry
  counters :: "string \<rightharpoonup> u64"
  ip_caps :: "ip_addr \<rightharpoonup> nat"
  permits :: nat
  conns :: "conn list"
  tasks :: "task list"
  proofs :: "(nat \<times> string \<times> bytes \<times> relay_register \<times> u64) list"
  tokens :: "(relay_token \<times> u64) list"
  draws :: nat
  frames :: "(nat \<times> u32 \<times> command \<times> bytes) list"

datatype reply = Sent bool | Received "bytes option" u64 | Nonce bytes | Reversed bool | Moved u64 | Go

definition alive :: "nat \<Rightarrow> relay_sys \<Rightarrow> bool" where
  "alive m s \<longleftrightarrow> m < length (conns s) \<and> cn_alive (conns s ! m)"

definition shutdown :: "nat \<Rightarrow> relay_sys \<Rightarrow> relay_sys" where
  "shutdown m s = (if m < length (conns s) then s\<lparr>conns := (conns s)[m := (conns s ! m)\<lparr>cn_alive := False\<rparr>]\<rparr> else s)"

definition set_status :: "status \<Rightarrow> nat \<Rightarrow> relay_sys \<Rightarrow> relay_sys" where
  "set_status x m s = (if m < length (conns s) then s\<lparr>conns := (conns s)[m := (conns s ! m)\<lparr>cn_status := x\<rparr>]\<rparr> else s)"

definition sent_frame :: "nat \<Rightarrow> u32 \<Rightarrow> command \<Rightarrow> bytes \<Rightarrow> relay_sys \<Rightarrow> relay_sys" where
  "sent_frame m sid c p s = s\<lparr>frames := (m, sid, c, p) # frames s\<rparr>"

text \<open>A send that the multiplexer takes or refuses.\<close>

definition on_send :: "reply \<Rightarrow> (bool \<Rightarrow> pc \<times> relay_sys) \<Rightarrow> (pc \<times> relay_sys) option" where
  "on_send ev k = (case ev of Sent ok \<Rightarrow> Some (k ok) | _ \<Rightarrow> None)"

definition on_receive :: "reply \<Rightarrow> (bytes option \<Rightarrow> u64 \<Rightarrow> pc \<times> relay_sys) \<Rightarrow> (pc \<times> relay_sys) option" where
  "on_receive ev k = (case ev of Received b now \<Rightarrow> Some (k b now) | _ \<Rightarrow> None)"

definition on_go :: "reply \<Rightarrow> pc \<times> relay_sys \<Rightarrow> (pc \<times> relay_sys) option" where
  "on_go ev r = (if ev = Go then Some r else None)"

fun register_step :: "relay_env \<Rightarrow> reply \<Rightarrow> nat \<Rightarrow> u32 \<Rightarrow> pc \<Rightarrow> relay_sys \<Rightarrow> (pc \<times> relay_sys) option" where
  "register_step env ev m sid RegAck s =
     on_send ev (\<lambda>ok. if ok then (RegChallenge, sent_frame m sid ConnectAck [0] s) else (RegReturn False False, s))"
| "register_step env ev m sid RegChallenge s =
     (case ev of Nonce n \<Rightarrow>
        if length n = REGISTER_NONCE_LEN then Some (RegAnswer n, sent_frame m sid Data n s) else None
      | Sent ok \<Rightarrow> if ok then None else Some (RegReturn False False, s)
      | _ \<Rightarrow> None)"
| "register_step env ev m sid (RegAnswer nonce) s =
     on_receive ev (\<lambda>answer now.
       case answer of
         None \<Rightarrow> (RegReturn True False, s)
       | Some bs \<Rightarrow>
           (case re_parse_register env bs of
              None \<Rightarrow> (RegReturn True False, s)
            | Some reg \<Rightarrow>
                (case verify_relay_register (re_crypto env) reg (re_hub_key env) nonce now of
                   Inl e \<Rightarrow> (RegReturn True False, s)
                 | Inr pk \<Rightarrow> (RegBudget pk, s\<lparr>proofs := (m, pk, nonce, reg, now) # proofs s\<rparr>))))"
| "register_step env ev m sid (RegBudget pk) s =
     on_go ev (case try_acquire (re_max_reg_per_ip env) (cn_ip (conns s ! m)) (ip_caps s) of (ok, caps) \<Rightarrow>
       (if ok then RegDraw pk else RegReturn True False, s\<lparr>ip_caps := caps\<rparr>))"
| "register_step env ev m sid (RegDraw pk) s =
     on_go ev (case registry_draw (registry s) of (g, r) \<Rightarrow> (RegInsert pk g, s\<lparr>registry := r, draws := draws s + 1\<rparr>))"
| "register_step env ev m sid (RegInsert pk g) s =
     on_go ev (case registry_insert pk m g (registry s) of (old, r) \<Rightarrow>
       (RegVerdict pk g, (case old of None \<Rightarrow> s | Some old_mux \<Rightarrow> shutdown old_mux s)\<lparr>registry := r\<rparr>))"
| "register_step env ev m sid (RegVerdict pk g) s =
     on_send ev (\<lambda>ok. (RegHeld pk g, if ok then sent_frame m sid Data [RELAY_HELLO_OK] s else s))"
| "register_step env ev m sid (RegHeld pk g) s =
     on_receive ev (\<lambda>b now. (case b of Some _ \<Rightarrow> RegHeld pk g | None \<Rightarrow> RegLeave pk g, s))"
| "register_step env ev m sid (RegLeave pk g) s =
     on_go ev (RegShutdown, s\<lparr>registry := registry_deregister pk g (registry s)\<rparr>)"
| "register_step env ev m sid RegShutdown s = on_go ev (RegReturn True True, shutdown m s)"
| "register_step env ev m sid (RegReturn ok slot) s =
     on_go ev (Finished,
       set_status Closed m
         (let s1 = (if slot then s\<lparr>ip_caps := release (cn_ip (conns s ! m)) (ip_caps s)\<rparr> else s) in
          if ok then shutdown m s1 else s1))"
| "register_step env ev m sid _ s = None"

fun connect_step :: "relay_env \<Rightarrow> reply \<Rightarrow> nat \<Rightarrow> u32 \<Rightarrow> pc \<Rightarrow> relay_sys \<Rightarrow> (pc \<times> relay_sys) option" where
  "connect_step env ev m sid ConPermit s =
     on_go ev (case permits s of 0 \<Rightarrow> (Refusing, s) | Suc n \<Rightarrow> (ConAck, s\<lparr>permits := n\<rparr>))"
| "connect_step env ev m sid Refusing s =
     on_send ev (\<lambda>ok. (Finished, if ok then sent_frame m sid Close [CLOSE_REASON_RELAY_BUSY] s else s))"
| "connect_step env ev m sid ConAck s =
     on_send ev (\<lambda>ok. if ok then (ConHello, sent_frame m sid ConnectAck [0] s) else (ConReturn, s))"
| "connect_step env ev m sid ConHello s =
     on_receive ev (\<lambda>hello now.
       case hello of
         None \<Rightarrow> (ConReturn, s)
       | Some bs \<Rightarrow>
           (case re_parse_token env bs of
              None \<Rightarrow> (Closing [], s)
            | Some tok \<Rightarrow>
                (case verify_relay_token (re_crypto env) tok (re_hub_key env) (rl_share_id tok) (rl_agent_pubkey tok) now of
                   Inl e \<Rightarrow> (Closing [], s)
                 | Inr _ \<Rightarrow> (ConLookup tok, s\<lparr>tokens := (tok, now) # tokens s\<rparr>))))"
| "connect_step env ev m sid (ConLookup tok) s =
     on_go ev (case registry_get (rl_agent_pubkey tok) (registry s) of
         Some a \<Rightarrow> if alive a s then (ConOpen tok a, s) else (Closing [CLOSE_REASON_AGENT_OFFLINE], s)
       | None \<Rightarrow> (Closing [CLOSE_REASON_AGENT_OFFLINE], s))"
| "connect_step env ev m sid (ConOpen tok a) s =
     (case ev of Reversed ok \<Rightarrow> Some (if ok then ConVerdict tok a else Closing [CLOSE_REASON_CONNECT_FAIL], s) | _ \<Rightarrow> None)"
| "connect_step env ev m sid (ConVerdict tok a) s =
     on_send ev (\<lambda>ok. if ok then (ConSplice tok a, sent_frame m sid Data [RELAY_HELLO_OK] s) else (ConReturn, s))"
| "connect_step env ev m sid (ConSplice tok a) s =
     (case ev of Moved n \<Rightarrow> Some (ConCount tok n, s) | _ \<Rightarrow> None)"
| "connect_step env ev m sid (ConCount tok n) s =
     on_go ev (ConReturn, s\<lparr>counters := counters_add (rl_share_id tok) n (counters s)\<rparr>)"
| "connect_step env ev m sid (Closing p) s =
     on_send ev (\<lambda>ok. (ConReturn, if ok then sent_frame m sid Close p s else s))"
| "connect_step env ev m sid ConReturn s = on_go ev (Finished, s\<lparr>permits := permits s + 1\<rparr>)"
| "connect_step env ev m sid _ s = None"

text \<open>The loop of \<^verbatim>\<open>handle_connection\<close> over new streams: what one of them starts, by its target.\<close>

definition dispatch_stream :: "bytes \<Rightarrow> pc option" where
  "dispatch_stream p = (case target_addr_decode p of
      Inr (TaDomain d _, _) \<Rightarrow>
        if d = RELAY_REGISTER_TARGET then Some RegAck else if d = RELAY_CONNECT_TARGET then Some ConPermit else None
    | _ \<Rightarrow> None)"

definition new_stream :: "nat \<Rightarrow> u32 \<Rightarrow> bytes \<Rightarrow> relay_sys \<Rightarrow> relay_sys" where
  "new_stream m sid p s = (case dispatch_stream p of
      None \<Rightarrow> sent_frame m sid Close [] s
    | Some c \<Rightarrow>
        (if c = RegAck then set_status Uplink m s else s)\<lparr>tasks := tasks s @ [\<lparr>tk_conn = m, tk_stream = sid, tk_pc = c\<rparr>]\<rparr>)"

text \<open>What can happen: a connection passes the handshake, a stream arrives on a connection whose loop runs, the loop ends,
  a multiplexer dies, or a task moves.\<close>

datatype relay_action = Arrive ip_addr | Stream nat u32 bytes | Eof nat | Die nat | Move nat reply

definition move_task :: "relay_env \<Rightarrow> nat \<Rightarrow> reply \<Rightarrow> relay_sys \<Rightarrow> relay_sys option" where
  "move_task env k ev s =
     (if k < length (tasks s) then
        (let t = tasks s ! k;
             r = (case register_step env ev (tk_conn t) (tk_stream t) (tk_pc t) s of
                    None \<Rightarrow> connect_step env ev (tk_conn t) (tk_stream t) (tk_pc t) s | Some x \<Rightarrow> Some x) in
         map_option (\<lambda>(c, s1). s1\<lparr>tasks := (tasks s)[k := t\<lparr>tk_pc := c\<rparr>]\<rparr>) r)
      else None)"

fun relay_move :: "relay_env \<Rightarrow> relay_action \<Rightarrow> relay_sys \<Rightarrow> relay_sys option" where
  "relay_move env (Arrive ip) s = Some (s\<lparr>conns := conns s @ [\<lparr>cn_ip = ip, cn_alive = True, cn_status = Serving\<rparr>]\<rparr>)"
| "relay_move env (Stream m sid p) s =
     (if m < length (conns s) \<and> cn_status (conns s ! m) = Serving then Some (new_stream m sid p s) else None)"
| "relay_move env (Eof m) s =
     (if m < length (conns s) \<and> cn_status (conns s ! m) = Serving then Some (set_status Closed m (shutdown m s)) else None)"
| "relay_move env (Die m) s = Some (shutdown m s)"
| "relay_move env (Move k ev) s = move_task env k ev s"

definition relay_start :: "relay_env \<Rightarrow> relay_sys" where
  "relay_start env = \<lparr>registry = registry_new, counters = Map.empty, ip_caps = Map.empty, permits = re_max_streams env,
     conns = [], tasks = [], proofs = [], tokens = [], draws = 0, frames = []\<rparr>"

definition relay_init :: "relay_env \<Rightarrow> relay_sys \<Rightarrow> bool" where
  "relay_init env s \<longleftrightarrow> s = relay_start env"

definition relay_step :: "relay_env \<Rightarrow> relay_sys \<Rightarrow> relay_sys \<Rightarrow> bool" where
  "relay_step env s t \<longleftrightarrow> (\<exists>a. relay_move env a s = Some t)"

section \<open>Moves\<close>

fun holds_permit :: "pc \<Rightarrow> bool" where
  "holds_permit ConAck = True"
| "holds_permit ConHello = True"
| "holds_permit (ConLookup _) = True"
| "holds_permit (ConOpen _ _) = True"
| "holds_permit (ConVerdict _ _) = True"
| "holds_permit (ConSplice _ _) = True"
| "holds_permit (ConCount _ _) = True"
| "holds_permit (Closing _) = True"
| "holds_permit ConReturn = True"
| "holds_permit _ = False"

fun holds_cap :: "pc \<Rightarrow> bool" where
  "holds_cap (RegDraw _) = True"
| "holds_cap (RegInsert _ _) = True"
| "holds_cap (RegVerdict _ _) = True"
| "holds_cap (RegHeld _ _) = True"
| "holds_cap (RegLeave _ _) = True"
| "holds_cap RegShutdown = True"
| "holds_cap (RegReturn _ slot) = slot"
| "holds_cap _ = False"

text \<open>The registration a handler owns, before and after it is in the map.\<close>

fun registration :: "pc \<Rightarrow> (string \<times> u64) option" where
  "registration (RegInsert pk g) = Some (pk, g)"
| "registration (RegVerdict pk g) = Some (pk, g)"
| "registration (RegHeld pk g) = Some (pk, g)"
| "registration (RegLeave pk g) = Some (pk, g)"
| "registration _ = None"

fun_cases register_stepE: "register_step env ev m sid c s = Some (c', s')"

fun_cases connect_stepE: "connect_step env ev m sid c s = Some (c', s')"

lemmas move_simps = on_send_def on_receive_def on_go_def sent_frame_def shutdown_def set_status_def Let_def

lemma ips_update: "m < length cs \<Longrightarrow> cn_ip x = cn_ip (cs ! m) \<Longrightarrow> map cn_ip (cs[m := x]) = map cn_ip cs"
  by (metis list_update_id map_update)

lemma register_frame:
  assumes "register_step env ev m sid c s = Some (c', s')"
  shows "permits s' = permits s \<and> tasks s' = tasks s \<and> tokens s' = tokens s \<and> map cn_ip (conns s') = map cn_ip (conns s)
    \<and> counters s' = counters s \<and> \<not> holds_permit c \<and> \<not> holds_permit c'"
  using assms
  by (elim register_stepE) (auto simp: move_simps ips_update split: reply.splits option.splits sum.splits if_splits prod.splits)

lemma connect_frame:
  assumes "connect_step env ev m sid c s = Some (c', s')"
  shows "registry s' = registry s \<and> ip_caps s' = ip_caps s \<and> tasks s' = tasks s \<and> proofs s' = proofs s \<and> conns s' = conns s
    \<and> draws s' = draws s \<and> \<not> holds_cap c \<and> \<not> holds_cap c' \<and> registration c = None \<and> registration c' = None"
  using assms
  by (elim connect_stepE) (auto simp: move_simps split: reply.splits option.splits sum.splits if_splits prod.splits nat.splits)

lemma relay_step_cases:
  assumes "relay_step env s t"
  obtains (outside) ts more where "tasks t = tasks s @ ts" and "length ts \<le> 1"
      and "\<forall>x \<in> set ts. tk_conn x < length (conns s) \<and> (tk_pc x = RegAck \<or> tk_pc x = ConPermit)"
      and "registry t = registry s" and "counters t = counters s" and "ip_caps t = ip_caps s" and "permits t = permits s"
      and "proofs t = proofs s" and "tokens t = tokens s" and "draws t = draws s"
      and "map cn_ip (conns t) = map cn_ip (conns s) @ more" and "set (frames s) \<subseteq> set (frames t)"
  | (register) k ev c s' where "k < length (tasks s)"
      and "register_step env ev (tk_conn (tasks s ! k)) (tk_stream (tasks s ! k)) (tk_pc (tasks s ! k)) s = Some (c, s')"
      and "t = s'\<lparr>tasks := (tasks s)[k := (tasks s ! k)\<lparr>tk_pc := c\<rparr>]\<rparr>"
  | (connect) k ev c s' where "k < length (tasks s)"
      and "connect_step env ev (tk_conn (tasks s ! k)) (tk_stream (tasks s ! k)) (tk_pc (tasks s ! k)) s = Some (c, s')"
      and "t = s'\<lparr>tasks := (tasks s)[k := (tasks s ! k)\<lparr>tk_pc := c\<rparr>]\<rparr>"
proof -
  obtain a where a: "relay_move env a s = Some t" using assms unfolding relay_step_def by blast
  show thesis
  proof (cases a)
    case (Arrive ip)
    then show thesis using a by (intro outside [of "[]" "[ip]"]) auto
  next
    case (Stream m sid p)
    then have m: "m < length (conns s)" and t: "t = new_stream m sid p s" using a by (auto split: if_splits)
    show thesis
    proof (cases "dispatch_stream p")
      case None
      then show thesis using m t by (intro outside [of "[]" "[]"]) (auto simp: new_stream_def move_simps)
    next
      case (Some c)
      then have "c = RegAck \<or> c = ConPermit" by (auto simp: dispatch_stream_def split: sum.splits target_addr.splits if_splits)
      then show thesis using m t Some
        by (intro outside [of "[\<lparr>tk_conn = m, tk_stream = sid, tk_pc = c\<rparr>]" "[]"]) (auto simp: new_stream_def move_simps ips_update)
    qed
  next
    case (Eof m)
    then show thesis using a by (intro outside [of "[]" "[]"]) (auto simp: move_simps ips_update split: if_splits)
  next
    case (Die m)
    then show thesis using a by (intro outside [of "[]" "[]"]) (auto simp: move_simps ips_update split: if_splits)
  next
    case (Move k ev)
    then show thesis using a register [of k ev] connect [of k ev]
      by (auto simp: move_task_def Let_def split: if_splits option.splits)
  qed
qed

section \<open>Budgets\<close>

definition stream_budget :: "relay_env \<Rightarrow> relay_sys \<Rightarrow> bool" where
  "stream_budget env s \<longleftrightarrow> permits s + count_where (\<lambda>x. holds_permit (tk_pc x)) (tasks s) = re_max_streams env"

lemma connect_permits:
  assumes "connect_step env ev m sid c s = Some (c', s')"
  shows "permits s' + (if holds_permit c' then 1 else 0) = permits s + (if holds_permit c then 1 else 0)"
  using assms
  by (elim connect_stepE) (auto simp: move_simps split: reply.splits option.splits sum.splits if_splits prod.splits nat.splits)

interpretation streams: transition_system "relay_init env" "relay_step env" "stream_budget env"
proof unfold_locales
  fix s t
  assume i: "stream_budget env s" and "relay_step env s t"
  from this(2) show "stream_budget env t"
  proof (cases rule: relay_step_cases)
    case (outside ts more)
    have "count_where (\<lambda>x. holds_permit (tk_pc x)) ts = 0" using outside(3) by (induction ts) auto
    then show ?thesis using i outside by (simp add: stream_budget_def)
  next
    case (register k ev c s')
    note f = register_frame [OF register(2)] and u = count_where_update [OF register(1)]
    show ?thesis using i f u [of "\<lambda>x. holds_permit (tk_pc x)" "(tasks s ! k)\<lparr>tk_pc := c\<rparr>"] register(3) by (simp add: stream_budget_def)
  next
    case (connect k ev c s')
    note p = connect_permits [OF connect(2)] and u = count_where_update [OF connect(1)]
    show ?thesis using i p u [of "\<lambda>x. holds_permit (tk_pc x)" "(tasks s ! k)\<lparr>tk_pc := c\<rparr>"] connect(3)
      by (simp add: stream_budget_def split: if_splits)
  qed
qed (simp add: relay_init_def relay_start_def stream_budget_def)

text \<open>The budget of an address: how many registrations the map has counted, and how many handlers hold one.\<close>

definition counted :: "(ip_addr \<rightharpoonup> nat) \<Rightarrow> ip_addr \<Rightarrow> nat" where
  "counted m ip = (case m ip of None \<Rightarrow> 0 | Some n \<Rightarrow> n)"

definition ip_holder :: "relay_sys \<Rightarrow> ip_addr \<Rightarrow> task \<Rightarrow> bool" where
  "ip_holder s ip x \<longleftrightarrow> holds_cap (tk_pc x) \<and> map cn_ip (conns s) ! tk_conn x = ip"

definition ip_budget :: "relay_env \<Rightarrow> relay_sys \<Rightarrow> bool" where
  "ip_budget env s \<longleftrightarrow> (\<forall>x \<in> set (tasks s). tk_conn x < length (conns s)) \<and>
     (\<forall>ip. counted (ip_caps s) ip = count_where (ip_holder s ip) (tasks s) \<and> counted (ip_caps s) ip \<le> re_max_reg_per_ip env)"

lemma counted_acquire:
  "try_acquire limit ip m = (ok, m') \<Longrightarrow>
     counted m' i = counted m i + (if ok \<and> i = ip then 1 else 0) \<and> (ok \<longrightarrow> counted m ip < limit)"
  by (auto simp: try_acquire_def counted_def Let_def split: if_splits option.splits)

lemma counted_release: "counted (release ip m) i = counted m i - (if i = ip then 1 else 0)"
  by (auto simp: release_def counted_def split: option.splits)

lemma register_caps:
  assumes "register_step env ev m sid c s = Some (c', s')" and "m < length (conns s)"
    and "holds_cap c \<longrightarrow> 0 < counted (ip_caps s) (cn_ip (conns s ! m))"
    and "counted (ip_caps s) ip \<le> re_max_reg_per_ip env"
  shows "counted (ip_caps s') ip + (if holds_cap c \<and> cn_ip (conns s ! m) = ip then 1 else 0) =
      counted (ip_caps s) ip + (if holds_cap c' \<and> cn_ip (conns s ! m) = ip then 1 else 0)
    \<and> counted (ip_caps s') ip \<le> re_max_reg_per_ip env"
  using assms(1)
proof (elim register_stepE)
  fix pk
  assume c: "c = RegBudget pk"
    and r: "Some (c', s') = on_go ev (case try_acquire (re_max_reg_per_ip env) (cn_ip (conns s ! m)) (ip_caps s) of (ok, caps) \<Rightarrow>
        (if ok then RegDraw pk else RegReturn True False, s\<lparr>ip_caps := caps\<rparr>))"
  obtain ok caps where a: "try_acquire (re_max_reg_per_ip env) (cn_ip (conns s ! m)) (ip_caps s) = (ok, caps)" by fastforce
  show ?thesis using r c counted_acquire [OF a, of ip] assms(4) by (auto simp: on_go_def a split: if_splits)
next
  fix ok slot
  assume c: "c = RegReturn ok slot" and r: "Some (c', s') = on_go ev (Finished, set_status Closed m
         (let s1 = (if slot then s\<lparr>ip_caps := release (cn_ip (conns s ! m)) (ip_caps s)\<rparr> else s) in
          if ok then shutdown m s1 else s1))"
  have "c' = Finished" "ip_caps s' = (if slot then release (cn_ip (conns s ! m)) (ip_caps s) else ip_caps s)"
    using r by (auto simp: move_simps split: if_splits)
  then show ?thesis using assms(3,4) c by (auto simp: counted_release)
qed (use assms(4) in \<open>auto simp: move_simps split: reply.splits option.splits sum.splits if_splits prod.splits\<close>)

lemma ip_budget_step:
  assumes i: "ip_budget env s" and "relay_step env s t"
  shows "ip_budget env t"
  using assms(2)
proof (cases rule: relay_step_cases)
  case (outside ts more)
  have l: "length (conns s) \<le> length (conns t)" using arg_cong [OF outside(11), of length] by simp
  have h: "ip_holder t ip x = ip_holder s ip x" if "x \<in> set (tasks s)" for x ip
    using i that outside(11) by (auto simp: ip_budget_def ip_holder_def nth_append)
  have "count_where (ip_holder t ip) ts = 0" for ip using outside(3) by (induction ts) (auto simp: ip_holder_def)
  then have "count_where (ip_holder t ip) (tasks t) = count_where (ip_holder s ip) (tasks s)" for ip
    using count_where_cong [of "tasks s" "ip_holder t ip"] h outside(1) by simp
  moreover have "tk_conn x < length (conns t)" if "x \<in> set (tasks t)" for x
  proof -
    have "x \<in> set (tasks s) \<or> x \<in> set ts" using that outside(1) by simp
    then have "tk_conn x < length (conns s)" using i outside(3) unfolding ip_budget_def by blast
    then show ?thesis using l by simp
  qed
  ultimately show ?thesis using i unfolding ip_budget_def outside(6) by metis
next
  case (register k ev c s')
  let ?x = "tasks s ! k" and ?y = "(tasks s ! k)\<lparr>tk_pc := c\<rparr>"
  have m: "tk_conn ?x < length (conns s)" using i register(1) by (simp add: ip_budget_def)
  note f = register_frame [OF register(2)]
  have len: "length (conns t) = length (conns s)" using arg_cong [OF conjunct1 [OF conjunct2 [OF conjunct2 [OF conjunct2 [OF f]]]], of length] register(3)
    by simp
  have h: "ip_holder t = ip_holder s" using f register(3) by (auto simp: ip_holder_def fun_eq_iff)
  have peer: "ip_holder s ip ?x \<longleftrightarrow> holds_cap (tk_pc ?x) \<and> cn_ip (conns s ! tk_conn ?x) = ip"
    "ip_holder s ip ?y \<longleftrightarrow> holds_cap c \<and> cn_ip (conns s ! tk_conn ?x) = ip" for ip
    using m by (simp_all add: ip_holder_def)
  have b: "counted (ip_caps s) ip = count_where (ip_holder s ip) (tasks s)" "counted (ip_caps s) ip \<le> re_max_reg_per_ip env" for ip
    using i unfolding ip_budget_def by blast+
  have "holds_cap (tk_pc ?x) \<longrightarrow> 0 < counted (ip_caps s) (cn_ip (conns s ! tk_conn ?x))"
    using b(1) count_where_pos [OF register(1), of "ip_holder s (cn_ip (conns s ! tk_conn ?x))"] peer(1) by simp
  then have e: "counted (ip_caps s') ip + (if ip_holder s ip ?x then 1 else 0) = counted (ip_caps s) ip + (if ip_holder s ip ?y then 1 else 0)
      \<and> counted (ip_caps s') ip \<le> re_max_reg_per_ip env" for ip
    using register_caps [OF register(2) m, of ip] b(2) [of ip] unfolding peer by blast
  have "counted (ip_caps t) ip = count_where (ip_holder t ip) (tasks t) \<and> counted (ip_caps t) ip \<le> re_max_reg_per_ip env" for ip
    using b(1) [of ip] e [of ip] count_where_update [OF register(1), of "ip_holder s ip" ?y] register(3) h by simp
  moreover have "\<forall>x \<in> set (tasks t). tk_conn x < length (conns t)"
    using i m len register(3) by (auto simp: ip_budget_def dest!: set_update_subset_insert [THEN subsetD])
  ultimately show ?thesis unfolding ip_budget_def by blast
next
  case (connect k ev c s')
  let ?x = "tasks s ! k" and ?y = "(tasks s ! k)\<lparr>tk_pc := c\<rparr>"
  note f = connect_frame [OF connect(2)]
  have h: "ip_holder t = ip_holder s" using f connect(3) by (auto simp: ip_holder_def fun_eq_iff)
  have "\<not> ip_holder s ip ?x" "\<not> ip_holder s ip ?y" for ip using f by (simp_all add: ip_holder_def)
  then have "count_where (ip_holder t ip) (tasks t) = count_where (ip_holder s ip) (tasks s)" for ip
    using count_where_update [OF connect(1), of "ip_holder s ip" ?y] h connect(3) by simp
  moreover have "\<forall>x \<in> set (tasks t). tk_conn x < length (conns t)"
    using i f connect(1,3) by (auto simp: ip_budget_def dest!: set_update_subset_insert [THEN subsetD])
  moreover have "ip_caps t = ip_caps s" using f connect(3) by simp
  ultimately show ?thesis using i unfolding ip_budget_def by metis
qed

interpretation addresses: transition_system "relay_init env" "relay_step env" "ip_budget env"
proof unfold_locales
  show "relay_init env s \<Longrightarrow> ip_budget env s" for s by (simp add: relay_init_def relay_start_def ip_budget_def counted_def)
qed (rule ip_budget_step)

section \<open>Who is connected to whom\<close>

definition proved :: "relay_sys \<Rightarrow> nat \<Rightarrow> string \<Rightarrow> bool" where
  "proved s m pk \<longleftrightarrow> (\<exists>n reg now. (m, pk, n, reg, now) \<in> set (proofs s))"

definition accepted :: "relay_sys \<Rightarrow> relay_token \<Rightarrow> bool" where
  "accepted s tok \<longleftrightarrow> (\<exists>now. (tok, now) \<in> set (tokens s))"

fun pc_ok :: "relay_sys \<Rightarrow> nat \<Rightarrow> pc \<Rightarrow> bool" where
  "pc_ok s m (RegAnswer n) \<longleftrightarrow> (\<exists>sid. (m, sid, Data, n) \<in> set (frames s))"
| "pc_ok s m (RegBudget pk) \<longleftrightarrow> proved s m pk"
| "pc_ok s m (RegDraw pk) \<longleftrightarrow> proved s m pk"
| "pc_ok s m (RegInsert pk g) \<longleftrightarrow> proved s m pk"
| "pc_ok s m (ConLookup tok) \<longleftrightarrow> accepted s tok"
| "pc_ok s m (ConOpen tok a) \<longleftrightarrow> accepted s tok \<and> proved s a (rl_agent_pubkey tok)"
| "pc_ok s m (ConVerdict tok a) \<longleftrightarrow> accepted s tok \<and> proved s a (rl_agent_pubkey tok)"
| "pc_ok s m (ConSplice tok a) \<longleftrightarrow> accepted s tok \<and> proved s a (rl_agent_pubkey tok)"
| "pc_ok s m _ \<longleftrightarrow> True"

definition logs_ok :: "relay_env \<Rightarrow> relay_sys \<Rightarrow> bool" where
  "logs_ok env s \<longleftrightarrow>
     (\<forall>(m, pk, n, reg, now) \<in> set (proofs s). verify_relay_register (re_crypto env) reg (re_hub_key env) n now = Inr pk \<and>
        (\<exists>sid. (m, sid, Data, n) \<in> set (frames s))) \<and>
     (\<forall>(tok, now) \<in> set (tokens s). verify_relay_token (re_crypto env) tok (re_hub_key env) (rl_share_id tok) (rl_agent_pubkey tok) now = Inr ()) \<and>
     (\<forall>pk r. ar_inner (registry s) pk = Some r \<longrightarrow> proved s (rm_mux r) pk)"

definition relay_auth :: "relay_env \<Rightarrow> relay_sys \<Rightarrow> bool" where
  "relay_auth env s \<longleftrightarrow> logs_ok env s \<and> (\<forall>x \<in> set (tasks s). pc_ok s (tk_conn x) (tk_pc x))"

definition grows :: "relay_sys \<Rightarrow> relay_sys \<Rightarrow> bool" where
  "grows s t \<longleftrightarrow> set (proofs s) \<subseteq> set (proofs t) \<and> set (tokens s) \<subseteq> set (tokens t) \<and> set (frames s) \<subseteq> set (frames t)"

lemma proved_mono: "grows s t \<Longrightarrow> proved s m pk \<Longrightarrow> proved t m pk"
  by (fastforce simp: grows_def proved_def)

lemma pc_ok_mono: "grows s t \<Longrightarrow> pc_ok s m c \<Longrightarrow> pc_ok t m c"
proof -
  assume g: "grows s t" and p: "pc_ok s m c"
  have "accepted s tok \<Longrightarrow> accepted t tok" for tok using g by (auto simp: grows_def accepted_def)
  then show ?thesis using p proved_mono [OF g] g by (cases c) (auto simp: grows_def)
qed

lemma register_grows: "register_step env ev m sid c s = Some (c', s') \<Longrightarrow> grows s s'"
  by (elim register_stepE) (auto simp: move_simps grows_def split: reply.splits option.splits sum.splits if_splits prod.splits)

lemma connect_grows: "connect_step env ev m sid c s = Some (c', s') \<Longrightarrow> grows s s'"
  by (elim connect_stepE) (auto simp: move_simps grows_def split: reply.splits option.splits sum.splits if_splits prod.splits nat.splits)

lemma register_auth:
  assumes "register_step env ev m sid c s = Some (c', s')" and l: "logs_ok env s" and p: "pc_ok s m c"
  shows "logs_ok env s' \<and> pc_ok s' m c'"
proof -
  note g = register_grows [OF assms(1)]
  have keep: "logs_ok env s'" if "proofs s' = proofs s" "tokens s' = tokens s" "registry s' = registry s"
    using l g that by (fastforce simp: logs_ok_def grows_def proved_def)
  show ?thesis using assms(1)
  proof (elim register_stepE)
    fix nonce
    assume c: "c = RegAnswer nonce"
    then obtain sid0 where f: "(m, sid0, Data, nonce) \<in> set (frames s)" using p by auto
    have "frames s' = frames s \<and> tokens s' = tokens s \<and> registry s' = registry s \<and>
        (proofs s' = proofs s \<and> c' = RegReturn True False \<or> (\<exists>pk reg now. c' = RegBudget pk \<and> proofs s' = (m, pk, nonce, reg, now) # proofs s \<and>
           verify_relay_register (re_crypto env) reg (re_hub_key env) nonce now = Inr pk))"
      using assms(1) c by (auto simp: move_simps split: reply.splits option.splits sum.splits if_splits)
    moreover have "proved s' m pk" if "proofs s' = (m, pk, nonce, reg, now) # ps" for pk reg now ps using that by (auto simp: proved_def)
    moreover have "proved s' (rm_mux r) pk" if "ar_inner (registry s) pk = Some r" for pk r
      using l that proved_mono [OF g] unfolding logs_ok_def by blast
    ultimately show ?thesis using l keep f by (auto simp: logs_ok_def)
  next
    fix pk gen
    assume c: "c = RegInsert pk gen"
    then have "c' = RegVerdict pk gen" "frames s' = frames s" "tokens s' = tokens s" "proofs s' = proofs s"
        "ar_inner (registry s') = (ar_inner (registry s))(pk \<mapsto> \<lparr>rm_mux = m, rm_generation = gen\<rparr>)"
      using assms(1) by (auto simp: move_simps registry_insert_def split: reply.splits option.splits if_splits)
    then show ?thesis using l p c by (auto simp: logs_ok_def proved_def)
  next
    fix pk gen
    assume c: "c = RegLeave pk gen"
    then have "c' = RegShutdown" "frames s' = frames s" "tokens s' = tokens s" "proofs s' = proofs s"
        "registry s' = registry_deregister pk gen (registry s)"
      using assms(1) by (auto simp: move_simps split: reply.splits option.splits if_splits)
    then show ?thesis using l by (auto simp: logs_ok_def proved_def registry_deregister_def)
  next
    fix pk
    assume c: "c = RegDraw pk"
    then have "c' = RegInsert pk (ar_next_gen (registry s))" "frames s' = frames s" "tokens s' = tokens s" "proofs s' = proofs s"
        "ar_inner (registry s') = ar_inner (registry s)"
      using assms(1) by (auto simp: move_simps registry_draw_def split: if_splits)
    then show ?thesis using l p c by (simp add: logs_ok_def proved_def)
  qed (use keep p in \<open>auto simp: move_simps proved_def split: reply.splits option.splits sum.splits if_splits prod.splits\<close>)
qed

lemma connect_auth:
  assumes "connect_step env ev m sid c s = Some (c', s')" and l: "logs_ok env s" and p: "pc_ok s m c"
  shows "logs_ok env s' \<and> pc_ok s' m c'"
proof -
  note g = connect_grows [OF assms(1)] and f = connect_frame [OF assms(1)]
  have keep: "logs_ok env s'" if "tokens s' = tokens s"
    using l g f that by (fastforce simp: logs_ok_def grows_def proved_def)
  show ?thesis using assms(1)
  proof (elim connect_stepE)
    assume c: "c = ConHello"
    then have "frames s' = frames s \<and> proofs s' = proofs s \<and> registry s' = registry s \<and>
        (tokens s' = tokens s \<and> (c' = ConReturn \<or> c' = Closing []) \<or> (\<exists>tok now. c' = ConLookup tok \<and> tokens s' = (tok, now) # tokens s \<and>
           verify_relay_token (re_crypto env) tok (re_hub_key env) (rl_share_id tok) (rl_agent_pubkey tok) now = Inr ()))"
      using assms(1) by (auto simp: move_simps split: reply.splits option.splits sum.splits if_splits)
    then show ?thesis using l keep by (auto simp: logs_ok_def proved_def accepted_def)
  next
    fix tok
    assume c: "c = ConLookup tok"
    then have "s' = s \<and> ((\<exists>a. c' = ConOpen tok a \<and> registry_get (rl_agent_pubkey tok) (registry s) = Some a) \<or> c' = Closing [CLOSE_REASON_AGENT_OFFLINE])"
      using assms(1) by (auto simp: move_simps split: reply.splits option.splits if_splits)
    then show ?thesis using l p c by (auto simp: logs_ok_def registry_get_def)
  qed (use keep p in \<open>auto simp: move_simps accepted_def proved_def split: reply.splits option.splits sum.splits if_splits prod.splits nat.splits\<close>)
qed

lemma auth_update:
  assumes "relay_auth env s" and "k < length (tasks s)" and "grows s s'" and "tasks s' = tasks s"
    and "logs_ok env s'" and "pc_ok s' (tk_conn (tasks s ! k)) c"
  shows "relay_auth env (s'\<lparr>tasks := (tasks s)[k := (tasks s ! k)\<lparr>tk_pc := c\<rparr>]\<rparr>)"
proof -
  let ?t = "s'\<lparr>tasks := (tasks s)[k := (tasks s ! k)\<lparr>tk_pc := c\<rparr>]\<rparr>"
  have g: "grows s' ?t" "grows s ?t" using assms(3) by (simp_all add: grows_def)
  have "pc_ok ?t (tk_conn x) (tk_pc x)" if "x \<in> set (tasks ?t)" for x
  proof -
    from that have "x = (tasks s ! k)\<lparr>tk_pc := c\<rparr> \<or> x \<in> set (tasks s)" by (auto dest!: set_update_subset_insert [THEN subsetD])
    then show ?thesis
      using pc_ok_mono [OF g(1) assms(6)] pc_ok_mono [OF g(2)] assms(1) unfolding relay_auth_def by auto
  qed
  moreover have "logs_ok env ?t" using assms(5) by (simp add: logs_ok_def proved_def)
  ultimately show ?thesis by (simp add: relay_auth_def)
qed

lemma relay_auth_step:
  assumes i: "relay_auth env s" and "relay_step env s t"
  shows "relay_auth env t"
  using assms(2)
proof (cases rule: relay_step_cases)
  case (outside ts more)
  have g: "grows s t" using outside by (simp add: grows_def)
  have "logs_ok env t" using i outside by (fastforce simp: relay_auth_def logs_ok_def proved_def)
  moreover have "pc_ok t (tk_conn x) (tk_pc x)" if "x \<in> set (tasks t)" for x
    using that i outside(1,3) pc_ok_mono [OF g] by (auto simp: relay_auth_def)
  ultimately show ?thesis by (simp add: relay_auth_def)
next
  case (register k ev c s')
  then show ?thesis using auth_update [OF i register(1) register_grows [OF register(2)]] register_auth [OF register(2)]
      register_frame [OF register(2)] i by (simp add: relay_auth_def)
next
  case (connect k ev c s')
  then show ?thesis using auth_update [OF i connect(1) connect_grows [OF connect(2)]] connect_auth [OF connect(2)]
      connect_frame [OF connect(2)] i by (simp add: relay_auth_def)
qed

interpretation transit: transition_system "relay_init env" "relay_step env" "relay_auth env"
proof unfold_locales
  show "relay_init env s \<Longrightarrow> relay_auth env s" for s
    by (simp add: relay_init_def relay_start_def relay_auth_def logs_ok_def registry_new_def)
qed (rule relay_auth_step)

section \<open>Generations\<close>

fun listed :: "pc \<Rightarrow> bool" where
  "listed (RegVerdict _ _) = True"
| "listed (RegHeld _ _) = True"
| "listed (RegLeave _ _) = True"
| "listed _ = False"

definition owns :: "relay_sys \<Rightarrow> nat \<Rightarrow> string \<Rightarrow> u64 \<Rightarrow> bool" where
  "owns s k pk g \<longleftrightarrow> k < length (tasks s) \<and> registration (tk_pc (tasks s ! k)) = Some (pk, g)"

definition owned :: "relay_sys \<Rightarrow> string \<Rightarrow> registered \<Rightarrow> nat \<Rightarrow> bool" where
  "owned s pk r j \<longleftrightarrow> owns s j pk (rm_generation r) \<and> tk_conn (tasks s ! j) = rm_mux r \<and> listed (tk_pc (tasks s ! j))"

text \<open>Each registration in the map belongs to one handler, and no two handlers have the same generation.\<close>

definition generations_ok :: "relay_sys \<Rightarrow> bool" where
  "generations_ok s \<longleftrightarrow> unat (ar_next_gen (registry s)) = draws s \<and>
     (\<forall>k pk g. owns s k pk g \<longrightarrow> unat g < draws s) \<and>
     (\<forall>j k pk pk' g. owns s j pk g \<longrightarrow> owns s k pk' g \<longrightarrow> j = k) \<and>
     (\<forall>pk r. ar_inner (registry s) pk = Some r \<longrightarrow>
        (\<exists>k. owned s pk r k))"

definition generations_inv :: "relay_sys \<Rightarrow> bool" where
  "generations_inv s \<longleftrightarrow> (draws s < 2 ^ 64 \<longrightarrow> generations_ok s)"

text \<open>What a move of a registration handler does to the map and to its own registration.\<close>

lemma register_registry:
  assumes "register_step env ev m sid c s = Some (c', s')"
  shows "(\<exists>pk. c = RegDraw pk \<and> c' = RegInsert pk (ar_next_gen (registry s)) \<and> draws s' = draws s + 1 \<and>
        registry s' = (registry s)\<lparr>ar_next_gen := ar_next_gen (registry s) + 1\<rparr>)
    \<or> (\<exists>pk g. c = RegInsert pk g \<and> c' = RegVerdict pk g \<and> draws s' = draws s \<and> registry s' = snd (registry_insert pk m g (registry s)) \<and>
        (\<forall>r. ar_inner (registry s) pk = Some r \<longrightarrow> \<not> alive (rm_mux r) s'))
    \<or> (\<exists>pk g. c = RegLeave pk g \<and> c' = RegShutdown \<and> draws s' = draws s \<and> registry s' = registry_deregister pk g (registry s))
    \<or> draws s' = draws s \<and> registry s' = registry s \<and> registration c' = registration c \<and> (listed c \<longrightarrow> listed c')"
  using assms
  by (elim register_stepE)
    (auto simp: move_simps registry_draw_def registry_insert_def alive_def split: reply.splits option.splits sum.splits if_splits prod.splits)

lemma unat_next: "unat (i :: u64) + 1 < 2 ^ 64 \<Longrightarrow> unat (i + 1) = unat i + 1"
  by (simp add: unat_word_ariths)

lemma owns_update:
  assumes "k < length (tasks s)" and "t = s'\<lparr>tasks := (tasks s)[k := (tasks s ! k)\<lparr>tk_pc := c\<rparr>]\<rparr>"
  shows "owns t j pk g \<longleftrightarrow> (if j = k then registration c = Some (pk, g) else owns s j pk g)"
    and "tk_conn (tasks t ! j) = tk_conn (tasks s ! j)"
    and "tk_pc (tasks t ! j) = (if j = k then c else tk_pc (tasks s ! j))"
  using assms by (auto simp: owns_def nth_list_update)

lemma register_registryE:
  assumes "register_step env ev m sid c s = Some (c', s')"
  obtains (draw) pk where "c = RegDraw pk" and "c' = RegInsert pk (ar_next_gen (registry s))" and "draws s' = draws s + 1"
      and "registry s' = (registry s)\<lparr>ar_next_gen := ar_next_gen (registry s) + 1\<rparr>"
    | (insert) pk g where "c = RegInsert pk g" and "c' = RegVerdict pk g" and "draws s' = draws s"
        and "registry s' = snd (registry_insert pk m g (registry s))"
        and "\<forall>r. ar_inner (registry s) pk = Some r \<longrightarrow> \<not> alive (rm_mux r) s'"
    | (leave) pk g where "c = RegLeave pk g" and "c' = RegShutdown" and "draws s' = draws s"
        and "registry s' = registry_deregister pk g (registry s)"
    | (other) "draws s' = draws s" and "registry s' = registry s" and "registration c' = registration c" and "listed c \<longrightarrow> listed c'"
  using register_registry [OF assms] by blast

lemma owner_after:
  assumes i: "generations_ok s" and k: "k < length (tasks s)"
    and r: "register_step env ev (tk_conn (tasks s ! k)) (tk_stream (tasks s ! k)) (tk_pc (tasks s ! k)) s = Some (c, s')"
    and t: "t = s'\<lparr>tasks := (tasks s)[k := (tasks s ! k)\<lparr>tk_pc := c\<rparr>]\<rparr>"
    and p: "ar_inner (registry t) pk1 = Some r1"
  shows "\<exists>j. owned t pk1 r1 j"
proof -
  note o = owns_update [OF k t]
  have old: "\<exists>j. owned s pk1 r1 j" if "ar_inner (registry s) pk1 = Some r1" using that i unfolding generations_ok_def by blast
  have ok: "owns s k pk g \<longleftrightarrow> registration (tk_pc (tasks s ! k)) = Some (pk, g)" for pk g using k by (simp add: owns_def)
  have stays: "owned s pk1 r1 j \<Longrightarrow> j \<noteq> k \<Longrightarrow> owned t pk1 r1 j" for j using o by (simp add: owned_def)
  from r show ?thesis
  proof (cases rule: register_registryE)
    case draw
    then have "ar_inner (registry s) pk1 = Some r1" using p t by simp
    then obtain j where "owned s pk1 r1 j" using old by blast
    moreover from this have "j \<noteq> k" using draw(1) by (auto simp: owned_def)
    ultimately show ?thesis using stays by blast
  next
    case (insert pk g)
    show ?thesis
    proof (cases "pk1 = pk")
      case True
      then have "r1 = \<lparr>rm_mux = tk_conn (tasks s ! k), rm_generation = g\<rparr>" using p t insert(4) by (simp add: registry_insert_def)
      then show ?thesis using True insert(1,2) ok o by (intro exI [of _ k]) (simp add: owned_def)
    next
      case False
      then have "ar_inner (registry s) pk1 = Some r1" using p t insert(4) by (simp add: registry_insert_def)
      then obtain j where "owned s pk1 r1 j" using old by blast
      moreover from this have "j \<noteq> k" using insert(1) by (auto simp: owned_def)
      ultimately show ?thesis using stays by blast
    qed
  next
    case (leave pk g)
    have q: "ar_inner (registry s) pk1 = Some r1" "\<not> (pk1 = pk \<and> rm_generation r1 = g)"
      using p t leave(4) by (auto simp: registry_deregister_def split: if_splits)
    then obtain j where "owned s pk1 r1 j" using old by blast
    moreover from this have "j \<noteq> k" using leave(1) ok q(2) by (auto simp: owned_def)
    ultimately show ?thesis using stays by blast
  next
    case other
    then obtain j where j: "owned s pk1 r1 j" using old p t by auto
    then show ?thesis using other(3,4) ok o by (intro exI [of _ j]) (auto simp: owned_def)
  qed
qed

lemma generations_register:
  assumes i: "generations_ok s" and k: "k < length (tasks s)"
    and r: "register_step env ev (tk_conn (tasks s ! k)) (tk_stream (tasks s ! k)) (tk_pc (tasks s ! k)) s = Some (c, s')"
    and t: "t = s'\<lparr>tasks := (tasks s)[k := (tasks s ! k)\<lparr>tk_pc := c\<rparr>]\<rparr>" and b: "draws t < 2 ^ 64"
  shows "generations_ok t"
proof -
  note o = owns_update [OF k t]
  have ts: "draws t = draws s'" "registry t = registry s'" by (simp_all add: t)
  have i1: "unat (ar_next_gen (registry s)) = draws s" and i2: "\<And>j pk g. owns s j pk g \<Longrightarrow> unat g < draws s"
    and i3: "\<And>j l pk pk' g. owns s j pk g \<Longrightarrow> owns s l pk' g \<Longrightarrow> j = l"
    using i unfolding generations_ok_def by blast+
  have ok: "owns s k pk g \<longleftrightarrow> registration (tk_pc (tasks s ! k)) = Some (pk, g)" for pk g using k by (simp add: owns_def)
  have old: ?thesis if d: "draws t = draws s" "ar_next_gen (registry t) = ar_next_gen (registry s)"
    and sub: "\<And>j pk g. owns t j pk g \<Longrightarrow> owns s j pk g"
    using d sub i1 i2 i3 owner_after [OF i k r t] unfolding generations_ok_def by metis
  from r show ?thesis
  proof (cases rule: register_registryE)
    case (draw pk)
    have "unat (ar_next_gen (registry t)) = draws t" using i1 b ts draw(3,4) unat_next [of "ar_next_gen (registry s)"] by simp
    moreover have "unat g < draws t" if "owns t j pk' g" for j pk' g
      using that i2 [of j pk' g] i1 draw(2,3) ts by (auto simp: o(1) split: if_splits)
    moreover have "j = l" if "owns t j pk1 g" "owns t l pk2 g" for j l pk1 pk2 g
      using that i3 [of j pk1 g l pk2] i2 [of j pk1 g] i2 [of l pk2 g] i1 draw(2) by (auto simp: o(1) split: if_splits)
    ultimately show ?thesis using owner_after [OF i k r t] unfolding generations_ok_def by blast
  next
    case (insert pk g)
    then show ?thesis using ok by (intro old) (auto simp: ts o(1) registry_insert_def split: if_splits)
  next
    case (leave pk g)
    then show ?thesis using ok by (intro old) (auto simp: ts o(1) registry_deregister_def split: if_splits)
  next
    case other
    then show ?thesis using ok by (intro old) (auto simp: ts o(1) split: if_splits)
  qed
qed

lemma owns_append:
  assumes "tasks t = tasks s @ ts" and "\<forall>x \<in> set ts. registration (tk_pc x) = None"
  shows "owns t j pk g \<longleftrightarrow> owns s j pk g"
proof -
  have "registration (tk_pc (ts ! (j - length (tasks s)))) = None" if "length (tasks s) \<le> j" "j < length (tasks t)"
    using that assms by (simp add: less_diff_conv2)
  then show ?thesis using assms(1) by (auto simp: owns_def nth_append not_less)
qed

lemma generations_same:
  assumes "generations_inv s" and "draws t = draws s" and "registry t = registry s"
    and "\<And>j pk g. owns t j pk g = owns s j pk g" and "\<And>j pk r. owned s pk r j \<Longrightarrow> owned t pk r j"
  shows "generations_inv t"
proof -
  have "\<exists>j. owned t pk r j" if "generations_ok s" "ar_inner (registry s) pk = Some r" for pk r
    using that assms(5) unfolding generations_ok_def by blast
  then show ?thesis using assms(1) unfolding generations_inv_def generations_ok_def assms(2,3,4) by blast
qed

lemma generations_step:
  assumes i: "generations_inv s" and "relay_step env s t"
  shows "generations_inv t"
  using assms(2)
proof (cases rule: relay_step_cases)
  case (outside ts more)
  have o: "owns t j pk g \<longleftrightarrow> owns s j pk g" for j pk g using owns_append [OF outside(1)] outside(3) by fastforce
  have "tasks t ! j = tasks s ! j" if "owns s j pk g" for j pk g using that outside(1) by (simp add: owns_def nth_append)
  then have "owned s pk r j \<Longrightarrow> owned t pk r j" for pk r j unfolding owned_def o by metis
  then show ?thesis by (rule generations_same [OF i outside(10,4) o])
next
  case (register k ev c s')
  have "draws s \<le> draws t" using register(3) register_registry [OF register(2)] by auto
  then show ?thesis using i generations_register [OF _ register] by (auto simp: generations_inv_def)
next
  case (connect k ev c s')
  note f = connect_frame [OF connect(2)] and o = owns_update [OF connect(1,3)]
  have same: "owns t j pk g \<longleftrightarrow> owns s j pk g" for j pk g using f by (simp add: o(1)) (simp add: owns_def)
  have "owned s pk r j \<Longrightarrow> owned t pk r j" for pk r j unfolding owned_def same using f o(2,3) [of j] by (auto simp: owns_def)
  moreover have "draws t = draws s" "registry t = registry s" using f connect(3) by simp_all
  ultimately show ?thesis using generations_same [OF i] same by blast
qed

interpretation registrations: transition_system "relay_init env" "relay_step env" generations_inv
proof unfold_locales
  show "relay_init env s \<Longrightarrow> generations_inv s" for s
    by (simp add: relay_init_def relay_start_def generations_inv_def generations_ok_def registry_new_def owns_def)
qed (rule generations_step)

section \<open>What the relay promises\<close>

text \<open>
  C17. A consumer is joined only to the agent its mandate names. Whatever the peers send and however the handlers interleave, when the relay
  copies bytes between a consumer's stream and a tunnel, the hub has issued a transit mandate for exactly that share and
  agent and for that expiry, the relay has sent a nonce over that very tunnel, the holder of the agent's key has signed that
  nonce, and the hub has vouched for the key.
\<close>

theorem transit_reaches_named_agent:
  assumes "reach (relay_init env) (relay_step env) s"
    and "k < length (tasks s)" and "tk_pc (tasks s ! k) = ConSplice tok a"
    and "unforgeable (re_crypto env) (re_hub_key env) issued" and "\<forall>x \<in> issued. mandate_plain x"
    and "parse_agent_pubkey (re_crypto env) (rl_agent_pubkey tok) = Inr agent" and "speaks (re_crypto env) agent said"
  shows "MRelay (rl_share_id tok) (rl_agent_pubkey tok) (rl_exp tok) \<in> issued \<and>
    (\<exists>sid nonce expiry. (a, sid, Data, nonce) \<in> set (frames s) \<and> SRegister nonce \<in> said \<and> MAgent (rl_agent_pubkey tok) expiry \<in> issued)"
proof -
  have i: "relay_auth env s" by (rule transit.reach_inv [OF assms(1)])
  then have l: "logs_ok env s" and p: "accepted s tok" "proved s a (rl_agent_pubkey tok)"
    using assms(2,3) unfolding relay_auth_def by (metis nth_mem pc_ok.simps(8))+
  obtain now where "verify_relay_token (re_crypto env) tok (re_hub_key env) (rl_share_id tok) (rl_agent_pubkey tok) now = Inr ()"
    using l p(1) unfolding logs_ok_def accepted_def by fastforce
  then have 1: "MRelay (rl_share_id tok) (rl_agent_pubkey tok) (rl_exp tok) \<in> issued" using relay_token_was_issued [OF assms(4,5)] by blast
  obtain nonce reg at where q: "(a, rl_agent_pubkey tok, nonce, reg, at) \<in> set (proofs s)" using p(2) unfolding proved_def by blast
  then obtain sid where v: "verify_relay_register (re_crypto env) reg (re_hub_key env) nonce at = Inr (rl_agent_pubkey tok)"
      "(a, sid, Data, nonce) \<in> set (frames s)" using l unfolding logs_ok_def by fastforce
  note r = registration_was_said [OF assms(7) v(1) assms(6)]
  show ?thesis using 1 v(2) r credential_was_issued [OF assms(4,5), of "rg_credential reg" at] by metis
qed

text \<open>
  C23. A stale connection never evicts a newer registration. In every step, an agent's entry in the registry stays as it is, or the handler
  that made exactly this entry takes it out after its own stream has ended, or a later registration of the same key
  replaces it and the displaced tunnel is shut down. (For the first \<open>2 ^ 64\<close> registrations, after which the generations repeat.)
\<close>

theorem registration_removed_by_owner:
  assumes "reach (relay_init env) (relay_step env) s" and "relay_step env s t" and "draws s < 2 ^ 64"
    and "ar_inner (registry s) pk = Some r"
  shows "ar_inner (registry t) pk = Some r
    \<or> ar_inner (registry t) pk = None \<and> (\<exists>k < length (tasks s). tk_conn (tasks s ! k) = rm_mux r \<and>
        tk_pc (tasks s ! k) = RegLeave pk (rm_generation r) \<and> tk_pc (tasks t ! k) = RegShutdown)
    \<or> (\<exists>k < length (tasks s). \<exists>g. tk_pc (tasks s ! k) = RegInsert pk g \<and> g \<noteq> rm_generation r \<and>
        ar_inner (registry t) pk = Some \<lparr>rm_mux = tk_conn (tasks s ! k), rm_generation = g\<rparr> \<and> \<not> alive (rm_mux r) t)"
proof -
  have g: "generations_ok s" using registrations.reach_inv [OF assms(1)] assms(3) by (simp add: generations_inv_def)
  then obtain j where j: "owned s pk r j" using assms(4) unfolding generations_ok_def by blast
  have one: "owns s k pk' (rm_generation r) \<Longrightarrow> k = j" for k pk' using g j unfolding generations_ok_def owned_def by blast
  from assms(2) show ?thesis
  proof (cases rule: relay_step_cases)
    case (register k ev c s')
    note o = owns_update [OF register(1,3)]
    have rt: "registry t = registry s'" "conns t = conns s'" by (simp_all add: register(3))
    have ok: "owns s k pk' g' \<longleftrightarrow> registration (tk_pc (tasks s ! k)) = Some (pk', g')" for pk' g' using register(1) by (simp add: owns_def)
    from register(2) show ?thesis
    proof (cases rule: register_registryE)
      case (insert pk' g')
      then have "g' \<noteq> rm_generation r" using one [of k pk'] ok j by (auto simp: owned_def)
      then show ?thesis using insert assms(4) rt register(1) by (auto simp: registry_insert_def alive_def)
    next
      case (leave pk' g')
      then show ?thesis using one [of k pk'] ok j assms(4) rt register(1) o(3) [of k] by (auto simp: registry_deregister_def owned_def)
    qed (use assms(4) rt in simp_all)
  qed (use assms(4) connect_frame in auto)
qed

text \<open>
  C27. The relay keeps to its limits and leaks nothing: the free stream permits and the transit handlers that hold one are always
  as many as configured, whatever way a handler ended; and the registrations counted for an address are exactly
  the handlers that hold one, never more than allowed.
\<close>

theorem relay_budgets_exact:
  assumes "reach (relay_init env) (relay_step env) s"
  shows "permits s + count_where (\<lambda>x. holds_permit (tk_pc x)) (tasks s) = re_max_streams env
    \<and> counted (ip_caps s) ip = count_where (\<lambda>x. holds_cap (tk_pc x) \<and> cn_ip (conns s ! tk_conn x) = ip) (tasks s)
    \<and> counted (ip_caps s) ip \<le> re_max_reg_per_ip env"
proof -
  have i: "ip_budget env s" by (rule addresses.reach_inv [OF assms])
  have "count_where (ip_holder s ip) (tasks s) = count_where (\<lambda>x. holds_cap (tk_pc x) \<and> cn_ip (conns s ! tk_conn x) = ip) (tasks s)"
    using i by (intro count_where_cong) (auto simp: ip_budget_def ip_holder_def)
  then show ?thesis using i streams.reach_inv [OF assms] unfolding ip_budget_def stream_budget_def by metis
qed

section \<open>A concrete run\<close>

fun relay_run :: "relay_env \<Rightarrow> relay_action list \<Rightarrow> relay_sys \<Rightarrow> relay_sys option" where
  "relay_run env [] s = Some s"
| "relay_run env (a # as) s = (case relay_move env a s of None \<Rightarrow> None | Some t \<Rightarrow> relay_run env as t)"

lemma relay_run_reach:
  "relay_run env as s = Some t \<Longrightarrow> reach (relay_init env) (relay_step env) s \<Longrightarrow> reach (relay_init env) (relay_step env) t"
proof (induction env as s rule: relay_run.induct)
  case (2 env a as s)
  then obtain u where u: "relay_move env a s = Some u" "relay_run env as u = Some t" by (auto split: option.splits)
  then have "relay_step env s u" unfolding relay_step_def by blast
  then show ?case using 2 u reach_step by metis
qed simp

lemma relay_start_reach: "reach (relay_init env) (relay_step env) (relay_start env)"
  by (rule reach_init) (simp add: relay_init_def)

definition ex_agent :: string where "ex_agent = frame_text (replicate 32 0)"
definition ex_nonce :: bytes where "ex_nonce = replicate 32 7"

definition ex_verify :: "bytes \<Rightarrow> bytes \<Rightarrow> bytes \<Rightarrow> bool" where
  "ex_verify key message sig =
     (if key = replicate 32 1 then message = mandate_bytes (MRelay ''s1'' ex_agent 10) \<or> message = mandate_bytes (MAgent ex_agent 10)
      else message = statement_bytes (SRegister ex_nonce))"

definition ex_relay :: relay_env where
  "ex_relay = (let cr = example_crypto ex_verify in
     \<lparr>re_crypto = cr, re_hub_key = replicate 32 1, re_max_streams = 2, re_max_reg_per_ip = 1,
      re_parse_register = (\<lambda>_. Some (sign_relay_register cr [] (sign_agent_credential cr [] ex_agent 10) ex_nonce)),
      re_parse_token = (\<lambda>_. Some (sign_relay_token cr [] ''s1'' ex_agent 10))\<rparr>)"

definition ex_target :: "string \<Rightarrow> bytes" where
  "ex_target d = (case target_addr_encode (TaDomain d 0) of Inr b \<Rightarrow> b | Inl _ \<Rightarrow> [])"

definition ex_register :: "nat \<Rightarrow> nat \<Rightarrow> relay_action list" where
  "ex_register m k = [Arrive (V4 9), Stream m 1 (ex_target RELAY_REGISTER_TARGET), Move k (Sent True), Move k (Nonce ex_nonce),
     Move k (Received (Some []) 5), Move k Go, Move k Go, Move k Go]"

definition ex_transit :: "relay_action list" where
  "ex_transit = ex_register 0 0 @ [Arrive (V4 8), Stream 1 3 (ex_target RELAY_CONNECT_TARGET), Move 1 Go, Move 1 (Sent True),
     Move 1 (Received (Some []) 5), Move 1 Go, Move 1 (Reversed True), Move 1 (Sent True)]"

lemma ex_accepts:
  "verify_relay_register (example_crypto ex_verify) (sign_relay_register (example_crypto ex_verify) []
      (sign_agent_credential (example_crypto ex_verify) [] ex_agent 10) ex_nonce) (replicate 32 1) ex_nonce 5 = Inr ex_agent"
  "verify_relay_token (example_crypto ex_verify) (sign_relay_token (example_crypto ex_verify) [] ''s1'' ex_agent 10) (replicate 32 1)
      ''s1'' ex_agent 5 = Inr ()"
  "parse_agent_pubkey (example_crypto ex_verify) ex_agent = Inr (replicate 32 0)"
proof -
  have k: "parse_agent_pubkey (example_crypto ex_verify) ex_agent = Inr (replicate 32 0)"
    by (simp add: parse_agent_pubkey_def example_crypto_def ex_agent_def trim_framed unframe_frame)
  have c: "check_signature (example_crypto ex_verify) key msg (frame_text (replicate 64 0)) = Inr ()" if "ex_verify key msg (replicate 64 0)" for key msg
    using that by (simp add: check_signature_def example_crypto_def trim_framed unframe_frame)
  have s: "b64_encode (example_crypto ex_verify) (sign_msg (example_crypto ex_verify) x y) = frame_text (replicate 64 0)" for x y
    by (simp add: example_crypto_def)
  have d: "(replicate 32 0 :: bytes) \<noteq> replicate 32 1" by (simp add: replicate_eq_replicate)
  show "verify_relay_register (example_crypto ex_verify) (sign_relay_register (example_crypto ex_verify) []
      (sign_agent_credential (example_crypto ex_verify) [] ex_agent 10) ex_nonce) (replicate 32 1) ex_nonce 5 = Inr ex_agent"
    using d by (simp add: verify_relay_register_def sign_relay_register_def sign_agent_credential_def verify_agent_credential_def s k c ex_verify_def)
  show "verify_relay_token (example_crypto ex_verify) (sign_relay_token (example_crypto ex_verify) [] ''s1'' ex_agent 10) (replicate 32 1)
      ''s1'' ex_agent 5 = Inr ()"
    by (simp add: verify_relay_token_def sign_relay_token_def s c ex_verify_def)
  show "parse_agent_pubkey (example_crypto ex_verify) ex_agent = Inr (replicate 32 0)" by (rule k)
qed

lemma ex_targets:
  "dispatch_stream (ex_target RELAY_REGISTER_TARGET) = Some RegAck" "dispatch_stream (ex_target RELAY_CONNECT_TARGET) = Some ConPermit"
  by code_simp+

lemma ex_env:
  "re_crypto ex_relay = example_crypto ex_verify" "re_hub_key ex_relay = replicate 32 1" "re_max_streams ex_relay = 2" "re_max_reg_per_ip ex_relay = 1"
  "re_parse_register ex_relay x = Some (sign_relay_register (example_crypto ex_verify) [] (sign_agent_credential (example_crypto ex_verify) [] ex_agent 10) ex_nonce)"
  "re_parse_token ex_relay x = Some (sign_relay_token (example_crypto ex_verify) [] ''s1'' ex_agent 10)"
  "rl_share_id (sign_relay_token cr h i j e) = i" "rl_agent_pubkey (sign_relay_token cr h i j e) = j" "rl_exp (sign_relay_token cr h i j e) = e"
  by (simp_all add: ex_relay_def Let_def sign_relay_token_def)

definition ex_end :: "relay_sys \<Rightarrow> bool" where
  "ex_end s \<longleftrightarrow> map tk_pc (tasks s) = [RegVerdict ex_agent 0, ConSplice (sign_relay_token (example_crypto ex_verify) [] ''s1'' ex_agent 10) 0]
     \<and> draws s = 1 \<and> permits s = 1 \<and> ar_inner (registry s) ex_agent = Some \<lparr>rm_mux = 0, rm_generation = 0\<rparr> \<and> counted (ip_caps s) (V4 9) = 1"

lemma ex_transit_run: "\<exists>s. relay_run ex_relay ex_transit (relay_start ex_relay) = Some s \<and> ex_end s"
  by (simp add: ex_transit_def ex_register_def relay_start_def ex_env new_stream_def ex_targets move_simps move_task_def ex_accepts
      REGISTER_NONCE_LEN_def ex_nonce_def [THEN arg_cong [of _ _ length]] try_acquire_def registry_draw_def registry_insert_def registry_new_def
      registry_get_def alive_def ex_end_def counted_def)

theorem transit_reaches_named_agent_witness:
  "\<exists>s. relay_run ex_relay ex_transit (relay_start ex_relay) = Some s \<and>
     (\<exists>sid nonce. (0, sid, Data, nonce) \<in> set (frames s) \<and> SRegister nonce \<in> {SRegister ex_nonce})"
proof -
  obtain s where s: "relay_run ex_relay ex_transit (relay_start ex_relay) = Some s" "ex_end s" using ex_transit_run by blast
  let ?issued = "{MRelay ''s1'' ex_agent 10, MAgent ex_agent 10}"
  have "map tk_pc (tasks s) ! 1 = ConSplice (sign_relay_token (example_crypto ex_verify) [] ''s1'' ex_agent 10) 0" "length (map tk_pc (tasks s)) = 2"
    using s(2) by (simp_all add: ex_end_def)
  then have t: "1 < length (tasks s)" "tk_pc (tasks s ! 1) = ConSplice (sign_relay_token (example_crypto ex_verify) [] ''s1'' ex_agent 10) 0"
    by simp_all
  have u: "unforgeable (re_crypto ex_relay) (re_hub_key ex_relay) ?issued" by (auto simp: unforgeable_def ex_env example_crypto_def ex_verify_def)
  have "plain ex_agent" by code_simp
  then have p: "\<forall>x \<in> ?issued. mandate_plain x" by (simp add: plain_def)
  have sp: "speaks (re_crypto ex_relay) (replicate 32 0) {SRegister ex_nonce}"
    by (simp add: speaks_def ex_env example_crypto_def ex_verify_def replicate_eq_replicate)
  have k: "parse_agent_pubkey (re_crypto ex_relay) (rl_agent_pubkey (sign_relay_token (example_crypto ex_verify) [] ''s1'' ex_agent 10)) = Inr (replicate 32 0)"
    by (simp add: ex_env ex_accepts)
  show ?thesis
    using s(1) transit_reaches_named_agent [OF relay_run_reach [OF s(1) relay_start_reach] t u p k sp] by blast
qed

theorem registration_removed_by_owner_witness:
  "\<exists>s t. relay_run ex_relay ex_transit (relay_start ex_relay) = Some s \<and> relay_move ex_relay (Move 0 (Sent True)) s = Some t \<and>
     ar_inner (registry t) ex_agent = Some \<lparr>rm_mux = 0, rm_generation = 0\<rparr>"
proof -
  obtain s where s: "relay_run ex_relay ex_transit (relay_start ex_relay) = Some s" "ex_end s" using ex_transit_run by blast
  have r: "ar_inner (registry s) ex_agent = Some \<lparr>rm_mux = 0, rm_generation = 0\<rparr>" "draws s < 2 ^ 64" using s(2) by (simp_all add: ex_end_def)
  have m: "length (map tk_pc (tasks s)) = 2" "map tk_pc (tasks s) ! 0 = RegVerdict ex_agent 0" "map tk_pc (tasks s) ! 1 \<noteq> RegLeave ex_agent 0"
      "\<And>g. map tk_pc (tasks s) ! 1 \<noteq> RegInsert ex_agent g"
    using s(2) by (simp_all add: ex_end_def)
  have n: "tk_pc (tasks s ! k) \<noteq> RegLeave ex_agent 0 \<and> tk_pc (tasks s ! k) \<noteq> RegInsert ex_agent g" if "k < length (tasks s)" for k g
  proof -
    have "k = 0 \<or> k = 1" using that m(1) by auto
    then show ?thesis using m that by auto
  qed
  then have p: "tk_pc (tasks s ! 0) = RegVerdict ex_agent 0" "0 < length (tasks s)" using m by auto
  then obtain t where t: "relay_move ex_relay (Move 0 (Sent True)) s = Some t" by (simp add: move_task_def move_simps)
  then have "relay_step ex_relay s t" unfolding relay_step_def by blast
  from registration_removed_by_owner [OF relay_run_reach [OF s(1) relay_start_reach] this r(2,1)] n
  have "ar_inner (registry t) ex_agent = Some \<lparr>rm_mux = 0, rm_generation = 0\<rparr>" by auto
  then show ?thesis using s(1) t by blast
qed

theorem relay_budgets_exact_witness:
  "\<exists>s. relay_run ex_relay ex_transit (relay_start ex_relay) = Some s \<and> counted (ip_caps s) (V4 9) \<le> 1"
proof -
  obtain s where s: "relay_run ex_relay ex_transit (relay_start ex_relay) = Some s" using ex_transit_run by blast
  show ?thesis using relay_budgets_exact [OF relay_run_reach [OF s relay_start_reach]] s by (metis ex_env(4))
qed

end
