(* ===== verification/Udp_Relay.thy ===== *)
theory Udp_Relay
  imports Protocol
begin

unbundle bit_operations_syntax

text \<open>
  Datagrams of the UDP relay, \<^verbatim>\<open>xr-proto/src/udp_relay.rs\<close>: the packet, its encoding under a nonce
  drawn from \<^verbatim>\<open>thread_rng\<close> (an argument), and its decoding. The length field has sixteen bits and
  \<^verbatim>\<open>payload.len() as u16\<close> wraps; the round trip states exactly what survives.
\<close>

section \<open>Packets\<close>

datatype relay_type = Data | Keepalive | BindPort

definition relay_type_byte :: "relay_type \<Rightarrow> u8" where
  "relay_type_byte t = (case t of Data \<Rightarrow> 1 | Keepalive \<Rightarrow> 2 | BindPort \<Rightarrow> 3)"

definition relay_type_from_byte :: "u8 \<Rightarrow> relay_type option" where
  "relay_type_from_byte b =
     (if b = 1 then Some Data else if b = 2 then Some Keepalive else if b = 3 then Some BindPort else None)"

record relay_packet =
  rp_type :: relay_type
  rp_dst :: socket_addr
  rp_src_port :: u16
  rp_payload :: bytes

definition RELAY_NONCE_LEN :: nat where "RELAY_NONCE_LEN = 4"

definition unspecified :: socket_addr where "unspecified = SaV4 0 0"

section \<open>Encoding\<close>

fun encode_dst :: "socket_addr \<Rightarrow> bytes" where
  "encode_dst (SaV4 ip port) = 0x01 # u32_to_be ip"
| "encode_dst (SaV6 ip port flow scope) = 0x04 # u128_to_be ip"

definition relay_body :: "relay_packet \<Rightarrow> bytes" where
  "relay_body p = [relay_type_byte (rp_type p)] @ encode_dst (rp_dst p) @ u16_to_be (sa_port (rp_dst p))
     @ u16_to_be (rp_src_port p) @ u16_to_be (of_nat (length (rp_payload p))) @ rp_payload p"

definition encode_relay_packet :: "obfuscator \<Rightarrow> u32 \<Rightarrow> relay_packet \<Rightarrow> bytes" where
  "encode_relay_packet ob nonce p = u32_to_be nonce @ obf_apply ob (relay_body p) nonce"

definition encode_keepalive :: "obfuscator \<Rightarrow> u32 \<Rightarrow> bytes" where
  "encode_keepalive ob nonce = encode_relay_packet ob nonce
     \<lparr>rp_type = Keepalive, rp_dst = unspecified, rp_src_port = 0, rp_payload = []\<rparr>"

section \<open>Decoding\<close>

definition decode_dst :: "bytes \<Rightarrow> (nat \<times> socket_addr) option" where
  "decode_dst body =
     (if body ! 1 = 0x01 then
        (if length body < 2 + 4 + 2 + 2 + 2 then None
         else Some (4, SaV4 (u32_from_be (body ! 2) (body ! 3) (body ! 4) (body ! 5)) (u16_from_be (body ! 6) (body ! 7))))
      else if body ! 1 = 0x04 then
        (if length body < 2 + 16 + 2 + 2 + 2 then None
         else Some (16, SaV6 (be_word (take 16 (drop 2 body))) (u16_from_be (body ! 18) (body ! 19)) 0 0))
      else None)"

definition decode_relay_body :: "bytes \<Rightarrow> relay_packet option" where
  "decode_relay_body body =
     (if length body < 2 then None
      else case relay_type_from_byte (body ! 0) of
        None \<Rightarrow> None
      | Some t \<Rightarrow>
          if t = Keepalive then Some \<lparr>rp_type = t, rp_dst = unspecified, rp_src_port = 0, rp_payload = []\<rparr>
          else (case decode_dst body of
              None \<Rightarrow> None
            | Some (dst_ip_len, dst) \<Rightarrow>
                let header_len = 2 + dst_ip_len + 2;
                    src_port = u16_from_be (body ! header_len) (body ! (header_len + 1));
                    payload_len = unat (u16_from_be (body ! (header_len + 2)) (body ! (header_len + 3)));
                    payload_start = header_len + 4
                in if length body < payload_start + payload_len then None
                   else Some \<lparr>rp_type = t, rp_dst = dst, rp_src_port = src_port,
                              rp_payload = take payload_len (drop payload_start body)\<rparr>))"

definition decode_relay_packet :: "obfuscator \<Rightarrow> bytes \<Rightarrow> relay_packet option" where
  "decode_relay_packet ob data =
     (if length data < RELAY_NONCE_LEN + 2 then None
      else decode_relay_body (obf_apply ob (drop RELAY_NONCE_LEN data)
        (u32_from_be (data ! 0) (data ! 1) (data ! 2) (data ! 3))))"

section \<open>The round trip\<close>

fun strip_scope :: "socket_addr \<Rightarrow> socket_addr" where
  "strip_scope (SaV4 ip port) = SaV4 ip port"
| "strip_scope (SaV6 ip port flow scope) = SaV6 ip port 0 0"

text \<open>What a datagram carries of a packet.\<close>

definition carried :: "relay_packet \<Rightarrow> relay_packet" where
  "carried p = (if rp_type p = Keepalive
     then \<lparr>rp_type = Keepalive, rp_dst = unspecified, rp_src_port = 0, rp_payload = []\<rparr>
     else p\<lparr>rp_dst := strip_scope (rp_dst p), rp_payload := take (length (rp_payload p) mod 65536) (rp_payload p)\<rparr>)"

lemma relay_type_roundtrip [simp]: "relay_type_from_byte (relay_type_byte t) = Some t"
  by (cases t) (simp_all add: relay_type_from_byte_def relay_type_byte_def)

lemma unat_of_nat16_mod: "unat (of_nat n :: u16) = n mod 65536"
  by (simp add: unat_of_nat)

lemma decode_body_v4:
  assumes "rp_type p \<noteq> Keepalive" and "rp_dst p = SaV4 ip port"
  shows "decode_relay_body (relay_body p) = Some (carried p)"
proof -
  let ?n = "length (rp_payload p)"
  have b: "relay_body p = [relay_type_byte (rp_type p), 1] @ u32_to_be ip @ u16_to_be port @ u16_to_be (rp_src_port p)
      @ u16_to_be (of_nat ?n) @ rp_payload p"
    by (simp add: relay_body_def assms(2))
  have "decode_dst (relay_body p) = Some (4, SaV4 ip port)"
    unfolding b by (simp add: decode_dst_def u32_to_be_def u16_to_be_def nth_Cons')
  moreover have "relay_body p ! 0 = relay_type_byte (rp_type p)" by (simp add: b)
  moreover have "u16_from_be (relay_body p ! 8) (relay_body p ! 9) = rp_src_port p"
      "u16_from_be (relay_body p ! 10) (relay_body p ! 11) = of_nat ?n" "drop 12 (relay_body p) = rp_payload p"
    unfolding b by (simp_all add: u32_to_be_def u16_to_be_def nth_Cons')
  moreover have "length (relay_body p) = 12 + ?n" by (simp add: b)
  moreover have "?n mod 65536 \<le> ?n" by (rule mod_less_eq_dividend)
  ultimately show ?thesis
    using assms by (simp add: decode_relay_body_def carried_def Let_def unat_of_nat16_mod)
qed

lemma decode_body_v6:
  assumes "rp_type p \<noteq> Keepalive" and "rp_dst p = SaV6 ip port flow scope"
  shows "decode_relay_body (relay_body p) = Some (carried p)"
proof -
  let ?n = "length (rp_payload p)"
  obtain a c where ps: "u16_to_be port = [a, c]" "u16_from_be a c = port" using u16_to_be_conv by blast
  obtain d e where ss: "u16_to_be (rp_src_port p) = [d, e]" "u16_from_be d e = rp_src_port p" using u16_to_be_conv by blast
  obtain f g where ns: "u16_to_be (of_nat ?n) = [f, g]" "u16_from_be f g = of_nat ?n" using u16_to_be_conv by blast
  let ?h = "[relay_type_byte (rp_type p), 4] @ u128_to_be ip"
  have b: "relay_body p = ?h @ [a, c, d, e, f, g] @ rp_payload p"
    by (simp add: relay_body_def assms(2) ps ss ns)
  have h: "length ?h = 18" by simp
  have ix: "relay_body p ! 18 = a" "relay_body p ! 19 = c" "relay_body p ! 20 = d" "relay_body p ! 21 = e"
      "relay_body p ! 22 = f" "relay_body p ! 23 = g"
    unfolding b nth_append h by simp_all
  have hd: "relay_body p ! 0 = relay_type_byte (rp_type p)" "relay_body p ! 1 = 4" by (simp_all add: b)
  have len: "length (relay_body p) = 24 + ?n" by (simp add: b)
  have dr: "drop 24 (relay_body p) = rp_payload p" "take 16 (drop 2 (relay_body p)) = u128_to_be ip" by (simp_all add: b)
  have "decode_dst (relay_body p) = Some (16, SaV6 ip port 0 0)"
    by (simp add: decode_dst_def hd [simplified] ix dr len ps)
  moreover have "?n mod 65536 \<le> ?n" by (rule mod_less_eq_dividend)
  ultimately show ?thesis
    using assms hd ix len dr ss ns by (simp add: decode_relay_body_def carried_def Let_def unat_of_nat16_mod)
qed

lemma decode_encoded:
  "decode_relay_packet ob (encode_relay_packet ob nonce p) = Some (carried p)"
proof -
  let ?w = "encode_relay_packet ob nonce p"
  have "7 \<le> length (relay_body p)" by (cases "rp_dst p") (simp_all add: relay_body_def)
  then have "decode_relay_packet ob ?w = decode_relay_body (relay_body p)"
    by (simp add: decode_relay_packet_def encode_relay_packet_def RELAY_NONCE_LEN_def u32_to_be_def)
  also have "\<dots> = Some (carried p)"
  proof (cases "rp_type p = Keepalive")
    case True
    then show ?thesis using \<open>7 \<le> length (relay_body p)\<close>
      by (simp add: decode_relay_body_def carried_def) (simp add: relay_body_def True)
  next
    case False
    then show ?thesis using decode_body_v4 decode_body_v6 by (cases "rp_dst p") blast+
  qed
  finally show ?thesis .
qed

text \<open>
  Whatever the nonce, a relayed datagram decodes to the packet that was encoded: a data or bind packet
  keeps its type, addresses and payload (up to the flow label and scope of IPv6, and to the sixteen-bit length,
  which cuts a payload to its length modulo 65536), a keepalive keeps its type.
\<close>

theorem relay_roundtrip:
  "decode_relay_packet ob (encode_relay_packet ob nonce p) = Some (carried p)"
  by (rule decode_encoded)

end
