(* ===== verification/Udp_Nat.thy ===== *)
theory Udp_Nat
  imports Udp_Relay "HOL-Library.AList"
begin

unbundle bit_operations_syntax

text \<open>
  The router's end of the UDP relay, \<^verbatim>\<open>xr-client/src/udp_relay.rs\<close>: which datagrams go into the tunnel, the table that gives every device
  a tunnel port and finds the device again by it, the retirement of idle flows, and the cache of sockets that answer from a spoofed
  address. A hash map is an association list, whose order stands for the map's. The theorems: the two maps of the
  table are inverse to each other, so an answer finds exactly the device whose port it carries, and a device keeps its port as long as it is
  not idle for the whole timeout.
\<close>

section \<open>The flow table\<close>

record udp_flow =
  uf_src_addr :: socket_addr
  uf_last_activity :: instant

record flow_table =
  ft_flows :: "(u16 \<times> udp_flow) list"
  ft_ports :: "(socket_addr \<times> u16) list"
  ft_pool :: "u16 list"

definition TUNNEL_PORT_POOL :: "u16 list" where
  "TUNNEL_PORT_POOL = map of_nat [40000..<65001]"

definition flow_table_new :: "u16 list \<Rightarrow> flow_table" where
  "flow_table_new pool = \<lparr>ft_flows = [], ft_ports = [], ft_pool = pool\<rparr>"

definition flow_allocate :: "u16 \<Rightarrow> flow_table \<Rightarrow> u16 option" where
  "flow_allocate preferred ft =
     (if preferred \<noteq> 0 \<and> map_of (ft_flows ft) preferred = None then Some preferred
      else List.find (\<lambda>p. map_of (ft_flows ft) p = None) (ft_pool ft))"

definition set_activity :: "u16 \<Rightarrow> instant \<Rightarrow> flow_table \<Rightarrow> flow_table" where
  "set_activity port now ft = (case map_of (ft_flows ft) port of
      None \<Rightarrow> ft
    | Some f \<Rightarrow> ft\<lparr>ft_flows := AList.update port (f\<lparr>uf_last_activity := now\<rparr>) (ft_flows ft)\<rparr>)"

definition flow_touch :: "socket_addr \<Rightarrow> instant \<Rightarrow> flow_table \<Rightarrow> u16 option \<times> flow_table" where
  "flow_touch src_addr now ft = (case map_of (ft_ports ft) src_addr of
      Some port \<Rightarrow> (Some port, set_activity port now ft)
    | None \<Rightarrow> (case flow_allocate (sa_port src_addr) ft of
          None \<Rightarrow> (None, ft)
        | Some port \<Rightarrow> (Some port,
            ft\<lparr>ft_ports := AList.update src_addr port (ft_ports ft),
               ft_flows := AList.update port \<lparr>uf_src_addr = src_addr, uf_last_activity = now\<rparr> (ft_flows ft)\<rparr>)))"

definition upstream_packet :: "socket_addr \<Rightarrow> socket_addr \<Rightarrow> bytes \<Rightarrow> instant \<Rightarrow> flow_table \<Rightarrow> relay_packet option \<times> flow_table" where
  "upstream_packet src_addr orig_dst data now ft = (case flow_touch src_addr now ft of
      (None, ft') \<Rightarrow> (None, ft')
    | (Some port, ft') \<Rightarrow> (Some \<lparr>rp_type = Data, rp_dst = orig_dst, rp_src_port = port, rp_payload = data\<rparr>, ft'))"

definition downstream_target :: "relay_packet \<Rightarrow> instant \<Rightarrow> flow_table \<Rightarrow> (socket_addr \<times> socket_addr) option \<times> flow_table" where
  "downstream_target packet now ft = (case map_of (ft_flows ft) (rp_src_port packet) of
      None \<Rightarrow> (None, ft)
    | Some f \<Rightarrow> (Some (uf_src_addr f, rp_dst packet), set_activity (rp_src_port packet) now ft))"

definition retire_one :: "u16 \<Rightarrow> flow_table \<Rightarrow> flow_table" where
  "retire_one port ft = (case map_of (ft_flows ft) port of
      None \<Rightarrow> ft
    | Some f \<Rightarrow> ft\<lparr>ft_flows := AList.delete port (ft_flows ft), ft_ports := AList.delete (uf_src_addr f) (ft_ports ft)\<rparr>)"

definition retire_expired :: "duration \<Rightarrow> instant \<Rightarrow> flow_table \<Rightarrow> nat \<times> flow_table" where
  "retire_expired timeout now ft =
     (let expired = map fst (filter (\<lambda>(port, f). timeout \<le> elapsed (uf_last_activity f) now) (ft_flows ft)) in
      (length expired, fold retire_one expired ft))"

section \<open>Which datagrams are relayed\<close>

definition is_private_ip :: "u32 \<Rightarrow> bool" where
  "is_private_ip ip = (let octets = u32_to_be ip in
     octets ! 0 = 10 \<or> octets ! 0 = 172 \<and> (octets ! 1) AND 0xF0 = 16 \<or> octets ! 0 = 192 \<and> octets ! 1 = 168)"

definition is_multicast4 :: "u32 \<Rightarrow> bool" where
  "is_multicast4 ip = (let o0 = u32_to_be ip ! 0 in 224 \<le> o0 \<and> o0 \<le> 239)"

definition is_loopback4 :: "u32 \<Rightarrow> bool" where
  "is_loopback4 ip = (u32_to_be ip ! 0 = 127)"

definition should_relay :: "u32 list \<Rightarrow> u16 list \<Rightarrow> socket_addr \<Rightarrow> socket_addr \<Rightarrow> bool" where
  "should_relay source_ips exclude_ports src_addr orig_dst =
     (if source_ips \<noteq> [] \<and> (case src_addr of SaV4 ip _ \<Rightarrow> ip \<notin> set source_ips | SaV6 _ _ _ _ \<Rightarrow> True) then False
      else if sa_port orig_dst \<in> set exclude_ports then False
      else (case orig_dst of
          SaV4 ip _ \<Rightarrow> \<not> (ip = 0xFFFFFFFF \<or> is_multicast4 ip \<or> is_loopback4 ip \<or> is_private_ip ip)
        | SaV6 _ _ _ _ \<Rightarrow> True))"

section \<open>Spoofing sockets\<close>

text \<open>A socket is its number.\<close>

record spoof_entry =
  sp_sock :: nat
  sp_last_used :: instant

type_synonym spoof_cache = "(socket_addr \<times> spoof_entry) list"

definition spoof_get :: "socket_addr \<Rightarrow> instant \<Rightarrow> spoof_cache \<Rightarrow> nat option \<times> spoof_cache" where
  "spoof_get addr now c = (case map_of c addr of
      None \<Rightarrow> (None, c)
    | Some e \<Rightarrow> (Some (sp_sock e), AList.update addr (e\<lparr>sp_last_used := now\<rparr>) c))"

definition spoof_insert :: "socket_addr \<Rightarrow> nat \<Rightarrow> instant \<Rightarrow> spoof_cache \<Rightarrow> spoof_cache" where
  "spoof_insert addr sock now c = AList.update addr \<lparr>sp_sock = sock, sp_last_used = now\<rparr> c"

definition retire_idle :: "duration \<Rightarrow> instant \<Rightarrow> spoof_cache \<Rightarrow> nat \<times> spoof_cache" where
  "retire_idle timeout now c =
     (let c' = filter (\<lambda>(_, e). elapsed (sp_last_used e) now < timeout) c in (length c - length c', c'))"

text \<open>\<^verbatim>\<open>get_or_create_spoof_socket\<close> between its two locks: the socket is the one that \<^verbatim>\<open>create_spoof_socket\<close> answers, if it is asked.\<close>

definition get_or_create_spoof_socket :: "socket_addr \<Rightarrow> instant \<Rightarrow> (string + nat) \<Rightarrow> instant \<Rightarrow> spoof_cache \<Rightarrow> (string + nat) \<times> spoof_cache" where
  "get_or_create_spoof_socket addr now created later c = (case spoof_get addr now c of
      (Some sock, c') \<Rightarrow> (Inr sock, c')
    | (None, c') \<Rightarrow> (case created of Inl e \<Rightarrow> (Inl e, c') | Inr sock \<Rightarrow> (Inr sock, spoof_insert addr sock later c')))"

section \<open>The loops of the router\<close>

record relay_client =
  rc_flows :: flow_table
  rc_spoof :: spoof_cache
  rc_obfuscator :: obfuscator
  rc_source_ips :: "u32 list"
  rc_exclude_ports :: "u16 list"
  rc_timeout :: duration

text \<open>One turn of the upstream loop: the datagram that goes to the server, if any.\<close>

definition upstream_turn :: "u32 \<Rightarrow> bytes \<Rightarrow> socket_addr \<Rightarrow> socket_addr \<Rightarrow> instant \<Rightarrow> relay_client \<Rightarrow> bytes option \<times> relay_client" where
  "upstream_turn nonce data src_addr orig_dst now rc =
     (if data = [] then (None, rc)
      else if \<not> should_relay (rc_source_ips rc) (rc_exclude_ports rc) src_addr orig_dst then (None, rc)
      else (case upstream_packet src_addr orig_dst data now (rc_flows rc) of
          (None, ft) \<Rightarrow> (None, rc\<lparr>rc_flows := ft\<rparr>)
        | (Some p, ft) \<Rightarrow> (Some (encode_relay_packet (rc_obfuscator rc) nonce p), rc\<lparr>rc_flows := ft\<rparr>)))"

text \<open>One turn of the downstream loop: the socket that sends, the address it is bound to, the device and the payload. The lock on
  the flow table and the two locks on the cache of sockets are taken here as one step.\<close>

definition downstream_turn :: "bytes \<Rightarrow> instant \<Rightarrow> (string + nat) \<Rightarrow> relay_client \<Rightarrow> (nat \<times> socket_addr \<times> socket_addr \<times> bytes) option \<times> relay_client" where
  "downstream_turn data now created rc =
     (if data = [] then (None, rc)
      else case decode_relay_packet (rc_obfuscator rc) data of
        None \<Rightarrow> (None, rc)
      | Some p \<Rightarrow>
          if rp_type p = Data then
            (case downstream_target p now (rc_flows rc) of
               (None, ft) \<Rightarrow> (None, rc\<lparr>rc_flows := ft\<rparr>)
             | (Some (dev, from_addr), ft) \<Rightarrow>
                 (case get_or_create_spoof_socket from_addr now created now (rc_spoof rc) of
                    (Inl e, c) \<Rightarrow> (None, rc\<lparr>rc_flows := ft, rc_spoof := c\<rparr>)
                  | (Inr sock, c) \<Rightarrow> (Some (sock, from_addr, dev, rp_payload p), rc\<lparr>rc_flows := ft, rc_spoof := c\<rparr>)))
          else (None, rc))"

definition cleanup_turn :: "instant \<Rightarrow> relay_client \<Rightarrow> relay_client" where
  "cleanup_turn now rc = rc\<lparr>rc_flows := snd (retire_expired (rc_timeout rc) now (rc_flows rc)),
     rc_spoof := snd (retire_idle (rc_timeout rc) now (rc_spoof rc))\<rparr>"

inductive client_step :: "relay_client \<Rightarrow> relay_client \<Rightarrow> bool" where
  step_up: "client_step rc (snd (upstream_turn nonce data src dst now rc))"
| step_down: "client_step rc (snd (downstream_turn data now created rc))"
| step_clean: "client_step rc (cleanup_turn now rc)"

inductive_cases client_stepE: "client_step rc rc'"

definition client_init :: "relay_client \<Rightarrow> bool" where
  "client_init rc \<longleftrightarrow> (\<exists>pool. rc_flows rc = flow_table_new pool)"

section \<open>The two maps are inverse\<close>

definition table_ok :: "flow_table \<Rightarrow> bool" where
  "table_ok ft \<longleftrightarrow> distinct (map fst (ft_flows ft)) \<and> distinct (map fst (ft_ports ft)) \<and>
     (\<forall>a p. map_of (ft_ports ft) a = Some p \<longleftrightarrow> map_option uf_src_addr (map_of (ft_flows ft) p) = Some a)"

lemma table_okI:
  "distinct (map fst (ft_flows ft)) \<Longrightarrow> distinct (map fst (ft_ports ft)) \<Longrightarrow>
   (\<And>a p. map_of (ft_ports ft) a = Some p \<longleftrightarrow> map_option uf_src_addr (map_of (ft_flows ft) p) = Some a) \<Longrightarrow> table_ok ft"
  by (simp add: table_ok_def)

lemma allocate_free: "flow_allocate preferred ft = Some p \<Longrightarrow> map_of (ft_flows ft) p = None"
  by (auto simp: flow_allocate_def find_Some_iff split: if_splits)

lemma set_activity_maps:
  "map_of (ft_ports (set_activity p now ft)) = map_of (ft_ports ft)"
  "map_option uf_src_addr (map_of (ft_flows (set_activity p now ft)) q) = map_option uf_src_addr (map_of (ft_flows ft) q)"
  by (auto simp: set_activity_def AList.update_conv' split: option.splits)

lemma set_activity_ok: "table_ok ft \<Longrightarrow> table_ok (set_activity p now ft)"
  by (rule table_okI) (auto simp: table_ok_def set_activity_maps, auto simp: set_activity_def AList.distinct_update split: option.splits)

lemma touch_ok:
  assumes "table_ok ft"
  shows "table_ok (snd (flow_touch a now ft))"
proof (cases "map_of (ft_ports ft) a")
  case None
  show ?thesis
  proof (cases "flow_allocate (sa_port a) ft")
    case (Some p)
    note f = allocate_free [OF Some]
    have n: "map_option uf_src_addr (map_of (ft_flows ft) q) \<noteq> Some a" for q using assms None unfolding table_ok_def by (metis option.distinct(1))
    show ?thesis using assms None Some f n
      by (intro table_okI) (auto simp: flow_touch_def table_ok_def AList.distinct_update AList.update_conv')
  qed (use assms None in \<open>simp add: flow_touch_def\<close>)
qed (use assms set_activity_ok in \<open>simp add: flow_touch_def\<close>)

lemma retire_one_maps:
  assumes "map_of (ft_flows ft) p = Some f"
  shows "map_of (ft_flows (retire_one p ft)) q = (if q = p then None else map_of (ft_flows ft) q)"
    and "map_of (ft_ports (retire_one p ft)) a = (if a = uf_src_addr f then None else map_of (ft_ports ft) a)"
  using assms by (simp_all add: retire_one_def AList.delete_conv')

lemma retire_one_ok:
  assumes "table_ok ft"
  shows "table_ok (retire_one p ft)"
proof (cases "map_of (ft_flows ft) p")
  case (Some f)
  have inv: "map_of (ft_ports ft) a = Some q \<longleftrightarrow> map_option uf_src_addr (map_of (ft_flows ft) q) = Some a" for a q
    using assms by (simp add: table_ok_def)
  have "map_of (ft_ports ft) (uf_src_addr f) = Some p" using inv Some by simp
  then have "map_of (ft_ports (retire_one p ft)) a = Some q \<longleftrightarrow> map_option uf_src_addr (map_of (ft_flows (retire_one p ft)) q) = Some a" for a q
    unfolding retire_one_maps [OF Some] using inv [of a q] Some by (cases "q = p"; cases "a = uf_src_addr f") auto
  moreover have "distinct (map fst (ft_flows (retire_one p ft)))" "distinct (map fst (ft_ports (retire_one p ft)))"
    using assms Some by (simp_all add: retire_one_def table_ok_def AList.distinct_delete)
  ultimately show ?thesis by (simp add: table_ok_def)
qed (use assms in \<open>simp add: retire_one_def\<close>)

lemma fold_retire_ok: "table_ok ft \<Longrightarrow> table_ok (fold retire_one ps ft)"
  by (induction ps arbitrary: ft) (auto intro: retire_one_ok)

lemma fold_retire_flows: "map_of (ft_flows (fold retire_one ps ft)) q = (if q \<in> set ps then None else map_of (ft_flows ft) q)"
proof (induction ps arbitrary: ft)
  case (Cons p ps)
  have "map_of (ft_flows (retire_one p ft)) q = (if q = p then None else map_of (ft_flows ft) q)"
    by (cases "map_of (ft_flows ft) p") (auto simp: retire_one_maps, simp_all add: retire_one_def)
  then show ?case using Cons by auto
qed simp

lemma retired_flows:
  assumes "table_ok ft"
  shows "map_of (ft_flows (snd (retire_expired timeout now ft))) q = (case map_of (ft_flows ft) q of
      None \<Rightarrow> None | Some f \<Rightarrow> if timeout \<le> elapsed (uf_last_activity f) now then None else Some f)"
proof -
  have "q \<in> set (map fst (filter (\<lambda>(port, f). timeout \<le> elapsed (uf_last_activity f) now) (ft_flows ft))) \<longleftrightarrow>
      (\<exists>f. map_of (ft_flows ft) q = Some f \<and> timeout \<le> elapsed (uf_last_activity f) now)"
    using assms by (force simp: table_ok_def)
  then show ?thesis by (auto simp: retire_expired_def Let_def fold_retire_flows split: option.splits)
qed

interpretation router: transition_system client_init client_step "\<lambda>rc. table_ok (rc_flows rc)"
proof unfold_locales
  show "client_init rc \<Longrightarrow> table_ok (rc_flows rc)" for rc by (auto simp: client_init_def flow_table_new_def table_ok_def)
next
  fix rc rc' :: relay_client
  assume t: "table_ok (rc_flows rc)"
  assume "client_step rc rc'"
  then show "table_ok (rc_flows rc')"
  proof (cases rule: client_step.cases)
    case (step_up nonce data src dst now)
    then show ?thesis using t touch_ok [OF t, of src now]
      by (auto simp: upstream_turn_def upstream_packet_def split: prod.splits option.splits)
  next
    case (step_down data now created)
    then show ?thesis using t set_activity_ok [OF t]
      by (auto simp: downstream_turn_def downstream_target_def split: option.splits prod.splits sum.splits)
  next
    case (step_clean now)
    then show ?thesis using fold_retire_ok [OF t] by (simp add: cleanup_turn_def retire_expired_def Let_def)
  qed
qed

section \<open>A device and its port\<close>

definition device_port :: "socket_addr \<Rightarrow> relay_client \<Rightarrow> u16 option" where
  "device_port dev rc = map_of (ft_ports (rc_flows rc)) dev"

text \<open>When the device was last heard of or answered.\<close>

definition last_activity :: "socket_addr \<Rightarrow> relay_client \<Rightarrow> instant option" where
  "last_activity dev rc = (case device_port dev rc of
      None \<Rightarrow> None | Some p \<Rightarrow> map_option uf_last_activity (map_of (ft_flows (rc_flows rc)) p))"

lemma device_flow:
  assumes "table_ok (rc_flows rc)"
  shows "device_port dev rc = Some p \<longleftrightarrow> (\<exists>f. map_of (ft_flows (rc_flows rc)) p = Some f \<and> uf_src_addr f = dev)"
  using assms unfolding table_ok_def device_port_def by simp

lemma up_keeps:
  assumes "device_port dev rc = Some p"
  shows "device_port dev (snd (upstream_turn nonce data src dst now rc)) = Some p"
  using assms
  by (auto simp: device_port_def upstream_turn_def upstream_packet_def flow_touch_def AList.update_conv' set_activity_maps
      split: prod.splits option.splits)

lemma down_keeps: "device_port dev (snd (downstream_turn data now created rc)) = device_port dev rc"
  by (auto simp: device_port_def downstream_turn_def downstream_target_def set_activity_maps split: prod.splits option.splits sum.splits)

lemma clean_keeps:
  assumes "table_ok (rc_flows rc)"
  shows "device_port dev (cleanup_turn now rc) =
    (case last_activity dev rc of None \<Rightarrow> None | Some t \<Rightarrow> if rc_timeout rc \<le> elapsed t now then None else device_port dev rc)"
proof -
  have t: "table_ok (rc_flows (cleanup_turn now rc))"
    using fold_retire_ok [OF assms] by (simp add: cleanup_turn_def retire_expired_def Let_def)
  have r: "map_of (ft_flows (rc_flows (cleanup_turn now rc))) q = (case map_of (ft_flows (rc_flows rc)) q of
      None \<Rightarrow> None | Some f \<Rightarrow> if rc_timeout rc \<le> elapsed (uf_last_activity f) now then None else Some f)" for q
    using retired_flows [OF assms] by (simp add: cleanup_turn_def)
  have e: "device_port dev (cleanup_turn now rc) = Some p \<longleftrightarrow>
      device_port dev rc = Some p \<and> (\<exists>t. last_activity dev rc = Some t \<and> \<not> rc_timeout rc \<le> elapsed t now)" for p
    unfolding device_flow [OF t] r using device_flow [OF assms, of dev p]
    by (auto simp: last_activity_def split: option.splits)
  let ?r = "case last_activity dev rc of None \<Rightarrow> None | Some t \<Rightarrow> if rc_timeout rc \<le> elapsed t now then None else device_port dev rc"
  have "device_port dev (cleanup_turn now rc) = Some p \<longleftrightarrow> ?r = Some p" for p unfolding e by (cases "last_activity dev rc") auto
  then show ?thesis by (metis not_None_eq)
qed

text \<open>
  The router's translation is a bijection that lasts: in every reachable state an answer that carries a tunnel port goes to the one device that
  has this port (no other device has it) and seems to come from the address that answered; a datagram that carries a port nobody has
  is dropped; a device that sends goes on under its port whatever the destination, and loses it only in a cleanup that finds it idle for the
  whole timeout.
\<close>

theorem tunnel_port_identifies_device:
  assumes "reach client_init client_step rc"
  shows "(fst (downstream_target packet now (rc_flows rc)) = Some (dev, from_addr) \<longleftrightarrow>
        device_port dev rc = Some (rp_src_port packet) \<and> from_addr = rp_dst packet)
    \<and> (device_port dev rc = Some p \<and> device_port dev' rc = Some p \<longrightarrow> dev = dev')
    \<and> (device_port dev rc = Some p \<and> client_step rc rc' \<longrightarrow> device_port dev rc' = Some p \<or>
        (\<exists>t at. rc' = cleanup_turn at rc \<and> last_activity dev rc = Some t \<and> rc_timeout rc \<le> elapsed t at))"
proof (intro conjI impI; (elim conjE)?)
  have t: "table_ok (rc_flows rc)" by (rule router.reach_inv [OF assms])
  show "fst (downstream_target packet now (rc_flows rc)) = Some (dev, from_addr) \<longleftrightarrow>
      device_port dev rc = Some (rp_src_port packet) \<and> from_addr = rp_dst packet"
    unfolding device_flow [OF t] by (auto simp: downstream_target_def split: option.splits)
  show "dev = dev'" if "device_port dev rc = Some p" "device_port dev' rc = Some p"
    using that unfolding device_flow [OF t] by auto
  assume d: "device_port dev rc = Some p" and "client_step rc rc'"
  from this(2) show "device_port dev rc' = Some p \<or>
      (\<exists>t at. rc' = cleanup_turn at rc \<and> last_activity dev rc = Some t \<and> rc_timeout rc \<le> elapsed t at)"
  proof (cases rule: client_step.cases)
    case (step_clean at)
    obtain f where f: "map_of (ft_flows (rc_flows rc)) p = Some f" using d device_flow [OF t] by blast
    then have "last_activity dev rc = Some (uf_last_activity f)" using d by (simp add: last_activity_def)
    then show ?thesis using step_clean clean_keeps [OF t, of dev at] d by (auto split: if_splits)
  qed (use d up_keeps down_keeps in auto)
qed

end
