(* ===== verification/Udp_Flows.thy ===== *)
theory Udp_Flows
  imports Udp_Nat
begin

text \<open>
  The server's end of the UDP relay, \<^verbatim>\<open>xr-server/src/udp_relay.rs\<close>: the table of flows, the queue of each flow, and the task that owns its
  socket, with the receive loop and the tasks interleaved. Every step that holds the lock of the table is one step. The theorems: a flow sends
  out what was queued, in order, and ends by idleness only when everything was sent; there is one socket per router and port; and a
  datagram of a device is answered to this device, across both ends of the tunnel.
\<close>

section \<open>The table and the queues\<close>

definition FLOW_QUEUE :: nat where "FLOW_QUEUE = 64"

datatype flow_packet = FlowPacket (fp_dst: socket_addr) (fp_payload: bytes)

type_synonym flow_key = "socket_addr \<times> u16"

text \<open>
  Where a task stands: binding its socket, in the loop, past the timeout and before the lock, past a failed bind and before the lock, ended.
  The last three fields are for the statements: what the queue has taken, what was sent, and whether the bind failed.
\<close>

datatype flow_pc = Binding | Looping | IdleCheck | BindFailed | Ended

record flow_task =
  fl_key :: flow_key
  fl_rx :: "flow_packet list"
  fl_pc :: flow_pc
  fl_taken :: "flow_packet list"
  fl_sent :: "flow_packet list"
  fl_failed :: bool

record udp_server =
  us_flows :: "flow_key \<rightharpoonup> nat"
  us_tasks :: "flow_task list"
  us_wire :: "(socket_addr \<times> bytes) list"

definition task_new :: "flow_key \<Rightarrow> flow_task" where
  "task_new key = \<lparr>fl_key = key, fl_rx = [], fl_pc = Binding, fl_taken = [], fl_sent = [], fl_failed = False\<rparr>"

text \<open>\<^verbatim>\<open>try_send\<close>: refused when the queue is full or its task has ended.\<close>

definition queue_packet :: "flow_packet \<Rightarrow> flow_task \<Rightarrow> flow_task" where
  "queue_packet q t = (if fl_pc t = Ended \<or> FLOW_QUEUE \<le> length (fl_rx t) then t
     else t\<lparr>fl_rx := fl_rx t @ [q], fl_taken := fl_taken t @ [q]\<rparr>)"

definition handle_data_packet :: "socket_addr \<Rightarrow> relay_packet \<Rightarrow> udp_server \<Rightarrow> udp_server" where
  "handle_data_packet peer packet s =
     (let key = (peer, rp_src_port packet); queued = FlowPacket (rp_dst packet) (rp_payload packet) in
      case us_flows s key of
        Some k \<Rightarrow> s\<lparr>us_tasks := (us_tasks s)[k := queue_packet queued (us_tasks s ! k)]\<rparr>
      | None \<Rightarrow> s\<lparr>us_flows := (us_flows s)(key \<mapsto> length (us_tasks s)), us_tasks := us_tasks s @ [queue_packet queued (task_new key)]\<rparr>)"

definition handle_datagram :: "obfuscator \<Rightarrow> u32 \<Rightarrow> socket_addr \<Rightarrow> bytes \<Rightarrow> udp_server \<Rightarrow> udp_server" where
  "handle_datagram ob nonce peer data s = (case decode_relay_packet ob data of
      None \<Rightarrow> s
    | Some packet \<Rightarrow> (case rp_type packet of
          Keepalive \<Rightarrow> s\<lparr>us_wire := (peer, encode_keepalive ob nonce) # us_wire s\<rparr>
        | Data \<Rightarrow> handle_data_packet peer packet s
        | BindPort \<Rightarrow> s))"

section \<open>The task of a flow\<close>

definition send_out :: "flow_packet \<Rightarrow> flow_task \<Rightarrow> flow_task" where
  "send_out q t = t\<lparr>fl_sent := fl_sent t @ [q]\<rparr>"

text \<open>What a task meets: the result of the bind, a packet of its queue, a datagram from outside, the timeout, or the lock it waited for.\<close>

datatype flow_event = Bound bool | Dequeue | Inbound u32 bytes socket_addr | Timeout | Locked

definition inbound_reply :: "obfuscator \<Rightarrow> u32 \<Rightarrow> flow_key \<Rightarrow> bytes \<Rightarrow> socket_addr \<Rightarrow> (socket_addr \<times> bytes) list" where
  "inbound_reply ob nonce key data from_addr = (if data = [] then []
     else [(fst key, encode_relay_packet ob nonce
             \<lparr>rp_type = Data, rp_dst = from_addr, rp_src_port = snd key, rp_payload = data\<rparr>)])"

fun run_flow :: "obfuscator \<Rightarrow> flow_event \<Rightarrow> flow_task \<Rightarrow> udp_server \<Rightarrow> (flow_task \<times> udp_server) option" where
  "run_flow ob (Bound ok) t s =
     (if fl_pc t = Binding then Some (t\<lparr>fl_pc := if ok then Looping else BindFailed, fl_failed := \<not> ok\<rparr>, s) else None)"
| "run_flow ob Dequeue t s =
     (if fl_pc t \<noteq> Looping then None
      else case fl_rx t of
          q # qs \<Rightarrow> Some (send_out q (t\<lparr>fl_rx := qs\<rparr>), s)
        | [] \<Rightarrow> if us_flows s (fl_key t) = None then Some (t\<lparr>fl_pc := Ended\<rparr>, s) else None)"
| "run_flow ob (Inbound nonce data from_addr) t s =
     (if fl_pc t = Looping then Some (t, s\<lparr>us_wire := inbound_reply ob nonce (fl_key t) data from_addr @ us_wire s\<rparr>) else None)"
| "run_flow ob Timeout t s = (if fl_pc t = Looping then Some (t\<lparr>fl_pc := IdleCheck\<rparr>, s) else None)"
| "run_flow ob Locked t s =
     (if fl_pc t = IdleCheck then
        (case fl_rx t of
           q # qs \<Rightarrow> Some (send_out q (t\<lparr>fl_rx := qs, fl_pc := Looping\<rparr>), s)
         | [] \<Rightarrow> Some (t\<lparr>fl_pc := Ended\<rparr>, s\<lparr>us_flows := (us_flows s)(fl_key t := None)\<rparr>))
      else if fl_pc t = BindFailed then Some (t\<lparr>fl_pc := Ended\<rparr>, s\<lparr>us_flows := (us_flows s)(fl_key t := None)\<rparr>)
      else None)"

inductive udp_step :: "obfuscator \<Rightarrow> udp_server \<Rightarrow> udp_server \<Rightarrow> bool" for ob where
  receive: "data \<noteq> [] \<Longrightarrow> udp_step ob s (handle_datagram ob nonce peer data s)"
| flow: "k < length (us_tasks s) \<Longrightarrow> run_flow ob ev (us_tasks s ! k) s = Some (t, s') \<Longrightarrow>
    udp_step ob s (s'\<lparr>us_tasks := (us_tasks s)[k := t]\<rparr>)"

definition udp_init :: "udp_server \<Rightarrow> bool" where
  "udp_init s \<longleftrightarrow> s = \<lparr>us_flows = Map.empty, us_tasks = [], us_wire = []\<rparr>"

text \<open>\<^verbatim>\<open>bind_source_port\<close>: the wanted port or one of the ten after it, wrapping past the end and skipping zero.\<close>

definition bind_candidates :: "u16 \<Rightarrow> u16 list" where
  "bind_candidates port = port # filter (\<lambda>p. p \<noteq> 0) (map (\<lambda>k. port + of_nat k) [1..<11])"

definition bind_source_port :: "(u16 \<Rightarrow> bool) \<Rightarrow> u16 \<Rightarrow> u16 option" where
  "bind_source_port free port = (if free port then Some port else List.find free (tl (bind_candidates port)))"

section \<open>The table knows its tasks\<close>

fun task_ok :: "flow_task \<Rightarrow> bool" where
  "task_ok t \<longleftrightarrow> (fl_failed t \<or> fl_taken t = fl_sent t @ fl_rx t) \<and> (fl_failed t \<longrightarrow> fl_sent t = [])
     \<and> (fl_pc t = Ended \<and> \<not> fl_failed t \<longrightarrow> fl_rx t = []) \<and> (fl_failed t \<longrightarrow> fl_pc t = BindFailed \<or> fl_pc t = Ended)
     \<and> (fl_pc t = BindFailed \<longrightarrow> fl_failed t) \<and> length (fl_rx t) \<le> FLOW_QUEUE \<and> (fl_pc t = Binding \<longrightarrow> fl_sent t = [])"

definition udp_inv :: "udp_server \<Rightarrow> bool" where
  "udp_inv s \<longleftrightarrow> (\<forall>t \<in> set (us_tasks s). task_ok t) \<and>
     (\<forall>key k. us_flows s key = Some k \<longleftrightarrow> k < length (us_tasks s) \<and> fl_key (us_tasks s ! k) = key \<and> fl_pc (us_tasks s ! k) \<noteq> Ended)"

declare task_ok.simps [simp del] split_paired_All [simp del] split_paired_Ex [simp del]

lemma queue_task_ok: "task_ok t \<Longrightarrow> task_ok (queue_packet q t)"
  by (auto simp: task_ok.simps queue_packet_def)

lemma queue_same [simp]: "fl_key (queue_packet q t) = fl_key t" "fl_pc (queue_packet q t) = fl_pc t"
  by (simp_all add: queue_packet_def)

lemma task_new_ok: "task_ok (task_new key)"
  by (simp add: task_ok.simps task_new_def)

lemma receive_inv:
  assumes "udp_inv s"
  shows "udp_inv (handle_data_packet peer packet s)"
proof (cases "us_flows s (peer, rp_src_port packet)")
  case None
  let ?t = "queue_packet (FlowPacket (rp_dst packet) (rp_payload packet)) (task_new (peer, rp_src_port packet))"
  have t: "task_ok ?t" "fl_key ?t = (peer, rp_src_port packet)" "fl_pc ?t = Binding" using queue_task_ok task_new_ok by (auto simp: task_new_def)
  have "fl_pc (us_tasks s ! k) = Ended" if "k < length (us_tasks s)" "fl_key (us_tasks s ! k) = (peer, rp_src_port packet)" for k
    using assms None that unfolding udp_inv_def by (metis option.distinct(1))
  then show ?thesis using assms None t by (auto simp: udp_inv_def handle_data_packet_def Let_def nth_append less_Suc_eq)
next
  case (Some k)
  let ?q = "FlowPacket (rp_dst packet) (rp_payload packet)"
  have e: "handle_data_packet peer packet s = s\<lparr>us_tasks := (us_tasks s)[k := queue_packet ?q (us_tasks s ! k)]\<rparr>"
    using Some by (simp add: handle_data_packet_def Let_def)
  have k: "k < length (us_tasks s)" using assms Some unfolding udp_inv_def by blast
  then have "task_ok (queue_packet ?q (us_tasks s ! k))" using assms queue_task_ok by (simp add: udp_inv_def)
  then show ?thesis unfolding e using assms k
    by (auto simp: udp_inv_def nth_list_update dest!: set_update_subset_insert [THEN subsetD])
qed

lemma run_flow_inv:
  assumes i: "udp_inv s" and k: "k < length (us_tasks s)" and r: "run_flow ob ev (us_tasks s ! k) s = Some (t, s')"
  shows "udp_inv (s'\<lparr>us_tasks := (us_tasks s)[k := t]\<rparr>)"
proof -
  let ?x = "us_tasks s ! k"
  have x: "task_ok ?x" using i k by (simp add: udp_inv_def)
  have own: "us_flows s (fl_key ?x) = Some k" if "fl_pc ?x \<noteq> Ended" using i k that unfolding udp_inv_def by blast
  have t: "task_ok t \<and> fl_key t = fl_key ?x \<and>
      (us_flows s' = us_flows s \<and> (fl_pc t = Ended \<longleftrightarrow> fl_pc ?x = Ended) \<or>
       us_flows s' = (us_flows s)(fl_key ?x := None) \<and> fl_pc t = Ended \<and> fl_pc ?x \<noteq> Ended)"
    using r x own by (cases ev) (auto simp: task_ok.simps send_out_def split: if_splits list.splits)
  show ?thesis
  proof (cases "us_flows s' = us_flows s")
    case True
    then have "fl_pc t = Ended \<longleftrightarrow> fl_pc ?x = Ended" using t own by (metis fun_upd_same option.distinct(1))
    then show ?thesis using i k t True
      by (auto simp: udp_inv_def nth_list_update dest!: set_update_subset_insert [THEN subsetD])
  next
    case False
    then have "us_flows s' = (us_flows s)(fl_key ?x := None)" "fl_pc t = Ended" "us_flows s (fl_key ?x) = Some k" using t own by blast+
    moreover have "fl_pc (us_tasks s ! j) = Ended \<or> j = k" if "j < length (us_tasks s)" "fl_key (us_tasks s ! j) = fl_key ?x" for j
      using i that calculation(3) unfolding udp_inv_def by (metis option.sel)
    ultimately show ?thesis using i k t
      by (auto simp: udp_inv_def nth_list_update dest!: set_update_subset_insert [THEN subsetD])
  qed
qed

interpretation flows: transition_system udp_init "udp_step ob" udp_inv
proof unfold_locales
  show "udp_init s \<Longrightarrow> udp_inv s" for s by (simp add: udp_init_def udp_inv_def)
next
  fix s t
  assume i: "udp_inv s"
  assume "udp_step ob s t"
  then show "udp_inv t"
  proof cases
    case (receive data nonce peer)
    then show ?thesis using i receive_inv [OF i]
      by (auto simp: handle_datagram_def udp_inv_def split: option.splits relay_type.splits)
  qed (use run_flow_inv [OF i] in auto)
qed

section \<open>Delivery\<close>

text \<open>
  The server relays a flow faithfully. However the receive loop and the flows interleave: what a flow sends out is what its queue has taken, in this
  order, with the rest still queued (never more than the bound); a flow that ends because it was idle has sent everything it took, so that no packet is
  lost between the timeout and the removal; and two running flows never belong to the same router and port, so there is one socket for each.
\<close>

theorem udp_flow_in_order:
  assumes "reach udp_init (udp_step ob) s" and "k < length (us_tasks s)" and "\<not> fl_failed (us_tasks s ! k)"
  shows "fl_taken (us_tasks s ! k) = fl_sent (us_tasks s ! k) @ fl_rx (us_tasks s ! k)
    \<and> length (fl_rx (us_tasks s ! k)) \<le> FLOW_QUEUE
    \<and> (fl_pc (us_tasks s ! k) = Ended \<longrightarrow> fl_sent (us_tasks s ! k) = fl_taken (us_tasks s ! k))
    \<and> (\<forall>j < length (us_tasks s). fl_pc (us_tasks s ! j) \<noteq> Ended \<and> fl_pc (us_tasks s ! k) \<noteq> Ended \<and>
         fl_key (us_tasks s ! j) = fl_key (us_tasks s ! k) \<longrightarrow> j = k)"
proof -
  have i: "udp_inv s" by (rule flows.reach_inv [OF assms(1)])
  then have "task_ok (us_tasks s ! k)" using assms(2) by (simp add: udp_inv_def)
  moreover have "j = k" if "j < length (us_tasks s)" "fl_pc (us_tasks s ! j) \<noteq> Ended" "fl_pc (us_tasks s ! k) \<noteq> Ended"
      "fl_key (us_tasks s ! j) = fl_key (us_tasks s ! k)" for j
    using i that assms(2) unfolding udp_inv_def by (metis option.sel)
  ultimately show ?thesis using assms(3) by (auto simp: task_ok.simps)
qed

lemma carried_data:
  "length data < 65536 \<Longrightarrow> carried \<lparr>rp_type = Data, rp_dst = a, rp_src_port = p, rp_payload = data\<rparr> =
     \<lparr>rp_type = Data, rp_dst = strip_scope a, rp_src_port = p, rp_payload = data\<rparr>"
  by (simp add: carried_def)

lemma touch_port: "flow_touch dev now ft = (Some p, ft') \<Longrightarrow> map_of (ft_ports ft') dev = Some p"
  by (auto simp: flow_touch_def AList.update_conv' set_activity_maps split: option.splits)

lemma upstream_wire:
  assumes "upstream_turn nonce data dev dst now rc = (Some w, rc')"
  obtains p where "device_port dev rc' = Some p" and "rc_obfuscator rc' = rc_obfuscator rc"
    and "w = encode_relay_packet (rc_obfuscator rc) nonce \<lparr>rp_type = Data, rp_dst = dst, rp_src_port = p, rp_payload = data\<rparr>"
  using assms touch_port
  by (auto simp: upstream_turn_def upstream_packet_def device_port_def split: if_splits prod.splits option.splits)

lemma encoded_nonempty: "encode_relay_packet ob nonce p \<noteq> []"
  by (simp add: encode_relay_packet_def u32_to_be_def)

text \<open>
  C22. The answer comes back to the device that asked, across both ends of the tunnel. When a device's datagram is put into the tunnel, the server
  finds in it the destination and the payload unchanged and has a flow for this router and the device's tunnel port; and whatever address
  answers on that flow's socket, as long as the router still has the device's port and can open a socket for that address, the router hands
  the answer to this device, from that address, with its bytes unchanged (flow labels and scopes of IPv6 addresses aside; an empty answer is dropped).
\<close>

theorem udp_answer_returns_to_device:
  assumes "upstream_turn nonce data dev dst now rc = (Some w, rc')" and "length data < 65536"
    and "reach udp_init (udp_step (rc_obfuscator rc)) s"
    and "reach client_init client_step later" and "rc_obfuscator later = rc_obfuscator rc" and "device_port dev later = device_port dev rc'"
    and "answer \<noteq> []" and "length answer < 65536"
  shows "\<exists>p k. device_port dev rc' = Some p
    \<and> k < length (us_tasks (handle_datagram (rc_obfuscator rc) n1 router w s))
    \<and> fl_key (us_tasks (handle_datagram (rc_obfuscator rc) n1 router w s) ! k) = (router, p)
    \<and> fl_pc (us_tasks (handle_datagram (rc_obfuscator rc) n1 router w s) ! k) \<noteq> Ended
    \<and> handle_datagram (rc_obfuscator rc) n1 router w s =
        handle_data_packet router \<lparr>rp_type = Data, rp_dst = strip_scope dst, rp_src_port = p, rp_payload = data\<rparr> s
    \<and> (\<exists>back. inbound_reply (rc_obfuscator rc) n2 (router, p) answer remote = [(router, back)]
        \<and> (\<exists>sock. fst (downstream_turn back at (Inr created) later) = Some (sock, strip_scope remote, dev, answer)))"
proof -
  obtain p where p: "device_port dev rc' = Some p"
    "w = encode_relay_packet (rc_obfuscator rc) nonce \<lparr>rp_type = Data, rp_dst = dst, rp_src_port = p, rp_payload = data\<rparr>"
    using upstream_wire [OF assms(1)] by metis
  let ?pkt = "\<lparr>rp_type = Data, rp_dst = strip_scope dst, rp_src_port = p, rp_payload = data\<rparr>"
  have h: "handle_datagram (rc_obfuscator rc) n1 router w s = handle_data_packet router ?pkt s"
    using assms(2) by (simp add: handle_datagram_def p(2) decode_encoded carried_data)
  have "us_flows (handle_data_packet router ?pkt s) (router, p) \<noteq> None"
    by (auto simp: handle_data_packet_def Let_def split: option.splits)
  then obtain k where f: "k < length (us_tasks (handle_data_packet router ?pkt s))"
      "fl_key (us_tasks (handle_data_packet router ?pkt s) ! k) = (router, p)" "fl_pc (us_tasks (handle_data_packet router ?pkt s) ! k) \<noteq> Ended"
    using receive_inv [OF flows.reach_inv [OF assms(3)], of router ?pkt] unfolding udp_inv_def by blast
  let ?answer = "encode_relay_packet (rc_obfuscator rc) n2 \<lparr>rp_type = Data, rp_dst = remote, rp_src_port = p, rp_payload = answer\<rparr>"
  have t: "table_ok (rc_flows later)" by (rule router.reach_inv [OF assms(4)])
  then obtain g where g: "map_of (ft_flows (rc_flows later)) p = Some g" "uf_src_addr g = dev"
    using assms(6) p(1) device_flow [OF t] by metis
  have "\<exists>sock. fst (downstream_turn ?answer at (Inr created) later) = Some (sock, strip_scope remote, dev, answer)"
    using g assms(5,8) encoded_nonempty
    by (auto simp: downstream_turn_def decode_encoded carried_data downstream_target_def get_or_create_spoof_socket_def spoof_get_def
        split: option.splits)
  moreover have "inbound_reply (rc_obfuscator rc) n2 (router, p) answer remote = [(router, ?answer)]"
    using assms(7) by (simp add: inbound_reply_def)
  ultimately show ?thesis unfolding h using p(1) f by blast
qed

section \<open>A concrete exchange\<close>

definition ex_obf :: obfuscator where
  "ex_obf = the (obfuscator_new [1, 2, 3] 5 PositionalXorRotate Usize64)"

definition ex_client :: relay_client where
  "ex_client = \<lparr>rc_flows = flow_table_new [40000], rc_spoof = [], rc_obfuscator = ex_obf, rc_source_ips = [], rc_exclude_ports = [53], rc_timeout = 60\<rparr>"

definition ex_device :: socket_addr where "ex_device = SaV4 0xC0A80105 3074"
definition ex_remote :: socket_addr where "ex_remote = SaV4 0x08080808 3074"
definition ex_router :: socket_addr where "ex_router = SaV4 0x01020304 5000"
definition no_flows :: udp_server where "no_flows = \<lparr>us_flows = Map.empty, us_tasks = [], us_wire = []\<rparr>"

lemma ex_upstream:
  "\<exists>w rc'. upstream_turn 7 [1, 2] ex_device ex_remote 0 ex_client = (Some w, rc') \<and> device_port ex_device rc' = Some 3074"
proof -
  have "should_relay [] [53] ex_device ex_remote" by code_simp
  moreover have "flow_touch ex_device 0 (flow_table_new [40000]) =
      (Some 3074, \<lparr>ft_flows = [(3074, \<lparr>uf_src_addr = ex_device, uf_last_activity = 0\<rparr>)], ft_ports = [(ex_device, 3074)], ft_pool = [40000]\<rparr>)"
    by (simp add: flow_touch_def flow_table_new_def flow_allocate_def ex_device_def)
  ultimately show ?thesis by (simp add: upstream_turn_def upstream_packet_def ex_client_def device_port_def)
qed

lemma ex_client_reach: "reach client_init client_step ex_client"
  by (rule reach_init) (auto simp: client_init_def ex_client_def)

lemma ex_up_reach: "upstream_turn n d a b t ex_client = (w, rc') \<Longrightarrow> reach client_init client_step rc'"
  using reach_step [OF ex_client_reach step_up [of ex_client n d a b t]] by simp

lemma no_flows_reach: "reach udp_init (udp_step ob) no_flows"
  by (rule reach_init) (simp add: udp_init_def no_flows_def)

theorem tunnel_port_identifies_device_witness:
  "\<exists>w rc'. upstream_turn 7 [1, 2] ex_device ex_remote 0 ex_client = (Some w, rc') \<and>
     fst (downstream_target \<lparr>rp_type = Data, rp_dst = ex_remote, rp_src_port = 3074, rp_payload = [9]\<rparr> 1 (rc_flows rc')) = Some (ex_device, ex_remote)"
proof -
  obtain w rc' where w: "upstream_turn 7 [1, 2] ex_device ex_remote 0 ex_client = (Some w, rc')" "device_port ex_device rc' = Some 3074"
    using ex_upstream by blast
  show ?thesis using w tunnel_port_identifies_device [OF ex_up_reach [OF w(1)],
        of "\<lparr>rp_type = Data, rp_dst = ex_remote, rp_src_port = 3074, rp_payload = [9]\<rparr>" 1 ex_device ex_remote] by auto
qed

theorem udp_answer_returns_to_device_witness:
  "\<exists>w rc'. upstream_turn 7 [1, 2] ex_device ex_remote 0 ex_client = (Some w, rc') \<and>
     (\<exists>back. inbound_reply ex_obf 8 (ex_router, 3074) [9] ex_remote = [(ex_router, back)] \<and>
        (\<exists>sock. fst (downstream_turn back 1 (Inr 4) rc') = Some (sock, ex_remote, ex_device, [9])))"
proof -
  obtain w rc' where w: "upstream_turn 7 [1, 2] ex_device ex_remote 0 ex_client = (Some w, rc')" "device_port ex_device rc' = Some 3074"
    using ex_upstream by blast
  have o: "rc_obfuscator rc' = rc_obfuscator ex_client" "rc_obfuscator ex_client = ex_obf" "strip_scope ex_remote = ex_remote"
    using upstream_wire [OF w(1)] by (auto simp: ex_client_def ex_remote_def)
  show ?thesis
    using udp_answer_returns_to_device [OF w(1) _ no_flows_reach ex_up_reach [OF w(1)] o(1) refl, of "[9]" 0 ex_router 8 ex_remote 1 4] w o
    by auto
qed

theorem udp_flow_in_order_witness:
  "fl_taken (us_tasks (handle_data_packet ex_router \<lparr>rp_type = Data, rp_dst = ex_remote, rp_src_port = 3074, rp_payload = [9]\<rparr> no_flows) ! 0) =
     [FlowPacket ex_remote [9]] \<and>
   (\<exists>nonce data. length (fl_rx (us_tasks (handle_datagram ex_obf nonce ex_router data no_flows) ! 0)) \<le> FLOW_QUEUE)"
proof -
  let ?p = "\<lparr>rp_type = Data, rp_dst = ex_remote, rp_src_port = 3074, rp_payload = [9]\<rparr>"
  let ?d = "encode_relay_packet ex_obf 3 ?p" and ?s = "handle_data_packet ex_router ?p no_flows"
  have h: "handle_datagram ex_obf 0 ex_router ?d no_flows = ?s"
    by (simp add: handle_datagram_def decode_encoded carried_data ex_remote_def)
  have s: "length (us_tasks ?s) = 1" "\<not> fl_failed (us_tasks ?s ! 0)" "fl_taken (us_tasks ?s ! 0) = [FlowPacket ex_remote [9]]"
    by (simp_all add: handle_data_packet_def no_flows_def queue_packet_def task_new_def FLOW_QUEUE_def Let_def)
  have "reach udp_init (udp_step ex_obf) ?s"
    using reach_step [OF no_flows_reach udp_step.receive [of ?d ex_obf no_flows 0 ex_router]] encoded_nonempty h by metis
  from udp_flow_in_order [OF this, of 0] s have "length (fl_rx (us_tasks ?s ! 0)) \<le> FLOW_QUEUE" by simp
  then show ?thesis using s(3) h by metis
qed

end
