(* ===== verification/Agent_Gate.thy ===== *)
theory Agent_Gate
  imports Sync_Fs
begin

text \<open>
  What stands before every route of the share agent: the resolution of a requested path (\<^verbatim>\<open>xr-share/src/safepath.rs\<close>), the token of a request
  (\<^verbatim>\<open>xr-share/src/auth.rs\<close>), and the share table with the checks that the handlers share (\<^verbatim>\<open>xr-share/src/server.rs\<close>), on Unix. What
  \<^verbatim>\<open>canonicalize\<close> answers is an argument, since it depends on the links of the machine; so is the decoder of a token (base64 and JSON).

  The theorems: a path that is served lies under the share's root, by its name and after all links are followed, and never in the
  reserved names; a request passes a gate only with a mandate of the hub for that share and scope.
\<close>

section \<open>Paths\<close>

datatype safe_path_error = InvalidComponent | Escapes | BadRoot

definition RESERVED_PREFIX :: string where "RESERVED_PREFIX = ''.xr-''"
definition UPLOAD_TEMP_PREFIX :: string where "UPLOAD_TEMP_PREFIX = ''.xr-part-''"

text \<open>A component that came from a split at slashes is one ordinary component on Unix, so the check of \<^verbatim>\<open>is_absolute\<close> and of the count never refuses.\<close>

type_synonym canonicalize = "fpath \<Rightarrow> fpath option"

fun safe_components :: "string list \<Rightarrow> fpath \<Rightarrow> safe_path_error + fpath" where
  "safe_components [] safe = Inr safe"
| "safe_components (name # comps) safe =
     (if name = [] \<or> name = ''.'' then safe_components comps safe
      else if name = ''..'' then Inl InvalidComponent
      else if starts_with name RESERVED_PREFIX then Inl InvalidComponent
      else safe_components comps (safe @ [name]))"

text \<open>The walk to the deepest ancestor that resolves; the parent of the root directory does not exist.\<close>

function probe_ancestors :: "canonicalize \<Rightarrow> fpath \<Rightarrow> fpath \<Rightarrow> bool" where
  "probe_ancestors canon canon_root probe = (case canon probe of
      Some real \<Rightarrow> prefix canon_root real
    | None \<Rightarrow> if probe = [] then False else probe_ancestors canon canon_root (butlast probe))"
  by pat_completeness auto
termination by (relation "measure (\<lambda>(canon, canon_root, probe). length probe)") auto

declare probe_ancestors.simps [simp del]

definition resolve_within :: "canonicalize \<Rightarrow> fpath \<Rightarrow> string \<Rightarrow> safe_path_error + fpath" where
  "resolve_within canon root requested =
     (if CHR 0x5C \<in> set requested \<or> CHR 0x00 \<in> set requested then Inl InvalidComponent
      else case safe_components (split_on CHR ''/'' requested) [] of
        Inl e \<Rightarrow> Inl e
      | Inr safe \<Rightarrow>
          (case canon root of
             None \<Rightarrow> Inl BadRoot
           | Some canon_root \<Rightarrow> if probe_ancestors canon canon_root (root @ safe) then Inr (root @ safe) else Inl Escapes))"

text \<open>A component a request may name.\<close>

definition plain_component :: "string \<Rightarrow> bool" where
  "plain_component c \<longleftrightarrow> c \<noteq> [] \<and> c \<noteq> ''.'' \<and> c \<noteq> ''..'' \<and> \<not> starts_with c RESERVED_PREFIX \<and>
     CHR ''/'' \<notin> set c \<and> CHR 0x5C \<notin> set c \<and> CHR 0x00 \<notin> set c"

lemma safe_components_Some:
  "safe_components comps safe = Inr out \<Longrightarrow>
     \<exists>added. out = safe @ added \<and> set added \<subseteq> set comps \<and> (\<forall>c \<in> set added. c \<noteq> [] \<and> c \<noteq> ''.'' \<and> c \<noteq> ''..'' \<and> \<not> starts_with c RESERVED_PREFIX)"
proof (induction comps arbitrary: safe)
  case (Cons name comps)
  show ?case
  proof (cases "name = [] \<or> name = ''.''")
    case True
    then have "safe_components comps safe = Inr out" using Cons.prems by auto
    then obtain added where "out = safe @ added" "set added \<subseteq> set comps"
        "\<forall>c \<in> set added. c \<noteq> [] \<and> c \<noteq> ''.'' \<and> c \<noteq> ''..'' \<and> \<not> starts_with c RESERVED_PREFIX" using Cons.IH by blast
    then show ?thesis by (intro exI [of _ added]) auto
  next
    case False
    then have n: "name \<noteq> ''..''" "\<not> starts_with name RESERVED_PREFIX" "safe_components comps (safe @ [name]) = Inr out"
      using Cons.prems by (auto split: if_splits)
    then obtain added where "out = (safe @ [name]) @ added" "set added \<subseteq> set comps"
        "\<forall>c \<in> set added. c \<noteq> [] \<and> c \<noteq> ''.'' \<and> c \<noteq> ''..'' \<and> \<not> starts_with c RESERVED_PREFIX" using Cons.IH by blast
    then show ?thesis using False n by (intro exI [of _ "name # added"]) auto
  qed
qed simp

lemma resolve_within_name:
  assumes "resolve_within canon root requested = Inr p"
  shows "\<exists>comps. p = root @ comps \<and> (\<forall>c \<in> set comps. plain_component c)"
proof -
  obtain safe where s: "safe_components (split_on CHR ''/'' requested) [] = Inr safe" "p = root @ safe"
      "CHR 0x5C \<notin> set requested" "CHR 0x00 \<notin> set requested"
    using assms by (auto simp: resolve_within_def split: if_splits sum.splits option.splits)
  from safe_components_Some [OF s(1)] have a: "set safe \<subseteq> set (split_on CHR ''/'' requested)"
    "\<forall>c \<in> set safe. c \<noteq> [] \<and> c \<noteq> ''.'' \<and> c \<noteq> ''..'' \<and> \<not> starts_with c RESERVED_PREFIX" by auto
  have "plain_component c" if "c \<in> set safe" for c
  proof -
    have m: "c \<in> set (split_on CHR ''/'' requested)" using that a(1) by blast
    have "CHR ''/'' \<notin> set c" by (rule split_on_parts [OF m])
    moreover have "CHR 0x5C \<notin> set c" "CHR 0x00 \<notin> set c" using split_on_chars [OF m] s(3,4) by auto
    moreover have "c \<noteq> [] \<and> c \<noteq> ''.'' \<and> c \<noteq> ''..'' \<and> \<not> starts_with c RESERVED_PREFIX" using that a(2) by (rule bspec [rotated])
    ultimately show ?thesis unfolding plain_component_def by (intro conjI) auto
  qed
  then show ?thesis using s(2) by blast
qed

lemma resolve_within_real:
  assumes "resolve_within canon root requested = Inr p" and "canon p = Some real"
  shows "\<exists>canon_root. canon root = Some canon_root \<and> prefix canon_root real"
  using assms by (auto simp: resolve_within_def probe_ancestors.simps [of canon _ p] split: if_splits sum.splits option.splits)

section \<open>Requests\<close>

text \<open>Header names are in lower case, as in \<^verbatim>\<open>HeaderMap\<close>; values that are not text are left out.\<close>

record agent_request =
  rq_headers :: "(string \<times> string) list"
  rq_query :: "string option"

definition header_str :: "agent_request \<Rightarrow> string \<Rightarrow> string option" where
  "header_str req name = map_of (rq_headers req) name"

definition header_value :: "agent_request \<Rightarrow> string \<Rightarrow> string option" where
  "header_value req name = map_option trim (header_str req name)"

definition bearer :: "agent_request \<Rightarrow> string option" where
  "bearer req = Option.bind (header_value req ''authorization'') (\<lambda>v. strip_prefix ''Bearer '' v)"

definition query_token :: "agent_request \<Rightarrow> string option" where
  "query_token req = Option.bind (rq_query req) (\<lambda>q.
     (case List.map_filter (\<lambda>kv. strip_prefix ''token='' kv) (split_on CHR ''&'' q) of [] \<Rightarrow> None | t # _ \<Rightarrow> Some t))"

definition extract_token :: "(string \<Rightarrow> share_token option) \<Rightarrow> agent_request \<Rightarrow> share_token option" where
  "extract_token decode_token_blob req =
     (case bearer req of Some b \<Rightarrow> decode_token_blob b
      | None \<Rightarrow> (case header_value req ''x-share-token'' of Some b \<Rightarrow> decode_token_blob b
        | None \<Rightarrow> (case query_token req of Some b \<Rightarrow> decode_token_blob b | None \<Rightarrow> None)))"

section \<open>Shares\<close>

record share_root =
  sr_path :: fpath
  sr_is_file :: bool
  sr_writable :: bool
  sr_import :: bool

record config_share =
  cf_share_id :: string
  cf_path :: fpath
  cf_writable :: bool
  cf_import :: bool

text \<open>\<^verbatim>\<open>build_shares\<close>: \<open>node_kind\<close> says of a resolved path whether it is a file (\<open>Some True\<close>), a directory (\<open>Some False\<close>) or neither.\<close>

definition build_share :: "canonicalize \<Rightarrow> (fpath \<Rightarrow> bool option) \<Rightarrow> config_share \<Rightarrow> (string \<rightharpoonup> share_root) \<Rightarrow> string \<rightharpoonup> share_root" where
  "build_share canon node_kind e shares = (case canon (cf_path e) of
      None \<Rightarrow> shares
    | Some path \<Rightarrow> (case node_kind path of
          None \<Rightarrow> shares
        | Some is_file \<Rightarrow>
            let writable = cf_writable e \<and> \<not> is_file in
            shares(cf_share_id e \<mapsto> \<lparr>sr_path = path, sr_is_file = is_file, sr_writable = writable, sr_import = cf_import e \<and> writable\<rparr>)))"

definition build_shares :: "canonicalize \<Rightarrow> (fpath \<Rightarrow> bool option) \<Rightarrow> config_share list \<Rightarrow> string \<rightharpoonup> share_root" where
  "build_shares canon node_kind entries = fold (build_share canon node_kind) entries Map.empty"

text \<open>\<^verbatim>\<open>ShareRoot::resolve\<close>; \<open>drop_all\<close> is \<^verbatim>\<open>trim_start_matches\<close>.\<close>

function drop_all :: "string \<Rightarrow> string \<Rightarrow> string" where
  "drop_all pat s = (if pat \<noteq> [] \<and> starts_with s pat then drop_all pat (drop (length pat) s) else s)"
  by pat_completeness auto
termination by (relation "measure (\<lambda>(pat, s). length s)") (auto simp: prefix_def)

declare drop_all.simps [simp del]

definition share_resolve :: "canonicalize \<Rightarrow> share_root \<Rightarrow> string \<Rightarrow> fpath option" where
  "share_resolve canon share rel =
     (if sr_is_file share then
        (if sr_path share = [] then None
         else if drop_all ''./'' (drop_all ''/'' rel) = last (sr_path share) then Some (sr_path share) else None)
      else (case resolve_within canon (sr_path share) rel of Inr p \<Rightarrow> Some p | Inl _ \<Rightarrow> None))"

section \<open>The gates\<close>

record agent_env =
  ae_crypto :: crypto
  ae_hub_key :: bytes
  ae_decode_token :: "string \<Rightarrow> share_token option"
  ae_shares :: "string \<rightharpoonup> share_root"
  ae_max_file_mb :: "u64 option"
  ae_sha :: "bytes \<Rightarrow> bytes"

type_synonym refusal = "nat \<times> string"

definition check_token :: "agent_env \<Rightarrow> string \<Rightarrow> string \<Rightarrow> agent_request \<Rightarrow> u64 \<Rightarrow> refusal + unit" where
  "check_token env share_id required_scope req now =
     (case extract_token (ae_decode_token env) req of
        None \<Rightarrow> Inl (401, ''missing or malformed token'')
      | Some token \<Rightarrow>
          (case verify_share_token (ae_crypto env) token (ae_hub_key env) share_id required_scope now of
             Inl _ \<Rightarrow> Inl (403, ''token rejected'')
           | Inr _ \<Rightarrow> Inr ()))"

text \<open>The common start of \<^verbatim>\<open>handle_put\<close> and \<^verbatim>\<open>handle_delete\<close>: the share, its switch, the token, the path.\<close>

definition write_gates :: "agent_env \<Rightarrow> canonicalize \<Rightarrow> string \<Rightarrow> string \<Rightarrow> agent_request \<Rightarrow> u64 \<Rightarrow> refusal + fpath \<times> fpath" where
  "write_gates env canon share_id rel req now = (case ae_shares env share_id of
      None \<Rightarrow> Inl (404, ''no such share'')
    | Some share \<Rightarrow>
        if \<not> sr_writable share then Inl (403, ''share is read-only'')
        else (case check_token env share_id SCOPE_WRITE req now of
            Inl e \<Rightarrow> Inl e
          | Inr _ \<Rightarrow> (case resolve_within canon (sr_path share) rel of
                Inl _ \<Rightarrow> Inl (403, ''path rejected'')
              | Inr target \<Rightarrow> Inr (target, sr_path share))))"

definition import_gates :: "agent_env \<Rightarrow> bool \<Rightarrow> string \<Rightarrow> agent_request \<Rightarrow> u64 \<Rightarrow> refusal + fpath" where
  "import_gates env has_plugins share_id req now = (case ae_shares env share_id of
      None \<Rightarrow> Inl (404, ''no such share'')
    | Some share \<Rightarrow>
        if \<not> (sr_writable share \<and> sr_import share \<and> has_plugins) then Inl (403, ''import is off for this share'')
        else (case check_token env share_id SCOPE_IMPORT req now of Inl e \<Rightarrow> Inl e | Inr _ \<Rightarrow> Inr (sr_path share)))"

text \<open>\<^verbatim>\<open>file_response\<close> up to the file it hands to \<^verbatim>\<open>ServeFile\<close>; the legacy route takes the share from the token.\<close>

definition file_response :: "agent_env \<Rightarrow> canonicalize \<Rightarrow> string \<Rightarrow> string \<Rightarrow> agent_request \<Rightarrow> u64 \<Rightarrow> refusal + fpath" where
  "file_response env canon share_id rel req now = (case ae_shares env share_id of
      None \<Rightarrow> Inl (404, ''no such share'')
    | Some share \<Rightarrow> (case check_token env share_id SCOPE_READ req now of
          Inl e \<Rightarrow> Inl e
        | Inr _ \<Rightarrow> (case share_resolve canon share rel of None \<Rightarrow> Inl (403, ''path rejected'') | Some p \<Rightarrow> Inr p)))"

definition token_share_id :: "agent_env \<Rightarrow> agent_request \<Rightarrow> refusal + string" where
  "token_share_id env req = (case extract_token (ae_decode_token env) req of
      None \<Rightarrow> Inl (401, ''missing or malformed token'') | Some t \<Rightarrow> Inr (st_share_id t))"

definition serve_file_legacy :: "agent_env \<Rightarrow> canonicalize \<Rightarrow> string \<Rightarrow> agent_request \<Rightarrow> u64 \<Rightarrow> refusal + fpath" where
  "serve_file_legacy env canon rel req now = (case token_share_id env req of
      Inl e \<Rightarrow> Inl e | Inr share_id \<Rightarrow> file_response env canon share_id rel req now)"

section \<open>What passes\<close>

lemma share_token_was_issued:
  assumes "unforgeable cr hub issued" and "\<forall>x \<in> issued. mandate_plain x"
    and v: "verify_share_token cr tok hub sid req now = Inr ()"
  shows "MShare sid (st_scope tok) (st_exp tok) \<in> issued \<and> now < st_exp tok \<and> req \<in> set (split_on CHR '' '' (st_scope tok))"
proof -
  from v have "check_signature cr hub (mandate_bytes (MShare sid (st_scope tok) (st_exp tok))) (st_signature tok) = Inr ()"
    by (auto simp: verify_share_token_def split: if_splits sum.splits)
  then have "MShare sid (st_scope tok) (st_exp tok) \<in> issued" by (rule accepted_was_issued [OF assms(1,2)]) simp
  then show ?thesis using v by (auto simp: verify_share_token_def scope_contains_def list_ex_iff not_le split: if_splits sum.splits)
qed

text \<open>The hub has issued a mandate for this share and scope that is still valid.\<close>

definition mandated :: "mandate set \<Rightarrow> string \<Rightarrow> string \<Rightarrow> u64 \<Rightarrow> bool" where
  "mandated issued share_id scope now \<longleftrightarrow>
     (\<exists>scopes expiry. MShare share_id scopes expiry \<in> issued \<and> scope \<in> set (split_on CHR '' '' scopes) \<and> now < expiry)"

lemma check_token_mandated:
  assumes "unforgeable (ae_crypto env) (ae_hub_key env) issued" and "\<forall>x \<in> issued. mandate_plain x"
    and "check_token env share_id scope req now = Inr ()"
  shows "mandated issued share_id scope now"
proof -
  obtain tok where "verify_share_token (ae_crypto env) tok (ae_hub_key env) share_id scope now = Inr ()"
    using assms(3) by (auto simp: check_token_def split: option.splits sum.splits)
  from share_token_was_issued [OF assms(1,2) this] show ?thesis unfolding mandated_def by blast
qed

text \<open>
  C19. The agent gives nothing away that it was not told to share. Whatever path a reader asks for, over the route with the share or the old one
  without it: if a file is served, the hub has issued a mandate to read that share which has not expired; the file's name is the shared file, or the
  shared directory followed by ordinary components (none is empty, dot, dot-dot or reserved); and the file the name leads to, all links followed, is
  inside the directory. The same holds of every target that a writer may replace or delete, with a mandate to write and a share that the
  owner made writable.
\<close>

theorem agent_stays_inside_share:
  assumes "unforgeable (ae_crypto env) (ae_hub_key env) issued" and "\<forall>x \<in> issued. mandate_plain x"
  shows "(file_response env canon sid rel req now = Inr p \<longrightarrow> mandated issued sid SCOPE_READ now \<and>
      (\<exists>share. ae_shares env sid = Some share \<and>
        (if sr_is_file share then p = sr_path share
         else (\<exists>comps. p = sr_path share @ comps \<and> (\<forall>c \<in> set comps. plain_component c)) \<and>
              (\<forall>real. canon p = Some real \<longrightarrow> (\<exists>r. canon (sr_path share) = Some r \<and> prefix r real)))))
    \<and> (serve_file_legacy env canon rel req now = Inr p \<longrightarrow> (\<exists>sid'. mandated issued sid' SCOPE_READ now \<and> file_response env canon sid' rel req now = Inr p))
    \<and> (write_gates env canon sid rel req now = Inr (p, root) \<longrightarrow> mandated issued sid SCOPE_WRITE now \<and>
      (\<exists>share. ae_shares env sid = Some share \<and> sr_writable share \<and> root = sr_path share \<and>
        (\<exists>comps. p = root @ comps \<and> (\<forall>c \<in> set comps. plain_component c)) \<and>
        (\<forall>real. canon p = Some real \<longrightarrow> (\<exists>r. canon root = Some r \<and> prefix r real))))"
proof -
  note m = check_token_mandated [OF assms]
  have f: "mandated issued s SCOPE_READ now" if "file_response env canon s rel req now = Inr p" for s
    using that m by (auto simp: file_response_def split: option.splits sum.splits)
  have "\<exists>share. ae_shares env sid = Some share \<and> share_resolve canon share rel = Some p" if "file_response env canon sid rel req now = Inr p"
    using that by (auto simp: file_response_def split: option.splits sum.splits)
  moreover have "if sr_is_file share then p = sr_path share
       else (\<exists>comps. p = sr_path share @ comps \<and> (\<forall>c \<in> set comps. plain_component c)) \<and>
            (\<forall>real. canon p = Some real \<longrightarrow> (\<exists>r. canon (sr_path share) = Some r \<and> prefix r real))"
    if "share_resolve canon share rel = Some p" for share
    using that resolve_within_name [of canon "sr_path share" rel p] resolve_within_real [of canon "sr_path share" rel p]
    by (auto simp: share_resolve_def split: if_splits sum.splits)
  moreover have "\<exists>sid'. mandated issued sid' SCOPE_READ now \<and> file_response env canon sid' rel req now = Inr p"
    if "serve_file_legacy env canon rel req now = Inr p"
    using that f by (auto simp: serve_file_legacy_def split: sum.splits)
  moreover have "mandated issued sid SCOPE_WRITE now \<and> (\<exists>share. ae_shares env sid = Some share \<and> sr_writable share \<and> root = sr_path share \<and>
      resolve_within canon root rel = Inr p)" if "write_gates env canon sid rel req now = Inr (p, root)"
    using that m by (auto simp: write_gates_def split: option.splits sum.splits if_splits)
  ultimately show ?thesis using f [of sid] resolve_within_name [of canon root rel p] resolve_within_real [of canon root rel p] by blast
qed

section \<open>A concrete share\<close>

definition ex_read_verify :: "bytes \<Rightarrow> bytes \<Rightarrow> bytes \<Rightarrow> bool" where
  "ex_read_verify key message sig \<longleftrightarrow> message = mandate_bytes (MShare ''s1'' ''share:read share:write'' 10)"

definition ex_agent_env :: agent_env where
  "ex_agent_env = \<lparr>ae_crypto = example_crypto ex_read_verify, ae_hub_key = [],
     ae_decode_token = (\<lambda>_. Some (sign_share_token (example_crypto ex_read_verify) [] ''s1'' ''share:read share:write'' 10)),
     ae_shares = [''s1'' \<mapsto> \<lparr>sr_path = [''srv''], sr_is_file = False, sr_writable = True, sr_import = False\<rparr>],
     ae_max_file_mb = None, ae_sha = (\<lambda>c. c)\<rparr>"

definition ex_request :: agent_request where
  "ex_request = \<lparr>rq_headers = [(''x-share-token'', ''t'')], rq_query = None\<rparr>"

lemma ex_check_token:
  assumes "scope = SCOPE_READ \<or> scope = SCOPE_WRITE" and "header_str req ''x-share-token'' = Some b"
  shows "check_token ex_agent_env ''s1'' scope req 5 = Inr ()"
proof -
  have s: "b64_encode (example_crypto v) (sign_msg (example_crypto v) x y) = frame_text (replicate 64 0)" for v x y
    by (simp add: example_crypto_def)
  have c: "check_signature (example_crypto ex_read_verify) k (token_signing_bytes ''s1'' ''share:read share:write'' 10) (frame_text (replicate 64 0)) = Inr ()" for k
    by (simp add: check_signature_def example_crypto_def trim_framed unframe_frame ex_read_verify_def)
  have "extract_token (\<lambda>_. Some t) req = Some t" for t
    using assms(2) by (simp add: extract_token_def header_value_def split: option.splits)
  moreover have "scope_contains ''share:read share:write'' SCOPE_READ" "scope_contains ''share:read share:write'' SCOPE_WRITE" by code_simp+
  ultimately show ?thesis using assms(1)
    by (auto simp: check_token_def ex_agent_env_def verify_share_token_def sign_share_token_def s c)
qed

lemma ex_shares: "ae_shares ex_agent_env ''s1'' = Some \<lparr>sr_path = [''srv''], sr_is_file = False, sr_writable = True, sr_import = False\<rparr>"
  by (simp add: ex_agent_env_def)

lemma ex_resolve: "resolve_within Some [''srv''] ''a/b.txt'' = Inr [''srv'', ''a'', ''b.txt'']"
  by code_simp

theorem agent_stays_inside_share_witness:
  "file_response ex_agent_env Some ''s1'' ''a/b.txt'' ex_request 5 = Inr [''srv'', ''a'', ''b.txt''] \<and>
   mandated {MShare ''s1'' ''share:read share:write'' 10} ''s1'' SCOPE_READ 5"
proof -
  have u: "unforgeable (ae_crypto ex_agent_env) (ae_hub_key ex_agent_env) {MShare ''s1'' ''share:read share:write'' 10}"
    by (simp add: unforgeable_def ex_agent_env_def example_crypto_def ex_read_verify_def)
  have p: "\<forall>x \<in> {MShare ''s1'' ''share:read share:write'' 10}. mandate_plain x" by (simp add: plain_def)
  have f: "file_response ex_agent_env Some ''s1'' ''a/b.txt'' ex_request 5 = Inr [''srv'', ''a'', ''b.txt'']"
    using ex_check_token [of SCOPE_READ ex_request] ex_resolve ex_shares
    by (simp add: file_response_def share_resolve_def header_str_def ex_request_def)
  show ?thesis using f agent_stays_inside_share [OF u p] by blast
qed

end
