(* ===== verification/Import_Gate.thy ===== *)
theory Import_Gate
  imports Agent_Gate Routing
begin

text \<open>
  The gate of the URL imports (\<^verbatim>\<open>xr-share/src/import.rs\<close>): a link that a device sends is fetched by a program on the owner's machine, so before
  the program starts the link is parsed, its host is resolved and every address is held against the private ranges; then a
  plugin and a frame height are chosen, and the command line is built. What a name resolves to is an argument.

  The theorems: the predicate of the gate and the list that is given to the network sandbox describe the same addresses; a link that passes
  names a host with public addresses only; the host of a link that was put together from its parts is found again; the plugin is the one with the
  most specific pattern.
\<close>

section \<open>Private addresses\<close>

definition HEIGHT_MIN :: u32 where "HEIGHT_MIN = 144"
definition HEIGHT_MAX :: u32 where "HEIGHT_MAX = 4320"

definition DENY_RANGES :: string where
  "DENY_RANGES = ''0.0.0.0/8 127.0.0.0/8 10.0.0.0/8 172.16.0.0/12 192.168.0.0/16 169.254.0.0/16 100.64.0.0/10 224.0.0.0/4 240.0.0.0/4 ::/128 ::1/128 fe80::/10 fc00::/7 ff00::/8''"

text \<open>\<^verbatim>\<open>Ipv4Addr::is_private\<close> and its relatives by their octets.\<close>

definition is_private4 :: "u32 \<Rightarrow> bool" where
  "is_private4 ip = (let o0 = u32_to_be ip ! 0; o1 = u32_to_be ip ! 1 in
     o0 = 127
     \<or> (o0 = 10 \<or> o0 = 172 \<and> 16 \<le> o1 \<and> o1 \<le> 31 \<or> o0 = 192 \<and> o1 = 168)
     \<or> o0 = 169 \<and> o1 = 254
     \<or> 224 \<le> o0 \<and> o0 \<le> 239
     \<or> ip = 0xFFFFFFFF
     \<or> ip = 0
     \<or> o0 = 0
     \<or> o0 = 100 \<and> o1 AND 0xC0 = 64
     \<or> 240 \<le> o0)"

definition to_ipv4_mapped :: "128 word \<Rightarrow> u32 option" where
  "to_ipv4_mapped ip = (if drop_bit 32 ip = 0xFFFF then Some (ucast ip) else None)"

fun is_private_ip :: "ip_addr \<Rightarrow> bool" where
  "is_private_ip (V4 ip) = is_private4 ip"
| "is_private_ip (V6 ip) = (case to_ipv4_mapped ip of
      Some v4 \<Rightarrow> is_private4 v4
    | None \<Rightarrow> let seg0 = ucast (drop_bit 112 ip) :: u16 in
        ip = 1 \<or> ip = 0 \<or> seg0 AND 0xFF00 = 0xFF00 \<or> seg0 AND 0xFFC0 = 0xFE80 \<or> seg0 AND 0xFE00 = 0xFC00)"

section \<open>Links\<close>

datatype url_error = Backslash | NoScheme | OpenLiteral | EmptyHost | SchemeNotSupported string | NotResolved string | PrivateAddress ip_addr

fun split_once_str :: "string \<Rightarrow> string \<Rightarrow> (string \<times> string) option" where
  "split_once_str pat [] = (if pat = [] then Some ([], []) else None)"
| "split_once_str pat (c # rest) = (if prefix pat (c # rest) then Some ([], drop (length pat) (c # rest))
     else map_option (\<lambda>(a, b). (c # a, b)) (split_once_str pat rest))"

definition rsplit_once :: "char \<Rightarrow> string \<Rightarrow> (string \<times> string) option" where
  "rsplit_once c s = map_option (\<lambda>(a, b). (rev b, rev a)) (split_once c (rev s))"

definition is_delimiter :: "char \<Rightarrow> bool" where
  "is_delimiter c \<longleftrightarrow> c = CHR ''/'' \<or> c = CHR ''?'' \<or> c = CHR ''#''"

definition url_host :: "string \<Rightarrow> url_error + string" where
  "url_host host_port = (case strip_prefix ''['' host_port of
      Some v6 \<Rightarrow> (case split_once CHR '']'' v6 of None \<Rightarrow> Inl OpenLiteral | Some (a, _) \<Rightarrow> Inr a)
    | None \<Rightarrow> (case rsplit_once CHR '':'' host_port of
          Some (h, p) \<Rightarrow> if list_all is_ascii_digit p then Inr h else Inr host_port
        | None \<Rightarrow> Inr host_port))"

definition parse_url :: "string \<Rightarrow> url_error + string \<times> string" where
  "parse_url raw = (let url = trim raw in
     if CHR 0x5C \<in> set url then Inl Backslash
     else case split_once_str ''://'' url of
        None \<Rightarrow> Inl NoScheme
      | Some (scheme, rest) \<Rightarrow>
          let authority = takeWhile (\<lambda>c. \<not> is_delimiter c) rest;
              host_port = (case rsplit_once CHR ''@'' authority of Some (_, h) \<Rightarrow> h | None \<Rightarrow> authority)
          in (case url_host host_port of
                Inl e \<Rightarrow> Inl e
              | Inr host \<Rightarrow> if host = [] then Inl EmptyHost else Inr (to_ascii_lowercase scheme, to_ascii_lowercase host)))"

definition parse_ip_addr :: "string \<Rightarrow> ip_addr option" where
  "parse_ip_addr s = (case parse_ipv4 s of Some a \<Rightarrow> Some (V4 a) | None \<Rightarrow> map_option V6 (parse_ipv6 s))"

definition host_addresses :: "(string \<Rightarrow> ip_addr list option) \<Rightarrow> string \<Rightarrow> ip_addr list option" where
  "host_addresses lookup_host host = (case parse_ip_addr host of Some ip \<Rightarrow> Some [ip] | None \<Rightarrow> lookup_host host)"

definition check_url :: "(string \<Rightarrow> ip_addr list option) \<Rightarrow> string \<Rightarrow> url_error + string" where
  "check_url lookup_host url = (case parse_url url of
      Inl e \<Rightarrow> Inl e
    | Inr (scheme, host) \<Rightarrow>
        if scheme \<noteq> ''http'' \<and> scheme \<noteq> ''https'' then Inl (SchemeNotSupported scheme)
        else (case host_addresses lookup_host host of
            None \<Rightarrow> Inl (NotResolved host)
          | Some addrs \<Rightarrow>
              if addrs = [] then Inl (NotResolved host)
              else (case filter is_private_ip addrs of ip # _ \<Rightarrow> Inl (PrivateAddress ip) | [] \<Rightarrow> Inr host)))"

section \<open>Plugins\<close>

record import_plugin =
  ip_name :: string
  ip_patterns :: "string list"
  ip_max_height :: u32
  ip_cmd :: string
  ip_args :: "string list"

definition pattern_key :: "string \<Rightarrow> string" where
  "pattern_key pattern = to_ascii_lowercase (trim_end_char CHR ''.'' pattern)"

definition host_matches :: "string \<Rightarrow> string \<Rightarrow> bool" where
  "host_matches host p \<longleftrightarrow> host = p \<or> ends_with host (CHR ''.'' # p)"

type_synonym route_state = "(import_plugin \<times> nat) option \<times> import_plugin option"

definition route_pattern :: "string \<Rightarrow> import_plugin \<Rightarrow> string \<Rightarrow> route_state \<Rightarrow> route_state" where
  "route_pattern host plugin pattern st = (case st of (best, catch_all) \<Rightarrow>
     if pattern = ''*'' then (best, Some (case catch_all of None \<Rightarrow> plugin | Some p \<Rightarrow> p))
     else let p = pattern_key pattern in
       if host_matches host p \<and> (case best of None \<Rightarrow> True | Some (_, len) \<Rightarrow> length p > len)
       then (Some (plugin, length p), catch_all) else st)"

definition route_plugin :: "import_plugin list \<Rightarrow> string \<Rightarrow> import_plugin option" where
  "route_plugin plugins host =
     (case fold (\<lambda>plugin. fold (route_pattern (pattern_key host) plugin) (ip_patterns plugin)) plugins (None, None) of
        (Some (p, _), _) \<Rightarrow> Some p | (None, catch_all) \<Rightarrow> catch_all)"

definition effective_height :: "u32 option \<Rightarrow> import_plugin \<Rightarrow> unit + u32" where
  "effective_height requested plugin = (case requested of
      None \<Rightarrow> Inr (ip_max_height plugin)
    | Some h \<Rightarrow> if HEIGHT_MIN \<le> h \<and> h \<le> HEIGHT_MAX then Inr (min h (ip_max_height plugin)) else Inl ())"

lemma split_once_str_Some: "split_once_str pat s = Some (a, b) \<Longrightarrow> s = a @ pat @ b"
  by (induction pat s arbitrary: a rule: split_once_str.induct) (auto simp: prefix_def split: if_splits)

function replace_str :: "string \<Rightarrow> string \<Rightarrow> string \<Rightarrow> string" where
  "replace_str pat rep s = (if pat = [] then s
     else case split_once_str pat s of None \<Rightarrow> s | Some (a, b) \<Rightarrow> a @ rep @ replace_str pat rep b)"
  by pat_completeness auto
termination
  by (relation "measure (\<lambda>(pat, rep, s). length s)") (auto dest!: split_once_str_Some)

declare replace_str.simps [simp del]

definition build_argv :: "import_plugin \<Rightarrow> string \<Rightarrow> u32 \<Rightarrow> string \<times> string list" where
  "build_argv plugin url height =
     (ip_cmd plugin, map (\<lambda>a. if a = ''{url}'' then url else replace_str ''{height}'' (dec_string (unat height)) a) (ip_args plugin))"

text \<open>\<open>usable\<close> says that systemd runs the machine and its tool is there, \<open>as_root\<close> that the agent is root.\<close>

definition sandbox_wrap :: "bool \<Rightarrow> bool \<Rightarrow> string \<times> string list \<Rightarrow> string \<Rightarrow> string \<times> string list" where
  "sandbox_wrap usable as_root argv sandbox = (case argv of (cmd, args) \<Rightarrow>
     if sandbox \<noteq> ''auto'' then (cmd, args)
     else if \<not> usable then (cmd, args)
     else (''systemd-run'', (if as_root then [] else [''--user'']) @
       [''--scope'', ''--collect'', ''--quiet'', ''--property=IPAddressAllow=any'', ''--property=IPAddressDeny='' @ DENY_RANGES,
        ''--property=MemoryMax=2G'', ''--'', cmd] @ args))"

section \<open>The gate and the sandbox agree\<close>

text \<open>The list as ranges, with the parser of the routing rules; an address of IPv4 in IPv6 form stands for the IPv4 address.\<close>

definition deny_list :: "cidr_range list" where
  "deny_list = List.map_filter cidr_parse (split_on CHR '' '' DENY_RANGES)"

fun unmap :: "ip_addr \<Rightarrow> ip_addr" where
  "unmap (V4 ip) = V4 ip"
| "unmap (V6 ip) = (case to_ipv4_mapped ip of Some v4 \<Rightarrow> V4 v4 | None \<Rightarrow> V6 ip)"

lemma deny_list_eval:
  "deny_list = [RangeV4 0 0xFF000000, RangeV4 0x7F000000 0xFF000000, RangeV4 0x0A000000 0xFF000000, RangeV4 0xAC100000 0xFFF00000,
     RangeV4 0xC0A80000 0xFFFF0000, RangeV4 0xA9FE0000 0xFFFF0000, RangeV4 0x64400000 0xFFC00000, RangeV4 0xE0000000 0xF0000000,
     RangeV4 0xF0000000 0xF0000000, RangeV6 0 (NOT 0), RangeV6 1 (NOT 0), RangeV6 0xFE800000000000000000000000000000 (push_bit 118 (NOT 0)),
     RangeV6 0xFC000000000000000000000000000000 (push_bit 121 (NOT 0)), RangeV6 0xFF000000000000000000000000000000 (push_bit 120 (NOT 0))]"
  by code_simp

lemma mask_eq_iff:
  fixes x y :: "'a::len word"
  assumes "m = push_bit k (NOT 0)" and "y AND m = y"
  shows "x AND m = y \<longleftrightarrow> drop_bit k x = drop_bit k y"
proof
  assume e: "x AND m = y"
  show "drop_bit k x = drop_bit k y"
  proof (rule bit_word_eqI)
    fix n
    assume "n < LENGTH('a)"
    show "bit (drop_bit k x) n = bit (drop_bit k y) n"
      unfolding e [symmetric] assms(1) using bit_imp_le_length [of x "k + n"] by (auto simp: bit_simps)
  qed
next
  assume e: "drop_bit k x = drop_bit k y"
  have "x AND m = y AND m"
  proof (rule bit_word_eqI)
    fix n
    assume "n < LENGTH('a)"
    have "bit x n = bit y n" if "k \<le> n" using arg_cong [OF e, of "\<lambda>z. bit z (n - k)"] that by (simp add: bit_simps)
    then show "bit (x AND m) n = bit (y AND m) n" unfolding assms(1) by (auto simp: bit_simps)
  qed
  then show "x AND m = y" using assms(2) by simp
qed

lemma uint_drop_bit_div: "uint (drop_bit k (x::'a::len word)) = uint x div 2 ^ k"
proof -
  have "uint (drop_bit k x) = drop_bit k (uint x)" using take_bit_int_eq_self [OF uint_ge_0 uint_lt2p, of x] by (simp only: unsigned_drop_bit_eq)
  then show ?thesis by (simp only: drop_bit_eq_div)
qed

lemma mask_uint:
  fixes x y :: "'a::len word"
  assumes "m = push_bit k (NOT 0)" and "y AND m = y"
  shows "x AND m = y \<longleftrightarrow> uint x div 2 ^ k = uint y div 2 ^ k"
  unfolding mask_eq_iff [OF assms] unfolding word_uint_eq_iff [of "drop_bit k x"] uint_drop_bit_div ..

lemma octets_uint:
  "uint (u32_to_be ip ! 0) = uint ip div 2 ^ 24" "uint (u32_to_be ip ! 1) = uint ip div 2 ^ 16 mod 256"
proof -
  have u: "uint (ucast w :: 8 word) = uint w mod 256" for w :: u32 by (simp add: unsigned_ucast_eq take_bit_eq_mod)
  have "uint ip < 2 ^ 32" using uint_lt2p [of ip] by simp
  then have "uint ip div 2 ^ 24 < 256" "0 \<le> uint ip div 2 ^ 24" by (simp_all add: pos_imp_zdiv_nonneg_iff)
  then have "uint ip div 2 ^ 24 mod 256 = uint ip div 2 ^ 24" by (rule mod_pos_pos_trivial [rotated])
  then show "uint (u32_to_be ip ! 0) = uint ip div 2 ^ 24" by (simp add: u32_to_be_def u uint_drop_bit_div del: power_numeral)
  show "uint (u32_to_be ip ! 1) = uint ip div 2 ^ 16 mod 256" by (simp add: u32_to_be_def u uint_drop_bit_div del: power_numeral)
qed

lemma masks:
  "(0xFF000000::u32) = push_bit 24 (NOT 0)" "(0xFFF00000::u32) = push_bit 20 (NOT 0)" "(0xFFFF0000::u32) = push_bit 16 (NOT 0)"
  "(0xFFC00000::u32) = push_bit 22 (NOT 0)" "(0xF0000000::u32) = push_bit 28 (NOT 0)" "(0xC0::u8) = push_bit 6 (NOT 0)"
  "(0xFF00::u16) = push_bit 8 (NOT 0)" "(0xFFC0::u16) = push_bit 6 (NOT 0)" "(0xFE00::u16) = push_bit 9 (NOT 0)"
  by code_simp+

lemma masked4:
  "ip AND 0xFF000000 = (0::u32) \<longleftrightarrow> uint ip div 2 ^ 24 = 0" "ip AND 0xFF000000 = (0x7F000000::u32) \<longleftrightarrow> uint ip div 2 ^ 24 = 127"
  "ip AND 0xFF000000 = (0x0A000000::u32) \<longleftrightarrow> uint ip div 2 ^ 24 = 10" "ip AND 0xFFF00000 = (0xAC100000::u32) \<longleftrightarrow> uint ip div 2 ^ 20 = 0xAC1"
  "ip AND 0xFFFF0000 = (0xC0A80000::u32) \<longleftrightarrow> uint ip div 2 ^ 16 = 0xC0A8" "ip AND 0xFFFF0000 = (0xA9FE0000::u32) \<longleftrightarrow> uint ip div 2 ^ 16 = 0xA9FE"
  "ip AND 0xFFC00000 = (0x64400000::u32) \<longleftrightarrow> uint ip div 2 ^ 22 = 0x191" "ip AND 0xF0000000 = (0xE0000000::u32) \<longleftrightarrow> uint ip div 2 ^ 28 = 14"
  "ip AND 0xF0000000 = (0xF0000000::u32) \<longleftrightarrow> uint ip div 2 ^ 28 = 15"
  by (simp_all add: mask_uint [OF masks(1)] mask_uint [OF masks(2)] mask_uint [OF masks(3)] mask_uint [OF masks(4)] mask_uint [OF masks(5)])

lemma masked_small:
  "a AND 0xC0 = (64::u8) \<longleftrightarrow> uint a div 64 = 1" "g AND 0xFF00 = (0xFF00::u16) \<longleftrightarrow> uint g div 256 = 255"
  "g AND 0xFFC0 = (0xFE80::u16) \<longleftrightarrow> uint g div 64 = 0x3FA" "g AND 0xFE00 = (0xFC00::u16) \<longleftrightarrow> uint g div 512 = 126"
  by (simp_all add: mask_uint [OF masks(6)] mask_uint [OF masks(7)] mask_uint [OF masks(8)] mask_uint [OF masks(9)])

lemma div_eq_range: "0 < c \<Longrightarrow> (x::int) div c = k \<longleftrightarrow> c * k \<le> x \<and> x < c * k + c"
proof
  assume c: "0 < c" and k: "x div c = k"
  have "c * k + x mod c = x" using mult_div_mod_eq [of c x] k by simp
  then show "c * k \<le> x \<and> x < c * k + c" using pos_mod_bound [OF c, of x] pos_mod_sign [OF c, of x] by linarith
next
  assume "0 < c" and "c * k \<le> x \<and> x < c * k + c"
  then show "x div c = k" by (intro int_div_pos_eq [of x c k "x - c * k"]) auto
qed

lemma private_ranges:
  fixes y :: int
  assumes "0 \<le> y" and "y < 65536"
  shows "(y div 256 = 0 \<or> y div 256 = 127 \<or> y div 256 = 10 \<or> y div 16 = 0xAC1 \<or> y = 0xC0A8 \<or> y = 0xA9FE \<or> y div 64 = 0x191 \<or>
      y div 4096 = 14 \<or> y div 4096 = 15) \<longleftrightarrow>
    (y div 256 = 127 \<or> (y div 256 = 10 \<or> y div 256 = 172 \<and> 16 \<le> y mod 256 \<and> y mod 256 \<le> 31 \<or> y div 256 = 192 \<and> y mod 256 = 168)
      \<or> y div 256 = 169 \<and> y mod 256 = 254 \<or> 224 \<le> y div 256 \<and> y div 256 \<le> 239 \<or> y div 256 = 0
      \<or> y div 256 = 100 \<and> y mod 256 div 64 = 1 \<or> 240 \<le> y div 256)"
proof -
  define a b where "a = y div 256" and "b = y mod 256"
  have y: "y = 256 * a + b" "0 \<le> b" "b < 256" "0 \<le> a" "a < 256" using assms by (auto simp: a_def b_def)
  have base: "c * u + q = n \<longleftrightarrow> u = n div c \<and> q = n mod c" if "0 \<le> q" "q < c" for c u q n :: int using that by auto
  have "y = 0xC0A8 \<longleftrightarrow> a = 192 \<and> b = 168" "y = 0xA9FE \<longleftrightarrow> a = 169 \<and> b = 254" unfolding y(1) base [OF y(2,3)] by simp_all
  moreover have d: "y div 16 = 16 * a + b div 16" "y div 64 = 4 * a + b div 64" "y div 4096 = a div 16"
    using zdiv_zmult2_eq [of 16 y 256] y(2,3) by (simp_all add: y(1) a_def [symmetric])
  have q: "0 \<le> b div 16" "b div 16 < 16" "0 \<le> b div 64" "b div 64 < 4" using y(2,3) by simp_all
  have "y div 16 = 0xAC1 \<longleftrightarrow> a = 172 \<and> b div 16 = 1" unfolding d base [OF q(1,2)] by simp
  moreover have "b div 16 = 1 \<longleftrightarrow> 16 \<le> b \<and> b \<le> 31" by (simp add: div_eq_range) linarith
  moreover have "y div 64 = 0x191 \<longleftrightarrow> a = 100 \<and> b div 64 = 1" unfolding d base [OF q(3,4)] by simp
  moreover have "y div 4096 = 14 \<longleftrightarrow> 224 \<le> a \<and> a \<le> 239" unfolding d by (simp add: div_eq_range) linarith
  moreover have "y div 4096 = 15 \<longleftrightarrow> 240 \<le> a" unfolding d using y(5) by (simp add: div_eq_range)
  ultimately show ?thesis unfolding a_def [symmetric] b_def [symmetric] by (simp only:) blast
qed

lemma private4_deny: "is_private4 ip \<longleftrightarrow> list_ex (\<lambda>r. cidr_contains r (V4 ip)) deny_list"
proof -
  define y where "y = uint ip div 2 ^ 16"
  have "uint ip < 2 ^ 32" using uint_lt2p [of ip] by simp
  then have y: "0 \<le> y" "y < 65536" by (simp_all add: y_def pos_imp_zdiv_nonneg_iff)
  have d: "uint ip div 2 ^ 24 = y div 256" "uint ip div 2 ^ 20 = y div 16" "uint ip div 2 ^ 22 = y div 64" "uint ip div 2 ^ 28 = y div 4096"
    by (simp_all add: y_def zdiv_zmult2_eq [symmetric])
  note o = octets_uint [of ip, unfolded d y_def [symmetric]]
  have e: "(u32_to_be ip ! i = c) = (uint (u32_to_be ip ! i) = uint c)" "(c \<le> u32_to_be ip ! i) = (uint c \<le> uint (u32_to_be ip ! i))"
    "(u32_to_be ip ! i \<le> c) = (uint (u32_to_be ip ! i) \<le> uint c)" for i c
    by (simp_all add: word_uint_eq_iff word_le_def)
  have z: "240 \<le> y div 256" if "ip = 0xFFFFFFFF" using that by (simp add: y_def)
  have "y div 256 = 0" if "ip = 0" using that by (simp add: y_def)
  moreover have "list_ex (\<lambda>r. cidr_contains r (V4 ip)) deny_list \<longleftrightarrow> y div 256 = 0 \<or> y div 256 = 127 \<or> y div 256 = 10 \<or> y div 16 = 0xAC1 \<or>
      y = 0xC0A8 \<or> y = 0xA9FE \<or> y div 64 = 0x191 \<or> y div 4096 = 14 \<or> y div 4096 = 15"
    by (simp add: deny_list_eval masked4 [of ip, unfolded d y_def [symmetric]])
  moreover have "is_private4 ip \<longleftrightarrow> y div 256 = 127 \<or> (y div 256 = 10 \<or> y div 256 = 172 \<and> 16 \<le> y mod 256 \<and> y mod 256 \<le> 31 \<or> y div 256 = 192 \<and> y mod 256 = 168)
      \<or> y div 256 = 169 \<and> y mod 256 = 254 \<or> 224 \<le> y div 256 \<and> y div 256 \<le> 239 \<or> ip = 0xFFFFFFFF \<or> ip = 0 \<or> y div 256 = 0
      \<or> y div 256 = 100 \<and> y mod 256 div 64 = 1 \<or> 240 \<le> y div 256"
    by (simp add: is_private4_def Let_def masked_small e o o(2) [unfolded One_nat_def])
  ultimately show ?thesis unfolding private_ranges [OF y] using z by blast
qed

lemma private6_deny:
  assumes "to_ipv4_mapped ip = None"
  shows "is_private_ip (V6 ip) \<longleftrightarrow> list_ex (\<lambda>r. cidr_contains r (V6 ip)) deny_list"
proof -
  define y where "y = uint ip div 2 ^ 112"
  have b: "uint ip < 2 ^ 128" using uint_lt2p [of ip] by simp
  then have y: "0 \<le> y" "y < 65536" by (simp_all add: y_def pos_imp_zdiv_nonneg_iff)
  have seg: "uint (ucast (drop_bit 112 ip) :: u16) = y"
    using mod_pos_pos_trivial [OF y(1), of "2 ^ 16"] y(2) by (simp add: unsigned_ucast_eq take_bit_eq_mod uint_drop_bit_div y_def)
  have d: "uint ip div 2 ^ 118 = y div 64" "uint ip div 2 ^ 121 = y div 512" "uint ip div 2 ^ 120 = y div 256"
    by (simp_all add: y_def zdiv_zmult2_eq [symmetric])
  have c: "(0xFE800000000000000000000000000000 :: 128 word) AND push_bit 118 (NOT 0) = 0xFE800000000000000000000000000000"
    "(0xFC000000000000000000000000000000 :: 128 word) AND push_bit 121 (NOT 0) = 0xFC000000000000000000000000000000"
    "(0xFF000000000000000000000000000000 :: 128 word) AND push_bit 120 (NOT 0) = 0xFF000000000000000000000000000000"
    by code_simp+
  have m: "ip AND push_bit 118 (NOT 0) = 0xFE800000000000000000000000000000 \<longleftrightarrow> y div 64 = 0x3FA"
    "ip AND push_bit 121 (NOT 0) = 0xFC000000000000000000000000000000 \<longleftrightarrow> y div 512 = 126"
    "ip AND push_bit 120 (NOT 0) = 0xFF000000000000000000000000000000 \<longleftrightarrow> y div 256 = 255"
    by (simp_all only: mask_uint [OF refl c(1)] mask_uint [OF refl c(2)] mask_uint [OF refl c(3)] d) simp_all
  show ?thesis
    by (simp only: assms deny_list_eval masked_small seg m Let_def is_private_ip.simps list_ex_Nil_iff list_ex_Cons_iff cidr_contains.simps option.case) auto
qed

lemma gate_is_deny_list: "is_private_ip ip \<longleftrightarrow> list_ex (\<lambda>r. cidr_contains r (unmap ip)) deny_list"
proof (cases ip)
  case (V4 x)
  then show ?thesis by (simp add: private4_deny)
next
  case (V6 x)
  then show ?thesis using private4_deny private6_deny by (cases "to_ipv4_mapped x") (auto simp del: list_ex_Cons_iff)
qed

lemma parse_url_scheme:
  assumes "parse_url url = Inr (scheme, host)"
  shows "\<exists>sch rest. trim url = sch @ ''://'' @ rest \<and> to_ascii_lowercase sch = scheme"
proof (cases "split_once_str ''://'' (trim url)")
  case None
  then show ?thesis using assms by (auto simp: parse_url_def Let_def split: if_splits)
next
  case (Some x)
  obtain sch rest where x: "x = (sch, rest)" by fastforce
  have "to_ascii_lowercase sch = scheme" using assms Some x by (auto simp: parse_url_def Let_def split: if_splits sum.splits)
  then show ?thesis using split_once_str_Some [of "''://''" "trim url" sch rest] Some x by auto
qed

text \<open>
  C12. The two barriers against a link into the owner's network agree. A link passes the gate exactly when it parses, its scheme is http or
  https, its host has an address, and none of its addresses lies in a range of the list that the sandbox denies to the program (an IPv4
  address written as IPv6 counts as the IPv4 address); the predicate that the gate computes by octets and segments and the list of ranges
  describe the same addresses, all of IPv4 and IPv6. And a link that passes starts with its scheme, so that the program never takes it for an option.
\<close>

theorem import_gate_is_deny_list:
  "(check_url lookup_host url = Inr host \<longleftrightarrow>
      (\<exists>scheme addrs. parse_url url = Inr (scheme, host) \<and> (scheme = ''http'' \<or> scheme = ''https'') \<and>
        host_addresses lookup_host host = Some addrs \<and> addrs \<noteq> [] \<and>
        \<not> list_ex (\<lambda>ip. list_ex (\<lambda>r. cidr_contains r (unmap ip)) deny_list) addrs)) \<and>
   (is_private_ip ip \<longleftrightarrow> list_ex (\<lambda>r. cidr_contains r (unmap ip)) deny_list) \<and>
   (check_url lookup_host url = Inr host \<longrightarrow>
      (\<exists>sch rest. trim url = sch @ ''://'' @ rest \<and> to_ascii_lowercase sch \<in> {''http'', ''https''}))"
proof (intro conjI)
  have f: "(case filter is_private_ip xs of ip # _ \<Rightarrow> Inl (PrivateAddress ip) | [] \<Rightarrow> Inr h) = Inr host \<longleftrightarrow> h = host \<and> \<not> list_ex is_private_ip xs" for xs h
  proof (cases "filter is_private_ip xs")
    case Nil
    then have "\<not> list_ex is_private_ip xs" by (simp add: filter_empty_conv list_ex_iff)
    then show ?thesis using Nil by simp
  next
    case (Cons y ys)
    then have "y \<in> set (filter is_private_ip xs)" by simp
    then have "list_ex is_private_ip xs" by (auto simp: list_ex_iff)
    then show ?thesis using Cons by simp
  qed
  have g: "is_private_ip = (\<lambda>ip. list_ex (\<lambda>r. cidr_contains r (unmap ip)) deny_list)" using gate_is_deny_list by blast
  show e: "check_url lookup_host url = Inr host \<longleftrightarrow>
      (\<exists>scheme addrs. parse_url url = Inr (scheme, host) \<and> (scheme = ''http'' \<or> scheme = ''https'') \<and>
        host_addresses lookup_host host = Some addrs \<and> addrs \<noteq> [] \<and>
        \<not> list_ex (\<lambda>ip. list_ex (\<lambda>r. cidr_contains r (unmap ip)) deny_list) addrs)"
    unfolding g [symmetric] by (auto simp: check_url_def f split: sum.splits prod.splits option.splits if_splits)
  show "is_private_ip ip \<longleftrightarrow> list_ex (\<lambda>r. cidr_contains r (unmap ip)) deny_list" by (rule gate_is_deny_list)
  show "check_url lookup_host url = Inr host \<longrightarrow> (\<exists>sch rest. trim url = sch @ ''://'' @ rest \<and> to_ascii_lowercase sch \<in> {''http'', ''https''})"
    unfolding e using parse_url_scheme by (metis insertCI)
qed

theorem import_gate_is_deny_list_witness:
  "check_url (\<lambda>_. Some [V4 0x5DB8D822]) ''https://a.io/b'' = Inr ''a.io'' \<and>
   (\<exists>sch rest. trim ''https://a.io/b'' = sch @ ''://'' @ rest \<and> to_ascii_lowercase sch \<in> {''http'', ''https''}) \<and>
   check_url (\<lambda>_. None) ''http://x@[::1]:8/'' = Inl (PrivateAddress (V6 1))"
proof -
  have c: "check_url (\<lambda>_. Some [V4 0x5DB8D822]) ''https://a.io/b'' = Inr ''a.io'' \<and>
    check_url (\<lambda>_. None) ''http://x@[::1]:8/'' = Inl (PrivateAddress (V6 1))" by code_simp
  then show ?thesis using import_gate_is_deny_list [of "\<lambda>_. Some [V4 0x5DB8D822]" "''https://a.io/b''" "''a.io''" "V4 0"] by blast
qed

section \<open>The host of a link\<close>

lemma split_once_str_first:
  assumes "CHR '':'' \<notin> set a"
  shows "split_once_str ''://'' (a @ ''://'' @ b) = Some (a, b)"
  using assms
proof (induction a)
  case (Cons c a)
  have "\<not> prefix ''://'' ((c # a) @ ''://'' @ b)" using Cons.prems by auto
  then show ?case using Cons by simp
qed simp

lemma rsplit_once_last: "c \<notin> set b \<Longrightarrow> rsplit_once c (a @ c # b) = Some (a, b)"
  using split_once_append [of c "rev b" "rev a"] by (simp add: rsplit_once_def)

lemma rsplit_once_None: "c \<notin> set s \<Longrightarrow> rsplit_once c s = None"
  by (simp add: rsplit_once_def split_once_def)

text \<open>A link by its parts: user information, a literal or a name, a port, and what follows.\<close>

record url_parts =
  up_scheme :: string
  up_user :: "string option"
  up_literal :: bool
  up_host :: string
  up_port :: "string option"
  up_tail :: string

definition host_text :: "url_parts \<Rightarrow> string" where
  "host_text u = (if up_literal u then ''['' @ up_host u @ '']'' else up_host u) @ (case up_port u of None \<Rightarrow> [] | Some p \<Rightarrow> '':'' @ p)"

definition url_text :: "url_parts \<Rightarrow> string" where
  "url_text u = up_scheme u @ ''://'' @ (case up_user u of None \<Rightarrow> [] | Some x \<Rightarrow> x @ ''@'') @ host_text u @ up_tail u"

definition url_ok :: "url_parts \<Rightarrow> bool" where
  "url_ok u \<longleftrightarrow> CHR '':'' \<notin> set (up_scheme u) \<and> up_host u \<noteq> [] \<and> CHR 0x5C \<notin> set (url_text u) \<and> trim (url_text u) = url_text u \<and>
     (case up_user u of None \<Rightarrow> True | Some x \<Rightarrow> list_all (\<lambda>c. \<not> is_delimiter c) x) \<and>
     list_all (\<lambda>c. \<not> is_delimiter c \<and> c \<noteq> CHR ''@'' \<and> (if up_literal u then c \<noteq> CHR '']'' else c \<noteq> CHR '':'' \<and> c \<noteq> CHR ''['')) (up_host u) \<and>
     (case up_port u of None \<Rightarrow> True | Some p \<Rightarrow> list_all is_ascii_digit p) \<and>
     (up_tail u = [] \<or> is_delimiter (hd (up_tail u)))"

lemma digit_plain: "is_ascii_digit c \<Longrightarrow> \<not> is_delimiter c \<and> c \<noteq> CHR ''@'' \<and> c \<noteq> CHR '':'' \<and> c \<noteq> CHR ''[''"
  by (auto simp: is_ascii_digit_def is_delimiter_def)

lemma url_okD:
  assumes "url_ok u"
  shows "CHR '':'' \<notin> set (up_scheme u)" "up_host u \<noteq> []" "CHR 0x5C \<notin> set (url_text u)" "trim (url_text u) = url_text u"
    "\<And>x c. up_user u = Some x \<Longrightarrow> c \<in> set x \<Longrightarrow> \<not> is_delimiter c"
    "\<And>c. c \<in> set (up_host u) \<Longrightarrow> \<not> is_delimiter c \<and> c \<noteq> CHR ''@'' \<and> (if up_literal u then c \<noteq> CHR '']'' else c \<noteq> CHR '':'' \<and> c \<noteq> CHR ''['')"
    "\<And>p c. up_port u = Some p \<Longrightarrow> c \<in> set p \<Longrightarrow> is_ascii_digit c"
    "up_tail u = [] \<or> is_delimiter (hd (up_tail u))"
  using assms unfolding url_ok_def list_all_iff by simp_all

lemma host_text_plain:
  assumes "url_ok u" and "c \<in> set (host_text u)"
  shows "\<not> is_delimiter c \<and> c \<noteq> CHR ''@''"
proof -
  have "c \<in> set (up_host u) \<or> c \<in> {CHR ''['', CHR '']'', CHR '':''} \<or> (\<exists>p. up_port u = Some p \<and> c \<in> set p)"
    using assms(2) by (auto simp: host_text_def split: if_splits option.splits)
  then consider "c \<in> set (up_host u)" | "c \<in> {CHR ''['', CHR '']'', CHR '':''}" | p where "up_port u = Some p" "c \<in> set p" by blast
  then show ?thesis
  proof cases
    case 1
    then show ?thesis using url_okD(6) [OF assms(1)] by blast
  next
    case 2
    then show ?thesis by (auto simp: is_delimiter_def)
  next
    case 3
    then show ?thesis using url_okD(7) [OF assms(1)] digit_plain by blast
  qed
qed

lemma url_host_found:
  assumes "url_ok u"
  shows "url_host (host_text u) = Inr (up_host u)"
proof (cases "up_literal u")
  case True
  then have "CHR '']'' \<notin> set (up_host u)" using url_okD(6) [OF assms, of "CHR '']''"] by auto
  then show ?thesis using True split_once_append [of "CHR '']''" "up_host u"] by (simp add: url_host_def host_text_def strip_prefix_def)
next
  case False
  have h: "CHR '':'' \<notin> set (up_host u)" "CHR ''['' \<notin> set (up_host u)" "up_host u \<noteq> []"
    using url_okD(6) [OF assms, of "CHR '':''"] url_okD(6) [OF assms, of "CHR ''[''"] url_okD(2) [OF assms] False by auto
  then have s: "strip_prefix ''['' (host_text u) = None" using False by (cases "up_host u") (auto simp: strip_prefix_def host_text_def)
  show ?thesis
  proof (cases "up_port u")
    case None
    then show ?thesis using False s h rsplit_once_None [of "CHR '':''" "up_host u"] by (simp add: url_host_def host_text_def)
  next
    case (Some p)
    then have "list_all is_ascii_digit p" "CHR '':'' \<notin> set p"
      using url_okD(7) [OF assms] digit_plain [of "CHR '':''"] by (auto simp: list_all_iff)
    then show ?thesis using False Some s rsplit_once_last [of "CHR '':''" p "up_host u"] by (simp add: url_host_def host_text_def)
  qed
qed

text \<open>
  C40. The gate looks at the host that the link names. A link put together from a scheme, optional user information (which may itself contain
  at-signs and colons), a name or a bracketed literal, an optional port and any path, query or fragment is parsed back to its scheme and its host, in lower case
  (no backslash, which the gate refuses, and no blanks around it).
\<close>

theorem parse_url_finds_host:
  assumes "url_ok u"
  shows "parse_url (url_text u) = Inr (to_ascii_lowercase (up_scheme u), to_ascii_lowercase (up_host u))"
proof -
  define rest where "rest = (case up_user u of None \<Rightarrow> [] | Some x \<Rightarrow> x @ ''@'') @ host_text u @ up_tail u"
  define auth where "auth = (case up_user u of None \<Rightarrow> [] | Some x \<Rightarrow> x @ ''@'') @ host_text u"
  have t: "url_text u = up_scheme u @ ''://'' @ rest" by (simp add: url_text_def rest_def)
  have "split_once_str ''://'' (url_text u) = Some (up_scheme u, rest)"
    unfolding t by (rule split_once_str_first) (rule url_okD(1) [OF assms])
  moreover have "takeWhile (\<lambda>c. \<not> is_delimiter c) rest = auth"
  proof -
    have "\<not> is_delimiter c" if "c \<in> set auth" for c
    proof (cases "up_user u")
      case None
      then show ?thesis using that host_text_plain [OF assms] by (simp add: auth_def)
    next
      case (Some x)
      then have "c \<in> set x \<or> c = CHR ''@'' \<or> c \<in> set (host_text u)" using that by (auto simp: auth_def)
      then show ?thesis using host_text_plain [OF assms] url_okD(5) [OF assms Some] by (auto simp: is_delimiter_def)
    qed
    moreover have "takeWhile (\<lambda>c. \<not> is_delimiter c) (up_tail u) = []" using url_okD(8) [OF assms] by (cases "up_tail u") auto
    moreover have "rest = auth @ up_tail u" by (simp add: rest_def auth_def)
    ultimately show ?thesis by (simp add: takeWhile_append2 del: set_append)
  qed
  moreover have "(case rsplit_once CHR ''@'' auth of Some (_, h) \<Rightarrow> h | None \<Rightarrow> auth) = host_text u"
  proof -
    have a: "CHR ''@'' \<notin> set (host_text u)" using host_text_plain [OF assms] by blast
    show ?thesis
    proof (cases "up_user u")
      case None
      then show ?thesis using rsplit_once_None [OF a] by (simp add: auth_def)
    next
      case (Some x)
      then show ?thesis using rsplit_once_last [OF a, of x] by (simp add: auth_def)
    qed
  qed
  ultimately show ?thesis using url_okD(2-4) [OF assms] url_host_found [OF assms]
    by (cases "rsplit_once CHR ''@'' auth") (auto simp: parse_url_def Let_def)
qed

theorem parse_url_finds_host_witness:
  "parse_url ''HTTP://u@1.1:p@A.COM:80/?@1.1'' = Inr (''http'', ''a.com'')"
proof -
  let ?u = "\<lparr>up_scheme = ''HTTP'', up_user = Some ''u@1.1:p'', up_literal = False, up_host = ''A.COM'', up_port = Some ''80'',
    up_tail = ''/?@1.1''\<rparr>"
  have "url_ok ?u \<and> url_text ?u = ''HTTP://u@1.1:p@A.COM:80/?@1.1'' \<and>
    to_ascii_lowercase (up_scheme ?u) = ''http'' \<and> to_ascii_lowercase (up_host ?u) = ''a.com''" by code_simp
  then show ?thesis using parse_url_finds_host [of ?u] by metis
qed

section \<open>The choice of a plugin\<close>

text \<open>The reference: all patterns that match, in the order of the configuration, with their lengths; the first of the longest wins.\<close>

definition rows :: "import_plugin list \<Rightarrow> (import_plugin \<times> string) list" where
  "rows plugins = concat (map (\<lambda>p. map (Pair p) (ip_patterns p)) plugins)"

definition matching :: "string \<Rightarrow> (import_plugin \<times> string) list \<Rightarrow> (import_plugin \<times> nat) list" where
  "matching host rs = map (\<lambda>(p, pat). (p, length (pattern_key pat))) (filter (\<lambda>(p, pat). pat \<noteq> ''*'' \<and> host_matches host (pattern_key pat)) rs)"

definition catch_alls :: "(import_plugin \<times> string) list \<Rightarrow> import_plugin list" where
  "catch_alls rs = map fst (filter (\<lambda>(p, pat). pat = ''*'') rs)"

definition longest :: "('a \<times> nat) list \<Rightarrow> ('a \<times> nat) option" where
  "longest ms = find (\<lambda>(_, n). list_all (\<lambda>(_, m). m \<le> n) ms) ms"

lemma find_append: "find P (xs @ ys) = (case find P xs of None \<Rightarrow> find P ys | Some x \<Rightarrow> Some x)"
  by (induction xs) auto

lemma longest_snoc:
  "longest (ms @ [(p, n)]) = (case longest ms of None \<Rightarrow> Some (p, n) | Some (q, m) \<Rightarrow> if m < n then Some (p, n) else Some (q, m))"
proof (cases "longest ms")
  case None
  have "ms = []"
  proof (rule ccontr)
    assume ne: "ms \<noteq> []"
    then obtain x where "x \<in> set ms" "snd x = Max (snd ` set ms)" using Max_in [of "snd ` set ms"] by (metis (mono_tags) List.finite_set finite_imageI imageE image_is_empty set_empty)
    then have "x \<in> set ms" "\<forall>y \<in> set ms. snd y \<le> snd x" by auto
    moreover from this have "case x of (_, n) \<Rightarrow> list_all (\<lambda>(_, m). m \<le> n) ms" by (auto simp: list_all_iff case_prod_unfold)
    ultimately show False using None unfolding longest_def find_None_iff by blast
  qed
  then show ?thesis by (simp add: longest_def)
next
  case (Some x)
  obtain q m where x: "x = (q, m)" by fastforce
  obtain i where i: "i < length ms" "ms ! i = (q, m)" "list_all (\<lambda>y. snd y \<le> m) ms" "\<forall>j < i. \<not> list_all (\<lambda>y. snd y \<le> snd (ms ! j)) ms"
    using Some unfolding x longest_def find_Some_iff case_prod_unfold by (metis snd_conv)
  show ?thesis
  proof (cases "m < n")
    case True
    have "find (\<lambda>(_, k). list_all (\<lambda>(_, l). l \<le> k) (ms @ [(p, n)])) ms = None"
      using True i(3) by (force simp: find_None_iff list_all_iff case_prod_unfold)
    moreover have "list_all (\<lambda>y. snd y \<le> n) ms" using i(3) True by (auto simp: list_all_iff)
    ultimately show ?thesis using True Some x by (simp add: longest_def find_append case_prod_unfold)
  next
    case False
    have "find (\<lambda>(_, k). list_all (\<lambda>(_, l). l \<le> k) (ms @ [(p, n)])) ms = Some (q, m)"
      unfolding find_Some_iff using i False by (intro exI [of _ i]) (auto simp: case_prod_unfold)
    then show ?thesis using False Some x by (simp add: longest_def find_append)
  qed
qed

lemma route_rows:
  "fold (\<lambda>plugin. fold (route_pattern host plugin) (ip_patterns plugin)) plugins st = fold (\<lambda>(p, pat). route_pattern host p pat) (rows plugins) st"
  by (induction plugins arbitrary: st) (simp_all add: rows_def fold_map comp_def)

lemma route_fold:
  "fold (\<lambda>(p, pat). route_pattern host p pat) rs (None, None) =
     (longest (matching host rs), (case catch_alls rs of [] \<Rightarrow> None | p # _ \<Rightarrow> Some p))"
proof (induction rs rule: rev_induct)
  case Nil
  then show ?case by (simp add: longest_def matching_def catch_alls_def)
next
  case (snoc r rs)
  obtain p pat where r: "r = (p, pat)" by fastforce
  have m: "matching host (rs @ [r]) = matching host rs @ (if pat \<noteq> ''*'' \<and> host_matches host (pattern_key pat) then [(p, length (pattern_key pat))] else [])"
    by (simp add: matching_def r)
  have c: "catch_alls (rs @ [r]) = catch_alls rs @ (if pat = ''*'' then [p] else [])" by (simp add: catch_alls_def r)
  show ?case unfolding m c using snoc.IH
    by (auto simp: r route_pattern_def Let_def longest_snoc split: option.splits list.splits if_splits)
qed

text \<open>
  The plugin for a host is the one with the most specific pattern: of all patterns that match the host at a label boundary, in any plugin, a
  longest one decides, the first in the configuration when several are equally long; the catch-all is asked only when none matches, and the
  import is refused only when there is no catch-all either. The height handed to it is never above its owner's ceiling.
\<close>

theorem route_plugin_most_specific:
  "route_plugin plugins host =
     (case longest (matching (pattern_key host) (rows plugins)) of
        Some (p, _) \<Rightarrow> Some p
      | None \<Rightarrow> (case catch_alls (rows plugins) of [] \<Rightarrow> None | p # _ \<Rightarrow> Some p)) \<and>
   (longest ms = None \<longleftrightarrow> ms = []) \<and> (longest ms = Some (q, n) \<longrightarrow> (q, n) \<in> set ms \<and> list_all (\<lambda>(_, m). m \<le> n) ms) \<and>
   (effective_height requested plugin = Inr h \<longrightarrow> h \<le> ip_max_height plugin)"
proof (intro conjI impI)
  show "route_plugin plugins host = (case longest (matching (pattern_key host) (rows plugins)) of
        Some (p, _) \<Rightarrow> Some p | None \<Rightarrow> (case catch_alls (rows plugins) of [] \<Rightarrow> None | p # _ \<Rightarrow> Some p))"
    by (simp add: route_plugin_def route_rows route_fold split: option.splits prod.splits)
  show "longest ms = None \<longleftrightarrow> ms = []"
  proof (cases ms rule: rev_cases)
    case (snoc ms' x)
    then show ?thesis by (cases x) (auto simp: longest_snoc split: option.splits)
  qed (simp add: longest_def)
  show "(q, n) \<in> set ms" "list_all (\<lambda>(_, m). m \<le> n) ms" if "longest ms = Some (q, n)"
    using that unfolding longest_def find_Some_iff by (metis nth_mem, auto)
  show "h \<le> ip_max_height plugin" if "effective_height requested plugin = Inr h"
    using that by (auto simp: effective_height_def split: option.splits if_splits)
qed

theorem route_plugin_most_specific_witness:
  "let yt = \<lparr>ip_name = ''yt'', ip_patterns = [''*'', ''youtube.com''], ip_max_height = 720, ip_cmd = ''a'', ip_args = []\<rparr>;
       tv = \<lparr>ip_name = ''tv'', ip_patterns = [''tv.youtube.com.''], ip_max_height = 1080, ip_cmd = ''b'', ip_args = []\<rparr>
   in route_plugin [yt, tv] ''x.TV.youtube.com'' = Some tv \<and> effective_height (Some 2160) tv = Inr 1080 \<and> 1080 \<le> ip_max_height tv"
proof -
  let ?yt = "\<lparr>ip_name = ''yt'', ip_patterns = [''*'', ''youtube.com''], ip_max_height = 720, ip_cmd = ''a'', ip_args = []\<rparr>"
  let ?tv = "\<lparr>ip_name = ''tv'', ip_patterns = [''tv.youtube.com.''], ip_max_height = 1080, ip_cmd = ''b'', ip_args = []\<rparr>"
  have l: "longest (matching (pattern_key ''x.TV.youtube.com'') (rows [?yt, ?tv])) = Some (?tv, 14)" by code_simp
  have h: "effective_height (Some 2160) ?tv = Inr 1080" by code_simp
  note m = route_plugin_most_specific [of "[?yt, ?tv]" "''x.TV.youtube.com''" "[]" undefined 0 "Some 2160" ?tv 1080]
  have "route_plugin [?yt, ?tv] ''x.TV.youtube.com'' = Some ?tv" using m [THEN conjunct1] unfolding l by (simp only: option.case prod.case)
  moreover have "1080 \<le> ip_max_height ?tv" using m h by blast
  ultimately show ?thesis unfolding Let_def using h by blast
qed

end
