(* ===== verification/Import_Jobs.thy ===== *)
theory Import_Jobs
  imports Import_Gate
begin

text \<open>
  The import jobs of the share agent (\<^verbatim>\<open>ImportManager\<close> of \<^verbatim>\<open>xr-share/src/import.rs\<close>): the table of jobs, the queue, and the single worker that
  runs one plugin at a time. Callers and the worker interleave: each section under a lock is one step. The plugin itself, what it prints and how
  it ends are inputs; a random job number is an input that has not been drawn before; \<^verbatim>\<open>Notify\<close> is its permit. The progress that is shown is left out.

  The theorems: a job that waits is never forgotten, the worker never sleeps while one waits, and jobs start in the order in which they were
  queued, each at most once; a caller sees and cancels only the jobs of its own share; the process group that a cancellation kills is the one
  that was started for this job.
\<close>

section \<open>State\<close>

datatype job_state = Queued | Running | Done | Failed

record job_spec =
  js_share_id :: string
  js_share_root :: fpath
  js_dest_rel :: string
  js_url :: string
  js_height :: u32
  js_plugin :: import_plugin
  js_timeout :: nat
  js_max_total_bytes :: "nat option"
  js_max_file_bytes :: "nat option"
  js_sandbox :: string

record job =
  jb_share_id :: string
  jb_state :: job_state
  jb_files :: "string list"
  jb_error :: "string option"
  jb_pid :: "u32 option"
  jb_finished :: "nat option"
  jb_spec :: "job_spec option"

definition QUEUE_DEPTH :: nat where "QUEUE_DEPTH = 4"
definition DONE_TTL :: nat where "DONE_TTL = 3600"

text \<open>Where the worker stands: asking the queue, asleep, with a number in hand, with a plugin (and its process), with an outcome.\<close>

datatype runner = Popping | Parked | Starting string | Spawning string job_spec | Watching string job_spec u32
  | Publishing string job_spec | Finishing string "string + string list"

text \<open>
  \<open>im_pushing\<close> holds the numbers of the callers of \<^verbatim>\<open>enqueue\<close> between the two locks, \<open>im_notifying\<close> counts those that have still to wake
  the worker. The last four fields are history: numbers drawn, queued, started, and the process that was started for a job.
\<close>

record import_sys =
  im_depth :: "nat option"
  im_jobs :: "string \<rightharpoonup> job"
  im_queue :: "string list"
  im_permit :: bool
  im_pushing :: "string list"
  im_notifying :: nat
  im_runner :: runner
  im_drawn :: "string set"
  im_queued :: "string list"
  im_started :: "string list"
  im_child :: "string \<rightharpoonup> u32"

section \<open>Operations\<close>

definition fresh_job :: "nat \<Rightarrow> job \<Rightarrow> bool" where
  "fresh_job now j = (case jb_finished j of Some t \<Rightarrow> now - t < DONE_TTL | None \<Rightarrow> True)"

definition sweep_finished :: "nat \<Rightarrow> (string \<rightharpoonup> job) \<Rightarrow> string \<rightharpoonup> job" where
  "sweep_finished now jobs = (\<lambda>k. case jobs k of None \<Rightarrow> None | Some j \<Rightarrow> if fresh_job now j then Some j else None)"

definition waiting :: "(string \<rightharpoonup> job) \<Rightarrow> nat" where
  "waiting jobs = card {k. \<exists>j. jobs k = Some j \<and> jb_state j = Queued}"

definition enqueue :: "job_spec \<Rightarrow> string \<Rightarrow> nat \<Rightarrow> import_sys \<Rightarrow> string option \<times> import_sys" where
  "enqueue spec k now s =
     (let depth = (case im_depth s of None \<Rightarrow> QUEUE_DEPTH | Some d \<Rightarrow> d); jobs = sweep_finished now (im_jobs s) in
      if waiting jobs \<ge> depth then (None, s\<lparr>im_jobs := jobs\<rparr>)
      else (Some k, s\<lparr>im_jobs := jobs(k \<mapsto> \<lparr>jb_share_id = js_share_id spec, jb_state = Queued, jb_files = [], jb_error = None, jb_pid = None,
             jb_finished = None, jb_spec = Some spec\<rparr>), im_pushing := im_pushing s @ [k], im_drawn := insert k (im_drawn s)\<rparr>))"

definition push_back :: "string \<Rightarrow> import_sys \<Rightarrow> import_sys" where
  "push_back k s = s\<lparr>im_pushing := remove1 k (im_pushing s), im_queue := im_queue s @ [k], im_notifying := Suc (im_notifying s), im_queued := im_queued s @ [k]\<rparr>"

definition notify_one :: "import_sys \<Rightarrow> import_sys" where
  "notify_one s = s\<lparr>im_notifying := im_notifying s - 1, im_permit := True\<rparr>"

record job_status =
  st_state :: job_state
  st_files :: "string list option"
  st_error :: "string option"

definition job_status_of :: "job \<Rightarrow> job_status" where
  "job_status_of j = \<lparr>st_state = jb_state j, st_files = (if jb_state j = Done then Some (jb_files j) else None), st_error = jb_error j\<rparr>"

definition import_status :: "string \<Rightarrow> string \<Rightarrow> nat \<Rightarrow> import_sys \<Rightarrow> job_status option \<times> import_sys" where
  "import_status share_id job_id now s = (let jobs = sweep_finished now (im_jobs s) in
     ((case jobs job_id of None \<Rightarrow> None | Some j \<Rightarrow> if jb_share_id j = share_id then Some (job_status_of j) else None), s\<lparr>im_jobs := jobs\<rparr>))"

text \<open>The answer of \<^verbatim>\<open>cancel\<close> and the process group it kills.\<close>

definition import_cancel :: "string \<Rightarrow> string \<Rightarrow> import_sys \<Rightarrow> (bool \<times> u32 option) \<times> import_sys" where
  "import_cancel share_id job_id s = (case im_jobs s job_id of
      None \<Rightarrow> ((False, None), s)
    | Some j \<Rightarrow> if jb_share_id j = share_id then ((True, jb_pid j), s\<lparr>im_jobs := (im_jobs s)(job_id := None)\<rparr>) else ((False, None), s))"

fun pop_queued :: "(string \<rightharpoonup> job) \<Rightarrow> string list \<Rightarrow> string option \<times> string list" where
  "pop_queued jobs [] = (None, [])"
| "pop_queued jobs (k # ks) = (if k \<in> dom jobs then (Some k, ks) else pop_queued jobs ks)"

definition with_job :: "string \<Rightarrow> (job \<Rightarrow> job) \<Rightarrow> import_sys \<Rightarrow> import_sys" where
  "with_job k f s = (case im_jobs s k of None \<Rightarrow> s | Some j \<Rightarrow> s\<lparr>im_jobs := (im_jobs s)(k \<mapsto> f j)\<rparr>)"

text \<open>How the plugin and its publication end: \<open>killed\<close> is the reason the watchdog gave, \<open>exit\<close> an error text or success.\<close>

datatype runner_input = RStep | RSpawn "string + u32" | RExit "string option" "string + unit" | RPublished "string + string list" | RClock nat

fun runner_step :: "runner_input \<Rightarrow> runner \<Rightarrow> import_sys \<Rightarrow> import_sys option" where
  "runner_step RStep Popping s = (case pop_queued (im_jobs s) (im_queue s) of
      (Some k, q) \<Rightarrow> Some (s\<lparr>im_queue := q, im_runner := Starting k\<rparr>)
    | (None, q) \<Rightarrow> Some (s\<lparr>im_queue := q, im_runner := Parked\<rparr>))"
| "runner_step RStep Parked s = (if im_permit s then Some (s\<lparr>im_permit := False, im_runner := Popping\<rparr>) else None)"
| "runner_step RStep (Starting k) s = (case im_jobs s k of
      None \<Rightarrow> Some (s\<lparr>im_runner := Popping\<rparr>)
    | Some j \<Rightarrow> let s1 = with_job k (\<lambda>j. j\<lparr>jb_state := Running, jb_spec := None\<rparr>) s in
        (case jb_spec j of
           None \<Rightarrow> Some (s1\<lparr>im_runner := Popping\<rparr>)
         | Some spec \<Rightarrow> Some (s1\<lparr>im_runner := Spawning k spec, im_started := im_started s @ [k]\<rparr>)))"
| "runner_step (RSpawn r) (Spawning k spec) s = (case r of
      Inl e \<Rightarrow> Some (s\<lparr>im_runner := Finishing k (Inl e)\<rparr>)
    | Inr pid \<Rightarrow> Some ((with_job k (\<lambda>j. j\<lparr>jb_pid := Some pid\<rparr>) s)\<lparr>im_runner := Watching k spec pid, im_child := (im_child s)(k \<mapsto> pid)\<rparr>))"
| "runner_step (RExit killed exit_status) (Watching k spec pid) s = Some (s\<lparr>im_runner :=
      (if im_jobs s k = None then Finishing k (Inl ''cancelled'')
       else case killed of Some reason \<Rightarrow> Finishing k (Inl reason)
         | None \<Rightarrow> (case exit_status of Inl e \<Rightarrow> Finishing k (Inl e) | Inr _ \<Rightarrow> Publishing k spec))\<rparr>)"
| "runner_step (RPublished r) (Publishing k spec) s = Some (s\<lparr>im_runner := Finishing k r\<rparr>)"
| "runner_step (RClock now) (Finishing k r) s = Some ((with_job k (\<lambda>j. (case r of
        Inr files \<Rightarrow> j\<lparr>jb_state := Done, jb_files := files\<rparr>
      | Inl e \<Rightarrow> j\<lparr>jb_state := Failed, jb_error := Some e\<rparr>)\<lparr>jb_pid := None, jb_finished := Some now\<rparr>) s)\<lparr>im_runner := Popping\<rparr>)"
| "runner_step _ _ s = None"

datatype import_action = Enqueue job_spec string nat | Push string | NotifyOne | Status string string nat | Cancel string string
  | SetConfig "nat option" | Worker runner_input

fun import_move :: "import_action \<Rightarrow> import_sys \<Rightarrow> import_sys option" where
  "import_move (Enqueue spec k now) s = (if k \<in> im_drawn s then None else Some (snd (enqueue spec k now s)))"
| "import_move (Push k) s = (if k \<in> set (im_pushing s) then Some (push_back k s) else None)"
| "import_move NotifyOne s = (if im_notifying s > 0 then Some (notify_one s) else None)"
| "import_move (Status share_id k now) s = Some (snd (import_status share_id k now s))"
| "import_move (Cancel share_id k) s = Some (snd (import_cancel share_id k s))"
| "import_move (SetConfig d) s = Some (s\<lparr>im_depth := d\<rparr>)"
| "import_move (Worker i) s = runner_step i (im_runner s) s"

definition import_step :: "import_sys \<Rightarrow> import_sys \<Rightarrow> bool" where
  "import_step s t \<longleftrightarrow> (\<exists>a. import_move a s = Some t)"

definition import_init :: "import_sys \<Rightarrow> bool" where
  "import_init s \<longleftrightarrow> im_jobs s = Map.empty \<and> im_queue s = [] \<and> \<not> im_permit s \<and> im_pushing s = [] \<and> im_notifying s = 0 \<and> im_runner s = Popping \<and>
     im_drawn s = {} \<and> im_queued s = [] \<and> im_started s = [] \<and> im_child s = Map.empty"

section \<open>Invariants\<close>

fun runner_job :: "runner \<Rightarrow> string option" where
  "runner_job (Spawning k _) = Some k"
| "runner_job (Watching k _ _) = Some k"
| "runner_job (Publishing k _) = Some k"
| "runner_job (Finishing k _) = Some k"
| "runner_job _ = None"

fun in_hand :: "runner \<Rightarrow> string list" where
  "in_hand (Starting k) = [k]"
| "in_hand _ = []"

text \<open>The numbers that wait to be started, in the order in which they will be.\<close>

definition line :: "import_sys \<Rightarrow> string list" where
  "line s = in_hand (im_runner s) @ im_queue s @ im_pushing s"

definition job_ok :: "string list \<Rightarrow> runner \<Rightarrow> (string \<rightharpoonup> u32) \<Rightarrow> string \<Rightarrow> job \<Rightarrow> bool" where
  "job_ok ks r child k j \<longleftrightarrow> (jb_state j = Queued \<longleftrightarrow> k \<in> set ks) \<and> (jb_state j = Queued \<longrightarrow> jb_spec j \<noteq> None \<and> jb_finished j = None) \<and>
     (jb_state j = Running \<longleftrightarrow> runner_job r = Some k) \<and> (jb_state j = Running \<longrightarrow> jb_finished j = None) \<and>
     (\<forall>p. jb_pid j = Some p \<longrightarrow> jb_state j = Running \<and> child k = Some p)"

definition jobs_inv :: "import_sys \<Rightarrow> bool" where
  "jobs_inv s \<longleftrightarrow> distinct (line s) \<and> set (line s) \<subseteq> im_drawn s \<and> dom (im_jobs s) \<subseteq> im_drawn s \<and>
     (\<forall>k j. im_jobs s k = Some j \<longrightarrow> job_ok (line s) (im_runner s) (im_child s) k j) \<and>
     (\<forall>k. runner_job (im_runner s) = Some k \<longrightarrow> k \<in> im_drawn s \<and> k \<notin> set (line s))"

definition wake_inv :: "import_sys \<Rightarrow> bool" where
  "wake_inv s \<longleftrightarrow> (im_runner s = Parked \<and> \<not> im_permit s \<and> im_notifying s = 0 \<longrightarrow> im_queue s = [])"

definition order_inv :: "import_sys \<Rightarrow> bool" where
  "order_inv s \<longleftrightarrow> (\<exists>past. im_queued s = past @ im_queue s \<and>
     subseq (im_started s @ in_hand (im_runner s)) past) \<and> distinct (im_queued s @ im_pushing s) \<and> set (im_queued s) \<subseteq> im_drawn s"

definition import_inv :: "import_sys \<Rightarrow> bool" where
  "import_inv s \<longleftrightarrow> jobs_inv s \<and> wake_inv s \<and> order_inv s"

lemma pop_queued_split:
  "pop_queued jobs q = (r, q') \<Longrightarrow> (case r of None \<Rightarrow> q' = [] \<and> set q \<inter> dom jobs = {}
     | Some k \<Rightarrow> \<exists>gone. q = gone @ k # q' \<and> k \<in> dom jobs \<and> set gone \<inter> dom jobs = {})"
proof (induction jobs q rule: pop_queued.induct)
  case (2 jobs k ks)
  show ?case
  proof (cases "k \<in> dom jobs")
    case True
    then show ?thesis using 2(2) by auto
  next
    case False
    then have p: "pop_queued jobs ks = (r, q')" using 2(2) by simp
    show ?thesis
    proof (cases r)
      case None
      then show ?thesis using 2(1) [OF False p] False by auto
    next
      case (Some x)
      then obtain gone where "ks = gone @ x # q'" "x \<in> dom jobs" "set gone \<inter> dom jobs = {}" using 2(1) [OF False p] by auto
      then show ?thesis using Some False by (auto intro!: exI [of _ "k # gone"])
    qed
  qed
qed auto

lemma sweep_Some: "sweep_finished now jobs k = Some j \<Longrightarrow> jobs k = Some j"
  by (auto simp: sweep_finished_def split: option.splits if_splits)

lemma with_job_sel [simp]:
  "im_queue (with_job k f s) = im_queue s" "im_pushing (with_job k f s) = im_pushing s" "im_runner (with_job k f s) = im_runner s"
  "im_drawn (with_job k f s) = im_drawn s" "im_queued (with_job k f s) = im_queued s" "im_started (with_job k f s) = im_started s"
  "im_permit (with_job k f s) = im_permit s" "im_notifying (with_job k f s) = im_notifying s" "im_child (with_job k f s) = im_child s"
  by (auto simp: with_job_def split: option.splits)

lemma with_job_jobs: "im_jobs (with_job k f s) = (case im_jobs s k of None \<Rightarrow> im_jobs s | Some j \<Rightarrow> (im_jobs s)(k \<mapsto> f j))"
  by (auto simp: with_job_def split: option.splits)

text \<open>A step that removes jobs and leaves the rest alone keeps the invariant of the table.\<close>

lemma jobs_inv_shrink:
  assumes "jobs_inv s" and "\<And>k j. im_jobs t k = Some j \<Longrightarrow> im_jobs s k = Some j"
    and "line t = line s" and "im_runner t = im_runner s" and "im_drawn t = im_drawn s" and "im_child t = im_child s"
  shows "jobs_inv t"
proof -
  have "dom (im_jobs t) \<subseteq> dom (im_jobs s)" using assms(2) by auto
  then show ?thesis using assms(1) assms(2) unfolding jobs_inv_def assms(3-6) by (meson order_trans)
qed

lemma enqueue_jobs_inv:
  assumes inv: "jobs_inv s" and k: "k \<notin> im_drawn s"
  shows "jobs_inv (snd (enqueue spec k now s))"
proof (cases "fst (enqueue spec k now s)")
  case None
  then have "snd (enqueue spec k now s) = s\<lparr>im_jobs := sweep_finished now (im_jobs s)\<rparr>" by (auto simp: enqueue_def Let_def split: if_splits)
  then show ?thesis using inv by (intro jobs_inv_shrink [OF inv]) (auto simp: line_def dest: sweep_Some)
next
  case (Some r)
  define new where "new = \<lparr>jb_share_id = js_share_id spec, jb_state = Queued, jb_files = [], jb_error = None, jb_pid = None, jb_finished = None, jb_spec = Some spec\<rparr>"
  have e: "snd (enqueue spec k now s) = s\<lparr>im_jobs := (sweep_finished now (im_jobs s))(k \<mapsto> new), im_pushing := im_pushing s @ [k], im_drawn := insert k (im_drawn s)\<rparr>"
    using Some by (auto simp: enqueue_def Let_def new_def split: if_splits)
  have l: "k \<notin> set (line s)" "runner_job (im_runner s) \<noteq> Some k" using inv k unfolding jobs_inv_def by auto
  have "job_ok (line s @ [k]) (im_runner s) (im_child s) k' j" if "((sweep_finished now (im_jobs s))(k \<mapsto> new)) k' = Some j" for k' j
  proof (cases "k' = k")
    case True
    then show ?thesis using that l by (auto simp: job_ok_def new_def)
  next
    case False
    then have "job_ok (line s) (im_runner s) (im_child s) k' j" using that inv sweep_Some unfolding jobs_inv_def by (metis fun_upd_other)
    then show ?thesis using False by (simp add: job_ok_def)
  qed
  moreover have "dom (sweep_finished now (im_jobs s)) \<subseteq> im_drawn s" using inv sweep_Some unfolding jobs_inv_def by blast
  moreover have "line (snd (enqueue spec k now s)) = line s @ [k]" by (simp add: e line_def)
  ultimately show ?thesis using inv l unfolding jobs_inv_def e by auto
qed

text \<open>The worker's own steps on the table: it takes one number from the line, or changes the job it works on.\<close>

lemma jobs_inv_line:
  assumes "jobs_inv s" and "distinct (line t)" and "set (line t) \<subseteq> set (line s)" and "set (line s) \<inter> dom (im_jobs s) \<subseteq> set (line t)"
    and "im_jobs t = im_jobs s" and "runner_job (im_runner s) = None" and "runner_job (im_runner t) = None" and "im_drawn t = im_drawn s" and "im_child t = im_child s"
  shows "jobs_inv t"
proof -
  have "job_ok (line t) (im_runner t) (im_child t) k j" if "im_jobs t k = Some j" for k j
  proof -
    have "job_ok (line s) (im_runner s) (im_child s) k j" using assms(1,5) that unfolding jobs_inv_def by auto
    moreover have "k \<in> set (line t) \<longleftrightarrow> k \<in> set (line s)" using assms(3,4,5) that by auto
    ultimately show ?thesis using assms(6,7,9) by (simp add: job_ok_def)
  qed
  then show ?thesis using assms unfolding jobs_inv_def by auto
qed

lemma jobs_inv_own:
  assumes inv: "jobs_inv s" and k: "runner_job (im_runner s) = Some k" and "line t = line s" and "im_drawn t = im_drawn s"
    and jobs: "im_jobs t = im_jobs (with_job k f s)" and child: "\<And>k'. k' \<noteq> k \<Longrightarrow> im_child t k' = im_child s k'"
    and run: "runner_job (im_runner t) = Some k \<or> runner_job (im_runner t) = None"
    and own: "\<And>j. im_jobs s k = Some j \<Longrightarrow> job_ok (line s) (im_runner s) (im_child s) k j \<Longrightarrow> job_ok (line s) (im_runner t) (im_child t) k (f j)"
  shows "jobs_inv t"
proof -
  have "job_ok (line t) (im_runner t) (im_child t) k' j'" if m: "im_jobs t k' = Some j'" for k' j'
  proof (cases "k' = k")
    case True
    then obtain j where "im_jobs s k = Some j" "j' = f j" using m jobs by (auto simp: with_job_jobs split: option.splits)
    then show ?thesis using own inv True assms(3) unfolding jobs_inv_def by auto
  next
    case False
    then have "im_jobs s k' = Some j'" using m jobs by (auto simp: with_job_jobs split: option.splits)
    then have "job_ok (line s) (im_runner s) (im_child s) k' j'" using inv unfolding jobs_inv_def by blast
    then show ?thesis using False k run child [OF False] assms(3) by (auto simp: job_ok_def)
  qed
  moreover have "dom (im_jobs t) \<subseteq> im_drawn s" using inv jobs k unfolding jobs_inv_def by (auto simp: with_job_jobs split: option.splits if_splits)
  ultimately show ?thesis using inv assms(3,4) k run unfolding jobs_inv_def by auto
qed

lemma worker_jobs_inv:
  assumes inv: "jobs_inv s" and step: "runner_step i (im_runner s) s = Some t"
  shows "jobs_inv t"
proof (cases "im_runner s")
  case Popping
  obtain r q' where p: "pop_queued (im_jobs s) (im_queue s) = (r, q')" by fastforce
  note sp = pop_queued_split [OF p]
  have t: "t = s\<lparr>im_queue := q', im_runner := (case r of None \<Rightarrow> Parked | Some k \<Rightarrow> Starting k)\<rparr>"
    using step Popping p by (cases i) (auto split: option.splits)
  show ?thesis
  proof (cases r)
    case None
    then show ?thesis using inv sp Popping by (intro jobs_inv_line [OF inv]) (auto simp: t line_def jobs_inv_def)
  next
    case (Some k)
    then obtain gone where g: "im_queue s = gone @ k # q'" "set gone \<inter> dom (im_jobs s) = {}" using sp by auto
    then show ?thesis using inv Some Popping by (intro jobs_inv_line [OF inv]) (auto simp: t line_def jobs_inv_def)
  qed
next
  case Parked
  then have "t = s\<lparr>im_permit := False, im_runner := Popping\<rparr>" using step by (cases i) (auto split: if_splits)
  then show ?thesis using inv Parked by (intro jobs_inv_line [OF inv]) (auto simp: line_def jobs_inv_def)
next
  case (Starting k)
  have l: "line s = k # im_queue s @ im_pushing s" using Starting by (simp add: line_def)
  show ?thesis
  proof (cases "im_jobs s k")
    case None
    then have "t = s\<lparr>im_runner := Popping\<rparr>" using step Starting by (cases i) auto
    then show ?thesis using inv Starting None l by (intro jobs_inv_line [OF inv]) (auto simp: line_def jobs_inv_def)
  next
    case (Some j)
    have "job_ok (line s) (im_runner s) (im_child s) k j" using inv Some unfolding jobs_inv_def by blast
    then have j: "jb_state j = Queued" "jb_spec j \<noteq> None" "jb_finished j = None" "jb_pid j = None" using l by (auto simp: job_ok_def)
    then obtain spec where sp: "jb_spec j = Some spec" by blast
    have t: "t = (with_job k (\<lambda>j. j\<lparr>jb_state := Running, jb_spec := None\<rparr>) s)\<lparr>im_runner := Spawning k spec, im_started := im_started s @ [k]\<rparr>"
      using step Starting Some sp by (cases i) (auto simp: Let_def)
    have lt: "line t = im_queue s @ im_pushing s" by (simp add: t line_def)
    have d: "distinct (line s)" "k \<in> im_drawn s" using inv l unfolding jobs_inv_def by auto
    have "job_ok (line t) (im_runner t) (im_child t) k' j'" if "im_jobs t k' = Some j'" for k' j'
    proof (cases "k' = k")
      case True
      then show ?thesis using that j d l lt Some by (auto simp: job_ok_def t with_job_jobs)
    next
      case False
      then have "job_ok (line s) (im_runner s) (im_child s) k' j'" using that inv Some unfolding jobs_inv_def by (auto simp: t with_job_jobs)
      then show ?thesis using False l lt Starting by (auto simp: job_ok_def t)
    qed
    then show ?thesis using inv d l lt Some unfolding jobs_inv_def by (auto simp: t with_job_jobs)
  qed
next
  case (Spawning k spec)
  then obtain r where i: "i = RSpawn r" using step by (cases i) auto
  show ?thesis
  proof (cases r)
    case (Inl e)
    then show ?thesis using step Spawning i by (intro jobs_inv_own [OF inv, of k _ "\<lambda>j. j"]) (auto simp: line_def with_job_jobs job_ok_def split: option.splits)
  next
    case (Inr pid)
    then show ?thesis using step Spawning i
      by (intro jobs_inv_own [OF inv, of k _ "\<lambda>j. j\<lparr>jb_pid := Some pid\<rparr>"]) (auto simp: line_def with_job_jobs job_ok_def split: option.splits)
  qed
next
  case (Watching k spec pid)
  then obtain a b where i: "i = RExit a b" using step by (cases i) auto
  then have "\<exists>r'. t = s\<lparr>im_runner := r'\<rparr> \<and> runner_job r' = Some k \<and> in_hand r' = []"
    using step Watching by (auto split: option.splits sum.splits)
  then show ?thesis using Watching by (intro jobs_inv_own [OF inv, of k _ "\<lambda>j. j"]) (auto simp: line_def with_job_jobs job_ok_def split: option.splits)
next
  case (Publishing k spec)
  then obtain r where i: "i = RPublished r" using step by (cases i) auto
  then show ?thesis using step Publishing
    by (intro jobs_inv_own [OF inv, of k _ "\<lambda>j. j"]) (auto simp: line_def with_job_jobs job_ok_def split: option.splits)
next
  case (Finishing k r)
  then obtain now where i: "i = RClock now" using step by (cases i) auto
  then show ?thesis using step Finishing
    by (intro jobs_inv_own [OF inv, of k _ "\<lambda>j. (case r of Inr files \<Rightarrow> j\<lparr>jb_state := Done, jb_files := files\<rparr>
          | Inl e \<Rightarrow> j\<lparr>jb_state := Failed, jb_error := Some e\<rparr>)\<lparr>jb_pid := None, jb_finished := Some now\<rparr>"])
      (auto simp: line_def with_job_jobs job_ok_def split: option.splits sum.splits)
qed

text \<open>The worker and the order of the line.\<close>

lemma worker_wake_inv:
  assumes inv: "wake_inv s" and step: "runner_step i (im_runner s) s = Some t"
  shows "wake_inv t"
proof (cases "im_runner s")
  case Popping
  obtain r q' where p: "pop_queued (im_jobs s) (im_queue s) = (r, q')" by fastforce
  have "t = s\<lparr>im_queue := q', im_runner := (case r of None \<Rightarrow> Parked | Some k \<Rightarrow> Starting k)\<rparr>"
    using step Popping p by (cases i) (auto split: option.splits)
  then show ?thesis using pop_queued_split [OF p] by (cases r) (auto simp: wake_inv_def)
next
  case Parked
  then show ?thesis using step by (cases i) (auto simp: wake_inv_def split: if_splits)
next
  case (Starting k)
  then show ?thesis using step by (cases i) (auto simp: wake_inv_def Let_def split: option.splits)
next
  case (Spawning k spec)
  then show ?thesis using step by (cases i) (auto simp: wake_inv_def split: sum.splits)
next
  case (Watching k spec pid)
  then show ?thesis using step by (cases i) (auto simp: wake_inv_def split: option.splits sum.splits if_splits)
next
  case (Publishing k spec)
  then show ?thesis using step by (cases i) (auto simp: wake_inv_def)
next
  case (Finishing k r)
  then show ?thesis using step by (cases i) (auto simp: wake_inv_def)
qed

lemma order_invI:
  assumes "order_inv s" and "im_queue t = im_queue s" and "im_queued t = im_queued s" and "im_pushing t = im_pushing s" and "im_drawn t = im_drawn s"
    and "subseq (im_started t @ in_hand (im_runner t)) (im_started s @ in_hand (im_runner s))"
  shows "order_inv t"
proof -
  obtain past where "im_queued s = past @ im_queue s" "subseq (im_started s @ in_hand (im_runner s)) past" using assms(1) unfolding order_inv_def by blast
  then show ?thesis using assms subseq_order.order_trans [OF assms(6)] unfolding order_inv_def by auto
qed

lemma worker_order_inv:
  assumes inv: "order_inv s" and step: "runner_step i (im_runner s) s = Some t"
  shows "order_inv t"
proof (cases "im_runner s")
  case Popping
  obtain r q' where p: "pop_queued (im_jobs s) (im_queue s) = (r, q')" by fastforce
  note sp = pop_queued_split [OF p]
  have t: "t = s\<lparr>im_queue := q', im_runner := (case r of None \<Rightarrow> Parked | Some k \<Rightarrow> Starting k)\<rparr>"
    using step Popping p by (cases i) (auto split: option.splits)
  obtain past where past: "im_queued s = past @ im_queue s" "subseq (im_started s) past" using inv Popping by (auto simp: order_inv_def)
  show ?thesis
  proof (cases r)
    case None
    then have "subseq (im_started s) (im_queued s)" using list_emb_prefix [OF past(2)] past(1) by simp
    then show ?thesis using inv None sp by (auto simp: order_inv_def t)
  next
    case (Some k)
    then obtain gone where g: "im_queue s = gone @ k # q'" using sp by auto
    have "subseq (im_started s @ [k]) (past @ (gone @ [k]))" by (rule list_emb_append_mono [OF past(2)]) (simp add: list_emb_append2)
    then have "\<exists>past'. im_queued t = past' @ q' \<and> subseq (im_started t @ [k]) past'" using past g by (intro exI [of _ "past @ gone @ [k]"]) (simp add: t)
    then show ?thesis using inv Some by (auto simp: order_inv_def t)
  qed
next
  case (Starting k)
  then show ?thesis using step by (intro order_invI [OF inv]; cases i) (auto simp: Let_def split: option.splits)
next
  case Parked
  then show ?thesis using step by (intro order_invI [OF inv]; cases i) (auto split: if_splits)
next
  case (Spawning k spec)
  then show ?thesis using step by (intro order_invI [OF inv]; cases i) (auto split: sum.splits)
next
  case (Watching k spec pid)
  then show ?thesis using step by (intro order_invI [OF inv]; cases i) (auto split: option.splits sum.splits)
next
  case (Publishing k spec)
  then show ?thesis using step by (intro order_invI [OF inv]; cases i) auto
next
  case (Finishing k r)
  then show ?thesis using step by (intro order_invI [OF inv]; cases i) auto
qed

lemma push_inv:
  assumes inv: "import_inv s" and k: "k \<in> set (im_pushing s)"
  shows "import_inv (push_back k s)"
proof -
  have d: "distinct (line s)" "distinct (im_queued s @ im_pushing s)" "set (im_queued s) \<subseteq> im_drawn s" "set (line s) \<subseteq> im_drawn s"
    using inv by (auto simp: import_inv_def jobs_inv_def order_inv_def)
  have l: "set (line (push_back k s)) = set (line s)" "distinct (line (push_back k s))"
    using d(1) k by (auto simp: line_def push_back_def set_remove1_eq)
  have "jobs_inv (push_back k s)"
    using inv l unfolding import_inv_def jobs_inv_def job_ok_def by (simp add: push_back_def)
  moreover have "wake_inv (push_back k s)" by (simp add: wake_inv_def push_back_def)
  moreover have "order_inv (push_back k s)"
    using inv d k by (auto simp: import_inv_def order_inv_def push_back_def line_def set_remove1_eq)
  ultimately show ?thesis by (simp add: import_inv_def)
qed

interpretation importer: transition_system import_init import_step import_inv
proof
  fix s
  assume "import_init s"
  then show "import_inv s" by (auto simp: import_init_def import_inv_def jobs_inv_def wake_inv_def order_inv_def line_def)
next
  fix s t
  assume inv: "import_inv s" and "import_step s t"
  then obtain a where a: "import_move a s = Some t" by (auto simp: import_step_def)
  have parts: "jobs_inv s" "wake_inv s" "order_inv s" using inv by (simp_all add: import_inv_def)
  show "import_inv t"
  proof (cases a)
    case (Enqueue spec k now)
    then have t: "t = snd (enqueue spec k now s)" "k \<notin> im_drawn s" using a by (auto split: if_splits)
    have "order_inv t" using parts(1,3) t(2) by (auto simp: t(1) jobs_inv_def line_def enqueue_def Let_def order_inv_def)
    moreover have "wake_inv t" using parts(2) by (auto simp: t(1) enqueue_def Let_def wake_inv_def)
    ultimately show ?thesis using enqueue_jobs_inv [OF parts(1) t(2)] by (simp add: import_inv_def t(1))
  next
    case (Push k)
    then show ?thesis using a push_inv [OF inv] by (auto split: if_splits)
  next
    case NotifyOne
    then have t: "t = notify_one s" using a by (auto split: if_splits)
    have "jobs_inv t" by (rule jobs_inv_shrink [OF parts(1)]) (auto simp: t notify_one_def line_def)
    then show ?thesis using parts(3) by (simp add: import_inv_def wake_inv_def order_inv_def t notify_one_def)
  next
    case (Status share_id k now)
    then have t: "t = s\<lparr>im_jobs := sweep_finished now (im_jobs s)\<rparr>" using a by (simp add: import_status_def Let_def)
    have "jobs_inv t" by (rule jobs_inv_shrink [OF parts(1)]) (auto simp: t line_def dest: sweep_Some)
    then show ?thesis using parts(2,3) by (simp add: import_inv_def wake_inv_def order_inv_def t)
  next
    case (Cancel share_id k)
    then have t: "t = s \<or> t = s\<lparr>im_jobs := (im_jobs s)(k := None)\<rparr>" using a by (auto simp: import_cancel_def split: option.splits if_splits)
    have "jobs_inv t" by (rule jobs_inv_shrink [OF parts(1)]) (use t in \<open>auto simp: line_def split: if_splits\<close>)
    then show ?thesis using parts(2,3) t by (auto simp: import_inv_def wake_inv_def order_inv_def)
  next
    case (SetConfig d)
    then have t: "t = s\<lparr>im_depth := d\<rparr>" using a by simp
    have "jobs_inv t" by (rule jobs_inv_shrink [OF parts(1)]) (auto simp: t line_def)
    then show ?thesis using parts(2,3) by (simp add: import_inv_def wake_inv_def order_inv_def t)
  next
    case (Worker i)
    then show ?thesis using a worker_jobs_inv [OF parts(1)] worker_wake_inv [OF parts(2)] worker_order_inv [OF parts(3)] by (simp add: import_inv_def)
  qed
qed

section \<open>What the callers may rely on\<close>

definition asleep :: "import_sys \<Rightarrow> bool" where
  "asleep s \<longleftrightarrow> im_runner s = Parked \<and> \<not> im_permit s"

text \<open>
  C20. The queue of imports loses nothing and keeps its order, however callers, cancellations, polls, reloads of the configuration and the worker
  interleave. A job that is shown as queued stands in the line exactly once; when no caller is in the middle of queueing, the worker is not asleep while
  such a job exists. Jobs are started in the order in which they were queued, each at most once, and the only job shown as
  running is the one the worker is busy with.
\<close>

theorem import_queue_is_fair:
  assumes "reach import_init import_step s"
  shows "distinct (line s) \<and> subseq (im_started s) (im_queued s) \<and> distinct (im_started s) \<and>
    (im_jobs s k = Some j \<longrightarrow> (jb_state j = Queued \<longleftrightarrow> k \<in> set (line s)) \<and> (jb_state j = Running \<longleftrightarrow> runner_job (im_runner s) = Some k)) \<and>
    (im_jobs s k = Some j \<and> jb_state j = Queued \<and> im_pushing s = [] \<and> im_notifying s = 0 \<longrightarrow> \<not> asleep s)"
proof -
  have inv: "jobs_inv s" "wake_inv s" "order_inv s" using importer.reach_inv [OF assms] by (simp_all add: import_inv_def)
  obtain past where past: "im_queued s = past @ im_queue s" "subseq (im_started s @ in_hand (im_runner s)) past" "distinct (im_queued s)"
    using inv(3) unfolding order_inv_def by auto
  have sub: "subseq (im_started s) (im_queued s)" unfolding past(1)
    by (intro list_emb_prefix) (rule subseq_order.order_trans [OF _ past(2)], auto)
  have ok: "job_ok (line s) (im_runner s) (im_child s) k j" if "im_jobs s k = Some j" using inv(1) that unfolding jobs_inv_def by blast
  have "\<not> asleep s" if "im_jobs s k = Some j" "jb_state j = Queued" "im_pushing s = []" "im_notifying s = 0"
    using ok [OF that(1)] that(2-4) inv(2) by (auto simp: job_ok_def line_def asleep_def wake_inv_def)
  moreover have "distinct (line s)" using inv(1) by (simp add: jobs_inv_def)
  moreover have "distinct (im_started s)" using sub past(3) by (auto simp: subseq_conv_nths distinct_nthsI)
  ultimately show ?thesis using sub ok by (auto simp: job_ok_def)
qed

section \<open>A run\<close>

fun import_run :: "import_action list \<Rightarrow> import_sys \<Rightarrow> import_sys option" where
  "import_run [] s = Some s"
| "import_run (a # as) s = (case import_move a s of None \<Rightarrow> None | Some t \<Rightarrow> import_run as t)"

lemma import_run_reach:
  "reach import_init import_step s \<Longrightarrow> import_run as s = Some t \<Longrightarrow> reach import_init import_step t"
proof (induction as arbitrary: s)
  case (Cons a as)
  then obtain u where u: "import_move a s = Some u" "import_run as u = Some t" by (auto split: option.splits)
  then have "import_step s u" by (auto simp: import_step_def)
  then show ?case using Cons u by (blast intro: reach.intros)
qed simp

definition import_start :: import_sys where
  "import_start = \<lparr>im_depth = None, im_jobs = Map.empty, im_queue = [], im_permit = False, im_pushing = [], im_notifying = 0, im_runner = Popping,
     im_drawn = {}, im_queued = [], im_started = [], im_child = Map.empty\<rparr>"

definition ex_spec :: job_spec where
  "ex_spec = \<lparr>js_share_id = ''s1'', js_share_root = [''srv''], js_dest_rel = [], js_url = ''https://example.com/a'', js_height = 720,
     js_plugin = \<lparr>ip_name = ''yt'', ip_patterns = [''*''], ip_max_height = 720, ip_cmd = ''yt-dlp'', ip_args = [''{url}'']\<rparr>, js_timeout = 1800,
     js_max_total_bytes = None, js_max_file_bytes = None, js_sandbox = ''auto''\<rparr>"

lemma import_start_reach: "reach import_init import_step import_start"
  by (rule reach.intros(1)) (simp add: import_init_def import_start_def)

definition ex_wait :: "import_action list" where
  "ex_wait = [Worker RStep, Enqueue ex_spec ''j1'' 5, Push ''j1'', NotifyOne]"

definition ex_job :: job where
  "ex_job = \<lparr>jb_share_id = ''s1'', jb_state = Queued, jb_files = [], jb_error = None, jb_pid = None, jb_finished = None, jb_spec = Some ex_spec\<rparr>"

definition ex_waiting :: import_sys where
  "ex_waiting = import_start\<lparr>im_jobs := [''j1'' \<mapsto> ex_job], im_queue := [''j1''], im_permit := True, im_runner := Parked, im_drawn := {''j1''}, im_queued := [''j1'']\<rparr>"

lemma ex_wait_run: "import_run ex_wait import_start = Some ex_waiting"
  by (simp add: ex_waiting_def ex_job_def ex_wait_def import_start_def enqueue_def Let_def sweep_finished_def waiting_def QUEUE_DEPTH_def push_back_def notify_one_def ex_spec_def)

theorem import_queue_is_fair_witness:
  "\<exists>s j. import_run ex_wait import_start = Some s \<and> im_jobs s ''j1'' = Some j \<and> jb_state j = Queued \<and> ''j1'' \<in> set (line s) \<and> \<not> asleep s"
proof -
  have j: "im_jobs ex_waiting ''j1'' = Some ex_job" "jb_state ex_job = Queued" "im_pushing ex_waiting = []" "im_notifying ex_waiting = 0"
    by (simp_all add: ex_waiting_def ex_job_def import_start_def)
  show ?thesis using import_queue_is_fair [OF import_run_reach [OF import_start_reach ex_wait_run], of "''j1''" ex_job] ex_wait_run j by blast
qed

text \<open>
  A cancellation can come when the plugin has ended and its files are being published. The number of its process is still in the table then, although the
  process has been waited for and the system may have given the number away.
\<close>

lemma cancel_kills_reaped_group:
  "\<exists>s spec. reach import_init import_step s \<and> im_runner s = Publishing ''j1'' spec \<and> fst (import_cancel ''s1'' ''j1'' s) = (True, Some 77)"
proof -
  have "\<exists>s. import_run [Worker RStep, Worker RStep, Worker RStep, Worker (RSpawn (Inr 77)), Worker (RExit None (Inr ()))] ex_waiting = Some s \<and>
     im_runner s = Publishing ''j1'' ex_spec \<and> fst (import_cancel ''s1'' ''j1'' s) = (True, Some 77)"
    by (simp add: ex_waiting_def ex_job_def import_start_def with_job_def Let_def import_cancel_def)
  then show ?thesis using import_run_reach [OF import_run_reach [OF import_start_reach ex_wait_run]] by blast
qed

end
