(* ===== verification/Agent_Write.thy ===== *)
theory Agent_Write
  imports Agent_Gate
begin

text \<open>
  The write path of the share agent (\<^verbatim>\<open>handle_put\<close>, \<^verbatim>\<open>handle_delete\<close>, \<^verbatim>\<open>stream_to_temp\<close> of \<^verbatim>\<open>xr-share/src/server.rs\<close>), with the hash cache of
  \<^verbatim>\<open>manifest.rs\<close> and the origin index of \<^verbatim>\<open>meta.rs\<close>, on the disk of the theory Disk. Uploads and deletions run at the same time: a handler
  is a task, and each access to the disk or to the cache is one step (a hash taken through the cache, with its stat and read, counts as one). The random name of a temporary file is an input, assumed different from
  those in use. A handler may be dropped at any of its steps (its connection is gone), the agent may stop and start again, and the removal of a temporary
  file may fail; the sweep of the share at start-up is modelled for the temporary files, the job directories that it also removes are not.
  The origin index is a map per share instead of its JSON file, and its saves succeed. The renaming is that of Unix.

  The theorems: to every reader the share is a store with atomic updates, whatever the uploads do; a temporary file belongs to an upload that is
  under way or is an orphan of one of those three accidents; and two schedules that the code allows show what is not protected when two writers meet.
\<close>

section \<open>The hash cache\<close>

record cache_entry =
  ce_size :: u64
  ce_mtime :: int
  ce_sha256 :: string

type_synonym hash_cache = "fpath \<rightharpoonup> cache_entry"

definition mtime_secs :: "int option \<Rightarrow> int" where
  "mtime_secs m = (case m of None \<Rightarrow> 0 | Some t \<Rightarrow> if t < 0 then 0 else t)"

definition cached :: "fpath \<Rightarrow> u64 \<Rightarrow> int \<Rightarrow> hash_cache \<Rightarrow> string option" where
  "cached path len mtime c = (case c path of
      None \<Rightarrow> None | Some e \<Rightarrow> if ce_size e = len \<and> ce_mtime e = mtime then Some (ce_sha256 e) else None)"

definition seed :: "fpath \<Rightarrow> u64 \<Rightarrow> int \<Rightarrow> string \<Rightarrow> hash_cache \<Rightarrow> hash_cache" where
  "seed path len mtime sha c = c(path \<mapsto> \<lparr>ce_size = len, ce_mtime = mtime, ce_sha256 = sha\<rparr>)"

definition hashed :: "(bytes \<Rightarrow> bytes) \<Rightarrow> node \<Rightarrow> fpath \<Rightarrow> u64 \<Rightarrow> int \<Rightarrow> hash_cache \<Rightarrow> string option \<times> hash_cache" where
  "hashed sha disk path len mtime c = (case cached path len mtime c of
      Some h \<Rightarrow> (Some h, c)
    | None \<Rightarrow> (case read_file disk path of
          Inl _ \<Rightarrow> (None, c)
        | Inr content \<Rightarrow> (Some (sha256_file sha content), seed path len mtime (sha256_file sha content) c)))"

definition cache_hash_of :: "(bytes \<Rightarrow> bytes) \<Rightarrow> node \<Rightarrow> fpath \<Rightarrow> hash_cache \<Rightarrow> string option \<times> hash_cache" where
  "cache_hash_of sha disk path c = (case fs_metadata disk path of
      None \<Rightarrow> (None, c) | Some (len, m) \<Rightarrow> hashed sha disk path len (mtime_secs m) c)"

section \<open>Requests and tasks\<close>

datatype upload_event = Frame bytes | Trailers | Broken

record write_request =
  wr_share :: string
  wr_rel :: string
  wr_req :: agent_request
  wr_body :: "upload_event list"

definition trim_quotes :: "string \<Rightarrow> string" where
  "trim_quotes s = rev (dropWhile (\<lambda>c. c = CHR 0x22) (rev (dropWhile (\<lambda>c. c = CHR 0x22) s)))"

definition if_match_hash :: "agent_request \<Rightarrow> string option" where
  "if_match_hash req = (case header_str req ''if-match'' of
      None \<Rightarrow> None
    | Some h \<Rightarrow> let v = trim_quotes (trim h) in if v = [] \<or> v = ''*'' then None else Some v)"

definition content_length :: "agent_request \<Rightarrow> int option" where
  "content_length req = Option.bind (header_str req ''content-length'') (parse_unsigned 64)"

text \<open>\<^verbatim>\<open>saturating_mul\<close> of mebibytes to bytes.\<close>

definition cap_bytes :: "agent_env \<Rightarrow> nat option" where
  "cap_bytes env = map_option (\<lambda>m. min (unat m * 1048576) (2 ^ 64 - 1)) (ae_max_file_mb env)"

definition over_cap :: "agent_env \<Rightarrow> int \<Rightarrow> bool" where
  "over_cap env n = (case cap_bytes env of None \<Rightarrow> False | Some limit \<Rightarrow> n > int limit)"

text \<open>Where a handler stands, named by what it does next; \<open>Replied\<close> has answered, \<open>Gone\<close> was dropped without an answer.\<close>

datatype wpc = PutGate | PutMatch string | PutMkdir | PutTemp | PutBody fpath "upload_event list" bytes | PutCheck fpath bytes
  | PutRename fpath bytes | PutStat bytes | PutSeed bytes u64 int | PutForget
  | DelGate | DelMatch string | DelRemove | DelForget | Replied nat string | Gone

record wtask =
  wt_req :: write_request
  wt_target :: fpath
  wt_root :: fpath
  wt_existed :: bool
  wt_since :: u64
  wt_pc :: wpc

record agent_sys =
  as_disk :: node
  as_cache :: hash_cache
  as_origin :: "fpath \<Rightarrow> string \<rightharpoonup> file_meta"
  as_tasks :: "wtask list"
  as_orphans :: "fpath set"    \<comment> \<open>the temporary files that no handler will remove any more (not in the program)\<close>

text \<open>What a step takes from outside: the links and the clock at the gate, a random number, the time of a write, or an error of the operating
  system, which may be a full disk.\<close>

datatype winput = Gate canonicalize u64 | Random u64 "int option" | Stamp "int option" | IoFault bool

definition is_file :: "node \<Rightarrow> fpath \<Rightarrow> bool" where
  "is_file t p \<longleftrightarrow> file_at t p \<noteq> None"

definition put_gate :: "agent_env \<Rightarrow> canonicalize \<Rightarrow> u64 \<Rightarrow> node \<Rightarrow> wtask \<Rightarrow> wtask" where
  "put_gate env canon now disk t =
     (let w = wt_req t; reply = (\<lambda>e. t\<lparr>wt_pc := Replied (fst e) (snd e)\<rparr>) in
      case write_gates env canon (wr_share w) (wr_rel w) (wr_req w) now of
        Inl e \<Rightarrow> reply e
      | Inr (target, root) \<Rightarrow>
          if is_dir disk target then reply (409, ''target is a directory'')
          else let existed = is_file disk target;
                   t1 = t\<lparr>wt_target := target, wt_root := root, wt_existed := existed, wt_since := now\<rparr> in
            if (case content_length (wr_req w) of None \<Rightarrow> False | Some len \<Rightarrow> over_cap env len) then reply (413, ''file too large'')
            else if (case header_str (wr_req w) ''if-none-match'' of None \<Rightarrow> False | Some v \<Rightarrow> trim v = ''*'' \<and> existed)
              then reply (412, ''target already exists'')
            else (case if_match_hash (wr_req w) of
                Some want \<Rightarrow> if existed then t1\<lparr>wt_pc := PutMatch want\<rparr> else reply (412, ''no current version to match'')
              | None \<Rightarrow> t1\<lparr>wt_pc := PutMkdir\<rparr>))"

definition del_gate :: "agent_env \<Rightarrow> canonicalize \<Rightarrow> u64 \<Rightarrow> node \<Rightarrow> wtask \<Rightarrow> wtask" where
  "del_gate env canon now disk t =
     (let w = wt_req t; reply = (\<lambda>e. t\<lparr>wt_pc := Replied (fst e) (snd e)\<rparr>) in
      case write_gates env canon (wr_share w) (wr_rel w) (wr_req w) now of
        Inl e \<Rightarrow> reply e
      | Inr (target, root) \<Rightarrow>
          if is_dir disk target then reply (409, ''target is a directory'')
          else if \<not> is_file disk target then reply (404, ''no such file'')
          else let t1 = t\<lparr>wt_target := target, wt_root := root, wt_existed := True, wt_since := now\<rparr> in
            (case if_match_hash (wr_req w) of Some want \<Rightarrow> t1\<lparr>wt_pc := DelMatch want\<rparr> | None \<Rightarrow> t1\<lparr>wt_pc := DelRemove\<rparr>))"

text \<open>The comparison of an \<^verbatim>\<open>If-Match\<close> with the current content, through the cache.\<close>

definition match_step :: "agent_env \<Rightarrow> string \<Rightarrow> wpc \<Rightarrow> wtask \<Rightarrow> agent_sys \<Rightarrow> wpc \<times> agent_sys" where
  "match_step env want next t s = (case cache_hash_of (ae_sha env) (as_disk s) (wt_target t) (as_cache s) of
      (None, c) \<Rightarrow> (Replied 500 ''hash failed'', s\<lparr>as_cache := c\<rparr>)
    | (Some current, c) \<Rightarrow>
        (if eq_ignore_ascii_case current want then next else Replied 412 ''version mismatch'', s\<lparr>as_cache := c\<rparr>))"

text \<open>An ending that removes the temporary file first; a failure of the removal is ignored.\<close>

definition drop_temp :: "fpath \<Rightarrow> nat \<Rightarrow> string \<Rightarrow> agent_sys \<Rightarrow> wpc \<times> agent_sys" where
  "drop_temp tmp code why s =
     (Replied code why, s\<lparr>as_disk := (case remove_file tmp (as_disk s) of Inl _ \<Rightarrow> as_disk s | Inr d \<Rightarrow> d)\<rparr>)"

definition body_step :: "agent_env \<Rightarrow> int option \<Rightarrow> fpath \<Rightarrow> upload_event list \<Rightarrow> bytes \<Rightarrow> agent_sys \<Rightarrow> wpc \<times> agent_sys" where
  "body_step env stamp tmp es acc s = (case es of
      [] \<Rightarrow> (PutCheck tmp acc, s)
    | Trailers # es' \<Rightarrow> (PutBody tmp es' acc, s)
    | Broken # es' \<Rightarrow> drop_temp tmp 400 ''body read error'' s
    | Frame d # es' \<Rightarrow>
        if over_cap env (int (length acc + length d)) then drop_temp tmp 413 ''file too large'' s
        else (case append_file stamp d tmp (as_disk s) of
            Inl _ \<Rightarrow> drop_temp tmp 500 ''io error'' s
          | Inr disk \<Rightarrow> (PutBody tmp es' (acc @ d), s\<lparr>as_disk := disk\<rparr>)))"

definition sha_declared :: "agent_request \<Rightarrow> string option" where
  "sha_declared req = map_option trim (header_str req ''x-xr-sha256'')"

definition sha_matches :: "agent_env \<Rightarrow> agent_request \<Rightarrow> bytes \<Rightarrow> bool" where
  "sha_matches env req body = (case sha_declared req of None \<Rightarrow> True | Some want \<Rightarrow> eq_ignore_ascii_case (sha256_file (ae_sha env) body) want)"

definition temp_path :: "fpath \<Rightarrow> u64 \<Rightarrow> fpath" where
  "temp_path target r = butlast target @ [UPLOAD_TEMP_PREFIX @ hex_lower (map (\<lambda>k. ucast (drop_bit (8 * k) r)) (rev [0..<8]))]"

definition rel_key :: "fpath \<Rightarrow> fpath \<Rightarrow> string option" where
  "rel_key root target = (if prefix root target then Some (join ''/'' (drop (length root) target)) else None)"

definition forget :: "fpath \<Rightarrow> fpath \<Rightarrow> agent_sys \<Rightarrow> agent_sys" where
  "forget root target s = (case rel_key root target of
      None \<Rightarrow> s | Some key \<Rightarrow> s\<lparr>as_origin := (as_origin s)(root := (as_origin s root)(key := None))\<rparr>)"

definition io_status :: "bool \<Rightarrow> nat \<times> string" where
  "io_status full = (if full then (507, ''no space left'') else (500, ''io error''))"

text \<open>An operation that fails: the creation, a write and the sync of the temporary file, and the calls around them.\<close>

fun fault_step :: "bool \<Rightarrow> wpc \<Rightarrow> agent_sys \<Rightarrow> (wpc \<times> agent_sys) option" where
  "fault_step full PutMkdir s = Some (Replied 500 ''mkdir failed'', s)"
| "fault_step full PutTemp s = Some (Replied (fst (io_status full)) (snd (io_status full)), s)"
| "fault_step full (PutBody tmp [] acc) s = Some (drop_temp tmp (fst (io_status full)) (snd (io_status full)) s)"
| "fault_step full (PutBody tmp (Frame d # es) acc) s = Some (drop_temp tmp (fst (io_status full)) (snd (io_status full)) s)"
| "fault_step full (PutRename tmp acc) s = Some (drop_temp tmp 500 ''rename failed'' s)"
| "fault_step full (PutStat acc) s = Some (PutForget, s)"
| "fault_step full DelRemove s = Some (Replied 500 ''delete failed'', s)"
| "fault_step full _ s = None"

fun temp_of :: "wpc \<Rightarrow> fpath option" where
  "temp_of (PutBody tmp _ _) = Some tmp"
| "temp_of (PutCheck tmp _) = Some tmp"
| "temp_of (PutRename tmp _) = Some tmp"
| "temp_of _ = None"

definition temp_free :: "fpath \<Rightarrow> agent_sys \<Rightarrow> bool" where
  "temp_free p s \<longleftrightarrow> file_at (as_disk s) p = None"

fun write_step :: "agent_env \<Rightarrow> winput \<Rightarrow> wpc \<Rightarrow> wtask \<Rightarrow> agent_sys \<Rightarrow> (wtask \<times> agent_sys) option" where
  "write_step env (Gate canon now) c t s =
     (if c = PutGate then Some (put_gate env canon now (as_disk s) t, s)
      else if c = DelGate then Some (del_gate env canon now (as_disk s) t, s) else None)"
| "write_step env (Random r stamp) c t s =
     (if c = PutTemp \<and> temp_free (temp_path (wt_target t) r) s then
        (case write_file stamp [] (temp_path (wt_target t) r) (as_disk s) of
           Inl _ \<Rightarrow> Some (t\<lparr>wt_pc := Replied 500 ''io error''\<rparr>, s)
         | Inr disk \<Rightarrow> Some (t\<lparr>wt_pc := PutBody (temp_path (wt_target t) r) (wr_body (wt_req t)) []\<rparr>, s\<lparr>as_disk := disk\<rparr>))
      else None)"
| "write_step env (Stamp now) c t s =
     (let go = (\<lambda>r. Some (t\<lparr>wt_pc := fst r\<rparr>, snd r)) in
      case c of
        PutMatch want \<Rightarrow> go (match_step env want PutMkdir t s)
      | PutMkdir \<Rightarrow>
          (if wt_target t = [] then go (Replied 403 ''path rejected'', s)
           else case create_dir_all (as_disk s) (butlast (wt_target t)) of
               Inl _ \<Rightarrow> go (Replied 500 ''mkdir failed'', s) | Inr disk \<Rightarrow> go (PutTemp, s\<lparr>as_disk := disk\<rparr>))
      | PutBody tmp es acc \<Rightarrow> go (body_step env now tmp es acc s)
      | PutCheck tmp acc \<Rightarrow>
          go (if sha_matches env (wr_req (wt_req t)) acc then (PutRename tmp acc, s) else drop_temp tmp 422 ''sha256 mismatch'' s)
      | PutRename tmp acc \<Rightarrow>
          (case rename_file tmp (wt_target t) (as_disk s) of
             Inl _ \<Rightarrow> go (drop_temp tmp 500 ''rename failed'' s) | Inr disk \<Rightarrow> go (PutStat acc, s\<lparr>as_disk := disk\<rparr>))
      | PutStat acc \<Rightarrow>
          (case fs_metadata (as_disk s) (wt_target t) of
             None \<Rightarrow> go (PutForget, s) | Some (len, m) \<Rightarrow> go (PutSeed acc len (mtime_secs m), s))
      | PutSeed acc len m \<Rightarrow> go (PutForget, s\<lparr>as_cache := seed (wt_target t) len m (sha256_file (ae_sha env) acc) (as_cache s)\<rparr>)
      | PutForget \<Rightarrow> go (Replied (if wt_existed t then 204 else 201) [], forget (wt_root t) (wt_target t) s)
      | DelMatch want \<Rightarrow> go (match_step env want DelRemove t s)
      | DelRemove \<Rightarrow>
          (case remove_file (wt_target t) (as_disk s) of
             Inl _ \<Rightarrow> go (Replied 500 ''delete failed'', s) | Inr disk \<Rightarrow> go (DelForget, s\<lparr>as_disk := disk\<rparr>))
      | DelForget \<Rightarrow> go (Replied 204 [], forget (wt_root t) (wt_target t) s)
      | _ \<Rightarrow> None)"
| "write_step env (IoFault full) c t s = map_option (\<lambda>r. (t\<lparr>wt_pc := fst r\<rparr>, snd r)) (fault_step full c s)"

definition new_task :: "write_request \<Rightarrow> wpc \<Rightarrow> wtask" where
  "new_task w c = \<lparr>wt_req = w, wt_target = [], wt_root = [], wt_existed = False, wt_since = 0, wt_pc = c\<rparr>"

text \<open>A step that ends with an error, but whose removal of the temporary file fails.\<close>

definition stuck_step :: "agent_env \<Rightarrow> winput \<Rightarrow> wtask \<Rightarrow> agent_sys \<Rightarrow> (wtask \<times> agent_sys) option" where
  "stuck_step env i t s = (case write_step env i (wt_pc t) t s of
      None \<Rightarrow> None
    | Some (t', s1) \<Rightarrow> (case (temp_of (wt_pc t), wt_pc t') of
          (Some tmp, Replied code why) \<Rightarrow> Some (t', s1\<lparr>as_disk := as_disk s, as_orphans := insert tmp (as_orphans s)\<rparr>)
        | _ \<Rightarrow> None))"

text \<open>The sweep of one share at start-up; \<open>stuck\<close> are the files whose removal fails.\<close>

definition JOB_DIR_PREFIX :: string where "JOB_DIR_PREFIX = ''.xr-import-''"

function part_files :: "fpath \<Rightarrow> (string \<times> node) list \<Rightarrow> fpath list" where
  "part_files at [] = []"
| "part_files at ((nm, Symlink) # es) = part_files at es"
| "part_files at ((nm, Dir ds) # es) = (if starts_with nm JOB_DIR_PREFIX then [] else part_files (at @ [nm]) ds) @ part_files at es"
| "part_files at ((nm, File c m) # es) = (if starts_with nm UPLOAD_TEMP_PREFIX then [at @ [nm]] else []) @ part_files at es"
  by pat_completeness auto
termination
  by (relation "measure (\<lambda>(at, es). size_list (size_prod (\<lambda>_. 0) size) es)") auto

definition sweep_share_root :: "(fpath \<Rightarrow> bool) \<Rightarrow> fpath \<Rightarrow> node \<Rightarrow> node" where
  "sweep_share_root stuck root t = (case lookup t root of
      Some (Dir es) \<Rightarrow> fold (\<lambda>p t. if stuck p then t else case remove_file p t of Inl _ \<Rightarrow> t | Inr t' \<Rightarrow> t') (part_files root es) t
    | _ \<Rightarrow> t)"

definition temps :: "agent_sys \<Rightarrow> fpath set" where
  "temps s = {p. \<exists>t \<in> set (as_tasks s). temp_of (wt_pc t) = Some p}"

datatype agent_action = PutRequest write_request | DeleteRequest write_request | Warm fpath | Act nat winput
  | Dropped nat | Stuck nat winput | Restart "fpath list" "fpath \<Rightarrow> bool"

fun agent_move :: "agent_env \<Rightarrow> agent_action \<Rightarrow> agent_sys \<Rightarrow> agent_sys option" where
  "agent_move env (PutRequest w) s = Some (s\<lparr>as_tasks := as_tasks s @ [new_task w PutGate]\<rparr>)"
| "agent_move env (DeleteRequest w) s = Some (s\<lparr>as_tasks := as_tasks s @ [new_task w DelGate]\<rparr>)"
| "agent_move env (Warm p) s = Some (s\<lparr>as_cache := snd (cache_hash_of (ae_sha env) (as_disk s) p (as_cache s))\<rparr>)"
| "agent_move env (Act k i) s =
     (if k < length (as_tasks s) then
        map_option (\<lambda>(t, s1). s1\<lparr>as_tasks := (as_tasks s)[k := t]\<rparr>)
          (write_step env i (wt_pc (as_tasks s ! k)) (as_tasks s ! k) s)
      else None)"
| "agent_move env (Dropped k) s =
     (if k < length (as_tasks s) then
        Some (s\<lparr>as_tasks := (as_tasks s)[k := (as_tasks s ! k)\<lparr>wt_pc := Gone\<rparr>], as_orphans := as_orphans s \<union> set_option (temp_of (wt_pc (as_tasks s ! k)))\<rparr>)
      else None)"
| "agent_move env (Stuck k i) s =
     (if k < length (as_tasks s) then
        map_option (\<lambda>(t, s1). s1\<lparr>as_tasks := (as_tasks s)[k := t]\<rparr>) (stuck_step env i (as_tasks s ! k) s)
      else None)"
| "agent_move env (Restart roots stuck) s =
     Some (s\<lparr>as_disk := fold (sweep_share_root stuck) roots (as_disk s), as_cache := Map.empty, as_tasks := [], as_orphans := as_orphans s \<union> temps s\<rparr>)"

definition agent_step :: "agent_env \<Rightarrow> agent_sys \<Rightarrow> agent_sys \<Rightarrow> bool" where
  "agent_step env s t \<longleftrightarrow> (\<exists>a. agent_move env a s = Some t)"

section \<open>The invariant\<close>

definition hidden :: "fpath \<Rightarrow> bool" where
  "hidden q \<longleftrightarrow> q \<noteq> [] \<and> starts_with (last q) UPLOAD_TEMP_PREFIX"

text \<open>What a reader can see of the disk.\<close>

definition visible :: "agent_sys \<Rightarrow> fpath \<Rightarrow> bytes option" where
  "visible s q = (if hidden q then None else file_at (as_disk s) q)"

lemma visible_update [simp]: "visible (s\<lparr>as_tasks := ts\<rparr>) = visible s" "visible (s\<lparr>as_cache := c\<rparr>) = visible s" "visible (s\<lparr>as_orphans := os\<rparr>) = visible s"
  by (auto simp: visible_def fun_eq_iff)

fun body_data :: "upload_event list \<Rightarrow> bytes" where
  "body_data [] = []"
| "body_data (Frame d # es) = d @ body_data es"
| "body_data (_ # es) = body_data es"

lemma body_data_append: "body_data (xs @ ys) = body_data xs @ body_data ys"
  by (induction xs rule: body_data.induct) auto

fun content_of :: "wpc \<Rightarrow> bytes" where
  "content_of (PutBody _ _ acc) = acc"
| "content_of (PutCheck _ acc) = acc"
| "content_of (PutRename _ acc) = acc"
| "content_of _ = []"

definition gated :: "agent_env \<Rightarrow> wtask \<Rightarrow> bool" where
  "gated env t \<longleftrightarrow> (\<exists>canon. write_gates env canon (wr_share (wt_req t)) (wr_rel (wt_req t)) (wr_req (wt_req t)) (wt_since t) = Inr (wt_target t, wt_root t))"

fun at_gate :: "wpc \<Rightarrow> bool" where
  "at_gate PutGate = True" | "at_gate DelGate = True" | "at_gate (Replied _ _) = True" | "at_gate Gone = True" | "at_gate _ = False"

definition within_cap :: "agent_env \<Rightarrow> bytes \<Rightarrow> bool" where
  "within_cap env b \<longleftrightarrow> b = [] \<or> \<not> over_cap env (int (length b))"

text \<open>The whole body has arrived, fits, and is what the client said it would be.\<close>

definition received :: "agent_env \<Rightarrow> write_request \<Rightarrow> bytes \<Rightarrow> bool" where
  "received env w b \<longleftrightarrow> b = body_data (wr_body w) \<and> Broken \<notin> set (wr_body w) \<and> within_cap env b"

fun progress_ok :: "agent_env \<Rightarrow> write_request \<Rightarrow> wpc \<Rightarrow> bool" where
  "progress_ok env w (PutBody tmp es acc) \<longleftrightarrow>
     (\<exists>got. wr_body w = got @ es \<and> acc = body_data got \<and> Broken \<notin> set got \<and> within_cap env acc)"
| "progress_ok env w (PutCheck tmp acc) \<longleftrightarrow> received env w acc"
| "progress_ok env w (PutRename tmp acc) \<longleftrightarrow> received env w acc \<and> sha_matches env (wr_req w) acc"
| "progress_ok env w _ \<longleftrightarrow> True"

definition wtask_ok :: "agent_env \<Rightarrow> agent_sys \<Rightarrow> wtask \<Rightarrow> bool" where
  "wtask_ok env s t \<longleftrightarrow> (\<not> at_gate (wt_pc t) \<longrightarrow> gated env t) \<and> progress_ok env (wt_req t) (wt_pc t) \<and>
     (\<forall>tmp. temp_of (wt_pc t) = Some tmp \<longrightarrow> hidden tmp \<and> file_at (as_disk s) tmp = Some (content_of (wt_pc t)))"

text \<open>The owner of a share does not give its root the name of a temporary file.\<close>

definition roots_plain :: "agent_env \<Rightarrow> bool" where
  "roots_plain env \<longleftrightarrow> (\<forall>sid share. ae_shares env sid = Some share \<longrightarrow> \<not> hidden (sr_path share))"

definition agent_inv :: "agent_env \<Rightarrow> agent_sys \<Rightarrow> bool" where
  "agent_inv env s \<longleftrightarrow> roots_plain env \<and> (\<forall>t \<in> set (as_tasks s). wtask_ok env s t) \<and>
     (\<forall>j k p. j < length (as_tasks s) \<and> k < length (as_tasks s) \<and> temp_of (wt_pc (as_tasks s ! j)) = Some p \<and>
        temp_of (wt_pc (as_tasks s ! k)) = Some p \<longrightarrow> j = k) \<and>
     (\<forall>q. hidden q \<and> file_at (as_disk s) q \<noteq> None \<longrightarrow> q \<in> as_orphans s \<or> (\<exists>k < length (as_tasks s). temp_of (wt_pc (as_tasks s ! k)) = Some q))"

lemma put_possible: "lookup t p = Some n \<Longrightarrow> p \<noteq> [] \<Longrightarrow> \<exists>t'. put t p v = Some t'"
proof (induction t p v rule: put.induct)
  case (2 es k k' ks v)
  then obtain m where m: "map_of es k = Some m" "lookup m (k' # ks) = Some n" by (auto split: option.splits)
  then show ?case using 2(1) by fastforce
qed auto

lemma remove_possible: "file_at t p = Some c \<Longrightarrow> p \<noteq> [] \<Longrightarrow> \<exists>t'. remove_file p t = Inr t'"
  using put_possible [of t p _ None] by (auto simp: remove_file_def file_at_def put_or_def split: option.splits node.splits)

lemma hidden_temp: "hidden (temp_path target r)"
  by (simp add: hidden_def temp_path_def)

lemma hidden_ne: "hidden q \<Longrightarrow> q \<noteq> []"
  by (simp add: hidden_def)

lemma write_gates_Inr:
  assumes "write_gates env canon sid rel req now = Inr (p, root)"
  obtains share where "ae_shares env sid = Some share" and "sr_writable share" and "root = sr_path share"
    and "check_token env sid SCOPE_WRITE req now = Inr ()" and "resolve_within canon root rel = Inr p"
  using assms by (cases "ae_shares env sid"; cases "check_token env sid SCOPE_WRITE req now") (auto simp: write_gates_def split: sum.splits if_splits)

lemma gated_visible:
  assumes "gated env t" and "roots_plain env"
  shows "\<not> hidden (wt_target t)"
proof -
  obtain canon where "write_gates env canon (wr_share (wt_req t)) (wr_rel (wt_req t)) (wr_req (wt_req t)) (wt_since t) = Inr (wt_target t, wt_root t)"
    using assms(1) unfolding gated_def by blast
  then obtain share where s: "ae_shares env (wr_share (wt_req t)) = Some share" "resolve_within canon (sr_path share) (wr_rel (wt_req t)) = Inr (wt_target t)"
    by (rule write_gates_Inr) simp
  from resolve_within_name [OF s(2)] obtain comps where c: "wt_target t = sr_path share @ comps" "\<forall>x \<in> set comps. plain_component x" by blast
  show ?thesis
  proof (cases "comps = []")
    case True
    then show ?thesis using c s(1) assms(2) by (simp add: roots_plain_def)
  next
    case False
    then have "plain_component (last comps)" using c(2) by simp
    moreover have "prefix RESERVED_PREFIX UPLOAD_TEMP_PREFIX" by (simp add: RESERVED_PREFIX_def UPLOAD_TEMP_PREFIX_def)
    ultimately show ?thesis using False c(1) prefix_order.trans by (auto simp: hidden_def plain_component_def)
  qed
qed

text \<open>What one step of a handler does to the files of the disk and to its temporary file.\<close>

fun early :: "wpc \<Rightarrow> bool" where
  "early PutMkdir = True" | "early DelRemove = True" | "early (PutMatch _) = True" | "early (DelMatch _) = True"
| "early (Replied _ _) = True" | "early _ = False"

lemma early_empty: "early c \<Longrightarrow> temp_of c = None \<and> content_of c = []"
  by (cases c) auto

lemma early_progress: "early c \<Longrightarrow> progress_ok env w c"
  by (cases c) auto

text \<open>Past the gates a task is \<open>gated\<close>; no gate and no comparison touches a temporary file.\<close>

lemma put_gate_ok:
  assumes "t' = put_gate env canon now disk t"
  shows "wt_req t' = wt_req t \<and> early (wt_pc t') \<and> (\<not> at_gate (wt_pc t') \<longrightarrow> gated env t')"
proof (cases "write_gates env canon (wr_share (wt_req t)) (wr_rel (wt_req t)) (wr_req (wt_req t)) now")
  case (Inl e)
  then show ?thesis using assms by (simp add: put_gate_def)
next
  case (Inr x)
  obtain target root where x: "x = (target, root)" by fastforce
  have "gated env t'" if "wt_req t' = wt_req t" "wt_target t' = target" "wt_root t' = root" "wt_since t' = now"
    unfolding gated_def using Inr x that by auto
  then show ?thesis using assms Inr x by (auto simp: put_gate_def Let_def split: if_splits option.splits)
qed

lemma del_gate_ok:
  assumes "t' = del_gate env canon now disk t"
  shows "wt_req t' = wt_req t \<and> early (wt_pc t') \<and> (\<not> at_gate (wt_pc t') \<longrightarrow> gated env t')"
proof (cases "write_gates env canon (wr_share (wt_req t)) (wr_rel (wt_req t)) (wr_req (wt_req t)) now")
  case (Inl e)
  then show ?thesis using assms by (simp add: del_gate_def)
next
  case (Inr x)
  obtain target root where x: "x = (target, root)" by fastforce
  have "gated env t'" if "wt_req t' = wt_req t" "wt_target t' = target" "wt_root t' = root" "wt_since t' = now"
    unfolding gated_def using Inr x that by auto
  then show ?thesis using assms Inr x by (auto simp: del_gate_def Let_def split: if_splits option.splits)
qed

lemma match_step_ok:
  "as_disk (snd (match_step env want next t s)) = as_disk s \<and> as_tasks (snd (match_step env want next t s)) = as_tasks s \<and>
   as_orphans (snd (match_step env want next t s)) = as_orphans s \<and>
   (fst (match_step env want next t s) = next \<or> (\<exists>code why. fst (match_step env want next t s) = Replied code why))"
  by (auto simp: match_step_def split: prod.splits option.splits)

lemma forget_disk [simp]: "as_disk (forget root target s) = as_disk s" "as_tasks (forget root target s) = as_tasks s" "as_orphans (forget root target s) = as_orphans s"
  by (auto simp: forget_def split: option.splits)

lemma drop_temp_ok:
  assumes "hidden tmp" and "file_at (as_disk s) tmp = Some c" and "r = drop_temp tmp code why s"
  shows "fst r = Replied code why \<and> file_at (as_disk (snd r)) = (file_at (as_disk s))(tmp := None) \<and> as_tasks (snd r) = as_tasks s"
proof -
  obtain d where "remove_file tmp (as_disk s) = Inr d" using remove_possible [OF assms(2) hidden_ne [OF assms(1)]] by blast
  then show ?thesis using file_at_remove assms(3) by (auto simp: drop_temp_def)
qed

text \<open>The outcomes of a step, by what it does to the files.\<close>

definition quiet :: "wtask \<Rightarrow> agent_sys \<Rightarrow> wtask \<Rightarrow> agent_sys \<Rightarrow> bool" where
  "quiet t s t' s' \<longleftrightarrow> file_at (as_disk s') = file_at (as_disk s) \<and> temp_of (wt_pc t') = temp_of (wt_pc t) \<and> content_of (wt_pc t') = content_of (wt_pc t)"

definition creates :: "wtask \<Rightarrow> agent_sys \<Rightarrow> wtask \<Rightarrow> agent_sys \<Rightarrow> bool" where
  "creates t s t' s' \<longleftrightarrow> (\<exists>tmp. temp_of (wt_pc t) = None \<and> hidden tmp \<and> file_at (as_disk s) tmp = None \<and> temp_of (wt_pc t') = Some tmp \<and>
     content_of (wt_pc t') = [] \<and> file_at (as_disk s') = (file_at (as_disk s))(tmp \<mapsto> []))"

definition extends :: "wtask \<Rightarrow> agent_sys \<Rightarrow> wtask \<Rightarrow> agent_sys \<Rightarrow> bool" where
  "extends t s t' s' \<longleftrightarrow> (\<exists>tmp. temp_of (wt_pc t) = Some tmp \<and> temp_of (wt_pc t') = Some tmp \<and>
     file_at (as_disk s') = (file_at (as_disk s))(tmp \<mapsto> content_of (wt_pc t')))"

definition drops :: "wtask \<Rightarrow> agent_sys \<Rightarrow> wtask \<Rightarrow> agent_sys \<Rightarrow> bool" where
  "drops t s t' s' \<longleftrightarrow> (\<exists>tmp. temp_of (wt_pc t) = Some tmp \<and> temp_of (wt_pc t') = None \<and> file_at (as_disk s') = (file_at (as_disk s))(tmp := None))"

definition publishes :: "wtask \<Rightarrow> agent_sys \<Rightarrow> wtask \<Rightarrow> agent_sys \<Rightarrow> bool" where
  "publishes t s t' s' \<longleftrightarrow> (\<exists>tmp body. wt_pc t = PutRename tmp body \<and> temp_of (wt_pc t') = None \<and>
     file_at (as_disk s') = (file_at (as_disk s))(tmp := None, wt_target t \<mapsto> body))"

definition deletes :: "wtask \<Rightarrow> agent_sys \<Rightarrow> wtask \<Rightarrow> agent_sys \<Rightarrow> bool" where
  "deletes t s t' s' \<longleftrightarrow> wt_pc t = DelRemove \<and> temp_of (wt_pc t') = None \<and> file_at (as_disk s') = (file_at (as_disk s))(wt_target t := None)"

lemmas outcomes = quiet_def creates_def extends_def drops_def publishes_def deletes_def

lemma body_effect:
  assumes c: "wt_pc t = PutBody tmp es acc" and t: "hidden tmp" "file_at (as_disk s) tmp = Some acc"
    and r: "wt_pc t' = fst (body_step env now tmp es acc s)" "s' = snd (body_step env now tmp es acc s)"
  shows "quiet t s t' s' \<or> extends t s t' s' \<or> drops t s t' s'"
proof (cases es)
  case Nil
  then have "quiet t s t' s'" using c r by (simp add: body_step_def quiet_def)
  then show ?thesis ..
next
  case (Cons e es')
  have d: "drops t s t' s'" if "wt_pc t' = fst (drop_temp tmp code why s)" "s' = snd (drop_temp tmp code why s)" for code why
    using drop_temp_ok [OF t refl, of code why] c that by (auto simp: drops_def)
  show ?thesis
  proof (cases e)
    case (Frame b)
    consider "over_cap env (int (length acc + length b))" | e' where "\<not> over_cap env (int (length acc + length b))" "append_file now b tmp (as_disk s) = Inl e'"
      | disk where "\<not> over_cap env (int (length acc + length b))" "append_file now b tmp (as_disk s) = Inr disk" by (meson obj_sumE)
    then show ?thesis
    proof cases
      case 3
      then have "extends t s t' s'" using file_at_append [OF 3(2)] t c r Cons Frame by (auto simp: body_step_def extends_def)
      then show ?thesis by simp
    qed (use d r Cons Frame in \<open>auto simp: body_step_def\<close>)
  next
    case Trailers
    then have "quiet t s t' s'" using c r Cons by (simp add: body_step_def quiet_def)
    then show ?thesis ..
  qed (use d r Cons in \<open>auto simp: body_step_def\<close>)
qed

lemma stamp_effect:
  assumes "write_step env (Stamp now) (wt_pc t) t s = Some (t', s')"
    and ok: "\<And>tmp. temp_of (wt_pc t) = Some tmp \<Longrightarrow> hidden tmp \<and> file_at (as_disk s) tmp = Some (content_of (wt_pc t))"
  shows "quiet t s t' s' \<or> extends t s t' s' \<or> drops t s t' s' \<or> publishes t s t' s' \<or> deletes t s t' s'"
proof (cases "wt_pc t")
  case (PutBody tmp es acc)
  then have r: "wt_pc t' = fst (body_step env now tmp es acc s)" "s' = snd (body_step env now tmp es acc s)" using assms(1) by (auto simp: Let_def)
  have "hidden tmp" "file_at (as_disk s) tmp = Some acc" using ok PutBody by auto
  from body_effect [OF PutBody this r] show ?thesis by blast
next
  case (PutCheck tmp acc)
  then have f: "hidden tmp" "file_at (as_disk s) tmp = Some acc" using ok by auto
  then show ?thesis using assms(1) PutCheck drop_temp_ok [OF f refl, of 422 "''sha256 mismatch''"]
    by (cases "sha_matches env (wr_req (wt_req t)) acc") (auto simp: Let_def quiet_def drops_def)
next
  case (PutRename tmp acc)
  then have f: "hidden tmp" "file_at (as_disk s) tmp = Some acc" using ok by auto
  show ?thesis
  proof (cases "rename_file tmp (wt_target t) (as_disk s)")
    case (Inl e)
    then show ?thesis using assms(1) PutRename drop_temp_ok [OF f refl] by (auto simp: Let_def drops_def)
  next
    case (Inr disk)
    then show ?thesis using assms(1) PutRename f file_at_rename [OF Inr] by (auto simp: Let_def publishes_def)
  qed
next
  case PutMkdir
  then show ?thesis using assms(1) file_at_mkdir by (auto simp: Let_def quiet_def split: if_splits sum.splits)
next
  case DelRemove
  then show ?thesis using assms(1) file_at_remove by (auto simp: Let_def quiet_def deletes_def split: sum.splits)
next
  case (PutMatch want)
  then show ?thesis using assms(1) match_step_ok [of env want PutMkdir t s] by (auto simp: Let_def quiet_def)
next
  case (DelMatch want)
  then show ?thesis using assms(1) match_step_ok [of env want DelRemove t s] by (auto simp: Let_def quiet_def)
next
  case (PutStat acc)
  then show ?thesis using assms(1) by (auto simp: Let_def quiet_def split: option.splits prod.splits)
qed (use assms(1) in \<open>auto simp: Let_def quiet_def\<close>)

lemma write_effect:
  assumes step: "write_step env i (wt_pc t) t s = Some (t', s')" and ok: "wtask_ok env s t"
  shows "quiet t s t' s' \<or> creates t s t' s' \<or> extends t s t' s' \<or> drops t s t' s' \<or> publishes t s t' s' \<or> deletes t s t' s'"
proof (cases i)
  case (Gate canon now)
  then have "s' = s \<and> early (wt_pc t') \<and> (wt_pc t = PutGate \<or> wt_pc t = DelGate)"
    using step put_gate_ok [OF refl] del_gate_ok [OF refl] by (auto split: if_splits)
  then have "quiet t s t' s'" using early_empty by (auto simp: quiet_def)
  then show ?thesis ..
next
  case (Random r stamp)
  then have c: "wt_pc t = PutTemp" "file_at (as_disk s) (temp_path (wt_target t) r) = None" using step by (auto simp: temp_free_def split: if_splits)
  show ?thesis
  proof (cases "write_file stamp [] (temp_path (wt_target t) r) (as_disk s)")
    case (Inl e)
    then show ?thesis using step Random c by (auto simp: temp_free_def quiet_def)
  next
    case (Inr disk)
    then have "creates t s t' s'" using step Random c file_at_write [OF Inr] hidden_temp by (auto simp: temp_free_def creates_def)
    then show ?thesis by simp
  qed
next
  case (Stamp now)
  then show ?thesis using stamp_effect [of env now t s t' s'] step ok by (auto simp: wtask_ok_def)
next
  case (IoFault full)
  then obtain r where r: "fault_step full (wt_pc t) s = Some r" "wt_pc t' = fst r" "s' = snd r" using step by auto
  have d: "drops t s t' s'" if "temp_of (wt_pc t) = Some tmp" "r = drop_temp tmp code why s" for tmp code why
    using drop_temp_ok [OF _ _ that(2)] ok that r(2,3) by (auto simp: wtask_ok_def drops_def)
  from r(1) show ?thesis by (cases rule: fault_step.elims) (use d r(2,3) in \<open>auto simp: quiet_def\<close>)
qed

text \<open>What a step keeps of the task itself.\<close>

lemma body_progress:
  assumes "progress_ok env w (PutBody tmp es acc)"
  shows "progress_ok env w (fst (body_step env now tmp es acc s)) \<and> as_tasks (snd (body_step env now tmp es acc s)) = as_tasks s \<and>
    as_orphans (snd (body_step env now tmp es acc s)) = as_orphans s"
proof -
  obtain got where g: "wr_body w = got @ es" "acc = body_data got" "Broken \<notin> set got" "within_cap env acc" using assms by auto
  show ?thesis
  proof (cases es)
    case Nil
    then show ?thesis using g by (simp add: body_step_def received_def)
  next
    case (Cons e es')
    have k: "\<exists>got'. got @ e # es' = got' @ es' \<and> body_data got @ body_data [e] = body_data got' \<and> Broken \<notin> set got'" if "e \<noteq> Broken"
      using g(3) that by (intro exI [of _ "got @ [e]"]) (auto simp: body_data_append)
    show ?thesis
    proof (cases e)
      case (Frame b)
      have "within_cap env (acc @ b)" if "\<not> over_cap env (int (length acc + length b))" using that by (simp add: within_cap_def)
      then show ?thesis using g k Cons Frame by (cases "append_file now b tmp (as_disk s)") (auto simp: body_step_def drop_temp_def)
    qed (use g k Cons in \<open>auto simp: body_step_def drop_temp_def\<close>)
  qed
qed

lemma write_task:
  assumes step: "write_step env i (wt_pc t) t s = Some (t', s')" and ok: "wtask_ok env s t"
  shows "(\<not> at_gate (wt_pc t') \<longrightarrow> gated env t') \<and> progress_ok env (wt_req t') (wt_pc t') \<and> as_tasks s' = as_tasks s \<and> as_orphans s' = as_orphans s \<and> wt_req t' = wt_req t"
proof (cases i)
  case (Gate canon now)
  have "t' = put_gate env canon now (as_disk s) t \<and> s' = s \<or> t' = del_gate env canon now (as_disk s) t \<and> s' = s"
    using step [unfolded Gate] by (cases "wt_pc t = PutGate"; cases "wt_pc t = DelGate") simp_all
  then consider "t' = put_gate env canon now (as_disk s) t" "s' = s" | "t' = del_gate env canon now (as_disk s) t" "s' = s" by blast
  then have "wt_req t' = wt_req t \<and> early (wt_pc t') \<and> (\<not> at_gate (wt_pc t') \<longrightarrow> gated env t') \<and> s' = s"
  proof cases
    case 1
    from put_gate_ok [OF 1(1)] 1(2) show ?thesis by blast
  next
    case 2
    from del_gate_ok [OF 2(1)] 2(2) show ?thesis by blast
  qed
  then show ?thesis using early_progress by blast
next
  case (Random r stamp)
  have g: "gated env (t\<lparr>wt_pc := c\<rparr>)" if "wt_pc t = PutTemp" for c using ok that by (simp add: wtask_ok_def gated_def)
  have c: "wt_pc t = PutTemp" "temp_free (temp_path (wt_target t) r) s" using step Random by (auto split: if_splits)
  show ?thesis using step Random c g [OF c(1)]
    by (cases "write_file stamp [] (temp_path (wt_target t) r) (as_disk s)") (auto simp: within_cap_def)
next
  case (IoFault full)
  then obtain r where r: "fault_step full (wt_pc t) s = Some r" "t' = t\<lparr>wt_pc := fst r\<rparr>" "s' = snd r" using step by auto
  have g: "\<not> at_gate (wt_pc t) \<longrightarrow> gated env t'" using ok r(2) by (simp add: wtask_ok_def gated_def)
  from r(1) show ?thesis by (cases rule: fault_step.elims) (use r(2,3) g in \<open>auto simp: drop_temp_def\<close>)
next
  case (Stamp now)
  have ng: "\<not> at_gate (wt_pc t)" using step Stamp by (cases "wt_pc t") (auto simp: Let_def)
  then have g: "gated env (t\<lparr>wt_pc := c\<rparr>)" for c using ok by (simp add: wtask_ok_def gated_def)
  have p: "progress_ok env (wt_req t) (wt_pc t)" using ok by (simp add: wtask_ok_def)
  show ?thesis
  proof (cases "wt_pc t")
    case (PutBody tmp es acc)
    then show ?thesis using step Stamp g body_progress [of env "wt_req t" tmp es acc now s] p by (auto simp: Let_def simp del: progress_ok.simps)
  next
    case (PutMatch want)
    then show ?thesis using step Stamp g match_step_ok [of env want PutMkdir t s] by (auto simp: Let_def)
  next
    case (DelMatch want)
    then show ?thesis using step Stamp g match_step_ok [of env want DelRemove t s] by (auto simp: Let_def)
  qed (use step Stamp g p in \<open>auto simp: Let_def drop_temp_def split: if_splits sum.splits option.splits prod.splits\<close>)
qed

text \<open>The same by paths: a step changes no file that is hidden and not its own.\<close>

lemma write_frame:
  assumes step: "write_step env i (wt_pc t) t s = Some (t', s')" and ok: "wtask_ok env s t" and "roots_plain env"
    and q: "hidden q" "temp_of (wt_pc t) \<noteq> Some q" "temp_of (wt_pc t') \<noteq> Some q"
  shows "file_at (as_disk s') q = file_at (as_disk s) q"
proof -
  have v: "wt_target t \<noteq> q" if "\<not> at_gate (wt_pc t)"
    using gated_visible [of env t] assms(3) ok q(1) that by (auto simp: wtask_ok_def)
  from write_effect [OF step ok] show ?thesis
  proof (elim disjE)
    assume "publishes t s t' s'"
    then show ?thesis using v q by (auto simp: publishes_def)
  next
    assume "deletes t s t' s'"
    then show ?thesis using v q by (auto simp: deletes_def)
  qed (use q in \<open>auto simp: outcomes\<close>)
qed

lemma write_temp:
  assumes step: "write_step env i (wt_pc t) t s = Some (t', s')" and ok: "wtask_ok env s t" and "temp_of (wt_pc t') = Some q"
  shows "hidden q \<and> file_at (as_disk s') q = Some (content_of (wt_pc t')) \<and> (temp_of (wt_pc t) = Some q \<or> file_at (as_disk s) q = None)"
proof -
  have "temp_of (wt_pc t) = Some q \<Longrightarrow> hidden q \<and> file_at (as_disk s) q = Some (content_of (wt_pc t))" using ok by (simp add: wtask_ok_def)
  then show ?thesis using write_effect [OF step ok] assms(3) by (elim disjE) (auto simp: outcomes)
qed

lemma write_gone:
  assumes step: "write_step env i (wt_pc t) t s = Some (t', s')" and ok: "wtask_ok env s t" and "roots_plain env"
    and q: "temp_of (wt_pc t) = Some q" "temp_of (wt_pc t') \<noteq> Some q"
  shows "file_at (as_disk s') q = None"
proof -
  have "hidden q" using ok q by (simp add: wtask_ok_def)
  then have v: "wt_target t \<noteq> q" if "\<not> at_gate (wt_pc t)"
    using gated_visible [of env t] assms(3) ok that by (auto simp: wtask_ok_def)
  from write_effect [OF step ok] show ?thesis
  proof (elim disjE)
    assume "publishes t s t' s'"
    then show ?thesis using v q by (auto simp: publishes_def)
  next
    assume "deletes t s t' s'"
    then show ?thesis using q by (auto simp: deletes_def)
  qed (use q in \<open>auto simp: outcomes\<close>)
qed

definition agent_init :: "agent_env \<Rightarrow> agent_sys \<Rightarrow> bool" where
  "agent_init env s \<longleftrightarrow> roots_plain env \<and> as_tasks s = [] \<and> (\<forall>q. hidden q \<and> file_at (as_disk s) q \<noteq> None \<longrightarrow> q \<in> as_orphans s)"

lemma agent_inv_task: "agent_inv env s \<Longrightarrow> k < length (as_tasks s) \<Longrightarrow> wtask_ok env s (as_tasks s ! k)"
  by (simp add: agent_inv_def)

lemma agent_inv_unique:
  "agent_inv env s \<Longrightarrow> j < length (as_tasks s) \<Longrightarrow> k < length (as_tasks s) \<Longrightarrow> temp_of (wt_pc (as_tasks s ! j)) = Some p \<Longrightarrow>
     temp_of (wt_pc (as_tasks s ! k)) = Some p \<Longrightarrow> j = k"
  unfolding agent_inv_def by blast

lemma agent_inv_owner:
  "agent_inv env s \<Longrightarrow> hidden q \<Longrightarrow> file_at (as_disk s) q \<noteq> None \<Longrightarrow> q \<notin> as_orphans s \<Longrightarrow> \<exists>k < length (as_tasks s). temp_of (wt_pc (as_tasks s ! k)) = Some q"
  unfolding agent_inv_def by blast

lemma agent_inv_temp:
  "agent_inv env s \<Longrightarrow> k < length (as_tasks s) \<Longrightarrow> temp_of (wt_pc (as_tasks s ! k)) = Some p \<Longrightarrow>
     hidden p \<and> file_at (as_disk s) p = Some (content_of (wt_pc (as_tasks s ! k)))"
  using agent_inv_task [of env s k] by (simp add: wtask_ok_def)

lemma agent_invI:
  assumes "roots_plain env" and "\<And>k. k < length (as_tasks s) \<Longrightarrow> wtask_ok env s (as_tasks s ! k)"
    and "\<And>j k p. j < length (as_tasks s) \<Longrightarrow> k < length (as_tasks s) \<Longrightarrow> temp_of (wt_pc (as_tasks s ! j)) = Some p \<Longrightarrow>
      temp_of (wt_pc (as_tasks s ! k)) = Some p \<Longrightarrow> j = k"
    and "\<And>q. hidden q \<Longrightarrow> file_at (as_disk s) q \<noteq> None \<Longrightarrow> q \<notin> as_orphans s \<Longrightarrow> \<exists>k < length (as_tasks s). temp_of (wt_pc (as_tasks s ! k)) = Some q"
  shows "agent_inv env s"
proof -
  have "\<forall>t \<in> set (as_tasks s). wtask_ok env s t" using assms(2) by (auto simp: in_set_conv_nth)
  then show ?thesis unfolding agent_inv_def using assms(1,3,4) by blast
qed

lemma act_inv:
  assumes inv: "agent_inv env s" and k: "k < length (as_tasks s)" and step: "write_step env i (wt_pc (as_tasks s ! k)) (as_tasks s ! k) s = Some (t', s1)"
  shows "agent_inv env (s1\<lparr>as_tasks := (as_tasks s)[k := t']\<rparr>)"
proof (rule agent_invI)
  let ?t = "as_tasks s ! k" and ?ts = "as_tasks s"
  have roots: "roots_plain env" using inv by (simp add: agent_inv_def)
  note ok = agent_inv_task [OF inv k]
  have other: "temp_of (wt_pc t') \<noteq> Some p \<and> temp_of (wt_pc ?t) \<noteq> Some p" if "j < length ?ts" "j \<noteq> k" "temp_of (wt_pc (?ts ! j)) = Some p" for j p
    using write_temp [OF step ok] agent_inv_unique [OF inv that(1) k that(3)] agent_inv_temp [OF inv that(1,3)] that(2) by force
  show "roots_plain env" by (rule roots)
  show "wtask_ok env (s1\<lparr>as_tasks := ?ts[k := t']\<rparr>) (as_tasks (s1\<lparr>as_tasks := ?ts[k := t']\<rparr>) ! j)" if "j < length (as_tasks (s1\<lparr>as_tasks := ?ts[k := t']\<rparr>))" for j
  proof (cases "j = k")
    case True
    have "\<not> at_gate (wt_pc t') \<longrightarrow> gated env t'" "progress_ok env (wt_req t') (wt_pc t')" using write_task [OF step ok] by blast+
    then show ?thesis using write_temp [OF step ok] k True by (simp add: wtask_ok_def)
  next
    case False
    have j: "j < length ?ts" using that by simp
    have "file_at (as_disk s1) p = file_at (as_disk s) p" if "temp_of (wt_pc (?ts ! j)) = Some p" for p
      using write_frame [OF step ok roots] other [OF j False that] agent_inv_temp [OF inv j that] by blast
    then show ?thesis using agent_inv_task [OF inv j] False j by (auto simp: wtask_ok_def)
  qed
  show "j = j'" if "j < length (as_tasks (s1\<lparr>as_tasks := ?ts[k := t']\<rparr>))" "j' < length (as_tasks (s1\<lparr>as_tasks := ?ts[k := t']\<rparr>))"
    "temp_of (wt_pc (as_tasks (s1\<lparr>as_tasks := ?ts[k := t']\<rparr>) ! j)) = Some p" "temp_of (wt_pc (as_tasks (s1\<lparr>as_tasks := ?ts[k := t']\<rparr>) ! j')) = Some p" for j j' p
  proof (rule ccontr)
    assume ne: "j \<noteq> j'"
    have l: "j < length ?ts" "j' < length ?ts" using that(1,2) by simp_all
    consider "j = k" "j' \<noteq> k" | "j \<noteq> k" "j' = k" | "j \<noteq> k" "j' \<noteq> k" using ne by blast
    then show False
    proof cases
      case 1
      then show False using that(3,4) k other [OF l(2) 1(2)] by simp
    next
      case 2
      then show False using that(3,4) k other [OF l(1) 2(1)] by simp
    next
      case 3
      then show False using that(3,4) agent_inv_unique [OF inv l] ne by simp
    qed
  qed
  show "\<exists>j < length (as_tasks (s1\<lparr>as_tasks := ?ts[k := t']\<rparr>)). temp_of (wt_pc (as_tasks (s1\<lparr>as_tasks := ?ts[k := t']\<rparr>) ! j)) = Some q"
    if q: "hidden q" "file_at (as_disk (s1\<lparr>as_tasks := ?ts[k := t']\<rparr>)) q \<noteq> None" "q \<notin> as_orphans (s1\<lparr>as_tasks := ?ts[k := t']\<rparr>)" for q
  proof (cases "temp_of (wt_pc t') = Some q")
    case True
    then show ?thesis using k by (intro exI [of _ k]) simp
  next
    case False
    have nt: "temp_of (wt_pc ?t) \<noteq> Some q" using write_gone [OF step ok roots _ False] q(2) by auto
    then have "file_at (as_disk s) q \<noteq> None" using write_frame [OF step ok roots q(1) nt False] q(2) by simp
    then obtain j where "j < length ?ts" "temp_of (wt_pc (?ts ! j)) = Some q" using agent_inv_owner [OF inv q(1)] q(3) write_task [OF step ok] by auto
    moreover from this have "j \<noteq> k" using nt by auto
    ultimately show ?thesis by (intro exI [of _ j]) simp
  qed
qed

lemma request_inv:
  assumes inv: "agent_inv env s" and "at_gate (wt_pc t)" and "temp_of (wt_pc t) = None" and "progress_ok env (wt_req t) (wt_pc t)"
  shows "agent_inv env (s\<lparr>as_tasks := as_tasks s @ [t]\<rparr>)"
proof (rule agent_invI)
  show "roots_plain env" using inv by (simp add: agent_inv_def)
  show "\<exists>k < length (as_tasks (s\<lparr>as_tasks := as_tasks s @ [t]\<rparr>)). temp_of (wt_pc (as_tasks (s\<lparr>as_tasks := as_tasks s @ [t]\<rparr>) ! k)) = Some q"
    if q: "hidden q" "file_at (as_disk (s\<lparr>as_tasks := as_tasks s @ [t]\<rparr>)) q \<noteq> None" "q \<notin> as_orphans (s\<lparr>as_tasks := as_tasks s @ [t]\<rparr>)" for q
  proof -
    obtain k where "k < length (as_tasks s)" "temp_of (wt_pc (as_tasks s ! k)) = Some q" using agent_inv_owner [OF inv q(1)] q(2,3) by auto
    then show ?thesis by (intro exI [of _ k]) (simp add: nth_append)
  qed
qed (use assms agent_inv_task [OF inv] agent_inv_unique [OF inv] in
    \<open>auto simp: nth_append wtask_ok_def less_Suc_eq split: if_splits\<close>)

text \<open>Accidents: a handler that is gone, with or without its temporary file, and the sweep.\<close>

lemma orphan_inv:
  assumes inv: "agent_inv env s" and k: "k < length (as_tasks s)" and e: "at_gate (wt_pc t')" "temp_of (wt_pc t') = None" "progress_ok env (wt_req t') (wt_pc t')"
    and disk: "as_disk s' = as_disk s" and o: "as_orphans s' = as_orphans s \<union> set_option (temp_of (wt_pc (as_tasks s ! k)))" and ts: "as_tasks s' = (as_tasks s)[k := t']"
  shows "agent_inv env s'"
proof (rule agent_invI)
  show "roots_plain env" using inv by (simp add: agent_inv_def)
  show "wtask_ok env s' (as_tasks s' ! j)" if "j < length (as_tasks s')" for j
    using that agent_inv_task [OF inv, of j] e k by (cases "j = k") (auto simp: ts disk wtask_ok_def)
  show "i = j" if "i < length (as_tasks s')" "j < length (as_tasks s')" "temp_of (wt_pc (as_tasks s' ! i)) = Some p" "temp_of (wt_pc (as_tasks s' ! j)) = Some p" for i j p
    using that agent_inv_unique [OF inv, of i j p] e k by (cases "i = k"; cases "j = k") (auto simp: ts)
  show "\<exists>j < length (as_tasks s'). temp_of (wt_pc (as_tasks s' ! j)) = Some q" if q: "hidden q" "file_at (as_disk s') q \<noteq> None" "q \<notin> as_orphans s'" for q
  proof -
    obtain j where j: "j < length (as_tasks s)" "temp_of (wt_pc (as_tasks s ! j)) = Some q" using agent_inv_owner [OF inv q(1)] q(2,3) by (auto simp: disk o)
    then have "j \<noteq> k" using q(3) by (auto simp: o)
    then show ?thesis using j by (intro exI [of _ j]) (simp add: ts)
  qed
qed

lemma part_files_hidden: "p \<in> set (part_files at es) \<Longrightarrow> hidden p"
  by (induction at es rule: part_files.induct) (auto simp: hidden_def split: if_splits)

lemma sweep_files:
  "file_at (sweep_share_root stuck root t) q = file_at t q \<or> hidden q \<and> file_at (sweep_share_root stuck root t) q = None"
proof -
  have "file_at (fold (\<lambda>p t. if stuck p then t else case remove_file p t of Inl _ \<Rightarrow> t | Inr t' \<Rightarrow> t') ps t) q = file_at t q \<or>
      hidden q \<and> file_at (fold (\<lambda>p t. if stuck p then t else case remove_file p t of Inl _ \<Rightarrow> t | Inr t' \<Rightarrow> t') ps t) q = None" if "\<forall>p \<in> set ps. hidden p" for ps
    using that
  proof (induction ps arbitrary: t)
    case (Cons p ps)
    let ?t = "if stuck p then t else case remove_file p t of Inl _ \<Rightarrow> t | Inr t' \<Rightarrow> t'"
    have "file_at ?t q = file_at t q \<or> hidden q \<and> file_at ?t q = None" using file_at_remove [of p t] Cons.prems by (auto split: sum.splits)
    then show ?case using Cons.IH [of ?t] Cons.prems by auto
  qed simp
  then show ?thesis using part_files_hidden by (auto simp: sweep_share_root_def split: option.splits node.splits)
qed

lemma sweeps_files:
  "file_at (fold (sweep_share_root stuck) roots t) q = file_at t q \<or> hidden q \<and> file_at (fold (sweep_share_root stuck) roots t) q = None"
proof (induction roots arbitrary: t)
  case (Cons r rs)
  then show ?case using sweep_files [of stuck r t q] unfolding fold.simps o_apply by metis
qed simp

text \<open>What the sweep finds and can remove is gone afterwards.\<close>

lemma sweep_removes:
  assumes "lookup t root = Some (Dir es)" and "p \<in> set (part_files root es)" and "\<not> stuck p"
  shows "file_at (sweep_share_root stuck root t) p = None"
proof -
  have keep: "file_at (fold (\<lambda>p t. if stuck p then t else case remove_file p t of Inl _ \<Rightarrow> t | Inr t' \<Rightarrow> t') ps t) q = None" if "file_at t q = None" for ps t q
    using that
  proof (induction ps arbitrary: t)
    case (Cons p ps)
    then show ?case using file_at_remove [of p t] by (auto split: sum.splits)
  qed simp
  have "file_at (fold (\<lambda>p t. if stuck p then t else case remove_file p t of Inl _ \<Rightarrow> t | Inr t' \<Rightarrow> t') ps t) p = None" if "p \<in> set ps" for ps t
    using that
  proof (induction ps arbitrary: t)
    case (Cons p' ps)
    show ?case
    proof (cases "p' = p")
      case True
      have "p \<noteq> []" using hidden_ne [OF part_files_hidden [OF assms(2)]] .
      then have "file_at (case remove_file p t of Inl _ \<Rightarrow> t | Inr t' \<Rightarrow> t') p = None"
        using remove_possible [of t p] file_at_remove [of p t] by (cases "file_at t p") (auto split: sum.splits)
      then show ?thesis using keep assms(3) True by simp
    qed (use Cons in auto)
  qed simp
  then show ?thesis using assms(1,2) by (simp add: sweep_share_root_def)
qed

lemma stuck_step_ok:
  assumes "stuck_step env i t s = Some (t', s')" and ok: "wtask_ok env s t"
  shows "at_gate (wt_pc t') \<and> temp_of (wt_pc t') = None \<and> progress_ok env (wt_req t') (wt_pc t') \<and> as_disk s' = as_disk s \<and> as_tasks s' = as_tasks s \<and>
    as_orphans s' = as_orphans s \<union> set_option (temp_of (wt_pc t))"
proof -
  obtain s1 tmp code why where w: "write_step env i (wt_pc t) t s = Some (t', s1)" "temp_of (wt_pc t) = Some tmp" "wt_pc t' = Replied code why"
      "s' = s1\<lparr>as_disk := as_disk s, as_orphans := insert tmp (as_orphans s)\<rparr>"
    using assms(1) by (auto simp: stuck_step_def split: option.splits prod.splits wpc.splits)
  then show ?thesis using write_task [OF w(1) ok] by simp
qed

interpretation agent: transition_system "agent_init env" "agent_step env" "agent_inv env"
proof
  fix s
  assume "agent_init env s"
  then show "agent_inv env s" by (intro agent_invI) (auto simp: agent_init_def)
next
  fix s t
  assume inv: "agent_inv env s" and "agent_step env s t"
  then obtain a where a: "agent_move env a s = Some t" by (auto simp: agent_step_def)
  show "agent_inv env t"
  proof (cases a)
    case (Act k i)
    then show ?thesis using a act_inv [OF inv] by (auto split: if_splits)
  next
    case (Warm p)
    then have "as_tasks t = as_tasks s" "as_disk t = as_disk s" "as_orphans t = as_orphans s" using a by auto
    then show ?thesis using inv by (simp add: agent_inv_def wtask_ok_def)
  next
    case (Dropped k)
    then have k: "k < length (as_tasks s)" using a by (auto split: if_splits)
    show ?thesis by (rule orphan_inv [OF inv k, where t' = "(as_tasks s ! k)\<lparr>wt_pc := Gone\<rparr>"]) (use a Dropped k in auto)
  next
    case (Stuck k i)
    then obtain t' s1 where k: "k < length (as_tasks s)" and st: "stuck_step env i (as_tasks s ! k) s = Some (t', s1)" "t = s1\<lparr>as_tasks := (as_tasks s)[k := t']\<rparr>"
      using a by (auto split: if_splits)
    show ?thesis by (rule orphan_inv [OF inv k, where t' = t']) (use stuck_step_ok [OF st(1) agent_inv_task [OF inv k]] st(2) in auto)
  next
    case (Restart roots stuck)
    then have t: "as_disk t = fold (sweep_share_root stuck) roots (as_disk s)" "as_tasks t = []" "as_orphans t = as_orphans s \<union> temps s" using a by auto
    show ?thesis
    proof (rule agent_invI)
      show "\<exists>k < length (as_tasks t). temp_of (wt_pc (as_tasks t ! k)) = Some q" if q: "hidden q" "file_at (as_disk t) q \<noteq> None" "q \<notin> as_orphans t" for q
      proof -
        have "file_at (as_disk s) q \<noteq> None" using sweeps_files [of stuck roots "as_disk s" q] q(2) t(1) by auto
        then obtain k where "k < length (as_tasks s)" "temp_of (wt_pc (as_tasks s ! k)) = Some q" using agent_inv_owner [OF inv q(1)] q(3) t(3) by auto
        then show ?thesis using q(3) t(3) by (auto simp: temps_def)
      qed
    qed (use inv t(2) in \<open>simp_all add: agent_inv_def\<close>)
  qed (use a request_inv [OF inv] in \<open>auto simp: new_task_def\<close>)
qed

section \<open>The share as a store\<close>

text \<open>
  What a reader may see happen to the shared files: nothing, the arrival of one whole upload, or the removal of one file, each by one of the handlers
  \<open>ts\<close> under way. \<open>may_write\<close> is its permission: the hub's mandate to write this share, valid at the time at which the handler checked the
  token (which it keeps in \<^const>\<open>wt_since\<close>); a share that the owner made writable; a name inside it.
\<close>

definition may_write :: "agent_env \<Rightarrow> mandate set \<Rightarrow> wtask \<Rightarrow> bool" where
  "may_write env issued t \<longleftrightarrow> (\<exists>share comps. ae_shares env (wr_share (wt_req t)) = Some share \<and> sr_writable share \<and>
     mandated issued (wr_share (wt_req t)) SCOPE_WRITE (wt_since t) \<and> wt_target t = sr_path share @ comps \<and> (\<forall>c \<in> set comps. plain_component c))"

inductive store_step :: "agent_env \<Rightarrow> mandate set \<Rightarrow> wtask list \<Rightarrow> (fpath \<rightharpoonup> bytes) \<Rightarrow> (fpath \<rightharpoonup> bytes) \<Rightarrow> bool" for env issued ts where
  store_same: "store_step env issued ts m m"
| store_put: "t \<in> set ts \<Longrightarrow> may_write env issued t \<Longrightarrow> body = body_data (wr_body (wt_req t)) \<Longrightarrow> Broken \<notin> set (wr_body (wt_req t)) \<Longrightarrow> within_cap env body \<Longrightarrow>
    sha_matches env (wr_req (wt_req t)) body \<Longrightarrow> store_step env issued ts m (m(wt_target t \<mapsto> body))"
| store_delete: "t \<in> set ts \<Longrightarrow> may_write env issued t \<Longrightarrow> store_step env issued ts m (m(wt_target t := None))"

lemma gated_may_write:
  assumes "gated env t" and u: "unforgeable (ae_crypto env) (ae_hub_key env) issued" "\<forall>x \<in> issued. mandate_plain x"
  shows "may_write env issued t"
proof -
  obtain canon where "write_gates env canon (wr_share (wt_req t)) (wr_rel (wt_req t)) (wr_req (wt_req t)) (wt_since t) = Inr (wt_target t, wt_root t)"
    using assms(1) unfolding gated_def by blast
  then obtain share where s: "ae_shares env (wr_share (wt_req t)) = Some share" "sr_writable share"
      "check_token env (wr_share (wt_req t)) SCOPE_WRITE (wr_req (wt_req t)) (wt_since t) = Inr ()"
      "resolve_within canon (sr_path share) (wr_rel (wt_req t)) = Inr (wt_target t)"
    by (rule write_gates_Inr) simp
  show ?thesis unfolding may_write_def using s(1,2) check_token_mandated [OF u s(3)] resolve_within_name [OF s(4)] by blast
qed

lemma act_refines:
  assumes inv: "agent_inv env s" and k: "k < length (as_tasks s)"
    and step: "write_step env i (wt_pc (as_tasks s ! k)) (as_tasks s ! k) s = Some (t', s1)"
    and u: "unforgeable (ae_crypto env) (ae_hub_key env) issued" "\<forall>x \<in> issued. mandate_plain x"
  shows "store_step env issued (as_tasks s) (visible s) (visible s1)"
proof -
  let ?t = "as_tasks s ! k"
  note ok = agent_inv_task [OF inv k]
  have roots: "roots_plain env" using inv by (simp add: agent_inv_def)
  have tmp: "hidden p" if "temp_of (wt_pc ?t) = Some p" for p using agent_inv_temp [OF inv k that] by simp
  have m: "?t \<in> set (as_tasks s)" using k by simp
  have g: "may_write env issued ?t \<and> \<not> hidden (wt_target ?t)" if "\<not> at_gate (wt_pc ?t)"
    using gated_may_write [OF _ u] gated_visible [OF _ roots] ok that by (auto simp: wtask_ok_def)
  from write_effect [OF step ok] show ?thesis
  proof (elim disjE)
    assume "publishes ?t s t' s1"
    then obtain p body where b: "wt_pc ?t = PutRename p body" "file_at (as_disk s1) = (file_at (as_disk s))(p := None, wt_target ?t \<mapsto> body)"
      by (auto simp: publishes_def)
    have v: "visible s1 = (visible s)(wt_target ?t \<mapsto> body)" using b g tmp [of p] by (auto simp: visible_def fun_eq_iff)
    have r: "received env (wt_req ?t) body" "sha_matches env (wr_req (wt_req ?t)) body" using ok b(1) by (auto simp: wtask_ok_def)
    show ?thesis unfolding v using r g b(1) m by (intro store_put [of ?t]) (auto simp: received_def)
  next
    assume "deletes ?t s t' s1"
    then have b: "wt_pc ?t = DelRemove" "file_at (as_disk s1) = (file_at (as_disk s))(wt_target ?t := None)" by (auto simp: deletes_def)
    have v: "visible s1 = (visible s)(wt_target ?t := None)" using b g by (auto simp: visible_def fun_eq_iff)
    show ?thesis unfolding v using g b(1) m by (intro store_delete [of ?t]) auto
  next
    assume "creates ?t s t' s1"
    then have "visible s1 = visible s" by (auto simp: visible_def fun_eq_iff creates_def)
    then show ?thesis by (simp add: store_same)
  next
    assume "extends ?t s t' s1"
    then have "visible s1 = visible s" using tmp by (auto simp: visible_def fun_eq_iff extends_def)
    then show ?thesis by (simp add: store_same)
  next
    assume "drops ?t s t' s1"
    then have "visible s1 = visible s" using tmp by (auto simp: visible_def fun_eq_iff drops_def)
    then show ?thesis by (simp add: store_same)
  next
    assume "quiet ?t s t' s1"
    then have "visible s1 = visible s" by (auto simp: visible_def fun_eq_iff quiet_def)
    then show ?thesis by (simp add: store_same)
  qed
qed

text \<open>The accidents that leave a temporary file.\<close>

fun accident :: "agent_action \<Rightarrow> bool" where
  "accident (Dropped k) = True" | "accident (Stuck k i) = True" | "accident (Restart roots stuck) = True" | "accident _ = False"

text \<open>
  C18. The agent's writable share refines an atomic store, whatever uploads and deletions run at the same time, are refused, break off, hit a full
  disk or are dropped in the middle, and whenever the agent stops and starts again: every step changes nothing that a reader can see, or publishes one
  upload under its target, or removes one file. What is published is the whole body the client sent, not longer than the owner's limit, and it has the hash the client
  declared; the handler held the hub's mandate to write that share at the time it checked the token, and the target has an ordinary name inside
  it. A temporary file, which no reader sees, belongs to an upload that is still receiving it or is an orphan, and only three accidents make orphans:
  a handler dropped by its connection, the stop of the agent, and a removal that fails.
\<close>

theorem writable_share_is_atomic_store:
  assumes "unforgeable (ae_crypto env) (ae_hub_key env) issued" and "\<forall>x \<in> issued. mandate_plain x"
    and "reach (agent_init env) (agent_step env) s" and "agent_move env a s = Some s'"
  shows "store_step env issued (as_tasks s) (visible s) (visible s') \<and>
    (\<forall>q. hidden q \<and> file_at (as_disk s') q \<noteq> None \<longrightarrow> q \<in> as_orphans s' \<or> (\<exists>t \<in> set (as_tasks s'). temp_of (wt_pc t) = Some q)) \<and>
    (as_orphans s' \<noteq> as_orphans s \<longrightarrow> accident a)"
proof (intro conjI)
  have inv: "agent_inv env s" by (rule agent.reach_inv [OF assms(3)])
  have inv': "agent_inv env s'" using agent.step_inv [OF inv] assms(4) by (auto simp: agent_step_def)
  show "\<forall>q. hidden q \<and> file_at (as_disk s') q \<noteq> None \<longrightarrow> q \<in> as_orphans s' \<or> (\<exists>t \<in> set (as_tasks s'). temp_of (wt_pc t) = Some q)"
    using agent_inv_owner [OF inv'] by (metis nth_mem)
  show "store_step env issued (as_tasks s) (visible s) (visible s')"
  proof (cases a)
    case (Act k i)
    then obtain t' s1 where "k < length (as_tasks s)" "write_step env i (wt_pc (as_tasks s ! k)) (as_tasks s ! k) s = Some (t', s1)"
        "s' = s1\<lparr>as_tasks := (as_tasks s)[k := t']\<rparr>" using assms(4) by (auto split: if_splits)
    then show ?thesis using act_refines [OF inv _ _ assms(1,2)] by simp
  next
    case (Stuck k i)
    then obtain t' s1 where k: "k < length (as_tasks s)" "stuck_step env i (as_tasks s ! k) s = Some (t', s1)" "s' = s1\<lparr>as_tasks := (as_tasks s)[k := t']\<rparr>"
      using assms(4) by (auto split: if_splits)
    then have "visible s' = visible s" using stuck_step_ok [OF k(2) agent_inv_task [OF inv k(1)]] by (simp add: visible_def fun_eq_iff)
    then show ?thesis by (simp add: store_same)
  next
    case (Restart roots stuck)
    then have "visible s' = visible s" using assms(4) sweeps_files [of stuck roots "as_disk s"] by (fastforce simp: visible_def fun_eq_iff)
    then show ?thesis by (simp add: store_same)
  next
    case (Dropped k)
    then have "visible s' = visible s" using assms(4) by (auto simp: visible_def fun_eq_iff split: if_splits)
    then show ?thesis by (simp add: store_same)
  qed (use assms(4) in \<open>auto intro: store_same\<close>)
  show "as_orphans s' \<noteq> as_orphans s \<longrightarrow> accident a"
  proof (cases a)
    case (Act k i)
    then obtain t' s1 where k: "k < length (as_tasks s)" "write_step env i (wt_pc (as_tasks s ! k)) (as_tasks s ! k) s = Some (t', s1)"
        "s' = s1\<lparr>as_tasks := (as_tasks s)[k := t']\<rparr>" using assms(4) by (auto split: if_splits)
    then show ?thesis using write_task [OF k(2) agent_inv_task [OF inv k(1)]] by simp
  qed (use assms(4) in auto)
qed

section \<open>Two writers\<close>

fun agent_run :: "agent_env \<Rightarrow> agent_action list \<Rightarrow> agent_sys \<Rightarrow> agent_sys option" where
  "agent_run env [] s = Some s"
| "agent_run env (a # as) s = Option.bind (agent_move env a s) (agent_run env as)"

lemma agent_run_append: "agent_run env (as @ bs) s = Option.bind (agent_run env as s) (agent_run env bs)"
  by (induction as arbitrary: s) (auto split: bind_split)

lemma agent_run_reach:
  assumes "reach (agent_init env) (agent_step env) s" and "agent_run env as s = Some s'"
  shows "reach (agent_init env) (agent_step env) s'"
  using assms
proof (induction as arbitrary: s)
  case (Cons a as)
  then obtain s1 where s1: "agent_move env a s = Some s1" "agent_run env as s1 = Some s'" by (auto split: bind_splits)
  then have "agent_step env s s1" by (auto simp: agent_step_def)
  then show ?case using Cons s1 by (blast intro: reach.intros)
qed simp

definition ex_put :: "bytes \<Rightarrow> (string \<times> string) list \<Rightarrow> write_request" where
  "ex_put body hs = \<lparr>wr_share = ''s1'', wr_rel = ''a'', wr_req = \<lparr>rq_headers = (''x-share-token'', ''t'') # hs, rq_query = None\<rparr>, wr_body = [Frame body]\<rparr>"

definition ex_sys :: agent_sys where
  "ex_sys = \<lparr>as_disk = Dir [(''srv'', Dir [(''a'', File [1] (Some 0))])], as_cache = Map.empty, as_origin = (\<lambda>_. Map.empty), as_tasks = [], as_orphans = {}\<rparr>"

lemma ex_gates: "write_gates ex_agent_env Some ''s1'' ''a'' \<lparr>rq_headers = (''x-share-token'', ''t'') # hs, rq_query = None\<rparr> 5 = Inr ([''srv'', ''a''], [''srv''])"
proof -
  have "resolve_within Some [''srv''] ''a'' = Inr [''srv'', ''a'']" by code_simp
  then show ?thesis using ex_check_token [of SCOPE_WRITE "\<lparr>rq_headers = (''x-share-token'', ''t'') # hs, rq_query = None\<rparr>"] ex_shares
    by (simp add: write_gates_def header_str_def)
qed

definition ex_two :: "agent_action list" where
  "ex_two = [PutRequest (ex_put [2] [(''if-match'', ''01'')]), PutRequest (ex_put [3] [(''if-match'', ''01'')]), Act 0 (Gate Some 5), Act 1 (Gate Some 5),
     Act 0 (Stamp None), Act 1 (Stamp None), Act 0 (Stamp None), Act 1 (Stamp None), Act 0 (Random 7 (Some 9)), Act 1 (Random 8 (Some 9)),
     Act 0 (Stamp (Some 9)), Act 1 (Stamp (Some 9)), Act 0 (Stamp None), Act 1 (Stamp None), Act 0 (Stamp None), Act 1 (Stamp None)]"

lemma ex_two_gate:
  "put_gate ex_agent_env Some 5 (as_disk ex_sys) (new_task (ex_put body [(''if-match'', ''01'')]) PutGate) =
     \<lparr>wt_req = ex_put body [(''if-match'', ''01'')], wt_target = [''srv'', ''a''], wt_root = [''srv''], wt_existed = True, wt_since = 5, wt_pc = PutMatch ''01''\<rparr>"
proof -
  have "if_match_hash (wr_req (ex_put body [(''if-match'', ''01'')])) = Some ''01''"
    by (simp add: ex_put_def if_match_hash_def header_str_def) code_simp
  then show ?thesis using ex_gates [of "[(''if-match'', ''01'')]"]
    by (simp add: put_gate_def new_task_def ex_put_def Let_def ex_sys_def is_dir_def is_file_def file_at_def content_length_def header_str_def)
qed

definition ex_task :: "bytes \<Rightarrow> wpc \<Rightarrow> wtask" where
  "ex_task body c = \<lparr>wt_req = ex_put body [(''if-match'', ''01'')], wt_target = [''srv'', ''a''], wt_root = [''srv''], wt_existed = True, wt_since = 5, wt_pc = c\<rparr>"

definition ex_state :: "node \<Rightarrow> hash_cache \<Rightarrow> wpc \<Rightarrow> wpc \<Rightarrow> agent_sys" where
  "ex_state d c p q = \<lparr>as_disk = d, as_cache = c, as_origin = (\<lambda>_. Map.empty), as_tasks = [ex_task [2] p, ex_task [3] q], as_orphans = {}\<rparr>"

lemma ex_names: "temp_path [''srv'', ''a''] 7 = [''srv'', ''.xr-part-0000000000000007'']" "temp_path [''srv'', ''a''] 8 = [''srv'', ''.xr-part-0000000000000008'']"
  "hex_lower [1] = ''01''" "hex_lower [2] = ''02''" "hex_lower [3] = ''03''"
  by code_simp+

lemma ex_task_sel [simp]: "wt_pc (ex_task b c) = c" "wt_target (ex_task b c) = [''srv'', ''a'']" "wt_root (ex_task b c) = [''srv'']" "wt_existed (ex_task b c)"
  "(ex_task b c)\<lparr>wt_pc := c'\<rparr> = ex_task b c'" "wr_body (wt_req (ex_task b c)) = [Frame b]" "sha_matches env (wr_req (wt_req (ex_task b c))) x"
  by (simp_all add: ex_task_def ex_put_def sha_matches_def sha_declared_def header_str_def)

lemma ex_two_start:
  "agent_run ex_agent_env (take 4 ex_two) ex_sys = Some (ex_state (as_disk ex_sys) Map.empty (PutMatch ''01'') (PutMatch ''01''))"
  using ex_two_gate [of "[2]"] ex_two_gate [of "[3]"] by (simp add: ex_two_def ex_sys_def ex_state_def ex_task_def new_task_def)

definition ex_old :: cache_entry where
  "ex_old = \<lparr>ce_size = 1, ce_mtime = 0, ce_sha256 = ''01''\<rparr>"

lemma ex_match:
  "c = Map.empty \<or> c = [[''srv'', ''a''] \<mapsto> ex_old] \<Longrightarrow>
   match_step ex_agent_env ''01'' PutMkdir (ex_task b p) (ex_state (as_disk ex_sys) c q r) = (PutMkdir, ex_state (as_disk ex_sys) [[''srv'', ''a''] \<mapsto> ex_old] q r)"
  by (auto simp: match_step_def ex_state_def cache_hash_of_def hashed_def ex_sys_def fs_metadata_def cached_def mtime_secs_def read_file_def
      seed_def ex_agent_env_def sha256_file_def ex_names ex_old_def eq_ignore_ascii_case_def)

definition ex_disk :: "(string \<times> node) list \<Rightarrow> node" where
  "ex_disk es = Dir [(''srv'', Dir es)]"

lemma ex_state_sel [simp]:
  "as_disk (ex_state d c p q) = d" "as_cache (ex_state d c p q) = c" "as_tasks (ex_state d c p q) = [ex_task [2] p, ex_task [3] q]"
  "(ex_state d c p q)\<lparr>as_disk := d'\<rparr> = ex_state d' c p q" "(ex_state d c p q)\<lparr>as_cache := c'\<rparr> = ex_state d c' p q"
  "(ex_state d c p q)\<lparr>as_tasks := [ex_task [2] p', ex_task [3] q']\<rparr> = ex_state d c p' q'"
  by (simp_all add: ex_state_def)

lemmas ex_fs = ex_disk_def is_dir_def write_file_def append_file_def read_file_def rename_file_def put_or_def fs_metadata_def

abbreviation ex_tmp :: "u64 \<Rightarrow> fpath" where
  "ex_tmp r \<equiv> temp_path [''srv'', ''a''] r"

lemma ex_two_half:
  "agent_run ex_agent_env ex_two ex_sys = Some (ex_state
     (ex_disk [(''a'', File [1] (Some 0)), (''.xr-part-0000000000000007'', File [2] (Some 9)), (''.xr-part-0000000000000008'', File [3] (Some 9))])
     [[''srv'', ''a''] \<mapsto> ex_old] (PutRename (ex_tmp 7) [2]) (PutRename (ex_tmp 8) [3]))"
proof -
  have d: "as_disk ex_sys = ex_disk [(''a'', File [1] (Some 0))]" by (simp add: ex_sys_def ex_disk_def)
  have c: "\<not> over_cap ex_agent_env n" for n by (simp add: over_cap_def cap_bytes_def ex_agent_env_def)
  have "agent_run ex_agent_env (drop 4 ex_two) (ex_state (as_disk ex_sys) Map.empty (PutMatch ''01'') (PutMatch ''01'')) = Some (ex_state
     (ex_disk [(''a'', File [1] (Some 0)), (''.xr-part-0000000000000007'', File [2] (Some 9)), (''.xr-part-0000000000000008'', File [3] (Some 9))])
     [[''srv'', ''a''] \<mapsto> ex_old] (PutRename (ex_tmp 7) [2]) (PutRename (ex_tmp 8) [3]))"
    using ex_match [of Map.empty] ex_match [of "[[''srv'', ''a''] \<mapsto> ex_old]"]
    by (simp add: ex_two_def d c Let_def body_step_def temp_free_def file_at_def ex_names ex_fs)
  then show ?thesis using agent_run_append [of ex_agent_env "take 4 ex_two" "drop 4 ex_two" ex_sys] ex_two_start by simp
qed

lemma ex_init: "agent_init ex_agent_env ex_sys"
proof -
  have "\<not> hidden [''srv'']" "\<not> hidden [''srv'', ''a'']" by (simp_all add: hidden_def UPLOAD_TEMP_PREFIX_def)
  moreover have "file_at (as_disk ex_sys) q = None" if "q \<noteq> [''srv'', ''a'']" for q
  proof (cases q)
    case (Cons k ks)
    then show ?thesis using that by (cases ks) (auto simp: ex_sys_def file_at_def)
  qed (simp add: ex_sys_def)
  moreover have "roots_plain ex_agent_env" using calculation(1) by (simp add: roots_plain_def ex_agent_env_def split: if_splits)
  moreover have "as_tasks ex_sys = []" by (simp add: ex_sys_def)
  ultimately show ?thesis unfolding agent_init_def by metis
qed

definition ex_finish :: "agent_action list" where
  "ex_finish = [Act 0 (Stamp None), Act 1 (Stamp None), Act 0 (Stamp None), Act 1 (Stamp None), Act 1 (Stamp None), Act 0 (Stamp None),
     Act 0 (Stamp None), Act 1 (Stamp None)]"

text \<open>
  What the atomic store does not give when two writers meet. Two clients upload over the same version of a file, both with that
  version's hash as \<^verbatim>\<open>If-Match\<close>. The condition is tested before the body is read and not again at the rename, so both are told of success and the first
  upload is lost without notice. And the hash that the first handler stores belongs to its own bytes, but is filed under the size and time of
  the second's file: from then on the cache, and so the listing, gives the wrong hash for the file that is there.
\<close>

theorem two_writers_lose_update_and_hash:
  "\<exists>acts s. agent_init ex_agent_env ex_sys \<and> agent_run ex_agent_env acts ex_sys = Some s \<and>
     file_at (as_disk ex_sys) [''srv'', ''a''] = Some [1] \<and> sha256_file (ae_sha ex_agent_env) [1] = ''01'' \<and>
     as_tasks s = [ex_task [2] (Replied 204 []), ex_task [3] (Replied 204 [])] \<and>
     file_at (as_disk s) [''srv'', ''a''] = Some [3] \<and>
     fst (cache_hash_of (ae_sha ex_agent_env) (as_disk s) [''srv'', ''a''] (as_cache s)) = Some (sha256_file (ae_sha ex_agent_env) [2]) \<and>
     sha256_file (ae_sha ex_agent_env) [2] \<noteq> sha256_file (ae_sha ex_agent_env) [3]"
proof -
  let ?c = "[[''srv'', ''a''] \<mapsto> \<lparr>ce_size = 1, ce_mtime = 9, ce_sha256 = ''02''\<rparr>]"
  have h: "sha256_file (ae_sha ex_agent_env) b = hex_lower b" for b by (simp add: sha256_file_def ex_agent_env_def)
  have f: "forget [''srv''] [''srv'', ''a''] (ex_state d c p q) = ex_state d c p q" for d c p q by (auto simp: forget_def ex_state_def split: option.splits)
  have "agent_run ex_agent_env ex_finish (ex_state
     (ex_disk [(''a'', File [1] (Some 0)), (''.xr-part-0000000000000007'', File [2] (Some 9)), (''.xr-part-0000000000000008'', File [3] (Some 9))])
     [[''srv'', ''a''] \<mapsto> ex_old] (PutRename (ex_tmp 7) [2]) (PutRename (ex_tmp 8) [3])) =
   Some (ex_state (ex_disk [(''a'', File [3] (Some 9))]) ?c (Replied 204 []) (Replied 204 []))"
    by (simp add: ex_finish_def Let_def ex_names ex_fs f h seed_def mtime_secs_def)
  then have r: "agent_run ex_agent_env (ex_two @ ex_finish) ex_sys = Some (ex_state (ex_disk [(''a'', File [3] (Some 9))]) ?c (Replied 204 []) (Replied 204 []))"
    using ex_two_half by (simp add: agent_run_append)
  have e: "file_at (as_disk ex_sys) [''srv'', ''a''] = Some [1]" by (simp add: ex_sys_def file_at_def)
  show ?thesis
    by (rule exI [of _ "ex_two @ ex_finish"], rule exI, intro conjI, rule ex_init, rule r, rule e)
      (simp_all add: h ex_names file_at_def ex_fs cache_hash_of_def hashed_def cached_def mtime_secs_def)
qed

theorem writable_share_is_atomic_store_witness:
  "\<exists>s s'. agent_run ex_agent_env ex_two ex_sys = Some s \<and> agent_move ex_agent_env (Act 0 (Stamp None)) s = Some s' \<and>
     visible s [''srv'', ''a''] = Some [1] \<and> visible s' [''srv'', ''a''] = Some [2] \<and>
     store_step ex_agent_env {MShare ''s1'' ''share:read share:write'' 10} (as_tasks s) (visible s) (visible s')"
proof -
  have u: "unforgeable (ae_crypto ex_agent_env) (ae_hub_key ex_agent_env) {MShare ''s1'' ''share:read share:write'' 10}"
    by (simp add: unforgeable_def ex_agent_env_def example_crypto_def ex_read_verify_def)
  have p: "\<forall>x \<in> {MShare ''s1'' ''share:read share:write'' 10}. mandate_plain x" by (simp add: plain_def)
  let ?s = "ex_state
     (ex_disk [(''a'', File [1] (Some 0)), (''.xr-part-0000000000000007'', File [2] (Some 9)), (''.xr-part-0000000000000008'', File [3] (Some 9))])
     [[''srv'', ''a''] \<mapsto> ex_old] (PutRename (ex_tmp 7) [2]) (PutRename (ex_tmp 8) [3])"
  let ?t = "ex_state (ex_disk [(''a'', File [2] (Some 9)), (''.xr-part-0000000000000008'', File [3] (Some 9))])
     [[''srv'', ''a''] \<mapsto> ex_old] (PutStat [2]) (PutRename (ex_tmp 8) [3])"
  have r: "reach (agent_init ex_agent_env) (agent_step ex_agent_env) ?s"
    using agent_run_reach [OF reach.intros(1) ex_two_half] ex_init by blast
  have m: "agent_move ex_agent_env (Act 0 (Stamp None)) ?s = Some ?t" by (simp add: Let_def ex_names ex_fs)
  from writable_share_is_atomic_store [OF u p r m] m ex_two_half show ?thesis
    by (intro exI [of _ ?s] exI [of _ ?t]) (simp add: visible_def hidden_def UPLOAD_TEMP_PREFIX_def file_at_def ex_disk_def del: agent_move.simps)
qed

end
