(* ===== verification/Agent_Listing.thy ===== *)
theory Agent_Listing
  imports Agent_Write
begin

text \<open>
  What the share agent lists (\<^verbatim>\<open>xr-share/src/manifest.rs\<close>) and the origin index of imported files (\<^verbatim>\<open>xr-share/src/meta.rs\<close>): the walk that leaves
  out the reserved names, the listing with cached hashes, the manifest that the warmer builds, the lines a plugin leaves about its files,
  the names that give away a link, and the pass over a share at start-up. The JSON of the index and the unreadable
  directory are left out; the order of a directory is the order of its list.

  The theorems: of the files that are reached without a link a reader can fetch exactly those that are listed; a warmed cache makes the quick listing equal to the full manifest, with
  the true hashes; the pass at start-up keeps what is known, drops what is gone, and changes nothing the second time.
\<close>

section \<open>The walk\<close>

definition is_reserved :: "string \<Rightarrow> bool" where
  "is_reserved nm = starts_with nm RESERVED_PREFIX"

function walk_entries :: "fpath \<Rightarrow> (string \<times> node) list \<Rightarrow> (fpath \<times> bytes \<times> int option) list" where
  "walk_entries rel [] = []"
| "walk_entries rel ((nm, Symlink) # es) = walk_entries rel es"
| "walk_entries rel ((nm, Dir ds) # es) = (if is_reserved nm then [] else walk_entries (rel @ [nm]) ds) @ walk_entries rel es"
| "walk_entries rel ((nm, File c m) # es) = (if is_reserved nm then [] else [(rel @ [nm], c, m)]) @ walk_entries rel es"
  by pat_completeness auto
termination
  by (relation "measure (\<lambda>(rel, es). size_list (size_prod (\<lambda>_. 0) size) es)") auto

definition walk_share :: "node \<Rightarrow> fpath \<Rightarrow> fs_error + (fpath \<times> bytes \<times> int option) list" where
  "walk_share t root = (case lookup t root of
      Some (Dir es) \<Rightarrow> Inr (walk_entries [] es)
    | Some (File c m) \<Rightarrow> Inr [([], c, m)]
    | _ \<Rightarrow> Inl NotFound)"

section \<open>Listings\<close>

type_synonym origin_index = "string \<rightharpoonup> file_meta"

text \<open>One entry: \<open>sha_of\<close> gives the hash, from the cache alone or by reading the file.\<close>

definition list_file ::
  "(fpath \<Rightarrow> u64 \<Rightarrow> int \<Rightarrow> hash_cache \<Rightarrow> string option \<times> hash_cache) \<Rightarrow> fpath \<Rightarrow> fpath \<times> bytes \<times> int option \<Rightarrow>
     share_entry list \<times> origin_index \<times> hash_cache \<Rightarrow> (share_entry list \<times> origin_index \<times> hash_cache) option" where
  "list_file sha_of root f acc = (case (f, acc) of ((rel, content, m), (entries, origin, cache)) \<Rightarrow>
     let key = rel_slash rel; len = of_nat (length content); mtime = mtime_secs m in
     (case sha_of (root @ rel) len mtime cache of
        (None, cache') \<Rightarrow> None
      | (Some h, cache') \<Rightarrow> Some (entries @ [\<lparr>se_path = key, se_size = len, se_mtime = mtime, se_sha256 = h, se_meta = origin key\<rparr>],
          origin(key := None), cache')))"

fun list_files ::
  "(fpath \<Rightarrow> u64 \<Rightarrow> int \<Rightarrow> hash_cache \<Rightarrow> string option \<times> hash_cache) \<Rightarrow> fpath \<Rightarrow> (fpath \<times> bytes \<times> int option) list \<Rightarrow>
     share_entry list \<times> origin_index \<times> hash_cache \<Rightarrow> (share_entry list \<times> origin_index \<times> hash_cache) option" where
  "list_files sha_of root [] acc = Some acc"
| "list_files sha_of root (f # fs) acc = (case list_file sha_of root f acc of None \<Rightarrow> None | Some acc' \<Rightarrow> list_files sha_of root fs acc')"

definition build_with ::
  "(fpath \<Rightarrow> u64 \<Rightarrow> int \<Rightarrow> hash_cache \<Rightarrow> string option \<times> hash_cache) \<Rightarrow> node \<Rightarrow> fpath \<Rightarrow> origin_index \<Rightarrow> hash_cache \<Rightarrow> (share_entry list \<times> hash_cache) option" where
  "build_with sha_of t root origin cache = (case walk_share t root of
      Inl _ \<Rightarrow> None
    | Inr files \<Rightarrow> map_option (\<lambda>(entries, _, cache'). (sort_key se_path entries, cache')) (list_files sha_of root files ([], origin, cache)))"

definition build_manifest :: "(bytes \<Rightarrow> bytes) \<Rightarrow> node \<Rightarrow> fpath \<Rightarrow> origin_index \<Rightarrow> hash_cache \<Rightarrow> (share_entry list \<times> hash_cache) option" where
  "build_manifest sha t root origin cache = build_with (hashed sha t) t root origin cache"

definition cached_only :: "fpath \<Rightarrow> u64 \<Rightarrow> int \<Rightarrow> hash_cache \<Rightarrow> string option \<times> hash_cache" where
  "cached_only path len mtime c = (Some (case cached path len mtime c of None \<Rightarrow> [] | Some h \<Rightarrow> h), c)"

definition build_listing :: "node \<Rightarrow> fpath \<Rightarrow> origin_index \<Rightarrow> hash_cache \<Rightarrow> share_entry list option" where
  "build_listing t root origin cache = map_option fst (build_with cached_only t root origin cache)"

text \<open>A share that is a single file.\<close>

definition one_entry :: "(fpath \<Rightarrow> u64 \<Rightarrow> int \<Rightarrow> hash_cache \<Rightarrow> string option \<times> hash_cache) \<Rightarrow> node \<Rightarrow> fpath \<Rightarrow> hash_cache \<Rightarrow> (share_entry \<times> hash_cache) option" where
  "one_entry sha_of t path cache = (case lookup t path of
      Some (File c m) \<Rightarrow>
        (if path = [] then None
         else let len = of_nat (length c); mtime = mtime_secs m in
           (case sha_of path len mtime cache of
              (None, _) \<Rightarrow> None
            | (Some h, cache') \<Rightarrow> Some (\<lparr>se_path = last path, se_size = len, se_mtime = mtime, se_sha256 = h, se_meta = None\<rparr>, cache')))
    | _ \<Rightarrow> None)"

definition build_listing_for_file :: "node \<Rightarrow> fpath \<Rightarrow> hash_cache \<Rightarrow> share_entry list option" where
  "build_listing_for_file t path cache = map_option (\<lambda>(e, _). [e]) (one_entry cached_only t path cache)"

definition build_manifest_for_file :: "(bytes \<Rightarrow> bytes) \<Rightarrow> node \<Rightarrow> fpath \<Rightarrow> hash_cache \<Rightarrow> (share_entry list \<times> hash_cache) option" where
  "build_manifest_for_file sha t path cache = map_option (\<lambda>(e, c). ([e], c)) (one_entry (hashed sha t) t path cache)"

definition share_listing :: "node \<Rightarrow> (fpath \<Rightarrow> origin_index) \<Rightarrow> share_root \<Rightarrow> hash_cache \<Rightarrow> share_entry list option" where
  "share_listing t load share cache =
     (if sr_is_file share then build_listing_for_file t (sr_path share) cache else build_listing t (sr_path share) (load (sr_path share)) cache)"

text \<open>\<^verbatim>\<open>manifest_response\<close> up to the JSON: the gate, then the listing.\<close>

definition manifest_response :: "agent_env \<Rightarrow> node \<Rightarrow> (fpath \<Rightarrow> origin_index) \<Rightarrow> hash_cache \<Rightarrow> string \<Rightarrow> agent_request \<Rightarrow> u64 \<Rightarrow> refusal + share_entry list" where
  "manifest_response env t load cache share_id req now = (case ae_shares env share_id of
      None \<Rightarrow> Inl (404, ''no such share'')
    | Some share \<Rightarrow> (case check_token env share_id SCOPE_READ req now of
          Inl e \<Rightarrow> Inl e
        | Inr _ \<Rightarrow> (case share_listing t load share cache of None \<Rightarrow> Inl (500, ''manifest error'') | Some entries \<Rightarrow> Inr entries)))"

section \<open>Listed and fetched\<close>

definition unreserved :: "fpath \<Rightarrow> bool" where
  "unreserved q \<longleftrightarrow> q \<noteq> [] \<and> list_all (\<lambda>c. \<not> is_reserved c) q"

lemma unreserved_Cons: "unreserved (k # q) \<longleftrightarrow> \<not> is_reserved k \<and> (q = [] \<or> unreserved q)"
  by (auto simp: unreserved_def)

lemma walk_entries_set:
  "node_ok (Dir es) \<Longrightarrow> (p, c, m) \<in> set (walk_entries rel es) \<longleftrightarrow> (\<exists>q. p = rel @ q \<and> lookup (Dir es) q = Some (File c m) \<and> unreserved q)"
proof (induction rel es arbitrary: p c m rule: walk_entries.induct)
  case (1 rel)
  then show ?case by (auto simp: unreserved_def neq_Nil_conv)
next
  case (2 rel nm es)
  have "map_of es nm = None" using "2.prems" by (auto simp: map_of_eq_None_iff)
  then have "lookup (Dir ((nm, Symlink) # es)) q = Some (File c m) \<longleftrightarrow> lookup (Dir es) q = Some (File c m)" for q
    by (cases q) auto
  then show ?case using 2 by simp
next
  case (3 rel nm ds es)
  have nm: "map_of es nm = None" using "3.prems" by (auto simp: map_of_eq_None_iff)
  have look: "lookup (Dir ((nm, Dir ds) # es)) q = Some (File c m) \<and> unreserved q \<longleftrightarrow>
      (\<exists>q'. q = nm # q' \<and> \<not> is_reserved nm \<and> lookup (Dir ds) q' = Some (File c m) \<and> unreserved q') \<or> lookup (Dir es) q = Some (File c m) \<and> unreserved q" for q
  proof (cases q)
    case (Cons a q')
    then show ?thesis using nm by (cases q') (auto simp: unreserved_Cons)
  qed (simp add: unreserved_def)
  have sub: "(p, c, m) \<in> set (walk_entries (rel @ [nm]) ds) \<longleftrightarrow> (\<exists>q. p = rel @ nm # q \<and> lookup (Dir ds) q = Some (File c m) \<and> unreserved q)"
    if "\<not> is_reserved nm" using "3.IH"(1) [OF that, of p c m] "3.prems" by simp
  have rest: "(p, c, m) \<in> set (walk_entries rel es) \<longleftrightarrow> (\<exists>q. p = rel @ q \<and> lookup (Dir es) q = Some (File c m) \<and> unreserved q)"
    using "3.IH"(2) [of p c m] "3.prems" by simp
  show ?case
  proof (cases "is_reserved nm")
    case True
    then show ?thesis unfolding look using rest by simp
  next
    case False
    then have w: "walk_entries rel ((nm, Dir ds) # es) = walk_entries (rel @ [nm]) ds @ walk_entries rel es" by simp
    show ?thesis unfolding w look set_append Un_iff sub [OF False] rest using False by blast
  qed
next
  case (4 rel nm c' m' es)
  have nm: "map_of es nm = None" using "4.prems" by (auto simp: map_of_eq_None_iff)
  have "lookup (Dir ((nm, File c' m') # es)) q = Some (File c m) \<and> unreserved q \<longleftrightarrow>
      q = [nm] \<and> c = c' \<and> m = m' \<and> \<not> is_reserved nm \<or> lookup (Dir es) q = Some (File c m) \<and> unreserved q" for q
  proof (cases q)
    case (Cons a q')
    then show ?thesis using nm by (cases q') (auto simp: unreserved_Cons)
  qed (simp add: unreserved_def)
  moreover have "(p, c, m) \<in> set (walk_entries rel es) \<longleftrightarrow> (\<exists>q. p = rel @ q \<and> lookup (Dir es) q = Some (File c m) \<and> unreserved q)"
    using "4.IH" [of p c m] "4.prems" by simp
  ultimately show ?case by auto
qed

text \<open>A run of \<open>list_files\<close> gives one entry per file, in order.\<close>

definition entry_for :: "string \<Rightarrow> file_meta option \<Rightarrow> fpath \<times> bytes \<times> int option \<Rightarrow> share_entry" where
  "entry_for h meta f = (case f of (rel, content, m) \<Rightarrow>
     \<lparr>se_path = rel_slash rel, se_size = of_nat (length content), se_mtime = mtime_secs m, se_sha256 = h, se_meta = meta\<rparr>)"

lemma list_files_entries:
  "list_files sha_of root fs (es, origin, c) = Some (es', origin', c') \<Longrightarrow>
     \<exists>new. es' = es @ new \<and> list_all2 (\<lambda>e f. \<exists>h meta. e = entry_for h meta f) new fs"
proof (induction fs arbitrary: es origin c)
  case (Cons f fs)
  obtain rel content m where f: "f = (rel, content, m)" by (cases f)
  obtain h c1 where h: "sha_of (root @ rel) (of_nat (length content)) (mtime_secs m) c = (Some h, c1)"
    using Cons.prems by (cases "sha_of (root @ rel) (of_nat (length content)) (mtime_secs m) c") (auto simp: f list_file_def Let_def split: option.splits)
  obtain new where "es' = (es @ [entry_for h (origin (rel_slash rel)) f]) @ new" "list_all2 (\<lambda>e f. \<exists>h meta. e = entry_for h meta f) new fs"
    using Cons.IH Cons.prems h by (fastforce simp: f list_file_def Let_def entry_for_def)
  then show ?case by (intro exI [of _ "entry_for h (origin (rel_slash rel)) f # new"]) auto
qed simp

lemma list_all2_set1: "list_all2 R xs ys \<Longrightarrow> x \<in> set xs \<Longrightarrow> \<exists>y \<in> set ys. R x y"
  by (induction rule: list_all2_induct) auto

lemma list_all2_set2: "list_all2 R xs ys \<Longrightarrow> y \<in> set ys \<Longrightarrow> \<exists>x \<in> set xs. R x y"
  by (induction rule: list_all2_induct) auto

lemma cached_only_total: "\<exists>es' origin' c'. list_files cached_only root fs (es, origin, c) = Some (es', origin', c')"
proof (induction fs arbitrary: es origin c)
  case (Cons f fs)
  then show ?case by (cases f) (simp add: list_file_def cached_only_def Let_def)
qed simp

lemma build_listing_entries:
  assumes "lookup t root = Some (Dir es)"
  obtains entries where "build_listing t root origin cache = Some entries" and "sorted (map se_path entries)"
    and "\<And>e. e \<in> set entries \<Longrightarrow> \<exists>f \<in> set (walk_entries [] es). \<exists>h meta. e = entry_for h meta f"
    and "\<And>f. f \<in> set (walk_entries [] es) \<Longrightarrow> \<exists>e \<in> set entries. \<exists>h meta. e = entry_for h meta f"
proof -
  obtain out origin' c' where l: "list_files cached_only root (walk_entries [] es) ([], origin, cache) = Some (out, origin', c')"
    using cached_only_total by blast
  then have a: "list_all2 (\<lambda>e f. \<exists>h meta. e = entry_for h meta f) out (walk_entries [] es)" using list_files_entries by fastforce
  have b: "build_listing t root origin cache = Some (sort_key se_path out)" using assms l by (simp add: build_listing_def build_with_def walk_share_def)
  show thesis by (rule that [OF b]) (use list_all2_set1 [OF a] list_all2_set2 [OF a] in auto)
qed

text \<open>
  \<^verbatim>\<open>canonicalize\<close> asks the system, and where a link leads is not in the tree: what the routes rely on is only that the path of something that is
  reached without a link is its own canonical path. A path through a link may resolve to anything, or not at all.
\<close>

definition canon_plain :: "node \<Rightarrow> canonicalize \<Rightarrow> bool" where
  "canon_plain t canon \<longleftrightarrow> (\<forall>p n. lookup t p = Some n \<and> n \<noteq> Symlink \<longrightarrow> canon p = Some p)"

lemma safe_components_plain: "list_all (\<lambda>c. name_ok c \<and> \<not> is_reserved c) comps \<Longrightarrow> safe_components comps safe = Inr (safe @ comps)"
  by (induction comps arbitrary: safe) (auto simp: name_ok_def is_reserved_def)

text \<open>
  C11. The listing and the routes agree on the files that are reached without a link. Every listed name leads the file route to a file of the listed size
  inside the share (unless it contains a backslash or a zero byte, which the route refuses); and whatever path the route accepts that leads to a file
  without passing a symbolic link, in any spelling, is listed under its plain name. No reserved name, temporary file or job directory is ever
  among them. The entries are sorted by name. (Wherever links lead: they are never listed, while the route follows one that stays inside the share, so
  a file can also be fetched under names that pass a link and are not listed.)
\<close>

theorem listed_is_fetchable:
  assumes "node_ok t" and root: "lookup t root = Some (Dir es)" and l: "build_listing t root origin cache = Some entries"
    and plain: "canon_plain t canon"
  shows "sorted (map se_path entries) \<and>
    (e \<in> set entries \<and> CHR 0x5C \<notin> set (se_path e) \<and> CHR 0x00 \<notin> set (se_path e) \<longrightarrow>
       (\<exists>p c. resolve_within canon root (se_path e) = Inr p \<and> file_at t p = Some c \<and> se_size e = of_nat (length c))) \<and>
    (resolve_within canon root requested = Inr p \<and> file_at t p = Some c \<longrightarrow>
       (\<exists>e \<in> set entries. p = root @ split_on CHR ''/'' (se_path e) \<and> se_size e = of_nat (length c) \<and> list_all (\<lambda>k. \<not> is_reserved k) (split_on CHR ''/'' (se_path e))))"
proof -
  obtain entries' where b: "build_listing t root origin cache = Some entries'" "sorted (map se_path entries')"
      "\<And>e. e \<in> set entries' \<Longrightarrow> \<exists>f \<in> set (walk_entries [] es). \<exists>h meta. e = entry_for h meta f"
      "\<And>f. f \<in> set (walk_entries [] es) \<Longrightarrow> \<exists>e \<in> set entries'. \<exists>h meta. e = entry_for h meta f"
    by (rule build_listing_entries [OF root]) blast
  then have "entries' = entries" using l by simp
  note b = b [unfolded this]
  have es: "node_ok (Dir es)" using node_ok_lookup [OF assms(1) root] .
  have canon: "canon root = Some root" using root plain unfolding canon_plain_def by blast
  have names: "list_all name_ok q \<and> q \<noteq> [] \<and> split_on CHR ''/'' (rel_slash q) = q" if "lookup (Dir es) q = Some (File c m)" for q c m
    using that node_ok_names [OF es, of q] rel_slash_cs [of q] by (cases q) auto
  have one: "\<exists>p c. resolve_within canon root (se_path e) = Inr p \<and> file_at t p = Some c \<and> se_size e = of_nat (length c)"
    if e: "e \<in> set entries" "CHR 0x5C \<notin> set (se_path e)" "CHR 0x00 \<notin> set (se_path e)"
  proof -
    obtain q c m h meta where f: "(q, c, m) \<in> set (walk_entries [] es)" "e = entry_for h meta (q, c, m)" using b(3) [OF e(1)] by auto
    then have q: "lookup (Dir es) q = Some (File c m)" "unreserved q" using walk_entries_set [OF es, of q c m "[]"] by auto
    have "safe_components (split_on CHR ''/'' (se_path e)) [] = Inr q"
      using safe_components_plain [of q "[]"] names [OF q(1)] q(2) f(2) by (simp add: entry_for_def unreserved_def list_all_iff)
    moreover have "canon (root @ q) = Some (root @ q)" using root q(1) plain by (simp add: canon_plain_def lookup_append)
    ultimately have "resolve_within canon root (se_path e) = Inr (root @ q)" using e(2,3) canon by (simp add: resolve_within_def probe_ancestors.simps [of canon root "root @ q"])
    moreover have "file_at t (root @ q) = Some c" using root q(1) by (simp add: file_at_def lookup_append)
    ultimately show ?thesis using f(2) by (auto simp: entry_for_def)
  qed
  have two: "\<exists>e \<in> set entries. p = root @ split_on CHR ''/'' (se_path e) \<and> se_size e = of_nat (length c) \<and> list_all (\<lambda>k. \<not> is_reserved k) (split_on CHR ''/'' (se_path e))"
    if r: "resolve_within canon root requested = Inr p" "file_at t p = Some c"
  proof -
    obtain comps where p: "p = root @ comps" "\<forall>k \<in> set comps. plain_component k" using resolve_within_name [OF r(1)] by blast
    obtain m where q: "lookup (Dir es) comps = Some (File c m)" using r(2) root p(1) by (auto simp: file_at_def lookup_append split: option.splits node.splits)
    have u: "unreserved comps" using p(2) names [OF q] by (auto simp: unreserved_def list_all_iff plain_component_def is_reserved_def)
    then have "(comps, c, m) \<in> set (walk_entries [] es)" using walk_entries_set [OF es, of comps c m "[]"] q by simp
    then obtain e h meta where "e \<in> set entries" "e = entry_for h meta (comps, c, m)" using b(4) by blast
    then show ?thesis using p(1) names [OF q] u by (intro bexI [of _ e]) (auto simp: entry_for_def unreserved_def)
  qed
  show ?thesis using b(2) one two by blast
qed

section \<open>Warming\<close>

text \<open>The cache tells the truth about the disk as it is; a file is warm when the cache knows it.\<close>

definition cache_coherent :: "(bytes \<Rightarrow> bytes) \<Rightarrow> node \<Rightarrow> hash_cache \<Rightarrow> bool" where
  "cache_coherent sha t c \<longleftrightarrow> (\<forall>p content m h. lookup t p = Some (File content m) \<and> cached p (of_nat (length content)) (mtime_secs m) c = Some h \<longrightarrow> h = sha256_file sha content)"

definition warm :: "(bytes \<Rightarrow> bytes) \<Rightarrow> hash_cache \<Rightarrow> fpath \<Rightarrow> bytes \<Rightarrow> int option \<Rightarrow> bool" where
  "warm sha c p content m \<longleftrightarrow> cached p (of_nat (length content)) (mtime_secs m) c = Some (sha256_file sha content)"

lemma cached_seed: "cached p len mt (seed q len' mt' h c) = (if p = q then (if len = len' \<and> mt = mt' then Some h else None) else cached p len mt c)"
  by (auto simp: cached_def seed_def)

lemma hashed_file:
  assumes "lookup t p = Some (File content m)" and "cache_coherent sha t c"
  obtains c' where "hashed sha t p (of_nat (length content)) (mtime_secs m) c = (Some (sha256_file sha content), c')" and "cache_coherent sha t c'"
    and "warm sha c' p content m" and "\<And>q b n. lookup t q = Some (File b n) \<Longrightarrow> warm sha c q b n \<Longrightarrow> warm sha c' q b n"
proof (cases "cached p (of_nat (length content)) (mtime_secs m) c")
  case (Some h)
  then have "h = sha256_file sha content" using assms unfolding cache_coherent_def by blast
  then show thesis using that [of c] Some assms(2) by (simp add: hashed_def warm_def)
next
  case None
  let ?c = "seed p (of_nat (length content)) (mtime_secs m) (sha256_file sha content) c"
  have h: "hashed sha t p (of_nat (length content)) (mtime_secs m) c = (Some (sha256_file sha content), ?c)"
    using None assms(1) by (simp add: hashed_def read_file_def)
  have coh: "cache_coherent sha t ?c"
    unfolding cache_coherent_def
  proof (intro allI impI, elim conjE)
    fix q b n k
    assume q: "lookup t q = Some (File b n)" "cached q (of_nat (length b)) (mtime_secs n) ?c = Some k"
    show "k = sha256_file sha b"
    proof (cases "q = p")
      case True
      then show ?thesis using q assms(1) by (simp add: cached_seed split: if_splits)
    next
      case False
      then show ?thesis using q assms(2) unfolding cache_coherent_def by (metis cached_seed)
    qed
  qed
  have old: "warm sha ?c q b n" if "lookup t q = Some (File b n)" "warm sha c q b n" for q b n
    using that assms(1) by (cases "q = p") (auto simp: warm_def cached_seed)
  have new: "warm sha ?c p content m" by (simp add: warm_def cached_seed)
  show thesis by (rule that [OF h coh new old])
qed

fun true_entries :: "(bytes \<Rightarrow> bytes) \<Rightarrow> (fpath \<times> bytes \<times> int option) list \<Rightarrow> origin_index \<Rightarrow> share_entry list" where
  "true_entries sha [] origin = []"
| "true_entries sha ((rel, content, m) # fs) origin =
     entry_for (sha256_file sha content) (origin (rel_slash rel)) (rel, content, m) # true_entries sha fs (origin(rel_slash rel := None))"

lemma manifest_run:
  assumes "\<forall>(rel, b, m) \<in> set fs. lookup t (root @ rel) = Some (File b m)" and "cache_coherent sha t c"
  shows "\<exists>o' c'. list_files (hashed sha t) root fs (es, origin, c) = Some (es @ true_entries sha fs origin, o', c') \<and> cache_coherent sha t c' \<and>
    (\<forall>q b n. lookup t q = Some (File b n) \<and> warm sha c q b n \<longrightarrow> warm sha c' q b n) \<and> (\<forall>(rel, b, m) \<in> set fs. warm sha c' (root @ rel) b m)"
  using assms
proof (induction fs arbitrary: es origin c)
  case (Cons f fs)
  obtain rel b m where f: "f = (rel, b, m)" by (cases f)
  have p: "lookup t (root @ rel) = Some (File b m)" using Cons.prems(1) f by simp
  obtain c1 where c1: "hashed sha t (root @ rel) (of_nat (length b)) (mtime_secs m) c = (Some (sha256_file sha b), c1)" "cache_coherent sha t c1"
      "warm sha c1 (root @ rel) b m" "\<And>q b n. lookup t q = Some (File b n) \<Longrightarrow> warm sha c q b n \<Longrightarrow> warm sha c1 q b n"
    by (rule hashed_file [OF p Cons.prems(2)]) blast
  have fs: "\<forall>(rel, b, m) \<in> set fs. lookup t (root @ rel) = Some (File b m)" using Cons.prems(1) by auto
  obtain o' c' where r: "list_files (hashed sha t) root fs (es @ [entry_for (sha256_file sha b) (origin (rel_slash rel)) f], origin(rel_slash rel := None), c1) =
        Some ((es @ [entry_for (sha256_file sha b) (origin (rel_slash rel)) f]) @ true_entries sha fs (origin(rel_slash rel := None)), o', c')" "cache_coherent sha t c'"
      "\<forall>q b n. lookup t q = Some (File b n) \<and> warm sha c1 q b n \<longrightarrow> warm sha c' q b n" "\<forall>(rel, b, m) \<in> set fs. warm sha c' (root @ rel) b m"
    using Cons.IH [OF fs c1(2)] by blast
  have "list_files (hashed sha t) root (f # fs) (es, origin, c) = Some (es @ true_entries sha (f # fs) origin, o', c')"
    using r(1) c1(1) by (simp add: f list_file_def entry_for_def Let_def)
  moreover have "warm sha c' (root @ rel) b m" using r(3) p c1(3) by blast
  ultimately show ?case using r(2-4) c1(4) f by auto
qed simp

lemma listing_run:
  assumes "\<forall>(rel, b, m) \<in> set fs. warm sha c (root @ rel) b m"
  shows "\<exists>o'. list_files cached_only root fs (es, origin, c) = Some (es @ true_entries sha fs origin, o', c)"
  using assms
proof (induction fs arbitrary: es origin)
  case (Cons f fs)
  obtain rel b m where f: "f = (rel, b, m)" by (cases f)
  have "cached_only (root @ rel) (of_nat (length b)) (mtime_secs m) c = (Some (sha256_file sha b), c)"
    using Cons.prems by (simp add: f warm_def cached_only_def)
  moreover obtain o' where "list_files cached_only root fs (es @ [entry_for (sha256_file sha b) (origin (rel_slash rel)) f], origin(rel_slash rel := None), c) =
      Some ((es @ [entry_for (sha256_file sha b) (origin (rel_slash rel)) f]) @ true_entries sha fs (origin(rel_slash rel := None)), o', c)"
    using Cons.IH [of "es @ [entry_for (sha256_file sha b) (origin (rel_slash rel)) f]" "origin(rel_slash rel := None)"] Cons.prems by (auto simp del: fun_upd_apply)
  ultimately show ?case by (simp add: f list_file_def entry_for_def Let_def)
qed simp

lemma true_entries_sha: "e \<in> set (true_entries sha fs origin) \<Longrightarrow> \<exists>f \<in> set fs. \<exists>meta. e = entry_for (sha256_file sha (fst (snd f))) meta f"
  by (induction sha fs origin rule: true_entries.induct) auto

text \<open>
  C21. Warming makes the quick listing complete. Starting from a cache that tells the truth, the warmer's pass over a share succeeds, leaves a cache that
  tells the truth, and from then on, until a file changes, the listing that never reads a file is the full manifest: the same entries, and every
  one carries the SHA-256 of the file that is there.
\<close>

theorem warmed_listing_is_manifest:
  assumes "node_ok t" and root: "lookup t root = Some (Dir es)" and "cache_coherent sha t cache"
  shows "\<exists>entries cache'. build_manifest sha t root origin cache = Some (entries, cache') \<and> cache_coherent sha t cache' \<and>
    build_listing t root origin cache' = Some entries \<and>
    (\<forall>e \<in> set entries. \<exists>q c. file_at t (root @ q) = Some c \<and> se_path e = rel_slash q \<and> se_sha256 e = sha256_file sha c)"
proof -
  have es: "node_ok (Dir es)" by (rule node_ok_lookup [OF assms(1) root])
  have files: "\<forall>(rel, b, m) \<in> set (walk_entries [] es). lookup t (root @ rel) = Some (File b m)"
    using walk_entries_set [OF es, of _ _ _ "[]"] root by (auto simp: lookup_append)
  obtain o' c' where m: "list_files (hashed sha t) root (walk_entries [] es) ([], origin, cache) = Some (true_entries sha (walk_entries [] es) origin, o', c')"
      "cache_coherent sha t c'" "\<forall>(rel, b, m) \<in> set (walk_entries [] es). warm sha c' (root @ rel) b m"
    using manifest_run [OF files assms(3), of "[]" origin] by auto
  have w: "walk_share t root = Inr (walk_entries [] es)" using root by (simp add: walk_share_def)
  let ?es = "sort_key se_path (true_entries sha (walk_entries [] es) origin)"
  have "build_manifest sha t root origin cache = Some (?es, c')" using w m(1) by (simp add: build_manifest_def build_with_def)
  moreover have "build_listing t root origin c' = Some ?es"
    using w listing_run [OF m(3), of "[]" origin] by (auto simp: build_listing_def build_with_def)
  moreover have "\<exists>q c. file_at t (root @ q) = Some c \<and> se_path e = rel_slash q \<and> se_sha256 e = sha256_file sha c" if e: "e \<in> set ?es" for e
  proof -
    obtain q c mt meta where f: "(q, c, mt) \<in> set (walk_entries [] es)" "e = entry_for (sha256_file sha c) meta (q, c, mt)"
      using true_entries_sha [of e sha "walk_entries [] es" origin] e by auto
    then have "file_at t (root @ q) = Some c" using files by (auto simp: file_at_def)
    then show ?thesis using f(2) by (auto simp: entry_for_def)
  qed
  ultimately show ?thesis using m(2) by blast
qed

section \<open>A concrete share\<close>

definition ex_tree :: node where
  "ex_tree = Dir [(''s'', Dir [(''b'', File [1] (Some 5)), (''.xr-part-1'', File [9] (Some 5)), (''a'', Dir [(''c'', File [2, 3] None)]), (''l'', Symlink)])]"

text \<open>The link \<^verbatim>\<open>l\<close> of the share leads to its directory \<^verbatim>\<open>a\<close>.\<close>

definition ex_canon :: canonicalize where
  "ex_canon p = (let q = (if take 2 p = [''s'', ''l''] then [''s'', ''a''] @ drop 2 p else p) in if lookup ex_tree q = None then None else Some q)"

lemma ex_tree_ok: "node_ok ex_tree"
  "lookup ex_tree [''s''] = Some (Dir [(''b'', File [1] (Some 5)), (''.xr-part-1'', File [9] (Some 5)), (''a'', Dir [(''c'', File [2, 3] None)]), (''l'', Symlink)])"
  by code_simp+

lemma ex_canon_plain: "canon_plain ex_tree ex_canon"
proof -
  have "lookup ex_tree (''s'' # ''l'' # q) \<in> {None, Some Symlink}" for q by (cases q) (simp_all add: ex_tree_def)
  then have "\<not> take 2 p = [''s'', ''l'']" if "lookup ex_tree p = Some n" "n \<noteq> Symlink" for p n
    using that append_take_drop_id [of 2 p] by (metis append_Cons append_Nil insertE option.discI option.inject singletonD)
  then show ?thesis by (auto simp: canon_plain_def ex_canon_def Let_def)
qed

text \<open>Through the link the file can be fetched under a name that is not listed.\<close>

lemma link_followed_not_listed:
  "resolve_within ex_canon [''s''] ''l/c'' = Inr [''s'', ''l'', ''c''] \<and> ex_canon [''s'', ''l'', ''c''] = Some [''s'', ''a'', ''c''] \<and>
   map_option (map se_path) (build_listing ex_tree [''s''] Map.empty Map.empty) = Some [''a/c'', ''b'']"
  by code_simp

theorem listed_is_fetchable_witness:
  "\<exists>entries. build_listing ex_tree [''s''] Map.empty Map.empty = Some entries \<and> map se_path entries = [''a/c'', ''b''] \<and>
     (\<exists>p c. resolve_within ex_canon [''s''] ''a/c'' = Inr p \<and> file_at ex_tree p = Some c \<and> length c = 2)"
proof -
  have l: "build_listing ex_tree [''s''] Map.empty Map.empty = Some
      [\<lparr>se_path = ''a/c'', se_size = 2, se_mtime = 0, se_sha256 = [], se_meta = None\<rparr>, \<lparr>se_path = ''b'', se_size = 1, se_mtime = 5, se_sha256 = [], se_meta = None\<rparr>]"
    by code_simp
  let ?e = "\<lparr>se_path = ''a/c'', se_size = 2, se_mtime = 0, se_sha256 = [], se_meta = None\<rparr>"
  have "\<exists>p c. resolve_within ex_canon [''s''] (se_path ?e) = Inr p \<and> file_at ex_tree p = Some c \<and> se_size ?e = of_nat (length c)"
    using listed_is_fetchable [OF ex_tree_ok l ex_canon_plain, of ?e] by simp
  moreover have "file_at ex_tree [''s'', ''a'', ''c''] = Some [2, 3]" "resolve_within ex_canon [''s''] ''a/c'' = Inr [''s'', ''a'', ''c'']" by code_simp+
  ultimately show ?thesis using l by auto
qed

theorem warmed_listing_is_manifest_witness:
  "\<exists>entries cache'. build_manifest (\<lambda>c. c) ex_tree [''s''] Map.empty Map.empty = Some (entries, cache') \<and> build_listing ex_tree [''s''] Map.empty cache' = Some entries"
proof -
  have "cache_coherent (\<lambda>c. c) ex_tree Map.empty" by (simp add: cache_coherent_def cached_def)
  from warmed_listing_is_manifest [OF ex_tree_ok this, of Map.empty] show ?thesis by blast
qed

end
