(* ===== verification/Import_Publish.thy ===== *)
theory Import_Publish
  imports Import_Jobs Agent_Listing
begin

text \<open>
  The end of an import (\<^verbatim>\<open>publish_files\<close> of \<^verbatim>\<open>xr-share/src/import.rs\<close>) and the origin of files (\<^verbatim>\<open>xr-share/src/meta.rs\<close>): the output of a plugin is
  renamed into the share, what the plugin wrote about it and the job's link become rows of the origin index, and at start-up the index is
  completed from the names of the files and cleared of rows whose file is gone. The JSON of the index is left out.
\<close>

section \<open>The lines of a plugin\<close>

definition PLUGIN_FILE :: string where "PLUGIN_FILE = ''.xr-meta.tsv''"

definition str_lines :: "string \<Rightarrow> string list" where
  "str_lines s = (let parts = split_on (CHR 0x0A) s; parts = (if last parts = [] then butlast parts else parts)
     in map (\<lambda>l. if l \<noteq> [] \<and> last l = CHR 0x0D then butlast l else l) parts)"

fun splitn :: "nat \<Rightarrow> char \<Rightarrow> string \<Rightarrow> string list" where
  "splitn 0 c s = []"
| "splitn (Suc 0) c s = [s]"
| "splitn (Suc (Suc n)) c s = (case split_once c s of None \<Rightarrow> [s] | Some (a, b) \<Rightarrow> a # splitn (Suc n) c b)"

definition file_name_of :: "string \<Rightarrow> string" where
  "file_name_of s = rev (takeWhile (\<lambda>c. c \<noteq> CHR ''/'' \<and> c \<noteq> CHR 0x5C) (rev s))"

definition normalize_date :: "string \<Rightarrow> string" where
  "normalize_date s = (if length s = 8 \<and> list_all is_ascii_digit s then take 4 s @ ''-'' @ take 2 (drop 4 s) @ ''-'' @ drop 6 s else s)"

definition parse_line :: "string \<Rightarrow> (string \<times> file_meta) option" where
  "parse_line raw =
     (let line = rev (dropWhile (\<lambda>c. c = CHR 0x0D \<or> c = CHR 0x0A) (rev raw));
          parts = splitn 6 (CHR 0x09) line;
          field = (\<lambda>i. if i < length parts then trim (parts ! i) else []);
          file = file_name_of (field 0);
          meta = \<lparr>fm_url = field 1, fm_source = field 2, fm_source_url = field 3, fm_published = normalize_date (field 4), fm_title = field 5\<rparr>
      in if file = [] then None else if file_meta_is_empty meta then None else Some (file, meta))"

definition parse_plugin_output :: "string \<Rightarrow> string \<rightharpoonup> file_meta" where
  "parse_plugin_output text = map_of (rev (List.map_filter parse_line (str_lines text)))"

section \<open>The origin index\<close>

definition youtube_id :: "string \<Rightarrow> string option" where
  "youtube_id stem =
     (if stem = [] \<or> last stem \<noteq> CHR '']'' then None
      else case rsplit_once CHR ''['' (butlast stem) of
        None \<Rightarrow> None
      | Some (_, inner) \<Rightarrow> if length inner = 11 \<and> list_all (\<lambda>c. is_ascii_alphanumeric c \<or> c = CHR ''-'' \<or> c = CHR ''_'') inner then Some inner else None)"

definition from_name :: "string \<Rightarrow> file_meta option" where
  "from_name nm =
     (let stem = (case rsplit_once CHR ''.'' nm of Some (a, _) \<Rightarrow> if a \<noteq> [] then a else nm | None \<Rightarrow> nm)
      in map_option (\<lambda>i. \<lparr>fm_url = ''https://www.youtube.com/watch?v='' @ i, fm_source = [], fm_source_url = [], fm_published = [], fm_title = []\<rparr>) (youtube_id stem))"

text \<open>\<open>saved\<close>: the new index could be written; a failure is logged and leaves the old one.\<close>

definition record_rows :: "bool \<Rightarrow> (string \<times> file_meta) list \<Rightarrow> origin_index \<Rightarrow> origin_index" where
  "record_rows saved rs ix =
     (if list_all (\<lambda>(_, m). file_meta_is_empty m) rs \<or> \<not> saved then ix
      else fold (\<lambda>(rel, m) ix. if file_meta_is_empty m then ix else ix(rel \<mapsto> m)) rs ix)"

definition backfill_file :: "fpath \<Rightarrow> fpath \<times> bytes \<times> int option \<Rightarrow> origin_index \<times> string set \<Rightarrow> origin_index \<times> string set" where
  "backfill_file root f st = (case (f, st) of ((rel, _, _), (ix, present)) \<Rightarrow>
     let key = rel_slash rel; present' = insert key present in
     if ix key \<noteq> None then (ix, present')
     else (case from_name (last (root @ rel)) of None \<Rightarrow> (ix, present') | Some m \<Rightarrow> (ix(key \<mapsto> m), present')))"

definition backfill :: "node \<Rightarrow> fpath \<Rightarrow> origin_index \<Rightarrow> origin_index" where
  "backfill t root ix = (case walk_share t root of
      Inl _ \<Rightarrow> Map.empty
    | Inr files \<Rightarrow> (case fold (backfill_file root) files (ix, {}) of (ix', present) \<Rightarrow> ix' |` present))"

section \<open>Publication\<close>

record publish_spec =
  pb_job_dir :: fpath
  pb_dest_dir :: fpath
  pb_dest_rel :: string
  pb_max_file_bytes :: "nat option"
  pb_share_root :: fpath
  pb_url :: string

datatype publish_error = JobDirUnreadable | NoFiles | PublishFailed string "string list"

record publish_state =
  ps_disk :: node
  ps_cache :: hash_cache
  ps_origin :: origin_index

text \<open>\<open>fault nm\<close>: the system fails one of the calls on the file for reasons of its own (no permission to open it, a read or a sync that fails).\<close>

definition publish_one :: "(bytes \<Rightarrow> bytes) \<Rightarrow> (string \<Rightarrow> bool) \<Rightarrow> publish_spec \<Rightarrow> string \<Rightarrow> publish_state \<Rightarrow> publish_state option" where
  "publish_one sha fault spec nm s =
     (let src = pb_job_dir spec @ [nm]; target = pb_dest_dir spec @ [nm] in
      case fs_metadata (ps_disk s) src of
        None \<Rightarrow> None
      | Some (len, _) \<Rightarrow>
          if (case pb_max_file_bytes spec of None \<Rightarrow> False | Some limit \<Rightarrow> unat len > limit) then None
          else if fault nm then None
          else (case read_file (ps_disk s) src of
              Inl _ \<Rightarrow> None
            | Inr content \<Rightarrow> (case rename_file src target (ps_disk s) of
                Inl _ \<Rightarrow> None
              | Inr d \<Rightarrow> Some (s\<lparr>ps_disk := d, ps_cache := (case fs_metadata d target of
                    None \<Rightarrow> ps_cache s
                  | Some (len', m) \<Rightarrow> seed target len' (mtime_secs m) (sha256_file sha content) (ps_cache s))\<rparr>))))"

definition rel_path :: "string \<Rightarrow> string \<Rightarrow> string" where
  "rel_path dest_rel nm = (if dest_rel = [] then nm else dest_rel @ ''/'' @ nm)"

definition origin_of :: "publish_spec \<Rightarrow> (string \<rightharpoonup> file_meta) \<Rightarrow> string \<Rightarrow> file_meta" where
  "origin_of spec plugin_meta nm =
     (let m = (case plugin_meta nm of Some m \<Rightarrow> m | None \<Rightarrow> \<lparr>fm_url = [], fm_source = [], fm_source_url = [], fm_published = [], fm_title = []\<rparr>)
      in if fm_url m = [] then m\<lparr>fm_url := pb_url spec\<rparr> else m)"

fun publish_loop :: "(bytes \<Rightarrow> bytes) \<Rightarrow> (string \<Rightarrow> bool) \<Rightarrow> bool \<Rightarrow> publish_spec \<Rightarrow> (string \<rightharpoonup> file_meta) \<Rightarrow> string list \<Rightarrow>
    string list \<Rightarrow> (string \<times> file_meta) list \<Rightarrow> publish_state \<Rightarrow> (publish_error + string list) \<times> publish_state" where
  "publish_loop sha fault saved spec pm [] published origins s = (Inr published, s\<lparr>ps_origin := record_rows saved origins (ps_origin s)\<rparr>)"
| "publish_loop sha fault saved spec pm (nm # names) published origins s = (case publish_one sha fault spec nm s of
      None \<Rightarrow> (Inl (PublishFailed nm published), s\<lparr>ps_origin := record_rows saved origins (ps_origin s)\<rparr>)
    | Some s1 \<Rightarrow> (let rel = rel_path (pb_dest_rel spec) nm in
        publish_loop sha fault saved spec pm names (published @ [rel]) (origins @ [(rel, origin_of spec pm nm)]) s1))"

definition output_names :: "(string \<times> node) list \<Rightarrow> string list" where
  "output_names es = sort (map fst (filter (\<lambda>(nm, n). (case n of File _ _ \<Rightarrow> True | _ \<Rightarrow> False) \<and> \<not> starts_with nm ''.'') es))"

text \<open>\<open>text_of\<close> is the lossy reading of bytes as text.\<close>

definition plugin_meta :: "(bytes \<Rightarrow> string) \<Rightarrow> publish_spec \<Rightarrow> node \<Rightarrow> string \<rightharpoonup> file_meta" where
  "plugin_meta text_of spec t = (case read_file t (pb_job_dir spec @ [PLUGIN_FILE]) of Inl _ \<Rightarrow> Map.empty | Inr raw \<Rightarrow> parse_plugin_output (text_of raw))"

definition publish_files :: "(bytes \<Rightarrow> bytes) \<Rightarrow> (bytes \<Rightarrow> string) \<Rightarrow> (string \<Rightarrow> bool) \<Rightarrow> bool \<Rightarrow> publish_spec \<Rightarrow> publish_state \<Rightarrow>
    (publish_error + string list) \<times> publish_state" where
  "publish_files sha text_of fault saved spec s = (case lookup (ps_disk s) (pb_job_dir spec) of
      Some (Dir es) \<Rightarrow>
        (let names = output_names es in
         if names = [] then (Inl NoFiles, s)
         else publish_loop sha fault saved spec (plugin_meta text_of spec (ps_disk s)) names [] [] s)
    | _ \<Rightarrow> (Inl JobDirUnreadable, s))"

section \<open>What backfilling leaves\<close>

lemma backfill_fold:
  "fold (backfill_file root) fs (ix, present) =
     (\<lambda>k. case ix k of Some m \<Rightarrow> Some m | None \<Rightarrow> (case find (\<lambda>(rel, _). rel_slash rel = k \<and> from_name (last (root @ rel)) \<noteq> None) fs of
         None \<Rightarrow> None | Some (rel, _) \<Rightarrow> from_name (last (root @ rel))),
      present \<union> (\<lambda>(rel, _). rel_slash rel) ` set fs)"
proof (induction fs arbitrary: ix present)
  case Nil
  show ?case by (auto simp: fun_eq_iff split: option.splits)
next
  case (Cons f fs)
  obtain rel c m where f: "f = (rel, c, m)" by (cases f)
  show ?case
  proof (cases "ix (rel_slash rel) = None \<and> from_name (last (root @ rel)) \<noteq> None")
    case True
    then obtain g where "from_name (last (root @ rel)) = Some g" by blast
    then have "backfill_file root f (ix, present) = (ix(rel_slash rel \<mapsto> g), insert (rel_slash rel) present)" using True by (simp add: backfill_file_def f Let_def)
    then show ?thesis using Cons True \<open>from_name (last (root @ rel)) = Some g\<close> by (auto simp: f fun_eq_iff split: option.splits)
  next
    case False
    then have "backfill_file root f (ix, present) = (ix, insert (rel_slash rel) present)" by (auto simp: backfill_file_def f Let_def split: option.splits)
    then show ?thesis using Cons False by (auto simp: f fun_eq_iff split: option.splits)
  qed
qed

text \<open>
  The pass at start-up makes the origin index exact: afterwards a file of the share has the row it had, or else what its own name gives away, and a
  name that is no file of the share has none. What an import recorded always wins over the guess, and a second pass changes nothing.
\<close>

theorem backfill_is_exact:
  assumes "node_ok t" and root: "lookup t root = Some (Dir es)"
  shows "backfill t root ix = (\<lambda>k. if \<exists>q c m. (q, c, m) \<in> set (walk_entries [] es) \<and> rel_slash q = k
      then (case ix k of Some g \<Rightarrow> Some g | None \<Rightarrow> from_name (last (split_on CHR ''/'' k))) else None) \<and>
    backfill t root (backfill t root ix) = backfill t root ix"
proof -
  let ?fs = "walk_entries [] es"
  have es: "node_ok (Dir es)" by (rule node_ok_lookup [OF assms])
  have names: "list_all name_ok q \<and> q \<noteq> [] \<and> split_on CHR ''/'' (rel_slash q) = q" if "(q, c, m) \<in> set ?fs" for q c m
    using that walk_entries_set [OF es, of q c m "[]"] node_ok_names [OF es, of q] rel_slash_cs [of q] by (auto simp: unreserved_def)
  have found: "(case find (\<lambda>(rel, _). rel_slash rel = rel_slash q \<and> from_name (last (root @ rel)) \<noteq> None) ?fs of None \<Rightarrow> None | Some (rel, _) \<Rightarrow> from_name (last (root @ rel)))
      = from_name (last q)" if q: "(q, c, m) \<in> set ?fs" for q c m
  proof (cases "find (\<lambda>(rel, _). rel_slash rel = rel_slash q \<and> from_name (last (root @ rel)) \<noteq> None) ?fs")
    case None
    then have "\<not> (rel_slash q = rel_slash q \<and> from_name (last (root @ q)) \<noteq> None)" using q unfolding find_None_iff by blast
    then show ?thesis using None names [OF q] by simp
  next
    case (Some x)
    obtain q' c' m' where x: "x = (q', c', m')" by (cases x)
    then have "(q', c', m') \<in> set ?fs" "rel_slash q' = rel_slash q" using Some unfolding find_Some_iff by (auto intro: nth_mem) (metis nth_mem)
    then have "q' = q" using rel_slash_inj names [OF q] names by blast
    then show ?thesis using Some x names [OF q] by simp
  qed
  have b: "backfill t root ix k = (if \<exists>q c m. (q, c, m) \<in> set ?fs \<and> rel_slash q = k
      then (case ix k of Some g \<Rightarrow> Some g | None \<Rightarrow> from_name (last (split_on CHR ''/'' k))) else None)" for ix k
  proof (cases "\<exists>q c m. (q, c, m) \<in> set ?fs \<and> rel_slash q = k")
    case True
    then obtain q c m where q: "(q, c, m) \<in> set ?fs" "rel_slash q = k" by blast
    then have "k \<in> (\<lambda>(rel, _). rel_slash rel) ` set ?fs" by force
    then show ?thesis using True found [OF q(1)] names [OF q(1)] q(2) root
      by (auto simp: backfill_def walk_share_def backfill_fold restrict_map_def split: option.splits)
  next
    case False
    then have "k \<notin> (\<lambda>(rel, _). rel_slash rel) ` set ?fs" by auto
    then show ?thesis using False root by (auto simp: backfill_def walk_share_def backfill_fold restrict_map_def)
  qed
  have "backfill t root (backfill t root ix) = backfill t root ix"
    by (rule ext) (auto simp: b split: option.splits)
  then show ?thesis using b by auto
qed

section \<open>What a publication leaves\<close>

definition moved :: "fpath \<Rightarrow> fpath \<Rightarrow> string list \<Rightarrow> (fpath \<rightharpoonup> bytes) \<Rightarrow> fpath \<rightharpoonup> bytes" where
  "moved job dest ns files = (\<lambda>q. if \<exists>n \<in> set ns. q = dest @ [n] then files (job @ [last q]) else if \<exists>n \<in> set ns. q = job @ [n] then None else files q)"

definition small_enough :: "publish_spec \<Rightarrow> bytes \<Rightarrow> bool" where
  "small_enough spec c = (case pb_max_file_bytes spec of None \<Rightarrow> True | Some limit \<Rightarrow> unat (of_nat (length c) :: u64) \<le> limit)"

text \<open>Why a file of the job directory cannot be published.\<close>

definition cannot_publish :: "(string \<Rightarrow> bool) \<Rightarrow> publish_spec \<Rightarrow> node \<Rightarrow> string \<Rightarrow> bool" where
  "cannot_publish fault spec t nm \<longleftrightarrow> fault nm \<or> (case file_at t (pb_job_dir spec @ [nm]) of
      None \<Rightarrow> True
    | Some c \<Rightarrow> \<not> small_enough spec c \<or> (case rename_file (pb_job_dir spec @ [nm]) (pb_dest_dir spec @ [nm]) t of Inl _ \<Rightarrow> True | Inr _ \<Rightarrow> False))"

lemma publish_one_None: "publish_one sha fault spec nm s = None \<Longrightarrow> file_at (ps_disk s) (pb_job_dir spec @ [nm]) \<noteq> None \<Longrightarrow> cannot_publish fault spec (ps_disk s) nm"
  by (auto simp: publish_one_def cannot_publish_def small_enough_def file_at_def fs_metadata_def read_file_def Let_def split: option.splits node.splits if_splits sum.splits)

lemma publish_one_effect:
  assumes "publish_one sha fault spec nm s = Some s1"
  shows "\<exists>c. file_at (ps_disk s) (pb_job_dir spec @ [nm]) = Some c \<and> small_enough spec c \<and> \<not> fault nm \<and> ps_origin s1 = ps_origin s \<and>
    file_at (ps_disk s1) = (file_at (ps_disk s))(pb_job_dir spec @ [nm] := None, pb_dest_dir spec @ [nm] \<mapsto> c)"
proof -
  let ?src = "pb_job_dir spec @ [nm]" and ?target = "pb_dest_dir spec @ [nm]"
  obtain len m where len: "fs_metadata (ps_disk s) ?src = Some (len, m)" using assms by (auto simp: publish_one_def Let_def split: option.splits)
  have nf: "\<not> fault nm" using assms len by (auto simp: publish_one_def Let_def split: if_splits)
  obtain c where c: "read_file (ps_disk s) ?src = Inr c"
    using assms len by (cases "read_file (ps_disk s) ?src") (auto simp: publish_one_def Let_def split: if_splits)
  obtain d where d: "rename_file ?src ?target (ps_disk s) = Inr d"
    using assms len c by (cases "rename_file ?src ?target (ps_disk s)") (auto simp: publish_one_def Let_def split: if_splits)
  have s1: "ps_disk s1 = d" "ps_origin s1 = ps_origin s" and lim: "\<not> (case pb_max_file_bytes spec of None \<Rightarrow> False | Some limit \<Rightarrow> unat len > limit)"
    using assms len c d by (auto simp: publish_one_def Let_def split: if_splits)
  have f: "file_at (ps_disk s) ?src = Some c" using c by (simp add: read_file_at)
  then have "len = of_nat (length c)" using len by (auto simp: file_at_def fs_metadata_def split: option.splits node.splits)
  then have "small_enough spec c" using lim by (auto simp: small_enough_def split: option.splits)
  then show ?thesis using f s1 nf file_at_rename [OF d] by auto
qed

lemma moved_Cons:
  assumes "job \<noteq> dest" and "nm \<notin> set ns" and "files (job @ [nm]) = Some c"
  shows "moved job dest ns (files(job @ [nm] := None, dest @ [nm] \<mapsto> c)) = moved job dest (nm # ns) files"
  using assms by (auto simp: moved_def fun_eq_iff)

lemma publish_loop_effect:
  assumes "publish_loop sha fault saved spec pm names published origins s = (r, s')" and "distinct names" and "pb_job_dir spec \<noteq> pb_dest_dir spec"
    and "\<forall>n \<in> set names. file_at (ps_disk s) (pb_job_dir spec @ [n]) \<noteq> None"
  shows "\<exists>ready left. names = ready @ left \<and> file_at (ps_disk s') = moved (pb_job_dir spec) (pb_dest_dir spec) ready (file_at (ps_disk s)) \<and>
    (\<forall>n \<in> set ready. \<not> fault n \<and> (\<exists>c. file_at (ps_disk s) (pb_job_dir spec @ [n]) = Some c \<and> small_enough spec c)) \<and>
    ps_origin s' = record_rows saved (origins @ map (\<lambda>n. (rel_path (pb_dest_rel spec) n, origin_of spec pm n)) ready) (ps_origin s) \<and>
    (if left = [] then r = Inr (published @ map (rel_path (pb_dest_rel spec)) ready)
     else cannot_publish fault spec (ps_disk s') (hd left) \<and> r = Inl (PublishFailed (hd left) (published @ map (rel_path (pb_dest_rel spec)) ready)))"
  using assms(1,2,4)
proof (induction names arbitrary: published origins s)
  case Nil
  then show ?case by (auto simp: moved_def)
next
  case (Cons nm names)
  let ?job = "pb_job_dir spec" and ?dest = "pb_dest_dir spec"
  show ?case
  proof (cases "publish_one sha fault spec nm s")
    case None
    then have "cannot_publish fault spec (ps_disk s) nm" using publish_one_None Cons.prems(3) by simp
    then show ?thesis using None Cons.prems(1) by (intro exI [of _ "[]"] exI [of _ "nm # names"]) (auto simp: moved_def)
  next
    case (Some s1)
    obtain c where c: "file_at (ps_disk s) (?job @ [nm]) = Some c" "small_enough spec c" "\<not> fault nm" "ps_origin s1 = ps_origin s"
        "file_at (ps_disk s1) = (file_at (ps_disk s))(?job @ [nm] := None, ?dest @ [nm] \<mapsto> c)" using publish_one_effect [OF Some] by blast
    have l: "publish_loop sha fault saved spec pm names (published @ [rel_path (pb_dest_rel spec) nm]) (origins @ [(rel_path (pb_dest_rel spec) nm, origin_of spec pm nm)]) s1 = (r, s')"
      using Cons.prems(1) Some by (simp add: Let_def)
    have "\<forall>n \<in> set names. file_at (ps_disk s1) (?job @ [n]) \<noteq> None" using Cons.prems(2,3) assms(3) c(5) by auto
    from Cons.IH [OF l _ this] Cons.prems(2) obtain ready left where i: "names = ready @ left" "file_at (ps_disk s') = moved ?job ?dest ready (file_at (ps_disk s1))"
        "\<forall>n \<in> set ready. \<not> fault n \<and> (\<exists>c. file_at (ps_disk s1) (?job @ [n]) = Some c \<and> small_enough spec c)"
        "ps_origin s' = record_rows saved ((origins @ [(rel_path (pb_dest_rel spec) nm, origin_of spec pm nm)]) @ map (\<lambda>n. (rel_path (pb_dest_rel spec) n, origin_of spec pm n)) ready) (ps_origin s1)"
        "if left = [] then r = Inr ((published @ [rel_path (pb_dest_rel spec) nm]) @ map (rel_path (pb_dest_rel spec)) ready)
         else cannot_publish fault spec (ps_disk s') (hd left) \<and> r = Inl (PublishFailed (hd left) ((published @ [rel_path (pb_dest_rel spec) nm]) @ map (rel_path (pb_dest_rel spec)) ready))" by auto
    have n: "nm \<notin> set ready" using Cons.prems(2) i(1) by auto
    have "file_at (ps_disk s') = moved ?job ?dest (nm # ready) (file_at (ps_disk s))" unfolding i(2) c(5) using moved_Cons [where files = "file_at (ps_disk s)", OF assms(3) n c(1)] .
    moreover have "\<forall>k \<in> set (nm # ready). \<not> fault k \<and> (\<exists>c. file_at (ps_disk s) (?job @ [k]) = Some c \<and> small_enough spec c)"
      using i(3) c n assms(3) by (auto split: if_splits)
    ultimately show ?thesis using i c(4) by (intro exI [of _ "nm # ready"] exI [of _ left]) (auto split: if_splits)
  qed
qed

lemma record_rows_at:
  assumes "\<And>x. x \<in> set rs \<Longrightarrow> \<not> file_meta_is_empty (snd x)" and "distinct (map fst rs)"
  shows "record_rows True rs ix k = (case map_of rs k of Some m \<Rightarrow> Some m | None \<Rightarrow> ix k)"
proof -
  have "fold (\<lambda>(rel, m) ix. if file_meta_is_empty m then ix else ix(rel \<mapsto> m)) rs ix k = (case map_of rs k of Some m \<Rightarrow> Some m | None \<Rightarrow> ix k)"
    using assms
  proof (induction rs arbitrary: ix)
    case (Cons x rs)
    obtain rel m where x: "x = (rel, m)" by fastforce
    have "rel = k \<Longrightarrow> map_of rs k = None" using Cons.prems(2) by (auto simp: x map_of_eq_None_iff)
    moreover have "\<not> file_meta_is_empty m" using Cons.prems(1) [of x] by (simp add: x)
    ultimately show ?case using Cons by (auto simp: x split: option.splits)
  qed simp
  moreover have "list_all (\<lambda>(_, m). file_meta_is_empty m) rs \<longleftrightarrow> rs = []" using assms(1) by (cases rs) force+
  ultimately show ?thesis by (simp add: record_rows_def)
qed

lemma rel_path_inj: "rel_path d a = rel_path d b \<Longrightarrow> a = b"
  by (auto simp: rel_path_def split: if_splits)

lemma output_names_ok:
  assumes "node_ok (Dir es)"
  shows "distinct (output_names es)" "n \<in> set (output_names es) \<Longrightarrow> \<exists>c m. map_of es n = Some (File c m)"
proof -
  show "distinct (output_names es)" using assms by (auto simp: output_names_def distinct_map_filter)
  assume "n \<in> set (output_names es)"
  then obtain x where "(n, x) \<in> set es" "case x of File _ _ \<Rightarrow> True | _ \<Rightarrow> False" by (auto simp: output_names_def)
  moreover have "distinct (map fst es)" using assms by simp
  ultimately show "\<exists>c m. map_of es n = Some (File c m)" by (cases x) (auto intro: map_of_is_SomeI)
qed

text \<open>The row of a file: what the plugin said of it, with the job's link where it gave none; and the link alone where it said nothing.\<close>

definition expected_row :: "string \<Rightarrow> file_meta option \<Rightarrow> file_meta" where
  "expected_row url said = (case said of
      None \<Rightarrow> \<lparr>fm_url = url, fm_source = [], fm_source_url = [], fm_published = [], fm_title = []\<rparr>
    | Some m \<Rightarrow> m\<lparr>fm_url := if fm_url m = [] then url else fm_url m\<rparr>)"

lemma origin_of_row: "origin_of spec pm n = expected_row (pb_url spec) (pm n)"
  by (auto simp: origin_of_def expected_row_def Let_def split: option.splits)

lemma published_rows:
  assumes "distinct (map (rel_path d) ready)" and "url \<noteq> []"
  shows "record_rows saved (map (\<lambda>n. (rel_path d n, expected_row url (pm n))) ready) ix =
    (\<lambda>k. if saved then (case find (\<lambda>n. rel_path d n = k) ready of None \<Rightarrow> ix k | Some n \<Rightarrow> Some (expected_row url (pm n))) else ix k)"
proof (rule ext)
  fix k
  let ?rs = "map (\<lambda>n. (rel_path d n, expected_row url (pm n))) ready"
  have u: "\<not> file_meta_is_empty (expected_row url m)" for m using assms(2) by (auto simp: expected_row_def file_meta_is_empty_def split: option.splits)
  have "map_of ?rs k = map_option (\<lambda>n. expected_row url (pm n)) (find (\<lambda>n. rel_path d n = k) ready)" by (induction ready) auto
  moreover have "record_rows True ?rs ix k = (case map_of ?rs k of Some m \<Rightarrow> Some m | None \<Rightarrow> ix k)"
    by (rule record_rows_at) (use u assms(1) in \<open>auto simp: comp_def\<close>)
  moreover have "record_rows False ?rs ix = ix" by (simp add: record_rows_def)
  ultimately show "record_rows saved ?rs ix k = (if saved then (case find (\<lambda>n. rel_path d n = k) ready of None \<Rightarrow> ix k | Some n \<Rightarrow> Some (expected_row url (pm n))) else ix k)"
    by (cases saved) (auto split: option.splits)
qed

text \<open>
  C13. An import publishes its output one file at a time and says truly how far it came. The files of the job directory that are not hidden, in the order of
  their names, are moved into the destination, each with its content and within the owner's limit, up to the first that is too large, meets a fault of the
  system or cannot be renamed to its place; nothing else on the disk changes, hidden files and subdirectories stay where they are. Success is
  reported exactly when all were moved, with their names; a failure names the file that failed and those that are in the share already. The files
  that were moved, and no others, get their rows in the origin index, if it can be saved: what the plugin wrote about the file, with the job's
  link where it gave none; if the save fails, the old index stays and the outcome of the import is the same. (The job directory is not the destination, and the job has a link.)
\<close>

theorem publication_is_ordered_prefix:
  assumes "node_ok (ps_disk s)" and es: "lookup (ps_disk s) (pb_job_dir spec) = Some (Dir es)" and "pb_job_dir spec \<noteq> pb_dest_dir spec" and "pb_url spec \<noteq> []"
    and "publish_files sha text_of fault saved spec s = (r, s')"
  shows "\<exists>ready left. output_names es = ready @ left \<and> file_at (ps_disk s') = moved (pb_job_dir spec) (pb_dest_dir spec) ready (file_at (ps_disk s)) \<and>
    (\<forall>n \<in> set ready. \<not> fault n \<and> (\<exists>c. file_at (ps_disk s) (pb_job_dir spec @ [n]) = Some c \<and> small_enough spec c)) \<and>
    (r = Inr (map (rel_path (pb_dest_rel spec)) ready) \<and> ready \<noteq> [] \<and> left = [] \<or> r = Inl NoFiles \<and> output_names es = [] \<or>
     left \<noteq> [] \<and> cannot_publish fault spec (ps_disk s') (hd left) \<and> r = Inl (PublishFailed (hd left) (map (rel_path (pb_dest_rel spec)) ready))) \<and>
    ps_origin s' = (\<lambda>k. if saved then (case find (\<lambda>n. rel_path (pb_dest_rel spec) n = k) ready of
        None \<Rightarrow> ps_origin s k | Some n \<Rightarrow> Some (expected_row (pb_url spec) (plugin_meta text_of spec (ps_disk s) n))) else ps_origin s k)"
proof (cases "output_names es = []")
  case True
  then have "r = Inl NoFiles" "s' = s" using assms(5) es by (simp_all add: publish_files_def Let_def)
  then show ?thesis using True by (intro exI [of _ "[]"]) (auto simp: moved_def)
next
  case False
  let ?pm = "plugin_meta text_of spec (ps_disk s)"
  have ok: "node_ok (Dir es)" by (rule node_ok_lookup [OF assms(1) es])
  have l: "publish_loop sha fault saved spec ?pm (output_names es) [] [] s = (r, s')" using assms(5) es False by (simp add: publish_files_def Let_def)
  have there: "\<forall>n \<in> set (output_names es). file_at (ps_disk s) (pb_job_dir spec @ [n]) \<noteq> None"
    using output_names_ok(2) [OF ok] es by (fastforce simp: file_at_def lookup_append)
  obtain ready left where i: "output_names es = ready @ left" "file_at (ps_disk s') = moved (pb_job_dir spec) (pb_dest_dir spec) ready (file_at (ps_disk s))"
      "\<forall>n \<in> set ready. \<not> fault n \<and> (\<exists>c. file_at (ps_disk s) (pb_job_dir spec @ [n]) = Some c \<and> small_enough spec c)"
      "ps_origin s' = record_rows saved (map (\<lambda>n. (rel_path (pb_dest_rel spec) n, expected_row (pb_url spec) (?pm n))) ready) (ps_origin s)"
      "if left = [] then r = Inr (map (rel_path (pb_dest_rel spec)) ready)
       else cannot_publish fault spec (ps_disk s') (hd left) \<and> r = Inl (PublishFailed (hd left) (map (rel_path (pb_dest_rel spec)) ready))"
    using publish_loop_effect [OF l output_names_ok(1) [OF ok] assms(3) there] by (auto simp: origin_of_row)
  have "distinct (map (rel_path (pb_dest_rel spec)) ready)"
    using output_names_ok(1) [OF ok] i(1) by (auto simp: distinct_map inj_on_def dest: rel_path_inj)
  from published_rows [OF this assms(4), of saved ?pm "ps_origin s"] show ?thesis
    using i False by (intro exI [of _ ready] exI [of _ left]) (simp split: if_splits)
qed

section \<open>A concrete import\<close>

definition ex_publish :: publish_state where
  "ex_publish = \<lparr>ps_disk = Dir [(''s'', Dir [(''.xr-import-1'', Dir [(''b [abcdefghijk].mp4'', File [1, 2] (Some 7)), (''.cache'', File [9] None), (''a.txt'', File [3] None)])])],
     ps_cache = Map.empty, ps_origin = Map.empty\<rparr>"

definition ex_publish_spec :: publish_spec where
  "ex_publish_spec = \<lparr>pb_job_dir = [''s'', ''.xr-import-1''], pb_dest_dir = [''s''], pb_dest_rel = [], pb_max_file_bytes = Some 1, pb_share_root = [''s''], pb_url = ''https://x''\<rparr>"

definition ex_meta :: file_meta where
  "ex_meta = origin_of ex_publish_spec Map.empty ''a.txt''"

theorem publication_is_ordered_prefix_witness:
  "\<exists>s'. publish_files (\<lambda>c. c) (\<lambda>_. []) (\<lambda>_. False) True ex_publish_spec ex_publish = (Inl (PublishFailed ''b [abcdefghijk].mp4'' [''a.txt'']), s') \<and>
     file_at (ps_disk s') [''s'', ''a.txt''] = Some [3] \<and> ps_origin s' ''a.txt'' = Some ex_meta"
proof -
  let ?es = "[(''b [abcdefghijk].mp4'', File [1, 2] (Some 7)), (''.cache'', File [9] None), (''a.txt'', File [3] None)]"
  obtain r s' where p: "publish_files (\<lambda>c. c) (\<lambda>_. []) (\<lambda>_. False) True ex_publish_spec ex_publish = (r, s')" by fastforce
  have r: "fst (publish_files (\<lambda>c. c) (\<lambda>_. []) (\<lambda>_. False) True ex_publish_spec ex_publish) = Inl (PublishFailed ''b [abcdefghijk].mp4'' [''a.txt''])" by code_simp
  have c: "node_ok (ps_disk ex_publish)" "lookup (ps_disk ex_publish) (pb_job_dir ex_publish_spec) = Some (Dir ?es)" "pb_job_dir ex_publish_spec \<noteq> pb_dest_dir ex_publish_spec"
    "pb_url ex_publish_spec \<noteq> []" "output_names ?es = [''a.txt'', ''b [abcdefghijk].mp4'']" "rel_path (pb_dest_rel ex_publish_spec) ''a.txt'' = ''a.txt''" by code_simp+
  have f: "file_at (ps_disk ex_publish) [''s'', ''.xr-import-1'', ''a.txt''] = Some [3]"
      "expected_row (pb_url ex_publish_spec) (plugin_meta (\<lambda>_. []) ex_publish_spec (ps_disk ex_publish) ''a.txt'') = ex_meta" by code_simp+
  have r': "r = Inl (PublishFailed ''b [abcdefghijk].mp4'' [''a.txt''])" using r p by simp
  have fails: "r \<noteq> Inr z" "r \<noteq> Inl NoFiles" for z using r' by simp_all
  note prefix_moved = publication_is_ordered_prefix [OF c(1-4) p]
  obtain ready left where i: "output_names ?es = ready @ left"
      "file_at (ps_disk s') = moved (pb_job_dir ex_publish_spec) (pb_dest_dir ex_publish_spec) ready (file_at (ps_disk ex_publish))"
      "left \<noteq> [] \<and> r = Inl (PublishFailed (hd left) (map (rel_path (pb_dest_rel ex_publish_spec)) ready))"
      "ps_origin s' = (\<lambda>k. if True then (case find (\<lambda>n. rel_path (pb_dest_rel ex_publish_spec) n = k) ready of None \<Rightarrow> ps_origin ex_publish k
        | Some n \<Rightarrow> Some (expected_row (pb_url ex_publish_spec) (plugin_meta (\<lambda>_. []) ex_publish_spec (ps_disk ex_publish) n))) else ps_origin ex_publish k)"
    using prefix_moved by (elim exE conjE disjE) (use fails in \<open>simp_all only: simp_thms\<close>)
  have "length ready = 1" using i(3) r' by (auto simp: map_eq_Cons_conv)
  then have ready: "ready = [''a.txt'']" using i(1) c(5) by (cases ready) auto
  have "file_at (ps_disk s') [''s'', ''a.txt''] = Some [3]" using i(2) f(1) by (simp add: ready moved_def ex_publish_spec_def)
  moreover have "ps_origin s' ''a.txt'' = Some ex_meta" unfolding i(4) ready using c(6) f(2) by simp
  ultimately show ?thesis using p r' by (intro exI [of _ s']) simp
qed

theorem backfill_is_exact_witness:
  "backfill ex_tree [''s''] [''b'' \<mapsto> ex_meta, ''gone'' \<mapsto> ex_meta] ''b'' = Some ex_meta \<and>
   backfill ex_tree [''s''] [''b'' \<mapsto> ex_meta, ''gone'' \<mapsto> ex_meta] ''gone'' = None"
proof -
  have w: "walk_entries [] [(''b'', File [1] (Some 5)), (''.xr-part-1'', File [9] (Some 5)), (''a'', Dir [(''c'', File [2, 3] None)]), (''l'', Symlink)] =
      [([''b''], [1], Some 5), ([''a'', ''c''], [2, 3], None)]" "rel_slash [''b''] = ''b''" "rel_slash [''a'', ''c''] = ''a/c''" by code_simp+
  note x = backfill_is_exact [OF ex_tree_ok, of "[''b'' \<mapsto> ex_meta, ''gone'' \<mapsto> ex_meta]", unfolded w(1), THEN conjunct1]
  have "\<exists>q c m. (q, c :: bytes, m :: int option) \<in> set [([''b''], [1], Some 5), ([''a'', ''c''], [2, 3], None)] \<and> rel_slash q = ''b''" using w(2) by (intro exI [of _ "[''b'']"]) auto
  moreover have "\<not> (\<exists>q c m. (q, c :: bytes, m :: int option) \<in> set [([''b''], [1], Some 5), ([''a'', ''c''], [2, 3], None)] \<and> rel_slash q = ''gone'')" using w(2,3) by auto
  ultimately show ?thesis unfolding x by (simp only: if_True if_False) simp
qed

end
