(* ===== verification/Hub.thy ===== *)
theory Hub
  imports Share "HOL-Library.Char_ord" "HOL-Library.List_Lexorder"
begin

text \<open>
  The hub's index of shares and invites (\<^verbatim>\<open>xr-hub/src/api/invites.rs\<close>, \<^verbatim>\<open>register.rs\<close>, \<^verbatim>\<open>share_v2.rs\<close>, \<^verbatim>\<open>shares.rs\<close>, with \<^verbatim>\<open>storage.rs\<close> and
  \<^verbatim>\<open>state.rs\<close>): the tables in memory with their copy on disk, the handlers as functions on them, and the handlers interleaved.
  A handler that lets go of a lock between two looks at the tables is several steps; a save either replaces the
  record's file or fails and leaves it (it writes a temporary file and renames it). The random tokens and ids, the times (Unix seconds, and RFC 3339 text where the code
  compares text), and whether a save succeeds are arguments; base64url with JSON is a parameter of the environment. Pages and listings for people are left out.
\<close>

section \<open>The records\<close>

record payload_server =
  pv_name :: string
  pv_address :: string
  pv_port :: u16
  pv_priority :: u32

record invite_payload =
  pl_server_address :: string
  pl_server_port :: u16
  pl_obfuscation_key :: string
  pl_modifier :: string
  pl_salt :: u64
  pl_preset :: string
  pl_hub_url :: string
  pl_servers :: "payload_server list"

record invite =
  iv_token :: string
  iv_created_at :: string
  iv_expires_at :: string
  iv_consumed_at :: "string option"
  iv_claimed_by_ip :: "string option"
  iv_claim_id :: "string option"
  iv_one_time :: bool
  iv_comment :: string
  iv_payload :: invite_payload
  iv_share_ids :: "string list"
  iv_write_share_ids :: "string list"

record invite_info =
  ii_token :: string
  ii_preset :: string
  ii_comment :: string
  ii_status :: string
  ii_expires_at :: string
  ii_reclaimable :: bool

record share_record =
  hr_share_id :: string
  hr_name :: string
  hr_owner :: string
  hr_addr :: string
  hr_addrs :: "string list"
  hr_port :: u16
  hr_agent_pubkey :: string
  hr_created_at :: string
  hr_comment :: string
  hr_via_relay :: bool
  hr_writable :: bool

record invite_defaults =
  df_server_address :: string
  df_server_port :: u16
  df_obfuscation_key :: string
  df_modifier :: string
  df_salt :: u64
  df_hub_url :: string
  df_servers :: "payload_server list"

definition sorted_servers :: "invite_defaults \<Rightarrow> payload_server list" where
  "sorted_servers d = sort_key (\<lambda>s. unat (pv_priority s)) (df_servers d)"

record hub_env =
  he_crypto :: crypto
  he_public :: "bytes \<Rightarrow> bytes"
  he_signing :: "bytes option"
  he_dev_mode :: bool
  he_default_ttl :: u64
  he_max_ttl :: u64
  he_defaults :: invite_defaults
  he_relay :: "relay_descriptor option"
  he_cred_blob :: "string \<Rightarrow> agent_credential option"
  he_reg_blob :: "string \<Rightarrow> (u64 \<times> string) option"
  he_encode_cred :: "agent_credential \<Rightarrow> string"
  he_encode_token :: "share_token \<Rightarrow> string"
  he_encode_reg :: "u64 \<times> string \<Rightarrow> string"
  he_encode_text :: "string \<Rightarrow> string"

record hub =
  hb_invites :: "string \<rightharpoonup> invite"
  hb_shares :: "string \<rightharpoonup> share_record"
  hb_disk_invites :: "string \<rightharpoonup> invite"
  hb_disk_shares :: "string \<rightharpoonup> share_record"

type_synonym headers = "(string \<times> string) list"
type_synonym 'a answer = "(nat \<times> string) + 'a"

definition sat_add_u64 :: "u64 \<Rightarrow> u64 \<Rightarrow> u64" where
  "sat_add_u64 a b = (if unat a + unat b < 2 ^ 64 then a + b else - 1)"

definition PERSIST_FAILED :: string where "PERSIST_FAILED = ''failed to persist state''"
definition no_key :: "nat \<times> string" where "no_key = (503, ''hub signing key not configured'')"

section \<open>Storage\<close>

text \<open>What a save did: nothing to report, or the text of the error.\<close>

type_synonym saved = "string option"

definition save_invite :: "invite \<Rightarrow> hub \<Rightarrow> hub" where
  "save_invite i h = h\<lparr>hb_disk_invites := (hb_disk_invites h)(iv_token i \<mapsto> i)\<rparr>"

definition save_share :: "share_record \<Rightarrow> hub \<Rightarrow> hub" where
  "save_share r h = h\<lparr>hb_disk_shares := (hb_disk_shares h)(hr_share_id r \<mapsto> r)\<rparr>"

definition delete_share_file :: "string \<Rightarrow> hub \<Rightarrow> hub" where
  "delete_share_file sid h = h\<lparr>hb_disk_shares := (hb_disk_shares h)(sid := None)\<rparr>"

definition hydrate :: "hub \<Rightarrow> hub" where
  "hydrate h = h\<lparr>hb_invites := hb_disk_invites h, hb_shares := hb_disk_shares h\<rparr>"

section \<open>Invites\<close>

definition claim_id_header :: "headers \<Rightarrow> string option" where
  "claim_id_header hs = (case map_of hs ''x-claim-id'' of
      None \<Rightarrow> None
    | Some v \<Rightarrow> (let raw = trim v in if raw = [] \<or> length raw > 128 then None else Some raw))"

definition has_live_claim :: "invite \<Rightarrow> string \<Rightarrow> bool" where
  "has_live_claim i now \<longleftrightarrow> iv_consumed_at i \<noteq> None \<and> iv_claim_id i \<noteq> None \<and> iv_expires_at i > now"

definition can_reclaim :: "invite \<Rightarrow> string option \<Rightarrow> string \<Rightarrow> bool" where
  "can_reclaim i claim_id now \<longleftrightarrow> has_live_claim i now \<and>
     (case (iv_claim_id i, claim_id) of (Some stored, Some given) \<Rightarrow> stored = given | _ \<Rightarrow> False)"

definition invite_status :: "invite \<Rightarrow> string \<Rightarrow> string" where
  "invite_status i now = (if iv_consumed_at i \<noteq> None then ''consumed'' else if iv_expires_at i \<le> now then ''expired'' else ''active'')"

definition get_invite_info :: "string \<Rightarrow> headers \<Rightarrow> string \<Rightarrow> hub \<Rightarrow> invite_info answer" where
  "get_invite_info token hs now h = (case hb_invites h token of
      None \<Rightarrow> Inl (404, ''invite not found'')
    | Some i \<Rightarrow> Inr \<lparr>ii_token = iv_token i, ii_preset = pl_preset (iv_payload i), ii_comment = iv_comment i, ii_status = invite_status i now,
        ii_expires_at = iv_expires_at i, ii_reclaimable = can_reclaim i (claim_id_header hs) now\<rparr>)"

definition claim_client_ip :: "headers \<Rightarrow> string option" where
  "claim_client_ip hs = (case map_of hs ''x-real-ip'' of
      Some v \<Rightarrow> Some v
    | None \<Rightarrow> map_option (\<lambda>v. trim (hd (split_on CHR '','' v))) (map_of hs ''x-forwarded-for''))"

definition claim_invite :: "hub_env \<Rightarrow> string \<Rightarrow> headers \<Rightarrow> string \<Rightarrow> saved \<Rightarrow> hub \<Rightarrow> invite_payload answer \<times> hub" where
  "claim_invite env token hs now saved h = (case hb_invites h token of
      None \<Rightarrow> (Inl (404, ''invite not found''), h)
    | Some i \<Rightarrow>
        let claim_id = claim_id_header hs in
        if iv_expires_at i \<le> now then (Inl (410, ''invite expired''), h)
        else if iv_consumed_at i \<noteq> None then
          (if can_reclaim i claim_id now then (Inr (iv_payload i), h) else (Inl (410, ''invite already used''), h))
        else if iv_one_time i \<and> \<not> he_dev_mode env then
          (let consumed = i\<lparr>iv_consumed_at := Some now, iv_claimed_by_ip := claim_client_ip hs, iv_claim_id := claim_id\<rparr> in
           case saved of
              Some _ \<Rightarrow> (Inl (500, PERSIST_FAILED), h)
            | None \<Rightarrow> (Inr (iv_payload i), (save_invite consumed h)\<lparr>hb_invites := (hb_invites h)(token \<mapsto> consumed)\<rparr>))
        else (Inr (iv_payload i), h))"

definition revoke_invite :: "string \<Rightarrow> string \<Rightarrow> saved \<Rightarrow> hub \<Rightarrow> unit answer \<times> hub" where
  "revoke_invite token now saved h = (case hb_invites h token of
      None \<Rightarrow> (Inl (404, ''invite not found''), h)
    | Some i \<Rightarrow>
        let i' = i\<lparr>iv_consumed_at := Some now, iv_claim_id := None\<rparr>; h1 = h\<lparr>hb_invites := (hb_invites h)(token \<mapsto> i')\<rparr> in
        case saved of Some e \<Rightarrow> (Inl (500, e), h1) | None \<Rightarrow> (Inr (), save_invite i' h1))"

text \<open>\<^verbatim>\<open>build_invite\<close> up to the save; the record goes into the table afterwards.\<close>

definition default_payload :: "invite_defaults \<Rightarrow> string option \<Rightarrow> invite_payload" where
  "default_payload d preset =
     (let servers = sorted_servers d;
          (address, port) = (case servers of s # _ \<Rightarrow> (pv_address s, pv_port s) | [] \<Rightarrow> (df_server_address d, df_server_port d))
      in \<lparr>pl_server_address = address, pl_server_port = port, pl_obfuscation_key = df_obfuscation_key d, pl_modifier = df_modifier d,
          pl_salt = df_salt d, pl_preset = (case preset of None \<Rightarrow> [] | Some p \<Rightarrow> p), pl_hub_url = df_hub_url d, pl_servers = servers\<rparr>)"

record invite_request =
  iq_ttl :: "u64 option"
  iq_one_time :: bool
  iq_comment :: string
  iq_preset :: "string option"
  iq_payload :: "invite_payload option"

definition build_invite :: "hub_env \<Rightarrow> invite_request \<Rightarrow> string \<Rightarrow> string \<Rightarrow> string \<Rightarrow> saved \<Rightarrow> hub \<Rightarrow> invite answer \<times> hub" where
  "build_invite env rq token now expires saved h =
     (let ttl = (case iq_ttl rq of None \<Rightarrow> he_default_ttl env | Some t \<Rightarrow> t) in
      if ttl > he_max_ttl env then (Inl (400, ''TTL exceeds maximum of '' @ dec_string (unat (he_max_ttl env)) @ '' seconds''), h)
      else
        let i = \<lparr>iv_token = token, iv_created_at = now, iv_expires_at = expires, iv_consumed_at = None, iv_claimed_by_ip = None, iv_claim_id = None,
                 iv_one_time = iq_one_time rq, iv_comment = iq_comment rq,
                 iv_payload = (case iq_payload rq of Some p \<Rightarrow> p | None \<Rightarrow> default_payload (he_defaults env) (iq_preset rq)),
                 iv_share_ids = [], iv_write_share_ids = []\<rparr>
        in case saved of Some e \<Rightarrow> (Inl (500, e), h) | None \<Rightarrow> (Inr i, save_invite i h))"

definition insert_invite :: "invite \<Rightarrow> hub \<Rightarrow> hub" where
  "insert_invite i h = h\<lparr>hb_invites := (hb_invites h)(iv_token i \<mapsto> i)\<rparr>"

section \<open>Registration tokens and credentials\<close>

definition DEFAULT_REG_TTL :: u64 where "DEFAULT_REG_TTL = 3600"
definition MAX_REG_TTL :: u64 where "MAX_REG_TTL = 604800"
definition AGENT_CREDENTIAL_TTL :: u64 where "AGENT_CREDENTIAL_TTL = 31536000"
definition DEFAULT_TOKEN_TTL :: u64 where "DEFAULT_TOKEN_TTL = 604800"
definition MAX_TOKEN_TTL :: u64 where "MAX_TOKEN_TTL = 2592000"

definition verify_reg_token :: "hub_env \<Rightarrow> bytes \<Rightarrow> string \<Rightarrow> u64 \<Rightarrow> unit answer" where
  "verify_reg_token env key token now = (case he_reg_blob env (trim token) of
      None \<Rightarrow> Inl (400, ''malformed registration token'')
    | Some (expiry, sig) \<Rightarrow>
        if expiry \<le> now then Inl (403, ''registration token expired'')
        else (case b64_decode (he_crypto env) (trim sig) of
            None \<Rightarrow> Inl (400, ''malformed token signature'')
          | Some bs \<Rightarrow>
              if length bs \<noteq> 64 then Inl (400, ''malformed token signature'')
              else if verify_msg (he_crypto env) (he_public env key) (reg_signing_bytes expiry) bs then Inr ()
              else Inl (403, ''invalid registration token'')))"

definition ttl_error :: "u64 \<Rightarrow> nat \<times> string" where
  "ttl_error limit = (400, ''ttl_seconds must be 1..='' @ dec_string (unat limit))"

definition sign_reg_token :: "hub_env \<Rightarrow> bytes \<Rightarrow> u64 \<Rightarrow> u64 \<Rightarrow> (string \<times> u64) answer" where
  "sign_reg_token env key ttl now =
     (if ttl = 0 \<or> ttl > MAX_REG_TTL then Inl (ttl_error MAX_REG_TTL)
      else let expiry = sat_add_u64 now ttl in
        Inr (he_encode_reg env (expiry, b64_encode (he_crypto env) (sign_msg (he_crypto env) key (reg_signing_bytes expiry))), expiry))"

definition create_reg_token :: "hub_env \<Rightarrow> u64 option \<Rightarrow> u64 \<Rightarrow> (string \<times> u64) answer" where
  "create_reg_token env ttl now = (case he_signing env of
      None \<Rightarrow> Inl no_key
    | Some key \<Rightarrow> sign_reg_token env key (case ttl of None \<Rightarrow> DEFAULT_REG_TTL | Some t \<Rightarrow> t) now)"

definition pack_setup_token :: "hub_env \<Rightarrow> string \<Rightarrow> string \<Rightarrow> string" where
  "pack_setup_token env reg_token invite_token = he_encode_text env (reg_token @ ''.'' @ invite_token)"

definition create_setup_token :: "hub_env \<Rightarrow> u64 option \<Rightarrow> invite_request \<Rightarrow> u64 \<Rightarrow> string \<Rightarrow> string \<Rightarrow> string \<Rightarrow> saved \<Rightarrow> hub \<Rightarrow>
    (string \<times> u64 \<times> invite) answer \<times> hub" where
  "create_setup_token env ttl rq unix token now expires saved h = (case create_reg_token env ttl unix of
      Inl e \<Rightarrow> (Inl e, h)
    | Inr (reg_token, expiry) \<Rightarrow> (case build_invite env (rq\<lparr>iq_payload := None\<rparr>) token now expires saved h of
          (Inl e, h') \<Rightarrow> (Inl e, h')
        | (Inr i, h') \<Rightarrow> (Inr (pack_setup_token env reg_token (iv_token i), expiry, i), h')))"

definition validate_ed25519_pubkey :: "hub_env \<Rightarrow> string \<Rightarrow> unit answer" where
  "validate_ed25519_pubkey env b64 = (case b64_decode (he_crypto env) (trim b64) of
      None \<Rightarrow> Inl (400, ''agent_pubkey must be valid base64'')
    | Some bs \<Rightarrow> if length bs \<noteq> 32 then Inl (400, ''agent_pubkey must be 32 bytes, got '' @ dec_string (length bs)) else Inr ())"

definition exchange :: "hub_env \<Rightarrow> string \<Rightarrow> string \<Rightarrow> u64 \<Rightarrow> u64 \<Rightarrow> (agent_credential \<times> relay_descriptor option) answer" where
  "exchange env token agent_pubkey now later = (case he_signing env of
      None \<Rightarrow> Inl no_key
    | Some key \<Rightarrow> (case verify_reg_token env key token now of
          Inl e \<Rightarrow> Inl e
        | Inr _ \<Rightarrow> (case validate_ed25519_pubkey env agent_pubkey of
              Inl e \<Rightarrow> Inl e
            | Inr _ \<Rightarrow> Inr (sign_agent_credential (he_crypto env) key (trim agent_pubkey) (sat_add_u64 later AGENT_CREDENTIAL_TTL), he_relay env))))"

fun credential_error_text :: "mandate_error \<Rightarrow> string" where
  "credential_error_text MalformedSignature = ''malformed agent-credential signature''"
| "credential_error_text BadSignature = ''agent-credential signature does not verify''"
| "credential_error_text Expired = ''agent-credential has expired''"
| "credential_error_text _ = []"

definition verify_credential_blob :: "hub_env \<Rightarrow> bytes \<Rightarrow> string \<Rightarrow> u64 \<Rightarrow> agent_credential answer" where
  "verify_credential_blob env key blob now = (case he_cred_blob env (trim blob) of
      None \<Rightarrow> Inl (400, ''malformed agent credential'')
    | Some cred \<Rightarrow> (case verify_agent_credential (he_crypto env) cred (he_public env key) now of
          Inl e \<Rightarrow> Inl (403, credential_error_text e)
        | Inr _ \<Rightarrow> Inr cred))"

text \<open>The gate of every route that an agent calls: the hub's key and the agent whom the credential names.\<close>

definition agent_of :: "hub_env \<Rightarrow> string \<Rightarrow> u64 \<Rightarrow> (bytes \<times> agent_credential) answer" where
  "agent_of env blob now = (case he_signing env of
      None \<Rightarrow> Inl no_key
    | Some key \<Rightarrow> (case verify_credential_blob env key blob now of Inl e \<Rightarrow> Inl e | Inr cred \<Rightarrow> Inr (key, cred)))"

definition clamp_token_ttl :: "u64 option \<Rightarrow> u64 answer" where
  "clamp_token_ttl ttl = (let t = (case ttl of None \<Rightarrow> DEFAULT_TOKEN_TTL | Some t \<Rightarrow> t) in if t = 0 \<or> t > MAX_TOKEN_TTL then Inl (ttl_error MAX_TOKEN_TTL) else Inr t)"

section \<open>Shares\<close>

definition client_ip :: "headers \<Rightarrow> string option" where
  "client_ip hs =
     (let nonempty = (\<lambda>v. if v = [] then None else Some v) in
      case Option.bind (map_option trim (map_of hs ''x-real-ip'')) nonempty of
        Some v \<Rightarrow> Some v
      | None \<Rightarrow> Option.bind (map_option (\<lambda>v. trim (hd (split_on CHR '','' v))) (map_of hs ''x-forwarded-for'')) nonempty)"

definition given_or_source :: "string \<Rightarrow> string option \<Rightarrow> headers \<Rightarrow> string answer" where
  "given_or_source missing addr hs =
     (case (case map_option trim addr of Some (c # cs) \<Rightarrow> Some (c # cs) | _ \<Rightarrow> client_ip hs) of
        Some (c # cs) \<Rightarrow> Inr (c # cs)
      | _ \<Rightarrow> Inl (400, missing))"

definition sanitize_extra_addrs :: "string list \<Rightarrow> string \<Rightarrow> string list" where
  "sanitize_extra_addrs raw primary =
     fold (\<lambda>a out. let a = trim a in if a = [] \<or> a = primary \<or> a \<in> set out then out else out @ [a]) raw []"

record add_share_request =
  aq_name :: string
  aq_addr :: "string option"
  aq_addrs :: "string list"
  aq_port :: u16
  aq_ttl :: "u64 option"
  aq_via_relay :: bool
  aq_writable :: bool

text \<open>\<^verbatim>\<open>share_v2::add\<close> up to the save, and its end: the record goes into the table and a token for reading is handed out.\<close>

definition add_share :: "hub_env \<Rightarrow> string \<Rightarrow> add_share_request \<Rightarrow> headers \<Rightarrow> u64 \<Rightarrow> string \<Rightarrow> string \<Rightarrow> saved \<Rightarrow> hub \<Rightarrow>
    (share_record \<times> u64) answer \<times> hub" where
  "add_share env blob rq hs now share_id created saved h = (case agent_of env blob now of
      Inl e \<Rightarrow> (Inl e, h)
    | Inr (key, cred) \<Rightarrow>
        let nm = trim (aq_name rq) in
        if nm = [] then (Inl (400, ''name must not be empty''), h)
        else if aq_port rq = 0 then (Inl (400, ''port must be non-zero''), h)
        else (case clamp_token_ttl (aq_ttl rq) of
            Inl e \<Rightarrow> (Inl e, h)
          | Inr ttl \<Rightarrow> (case given_or_source ''could not determine address, pass addr'' (aq_addr rq) hs of
                Inl e \<Rightarrow> (Inl e, h)
              | Inr addr \<Rightarrow>
                  let r = \<lparr>hr_share_id = share_id, hr_name = nm, hr_owner = [], hr_addr = addr, hr_addrs = sanitize_extra_addrs (aq_addrs rq) addr,
                           hr_port = aq_port rq, hr_agent_pubkey = ac_agent_pubkey cred, hr_created_at = created, hr_comment = ''self-shared (v2)'',
                           hr_via_relay = aq_via_relay rq, hr_writable = aq_writable rq\<rparr>
                  in case saved of Some _ \<Rightarrow> (Inl (500, PERSIST_FAILED), h) | None \<Rightarrow> (Inr (r, sat_add_u64 now ttl), save_share r h))))"

definition insert_share :: "share_record \<Rightarrow> hub \<Rightarrow> hub" where
  "insert_share r h = h\<lparr>hb_shares := (hb_shares h)(hr_share_id r \<mapsto> r)\<rparr>"

definition owned_by :: "agent_credential \<Rightarrow> string \<Rightarrow> hub \<Rightarrow> unit answer" where
  "owned_by cred share_id h = (case hb_shares h share_id of
      None \<Rightarrow> Inl (404, ''share not found'')
    | Some r \<Rightarrow> if hr_agent_pubkey r \<noteq> ac_agent_pubkey cred then Inl (403, ''share belongs to another agent'') else Inr ())"

definition mint :: "hub_env \<Rightarrow> string \<Rightarrow> string \<Rightarrow> u64 option \<Rightarrow> u64 \<Rightarrow> hub \<Rightarrow> share_token answer" where
  "mint env blob share_id ttl now h = (case agent_of env blob now of
      Inl e \<Rightarrow> Inl e
    | Inr (key, cred) \<Rightarrow> (case clamp_token_ttl ttl of
          Inl e \<Rightarrow> Inl e
        | Inr t \<Rightarrow> (case owned_by cred share_id h of
              Inl e \<Rightarrow> Inl e
            | Inr _ \<Rightarrow> Inr (sign_share_token (he_crypto env) key share_id SCOPE_READ (sat_add_u64 now t)))))"

text \<open>\<^verbatim>\<open>unshare\<close> takes the record out of the table, lets go of the lock and then deletes the file.\<close>

definition unshare :: "hub_env \<Rightarrow> string \<Rightarrow> string \<Rightarrow> u64 \<Rightarrow> hub \<Rightarrow> string answer \<times> hub" where
  "unshare env blob share_id now h = (case agent_of env blob now of
      Inl e \<Rightarrow> (Inl e, h)
    | Inr (key, cred) \<Rightarrow> (case owned_by cred share_id h of
          Inl e \<Rightarrow> (Inl e, h)
        | Inr _ \<Rightarrow> (Inr (ac_agent_pubkey cred), h\<lparr>hb_shares := (hb_shares h)(share_id := None)\<rparr>)))"

definition unshare_file :: "string \<Rightarrow> saved \<Rightarrow> hub \<Rightarrow> unit answer \<times> hub" where
  "unshare_file share_id saved h = (case saved of Some _ \<Rightarrow> (Inl (500, PERSIST_FAILED), h) | None \<Rightarrow> (Inr (), delete_share_file share_id h))"

text \<open>\<^verbatim>\<open>attach\<close> and \<^verbatim>\<open>detach\<close>: the check of the owner under one lock, the change of the invite under another.\<close>

definition assert_owns_share :: "hub_env \<Rightarrow> string \<Rightarrow> string \<Rightarrow> u64 \<Rightarrow> hub \<Rightarrow> string answer" where
  "assert_owns_share env blob share_id now h = (case agent_of env blob now of
      Inl e \<Rightarrow> Inl e
    | Inr (key, cred) \<Rightarrow> (case owned_by cred share_id h of Inl e \<Rightarrow> Inl e | Inr _ \<Rightarrow> Inr (ac_agent_pubkey cred)))"

definition attached :: "string \<Rightarrow> bool \<Rightarrow> invite \<Rightarrow> invite" where
  "attached share_id write i =
     (let i1 = (if share_id \<in> set (iv_share_ids i) then i else i\<lparr>iv_share_ids := iv_share_ids i @ [share_id]\<rparr>);
          has_write = share_id \<in> set (iv_write_share_ids i)
      in if write \<and> \<not> has_write then i1\<lparr>iv_write_share_ids := iv_write_share_ids i @ [share_id]\<rparr>
         else if \<not> write \<and> has_write then i1\<lparr>iv_write_share_ids := filter (\<lambda>s. s \<noteq> share_id) (iv_write_share_ids i)\<rparr>
         else i1)"

definition detached :: "string \<Rightarrow> invite \<Rightarrow> invite" where
  "detached share_id i = i\<lparr>iv_share_ids := filter (\<lambda>s. s \<noteq> share_id) (iv_share_ids i),
     iv_write_share_ids := filter (\<lambda>s. s \<noteq> share_id) (iv_write_share_ids i)\<rparr>"

definition rebind :: "(invite \<Rightarrow> invite) \<Rightarrow> string \<Rightarrow> saved \<Rightarrow> hub \<Rightarrow> unit answer \<times> hub" where
  "rebind change token saved h = (case hb_invites h token of
      None \<Rightarrow> (Inl (404, ''invite not found''), h)
    | Some i \<Rightarrow>
        let i' = change i; h1 = h\<lparr>hb_invites := (hb_invites h)(token \<mapsto> i')\<rparr> in
        if i' = i then (Inr (), h1)
        else case saved of Some _ \<Rightarrow> (Inl (500, PERSIST_FAILED), h1) | None \<Rightarrow> (Inr (), save_invite i' h1))"

definition attach :: "string \<Rightarrow> bool \<Rightarrow> string \<Rightarrow> saved \<Rightarrow> hub \<Rightarrow> unit answer \<times> hub" where
  "attach share_id write = rebind (attached share_id write)"

definition detach :: "string \<Rightarrow> string \<Rightarrow> saved \<Rightarrow> hub \<Rightarrow> unit answer \<times> hub" where
  "detach share_id = rebind (detached share_id)"

text \<open>\<^verbatim>\<open>invite_shares\<close>: what the invite binds under one lock, the records and the grants under another.\<close>

definition invite_bindings :: "hub_env \<Rightarrow> string \<Rightarrow> string \<Rightarrow> hub \<Rightarrow> (string list \<times> string list) answer" where
  "invite_bindings env token now h = (case he_signing env of
      None \<Rightarrow> Inl no_key
    | Some key \<Rightarrow> (case hb_invites h token of
          None \<Rightarrow> Inl (404, ''invite not found'')
        | Some i \<Rightarrow>
            if iv_expires_at i \<le> now then Inl (410, ''invite expired'')
            else if iv_consumed_at i \<noteq> None then Inl (410, ''invite revoked'')
            else Inr (iv_share_ids i, iv_write_share_ids i)))"

definition WRITE_SCOPES :: string where "WRITE_SCOPES = SCOPE_READ @ '' '' @ SCOPE_WRITE @ '' '' @ SCOPE_IMPORT"

definition grant_scope :: "share_record \<Rightarrow> string list \<Rightarrow> string \<Rightarrow> string" where
  "grant_scope r write_ids sid = (if hr_writable r \<and> sid \<in> set write_ids then WRITE_SCOPES else SCOPE_READ)"

definition share_grant_of :: "hub_env \<Rightarrow> bytes \<Rightarrow> string list \<Rightarrow> u64 \<Rightarrow> string \<Rightarrow> share_record \<Rightarrow> share_grant" where
  "share_grant_of env key write_ids expiry sid r =
     \<lparr>sg_share_id = hr_share_id r, sg_name = hr_name r, sg_addr = hr_addr r, sg_addrs = hr_addrs r, sg_port = hr_port r, sg_agent_pubkey = hr_agent_pubkey r,
      sg_token = he_encode_token env (sign_share_token (he_crypto env) key sid (grant_scope r write_ids sid) expiry), sg_exp = expiry,
      sg_relay = (if hr_via_relay r then map_option (\<lambda>d. \<lparr>rt_addr = rd_addr d, rt_port = rd_port d, rt_obf = rd_obf d,
          rt_relay_token = sign_relay_token (he_crypto env) key sid (hr_agent_pubkey r) expiry\<rparr>) (he_relay env) else None)\<rparr>"

definition bound_records :: "string list \<Rightarrow> hub \<Rightarrow> (string \<times> share_record) list" where
  "bound_records ids h = List.map_filter (\<lambda>sid. map_option (Pair sid) (hb_shares h sid)) ids"

definition invite_shares :: "hub_env \<Rightarrow> bytes \<Rightarrow> string list \<Rightarrow> string list \<Rightarrow> u64 \<Rightarrow> hub \<Rightarrow> share_grant list" where
  "invite_shares env key ids write_ids now h =
     map (\<lambda>(sid, r). share_grant_of env key write_ids (sat_add_u64 now DEFAULT_TOKEN_TTL) sid r) (bound_records ids h)"

section \<open>The routes of the administrator\<close>

record create_share_request =
  cq_name :: string
  cq_owner :: string
  cq_addr :: string
  cq_port :: u16
  cq_agent_pubkey :: string
  cq_comment :: string

definition create_share :: "hub_env \<Rightarrow> create_share_request \<Rightarrow> string \<Rightarrow> string \<Rightarrow> saved \<Rightarrow> hub \<Rightarrow> share_record answer \<times> hub" where
  "create_share env rq share_id created saved h =
     (if trim (cq_name rq) = [] then (Inl (400, ''name must not be empty''), h)
      else if trim (cq_addr rq) = [] then (Inl (400, ''addr must not be empty''), h)
      else if cq_port rq = 0 then (Inl (400, ''port must be non-zero''), h)
      else case validate_ed25519_pubkey env (cq_agent_pubkey rq) of
          Inl e \<Rightarrow> (Inl e, h)
        | Inr _ \<Rightarrow>
            let r = \<lparr>hr_share_id = share_id, hr_name = trim (cq_name rq), hr_owner = trim (cq_owner rq), hr_addr = trim (cq_addr rq), hr_addrs = [],
                     hr_port = cq_port rq, hr_agent_pubkey = trim (cq_agent_pubkey rq), hr_created_at = created, hr_comment = trim (cq_comment rq),
                     hr_via_relay = False, hr_writable = False\<rparr>
            in case saved of Some e \<Rightarrow> (Inl (500, e), h) | None \<Rightarrow> (Inr r, save_share r h))"

definition delete_share :: "string \<Rightarrow> saved \<Rightarrow> hub \<Rightarrow> unit answer \<times> hub" where
  "delete_share share_id saved h = (case hb_shares h share_id of
      None \<Rightarrow> (Inl (404, ''share not found''), h)
    | Some _ \<Rightarrow> (let h1 = h\<lparr>hb_shares := (hb_shares h)(share_id := None)\<rparr> in
        case saved of Some e \<Rightarrow> (Inl (500, e), h1) | None \<Rightarrow> (Inr (), delete_share_file share_id h1)))"

definition mint_token :: "hub_env \<Rightarrow> string \<Rightarrow> u64 option \<Rightarrow> u64 \<Rightarrow> hub \<Rightarrow> share_token answer" where
  "mint_token env share_id ttl now h = (case he_signing env of
      None \<Rightarrow> Inl no_key
    | Some key \<Rightarrow>
        if share_id \<notin> dom (hb_shares h) then Inl (404, ''share not found'')
        else (case clamp_token_ttl ttl of Inl e \<Rightarrow> Inl e | Inr t \<Rightarrow> Inr (sign_share_token (he_crypto env) key share_id SCOPE_READ (sat_add_u64 now t))))"

text \<open>The older way in: a share from a registration token alone.\<close>

record register_request =
  gq_name :: string
  gq_addr :: "string option"
  gq_port :: u16
  gq_agent_pubkey :: string
  gq_owner :: string

definition register :: "hub_env \<Rightarrow> string \<Rightarrow> register_request \<Rightarrow> headers \<Rightarrow> u64 \<Rightarrow> string \<Rightarrow> string \<Rightarrow> saved \<Rightarrow> hub \<Rightarrow> share_record answer \<times> hub" where
  "register env token rq hs now share_id created saved h = (case he_signing env of
      None \<Rightarrow> (Inl no_key, h)
    | Some key \<Rightarrow> (case verify_reg_token env key token now of
          Inl e \<Rightarrow> (Inl e, h)
        | Inr _ \<Rightarrow> (case validate_ed25519_pubkey env (gq_agent_pubkey rq) of
              Inl e \<Rightarrow> (Inl e, h)
            | Inr _ \<Rightarrow>
                if gq_port rq = 0 then (Inl (400, ''port must be non-zero''), h)
                else (case given_or_source (''could not determine address '' @ [CHR 0xE2, CHR 0x80, CHR 0x94] @ '' pass addr'') (gq_addr rq) hs of
                    Inl e \<Rightarrow> (Inl e, h)
                  | Inr addr \<Rightarrow>
                      let nm = trim (gq_name rq);
                          r = \<lparr>hr_share_id = share_id, hr_name = (if nm = [] then ''agent '' @ addr else nm), hr_owner = trim (gq_owner rq), hr_addr = addr, hr_addrs = [],
                               hr_port = gq_port rq, hr_agent_pubkey = trim (gq_agent_pubkey rq), hr_created_at = created, hr_comment = ''self-registered'',
                               hr_via_relay = False, hr_writable = False\<rparr>
                      in case saved of Some _ \<Rightarrow> (Inl (500, PERSIST_FAILED), h) | None \<Rightarrow> (Inr r, save_share r h)))))"

end
