(* ===== verification/Hub_Access.thy ===== *)
theory Hub_Access
  imports Hub
begin

text \<open>
  The hub's handlers interleaved with each other, with failing saves and with restarts: the step relation, and what holds in every history.
  A task stands for a handler between two of its steps. The log, the set of what was signed and the set of ids that were ever
  drawn are not part of the program; they are what the theorems speak about. Drawn tokens and ids have 128 random bits and are taken to be
  new, also across restarts. Routes of the administrator may be called at any time.
\<close>

section \<open>Histories\<close>

datatype hub_task = Saved_Invite invite | Saved_Share share_record "u64 option" | Unlisted string
  | Owner string string string "bool option" | Listing string "string list" "string list" | Ended

datatype hub_event = Claimed string "string option" bool | Revoked string | Listed string | Added string string bool
  | Bound string string bool string | Unbound string string string | Withdrawn string string | Minted string string

record hub_sys =
  hy_hub :: hub
  hy_tasks :: "hub_task list"
  hy_issued :: "mandate set"
  hy_used :: "string set"
  hy_log :: "hub_event list"

datatype hub_action = Claim string headers string saved | Revoke string string saved | Build invite_request string string string saved
  | Setup "u64 option" invite_request u64 string string string saved | RegToken "u64 option" u64 | Exchange string string u64 u64
  | Add string add_share_request headers u64 string string saved | Register string register_request headers u64 string string saved
  | CreateShare create_share_request string string saved | Insert nat | Mint string string "u64 option" u64 | AdminMint string "u64 option" u64
  | Unshare string string u64 | DeleteFile nat saved | AdminDelete string saved | Own string string string "bool option" u64 | Bind nat saved
  | ListShares string string | Grant nat u64 | Restart

definition one_time_of :: "string \<Rightarrow> hub \<Rightarrow> bool" where
  "one_time_of token h = (case hb_invites h token of None \<Rightarrow> False | Some i \<Rightarrow> iv_one_time i)"

definition granted :: "hub_env \<Rightarrow> string list \<Rightarrow> u64 \<Rightarrow> (string \<times> share_record) list \<Rightarrow> mandate set" where
  "granted env write_ids expiry rs =
     (\<lambda>(sid, r). MShare sid (grant_scope r write_ids sid) expiry) ` set rs \<union>
     (\<lambda>(sid, r). MRelay sid (hr_agent_pubkey r) expiry) ` set (filter (\<lambda>(sid, r). hr_via_relay r \<and> he_relay env \<noteq> None) rs)"

definition share_saved :: "share_record \<Rightarrow> u64 option \<Rightarrow> hub \<Rightarrow> hub_sys \<Rightarrow> hub_sys" where
  "share_saved r e h s = s\<lparr>hy_hub := h, hy_tasks := hy_tasks s @ [Saved_Share r e], hy_used := insert (hr_share_id r) (hy_used s),
     hy_log := Added (hr_share_id r) (hr_agent_pubkey r) (hr_writable r) # hy_log s\<rparr>"

definition invite_saved :: "invite \<Rightarrow> hub \<Rightarrow> hub_sys \<Rightarrow> hub_sys" where
  "invite_saved i h s = s\<lparr>hy_hub := h, hy_tasks := hy_tasks s @ [Saved_Invite i], hy_used := insert (iv_token i) (hy_used s)\<rparr>"

text \<open>The second halves of the handlers: a task at its turn.\<close>

definition task_at :: "nat \<Rightarrow> hub_sys \<Rightarrow> hub_task" where
  "task_at k s = (if k < length (hy_tasks s) then hy_tasks s ! k else Ended)"

definition end_task :: "nat \<Rightarrow> hub_sys \<Rightarrow> hub_sys" where
  "end_task k s = s\<lparr>hy_tasks := (hy_tasks s)[k := Ended]\<rparr>"

definition insert_turn :: "nat \<Rightarrow> hub_sys \<Rightarrow> hub_sys option" where
  "insert_turn k s = (case task_at k s of
      Saved_Invite i \<Rightarrow> Some ((end_task k s)\<lparr>hy_hub := insert_invite i (hy_hub s)\<rparr>)
    | Saved_Share r e \<Rightarrow> Some ((end_task k s)\<lparr>hy_hub := insert_share r (hy_hub s),
        hy_issued := (case e of None \<Rightarrow> {} | Some expiry \<Rightarrow> {MShare (hr_share_id r) SCOPE_READ expiry}) \<union> hy_issued s\<rparr>)
    | _ \<Rightarrow> None)"

definition delete_turn :: "saved \<Rightarrow> nat \<Rightarrow> hub_sys \<Rightarrow> hub_sys option" where
  "delete_turn saved k s = (case task_at k s of
      Unlisted sid \<Rightarrow> Some ((end_task k s)\<lparr>hy_hub := snd (unshare_file sid saved (hy_hub s))\<rparr>)
    | _ \<Rightarrow> None)"

definition bind_turn :: "saved \<Rightarrow> nat \<Rightarrow> hub_sys \<Rightarrow> hub_sys option" where
  "bind_turn saved k s = (case task_at k s of
      Owner a sid token wr \<Rightarrow>
        (let h = (case wr of Some write \<Rightarrow> snd (attach sid write token saved (hy_hub s)) | None \<Rightarrow> snd (detach sid token saved (hy_hub s)));
             e = (case wr of Some write \<Rightarrow> Bound token sid write a | None \<Rightarrow> Unbound token sid a)
         in Some ((end_task k s)\<lparr>hy_hub := h, hy_log := (if hb_invites (hy_hub s) token = None then [] else [e]) @ hy_log s\<rparr>))
    | _ \<Rightarrow> None)"

definition grant_turn :: "hub_env \<Rightarrow> u64 \<Rightarrow> nat \<Rightarrow> hub_sys \<Rightarrow> hub_sys option" where
  "grant_turn env now k s = (case task_at k s of
      Listing token ids write_ids \<Rightarrow> Some ((end_task k s)\<lparr>
        hy_issued := granted env write_ids (sat_add_u64 now DEFAULT_TOKEN_TTL) (bound_records ids (hy_hub s)) \<union> hy_issued s\<rparr>)
    | _ \<Rightarrow> None)"

fun hub_move :: "hub_env \<Rightarrow> hub_action \<Rightarrow> hub_sys \<Rightarrow> hub_sys option" where
  "hub_move env (Claim token hs now saved) s = (case claim_invite env token hs now saved (hy_hub s) of
      (Inl _, h) \<Rightarrow> Some (s\<lparr>hy_hub := h\<rparr>)
    | (Inr _, h) \<Rightarrow> Some (s\<lparr>hy_hub := h, hy_log := Claimed token (claim_id_header hs) (one_time_of token (hy_hub s)) # hy_log s\<rparr>))"
| "hub_move env (Revoke token now saved) s = (case revoke_invite token now saved (hy_hub s) of
      (Inl _, h) \<Rightarrow> Some (s\<lparr>hy_hub := h\<rparr>)
    | (Inr _, h) \<Rightarrow> Some (s\<lparr>hy_hub := h, hy_log := Revoked token # hy_log s\<rparr>))"
| "hub_move env (Build rq token now expires saved) s = (if token \<in> hy_used s then None else
     case build_invite env rq token now expires saved (hy_hub s) of (Inl _, _) \<Rightarrow> Some s | (Inr i, h) \<Rightarrow> Some (invite_saved i h s))"
| "hub_move env (Setup ttl rq unix token now expires saved) s = (if token \<in> hy_used s then None else
     let s1 = (case create_reg_token env ttl unix of Inl _ \<Rightarrow> s | Inr (_, expiry) \<Rightarrow> s\<lparr>hy_issued := insert (MReg expiry) (hy_issued s)\<rparr>) in
     case create_setup_token env ttl rq unix token now expires saved (hy_hub s) of (Inl _, _) \<Rightarrow> Some s1 | (Inr (_, _, i), h) \<Rightarrow> Some (invite_saved i h s1))"
| "hub_move env (RegToken ttl now) s = (case create_reg_token env ttl now of
      Inl _ \<Rightarrow> Some s | Inr (_, expiry) \<Rightarrow> Some (s\<lparr>hy_issued := insert (MReg expiry) (hy_issued s)\<rparr>))"
| "hub_move env (Exchange token pk now later) s = (case exchange env token pk now later of
      Inl _ \<Rightarrow> Some s | Inr (cred, _) \<Rightarrow> Some (s\<lparr>hy_issued := insert (MAgent (ac_agent_pubkey cred) (ac_exp cred)) (hy_issued s)\<rparr>))"
| "hub_move env (Add blob rq hs now sid created saved) s = (if sid \<in> hy_used s then None else
     case add_share env blob rq hs now sid created saved (hy_hub s) of (Inl _, _) \<Rightarrow> Some s | (Inr (r, expiry), h) \<Rightarrow> Some (share_saved r (Some expiry) h s))"
| "hub_move env (Register token rq hs now sid created saved) s = (if sid \<in> hy_used s then None else
     case register env token rq hs now sid created saved (hy_hub s) of (Inl _, _) \<Rightarrow> Some s | (Inr r, h) \<Rightarrow> Some (share_saved r None h s))"
| "hub_move env (CreateShare rq sid created saved) s = (if sid \<in> hy_used s then None else
     case create_share env rq sid created saved (hy_hub s) of (Inl _, _) \<Rightarrow> Some s | (Inr r, h) \<Rightarrow> Some (share_saved r None h s))"
| "hub_move env (Mint blob sid ttl now) s = (case mint env blob sid ttl now (hy_hub s) of
      Inl _ \<Rightarrow> Some s
    | Inr tok \<Rightarrow> (case agent_of env blob now of
        Inl _ \<Rightarrow> None
      | Inr (_, cred) \<Rightarrow> Some (s\<lparr>hy_issued := insert (MShare sid (st_scope tok) (st_exp tok)) (hy_issued s), hy_log := Minted sid (ac_agent_pubkey cred) # hy_log s\<rparr>)))"
| "hub_move env (AdminMint sid ttl now) s = (case mint_token env sid ttl now (hy_hub s) of
      Inl _ \<Rightarrow> Some s | Inr tok \<Rightarrow> Some (s\<lparr>hy_issued := insert (MShare sid (st_scope tok) (st_exp tok)) (hy_issued s)\<rparr>))"
| "hub_move env (Unshare blob sid now) s = (case unshare env blob sid now (hy_hub s) of
      (Inl _, _) \<Rightarrow> Some s
    | (Inr a, h) \<Rightarrow> Some (s\<lparr>hy_hub := h, hy_tasks := hy_tasks s @ [Unlisted sid], hy_log := Withdrawn sid a # hy_log s\<rparr>))"
| "hub_move env (AdminDelete sid saved) s = Some (s\<lparr>hy_hub := snd (delete_share sid saved (hy_hub s))\<rparr>)"
| "hub_move env (Own blob sid token write now) s = (case assert_owns_share env blob sid now (hy_hub s) of
      Inl _ \<Rightarrow> Some s | Inr a \<Rightarrow> Some (s\<lparr>hy_tasks := hy_tasks s @ [Owner a sid token write]\<rparr>))"
| "hub_move env (ListShares token now) s = (case invite_bindings env token now (hy_hub s) of
      Inl _ \<Rightarrow> Some s
    | Inr (ids, write_ids) \<Rightarrow> Some (s\<lparr>hy_tasks := hy_tasks s @ [Listing token ids write_ids], hy_log := Listed token # hy_log s\<rparr>))"
| "hub_move env (Insert k) s = insert_turn k s"
| "hub_move env (DeleteFile k saved) s = delete_turn saved k s"
| "hub_move env (Bind k saved) s = bind_turn saved k s"
| "hub_move env (Grant k now) s = grant_turn env now k s"
| "hub_move env Restart s = Some (s\<lparr>hy_hub := hydrate (hy_hub s), hy_tasks := []\<rparr>)"

definition hub_step :: "hub_env \<Rightarrow> hub_sys \<Rightarrow> hub_sys \<Rightarrow> bool" where
  "hub_step env s s' \<longleftrightarrow> (\<exists>a. hub_move env a s = Some s')"

definition hub_init :: "hub_sys \<Rightarrow> bool" where
  "hub_init s \<longleftrightarrow> hy_hub s = \<lparr>hb_invites = Map.empty, hb_shares = Map.empty, hb_disk_invites = Map.empty, hb_disk_shares = Map.empty\<rparr> \<and>
     hy_tasks s = [] \<and> hy_issued s = {} \<and> hy_used s = {} \<and> hy_log s = []"

section \<open>One-time invites and revocation\<close>

definition both_invites :: "(string \<Rightarrow> invite \<Rightarrow> bool) \<Rightarrow> hub \<Rightarrow> bool" where
  "both_invites P h \<longleftrightarrow> (\<forall>t i. hb_invites h t = Some i \<or> hb_disk_invites h t = Some i \<longrightarrow> P t i)"

text \<open>What the log says of an invite shows in its record, in memory and on disk.\<close>

definition spent :: "hub_event list \<Rightarrow> string \<Rightarrow> invite \<Rightarrow> bool" where
  "spent log t i \<longleftrightarrow> (\<forall>k. Claimed t k True \<in> set log \<longrightarrow> iv_consumed_at i \<noteq> None \<and> (iv_claim_id i = None \<or> iv_claim_id i = k)) \<and>
     (Revoked t \<in> set log \<longrightarrow> iv_consumed_at i \<noteq> None \<and> iv_claim_id i = None) \<and>
     (\<forall>k. iv_claim_id i = Some k \<longrightarrow> Claimed t (Some k) True \<in> set log)"

fun claims_ok :: "hub_event list \<Rightarrow> bool" where
  "claims_ok [] = True"
| "claims_ok (e # es) \<longleftrightarrow> claims_ok es \<and> (case e of
      Claimed t k b \<Rightarrow> Revoked t \<notin> set es \<and> (\<forall>k1. Claimed t k1 True \<in> set es \<longrightarrow> k = k1 \<and> k \<noteq> None)
    | Listed t \<Rightarrow> Revoked t \<notin> set es \<and> (\<forall>k. Claimed t k True \<notin> set es)
    | _ \<Rightarrow> True)"

definition pending :: "hub_sys \<Rightarrow> nat \<Rightarrow> invite option" where
  "pending s k = (case task_at k s of Saved_Invite i \<Rightarrow> Some i | _ \<Rightarrow> None)"

definition pending_ok :: "hub_sys \<Rightarrow> bool" where
  "pending_ok s \<longleftrightarrow> (\<forall>k i. pending s k = Some i \<longrightarrow> hb_invites (hy_hub s) (iv_token i) = None \<and> hb_disk_invites (hy_hub s) (iv_token i) = Some i \<and>
     (\<forall>k' i'. pending s k' = Some i' \<and> iv_token i' = iv_token i \<longrightarrow> k' = k))"

definition untouched :: "string \<Rightarrow> hub_event list \<Rightarrow> bool" where
  "untouched t log \<longleftrightarrow> (\<forall>k b. Claimed t k b \<notin> set log) \<and> Revoked t \<notin> set log"

definition claims_inv :: "hub_env \<Rightarrow> hub_sys \<Rightarrow> bool" where
  "claims_inv env s \<longleftrightarrow> he_dev_mode env \<or>
     (both_invites (\<lambda>t i. iv_token i = t \<and> t \<in> hy_used s \<and> spent (hy_log s) t i) (hy_hub s) \<and> pending_ok s \<and> claims_ok (hy_log s) \<and>
      (\<forall>t. t \<notin> hy_used s \<longrightarrow> untouched t (hy_log s)))"

lemma both_invites_simps [simp]:
  "both_invites P (save_share r h) = both_invites P h" "both_invites P (delete_share_file sid h) = both_invites P h"
  "both_invites P (insert_share r h) = both_invites P h" "both_invites P (h\<lparr>hb_shares := m\<rparr>) = both_invites P h"
  by (auto simp: both_invites_def save_share_def delete_share_file_def insert_share_def)

lemma both_invites_save: "both_invites P h \<Longrightarrow> P (iv_token i) i \<Longrightarrow> both_invites P (save_invite i h)"
  by (auto simp: both_invites_def save_invite_def)

lemma both_invites_put: "both_invites P h \<Longrightarrow> P t i \<Longrightarrow> both_invites P (h\<lparr>hb_invites := (hb_invites h)(t \<mapsto> i)\<rparr>)"
  by (auto simp: both_invites_def)

lemma both_invites_mono: "both_invites P h \<Longrightarrow> (\<And>t i. P t i \<Longrightarrow> Q t i) \<Longrightarrow> both_invites Q h"
  by (auto simp: both_invites_def)

lemma task_at_simps [simp]:
  "task_at k (s\<lparr>hy_hub := h\<rparr>) = task_at k s" "task_at k (s\<lparr>hy_issued := m\<rparr>) = task_at k s" "task_at k (s\<lparr>hy_used := u\<rparr>) = task_at k s"
  "task_at k (s\<lparr>hy_log := l\<rparr>) = task_at k s"
  "task_at k (end_task j s) = (if k = j then Ended else task_at k s)"
  "task_at k (s'\<lparr>hy_tasks := hy_tasks s @ [t]\<rparr>) = (if k = length (hy_tasks s) then t else task_at k s)"
  by (auto simp: task_at_def end_task_def nth_append nth_list_update)

lemma end_task_sel [simp]:
  "hy_hub (end_task k s) = hy_hub s" "hy_issued (end_task k s) = hy_issued s" "hy_used (end_task k s) = hy_used s" "hy_log (end_task k s) = hy_log s"
  by (simp_all add: end_task_def)

text \<open>Steps that do not touch invites.\<close>

definition calm :: "hub_event \<Rightarrow> bool" where
  "calm e \<longleftrightarrow> (case e of Claimed _ _ _ \<Rightarrow> False | Revoked _ \<Rightarrow> False | Listed _ \<Rightarrow> False | _ \<Rightarrow> True)"

lemma calm_events:
  assumes "\<forall>e \<in> set es. calm e"
  shows "Claimed t k b \<in> set (es @ log) \<longleftrightarrow> Claimed t k b \<in> set log" "Revoked t \<in> set (es @ log) \<longleftrightarrow> Revoked t \<in> set log"
proof -
  have "Claimed t k b \<notin> set es" "Revoked t \<notin> set es" using assms by (auto simp: calm_def)
  then show "Claimed t k b \<in> set (es @ log) \<longleftrightarrow> Claimed t k b \<in> set log" "Revoked t \<in> set (es @ log) \<longleftrightarrow> Revoked t \<in> set log" by simp_all
qed

lemma spent_calm: "\<forall>e \<in> set es. calm e \<Longrightarrow> spent (es @ log) t i = spent log t i"
  unfolding spent_def by (simp only: calm_events)

lemma untouched_calm: "\<forall>e \<in> set es. calm e \<Longrightarrow> untouched t (es @ log) = untouched t log"
  unfolding untouched_def by (simp only: calm_events)

lemma claims_ok_calm: "\<forall>e \<in> set es. calm e \<Longrightarrow> claims_ok (es @ log) = claims_ok log"
  by (induction es) (auto simp: calm_def split: hub_event.splits)

lemma claims_inv_calm:
  assumes "claims_inv env s" and "hb_invites (hy_hub s') = hb_invites (hy_hub s)" "hb_disk_invites (hy_hub s') = hb_disk_invites (hy_hub s)"
    and "hy_used s \<subseteq> hy_used s'" and "hy_log s' = es @ hy_log s" "\<forall>e \<in> set es. calm e"
    and "\<And>k i. pending s' k = Some i \<Longrightarrow> pending s k = Some i"
  shows "claims_inv env s'"
proof -
  have "pending_ok s \<Longrightarrow> pending_ok s'" using assms(2,3,7) unfolding pending_ok_def by metis
  moreover have "both_invites P (hy_hub s') = both_invites P (hy_hub s)" for P using assms(2,3) by (simp add: both_invites_def)
  ultimately show ?thesis using assms(1,4)
    unfolding claims_inv_def assms(5) untouched_calm [OF assms(6)] claims_ok_calm [OF assms(6)] spent_calm [OF assms(6)]
    by (auto elim!: both_invites_mono)
qed

lemma pending_simps [simp]:
  "pending (s\<lparr>hy_hub := h\<rparr>) = pending s" "pending (s\<lparr>hy_issued := m\<rparr>) = pending s" "pending (s\<lparr>hy_used := u\<rparr>) = pending s"
  "pending (s\<lparr>hy_log := l\<rparr>) = pending s" "pending (end_task j s) = (pending s)(j := None)"
  by (auto simp: pending_def fun_eq_iff)

lemma pending_new: "pending (s'\<lparr>hy_tasks := hy_tasks s @ [t]\<rparr>) = (pending s)(length (hy_tasks s) := (case t of Saved_Invite i \<Rightarrow> Some i | _ \<Rightarrow> None))"
  by (auto simp: pending_def fun_eq_iff)

lemma pending_ok_put:
  assumes "pending_ok s" and "hb_invites (hy_hub s) token \<noteq> None" and "pending s' = pending s"
    and "\<And>t. t \<noteq> token \<Longrightarrow> hb_invites (hy_hub s') t = hb_invites (hy_hub s) t \<and> hb_disk_invites (hy_hub s') t = hb_disk_invites (hy_hub s) t"
  shows "pending_ok s'"
  unfolding pending_ok_def assms(3)
proof (intro allI impI)
  fix k i
  assume p: "pending s k = Some i"
  have q: "hb_invites (hy_hub s) (iv_token i) = None" "hb_disk_invites (hy_hub s) (iv_token i) = Some i"
      "\<forall>k' i'. pending s k' = Some i' \<and> iv_token i' = iv_token i \<longrightarrow> k' = k" using assms(1) p unfolding pending_ok_def by blast+
  then have "iv_token i \<noteq> token" using assms(2) by metis
  then show "hb_invites (hy_hub s') (iv_token i) = None \<and> hb_disk_invites (hy_hub s') (iv_token i) = Some i \<and>
      (\<forall>k' i'. pending s k' = Some i' \<and> iv_token i' = iv_token i \<longrightarrow> k' = k)" using q assms(4) by metis
qed

text \<open>Where the invariant comes from when one invite of the table is replaced, in memory and maybe on disk.\<close>

lemma claims_inv_put:
  assumes "claims_inv env s" and "\<not> he_dev_mode env" and "hb_invites (hy_hub s) token = Some i" and "pending s' = pending s" and "hy_used s' = hy_used s"
    and "\<And>t. t \<noteq> token \<Longrightarrow> hb_invites (hy_hub s') t = hb_invites (hy_hub s) t \<and> hb_disk_invites (hy_hub s') t = hb_disk_invites (hy_hub s) t"
    and "\<And>j. hb_invites (hy_hub s') token = Some j \<or> hb_disk_invites (hy_hub s') token = Some j \<Longrightarrow> iv_token j = token \<and> spent (hy_log s') token j"
    and "hy_log s' = es @ hy_log s" and "\<And>t j. t \<noteq> token \<Longrightarrow> spent (hy_log s') t j = spent (hy_log s) t j" and "claims_ok (hy_log s')"
    and "\<And>t. t \<noteq> token \<Longrightarrow> untouched t (hy_log s') = untouched t (hy_log s)"
  shows "claims_inv env s'"
proof -
  have inv: "both_invites (\<lambda>t i. iv_token i = t \<and> t \<in> hy_used s \<and> spent (hy_log s) t i) (hy_hub s)" "pending_ok s" "\<forall>t. t \<notin> hy_used s \<longrightarrow> untouched t (hy_log s)"
    using assms(1,2) by (auto simp: claims_inv_def)
  have u: "token \<in> hy_used s" using inv(1) assms(3) by (auto simp: both_invites_def)
  have "both_invites (\<lambda>t i. iv_token i = t \<and> t \<in> hy_used s' \<and> spent (hy_log s') t i) (hy_hub s')"
    unfolding both_invites_def
  proof (intro allI impI)
    fix t j
    assume j: "hb_invites (hy_hub s') t = Some j \<or> hb_disk_invites (hy_hub s') t = Some j"
    show "iv_token j = t \<and> t \<in> hy_used s' \<and> spent (hy_log s') t j"
    proof (cases "t = token")
      case True
      then show ?thesis using assms(5,7) j u by auto
    next
      case False
      then show ?thesis using inv(1) j assms(5,6,9) by (auto simp: both_invites_def)
    qed
  qed
  moreover have "pending_ok s'" by (rule pending_ok_put [OF inv(2) _ assms(4,6)]) (use assms(3) in auto)
  moreover have "\<forall>t. t \<notin> hy_used s' \<longrightarrow> untouched t (hy_log s')"
    using inv(3) u assms(5,11) by metis
  ultimately show ?thesis using assms(10) by (simp add: claims_inv_def)
qed

lemma spent_cong:
  assumes "\<And>k. Claimed t k True \<in> set l \<longleftrightarrow> Claimed t k True \<in> set l'" and "Revoked t \<in> set l \<longleftrightarrow> Revoked t \<in> set l'"
  shows "spent l t j = spent l' t j"
  unfolding spent_def assms ..

lemma spent_Cons_other: "t \<noteq> token \<Longrightarrow> spent (Claimed token k b # log) t j = spent log t j" "t \<noteq> token \<Longrightarrow> spent (Revoked token # log) t j = spent log t j"
    "spent (Listed token # log) t j = spent log t j" "spent (Claimed token k False # log) t j = spent log t j"
  by (rule spent_cong; simp)+

lemma untouched_Cons_other: "t \<noteq> token \<Longrightarrow> untouched t (Claimed token k b # log) = untouched t log" "t \<noteq> token \<Longrightarrow> untouched t (Revoked token # log) = untouched t log"
    "untouched t (Listed token # log) = untouched t log"
  by (auto simp: untouched_def)

lemma claims_claim:
  assumes "claims_inv env s" and "hub_move env (Claim token hs now saved) s = Some s'"
  shows "claims_inv env s'"
proof (cases "he_dev_mode env \<or> hb_invites (hy_hub s) token = None")
  case True
  then show ?thesis using assms by (auto simp: claims_inv_def claim_invite_def)
next
  case False
  then obtain i where i: "hb_invites (hy_hub s) token = Some i" and d: "\<not> he_dev_mode env" by auto
  let ?k = "claim_id_header hs" and ?log = "hy_log s"
  let ?j = "i\<lparr>iv_consumed_at := Some now, iv_claimed_by_ip := claim_client_ip hs, iv_claim_id := ?k\<rparr>"
  have p: "iv_token i = token" "spent ?log token i" "claims_ok ?log"
    and b: "\<And>j. hb_invites (hy_hub s) token = Some j \<or> hb_disk_invites (hy_hub s) token = Some j \<Longrightarrow> iv_token j = token \<and> spent ?log token j"
    using assms(1) d i by (auto simp: claims_inv_def both_invites_def)
  consider "s' = s" | (again) "can_reclaim i ?k now" "s' = s\<lparr>hy_log := Claimed token ?k (iv_one_time i) # ?log\<rparr>"
    | (plain) "iv_consumed_at i = None" "\<not> iv_one_time i" "s' = s\<lparr>hy_log := Claimed token ?k False # ?log\<rparr>"
    | (first) "iv_consumed_at i = None" "iv_one_time i"
        "s' = s\<lparr>hy_hub := (save_invite ?j (hy_hub s))\<lparr>hb_invites := (hb_invites (hy_hub s))(token \<mapsto> ?j)\<rparr>, hy_log := Claimed token ?k True # ?log\<rparr>"
    using assms(2) i d by (simp add: claim_invite_def one_time_of_def Let_def split: if_splits option.splits)
  then show ?thesis
  proof cases
    case again
    obtain k where k: "?k = Some k" "iv_claim_id i = Some k" using again(1) by (auto simp: can_reclaim_def split: option.splits)
    then have c: "Claimed token ?k True \<in> set ?log" "Revoked token \<notin> set ?log" "\<And>k1. Claimed token k1 True \<in> set ?log \<Longrightarrow> k1 = ?k"
      using p(2) by (auto simp: spent_def)
    have "spent (hy_log s') t j = spent ?log t j" for t j by (rule spent_cong) (use c(1) in \<open>auto simp: again(2)\<close>)
    moreover have "\<forall>k1. Claimed token k1 True \<in> set ?log \<longrightarrow> ?k = k1 \<and> ?k \<noteq> None" using c(3) k(1) by (metis option.distinct(1))
    then have "claims_ok (hy_log s')" using c(2) p(3) by (simp add: again(2)) metis
    ultimately show ?thesis using b by (intro claims_inv_put [OF assms(1) d i, where es = "[Claimed token ?k (iv_one_time i)]"]) (simp_all add: again(2) untouched_Cons_other del: claims_ok.simps)
  next
    case plain
    have c: "\<And>k1. Claimed token k1 True \<notin> set ?log" "Revoked token \<notin> set ?log" using plain(1) p(2) by (auto simp: spent_def)
    then show ?thesis using b p(3) by (intro claims_inv_put [OF assms(1) d i, where es = "[Claimed token ?k False]"]) (auto simp: plain(3) untouched_Cons_other spent_Cons_other)
  next
    case first
    have c: "\<And>k1. Claimed token k1 True \<notin> set ?log" "Revoked token \<notin> set ?log" using first(1) p(2) by (auto simp: spent_def)
    have "spent (hy_log s') token ?j" using c first by (auto simp: spent_def)
    then show ?thesis using c p(1,3)
      by (intro claims_inv_put [OF assms(1) d i, where es = "[Claimed token ?k True]"]) (auto simp: first(3) save_invite_def untouched_Cons_other spent_Cons_other)
  qed (use assms(1) in simp)
qed

lemma claims_revoke:
  assumes "claims_inv env s" and "hub_move env (Revoke token now saved) s = Some s'"
  shows "claims_inv env s'"
proof (cases "he_dev_mode env \<or> hb_invites (hy_hub s) token = None")
  case True
  then show ?thesis using assms by (auto simp: claims_inv_def revoke_invite_def)
next
  case False
  then obtain i where i: "hb_invites (hy_hub s) token = Some i" and d: "\<not> he_dev_mode env" by auto
  let ?j = "i\<lparr>iv_consumed_at := Some now, iv_claim_id := None\<rparr>" and ?log = "hy_log s"
  have p: "iv_token i = token" "claims_ok ?log"
    and b: "\<And>j. hb_disk_invites (hy_hub s) token = Some j \<Longrightarrow> iv_token j = token \<and> spent ?log token j"
    using assms(1) d i by (auto simp: claims_inv_def both_invites_def)
  have j: "spent l token ?j" for l by (simp add: spent_def)
  show ?thesis
  proof (cases saved)
    case (Some e)
    then have s': "s' = s\<lparr>hy_hub := (hy_hub s)\<lparr>hb_invites := (hb_invites (hy_hub s))(token \<mapsto> ?j)\<rparr>\<rparr>" using assms(2) i by (simp add: revoke_invite_def Let_def)
    show ?thesis by (rule claims_inv_put [OF assms(1) d i, where es = "[]"]) (use p b j in \<open>auto simp: s'\<close>)
  next
    case None
    then have s': "s' = s\<lparr>hy_hub := save_invite ?j ((hy_hub s)\<lparr>hb_invites := (hb_invites (hy_hub s))(token \<mapsto> ?j)\<rparr>), hy_log := Revoked token # ?log\<rparr>"
      using assms(2) i by (simp add: revoke_invite_def Let_def)
    show ?thesis by (rule claims_inv_put [OF assms(1) d i, where es = "[Revoked token]"]) (use p j in \<open>auto simp: s' save_invite_def spent_Cons_other untouched_Cons_other\<close>)
  qed
qed

lemma claims_bind:
  assumes "claims_inv env s" and "bind_turn saved k s = Some s'"
  shows "claims_inv env s'"
proof -
  obtain a sid token wr where t: "task_at k s = Owner a sid token wr" using assms(2) by (auto simp: bind_turn_def split: hub_task.splits)
  define change where "change = (case wr of Some write \<Rightarrow> attached sid write | None \<Rightarrow> detached sid)"
  define e where "e = (case wr of Some write \<Rightarrow> Bound token sid write a | None \<Rightarrow> Unbound token sid a)"
  let ?h = "snd (rebind change token saved (hy_hub s))"
  have s': "s' = (end_task k s)\<lparr>hy_hub := ?h, hy_log := (if hb_invites (hy_hub s) token = None then [] else [e]) @ hy_log s\<rparr>"
    using assms(2) t by (auto simp: bind_turn_def attach_def detach_def change_def e_def split: option.splits)
  have c: "iv_token (change i) = iv_token i" "iv_consumed_at (change i) = iv_consumed_at i" "iv_claim_id (change i) = iv_claim_id i" for i
    by (auto simp: change_def attached_def detached_def Let_def split: option.splits)
  have calm: "calm e" by (simp add: e_def calm_def split: option.splits)
  have pk: "pending s k = None" using t by (simp add: pending_def)
  show ?thesis
  proof (cases "hb_invites (hy_hub s) token")
    case None
    then show ?thesis using pk by (intro claims_inv_calm [OF assms(1), where es = "[]"]) (auto simp: s' rebind_def split: if_splits)
  next
    case (Some i)
    show ?thesis
    proof (cases "he_dev_mode env")
      case True
      then show ?thesis by (simp add: claims_inv_def)
    next
      case False
      have b: "\<And>j. hb_invites (hy_hub s) token = Some j \<or> hb_disk_invites (hy_hub s) token = Some j \<Longrightarrow> iv_token j = token \<and> spent (hy_log s) token j" "claims_ok (hy_log s)"
        using assms(1) False by (auto simp: claims_inv_def both_invites_def)
      have sp: "spent (e # hy_log s) t j = spent (hy_log s) t j" "untouched t (e # hy_log s) = untouched t (hy_log s)" "claims_ok (e # hy_log s)" for t j
        using spent_calm [where es = "[e]" and log = "hy_log s"] untouched_calm [where es = "[e]" and log = "hy_log s"] claims_ok_calm [where es = "[e]" and log = "hy_log s"] calm b(2)
        by (simp_all del: claims_ok.simps)
      have sc: "spent l t (change j) = spent l t j" for l t j by (simp add: spent_def c)
      have P: "pending s' = pending s" using pk by (auto simp: s' fun_eq_iff)
      show ?thesis
        by (rule claims_inv_put [OF assms(1) False Some P, where es = "[e]"])
          (use b sp sc Some c in \<open>auto simp: s' rebind_def Let_def save_invite_def split: if_splits option.splits\<close>)
    qed
  qed
qed

lemma claims_invite_saved:
  assumes "claims_inv env s" and "iv_token i \<notin> hy_used s" and "iv_claim_id i = None"
  shows "claims_inv env (invite_saved i (save_invite i (hy_hub s)) s)"
proof (cases "he_dev_mode env")
  case False
  let ?s = "invite_saved i (save_invite i (hy_hub s)) s"
  have inv: "both_invites (\<lambda>t i. iv_token i = t \<and> t \<in> hy_used s \<and> spent (hy_log s) t i) (hy_hub s)" "pending_ok s" "claims_ok (hy_log s)"
      "\<forall>t. t \<notin> hy_used s \<longrightarrow> untouched t (hy_log s)" using assms(1) False by (auto simp: claims_inv_def)
  have "untouched (iv_token i) (hy_log s)" using inv(4) assms(2) by blast
  then have "spent (hy_log s) (iv_token i) i" using assms(3) by (auto simp: spent_def untouched_def)
  then have "both_invites (\<lambda>t i. iv_token i = t \<and> t \<in> hy_used ?s \<and> spent (hy_log ?s) t i) (hy_hub ?s)"
    using both_invites_mono [OF inv(1), of "\<lambda>t j. iv_token j = t \<and> t \<in> hy_used ?s \<and> spent (hy_log ?s) t j"] by (auto simp: invite_saved_def intro!: both_invites_save)
  moreover have used: "iv_token j \<noteq> iv_token i" if "pending s k = Some j" for k j
  proof -
    have "hb_disk_invites (hy_hub s) (iv_token j) = Some j" using inv(2) that unfolding pending_ok_def by blast
    then have "iv_token j \<in> hy_used s" using inv(1) unfolding both_invites_def by blast
    then show ?thesis using assms(2) by metis
  qed
  moreover have "hb_invites (hy_hub s) (iv_token i) = None" using inv(1) assms(2) unfolding both_invites_def by (metis not_None_eq)
  then have "pending_ok ?s" using inv(2) used
    by (auto simp: pending_ok_def invite_saved_def pending_new save_invite_def) blast
  moreover have "claims_ok (hy_log ?s)" "\<forall>t. t \<notin> hy_used ?s \<longrightarrow> untouched t (hy_log ?s)" using inv(3,4) by (auto simp: invite_saved_def)
  ultimately show ?thesis by (simp add: claims_inv_def)
qed (simp add: claims_inv_def)

lemma claims_insert:
  assumes "claims_inv env s" and "insert_turn k s = Some s'"
  shows "claims_inv env s'"
proof (cases "pending s k")
  case None
  then show ?thesis using assms(2)
    by (intro claims_inv_calm [OF assms(1), where es = "[]"]) (auto simp: insert_turn_def pending_def insert_share_def split: hub_task.splits if_splits)
next
  case (Some i)
  then have s': "s' = (end_task k s)\<lparr>hy_hub := insert_invite i (hy_hub s)\<rparr>" using assms(2) by (auto simp: insert_turn_def pending_def split: hub_task.splits)
  have "claims_inv env s'" if d: "\<not> he_dev_mode env"
  proof -
    have inv: "both_invites (\<lambda>t i. iv_token i = t \<and> t \<in> hy_used s \<and> spent (hy_log s) t i) (hy_hub s)" "pending_ok s" using assms(1) d by (auto simp: claims_inv_def)
    have i: "hb_disk_invites (hy_hub s) (iv_token i) = Some i" "\<And>k' i'. pending s k' = Some i' \<Longrightarrow> iv_token i' = iv_token i \<Longrightarrow> k' = k"
      using inv(2) Some unfolding pending_ok_def by blast+
    have "iv_token i \<in> hy_used s \<and> spent (hy_log s) (iv_token i) i" using inv(1) i(1) unfolding both_invites_def by blast
    then have "both_invites (\<lambda>t i. iv_token i = t \<and> t \<in> hy_used s \<and> spent (hy_log s) t i) (insert_invite i (hy_hub s))"
      unfolding insert_invite_def by (intro both_invites_put [OF inv(1)]) simp
    moreover have "pending_ok s'" using inv(2) i(2) by (auto simp: pending_ok_def s' insert_invite_def split: if_splits)
    ultimately show ?thesis using assms(1) d by (simp add: claims_inv_def s')
  qed
  then show ?thesis by (cases "he_dev_mode env") (simp_all add: claims_inv_def)
qed

lemma claims_list:
  assumes "claims_inv env s" and "hub_move env (ListShares token now) s = Some s'"
  shows "claims_inv env s'"
proof (cases "he_dev_mode env \<or> s' = s")
  case True
  then show ?thesis using assms(1) by (auto simp: claims_inv_def)
next
  case False
  then have d: "\<not> he_dev_mode env" by simp
  obtain i ids ws where i: "hb_invites (hy_hub s) token = Some i" "iv_consumed_at i = None"
      and s': "s' = s\<lparr>hy_tasks := hy_tasks s @ [Listing token ids ws], hy_log := Listed token # hy_log s\<rparr>"
    using assms(2) False by (auto simp: invite_bindings_def split: option.splits if_splits)
  have b: "\<And>j. hb_invites (hy_hub s) token = Some j \<or> hb_disk_invites (hy_hub s) token = Some j \<Longrightarrow> iv_token j = token \<and> spent (hy_log s) token j" "claims_ok (hy_log s)"
    using assms(1) d by (auto simp: claims_inv_def both_invites_def)
  have "pending s (length (hy_tasks s)) = None" by (simp add: pending_def task_at_def)
  then have P: "pending s' = pending s" by (auto simp: s' pending_new fun_eq_iff)
  have c: "\<And>k1. Claimed token k1 True \<notin> set (hy_log s)" "Revoked token \<notin> set (hy_log s)" using i b(1) [of i] by (auto simp: spent_def)
  show ?thesis
    by (rule claims_inv_put [OF assms(1) d i(1) P, where es = "[Listed token]"]) (use b c in \<open>auto simp: s' spent_Cons_other untouched_Cons_other\<close>)
qed

lemma claims_restart: "claims_inv env s \<Longrightarrow> claims_inv env (s\<lparr>hy_hub := hydrate (hy_hub s), hy_tasks := []\<rparr>)"
  by (auto simp: claims_inv_def both_invites_def hydrate_def pending_ok_def pending_def task_at_def)

lemma build_invite_Inr:
  "build_invite env rq token now expires saved h = (Inr i, h') \<Longrightarrow>
    h' = save_invite i h \<and> iv_token i = token \<and> iv_claim_id i = None \<and> iv_share_ids i = [] \<and> iv_write_share_ids i = []"
  by (auto simp: build_invite_def Let_def split: if_splits option.splits)

lemma setup_Inr:
  "create_setup_token env ttl rq unix token now expires saved h = (Inr (x, y, i), h') \<Longrightarrow>
    h' = save_invite i h \<and> iv_token i = token \<and> iv_claim_id i = None \<and> iv_share_ids i = [] \<and> iv_write_share_ids i = []"
  by (auto simp: create_setup_token_def split: sum.splits prod.splits dest: build_invite_Inr)

lemma add_share_Inr:
  "add_share env blob rq hs now sid created saved h = (Inr (r, e), h') \<Longrightarrow> h' = save_share r h \<and> hr_share_id r = sid"
  by (auto simp: add_share_def Let_def split: sum.splits prod.splits if_splits option.splits)

lemma register_Inr:
  "register env token rq hs now sid created saved h = (Inr r, h') \<Longrightarrow> h' = save_share r h \<and> hr_share_id r = sid"
  by (auto simp: register_def Let_def split: sum.splits if_splits option.splits)

lemma create_share_Inr:
  "create_share env rq sid created saved h = (Inr r, h') \<Longrightarrow> h' = save_share r h \<and> hr_share_id r = sid"
  by (auto simp: create_share_def Let_def split: sum.splits if_splits option.splits)

lemma pending_end: "pending (s'\<lparr>hy_tasks := hy_tasks s @ [t]\<rparr>) k = Some i \<Longrightarrow> (\<And>j. t \<noteq> Saved_Invite j) \<Longrightarrow> pending s k = Some i"
  by (auto simp: pending_new split: if_splits hub_task.splits)

lemma claims_share_saved: "claims_inv env s \<Longrightarrow> claims_inv env (share_saved r e (save_share r (hy_hub s)) s)"
  by (rule claims_inv_calm [where s = s and es = "[Added (hr_share_id r) (hr_agent_pubkey r) (hr_writable r)]"])
    (auto simp: share_saved_def save_share_def calm_def pending_new split: if_splits)

lemma claims_step:
  assumes "claims_inv env s" and "hub_move env a s = Some s'"
  shows "claims_inv env s'"
proof (cases a)
  case (Claim token hs now saved)
  then show ?thesis using claims_claim assms by blast
next
  case (Revoke token now saved)
  then show ?thesis using claims_revoke assms by blast
next
  case (Build rq token now expires saved)
  then show ?thesis using assms claims_invite_saved by (auto dest!: build_invite_Inr split: if_splits prod.splits sum.splits)
next
  case (Setup ttl rq unix token now expires saved)
  have c: "claims_inv env (s\<lparr>hy_issued := m\<rparr>)" for m using assms(1) by (simp add: claims_inv_def pending_ok_def)
  show ?thesis
  proof (cases "create_setup_token env ttl rq unix token now expires saved (hy_hub s)")
    case (Pair r h)
    show ?thesis
    proof (cases r)
      case (Inl e)
      then show ?thesis using assms Setup Pair c by (auto simp: Let_def split: if_splits sum.splits)
    next
      case (Inr x)
      obtain b y i where x: "x = (b, y, i)" by (cases x) auto
      have i: "h = save_invite i (hy_hub s)" "iv_token i = token" "iv_claim_id i = None" using setup_Inr [of env ttl rq unix token now expires saved "hy_hub s" b y i h] Pair Inr x by simp_all
      obtain m where "s' = invite_saved i h (s\<lparr>hy_issued := m\<rparr>)" "token \<notin> hy_used s"
        using assms(2) Setup Pair Inr x by (auto simp: Let_def split: if_splits sum.splits) (metis hub_sys.surjective hub_sys.update_convs(3))
      then show ?thesis using claims_invite_saved [OF c, of i m] i by simp
    qed
  qed
next
  case (Add blob rq hs now sid created saved)
  then show ?thesis using assms claims_share_saved by (auto dest!: add_share_Inr split: if_splits prod.splits sum.splits)
next
  case (Register token rq hs now sid created saved)
  then show ?thesis using assms claims_share_saved by (auto dest!: register_Inr split: if_splits prod.splits sum.splits)
next
  case (CreateShare rq sid created saved)
  then show ?thesis using assms claims_share_saved by (auto dest!: create_share_Inr split: if_splits prod.splits sum.splits)
next
  case (Mint blob sid ttl now)
  then show ?thesis using assms(2)
    by (cases "\<exists>a. hy_log s' = Minted sid a # hy_log s")
      (auto intro!: claims_inv_calm [OF assms(1)] simp: calm_def split: sum.splits)
next
  case (Unshare blob sid now)
  then show ?thesis using assms
    by (auto simp: unshare_def split: sum.splits prod.splits intro!: claims_inv_calm [OF assms(1), where es = "[Withdrawn sid _]"] simp: calm_def dest: pending_end)
next
  case (Bind k saved)
  then show ?thesis using claims_bind assms by simp
next
  case (ListShares token now)
  then show ?thesis using claims_list assms by blast
next
  case (Insert k)
  then show ?thesis using claims_insert assms by simp
next
  case Restart
  then show ?thesis using claims_restart assms by auto
qed (use assms in \<open>auto intro!: claims_inv_calm [OF assms(1), where es = "[]"] simp: delete_turn_def grant_turn_def unshare_file_def delete_share_file_def delete_share_def Let_def
      dest: pending_end split: sum.splits hub_task.splits option.splits prod.splits if_splits\<close>)

interpretation claims: transition_system hub_init "hub_step env" "claims_inv env"
proof
  fix s
  assume "hub_init s"
  then show "claims_inv env s" by (auto simp: hub_init_def claims_inv_def both_invites_def pending_ok_def pending_def task_at_def untouched_def)
next
  fix s s'
  assume "claims_inv env s" "hub_step env s s'"
  then show "claims_inv env s'" using claims_step by (auto simp: hub_step_def)
qed

lemma claims_ok_append: "claims_ok (later @ earlier) \<Longrightarrow> claims_ok earlier"
  by (induction later) auto

lemma claims_ok_later: "claims_ok (later @ Revoked t # earlier) \<Longrightarrow> Claimed t k b \<notin> set later \<and> Listed t \<notin> set later"
proof (induction later)
  case (Cons e later)
  then show ?case by (cases e) auto
qed simp

text \<open>
  C10. A one-time invite is handed out once. Whatever the order of requests, whichever saves fail and however often the hub is restarted, when its
  payload has been given out for a client's key, every later time it is given out is for the same key, and never again when the first client sent
  no key. (A hub in development mode is not meant.)
\<close>

theorem one_time_invite_has_one_owner:
  assumes "reach hub_init (hub_step env) s" and "\<not> he_dev_mode env" and "hy_log s = later @ Claimed t k b # earlier" and "Claimed t k1 True \<in> set earlier"
  shows "k = k1 \<and> k1 \<noteq> None"
proof -
  have "claims_ok (hy_log s)" using claims.reach_inv [OF assms(1)] assms(2) by (simp add: claims_inv_def)
  then have "claims_ok (Claimed t k b # earlier)" using claims_ok_append [of later] unfolding assms(3) by blast
  then show ?thesis using assms(4) by auto
qed

text \<open>
  C24. Revocation is final: after the hub has confirmed that an invite is revoked, its payload is never given out and its shares are never listed
  again, also not to the client that had claimed it and also not after a restart. (A listing that had passed its check before may still end.)
\<close>

theorem revocation_is_final:
  assumes "reach hub_init (hub_step env) s" and "\<not> he_dev_mode env" and "hy_log s = later @ Revoked t # earlier"
  shows "Claimed t k b \<notin> set later \<and> Listed t \<notin> set later"
proof -
  have "claims_ok (hy_log s)" using claims.reach_inv [OF assms(1)] assms(2) by (simp add: claims_inv_def)
  then show ?thesis using claims_ok_later assms(3) by simp
qed

section \<open>Who may bind and write\<close>

definition both_shares :: "(string \<Rightarrow> share_record \<Rightarrow> bool) \<Rightarrow> hub \<Rightarrow> bool" where
  "both_shares P h \<longleftrightarrow> (\<forall>sid r. hb_shares h sid = Some r \<or> hb_disk_shares h sid = Some r \<longrightarrow> P sid r)"

definition invite_ok :: "hub_event list \<Rightarrow> string \<Rightarrow> invite \<Rightarrow> bool" where
  "invite_ok log t i \<longleftrightarrow> iv_token i = t \<and> distinct (iv_share_ids i) \<and> distinct (iv_write_share_ids i) \<and> set (iv_write_share_ids i) \<subseteq> set (iv_share_ids i) \<and>
     (\<forall>sid \<in> set (iv_share_ids i). \<exists>w a. Bound t sid w a \<in> set log) \<and> (\<forall>sid \<in> set (iv_write_share_ids i). \<exists>a. Bound t sid True a \<in> set log)"

definition share_ok :: "hub_event list \<Rightarrow> string \<Rightarrow> share_record \<Rightarrow> bool" where
  "share_ok log sid r \<longleftrightarrow> hr_share_id r = sid \<and> Added sid (hr_agent_pubkey r) (hr_writable r) \<in> set log"

fun task_ok :: "hub_event list \<Rightarrow> hub_task \<Rightarrow> bool" where
  "task_ok log (Saved_Invite i) = invite_ok log (iv_token i) i"
| "task_ok log (Saved_Share r e) = share_ok log (hr_share_id r) r"
| "task_ok log (Owner a sid t w) = (\<exists>b. Added sid a b \<in> set log)"
| "task_ok log (Listing t ids ws) = (\<forall>sid \<in> set ws. \<exists>a. Bound t sid True a \<in> set log)"
| "task_ok log _ = True"

fun acts_on :: "hub_event \<Rightarrow> (string \<times> string) option" where
  "acts_on (Bound t sid w a) = Some (sid, a)"
| "acts_on (Unbound t sid a) = Some (sid, a)"
| "acts_on (Withdrawn sid a) = Some (sid, a)"
| "acts_on (Minted sid a) = Some (sid, a)"
| "acts_on _ = None"

definition owners_ok :: "hub_event list \<Rightarrow> string set \<Rightarrow> bool" where
  "owners_ok log used \<longleftrightarrow> (\<forall>sid a b. Added sid a b \<in> set log \<longrightarrow> sid \<in> used) \<and>
     (\<forall>sid a b a' b'. Added sid a b \<in> set log \<and> Added sid a' b' \<in> set log \<longrightarrow> a = a' \<and> b = b') \<and>
     (\<forall>e \<in> set log. \<forall>sid a. acts_on e = Some (sid, a) \<longrightarrow> (\<exists>b. Added sid a b \<in> set log))"

definition issued_ok :: "hub_event list \<Rightarrow> mandate \<Rightarrow> bool" where
  "issued_ok log x \<longleftrightarrow> (case x of
      MShare sid scope e \<Rightarrow> scope = SCOPE_READ \<or> scope = WRITE_SCOPES \<and> (\<exists>t a. Added sid a True \<in> set log \<and> Bound t sid True a \<in> set log)
    | MRelay sid a e \<Rightarrow> \<exists>b. Added sid a b \<in> set log
    | _ \<Rightarrow> True)"

definition access_inv :: "hub_sys \<Rightarrow> bool" where
  "access_inv s \<longleftrightarrow> both_invites (invite_ok (hy_log s)) (hy_hub s) \<and> both_shares (share_ok (hy_log s)) (hy_hub s) \<and>
     (\<forall>x \<in> set (hy_tasks s). task_ok (hy_log s) x) \<and> owners_ok (hy_log s) (hy_used s) \<and> (\<forall>x \<in> hy_issued s. issued_ok (hy_log s) x)"

lemma invite_ok_mono: "invite_ok log t i \<Longrightarrow> set log \<subseteq> set log' \<Longrightarrow> invite_ok log' t i"
  by (fastforce simp: invite_ok_def)

lemma share_ok_mono: "share_ok log sid r \<Longrightarrow> set log \<subseteq> set log' \<Longrightarrow> share_ok log' sid r"
  by (auto simp: share_ok_def)

lemma task_ok_mono: "task_ok log x \<Longrightarrow> set log \<subseteq> set log' \<Longrightarrow> task_ok log' x"
  by (cases x) (fastforce intro: invite_ok_mono share_ok_mono)+

lemma issued_ok_mono: "issued_ok log x \<Longrightarrow> set log \<subseteq> set log' \<Longrightarrow> issued_ok log' x"
  by (cases x) (fastforce simp: issued_ok_def)+

lemma attached_ok:
  assumes "invite_ok log t i" and "Bound t sid write a \<in> set log"
  shows "invite_ok log t (attached sid write i)"
  using assms by (auto simp: invite_ok_def attached_def Let_def)

lemma detached_ok: "invite_ok log t i \<Longrightarrow> invite_ok log t (detached sid i)"
  by (auto simp: invite_ok_def detached_def)

lemma owners_okI:
  assumes "\<And>sid a b. Added sid a b \<in> set log \<Longrightarrow> sid \<in> used" and "\<And>sid a b a' b'. Added sid a b \<in> set log \<Longrightarrow> Added sid a' b' \<in> set log \<Longrightarrow> a = a' \<and> b = b'"
    and "\<And>e sid a. e \<in> set log \<Longrightarrow> acts_on e = Some (sid, a) \<Longrightarrow> \<exists>b. Added sid a b \<in> set log"
  shows "owners_ok log used"
  unfolding owners_ok_def using assms by blast

lemma owners_okD:
  assumes "owners_ok log used"
  shows "Added sid a b \<in> set log \<Longrightarrow> sid \<in> used" "Added sid a b \<in> set log \<Longrightarrow> Added sid a' b' \<in> set log \<Longrightarrow> a = a' \<and> b = b'"
    "e \<in> set log \<Longrightarrow> acts_on e = Some (sid, a) \<Longrightarrow> \<exists>b. Added sid a b \<in> set log"
  using assms unfolding owners_ok_def by blast+

lemma owners_ok_Cons:
  assumes "owners_ok log used" and "\<And>sid a. acts_on e = Some (sid, a) \<Longrightarrow> \<exists>b. Added sid a b \<in> set log" and "\<And>sid a b. e \<noteq> Added sid a b"
  shows "owners_ok (e # log) used"
proof -
  have m: "Added sid a b \<in> set (e # log) \<longleftrightarrow> Added sid a b \<in> set log" for sid a b using assms(3) [of sid a b, symmetric] by simp
  show ?thesis
  proof (rule owners_okI)
    fix e' sid a
    assume "e' \<in> set (e # log)" "acts_on e' = Some (sid, a)"
    then show "\<exists>b. Added sid a b \<in> set (e # log)" unfolding m using assms(2) owners_okD(3) [OF assms(1)] by auto
  qed (use m owners_okD(1,2) [OF assms(1)] in blast)+
qed

lemma owners_ok_other: "owners_ok log used \<Longrightarrow> acts_on e = None \<Longrightarrow> (\<And>sid a b. e \<noteq> Added sid a b) \<Longrightarrow> owners_ok (e # log) used"
  by (rule owners_ok_Cons) simp_all

lemma owners_ok_Added:
  assumes "owners_ok log used" and "sid \<notin> used"
  shows "owners_ok (Added sid a b # log) (insert sid used)"
proof (rule owners_okI)
  have new: "Added sid x y \<notin> set log" for x y using owners_okD(1) [OF assms(1)] assms(2) by blast
  fix z x y x' y'
  assume "Added z x y \<in> set (Added sid a b # log)" "Added z x' y' \<in> set (Added sid a b # log)"
  then have "z = sid \<and> x = a \<and> y = b \<or> Added z x y \<in> set log" "z = sid \<and> x' = a \<and> y' = b \<or> Added z x' y' \<in> set log" by auto
  then show "x = x' \<and> y = y'" using new owners_okD(2) [OF assms(1), of z x y x' y'] by blast
next
  fix e z x
  assume "e \<in> set (Added sid a b # log)" "acts_on e = Some (z, x)"
  then show "\<exists>y. Added z x y \<in> set (Added sid a b # log)" using owners_okD(3) [OF assms(1), of e z x] by auto
qed (use owners_okD(1) [OF assms(1)] in auto)

lemma owners_ok_used: "owners_ok log used \<Longrightarrow> used \<subseteq> used' \<Longrightarrow> owners_ok log used'"
  by (auto simp: owners_ok_def)

lemma owned_by_Added:
  assumes "both_shares (share_ok log) h" and "owned_by cred sid h = Inr x"
  shows "\<exists>b. Added sid (ac_agent_pubkey cred) b \<in> set log"
  using assms by (fastforce simp: owned_by_def both_shares_def share_ok_def split: option.splits if_splits)

lemma mint_Added:
  assumes "both_shares (share_ok log) h" and "mint env blob sid ttl now h = Inr tok" and "agent_of env blob now = Inr (key, cred)"
  shows "\<exists>b. Added sid (ac_agent_pubkey cred) b \<in> set log"
  using assms owned_by_Added by (fastforce simp: mint_def split: sum.splits)

lemma assert_owns_Added:
  assumes "both_shares (share_ok log) h" and "assert_owns_share env blob sid now h = Inr a"
  shows "\<exists>b. Added sid a b \<in> set log"
  using assms owned_by_Added by (fastforce simp: assert_owns_share_def split: sum.splits prod.splits)

text \<open>The frame of the proof: everything that was recorded stays recorded, and only what is new has to be looked at.\<close>

lemma access_invI:
  assumes "access_inv s" and "set (hy_log s) \<subseteq> set (hy_log s')" and "owners_ok (hy_log s') (hy_used s')"
    and "\<And>t i. hb_invites (hy_hub s') t = Some i \<or> hb_disk_invites (hy_hub s') t = Some i \<Longrightarrow>
      hb_invites (hy_hub s) t = Some i \<or> hb_disk_invites (hy_hub s) t = Some i \<or> invite_ok (hy_log s') t i"
    and "\<And>sid r. hb_shares (hy_hub s') sid = Some r \<or> hb_disk_shares (hy_hub s') sid = Some r \<Longrightarrow>
      hb_shares (hy_hub s) sid = Some r \<or> hb_disk_shares (hy_hub s) sid = Some r \<or> share_ok (hy_log s') sid r"
    and "\<And>x. x \<in> set (hy_tasks s') \<Longrightarrow> x \<in> set (hy_tasks s) \<or> task_ok (hy_log s') x"
    and "\<And>x. x \<in> hy_issued s' \<Longrightarrow> x \<in> hy_issued s \<or> issued_ok (hy_log s') x"
  shows "access_inv s'"
proof -
  have a: "\<And>t i. hb_invites (hy_hub s) t = Some i \<or> hb_disk_invites (hy_hub s) t = Some i \<Longrightarrow> invite_ok (hy_log s') t i"
    using assms(1,2) invite_ok_mono unfolding access_inv_def both_invites_def by blast
  have b: "\<And>sid r. hb_shares (hy_hub s) sid = Some r \<or> hb_disk_shares (hy_hub s) sid = Some r \<Longrightarrow> share_ok (hy_log s') sid r"
    using assms(1,2) share_ok_mono unfolding access_inv_def both_shares_def by blast
  have c: "\<And>x. x \<in> set (hy_tasks s) \<Longrightarrow> task_ok (hy_log s') x" using assms(1,2) task_ok_mono unfolding access_inv_def by blast
  have d: "\<And>x. x \<in> hy_issued s \<Longrightarrow> issued_ok (hy_log s') x" using assms(1,2) issued_ok_mono unfolding access_inv_def by blast
  show ?thesis unfolding access_inv_def both_invites_def both_shares_def using assms(3-7) a b c d by meson
qed

lemma access_invD:
  assumes "access_inv s"
  shows "both_invites (invite_ok (hy_log s)) (hy_hub s)" "both_shares (share_ok (hy_log s)) (hy_hub s)" "\<And>x. x \<in> set (hy_tasks s) \<Longrightarrow> task_ok (hy_log s) x"
    "owners_ok (hy_log s) (hy_used s)" "\<And>x. x \<in> hy_issued s \<Longrightarrow> issued_ok (hy_log s) x"
  using assms by (auto simp: access_inv_def)

lemma task_at_ok: "access_inv s \<Longrightarrow> task_ok (hy_log s) (task_at k s)"
  by (auto simp: access_inv_def task_at_def)

lemma set_end_task: "x \<in> set (hy_tasks (end_task k s)) \<Longrightarrow> x \<in> set (hy_tasks s) \<or> x = Ended"
  using set_update_subset_insert [of "hy_tasks s" k Ended] by (auto simp: end_task_def)

lemma access_claim:
  assumes "access_inv s" and "hub_move env (Claim token hs now saved) s = Some s'"
  shows "access_inv s'"
proof (rule access_invI [OF assms(1)])
  note inv = access_invD [OF assms(1)]
  show l: "set (hy_log s) \<subseteq> set (hy_log s')" and "owners_ok (hy_log s') (hy_used s')"
    using assms(2) inv(4) by (auto intro!: owners_ok_other split: prod.splits sum.splits)
  fix t i
  assume h: "hb_invites (hy_hub s') t = Some i \<or> hb_disk_invites (hy_hub s') t = Some i"
  obtain j where "hb_invites (hy_hub s) t = Some i \<or> hb_disk_invites (hy_hub s) t = Some i \<or> hb_invites (hy_hub s) token = Some j \<and> t \<in> {token, iv_token j} \<and>
      iv_share_ids i = iv_share_ids j \<and> iv_write_share_ids i = iv_write_share_ids j \<and> iv_token i = iv_token j"
    using assms(2) h by (fastforce simp: claim_invite_def save_invite_def Let_def split: if_splits option.splits)
  moreover have "invite_ok (hy_log s') token j" if "hb_invites (hy_hub s) token = Some j"
    using inv(1) that invite_ok_mono [OF _ l] unfolding both_invites_def by blast
  ultimately show "hb_invites (hy_hub s) t = Some i \<or> hb_disk_invites (hy_hub s) t = Some i \<or> invite_ok (hy_log s') t i"
    by (auto simp: invite_ok_def)
qed (use assms(2) in \<open>auto simp: claim_invite_def save_invite_def Let_def split: prod.splits sum.splits if_splits option.splits\<close>)

lemma access_revoke:
  assumes "access_inv s" and "hub_move env (Revoke token now saved) s = Some s'"
  shows "access_inv s'"
proof (rule access_invI [OF assms(1)])
  note inv = access_invD [OF assms(1)]
  show l: "set (hy_log s) \<subseteq> set (hy_log s')" and "owners_ok (hy_log s') (hy_used s')"
    using assms(2) inv(4) by (auto intro!: owners_ok_other split: prod.splits sum.splits)
  fix t i
  assume h: "hb_invites (hy_hub s') t = Some i \<or> hb_disk_invites (hy_hub s') t = Some i"
  obtain j where "hb_invites (hy_hub s) t = Some i \<or> hb_disk_invites (hy_hub s) t = Some i \<or> hb_invites (hy_hub s) token = Some j \<and> t \<in> {token, iv_token j} \<and>
      iv_share_ids i = iv_share_ids j \<and> iv_write_share_ids i = iv_write_share_ids j \<and> iv_token i = iv_token j"
    using assms(2) h by (fastforce simp: revoke_invite_def save_invite_def Let_def split: if_splits option.splits)
  moreover have "invite_ok (hy_log s') token j" if "hb_invites (hy_hub s) token = Some j"
    using inv(1) that invite_ok_mono [OF _ l] unfolding both_invites_def by blast
  ultimately show "hb_invites (hy_hub s) t = Some i \<or> hb_disk_invites (hy_hub s) t = Some i \<or> invite_ok (hy_log s') t i"
    by (auto simp: invite_ok_def)
qed (use assms(2) in \<open>auto simp: revoke_invite_def save_invite_def Let_def split: prod.splits sum.splits if_splits option.splits\<close>)

lemma access_invite_saved:
  assumes "access_inv s" and "iv_share_ids i = []" and "iv_write_share_ids i = []" and "s1 = s\<lparr>hy_issued := m \<union> hy_issued s\<rparr>" and "\<forall>x \<in> m. issued_ok (hy_log s) x"
  shows "access_inv (invite_saved i (save_invite i (hy_hub s)) s1)"
proof -
  have "invite_ok l (iv_token i) i" for l using assms(2,3) by (simp add: invite_ok_def)
  then show ?thesis using access_invD(4) [OF assms(1)] assms(5)
    by (intro access_invI [OF assms(1)]) (auto simp: assms(4) invite_saved_def save_invite_def intro: owners_ok_used split: if_splits)
qed

lemma access_share_saved:
  assumes "access_inv s" and "hr_share_id r \<notin> hy_used s"
  shows "access_inv (share_saved r e (save_share r (hy_hub s)) s)"
proof -
  have "share_ok (Added (hr_share_id r) (hr_agent_pubkey r) (hr_writable r) # hy_log s) (hr_share_id r) r" by (simp add: share_ok_def)
  then show ?thesis using owners_ok_Added [OF access_invD(4) [OF assms(1)] assms(2)]
    by (intro access_invI [OF assms(1)]) (auto simp: share_saved_def save_share_def split: if_splits)
qed

lemma access_insert:
  assumes "access_inv s" and "insert_turn k s = Some s'"
  shows "access_inv s'"
proof -
  note inv = access_invD [OF assms(1)] and t = task_at_ok [OF assms(1), of k]
  show ?thesis
  proof (cases "task_at k s")
    case (Saved_Invite i)
    then have s': "s' = (end_task k s)\<lparr>hy_hub := insert_invite i (hy_hub s)\<rparr>" using assms(2) by (simp add: insert_turn_def)
    show ?thesis using t inv(4) by (intro access_invI [OF assms(1)]) (auto simp: s' Saved_Invite insert_invite_def dest: set_end_task split: if_splits)
  next
    case (Saved_Share r e)
    then have s': "s' = (end_task k s)\<lparr>hy_hub := insert_share r (hy_hub s),
        hy_issued := (case e of None \<Rightarrow> {} | Some expiry \<Rightarrow> {MShare (hr_share_id r) SCOPE_READ expiry}) \<union> hy_issued s\<rparr>" using assms(2) by (simp add: insert_turn_def)
    show ?thesis using t inv(4)
      by (intro access_invI [OF assms(1)]) (auto simp: s' Saved_Share insert_share_def issued_ok_def dest: set_end_task split: if_splits option.splits)
  qed (use assms(2) in \<open>simp_all add: insert_turn_def\<close>)
qed

lemma access_bind:
  assumes "access_inv s" and "bind_turn saved k s = Some s'"
  shows "access_inv s'"
proof -
  note inv = access_invD [OF assms(1)] and tk = task_at_ok [OF assms(1), of k]
  obtain a sid token wr where t: "task_at k s = Owner a sid token wr" using assms(2) by (auto simp: bind_turn_def split: hub_task.splits)
  define change where "change = (case wr of Some write \<Rightarrow> attached sid write | None \<Rightarrow> detached sid)"
  define e where "e = (case wr of Some write \<Rightarrow> Bound token sid write a | None \<Rightarrow> Unbound token sid a)"
  define h where "h = snd (rebind change token saved (hy_hub s))"
  have s': "s' = (end_task k s)\<lparr>hy_hub := h, hy_log := (if hb_invites (hy_hub s) token = None then [] else [e]) @ hy_log s\<rparr>"
    using assms(2) t by (auto simp: bind_turn_def attach_def detach_def change_def e_def h_def split: option.splits)
  show ?thesis
  proof (cases "hb_invites (hy_hub s) token")
    case None
    then show ?thesis using inv(4) by (intro access_invI [OF assms(1)]) (auto simp: s' h_def rebind_def dest: set_end_task)
  next
    case (Some i)
    have "\<exists>b. Added sid a b \<in> set (hy_log s)" using tk t by simp
    then have o: "owners_ok (e # hy_log s) (hy_used s)" by (intro owners_ok_Cons [OF inv(4)]) (auto simp: e_def split: option.splits)
    have "invite_ok (e # hy_log s) token i" using inv(1) Some invite_ok_mono [of "hy_log s" token i "e # hy_log s"] unfolding both_invites_def by auto
    then have i: "invite_ok (e # hy_log s) token (change i)" by (auto simp: change_def e_def intro: attached_ok detached_ok split: option.splits)
    then have tok: "iv_token (change i) = token" by (simp add: invite_ok_def)
    have h: "hb_shares h = hb_shares (hy_hub s)" "hb_disk_shares h = hb_disk_shares (hy_hub s)"
        "\<And>t j. hb_invites h t = Some j \<or> hb_disk_invites h t = Some j \<Longrightarrow>
          hb_invites (hy_hub s) t = Some j \<or> hb_disk_invites (hy_hub s) t = Some j \<or> t = token \<and> j = change i"
      using Some tok by (auto simp: h_def rebind_def Let_def save_invite_def split: if_splits option.splits)
    show ?thesis using Some i h o by (intro access_invI [OF assms(1)]) (auto simp: s' dest: set_end_task)
  qed
qed

lemma access_grant:
  assumes "access_inv s" and "grant_turn env now k s = Some s'"
  shows "access_inv s'"
proof -
  note inv = access_invD [OF assms(1)] and tk = task_at_ok [OF assms(1), of k]
  obtain token ids ws where t: "task_at k s = Listing token ids ws" using assms(2) by (auto simp: grant_turn_def split: hub_task.splits)
  let ?m = "granted env ws (sat_add_u64 now DEFAULT_TOKEN_TTL) (bound_records ids (hy_hub s))"
  have s': "s' = (end_task k s)\<lparr>hy_issued := ?m \<union> hy_issued s\<rparr>" using assms(2) t by (simp add: grant_turn_def)
  have r: "Added sid (hr_agent_pubkey r) (hr_writable r) \<in> set (hy_log s)" if "(sid, r) \<in> set (bound_records ids (hy_hub s))" for sid r
    using that inv(2) by (auto simp: bound_records_def List.map_filter_def both_shares_def share_ok_def)
  have "issued_ok (hy_log s) (MShare sid (grant_scope r ws sid) e)" if sr: "(sid, r) \<in> set (bound_records ids (hy_hub s))" for sid r e
  proof (cases "hr_writable r \<and> sid \<in> set ws")
    case True
    then obtain a where a: "Bound token sid True a \<in> set (hy_log s)" using tk t by auto
    then obtain b where "Added sid a b \<in> set (hy_log s)" using owners_okD(3) [OF inv(4) a, of sid a] by auto
    then have "a = hr_agent_pubkey r" using owners_okD(2) [OF inv(4) _ r [OF sr]] by blast
    then have "Added sid a True \<in> set (hy_log s)" using r [OF sr] True by simp
    then show ?thesis using True a by (auto simp: issued_ok_def grant_scope_def)
  qed (auto simp: issued_ok_def grant_scope_def)
  moreover have "issued_ok (hy_log s) (MRelay sid (hr_agent_pubkey r) e)" if "(sid, r) \<in> set (bound_records ids (hy_hub s))" for sid r e
    using r [OF that] by (auto simp: issued_ok_def)
  ultimately have "\<forall>x \<in> ?m. issued_ok (hy_log s) x" by (auto simp: granted_def)
  then show ?thesis using inv(4) by (intro access_invI [OF assms(1)]) (auto simp: s' dest: set_end_task)
qed

lemma access_delete:
  assumes "access_inv s" and "delete_turn saved k s = Some s'"
  shows "access_inv s'"
proof -
  obtain sid where s': "s' = (end_task k s)\<lparr>hy_hub := snd (unshare_file sid saved (hy_hub s))\<rparr>"
    using assms(2) by (auto simp: delete_turn_def split: hub_task.splits)
  show ?thesis using access_invD(4) [OF assms(1)]
    by (intro access_invI [OF assms(1)]) (auto simp: s' unshare_file_def delete_share_file_def dest: set_end_task split: option.splits if_splits)
qed

lemma mint_scope: "mint env blob sid ttl now h = Inr tok \<Longrightarrow> st_scope tok = SCOPE_READ" "mint_token env sid ttl now h = Inr tok \<Longrightarrow> st_scope tok = SCOPE_READ"
  by (auto simp: mint_def mint_token_def sign_share_token_def split: sum.splits prod.splits option.splits if_splits)

lemma access_step:
  assumes "access_inv s" and "hub_move env a s = Some s'"
  shows "access_inv s'"
proof -
  note inv = access_invD [OF assms(1)]
  have reg: "issued_ok l (MReg e)" "issued_ok l (MAgent b e)" "issued_ok l (MShare sid SCOPE_READ e)" for l e b sid by (simp_all add: issued_ok_def)
  show ?thesis
  proof (cases a)
    case (Claim token hs now saved)
    then show ?thesis using access_claim assms by blast
  next
    case (Revoke token now saved)
    then show ?thesis using access_revoke assms by blast
  next
    case (Build rq token now expires saved)
    then show ?thesis using assms access_invite_saved [OF assms(1), where m = "{}"] by (auto dest!: build_invite_Inr split: if_splits prod.splits sum.splits)
  next
    case (Setup ttl rq unix token now expires saved)
    define m where "m = (case create_reg_token env ttl unix of Inl _ \<Rightarrow> {} | Inr (_, expiry) \<Rightarrow> {MReg expiry})"
    have m: "\<forall>x \<in> m. issued_ok (hy_log s) x" using reg(1) by (auto simp: m_def split: sum.splits)
    have s1: "(case create_reg_token env ttl unix of Inl _ \<Rightarrow> s | Inr (_, expiry) \<Rightarrow> s\<lparr>hy_issued := insert (MReg expiry) (hy_issued s)\<rparr>) = s\<lparr>hy_issued := m \<union> hy_issued s\<rparr>"
      by (simp add: m_def split: sum.splits prod.splits)
    have "access_inv (s\<lparr>hy_issued := m \<union> hy_issued s\<rparr>)" using m inv(4) by (intro access_invI [OF assms(1)]) auto
    then show ?thesis using assms Setup access_invite_saved [OF assms(1) _ _ refl m]
      by (auto simp: Let_def s1 dest!: setup_Inr split: if_splits prod.splits sum.splits)
  next
    case (Add blob rq hs now sid created saved)
    then show ?thesis using assms access_share_saved by (auto dest!: add_share_Inr split: if_splits prod.splits sum.splits)
  next
    case (Register token rq hs now sid created saved)
    then show ?thesis using assms access_share_saved by (auto dest!: register_Inr split: if_splits prod.splits sum.splits)
  next
    case (CreateShare rq sid created saved)
    then show ?thesis using assms access_share_saved by (auto dest!: create_share_Inr split: if_splits prod.splits sum.splits)
  next
    case (Mint blob sid ttl now)
    show ?thesis
    proof (cases "s' = s")
      case False
      then obtain tok key cred where m: "mint env blob sid ttl now (hy_hub s) = Inr tok" and o: "agent_of env blob now = Inr (key, cred)"
          "s' = s\<lparr>hy_issued := insert (MShare sid (st_scope tok) (st_exp tok)) (hy_issued s), hy_log := Minted sid (ac_agent_pubkey cred) # hy_log s\<rparr>"
        using assms(2) Mint by (auto split: sum.splits)
      have "owners_ok (Minted sid (ac_agent_pubkey cred) # hy_log s) (hy_used s)"
        using mint_Added [OF inv(2) m o(1)] by (intro owners_ok_Cons [OF inv(4)]) auto
      then show ?thesis using reg(3) by (intro access_invI [OF assms(1)]) (auto simp: o(2) mint_scope(1) [OF m])
    qed (use assms(1) in simp)
  next
    case (Unshare blob sid now)
    show ?thesis
    proof (cases "s' = s")
      case False
      then obtain b where o: "assert_owns_share env blob sid now (hy_hub s) = Inr b"
          "s' = s\<lparr>hy_hub := (hy_hub s)\<lparr>hb_shares := (hb_shares (hy_hub s))(sid := None)\<rparr>, hy_tasks := hy_tasks s @ [Unlisted sid], hy_log := Withdrawn sid b # hy_log s\<rparr>"
        using assms(2) Unshare by (auto simp: unshare_def assert_owns_share_def split: sum.splits prod.splits)
      have "owners_ok (Withdrawn sid b # hy_log s) (hy_used s)" using assert_owns_Added [OF inv(2) o(1)] by (intro owners_ok_Cons [OF inv(4)]) auto
      then show ?thesis by (intro access_invI [OF assms(1)]) (auto simp: o(2) split: if_splits)
    qed (use assms(1) in simp)
  next
    case (Own blob sid token wr now)
    then show ?thesis using assms(2) inv(4) assert_owns_Added [OF inv(2)]
      by (auto intro!: access_invI [OF assms(1)] split: sum.splits)
  next
    case (ListShares token now)
    show ?thesis
    proof (cases "s' = s")
      case False
      then obtain i where i: "hb_invites (hy_hub s) token = Some i"
          "s' = s\<lparr>hy_tasks := hy_tasks s @ [Listing token (iv_share_ids i) (iv_write_share_ids i)], hy_log := Listed token # hy_log s\<rparr>"
        using assms(2) ListShares by (auto simp: invite_bindings_def split: option.splits if_splits)
      have "invite_ok (hy_log s) token i" using inv(1) i(1) unfolding both_invites_def by blast
      then have "task_ok (hy_log s') (Listing token (iv_share_ids i) (iv_write_share_ids i))" by (fastforce simp: i(2) invite_ok_def)
      moreover have "owners_ok (hy_log s') (hy_used s')" using owners_ok_other [OF inv(4)] by (simp add: i(2))
      ultimately show ?thesis by (intro access_invI [OF assms(1)]) (auto simp: i(2))
    qed (use assms(1) in simp)
  next
    case (Insert k)
    then show ?thesis using access_insert assms by simp
  next
    case (Bind k saved)
    then show ?thesis using access_bind assms by simp
  next
    case (Grant k now)
    then show ?thesis using access_grant assms by simp
  next
    case (AdminMint sid ttl now)
    then show ?thesis using assms(2) inv(4) reg(3) mint_scope(2) [of env sid ttl now "hy_hub s"]
      by (auto intro!: access_invI [OF assms(1)] split: sum.splits)
  next
    case (RegToken ttl now)
    then show ?thesis using assms inv(4) reg(1) by (auto intro!: access_invI [OF assms(1)] split: sum.splits prod.splits)
  next
    case (Exchange token pk now later)
    then show ?thesis using assms inv(4) reg(2) by (auto intro!: access_invI [OF assms(1)] split: sum.splits prod.splits)
  next
    case (DeleteFile k saved)
    then show ?thesis using access_delete assms by simp
  next
    case (AdminDelete sid saved)
    then show ?thesis using assms(2) inv(4)
      by (auto intro!: access_invI [OF assms(1)] simp: delete_share_def delete_share_file_def Let_def split: option.splits if_splits)
  next
    case Restart
    then show ?thesis using assms(2) inv(4) by (auto intro!: access_invI [OF assms(1)] simp: hydrate_def)
  qed
qed

interpretation access: transition_system hub_init "hub_step env" access_inv
proof
  fix s
  assume "hub_init s"
  then show "access_inv s" by (auto simp: hub_init_def access_inv_def both_invites_def both_shares_def owners_ok_def)
next
  fix s s'
  assume "access_inv s" "hub_step env s s'"
  then show "access_inv s'" using access_step by (auto simp: hub_step_def)
qed

text \<open>
  C9. Writing needs the owner's consent twice. When an agent accepts a token for writing to a share, the agent that registered the share
  registered it as writable, and the same agent bound it for writing to an invite; no route of the hub hands out such a token otherwise, whatever
  requests, failed saves and restarts came before. (Signatures cannot be forged; besides what these routes sign, the key may have signed other things
  that are not share tokens.)
\<close>

theorem write_access_traces_to_owner:
  assumes "reach hub_init (hub_step env) s" and "unforgeable cr hub_key (hy_issued s \<union> others)" and "\<forall>x \<in> hy_issued s \<union> others. mandate_plain x"
    and "\<forall>sid scope e. MShare sid scope e \<notin> others" and "verify_share_token cr tok hub_key sid SCOPE_WRITE now = Inr ()"
  shows "\<exists>t a. Added sid a True \<in> set (hy_log s) \<and> Bound t sid True a \<in> set (hy_log s)"
proof -
  have v: "check_signature cr hub_key (mandate_bytes (MShare sid (st_scope tok) (st_exp tok))) (st_signature tok) = Inr ()" "scope_contains (st_scope tok) SCOPE_WRITE"
    using assms(5) by (auto simp: verify_share_token_def split: if_splits sum.splits)
  have "MShare sid (st_scope tok) (st_exp tok) \<in> hy_issued s \<union> others" using accepted_was_issued [OF assms(2,3) v(1)] by simp
  then have "issued_ok (hy_log s) (MShare sid (st_scope tok) (st_exp tok))"
    using assms(4) access_invD(5) [OF access.reach_inv [OF assms(1)]] by blast
  moreover have "\<not> scope_contains SCOPE_READ SCOPE_WRITE" by code_simp
  ultimately show ?thesis using v(2) by (auto simp: issued_ok_def)
qed

text \<open>
  C25. An agent has no power over the shares of another. A share has one owner for ever, the agent whose key it was registered with; whenever one of
  the routes for agents bound it to an invite, took it off, minted a token for it or withdrew it, the credential presented named that agent, and the
  tables, in memory and on disk, name that key and whether the share is writable as it was registered. (The administrator's routes, which ask for no
  credential of an agent, may delete any share and mint tokens for reading it; the log of agents' deeds does not hold them.)
\<close>

theorem shares_obey_their_owner:
  assumes "reach hub_init (hub_step env) s" and "Added sid a b \<in> set (hy_log s)"
  shows "(\<forall>e \<in> set (hy_log s). \<forall>a'. acts_on e = Some (sid, a') \<longrightarrow> a' = a) \<and>
    (\<forall>r. hb_shares (hy_hub s) sid = Some r \<or> hb_disk_shares (hy_hub s) sid = Some r \<longrightarrow> hr_agent_pubkey r = a \<and> hr_writable r = b)"
proof -
  note inv = access_invD [OF access.reach_inv [OF assms(1)]]
  have u: "a' = a \<and> b' = b" if "Added sid a' b' \<in> set (hy_log s)" for a' b' using owners_okD(2) [OF inv(4) that assms(2)] .
  show ?thesis using u owners_okD(3) [OF inv(4)] inv(2) unfolding both_shares_def share_ok_def by blast
qed

text \<open>
  C26. Invites stay well-formed. In every reachable state each invite, in memory and on disk, is filed under its own token, binds no share twice, and
  the shares it may write to are among the shares it binds.
\<close>

theorem invites_stay_well_formed:
  assumes "reach hub_init (hub_step env) s" and "hb_invites (hy_hub s) t = Some i \<or> hb_disk_invites (hy_hub s) t = Some i"
  shows "iv_token i = t \<and> distinct (iv_share_ids i) \<and> distinct (iv_write_share_ids i) \<and> set (iv_write_share_ids i) \<subseteq> set (iv_share_ids i)"
  using access_invD(1) [OF access.reach_inv [OF assms(1)]] assms(2) unfolding both_invites_def invite_ok_def by blast

section \<open>Answers that do not last\<close>

text \<open>
  A detach whose save fails takes the share off the invite in memory only. When the caller tries again, nothing is left to change, and the hub
  answers with success without saving; the next restart brings the binding back.
\<close>

lemma retried_detach_is_lost:
  assumes "hb_invites h t = Some i" and "hb_disk_invites h t = Some i" and "sid \<in> set (iv_share_ids i)"
  shows "let (first, h1) = detach sid t (Some err) h; (again, h2) = detach sid t None h1
    in first = Inl (500, PERSIST_FAILED) \<and> again = Inr () \<and> hb_invites (hydrate h2) t = Some i"
proof -
  let ?j = "detached sid i"
  have ne: "?j \<noteq> i" using assms(3) by (auto simp: detached_def dest!: arg_cong [of _ _ iv_share_ids] simp: filter_id_conv)
  have again: "detached sid ?j = ?j" by (simp add: detached_def)
  show ?thesis using assms ne again by (simp add: detach_def rebind_def Let_def hydrate_def)
qed

section \<open>A concrete history\<close>

fun hub_run :: "hub_env \<Rightarrow> hub_action list \<Rightarrow> hub_sys \<Rightarrow> hub_sys option" where
  "hub_run env [] s = Some s"
| "hub_run env (a # as) s = Option.bind (hub_move env a s) (hub_run env as)"

lemma hub_run_reach: "hub_run env as s = Some s' \<Longrightarrow> reach hub_init (hub_step env) s \<Longrightarrow> reach hub_init (hub_step env) s'"
proof (induction as arbitrary: s)
  case (Cons a as)
  then obtain t where t: "hub_move env a s = Some t" "hub_run env as t = Some s'" by (auto simp: bind_eq_Some_conv)
  have "reach hub_init (hub_step env) t" using reach_step [OF Cons.prems(2)] t(1) unfolding hub_step_def by blast
  then show ?case using Cons.IH t(2) by blast
qed simp

definition hub_start :: hub_sys where
  "hub_start = \<lparr>hy_hub = \<lparr>hb_invites = Map.empty, hb_shares = Map.empty, hb_disk_invites = Map.empty, hb_disk_shares = Map.empty\<rparr>, hy_tasks = [], hy_issued = {}, hy_used = {}, hy_log = []\<rparr>"

lemma hub_start_reach: "reach hub_init (hub_step env) hub_start"
  by (rule reach_init) (simp add: hub_init_def hub_start_def)

definition ex_signed :: "mandate list" where
  "ex_signed = [MShare ''s'' SCOPE_READ 604805, MShare ''s'' WRITE_SCOPES 604806, MAgent ''k'' 100]"

definition ex_hub :: hub_env where
  "ex_hub = \<lparr>he_crypto = example_crypto (\<lambda>_ message _. message \<in> set (map mandate_bytes ex_signed)), he_public = (\<lambda>k. k), he_signing = Some [], he_dev_mode = False,
     he_default_ttl = 9, he_max_ttl = 9,
     he_defaults = \<lparr>df_server_address = [], df_server_port = 1, df_obfuscation_key = [], df_modifier = [], df_salt = 0, df_hub_url = [], df_servers = []\<rparr>,
     he_relay = None, he_cred_blob = (\<lambda>_. Some \<lparr>ac_agent_pubkey = ''k'', ac_exp = 100, ac_signature = frame_text (replicate 64 0)\<rparr>), he_reg_blob = (\<lambda>_. None),
     he_encode_cred = (\<lambda>_. []), he_encode_token = (\<lambda>_. []), he_encode_reg = (\<lambda>_. []), he_encode_text = (\<lambda>s. s)\<rparr>"

definition ex_bind :: "hub_action list" where
  "ex_bind = [Build \<lparr>iq_ttl = None, iq_one_time = True, iq_comment = [], iq_preset = None, iq_payload = None\<rparr> ''t'' ''1'' ''8'' None, Insert 0,
     Add [] \<lparr>aq_name = ''n'', aq_addr = Some ''a'', aq_addrs = [], aq_port = 1, aq_ttl = None, aq_via_relay = False, aq_writable = True\<rparr> [] 5 ''s'' [] None, Insert 1,
     Own [] ''s'' ''t'' (Some True) 5, Bind 2 None, ListShares ''t'' ''2'', Grant 3 6]"

definition ex_claims :: "hub_action list" where
  "ex_claims = ex_bind @ [Claim ''t'' [(''x-claim-id'', ''c'')] ''3'' None, Restart, Claim ''t'' [(''x-claim-id'', ''d'')] ''3'' None, Claim ''t'' [(''x-claim-id'', ''c'')] ''4'' None,
     Revoke ''t'' ''5'' None, Claim ''t'' [(''x-claim-id'', ''c'')] ''6'' None]"

lemma ex_agent_of: "now < 100 \<Longrightarrow> agent_of ex_hub blob now = Inr ([], \<lparr>ac_agent_pubkey = ''k'', ac_exp = 100, ac_signature = frame_text (replicate 64 0)\<rparr>)"
  by (simp add: agent_of_def ex_hub_def verify_credential_blob_def verify_agent_credential_def check_signature_def example_crypto_def trim_framed unframe_frame
    ex_signed_def not_le)

lemma ex_trim: "trim ''n'' = ''n''" "trim ''a'' = ''a''" "trim ''c'' = ''c''" "trim ''d'' = ''d''"
  by code_simp+

lemma ex_hub_sel: "he_signing ex_hub = Some []" "\<not> he_dev_mode ex_hub" "he_default_ttl ex_hub = 9" "he_max_ttl ex_hub = 9" "he_relay ex_hub = None"
  by (simp_all add: ex_hub_def)

lemma ex_times:
  "\<not> ''8'' \<le> (''2'' :: string)" "\<not> ''8'' \<le> (''3'' :: string)" "\<not> ''8'' \<le> (''4'' :: string)" "\<not> ''8'' \<le> (''6'' :: string)"
  "''8'' > (''3''::string)" "''8'' > (''4''::string)" "''8'' > (''6''::string)"
  by code_simp+

lemma ex_later: "clamp_token_ttl None = Inr 604800" "sat_add_u64 5 604800 = 604805" "sat_add_u64 6 604800 = 604806"
  by (simp_all add: sat_add_u64_def clamp_token_ttl_def DEFAULT_TOKEN_TTL_def MAX_TOKEN_TTL_def)

lemmas ex_run = ex_agent_of ex_trim ex_hub_sel ex_later ex_times

lemmas hub_handlers = build_invite_def invite_saved_def save_invite_def add_share_def given_or_source_def sanitize_extra_addrs_def share_saved_def save_share_def
  insert_turn_def task_at_def end_task_def insert_invite_def insert_share_def assert_owns_share_def owned_by_def bind_turn_def attach_def rebind_def attached_def
  invite_bindings_def grant_turn_def granted_def bound_records_def List.map_filter_def DEFAULT_TOKEN_TTL_def grant_scope_def claim_invite_def revoke_invite_def
  claim_id_header_def one_time_of_def can_reclaim_def has_live_claim_def hydrate_def

definition ex_log :: "hub_event list" where
  "ex_log = [Listed ''t'', Bound ''t'' ''s'' True ''k'', Added ''s'' ''k'' True]"

definition ex_tokens :: "mandate set" where
  "ex_tokens = {MShare ''s'' SCOPE_READ 604805, MShare ''s'' WRITE_SCOPES 604806}"

lemma ex_bind_run:
  obtains s i r where "hub_run ex_hub ex_bind hub_start = Some s" "hy_issued s = ex_tokens" "hy_log s = ex_log" "hb_invites (hy_hub s) ''t'' = Some i"
    "hb_shares (hy_hub s) ''s'' = Some r" "reach hub_init (hub_step ex_hub) s"
proof -
  have "case hub_run ex_hub ex_bind hub_start of None \<Rightarrow> False
    | Some s \<Rightarrow> hy_issued s = ex_tokens \<and> hy_log s = ex_log \<and> hb_invites (hy_hub s) ''t'' \<noteq> None \<and> hb_shares (hy_hub s) ''s'' \<noteq> None"
    by (auto simp: ex_bind_def hub_start_def ex_log_def ex_tokens_def Let_def hub_handlers ex_run)
  then show ?thesis using that hub_run_reach hub_start_reach by (auto split: option.splits)
qed

lemma ex_claims_run:
  obtains s where "hub_run ex_hub ex_claims hub_start = Some s" "reach hub_init (hub_step ex_hub) s"
    "hy_log s = [Revoked ''t'', Claimed ''t'' (Some ''c'') True, Claimed ''t'' (Some ''c'') True] @ ex_log"
proof -
  have "case hub_run ex_hub ex_claims hub_start of None \<Rightarrow> False
    | Some s \<Rightarrow> hy_log s = [Revoked ''t'', Claimed ''t'' (Some ''c'') True, Claimed ''t'' (Some ''c'') True] @ ex_log"
    by (simp add: ex_claims_def ex_bind_def hub_start_def ex_log_def Let_def hub_handlers ex_run)
  then show ?thesis using that hub_run_reach hub_start_reach by (auto split: option.splits)
qed

theorem one_time_invite_has_one_owner_witness:
  "\<exists>s k. reach hub_init (hub_step ex_hub) s \<and> hy_log s = [Revoked ''t''] @ Claimed ''t'' k True # Claimed ''t'' (Some ''c'') True # ex_log \<and> k = Some ''c''"
proof (rule ex_claims_run)
  fix s
  assume s: "reach hub_init (hub_step ex_hub) s" "hy_log s = [Revoked ''t'', Claimed ''t'' (Some ''c'') True, Claimed ''t'' (Some ''c'') True] @ ex_log"
  have "Some ''c'' = Some ''c'' \<and> Some ''c'' \<noteq> (None :: string option)"
    by (rule one_time_invite_has_one_owner [OF s(1), where later = "[Revoked ''t'']" and t = "''t''" and b = True and earlier = "Claimed ''t'' (Some ''c'') True # ex_log"])
      (simp_all add: ex_hub_sel s(2))
  then show ?thesis using s by auto
qed

theorem revocation_is_final_witness:
  "\<exists>s later earlier. reach hub_init (hub_step ex_hub) s \<and> hy_log s = later @ Revoked ''t'' # earlier \<and> Claimed ''t'' (Some ''c'') True \<in> set earlier \<and>
     Claimed ''t'' (Some ''c'') True \<notin> set later \<and> Listed ''t'' \<notin> set later"
proof (rule ex_claims_run)
  fix s
  assume s: "reach hub_init (hub_step ex_hub) s" "hy_log s = [Revoked ''t'', Claimed ''t'' (Some ''c'') True, Claimed ''t'' (Some ''c'') True] @ ex_log"
  have l: "hy_log s = [] @ Revoked ''t'' # ([Claimed ''t'' (Some ''c'') True, Claimed ''t'' (Some ''c'') True] @ ex_log)" using s(2) by simp
  have "Claimed ''t'' (Some ''c'') True \<notin> set [] \<and> Listed ''t'' \<notin> set []"
    by (rule revocation_is_final [OF s(1) _ l]) (simp add: ex_hub_sel)
  then show ?thesis using s(1) l by (metis append_Cons list.set_intros(1))
qed

theorem write_access_traces_to_owner_witness:
  "\<exists>s tok. reach hub_init (hub_step ex_hub) s \<and> verify_share_token (he_crypto ex_hub) tok [] ''s'' SCOPE_WRITE 7 = Inr () \<and>
     (\<exists>t a. Added ''s'' a True \<in> set (hy_log s) \<and> Bound t ''s'' True a \<in> set (hy_log s))"
proof (rule ex_bind_run)
  fix s
  assume s: "reach hub_init (hub_step ex_hub) s" "hy_issued s = ex_tokens"
  let ?tok = "sign_share_token (he_crypto ex_hub) [] ''s'' WRITE_SCOPES 604806"
  have "scope_contains WRITE_SCOPES SCOPE_WRITE" by code_simp
  then have v: "verify_share_token (he_crypto ex_hub) ?tok [] ''s'' SCOPE_WRITE 7 = Inr ()"
    by (simp add: verify_share_token_def sign_share_token_def check_signature_def ex_hub_def example_crypto_def trim_framed unframe_frame ex_signed_def)
  have "unforgeable (he_crypto ex_hub) [] (hy_issued s \<union> {MAgent ''k'' 100})"
    by (auto simp: unforgeable_def ex_hub_def example_crypto_def ex_signed_def s(2) ex_tokens_def)
  moreover have "\<forall>x \<in> hy_issued s \<union> {MAgent ''k'' 100}. mandate_plain x" unfolding s(2) ex_tokens_def by (simp, code_simp)
  ultimately have "\<exists>t a. Added ''s'' a True \<in> set (hy_log s) \<and> Bound t ''s'' True a \<in> set (hy_log s)"
    by (rule write_access_traces_to_owner [OF s(1) _ _ _ v]) auto
  then show ?thesis using s(1) v by blast
qed

theorem shares_obey_their_owner_witness:
  "\<exists>s r. reach hub_init (hub_step ex_hub) s \<and> hb_shares (hy_hub s) ''s'' = Some r \<and> hr_agent_pubkey r = ''k'' \<and> hr_writable r"
proof (rule ex_bind_run)
  fix s r
  assume s: "reach hub_init (hub_step ex_hub) s" "hy_log s = ex_log" "hb_shares (hy_hub s) ''s'' = Some r"
  have "Added ''s'' ''k'' True \<in> set (hy_log s)" by (simp add: s(2) ex_log_def)
  from shares_obey_their_owner [OF s(1) this] show ?thesis using s(1,3) by blast
qed

theorem invites_stay_well_formed_witness:
  "\<exists>s i. reach hub_init (hub_step ex_hub) s \<and> hb_invites (hy_hub s) ''t'' = Some i \<and> iv_token i = ''t'' \<and> distinct (iv_share_ids i)"
proof (rule ex_bind_run)
  fix s i
  assume s: "reach hub_init (hub_step ex_hub) s" "hb_invites (hy_hub s) ''t'' = Some i"
  show ?thesis using invites_stay_well_formed [OF s(1), of "''t''" i] s by blast
qed

end
