(* ===== verification/Web_Session.thy ===== *)
theory Web_Session
  imports Hub
begin

text \<open>
  What the browser entrance keeps of its visitors (\<^verbatim>\<open>xr-web/src/session.rs\<close>, and from \<^verbatim>\<open>app.rs\<close> the publication of a host name and the counter of
  wrong passwords): HTTP headers as both the entrance and the agent handle them, the session cookie next to the cookies of the application behind
  the entrance, the table of sessions, and the growing delay. A header table is a list of fields with names in lower case; the order of fields with
  different names means nothing. The random token of a session is an argument. The counter of the hub (\<^verbatim>\<open>PasswordAttempts\<close> in
  \<^verbatim>\<open>xr-hub/src/api/web.rs\<close>) is the same code under another name.
\<close>

section \<open>Headers\<close>

text \<open>\<^verbatim>\<open>HeaderValue::to_str\<close> accepts visible ASCII with spaces and tabs, \<^verbatim>\<open>HeaderValue::from_str\<close> also other bytes from 128 on.\<close>

definition visible :: "string \<Rightarrow> bool" where
  "visible v \<longleftrightarrow> list_all (\<lambda>c. 32 \<le> code_of c \<and> code_of c < 127 \<or> code_of c = 9) v"

definition header_value :: "string \<Rightarrow> bool" where
  "header_value v \<longleftrightarrow> list_all (\<lambda>c. 32 \<le> code_of c \<and> code_of c \<noteq> 127 \<or> code_of c = 9) v"

definition to_str :: "string option \<Rightarrow> string option" where
  "to_str v = Option.bind v (\<lambda>s. if visible s then Some s else None)"

abbreviation hget :: "headers \<Rightarrow> string \<Rightarrow> string option" where
  "hget hs n \<equiv> map_of hs n"

definition hremove :: "string \<Rightarrow> headers \<Rightarrow> headers" where
  "hremove n hs = filter (\<lambda>(m, _). m \<noteq> n) hs"

definition hinsert :: "string \<Rightarrow> string \<Rightarrow> headers \<Rightarrow> headers" where
  "hinsert n v hs = hremove n hs @ [(n, v)]"

definition hinsert_str :: "string \<Rightarrow> string \<Rightarrow> headers \<Rightarrow> headers" where
  "hinsert_str n v hs = (if header_value v then hinsert n v hs else hs)"

lemma visible_header_value: "visible v \<Longrightarrow> header_value v"
  by (auto simp: visible_def header_value_def list_all_iff)

lemma visible_ascii: "visible v \<Longrightarrow> is_ascii v"
  by (force simp: visible_def is_ascii_def list_all_iff)

lemma visible_append [simp]: "visible (a @ b) \<longleftrightarrow> visible a \<and> visible b"
  by (auto simp: visible_def)

lemma visible_Nil [simp]: "visible []"
  by (simp add: visible_def)

lemma visible_subset: "visible v \<Longrightarrow> set w \<subseteq> set v \<Longrightarrow> visible w"
  by (auto simp: visible_def list_all_iff)

lemma hget_hremove [simp]: "hget (hremove n hs) m = (if m = n then None else hget hs m)"
  by (induction hs) (auto simp: hremove_def)

lemma hget_hinsert [simp]: "hget (hinsert n v hs) m = (if m = n then Some v else hget hs m)"
  by (auto simp: hinsert_def map_add_def split: option.splits)

lemma hget_hinsert_str: "header_value v \<Longrightarrow> hget (hinsert_str n v hs) m = (if m = n then Some v else hget hs m)"
  by (simp add: hinsert_str_def)

lemma hget_hinsert_str_other: "m \<noteq> n \<Longrightarrow> hget (hinsert_str n v hs) m = hget hs m"
  by (simp add: hinsert_str_def)

section \<open>The cookie\<close>

definition COOKIE_NAME :: string where "COOKIE_NAME = ''xrweb''"

definition cookie_attrs :: "u64 \<Rightarrow> string" where
  "cookie_attrs max_age = ''HttpOnly; Secure; SameSite=Lax; Path=/; Max-Age='' @ dec_string (unat max_age)"

definition set_cookie :: "string \<Rightarrow> u64 \<Rightarrow> string" where
  "set_cookie token ttl = COOKIE_NAME @ ''='' @ token @ ''; '' @ cookie_attrs ttl"

definition clear_cookie :: string where
  "clear_cookie = COOKIE_NAME @ ''=; '' @ cookie_attrs 0"

type_synonym cookie_pair = "string \<times> string option"

definition cookie_pair_of :: "string \<Rightarrow> cookie_pair option" where
  "cookie_pair_of part =
     (let pair = trim part in
      if pair = [] then None
      else case split_once CHR ''='' pair of
          Some (nm, v) \<Rightarrow> Some (trim nm, Some (trim v))
        | None \<Rightarrow> Some (pair, None))"

definition cookie_pairs :: "string \<Rightarrow> cookie_pair list" where
  "cookie_pairs raw = List.map_filter cookie_pair_of (split_on CHR '';'' raw)"

definition token_from_cookie_header :: "string \<Rightarrow> string option" where
  "token_from_cookie_header raw = Option.bind (find (\<lambda>(nm, _). nm = COOKIE_NAME) (cookie_pairs raw)) snd"

fun show_pair :: "cookie_pair \<Rightarrow> string" where
  "show_pair (nm, Some v) = nm @ ''='' @ v"
| "show_pair (nm, None) = nm"

definition cookie_header_without_session :: "string \<Rightarrow> string option" where
  "cookie_header_without_session raw =
     (let kept = map show_pair (filter (\<lambda>(nm, _). nm \<noteq> COOKIE_NAME) (cookie_pairs raw))
      in if kept = [] then None else Some (join ''; '' kept))"

section \<open>Sessions\<close>

record session =
  ss_publication :: string
  ss_username :: string
  ss_expires :: u64

record sessions =
  se_ttl :: u64
  se_table :: "string \<rightharpoonup> session"

definition session_open :: "string \<Rightarrow> string \<Rightarrow> string \<Rightarrow> u64 \<Rightarrow> sessions \<Rightarrow> sessions" where
  "session_open token publication username now ss =
     ss\<lparr>se_table := (\<lambda>t. case se_table ss t of None \<Rightarrow> None | Some s \<Rightarrow> if ss_expires s > now then Some s else None)
        (token \<mapsto> \<lparr>ss_publication = publication, ss_username = username, ss_expires = sat_add_u64 now (se_ttl ss)\<rparr>)\<rparr>"

definition session_touch :: "string \<Rightarrow> string \<Rightarrow> u64 \<Rightarrow> sessions \<Rightarrow> string option \<times> sessions" where
  "session_touch token publication now ss = (case se_table ss token of
      None \<Rightarrow> (None, ss)
    | Some s \<Rightarrow>
        if ss_expires s \<le> now then (None, ss\<lparr>se_table := (se_table ss)(token := None)\<rparr>)
        else if ss_publication s \<noteq> publication then (None, ss)
        else (Some (ss_username s), ss\<lparr>se_table := (se_table ss)(token \<mapsto> s\<lparr>ss_expires := sat_add_u64 now (se_ttl ss)\<rparr>)\<rparr>))"

definition session_close :: "string \<Rightarrow> sessions \<Rightarrow> bool \<times> sessions" where
  "session_close token ss = (se_table ss token \<noteq> None, ss\<lparr>se_table := (se_table ss)(token := None)\<rparr>)"

section \<open>The publication of a host name\<close>

definition SHARE_LABEL :: string where "SHARE_LABEL = ''s''"

definition publication_of :: "string \<Rightarrow> string \<Rightarrow> string option" where
  "publication_of host domain =
     (let host = trim_end_char CHR ''.'' (hd (split_on CHR '':'' (to_ascii_lowercase (trim host))));
          tail = ''.'' @ domain
      in if \<not> suffix tail host then None
         else let nm = take (length host - length tail) host in
           if valid_publication_name nm \<and> nm \<noteq> SHARE_LABEL then Some nm else None)"

section \<open>Wrong passwords\<close>

definition FREE_ATTEMPTS :: u32 where "FREE_ATTEMPTS = 3"
definition MAX_DELAY_MS :: u64 where "MAX_DELAY_MS = 300000"

record attempt =
  at_failures :: u32
  at_blocked_until :: u64

type_synonym attempts = "string \<rightharpoonup> attempt"

definition blocked_for :: "string \<Rightarrow> u64 \<Rightarrow> attempts \<Rightarrow> u64 option" where
  "blocked_for key now m = (case m key of
      None \<Rightarrow> None
    | Some a \<Rightarrow> if at_blocked_until a > now then Some (at_blocked_until a - now) else None)"

definition delay_ms :: "u32 \<Rightarrow> u64" where
  "delay_ms failures =
     (let over = (if failures < FREE_ATTEMPTS then 0 else failures - FREE_ATTEMPTS)
      in if over = 0 then 0 else min (push_bit (unat (min (over - 1) 20)) 1000) MAX_DELAY_MS)"

definition attempt_failed :: "string \<Rightarrow> u64 \<Rightarrow> attempts \<Rightarrow> attempts" where
  "attempt_failed key now m =
     (let before = (case m key of None \<Rightarrow> 0 | Some a \<Rightarrow> at_failures a);
          failures = (if before = - 1 then before else before + 1)
      in m(key \<mapsto> \<lparr>at_failures = failures, at_blocked_until = sat_add_u64 now (delay_ms failures)\<rparr>))"

definition attempt_succeeded :: "string \<Rightarrow> attempts \<Rightarrow> attempts" where
  "attempt_succeeded key m = m(key := None)"

section \<open>The cookies of the application\<close>

text \<open>What a part of a visible cookie header parses to, and what prints to a part that parses to it again.\<close>

fun pair_ok :: "cookie_pair \<Rightarrow> bool" where
  "pair_ok (nm, v) \<longleftrightarrow> visible nm \<and> trimmed nm \<and> CHR '';'' \<notin> set nm \<and> CHR ''='' \<notin> set nm \<and>
     (case v of None \<Rightarrow> nm \<noteq> [] | Some w \<Rightarrow> visible w \<and> trimmed w \<and> CHR '';'' \<notin> set w)"

lemma set_trim: "is_ascii s \<Longrightarrow> set (trim s) \<subseteq> set s"
  by (auto simp: trim_ascii dest!: set_dropWhileD)

lemma visible_trim: "visible s \<Longrightarrow> visible (trim s)"
  using visible_subset set_trim visible_ascii by blast

lemma cookie_pair_ok:
  assumes "visible part" "CHR '';'' \<notin> set part" and "cookie_pair_of part = Some p"
  shows "pair_ok p"
proof -
  let ?t = "trim part"
  have t: "visible ?t" "trimmed ?t" "CHR '';'' \<notin> set ?t" "?t \<noteq> []"
    using assms visible_trim trimmed_trim [OF visible_ascii] set_trim [OF visible_ascii] by (auto simp: cookie_pair_of_def Let_def split: if_splits)
  show ?thesis
  proof (cases "split_once CHR ''='' ?t")
    case None
    then have "CHR ''='' \<notin> set ?t" by (auto simp: split_once_def split: if_splits)
    then show ?thesis using None assms(3) t by (auto simp: cookie_pair_of_def Let_def)
  next
    case (Some nv)
    obtain nm v where nv: "nv = (nm, v)" by fastforce
    have e: "?t = nm @ CHR ''='' # v" "CHR ''='' \<notin> set nm" using split_once_SomeD Some nv by blast+
    have vis: "visible nm" "visible v" by (rule visible_subset [OF t(1)], simp add: e(1), blast?)+
    have sub: "set (trim nm) \<subseteq> set nm" "set (trim v) \<subseteq> set v" using vis by (simp_all add: set_trim visible_ascii)
    have "CHR '';'' \<notin> set nm" "CHR '';'' \<notin> set v" using t(3) unfolding e(1) by auto
    then have "CHR '';'' \<notin> set (trim nm)" "CHR '';'' \<notin> set (trim v)" "CHR ''='' \<notin> set (trim nm)" using sub e(2) by blast+
    moreover have "p = (trim nm, Some (trim v))" using Some nv assms(3) t(4) by (simp add: cookie_pair_of_def Let_def)
    ultimately show ?thesis using visible_trim [OF vis(1)] visible_trim [OF vis(2)] trimmed_trim [OF visible_ascii [OF vis(1)]] trimmed_trim [OF visible_ascii [OF vis(2)]]
      by simp
  qed
qed

lemma cookie_pairs_ok: "visible raw \<Longrightarrow> p \<in> set (cookie_pairs raw) \<Longrightarrow> pair_ok p"
proof -
  assume v: "visible raw" and "p \<in> set (cookie_pairs raw)"
  then obtain part where part: "part \<in> set (split_on CHR '';'' raw)" "cookie_pair_of part = Some p"
    unfolding cookie_pairs_def List.map_filter_def by force
  have "visible part" by (rule visible_subset [OF v split_on_chars [OF part(1)]])
  then show "pair_ok p" by (rule cookie_pair_ok [OF _ split_on_parts [OF part(1)] part(2)])
qed

lemma show_pair_ok: "pair_ok p \<Longrightarrow> visible (show_pair p) \<and> CHR '';'' \<notin> set (show_pair p) \<and> trimmed (show_pair p) \<and> show_pair p \<noteq> []"
proof (cases p rule: show_pair.cases)
  case (1 nm v)
  assume ok: "pair_ok p"
  have "\<not> ascii_space CHR ''=''" "visible ''=''" by code_simp+
  then show ?thesis using ok 1 visible_append [of nm "''='' @ v"] visible_append [of "''=''" v]
    by (cases nm; cases v rule: rev_cases) (auto simp: trimmed_def simp del: visible_append)
qed auto

lemma trim_space: "is_ascii s \<Longrightarrow> trim (CHR '' '' # s) = trim s"
proof -
  have sp: "ascii_space CHR '' ''" "is_ascii '' ''" by code_simp+
  assume "is_ascii s"
  moreover from this have "is_ascii (CHR '' '' # s)" using sp(2) by (simp add: is_ascii_def)
  ultimately show ?thesis using sp(1) by (simp add: trim_ascii)
qed

lemma cookie_pair_of_show:
  assumes "pair_ok p"
  shows "cookie_pair_of (show_pair p) = Some p" "cookie_pair_of (CHR '' '' # show_pair p) = Some p"
proof -
  have s: "trim (show_pair p) = show_pair p" "trim (CHR '' '' # show_pair p) = show_pair p" "show_pair p \<noteq> []"
    using show_pair_ok [OF assms] trim_trimmed trim_space visible_ascii by auto
  have "(case split_once CHR ''='' (show_pair p) of Some (nm, v) \<Rightarrow> Some (trim nm, Some (trim v)) | None \<Rightarrow> Some (show_pair p, None)) = Some p"
  proof (cases p rule: show_pair.cases)
    case (1 nm v)
    then show ?thesis using assms trim_trimmed visible_ascii by (simp add: split_once_append)
  next
    case (2 nm)
    then show ?thesis using assms by (simp add: split_once_def)
  qed
  then show "cookie_pair_of (show_pair p) = Some p" "cookie_pair_of (CHR '' '' # show_pair p) = Some p" using s by (simp_all add: cookie_pair_of_def Let_def)
qed

lemma cookie_pairs_join: "ps \<noteq> [] \<Longrightarrow> \<forall>p \<in> set ps. pair_ok p \<Longrightarrow> cookie_pairs (join ''; '' (map show_pair ps)) = ps"
proof (induction ps)
  case (Cons p ps)
  have p: "pair_ok p" "CHR '';'' \<notin> set (show_pair p)" using Cons.prems(2) show_pair_ok by auto
  show ?case
  proof (cases "ps = []")
    case True
    then show ?thesis using p by (simp add: cookie_pairs_def split_on_no_sep List.map_filter_def cookie_pair_of_show)
  next
    case False
    let ?rest = "join ''; '' (map show_pair ps)"
    have rest: "List.map_filter cookie_pair_of (split_on CHR '';'' (CHR '' '' # ?rest)) = List.map_filter cookie_pair_of (split_on CHR '';'' ?rest)"
    proof -
      obtain q qs where q: "ps = q # qs" using False by (cases ps) auto
      have "CHR '';'' \<notin> set (show_pair q)" "pair_ok q" using Cons.prems(2) show_pair_ok q by auto
      then have "List.map_filter cookie_pair_of (split_on CHR '';'' ((CHR '' '' # show_pair q) @ CHR '';'' # rest)) =
          List.map_filter cookie_pair_of (split_on CHR '';'' (show_pair q @ CHR '';'' # rest))"
          "List.map_filter cookie_pair_of (split_on CHR '';'' (CHR '' '' # show_pair q)) = List.map_filter cookie_pair_of (split_on CHR '';'' (show_pair q))" for rest
        by (simp_all add: split_on_sep_append split_on_no_sep List.map_filter_def cookie_pair_of_show del: append_Cons split_on.simps)
      then show ?thesis by (cases qs) (simp_all add: q join_Cons del: split_on.simps)
    qed
    have "split_on CHR '';'' (join ''; '' (map show_pair (p # ps))) = show_pair p # split_on CHR '';'' (CHR '' '' # ?rest)"
      using False p(2) by (simp add: join_Cons split_on_sep_append split_on_no_sep del: split_on.simps)
    then show ?thesis using Cons.IH [OF False] Cons.prems(2) rest cookie_pair_of_show(1) [OF p(1)] by (simp add: cookie_pairs_def List.map_filter_def)
  qed
qed simp

lemma visible_join: "visible sep \<Longrightarrow> \<forall>s \<in> set ss. visible s \<Longrightarrow> visible (join sep ss)"
  by (induction sep ss rule: join.induct) auto

text \<open>What the application gets of an arbitrary cookie header: its own pairs, and no session.\<close>

lemma cookie_without_session:
  assumes "visible raw"
  shows "case cookie_header_without_session raw of
      None \<Rightarrow> filter (\<lambda>(nm, _). nm \<noteq> COOKIE_NAME) (cookie_pairs raw) = []
    | Some rest \<Rightarrow> visible rest \<and> cookie_pairs rest = filter (\<lambda>(nm, _). nm \<noteq> COOKIE_NAME) (cookie_pairs raw)"
proof -
  let ?ps = "filter (\<lambda>(nm, _). nm \<noteq> COOKIE_NAME) (cookie_pairs raw)"
  have ok: "\<forall>p \<in> set ?ps. pair_ok p" using cookie_pairs_ok [OF assms] by auto
  then have "visible (join ''; '' (map show_pair ?ps))" using show_pair_ok by (intro visible_join) (auto simp: visible_def)
  then show ?thesis using cookie_pairs_join [OF _ ok] by (simp add: cookie_header_without_session_def Let_def)
qed

text \<open>
  C29. The session and the application share one cookie header without touching each other: wherever the browser puts the session cookie among the
  application's cookies, the entrance reads back the token it had set, and the application is sent exactly its own cookies, in their order.
\<close>

theorem session_cookie_roundtrip:
  assumes "\<forall>p \<in> set (before @ after). pair_ok p \<and> fst p \<noteq> COOKIE_NAME" and "pair_ok (COOKIE_NAME, Some token)"
  shows "let raw = join ''; '' (map show_pair (before @ (COOKIE_NAME, Some token) # after)) in
    token_from_cookie_header raw = Some token \<and>
    cookie_header_without_session raw = (if before @ after = [] then None else Some (join ''; '' (map show_pair (before @ after))))"
proof -
  have "\<forall>p \<in> set (before @ (COOKIE_NAME, Some token) # after). pair_ok p" using assms by auto
  note pairs = cookie_pairs_join [OF _ this]
  have b: "find (\<lambda>(nm, _). nm = COOKIE_NAME) (before @ (COOKIE_NAME, Some token) # after) = Some (COOKIE_NAME, Some token)"
    using assms(1) by (induction before) auto
  have n: "nm \<noteq> COOKIE_NAME" if "(nm, v) \<in> set before \<or> (nm, v) \<in> set after" for nm v using bspec [OF assms(1), of "(nm, v)"] that by auto
  have f: "filter (\<lambda>(nm, _). nm \<noteq> COOKIE_NAME) before = before" "filter (\<lambda>(nm, _). nm \<noteq> COOKIE_NAME) after = after"
    using n by (auto simp: filter_id_conv)
  show ?thesis unfolding Let_def using pairs b f by (simp add: token_from_cookie_header_def cookie_header_without_session_def Let_def)
qed

theorem session_cookie_roundtrip_witness:
  "let raw = ''lang=ru; xrweb=Zz-9; theme'' in
    token_from_cookie_header raw = Some ''Zz-9'' \<and> cookie_header_without_session raw = Some ''lang=ru; theme''"
proof -
  have "\<forall>p \<in> set ([(''lang'', Some ''ru'')] @ [(''theme'', None)]). pair_ok p \<and> fst p \<noteq> COOKIE_NAME" "pair_ok (COOKIE_NAME, Some ''Zz-9'')"
    by code_simp+
  from session_cookie_roundtrip [OF this] show ?thesis by (simp add: Let_def COOKIE_NAME_def)
qed

section \<open>Guessing passwords\<close>

text \<open>
  One request for a verdict on a password: refused under a delay, and counted otherwise. The requests are taken one after another; requests that
  are handled at the same time may all pass the check of the delay before the first failure is counted, since the
  source takes one lock for the check and another for the count, with the hash of the password between them.
\<close>

definition password_turn :: "string \<times> u64 \<times> bool \<Rightarrow> attempts \<Rightarrow> bool \<times> attempts" where
  "password_turn req m = (case req of (key, now, correct) \<Rightarrow>
     if blocked_for key now m \<noteq> None then (False, m)
     else (True, if correct then attempt_succeeded key m else attempt_failed key now m))"

fun admitted_times :: "string \<Rightarrow> attempts \<Rightarrow> (string \<times> u64 \<times> bool) list \<Rightarrow> u64 list" where
  "admitted_times key m [] = []"
| "admitted_times key m (req # reqs) = (case password_turn req m of (admitted, m') \<Rightarrow>
     (if admitted \<and> fst req = key then [fst (snd req)] else []) @ admitted_times key m' reqs)"

definition delay_after :: "nat \<Rightarrow> nat" where
  "delay_after n = (if n \<le> 3 then 0 else min (1000 * 2 ^ min (n - 4) 20) 300000)"

lemma push_bit_u64: "k \<le> 20 \<Longrightarrow> unat (push_bit k (1000 :: u64)) = 1000 * 2 ^ k"
proof -
  assume k: "k \<le> 20"
  define N :: nat where "N = 1000 * 2 ^ k"
  have "N \<le> 1000 * 2 ^ 20" unfolding N_def using k by (intro mult_left_mono power_increasing) auto
  then have "unat (of_nat N :: u64) = N" by (simp add: unat_of_nat)
  moreover have "push_bit k (1000 :: u64) = of_nat N" by (simp add: N_def push_bit_eq_mult)
  ultimately show ?thesis by (simp add: N_def)
qed

lemma delay_ms_after: "unat (delay_ms f) = delay_after (unat f)"
proof (cases "unat f \<le> 3")
  case True
  then have "f < 3 \<or> f = 3" by (auto simp: word_less_nat_alt word_unat_eq_iff)
  then show ?thesis using True by (auto simp: delay_ms_def delay_after_def FREE_ATTEMPTS_def Let_def)
next
  case False
  then have f: "3 < f" by (simp add: word_less_nat_alt)
  then have nz: "f - 3 \<noteq> 0" by auto
  have "4 \<le> f" using False by (simp add: word_le_nat_alt)
  then have o1: "unat (f - 4) = unat f - 4" by (simp add: unat_sub)
  have "unat (min (f - 4) 20) = min (unat f - 4) 20" using o1 by (auto simp: min_def word_le_nat_alt)
  then have "unat (push_bit (unat (min (f - 4) 20)) (1000 :: u64)) = 1000 * 2 ^ min (unat f - 4) 20" by (simp add: push_bit_u64)
  moreover have "\<not> f < 3" using f by simp
  ultimately show ?thesis using False nz by (simp add: delay_ms_def delay_after_def FREE_ATTEMPTS_def MAX_DELAY_MS_def Let_def min_def word_le_nat_alt)
qed

text \<open>The counter sticks at its largest value, where the delay has long stopped to grow.\<close>

definition counts :: "nat \<Rightarrow> attempt \<Rightarrow> bool" where
  "counts n a \<longleftrightarrow> unat (at_failures a) = min n (2 ^ 32 - 1)"

lemma delay_after_capped: "delay_after (min n (2 ^ 32 - 1)) = delay_after n"
  by (auto simp: delay_after_def min_def)

lemma delay_after_le: "delay_after n \<le> 300000"
  by (simp add: delay_after_def)

lemma attempt_failed_key:
  assumes "unat now + 300000 < 2 ^ 64" and "case m key of None \<Rightarrow> n = 0 | Some a \<Rightarrow> counts n a"
  shows "\<exists>a. attempt_failed key now m key = Some a \<and> counts (Suc n) a \<and> unat (at_blocked_until a) = unat now + delay_after (Suc n)"
proof -
  define b where "b = (case m key of None \<Rightarrow> 0 | Some a \<Rightarrow> at_failures a)"
  define f where "f = (if b = - 1 then b else b + 1)"
  have b: "unat b = min n (2 ^ 32 - 1)" using assms(2) by (auto simp: b_def counts_def split: option.splits)
  have f: "unat f = min (Suc n) (2 ^ 32 - 1)"
  proof (cases "b = - 1")
    case True
    then have "unat b = 2 ^ 32 - 1" by (simp add: unsigned_minus_1_eq_mask mask_eq_exp_minus_1)
    then show ?thesis using b True by (simp add: f_def min_def split: if_splits)
  next
    case False
    then have "unat b \<noteq> 2 ^ 32 - 1" using word_unat_eq_iff [of b "- 1"] by (simp add: unsigned_minus_1_eq_mask mask_eq_exp_minus_1)
    moreover from this have "unat (b + 1) = Suc (unat b)" using b by (simp add: unat_plus_simple [THEN iffD1] unat_word_ariths min_def split: if_splits)
    ultimately show ?thesis using b False by (auto simp: f_def min_def split: if_splits)
  qed
  have d: "unat (delay_ms f) = delay_after (Suc n)" by (simp only: delay_ms_after f delay_after_capped)
  then have "unat now + unat (delay_ms f) < 2 ^ 64" using assms(1) delay_after_le [of "Suc n"] by simp
  then have "unat (sat_add_u64 now (delay_ms f)) = unat now + delay_after (Suc n)" using d by (simp add: sat_add_u64_def unat_word_ariths)
  then show ?thesis using f by (simp add: attempt_failed_def Let_def b_def [symmetric] f_def [symmetric] counts_def)
qed

lemma password_turn_other: "k \<noteq> key \<Longrightarrow> snd (password_turn (k, now, c) m) key = m key"
  by (simp add: password_turn_def attempt_succeeded_def attempt_failed_def Let_def)

lemma admitted_later:
  assumes "\<forall>(k, now, c) \<in> set reqs. unat now + 300000 < 2 ^ 64 \<and> (k = key \<longrightarrow> \<not> c)" and "m key = Some a" and "counts n a"
    and "i < length (admitted_times key m reqs)"
  shows "unat (at_blocked_until a) + (\<Sum>j = n + 1 ..< n + 1 + i. delay_after j) \<le> unat (admitted_times key m reqs ! i)"
  using assms
proof (induction reqs arbitrary: m a n i)
  case (Cons req reqs)
  obtain k now c where req: "req = (k, now, c)" by (cases req)
  have prems: "\<forall>(k, now, c) \<in> set reqs. unat now + 300000 < 2 ^ 64 \<and> (k = key \<longrightarrow> \<not> c)" "unat now + 300000 < 2 ^ 64" "k = key \<longrightarrow> \<not> c"
    using Cons.prems(1) req by auto
  show ?case
  proof (cases "k = key \<and> fst (password_turn req m)")
    case False
    then have "snd (password_turn req m) key = m key" by (cases "k = key") (auto simp: req password_turn_def attempt_succeeded_def attempt_failed_def Let_def split: if_splits)
    moreover have "admitted_times key m (req # reqs) = admitted_times key (snd (password_turn req m)) reqs" using False by (auto simp: req split: prod.splits)
    ultimately show ?thesis using Cons.IH [OF prems(1)] Cons.prems by simp
  next
    case True
    then have nb: "\<not> at_blocked_until a > now" "password_turn req m = (True, attempt_failed key now m)"
      using Cons.prems(2) prems(3) by (auto simp: req password_turn_def blocked_for_def split: if_splits)
    obtain a' where a': "attempt_failed key now m key = Some a'" "counts (Suc n) a'" "unat (at_blocked_until a') = unat now + delay_after (Suc n)"
      using attempt_failed_key [OF prems(2), where m = m and key = key and n = n] Cons.prems(2,3) by auto
    have e: "admitted_times key m (req # reqs) = now # admitted_times key (attempt_failed key now m) reqs" using True nb(2) by (simp add: req)
    have le: "unat (at_blocked_until a) \<le> unat now" using nb(1) by (simp add: word_less_nat_alt)
    show ?thesis
    proof (cases i)
      case 0
      then show ?thesis using e le by simp
    next
      case (Suc i')
      have "unat now + delay_after (Suc n) + (\<Sum>j = Suc n + 1 ..< Suc n + 1 + i'. delay_after j) \<le> unat (admitted_times key (attempt_failed key now m) reqs ! i')"
        using Cons.IH [where m = "attempt_failed key now m" and a = a' and n = "Suc n" and i = i'] prems(1) a'(1,2) Cons.prems(4) e Suc a'(3) by simp
      moreover have "(\<Sum>j = n + 1 ..< n + 1 + i. delay_after j) = delay_after (Suc n) + (\<Sum>j = Suc n + 1 ..< Suc n + 1 + i'. delay_after j)"
        using Suc sum.atLeast_Suc_lessThan [of "n + 1" "n + 1 + i" delay_after] by simp
      ultimately show ?thesis using e le Suc by simp
    qed
  qed
qed simp

lemma delays_sum: "(\<Sum>j = 1 ..< 13 + k. delay_after j) = 511000 + 300000 * k"
proof (induction k)
  case 0
  have "{1 ..< 13 :: nat} = {1, 2, 3, 4, 5, 6, 7, 8, 9, 10, 11, 12}" by (simp add: set_upt [symmetric] upt_rec numeral_eq_Suc del: set_upt)
  then show ?case by (simp add: delay_after_def)
next
  case (Suc k)
  have "(1000 :: nat) * 2 ^ 9 \<le> 1000 * 2 ^ min (9 + k) 20" by (intro mult_left_mono power_increasing) auto
  then have "delay_after (13 + k) = 300000" by (simp add: delay_after_def)
  then show ?case using Suc sum.atLeastLessThan_Suc [of 1 "13 + k" delay_after] by simp
qed

definition request_times :: "string \<Rightarrow> (string \<times> u64 \<times> bool) list \<Rightarrow> u64 list" where
  "request_times key reqs = map (\<lambda>req. fst (snd req)) (filter (\<lambda>req. fst req = key) reqs)"

lemma admitted_free:
  assumes "\<forall>(k, now, c) \<in> set reqs. unat now + 300000 < 2 ^ 64 \<and> (k = key \<longrightarrow> \<not> c)" and "sorted (request_times key reqs)"
    and "case m key of None \<Rightarrow> n = 0 | Some a \<Rightarrow> counts n a \<and> (\<forall>t \<in> set (request_times key reqs). at_blocked_until a \<le> t)"
  shows "take (4 - n) (admitted_times key m reqs) = take (4 - n) (request_times key reqs)"
  using assms
proof (induction reqs arbitrary: m n)
  case (Cons req reqs)
  obtain k now c where req: "req = (k, now, c)" by (cases req)
  have prems: "\<forall>(k, now, c) \<in> set reqs. unat now + 300000 < 2 ^ 64 \<and> (k = key \<longrightarrow> \<not> c)" "unat now + 300000 < 2 ^ 64" "k = key \<longrightarrow> \<not> c"
    using Cons.prems(1) req by auto
  show ?case
  proof (cases "k = key")
    case False
    then have "admitted_times key m (req # reqs) = admitted_times key (snd (password_turn req m)) reqs"
      and r: "request_times key (req # reqs) = request_times key reqs" by (auto simp: req request_times_def split: prod.splits)
    moreover have "snd (password_turn req m) key = m key" using password_turn_other [OF False] by (simp add: req)
    ultimately show ?thesis using Cons.IH [OF prems(1), where m = "snd (password_turn req m)" and n = n] Cons.prems(2,3) unfolding r by simp
  next
    case True
    have r: "request_times key (req # reqs) = now # request_times key reqs" using True by (simp add: req request_times_def)
    have t: "password_turn req m = (True, attempt_failed key now m)" using Cons.prems(3) prems(3) True r
      by (auto simp: req password_turn_def blocked_for_def not_less split: option.splits)
    obtain a where a: "attempt_failed key now m key = Some a" "counts (Suc n) a" "unat (at_blocked_until a) = unat now + delay_after (Suc n)"
      using attempt_failed_key [OF prems(2), where m = m and key = key and n = n] Cons.prems(3) by (auto split: option.splits)
    show ?thesis
    proof (cases "Suc n \<le> 3")
      case True
      then have "at_blocked_until a = now" using a(3) by (simp add: delay_after_def word_unat_eq_iff)
      then have "take (4 - Suc n) (admitted_times key (attempt_failed key now m) reqs) = take (4 - Suc n) (request_times key reqs)"
        using Cons.IH [OF prems(1), where m = "attempt_failed key now m" and n = "Suc n"] Cons.prems(2) a(1,2) r by simp
      moreover have "4 - n = Suc (4 - Suc n)" using True by simp
      ultimately show ?thesis using t r \<open>k = key\<close> by (simp add: req)
    next
      case False
      then consider "4 - n = 0" | "4 - n = Suc 0" by linarith
      then show ?thesis using t r \<open>k = key\<close> by cases (simp_all add: req)
    qed
  qed
qed (simp add: request_times_def)

text \<open>
  C28. Guessing is slow. Among wrong passwords for one key that are checked one after another, whatever happens for other keys in between and
  however many requests are refused: three wrong ones are free, so the first four requests are all looked at (if the clock does not run backwards);
  and the guess that comes after \<open>12 + k\<close> wrong ones is looked at only when 511 seconds and \<open>k\<close> times five minutes have gone by since
  the first. (Clocks that come within five minutes of the end of 64-bit milliseconds are not meant; requests handled at the same time may pass the
  check together before the first failure is counted.)
\<close>

theorem guessing_is_slow:
  assumes "m key = None" and "\<forall>(k, now, correct) \<in> set reqs. unat now + 300000 < 2 ^ 64 \<and> (k = key \<longrightarrow> \<not> correct)"
    and "tried = admitted_times key m reqs"
  shows "(sorted (request_times key reqs) \<longrightarrow> take 4 tried = take 4 (request_times key reqs)) \<and>
    (\<forall>k. 12 + k < length tried \<longrightarrow> unat (tried ! 0) + 511000 + 300000 * k \<le> unat (tried ! (12 + k)))"
proof (intro conjI impI allI)
  assume "sorted (request_times key reqs)"
  then show "take 4 tried = take 4 (request_times key reqs)" using admitted_free [OF assms(2), where m = m and n = 0] assms(1,3) by simp
next
  fix k
  assume len: "12 + k < length tried"
  have "unat (tried ! 0) + (\<Sum>j = 1 ..< 1 + i. delay_after j) \<le> unat (tried ! i)" if "i < length tried" for i
    using assms(1,2) that unfolding assms(3)
  proof (induction reqs arbitrary: m)
    case (Cons req reqs)
    obtain k now c where req: "req = (k, now, c)" by (cases req)
    have prems: "\<forall>(k, now, c) \<in> set reqs. unat now + 300000 < 2 ^ 64 \<and> (k = key \<longrightarrow> \<not> c)" "unat now + 300000 < 2 ^ 64" "k = key \<longrightarrow> \<not> c"
      using Cons.prems(2) req by auto
    show ?case
    proof (cases "k = key")
      case False
      then have "admitted_times key m (req # reqs) = admitted_times key (snd (password_turn req m)) reqs" by (auto simp: req split: prod.splits)
      then show ?thesis using Cons.IH [of "snd (password_turn req m)"] Cons.prems prems(1) password_turn_other [OF False] by (simp add: req)
    next
      case True
      then have t: "password_turn req m = (True, attempt_failed key now m)" using Cons.prems(1) prems(3) by (simp add: req password_turn_def blocked_for_def)
      then have e: "admitted_times key m (req # reqs) = now # admitted_times key (attempt_failed key now m) reqs" using True by (simp add: req)
      obtain a where a: "attempt_failed key now m key = Some a" "counts 1 a" "unat (at_blocked_until a) = unat now"
        using attempt_failed_key [OF prems(2), where m = m and key = key and n = 0] Cons.prems(1) by (auto simp: delay_after_def)
      show ?thesis
      proof (cases i)
        case (Suc i')
        have "unat now + (\<Sum>j = 2 ..< 2 + i'. delay_after j) \<le> unat (admitted_times key (attempt_failed key now m) reqs ! i')"
          using admitted_later [where m = "attempt_failed key now m" and key = key and n = 1 and i = i', OF prems(1) a(1,2)] Cons.prems(3) e Suc a(3)
          by (simp add: numeral_2_eq_2)
        moreover have "(\<Sum>j = 1 ..< 1 + i. delay_after j) = (\<Sum>j = 2 ..< 2 + i'. delay_after j)"
          using Suc sum.atLeast_Suc_lessThan [of 1 "1 + i" delay_after] by (simp add: delay_after_def numeral_2_eq_2)
        ultimately show ?thesis using e Suc by simp
      qed (use e in simp)
    qed
  qed simp
  from this [OF len] show "unat (tried ! 0) + 511000 + 300000 * k \<le> unat (tried ! (12 + k))" using delays_sum [of k] by (simp add: add.commute add.left_commute)
qed

theorem guessing_is_slow_witness:
  "let tried = admitted_times ''k'' Map.empty (map (\<lambda>i. (''k'', of_nat (300000 * i), False)) [0..<13])
    in take 4 tried = [0, 300000, 600000, 900000] \<and> unat (tried ! 0) + 511000 + 300000 * 0 \<le> unat (tried ! (12 + 0)) \<and> tried ! 12 = 3600000"
proof -
  let ?reqs = "map (\<lambda>i. (''k'', of_nat (300000 * i) :: u64, False)) [0..<13]"
  have "\<forall>(k, now, correct) \<in> set ?reqs. unat now + 300000 < 2 ^ 64 \<and> (k = ''k'' \<longrightarrow> \<not> correct)" by (simp add: upt_rec)
  moreover have t: "admitted_times ''k'' Map.empty ?reqs = map (\<lambda>i. of_nat (300000 * i)) [0..<13]"
    by (simp add: upt_rec password_turn_def blocked_for_def attempt_failed_def sat_add_u64_def delay_ms_def FREE_ATTEMPTS_def MAX_DELAY_MS_def Let_def)
  moreover have "sorted (request_times ''k'' ?reqs)" "take 4 (request_times ''k'' ?reqs) = [0, 300000, 600000, 900000]"
    by (simp_all add: request_times_def upt_rec)
  ultimately show ?thesis using guessing_is_slow [of Map.empty "''k''" ?reqs, OF _ _ refl] unfolding Let_def by (auto simp: upt_rec)
qed

end
