(* ===== verification/Web_Splice.thy ===== *)
theory Web_Splice
  imports Web_Session
begin

text \<open>
  A connection of the browser entrance after a change of protocol (\<^verbatim>\<open>xr-web/src/upgrade.rs\<close>): what counts as a request for it, when the entrance ends such a
  connection itself, and one direction of the copying, which keeps track of the boundaries of WebSocket frames so that the closing frame
  it appends is not read as part of another frame. Reads, writes and the timer are a list of events; a write succeeds or ends the
  direction. The timer fires when the time is up and once more when the grace for an unfinished frame is over; the lingering after the end is left out.
\<close>

unbundle bit_operations_syntax

section \<open>The request and the time left\<close>

definition upgrade_requested :: "headers \<Rightarrow> string option" where
  "upgrade_requested hs = (case to_str (hget hs ''connection'') of
      None \<Rightarrow> None
    | Some connection \<Rightarrow>
        if \<not> list_ex (\<lambda>token. eq_ignore_ascii_case (trim token) ''upgrade'') (split_on CHR '','' connection) then None
        else (case to_str (hget hs ''upgrade'') of
            None \<Rightarrow> None
          | Some v \<Rightarrow> let proto = trim v in if proto = [] then None else Some proto))"

definition is_websocket :: "string \<Rightarrow> bool" where
  "is_websocket proto \<longleftrightarrow> eq_ignore_ascii_case proto ''websocket''"

text \<open>Durations in milliseconds.\<close>

definition CLOSE_MARGIN :: nat where "CLOSE_MARGIN = 60000"

definition close_after :: "u64 \<Rightarrow> nat \<Rightarrow> nat option" where
  "close_after splice_lifetime_secs age =
     (if splice_lifetime_secs = 0 then None
      else let cap = 1000 * unat splice_lifetime_secs;
               margin = min CLOSE_MARGIN (cap div 5)
           in Some (max (cap - age - margin) 100))"

lemma close_after_in_time:
  assumes "close_after secs age = Some left" and "age + min CLOSE_MARGIN (200 * unat secs) + 100 \<le> 1000 * unat secs"
  shows "age + left + min CLOSE_MARGIN (200 * unat secs) = 1000 * unat secs"
  using assms by (auto simp: close_after_def Let_def max_def split: if_splits)

section \<open>Frames\<close>

definition SERVER_CLOSE_GOING_AWAY :: bytes where
  "SERVER_CLOSE_GOING_AWAY = [0x88, 0x02, 0x03, 0xE9]"

definition masked_close :: "byte \<Rightarrow> byte \<Rightarrow> byte \<Rightarrow> byte \<Rightarrow> bytes" where
  "masked_close m0 m1 m2 m3 = [0x88, 0x82, m0, m1, m2, m3, 0x03 XOR m0, 0xE9 XOR m1]"

definition header_len :: "bytes \<Rightarrow> nat option" where
  "header_len buf =
     (if length buf < 2 then None
      else let code = buf ! 1 AND 0x7F
           in Some (2 + (if code = 126 then 2 else if code = 127 then 8 else 0) + (if buf ! 1 AND 0x80 \<noteq> 0 then 4 else 0)))"

definition be_nat :: "bytes \<Rightarrow> nat" where
  "be_nat bs = foldl (\<lambda>n b. 256 * n + unat b) 0 bs"

definition payload_len :: "bytes \<Rightarrow> nat" where
  "payload_len buf =
     (let code = buf ! 1 AND 0x7F in
      if code = 126 then be_nat [buf ! 2, buf ! 3]
      else if code = 127 then be_nat [buf ! 2, buf ! 3, buf ! 4, buf ! 5, buf ! 6, buf ! 7, buf ! 8, buf ! 9]
      else unat code)"

datatype frame_state = Header bytes | Payload nat

record framing =
  fg_enabled :: bool
  fg_state :: frame_state

definition framing_new :: "bool \<Rightarrow> framing" where
  "framing_new enabled = \<lparr>fg_enabled = enabled, fg_state = Header []\<rparr>"

definition at_boundary :: "framing \<Rightarrow> bool" where
  "at_boundary f \<longleftrightarrow> \<not> fg_enabled f \<or> fg_state f = Header []"

text \<open>One turn of the loop in \<^verbatim>\<open>Framing::feed\<close>, and the loop.\<close>

definition header_byte :: "bytes \<Rightarrow> byte \<Rightarrow> frame_state" where
  "header_byte buf b =
     (let buf' = buf @ [b] in
      if header_len buf' = Some (length buf')
      then let payload = payload_len buf' in if payload = 0 then Header [] else Payload payload
      else Header buf')"

function feed_state :: "frame_state \<Rightarrow> bytes \<Rightarrow> frame_state" where
  "feed_state st [] = st"
| "feed_state (Payload left) (b # bs) =
     (let taken = min left (length (b # bs))
      in feed_state (if left - taken = 0 then Header [] else Payload (left - taken)) (drop taken (b # bs)))"
| "feed_state (Header buf) (b # bs) = feed_state (header_byte buf b) bs"
  by pat_completeness auto
termination
  by (relation "measures [\<lambda>(st, bs). length bs, \<lambda>(st, bs). if st = Payload 0 then 1 else 0]") (auto simp: min_def split: if_splits)

definition feed :: "framing \<Rightarrow> bytes \<Rightarrow> framing" where
  "feed f bs = (if fg_enabled f then f\<lparr>fg_state := feed_state (fg_state f) bs\<rparr> else f)"

section \<open>One direction\<close>

datatype pump_event = Slept | Got bytes bool | Closed | Lost
datatype pump_end = Eof | Deadline | Broken

fun pump :: "bool \<Rightarrow> bytes option \<Rightarrow> framing \<Rightarrow> bool \<Rightarrow> bytes \<Rightarrow> pump_event list \<Rightarrow> pump_end option \<times> bytes" where
  "pump armed close_frame frames closing out [] = (None, out)"
| "pump armed close_frame frames closing out (Slept # es) =
     (if \<not> armed then pump armed close_frame frames closing out es
      else if closing \<or> at_boundary frames then (Some Deadline, out @ (case close_frame of None \<Rightarrow> [] | Some c \<Rightarrow> c))
      else pump armed close_frame frames True out es)"
| "pump armed close_frame frames closing out (Got bs written # es) =
     (if \<not> written then (Some Broken, out)
      else let frames = feed frames bs in
        if closing \<and> at_boundary frames then (Some Deadline, out @ bs @ (case close_frame of None \<Rightarrow> [] | Some c \<Rightarrow> c))
        else pump armed close_frame frames closing (out @ bs) es)"
| "pump armed close_frame frames closing out (Closed # es) = (Some Eof, out)"
| "pump armed close_frame frames closing out (Lost # es) = (Some Broken, out)"

section \<open>Boundaries\<close>

text \<open>A frame as RFC 6455 writes it: a first byte, one of three forms of the length, maybe a mask, and the payload.\<close>

datatype length_form = Short | Medium | Long

record ws_frame =
  wf_first :: byte
  wf_form :: length_form
  wf_mask :: "bytes option"
  wf_payload :: bytes

fun be_bytes :: "nat \<Rightarrow> nat \<Rightarrow> bytes" where
  "be_bytes 0 n = []"
| "be_bytes (Suc k) n = be_bytes k (n div 256) @ [of_nat (n mod 256)]"

definition ws_header :: "ws_frame \<Rightarrow> bytes" where
  "ws_header f =
     (let n = length (wf_payload f);
          (code, ext) = (case wf_form f of Short \<Rightarrow> (n, []) | Medium \<Rightarrow> (126, be_bytes 2 n) | Long \<Rightarrow> (127, be_bytes 8 n))
      in [wf_first f, of_nat (code + (if wf_mask f = None then 0 else 128))] @ ext @ (case wf_mask f of None \<Rightarrow> [] | Some m \<Rightarrow> m))"

definition ws_encode :: "ws_frame \<Rightarrow> bytes" where
  "ws_encode f = ws_header f @ wf_payload f"

definition ws_ok :: "ws_frame \<Rightarrow> bool" where
  "ws_ok f \<longleftrightarrow> length (wf_payload f) < (case wf_form f of Short \<Rightarrow> 126 | Medium \<Rightarrow> 2 ^ 16 | Long \<Rightarrow> 2 ^ 64) \<and>
     (case wf_mask f of None \<Rightarrow> True | Some m \<Rightarrow> length m = 4)"

lemma length_be_bytes [simp]: "length (be_bytes k n) = k"
  by (induction k arbitrary: n) auto

lemma be_nat_bytes: "n < 256 ^ k \<Longrightarrow> be_nat (be_bytes k n) = n"
proof (induction k arbitrary: n)
  case (Suc k)
  then have "n div 256 < 256 ^ k" by (simp add: less_mult_imp_div_less mult.commute)
  then have "be_nat (be_bytes k (n div 256)) = n div 256" by (rule Suc.IH)
  moreover have "unat (of_nat (n mod 256) :: byte) = n mod 256" by (simp add: unat_of_nat)
  ultimately show ?case by (simp add: be_nat_def)
qed (simp add: be_nat_def)

lemma low_bits: "unat ((b :: byte) AND 0x7F) = unat b mod 128"
proof -
  have "b AND 0x7F = take_bit 7 b" by (simp add: take_bit_eq_mask mask_eq_exp_minus_1)
  moreover have "unat (take_bit 7 b) = unat b mod 2 ^ 7" by (simp only: unsigned_take_bit_eq take_bit_nat_def)
  ultimately show ?thesis by (simp only:) simp
qed

lemma high_bit: "(b :: byte) AND 0x80 \<noteq> 0 \<longleftrightarrow> 128 \<le> unat b"
proof -
  have "b AND 0x80 = 0 \<longleftrightarrow> \<not> bit b 7" using and_exp_eq_0_iff_not_bit [of b 7] by simp
  moreover have "bit b 7 \<longleftrightarrow> odd (unat b div 128)" using bit_unsigned_iff [of b 7, where 'a = nat] by (simp add: bit_iff_odd)
  moreover have "x div 128 = (if 128 \<le> x then 1 else 0)" if "x < 256" for x :: nat using that by (cases "128 \<le> x") (simp_all add: div_nat_eqI)
  ultimately show ?thesis using unat_u8_less [of b] by (simp split: if_splits)
qed

lemma second_byte:
  assumes "code < 128"
    and b_def: "b = (of_nat (code + (if masked then 128 else 0)) :: byte)"
  shows "unat (b AND 0x7F) = code" "(b AND 0x80 \<noteq> 0) = masked"
proof -
  have u: "unat b = code + (if masked then 128 else 0)" unfolding b_def by (rule unat_of_nat_u8) (use assms in simp)
  show "unat (b AND 0x7F) = code" "(b AND 0x80 \<noteq> 0) = masked" unfolding low_bits high_bit u using assms(1) by auto
qed

text \<open>Feeding in pieces is feeding at once.\<close>

lemma feed_payload:
  "feed_state (Payload left) bs = (if bs = [] then Payload left else if left \<le> length bs then feed_state (Header []) (drop left bs) else Payload (left - length bs))"
  by (cases bs) (auto simp: min_def Let_def)

lemma feed_append: "feed_state st (as @ bs) = feed_state (feed_state st as) bs"
proof (induction st as rule: feed_state.induct)
  case (2 left a as)
  show ?case
  proof (cases "left \<le> length (a # as)")
    case True
    have "feed_state (Header []) (drop left (a # as) @ bs) = feed_state (feed_state (Header []) (drop left (a # as))) bs"
      using 2 [OF refl] True by (simp add: min_def split: if_splits)
    then show ?thesis using True feed_payload [of left "a # as"] feed_payload [of left "(a # as) @ bs"] by (simp del: feed_state.simps append_Cons)
  next
    case False
    then have "drop left ((a # as) @ bs) = drop (left - length (a # as)) bs" "feed_state (Payload left) (a # as) = Payload (left - length (a # as))"
      using drop_append [of left "a # as" bs] feed_payload [of left "a # as"] by (simp_all del: append_Cons)
    then show ?thesis using False feed_payload [of left "(a # as) @ bs"] feed_payload [of "left - length (a # as)" bs]
      by (cases "bs = []") (auto simp del: feed_state.simps append_Cons)
  qed
qed simp_all

lemma ws_header_sel:
  assumes "ws_ok f"
  shows "2 \<le> length (ws_header f)" "2 \<le> j \<Longrightarrow> header_len (take j (ws_header f)) = Some (length (ws_header f))"
    "payload_len (ws_header f) = length (wf_payload f)"
proof -
  let ?n = "length (wf_payload f)"
  define code where "code = (case wf_form f of Short \<Rightarrow> ?n | Medium \<Rightarrow> 126 | Long \<Rightarrow> 127)"
  define ext where "ext = (case wf_form f of Short \<Rightarrow> [] | Medium \<Rightarrow> be_bytes 2 ?n | Long \<Rightarrow> be_bytes 8 ?n)"
  define mask where "mask = (case wf_mask f of None \<Rightarrow> [] | Some m \<Rightarrow> m)"
  define b where "b = (of_nat (code + (if wf_mask f \<noteq> None then 128 else 0)) :: byte)"
  have h: "ws_header f = wf_first f # b # ext @ mask"
    by (simp add: ws_header_def code_def ext_def mask_def b_def Let_def split: length_form.splits)
  have c: "code < 128" using assms by (simp add: code_def ws_ok_def split: length_form.splits)
  have b: "unat (b AND 0x7F) = code" "(b AND 0x80 \<noteq> 0) = (wf_mask f \<noteq> None)" using second_byte [OF c b_def] by blast+
  have code: "b AND 0x7F = 126 \<longleftrightarrow> code = 126" "b AND 0x7F = 127 \<longleftrightarrow> code = 127" unfolding b(1) [symmetric] by (simp_all add: word_unat_eq_iff)
  have l: "length ext = (if code = 126 then 2 else if code = 127 then 8 else 0)" "length mask = (if wf_mask f \<noteq> None then 4 else 0)"
    using assms by (auto simp: ext_def mask_def code_def ws_ok_def split: length_form.splits option.splits)
  show "2 \<le> length (ws_header f)" by (simp add: h)
  show "header_len (take j (ws_header f)) = Some (length (ws_header f))" if j: "2 \<le> j"
  proof -
    have "take j (ws_header f) ! 1 = b" "\<not> length (take j (ws_header f)) < 2" using j by (auto simp: h)
    then show ?thesis using b(2) code l by (simp add: header_len_def Let_def h)
  qed
  have n: "?n < 256 ^ 2" if "wf_form f = Medium" using assms that by (simp add: ws_ok_def)
  have n8: "?n < 256 ^ 8" if "wf_form f = Long" using assms that by (simp add: ws_ok_def)
  have e2: "[ext ! 0, ext ! 1] = ext" if "length ext = 2" using that by (auto simp: numeral_eq_Suc length_Suc_conv)
  have e8: "[ext ! 0, ext ! 1, ext ! 2, ext ! 3, ext ! 4, ext ! 5, ext ! 6, ext ! 7] = ext" if "length ext = 8"
    using that by (auto simp: numeral_eq_Suc length_Suc_conv)
  have at: "ws_header f ! Suc 0 = b" "i < length ext \<Longrightarrow> ws_header f ! (i + 2) = ext ! i" for i by (simp_all add: h nth_append)
  show "payload_len (ws_header f) = ?n"
  proof (cases "wf_form f")
    case Short
    then have "code \<noteq> 126" "code \<noteq> 127" "code = ?n" using assms by (auto simp: code_def ws_ok_def)
    then show ?thesis using code b(1) by (simp add: payload_len_def at Let_def)
  next
    case Medium
    then have "code = 126" "length ext = 2" "be_nat ext = ?n" using n be_nat_bytes [of ?n 2] by (simp_all add: code_def ext_def)
    then show ?thesis using code e2 at(2) [of 0] at(2) [of 1] by (simp add: payload_len_def at(1) Let_def numeral_eq_Suc)
  next
    case Long
    then have "code = 127" "length ext = 8" "be_nat ext = ?n" using n8 be_nat_bytes [of ?n 8] by (simp_all add: code_def ext_def)
    then have "ws_header f ! 2 = ext ! 0" "ws_header f ! 3 = ext ! 1" "ws_header f ! 4 = ext ! 2" "ws_header f ! 5 = ext ! 3"
        "ws_header f ! 6 = ext ! 4" "ws_header f ! 7 = ext ! 5" "ws_header f ! 8 = ext ! 6" "ws_header f ! 9 = ext ! 7" "b AND 0x7F = 127"
      using code by (simp_all add: h nth_append)
    then show ?thesis using e8 [OF \<open>length ext = 8\<close>] \<open>be_nat ext = ?n\<close> by (simp add: payload_len_def at(1) Let_def)
  qed
qed

lemma feed_header:
  assumes "ws_ok f" and "j \<le> length (ws_header f)"
  shows "feed_state (Header []) (take j (ws_header f)) =
    (if j < length (ws_header f) then Header (take j (ws_header f)) else if wf_payload f = [] then Header [] else Payload (length (wf_payload f)))"
  using assms(2)
proof (induction j)
  case 0
  then show ?case using ws_header_sel(1) [OF assms(1)] by (cases "ws_header f") auto
next
  case (Suc j)
  let ?h = "ws_header f"
  have t: "take (Suc j) ?h = take j ?h @ [?h ! j]" using Suc.prems by (simp add: take_Suc_conv_app_nth)
  have "feed_state (Header []) (take (Suc j) ?h) = header_byte (take j ?h) (?h ! j)" unfolding t feed_append using Suc by simp
  moreover have "header_len (take (Suc j) ?h) = Some (Suc j) \<longleftrightarrow> Suc j = length ?h"
    using ws_header_sel(1) [OF assms(1)] ws_header_sel(2) [OF assms(1), of "Suc j"] Suc.prems by (cases "j = 0") (auto simp: header_len_def)
  ultimately show ?case using ws_header_sel(3) [OF assms(1)] Suc.prems by (auto simp: header_byte_def Let_def t [symmetric])
qed

lemma feed_within_frame:
  assumes "ws_ok f" and "prefix p (ws_encode f)"
  shows "feed_state (Header []) p = Header [] \<longleftrightarrow> p = [] \<or> p = ws_encode f"
proof (cases "length p < length (ws_header f)")
  case True
  then have "p = take (length p) (ws_header f)" using assms(2) unfolding ws_encode_def by (metis append_eq_conv_conj prefix_def less_imp_le take_append diff_is_0_eq take_0 append_Nil2)
  then have "feed_state (Header []) p = Header p" using feed_header [OF assms(1), of "length p"] True by simp
  then show ?thesis using True by (auto simp: ws_encode_def)
next
  case False
  then obtain q where q: "p = ws_header f @ q" "prefix q (wf_payload f)"
    using assms(2) unfolding ws_encode_def by (metis prefix_append prefix_length_le append_Nil2 prefix_order.antisym not_less same_prefix_prefix prefix_length_prefix prefixI prefixE)
  have "feed_state (Header []) p = feed_state (if wf_payload f = [] then Header [] else Payload (length (wf_payload f))) q"
    using feed_header [OF assms(1), of "length (ws_header f)"] by (simp add: q(1) feed_append)
  moreover have "length (wf_payload f) \<le> length q \<Longrightarrow> q = wf_payload f" using q(2) by (auto simp: prefix_def)
  moreover have "ws_header f \<noteq> []" using ws_header_sel(1) [OF assms(1)] by auto
  ultimately show ?thesis using q by (auto simp: ws_encode_def feed_payload simp del: feed_state.simps(2))
qed

lemma ex_take_Cons: "(\<exists>k \<le> length (f # fs). P (take k (f # fs))) \<longleftrightarrow> P [] \<or> (\<exists>k \<le> length fs. P (f # take k fs))"
proof
  assume "\<exists>k \<le> length (f # fs). P (take k (f # fs))"
  then obtain k where "k \<le> length (f # fs)" "P (take k (f # fs))" by blast
  then show "P [] \<or> (\<exists>k \<le> length fs. P (f # take k fs))" by (cases k) auto
next
  assume "P [] \<or> (\<exists>k \<le> length fs. P (f # take k fs))"
  then show "\<exists>k \<le> length (f # fs). P (take k (f # fs))"
  proof
    assume "\<exists>k \<le> length fs. P (f # take k fs)"
    then obtain k where "k \<le> length fs" "P (f # take k fs)" by blast
    then show ?thesis by (intro exI [of _ "Suc k"]) simp
  qed (intro exI [of _ 0], simp)
qed

lemma boundary_exact:
  assumes "\<forall>f \<in> set fs. ws_ok f" and "prefix p (concat (map ws_encode fs))"
  shows "feed_state (Header []) p = Header [] \<longleftrightarrow> (\<exists>k \<le> length fs. p = concat (map ws_encode (take k fs)))"
  using assms
proof (induction fs arbitrary: p)
  case (Cons f fs)
  have ok: "ws_ok f" "ws_encode f \<noteq> []" using Cons.prems(1) ws_header_sel(1) [of f] by (auto simp: ws_encode_def)
  have ex: "(\<exists>k \<le> length (f # fs). p = concat (map ws_encode (take k (f # fs)))) \<longleftrightarrow> p = [] \<or> (\<exists>k \<le> length fs. p = ws_encode f @ concat (map ws_encode (take k fs)))" for p
    using ex_take_Cons [where f = f and fs = fs and P = "\<lambda>gs. p = concat (map ws_encode gs)"] by simp
  consider "prefix p (ws_encode f)" | q where "p = ws_encode f @ q" "prefix q (concat (map ws_encode fs))"
    using Cons.prems(2) by (auto simp: prefix_append)
  then show ?case
  proof cases
    case 1
    have "p = ws_encode f @ concat (map ws_encode (take k fs)) \<longleftrightarrow> p = ws_encode f \<and> concat (map ws_encode (take k fs)) = []" for k
      using 1 by (auto simp: prefix_def)
    then show ?thesis unfolding ex using feed_within_frame [OF ok(1) 1] by (metis concat.simps(1) list.map(1) take_0 zero_le)
  next
    case 2
    have "feed_state (Header []) p = feed_state (Header []) q" using feed_within_frame [OF ok(1), of "ws_encode f"] by (simp add: 2 feed_append)
    then show ?thesis unfolding ex using Cons.IH [OF _ 2(2)] Cons.prems(1) ok(2) 2(1) by simp
  qed
qed simp

section \<open>Closing\<close>

text \<open>Both closing frames are frames, with the code 1001 as payload; that to the agent is masked, as of a client.\<close>

lemma closing_frames:
  "SERVER_CLOSE_GOING_AWAY = ws_encode \<lparr>wf_first = 0x88, wf_form = Short, wf_mask = None, wf_payload = [0x03, 0xE9]\<rparr>"
  "masked_close m0 m1 m2 m3 = ws_encode \<lparr>wf_first = 0x88, wf_form = Short, wf_mask = Some [m0, m1, m2, m3], wf_payload = [0x03 XOR m0, 0xE9 XOR m1]\<rparr>"
  by (simp_all add: SERVER_CLOSE_GOING_AWAY_def masked_close_def ws_encode_def ws_header_def)

fun received :: "pump_event list \<Rightarrow> bytes" where
  "received [] = []"
| "received (Got bs w # es) = bs @ received es"
| "received (_ # es) = received es"

lemma received_append [simp]: "received (es @ es') = received es @ received es'"
  by (induction es rule: received.induct) auto

definition whole_frames :: "ws_frame list \<Rightarrow> bytes \<Rightarrow> bool" where
  "whole_frames fs p \<longleftrightarrow> (\<exists>k \<le> length fs. p = concat (map ws_encode (take k fs)))"

text \<open>The only way to a closing frame inside another: from the first firing of the timer to the second no read ends where a frame ends.\<close>

definition grace_ran_out :: "ws_frame list \<Rightarrow> bytes \<Rightarrow> pump_event list \<Rightarrow> bytes \<Rightarrow> bool" where
  "grace_ran_out fs sent es p \<longleftrightarrow> (\<exists>es2 es3. es = es2 @ Slept # es3 \<and> Slept \<notin> set es2 \<and> p = sent @ received es2 \<and>
     (\<forall>n \<le> length es2. \<not> whole_frames fs (sent @ received (take n es2))))"

lemma boundary_whole:
  assumes "\<forall>f \<in> set fs. ws_ok f" and "prefix (sent @ rest) (concat (map ws_encode fs))" and "fg_enabled frames" and "fg_state frames = feed_state (Header []) sent"
  shows "at_boundary frames \<longleftrightarrow> whole_frames fs sent"
  using boundary_exact [OF assms(1) append_prefixD [OF assms(2)]] assms(3,4) by (simp add: at_boundary_def whole_frames_def)

lemma feed_sent:
  assumes "fg_enabled frames" and "fg_state frames = feed_state (Header []) sent"
  shows "fg_enabled (feed frames bs)" "fg_state (feed frames bs) = feed_state (Header []) (sent @ bs)"
  using assms by (simp_all add: feed_def feed_append)

lemma pump_closing:
  assumes "pump True (Some c) frames True sent es = (Some Deadline, out)" and "\<forall>f \<in> set fs. ws_ok f" and "prefix (sent @ received es) (concat (map ws_encode fs))"
    and "fg_enabled frames" "fg_state frames = feed_state (Header []) sent" and "\<not> whole_frames fs sent"
  shows "\<exists>p. out = p @ c \<and> prefix p (sent @ received es) \<and> (whole_frames fs p \<or> grace_ran_out fs sent es p)"
  using assms
proof (induction es arbitrary: frames sent)
  case (Cons e es)
  show ?case
  proof (cases e)
    case Slept
    then have "out = sent @ c" using Cons.prems(1) by simp
    moreover have "grace_ran_out fs sent (e # es) sent"
      unfolding grace_ran_out_def by (intro exI [of _ "[]"] exI [of _ es]) (use Cons.prems(6) Slept in simp)
    ultimately show ?thesis by auto
  next
    case (Got bs w)
    have p: "prefix ((sent @ bs) @ received es) (concat (map ws_encode fs))" using Cons.prems(3) by (simp add: Got)
    note f = feed_sent [OF Cons.prems(4,5), of bs]
    note b = boundary_whole [OF Cons.prems(2) p f]
    show ?thesis
    proof (cases "whole_frames fs (sent @ bs)")
      case True
      then have "out = (sent @ bs) @ c" using Cons.prems(1) b by (auto simp: Got Let_def split: if_splits)
      then show ?thesis using True by (auto simp: Got)
    next
      case False
      then have "pump True (Some c) (feed frames bs) True (sent @ bs) es = (Some Deadline, out)"
        using Cons.prems(1) b by (auto simp: Got Let_def split: if_splits)
      from Cons.IH [OF this Cons.prems(2) p f False] obtain q where q: "out = q @ c" "prefix q (sent @ bs @ received es)"
        "whole_frames fs q \<or> grace_ran_out fs (sent @ bs) es q" by auto
      moreover have "grace_ran_out fs sent (e # es) q" if g: "grace_ran_out fs (sent @ bs) es q"
      proof -
        obtain es2 es3 where g: "es = es2 @ Slept # es3" "Slept \<notin> set es2" "q = sent @ bs @ received es2"
          "\<forall>n \<le> length es2. \<not> whole_frames fs (sent @ bs @ received (take n es2))" using g by (auto simp: grace_ran_out_def)
        have "\<not> whole_frames fs (sent @ received (take n (e # es2)))" if "n \<le> length (e # es2)" for n
          using that g(4) Cons.prems(6) by (cases n) (simp_all add: Got)
        then show ?thesis unfolding grace_ran_out_def using g(1,2,3) by (intro exI [of _ "e # es2"] exI [of _ es3]) (simp add: Got)
      qed
      ultimately show ?thesis by (auto simp: Got)
    qed
  qed (use Cons.prems(1) in auto)
qed simp

lemma pump_deadline:
  assumes "pump True (Some c) frames False sent es = (Some Deadline, out)" and "\<forall>f \<in> set fs. ws_ok f" and "prefix (sent @ received es) (concat (map ws_encode fs))"
    and "fg_enabled frames" "fg_state frames = feed_state (Header []) sent"
  shows "\<exists>p. out = p @ c \<and> prefix p (sent @ received es) \<and>
    (whole_frames fs p \<or> (\<exists>es1 es'. es = es1 @ Slept # es' \<and> Slept \<notin> set es1 \<and> grace_ran_out fs (sent @ received es1) es' p))"
  using assms
proof (induction es arbitrary: frames sent)
  case (Cons e es)
  show ?case
  proof (cases e)
    case Slept
    have p: "prefix (sent @ received es) (concat (map ws_encode fs))" using Cons.prems(3) by (simp add: Slept)
    note b = boundary_whole [OF Cons.prems(2) p Cons.prems(4,5)]
    show ?thesis
    proof (cases "whole_frames fs sent")
      case True
      then show ?thesis using Cons.prems(1) b by (auto simp: Slept)
    next
      case False
      then have "pump True (Some c) frames True sent es = (Some Deadline, out)" using Cons.prems(1) b by (simp add: Slept)
      from pump_closing [OF this Cons.prems(2) p Cons.prems(4,5) False] obtain q where q: "out = q @ c" "prefix q (sent @ received es)"
        "whole_frames fs q \<or> grace_ran_out fs sent es q" by blast
      moreover have "e # es = [] @ Slept # es" "Slept \<notin> set []" "sent @ received [] = sent" by (simp_all add: Slept)
      ultimately show ?thesis unfolding Slept by (metis received.simps(3))
    qed
  next
    case (Got bs w)
    have p: "prefix ((sent @ bs) @ received es) (concat (map ws_encode fs))" using Cons.prems(3) by (simp add: Got)
    have "pump True (Some c) (feed frames bs) False (sent @ bs) es = (Some Deadline, out)" using Cons.prems(1) by (auto simp: Got Let_def split: if_splits)
    from Cons.IH [OF this Cons.prems(2) p feed_sent [OF Cons.prems(4,5)]] obtain q where q: "out = q @ c" "prefix q (sent @ bs @ received es)"
      "whole_frames fs q \<or> (\<exists>es1 es'. es = es1 @ Slept # es' \<and> Slept \<notin> set es1 \<and> grace_ran_out fs (sent @ bs @ received es1) es' q)" by auto
    moreover have "\<exists>es1 es'. e # es = es1 @ Slept # es' \<and> Slept \<notin> set es1 \<and> grace_ran_out fs (sent @ received es1) es' q"
      if "es = es1 @ Slept # es'" "Slept \<notin> set es1" "grace_ran_out fs (sent @ bs @ received es1) es' q" for es1 es'
      using that by (intro exI [of _ "e # es1"] exI [of _ es']) (simp add: Got)
    ultimately show ?thesis by (auto simp: Got)
  qed (use Cons.prems(1) in auto)
qed simp

text \<open>
  C30. Where the entrance's closing frame lands. Whatever the sizes of the pieces in which a sender's WebSocket frames arrive, when one direction is
  ended at the time limit, the receiver got a beginning of what the sender sent, unchanged, and then the closing frame. That beginning is a number of
  whole frames, unless the timer fired, no piece read from then on ended where a frame ends, and the timer fired again at the end of the grace
  period; only then does the closing frame stand inside another. (Finishing the frame that was begun is not enough: when the piece that
  holds its end also holds the start of the next, the grace period goes on.)
\<close>

theorem closing_frame_at_boundary:
  assumes "pump True (Some c) (framing_new True) False [] es = (Some Deadline, out)" and "\<forall>f \<in> set fs. ws_ok f"
    and "prefix (received es) (concat (map ws_encode fs))"
  shows "\<exists>p. out = p @ c \<and> prefix p (received es) \<and> (whole_frames fs p \<or>
    (\<exists>es1 es2 es3. es = es1 @ Slept # es2 @ Slept # es3 \<and> Slept \<notin> set es1 \<and> Slept \<notin> set es2 \<and> p = received (es1 @ es2) \<and>
       (\<forall>n \<le> length es2. \<not> whole_frames fs (received (es1 @ take n es2)))))"
proof -
  from pump_deadline [OF assms(1,2), simplified, OF assms(3)] obtain p where p: "out = p @ c" "prefix p (received es)"
    "whole_frames fs p \<or> (\<exists>es1 es'. es = es1 @ Slept # es' \<and> Slept \<notin> set es1 \<and> grace_ran_out fs (received es1) es' p)"
    by (auto simp: framing_new_def)
  moreover have "\<exists>es1 es2 es3. es = es1 @ Slept # es2 @ Slept # es3 \<and> Slept \<notin> set es1 \<and> Slept \<notin> set es2 \<and> p = received (es1 @ es2) \<and>
      (\<forall>n \<le> length es2. \<not> whole_frames fs (received (es1 @ take n es2)))"
    if e: "es = es1 @ Slept # es'" "Slept \<notin> set es1" and g: "grace_ran_out fs (received es1) es' p" for es1 es'
  proof -
    from g obtain es2 es3 where "es' = es2 @ Slept # es3" "Slept \<notin> set es2" "p = received (es1 @ es2)"
      "\<forall>n \<le> length es2. \<not> whole_frames fs (received (es1 @ take n es2))" unfolding grace_ran_out_def by auto
    then show ?thesis using e by blast
  qed
  ultimately show ?thesis by (intro exI [of _ p]) fast
qed

theorem closing_frame_at_boundary_witness:
  "\<exists>fs es p. pump True (Some SERVER_CLOSE_GOING_AWAY) (framing_new True) False [] es = (Some Deadline, p @ SERVER_CLOSE_GOING_AWAY) \<and>
     es = [Got [0x81] True, Slept, Got [0x03, 0x61, 0x62] True, Got [0x63] True] \<and> p = [0x81, 0x03, 0x61, 0x62, 0x63] \<and>
     whole_frames fs p"
proof -
  let ?es = "[Got [0x81] True, Slept, Got [0x03, 0x61, 0x62] True, Got [0x63] True]"
  let ?f = "\<lparr>wf_first = 0x81, wf_form = Short, wf_mask = None, wf_payload = [0x61, 0x62, 0x63]\<rparr>"
  let ?p = "[0x81, 0x03, 0x61, 0x62, 0x63] :: bytes"
  have p: "pump True (Some SERVER_CLOSE_GOING_AWAY) (framing_new True) False [] ?es = (Some Deadline, ?p @ SERVER_CLOSE_GOING_AWAY)" by code_simp
  have ok: "\<forall>f \<in> set [?f]. ws_ok f" "prefix (received ?es) (concat (map ws_encode [?f]))" by code_simp+
  have two: "\<not> (\<exists>es1 es2 es3. ?es = es1 @ Slept # es2 @ Slept # es3)"
  proof
    assume "\<exists>es1 es2 es3. ?es = es1 @ Slept # es2 @ Slept # es3"
    then obtain es1 es2 es3 where "?es = es1 @ Slept # es2 @ Slept # es3" by blast
    from arg_cong [OF this, of "\<lambda>es. count_list es Slept"] show False by simp
  qed
  from closing_frame_at_boundary [OF p ok] two show ?thesis using p by (metis append_same_eq)
qed

text \<open>The other case does happen: a closing frame in the second byte of the next text frame, though the frame that was begun had been finished.\<close>

lemma closing_frame_inside_another:
  "pump True (Some SERVER_CLOSE_GOING_AWAY) (framing_new True) False []
     [Got [0x81, 0x03] True, Slept, Got [0x61, 0x62, 0x63, 0x81] True, Slept] =
   (Some Deadline, [0x81, 0x03, 0x61, 0x62, 0x63, 0x81, 0x88, 0x02, 0x03, 0xE9])"
  by code_simp

end
