(* ===== verification/Spec2Isabelle.thy ===== *)
theory Spec2Isabelle
  imports Mux_Session Mux_Io Server_Pool Fake_Dns Routing Sni Sync_Migrate Sync_Transport Relay_Server Udp_Flows Import_Publish Hub_Access Web_Splice
begin

text \<open>
  A verification development for xr-proxy: a proxy that carries TCP streams and UDP datagrams of a router or a phone through obfuscated tunnels to a server,
  and a file-sharing service on top of it (a hub that issues mandates, agents that serve directories, a relay for agents that cannot be reached, and the
  phone's mirror of a share).

  \<^bold>\<open>The program and its parts.\<close> An application's name query is answered by the fake resolver with an address of a private range; the connection to that address
  (or, on a router, the server name found in the first TLS record) gives the name back, the routing rules decide whether it goes direct or through the proxy, and
  a proxied connection becomes one stream of a multiplexed tunnel. Tunnels to one server form a mux pool, servers form a server pool with failover. Frames on a
  tunnel are obfuscated by a positional cipher. UDP goes beside the tunnel as single obfuscated packets. On the sharing side the hub signs mandates, a consumer
  presents them to an agent directly or through the relay, the agent checks them before it lists, serves, takes or imports files, and the consumer's
  mirror brings a local folder in step with the listing. All paths below are under \<^verbatim>\<open>src/\<close>.

  \<^bold>\<open>Foundations.\<close>
  \<^item> \<^verbatim>\<open>XR_Prelude\<close>: machine integers as words, big-endian bytes, UTF-8 validation, I/O errors, instants, bounded channels of tokio, and the locale
    \<^verbatim>\<open>transition_system\<close> (an initial predicate, a step relation, an invariant kept by every step; reachable states by the inductive predicate \<^verbatim>\<open>reach\<close>). It is
    interpreted for each concurrent part of the program, whose invariants are obtained through it.
  \<^item> \<^verbatim>\<open>Rust_Str\<close>: the methods of \<^verbatim>\<open>str\<close> and the address parsers of the standard library that the code calls. Strings are lists of UTF-8 bytes; the lower case of
    letters outside ASCII is a parameter. \<^verbatim>\<open>Disk\<close>: \<^verbatim>\<open>std::fs\<close> on a tree of directories, files with times, and symbolic links.

  \<^bold>\<open>The tunnel\<close> (\<^verbatim>\<open>xr-proto\<close>).
  \<^item> \<^verbatim>\<open>Obfuscation\<close> (\<^verbatim>\<open>obfuscation.rs\<close>): substitution table, modifiers, \<^verbatim>\<open>Obfuscator::apply\<close>; the locale \<^verbatim>\<open>stream_cipher\<close> says that applying it twice at one offset
    gives the bytes back and that a buffer may be processed in pieces. The width of \<^verbatim>\<open>usize\<close> is a field of the obfuscator.
  \<^item> \<^verbatim>\<open>Protocol\<close> (\<^verbatim>\<open>protocol.rs\<close>): commands, payloads, target addresses, \<^verbatim>\<open>encode_frame\<close> and \<^verbatim>\<open>decode_frame\<close>; the locale \<^verbatim>\<open>frame_codec\<close>
    (a decoder reads back an encoded frame, followed by anything, and asks for more bytes on a proper prefix) is extended in \<^verbatim>\<open>Mux_Wire\<close> by \<^verbatim>\<open>frame_reader\<close>: however
    the network cuts the stream, \<^verbatim>\<open>reader_task\<close> dispatches the frames that were written, in order.
  \<^item> \<^verbatim>\<open>Mux_Flow\<close>, \<^verbatim>\<open>Mux_Session\<close>, \<^verbatim>\<open>Mux_Handshake\<close>, \<^verbatim>\<open>Mux\<close>, \<^verbatim>\<open>Mux_Io\<close>, \<^verbatim>\<open>Relay_Health\<close> (\<^verbatim>\<open>mux.rs\<close>): the send window and receive credit; one direction of a stream end to
    end, whose receiver never holds more than its window; capability negotiation; the registry of streams, \<^verbatim>\<open>dispatch_frame\<close> and \<^verbatim>\<open>open_stream\<close> with timeout and
    cancellation; the \<^verbatim>\<open>AsyncRead\<close>/\<^verbatim>\<open>AsyncWrite\<close> adapter; the sliding window of relay failures.
  \<^item> \<^verbatim>\<open>Mux_Pool\<close>, \<^verbatim>\<open>Server_Pool\<close> (\<^verbatim>\<open>mux_pool.rs\<close>, \<^verbatim>\<open>server_pool.rs\<close>): slots, breaker and probe election with callers interleaved, and that a call returns when what it
    waits for comes; the choice of the server, failover to the first that answers while others change the pool, failback with hold-down and flap penalty, degradation.
  \<^item> \<^verbatim>\<open>Udp_Relay\<close>, \<^verbatim>\<open>Udp_Nat\<close>, \<^verbatim>\<open>Udp_Flows\<close> (\<^verbatim>\<open>udp_relay.rs\<close> of \<^verbatim>\<open>xr-proto\<close>, \<^verbatim>\<open>xr-client\<close> and \<^verbatim>\<open>xr-server\<close>): the packet format, the router's table of tunnel ports,
    and the server's flows, each with a queue and a task; an answer returns to the device that asked, a tunnel port belongs to one device, a flow keeps order.

  \<^bold>\<open>Choosing what to tunnel.\<close>
  \<^item> \<^verbatim>\<open>Fake_Dns\<close> (\<^verbatim>\<open>xr-core/src/dns.rs\<close>): allocation, renewal, eviction and lookup of addresses over time, the parser of questions and the builder of answers.
  \<^item> \<^verbatim>\<open>Sni\<close> (\<^verbatim>\<open>sni.rs\<close>): the sniffer, with every slice access checked, never panics and finds the name of a well-formed hello.
  \<^item> \<^verbatim>\<open>User_Rule\<close>, \<^verbatim>\<open>Routing\<close> (\<^verbatim>\<open>user_rule.rs\<close>, \<^verbatim>\<open>routing.rs\<close>): patterns, CIDR ranges, compiled rules, and a verdict that refines the user's list of rules.

  \<^bold>\<open>Sharing.\<close>
  \<^item> \<^verbatim>\<open>Share\<close> (\<^verbatim>\<open>share.rs\<close>): the bytes each kind of mandate signs, issuing and checking; accepted mandates were issued with the same content, provided that signatures
    cannot be forged. \<^verbatim>\<open>Relay_Server\<close> (\<^verbatim>\<open>xr-relay/src/lib.rs\<close>, \<^verbatim>\<open>registry.rs\<close>): registrations with generations, budgets, and the two
    handlers as interleaved tasks.
  \<^item> \<^verbatim>\<open>Agent_Gate\<close>, \<^verbatim>\<open>Agent_Write\<close>, \<^verbatim>\<open>Agent_Listing\<close> (\<^verbatim>\<open>safepath.rs\<close>, \<^verbatim>\<open>auth.rs\<close>, \<^verbatim>\<open>server.rs\<close>, \<^verbatim>\<open>manifest.rs\<close> of \<^verbatim>\<open>xr-share\<close>): no request leaves its share or goes
    without its mandate; uploads and deletions by many tasks refine an atomic store of files, whatever breaks in between, and only three accidents leave temporary files; of
    the files reached without a link those that are listed can be fetched and no others, and a warm cache makes the quick listing the full manifest.
  \<^item> \<^verbatim>\<open>Import_Gate\<close>, \<^verbatim>\<open>Import_Jobs\<close>, \<^verbatim>\<open>Import_Publish\<close> (\<^verbatim>\<open>import.rs\<close>, \<^verbatim>\<open>meta.rs\<close> of \<^verbatim>\<open>xr-share\<close>): the gate on links against the deny list that the sandbox gets, the choice of a
    plugin, the job table and its runner under every interleaving with callers (no job is lost, none is left behind while the runner sleeps),
    the publication of the output and the origin index.
  \<^item> \<^verbatim>\<open>Sync_Plan\<close>, \<^verbatim>\<open>Transfer_Control\<close>, \<^verbatim>\<open>Sync_Fs\<close>, \<^verbatim>\<open>Sync_Apply\<close>, \<^verbatim>\<open>Sync_Mirror\<close>, \<^verbatim>\<open>Sync_Migrate\<close>, \<^verbatim>\<open>Sync_Transport\<close> (\<^verbatim>\<open>xr-core/src/sync.rs\<close>): the plan, cancelling by
    number, scans with the hash index, downloads with resume and verification, a whole run (a run without failures leaves the selected listing on disk), moving the folder,
    and the choice of address for reads and for writes.
  \<^item> \<^verbatim>\<open>Hub\<close>, \<^verbatim>\<open>Hub_Access\<close> (\<^verbatim>\<open>xr-hub/src/api\<close>: \<^verbatim>\<open>invites.rs\<close>, \<^verbatim>\<open>register.rs\<close>, \<^verbatim>\<open>share_v2.rs\<close>, \<^verbatim>\<open>shares.rs\<close>; \<^verbatim>\<open>storage.rs\<close>, \<^verbatim>\<open>state.rs\<close>): invites, registration tokens,
    agents' credentials, shares and their bindings to invites, in memory and on disk. In every history of requests, failing saves and restarts a one-time invite
    has one owner, revocation is final, a share obeys the agent that registered it, and a token for writing exists only where that agent agreed twice. Together
    with \<^verbatim>\<open>Share\<close> and \<^verbatim>\<open>Agent_Gate\<close> this follows a write from the owner's decision at the hub to the file on the agent's disk.
  \<^item> \<^verbatim>\<open>Web_Session\<close> (\<^verbatim>\<open>xr-web/src/session.rs\<close>, \<^verbatim>\<open>app.rs\<close>): the session cookie of the browser entrance next to the cookies of the application behind it, the table of
    sessions, and the delay after wrong passwords, with the time that guessing takes. \<^verbatim>\<open>Web_Splice\<close> (\<^verbatim>\<open>upgrade.rs\<close>): a connection
    after a change of protocol, and when the closing frame that ends it at the time limit stands between whole frames.

  \<^bold>\<open>Conventions.\<close> Randomness, clocks, the network's answers, system calls that can fail, cryptography, JSON and name resolution are arguments; what is assumed
  of them is a named predicate (\<^verbatim>\<open>crypto_ok\<close>, \<^verbatim>\<open>unforgeable\<close>, \<^verbatim>\<open>rng_ok\<close>) that a witness shows to be satisfiable. Time is a natural number. Where a
  part is modelled as steps that interleave, a block under a lock is one step and the release of a lock or an await is a step boundary; where several short locks
  are taken as one step, or an operation is given as it runs undisturbed (\<^verbatim>\<open>Web_Session\<close>, \<^verbatim>\<open>Udp_Nat\<close>, the ticks of \<^verbatim>\<open>Server_Pool\<close>), the theory says so. Loops are structural recursion or come with a termination proof; no model uses fuel. Errors are values of a datatype or a sum with the texts
  or status codes of the code where a caller sees them. Numbers that can wrap (\<^verbatim>\<open>u32\<close> stream numbers and windows, \<^verbatim>\<open>u64\<close> counters and sizes) are words.

  \<^bold>\<open>Not modelled.\<close> The VPN engine with its TUN device and TCP stack (\<^verbatim>\<open>xr-core/src/engine.rs\<close>, \<^verbatim>\<open>session.rs\<close>, \<^verbatim>\<open>ip_stack.rs\<close>), the handlers that copy bytes between sockets
  (\<^verbatim>\<open>xr-server\<close>, \<^verbatim>\<open>xr-client/src/proxy.rs\<close>, \<^verbatim>\<open>relay_tls.rs\<close>, \<^verbatim>\<open>tunnel.rs\<close>), TLS, the JNI bridge, the installer, command lines and configuration files, the hub's
  presets, publications, sign-in and pages, and the proxying of the web front end: these are I/O around libraries whose behaviour is not in the repository. The log, the keepalive timer, and
  the JSON of index files are left out of the components that are modelled; each theory's opening text says what else it leaves out.
\<close>

end
